(* ===== verification/Kurila_Prelude.thy ===== *)
theory Kurila_Prelude
  imports Main "HOL-Library.Word"
begin

text \<open>
  What every component theory of the development shares: the C types of the modelled
  configuration, the error values, the memory allocator the code calls, generic facts about
  lists and words, and the interface of a keyed store.

  The modelled configuration is the one \<open>Configure\<close> chooses on Linux with gcc on x86-64:
  64-bit \<open>IV\<close>, \<open>UV\<close> and pointers, 32-bit \<open>I32\<close> and \<open>U32\<close>, signed \<open>char\<close>, ASCII (no
  \<open>EBCDIC\<close>), \<open>HAS_QUAD\<close>, the system's \<open>malloc\<close> (no \<open>MYMALLOC\<close>), no \<open>DEBUGGING\<close>.
\<close>

unbundle bit_operations_syntax

section \<open>Machine types\<close>

type_synonym u8 = "8 word"
type_synonym u32 = "32 word"
type_synonym uv = "64 word"
type_synonym iv = "64 word"    \<comment> \<open>an \<open>IV\<close>, read with \<open>sint\<close>\<close>
type_synonym ptr = "64 word"   \<comment> \<open>an address; NULL is 0\<close>

text \<open>
  A byte constant of the C source, written as its character: \<open>ch CHR ''b''\<close> is \<open>'b'\<close>.
\<close>

abbreviation ch :: "char \<Rightarrow> u8" where
  "ch c \<equiv> of_char c"

text \<open>
  A C string: the bytes before the terminating NUL. Reading at the end of the buffer gives
  the NUL that every \<open>PV\<close> buffer carries.
\<close>

definition rd :: "u8 list \<Rightarrow> nat \<Rightarrow> u8" where
  "rd s i = (if i < length s then s ! i else 0)"

section \<open>Errors\<close>

text \<open>\<open>Perl_croak\<close> does not return: the operation's value is the message it dies with.\<close>

datatype croak =
    No_modify                        \<comment> \<open>\<open>PL_no_modify\<close>\<close>
  | Out_of_memory
  | Anonymous_stash
  | Recursive_inheritance "u8 list"
  | Inconsistent_hierarchy "u8 list" "u8 list"
  | Isa_not_array
  | Isa_elem_not_plain
  | No_such_class "u8 list"
  | Usage string
  | Odd_bytelen nat
  | Malformed_surrogate
  | Format_overflow
  | Disallowed_key "u8 list"
  | Delete_from_readonly "u8 list"
  | Delete_readonly "u8 list"
  | Delete_disallowed "u8 list"
  | Bad_hash
  | Null_pointer                     \<comment> \<open>not a message: the process dies on a wild or NULL pointer\<close>

type_synonym 'a result = "croak + 'a"

definition bind_result :: "'a result \<Rightarrow> ('a \<Rightarrow> 'b result) \<Rightarrow> 'b result" where
  "bind_result r f = (case r of Inl e \<Rightarrow> Inl e | Inr x \<Rightarrow> f x)"

lemma bind_result_simps [simp]:
  "bind_result (Inl e) f = Inl e"
  "bind_result (Inr x) f = f x"
  by (simp_all add: bind_result_def)

lemma bind_result_Inr:
  "bind_result r f = Inr y \<longleftrightarrow> (\<exists>x. r = Inr x \<and> f x = Inr y)"
  by (cases r) simp_all

lemma bind_result_Inl: "bind_result r f = Inl e \<longleftrightarrow> r = Inl e \<or> (\<exists>x. r = Inr x \<and> f x = Inl e)"
  by (cases r) simp_all

lemma bind_result_InrE:
  assumes "bind_result r f = Inr y"
  obtains x where "r = Inr x" "f x = Inr y"
  using assms by (cases r) simp_all

section \<open>Signed integers\<close>

text \<open>A conversion to \<open>I32\<close>.\<close>

definition to_I32 :: "int \<Rightarrow> int" where
  "to_I32 x = sint (of_int x :: 32 word)"

lemma to_I32_id: "- (2 ^ 31) \<le> x \<Longrightarrow> x < 2 ^ 31 \<Longrightarrow> to_I32 x = x"
  by (simp add: to_I32_def signed_of_int signed_take_bit_int_eq_self)

lemma to_I32_int: "n < 2 ^ 31 \<Longrightarrow> to_I32 (int n) = int n"
  by (rule to_I32_id) simp_all

section \<open>The allocator\<close>

text \<open>
  The system's allocator is not part of the program. It is a parameter: \<open>m n\<close> tells whether
  a request for \<open>n\<close> bytes succeeds. \<open>safesysmalloc\<close> and \<open>safesysrealloc\<close> die with ``Out of
  memory!'' when it does not. \<open>newx m n sz\<close> is the request of \<open>Newx\<close> and \<open>Renew\<close>: \<open>n\<close>
  objects of \<open>size\<close> bytes, after \<open>MEM_WRAP_CHECK\<close>.
  The one fact used about the allocator is that no object has \<open>2 ^ 63\<close> bytes or more
  (\<open>PTRDIFF_MAX\<close>, as the malloc manual documents).
\<close>

type_synonym allocator = "nat \<Rightarrow> bool"

definition sane_allocator :: "allocator \<Rightarrow> bool" where
  "sane_allocator m \<longleftrightarrow> (\<forall>n. m n \<longrightarrow> n < 2 ^ 63)"

definition newx :: "allocator \<Rightarrow> nat \<Rightarrow> nat \<Rightarrow> bool" where
  "newx m n sz \<longleftrightarrow> n \<le> (2 ^ 64 - 1) div sz \<and> m (n * sz)"

lemma newx_bound: "sane_allocator m \<Longrightarrow> newx m n sz \<Longrightarrow> n * sz < 2 ^ 63"
  by (simp add: sane_allocator_def newx_def)

text \<open>An allocator with a fixed amount of memory, for the concrete instances.\<close>

definition fixed_allocator :: "nat \<Rightarrow> allocator" where
  "fixed_allocator avail n \<longleftrightarrow> n \<le> avail"

lemma sane_fixed_allocator: "avail < 2 ^ 63 \<Longrightarrow> sane_allocator (fixed_allocator avail)"
  by (simp add: sane_allocator_def fixed_allocator_def)

section \<open>Lists\<close>

lemma list_update_Some_nth:
  "i < length xs \<Longrightarrow> xs[i := f (xs ! i)] ! j = (if i = j then f (xs ! i) else xs ! j)"
  by (cases "i = j") simp_all

lemma concat_list_update_perm:
  "i < length xss \<Longrightarrow>
   length (concat (xss[i := ys])) + length (xss ! i) = length (concat xss) + length ys"
  by (induction xss arbitrary: i) (auto split: nat.split)

lemma sum_list_map_le_mono:
  "(\<And>x. x \<in> set xs \<Longrightarrow> f x \<le> (g x :: nat)) \<Longrightarrow> sum_list (map f xs) \<le> sum_list (map g xs)"
  by (induction xs) (auto intro: add_mono)

lemma takeWhile_dropWhile_length:
  "length (takeWhile P xs) + length (dropWhile P xs) = length xs"
  by (metis length_append takeWhile_dropWhile_id)

text \<open>\<open>xs\<close> is what is left of the buffer at the position \<open>s\<close>.\<close>

definition rest_at :: "u8 list \<Rightarrow> nat \<Rightarrow> u8 list \<Rightarrow> bool" where
  "rest_at buf s xs \<longleftrightarrow> s \<le> length buf \<and> drop s buf = xs"

lemma rest_at_0 [simp]: "rest_at buf 0 xs \<longleftrightarrow> xs = buf"
  by (auto simp: rest_at_def)

lemma rest_at_Nil: "rest_at buf s [] \<Longrightarrow> s = length buf \<and> rd buf s = 0"
  by (simp add: rest_at_def rd_def)

lemma rest_at_Cons: "rest_at buf s (x # xs) \<longleftrightarrow> s < length buf \<and> rd buf s = x \<and> rest_at buf (Suc s) xs"
  by (cases "s < length buf") (auto simp: rest_at_def rd_def Cons_nth_drop_Suc[symmetric])

lemma rest_at_append: "rest_at buf s (xs @ ys) \<Longrightarrow> rest_at buf (s + length xs) ys"
proof (induction xs arbitrary: s)
  case (Cons x xs)
  then have "rest_at buf (Suc s) (xs @ ys)" by (simp add: rest_at_Cons)
  from Cons.IH[OF this] show ?case by simp
qed simp

lemma rest_at_rd: "rest_at buf s xs \<Longrightarrow> rd buf s = (case xs of [] \<Rightarrow> 0 | x # _ \<Rightarrow> x)"
  by (auto simp: rest_at_Cons dest: rest_at_Nil split: list.split)

lemma rest_at_less: "rest_at buf s xs \<Longrightarrow> s < length buf \<longleftrightarrow> xs \<noteq> []"
  by (auto simp: rest_at_def)

section \<open>Words\<close>

lemma word_and_mask_eq_mod:
  fixes w :: "'a::len word"
  shows "unat (w AND mask k) = unat w mod 2 ^ k"
proof -
  have "unat (take_bit k w) = unat w mod 2 ^ k"
    by (simp only: unsigned_take_bit_eq) (simp add: take_bit_eq_mod)
  then show ?thesis
    by (simp add: take_bit_eq_mask)
qed

lemma unat_uv_max [simp]: "unat (- 1 :: uv) = 18446744073709551615"
  by (simp add: unsigned_minus_1_eq_mask mask_eq_exp_minus_1)

lemma unat_uv_less [simp]: "unat (v :: uv) < 18446744073709551616"
proof -
  have "unat v < 2 ^ LENGTH(64)" by (rule unsigned_less)
  then show ?thesis by simp
qed

lemma unat_u8_less [simp]: "unat (c :: u8) < 256"
proof -
  have "unat c < 2 ^ LENGTH(8)" by (rule unsigned_less)
  then show ?thesis by simp
qed

lemma unat_uv_not_ge [simp]: "\<not> 18446744073709551616 \<le> unat (v :: uv)"
  by (simp add: not_le)

lemma unat_of_nat_less: "n < 2 ^ 64 \<Longrightarrow> unat (of_nat n :: uv) = n"
  by (simp add: unat_of_nat take_bit_nat_eq_self_iff)

lemma mod_double_cases:
  fixes x :: nat
  shows "x mod 2 ^ Suc k = x mod 2 ^ k \<or> x mod 2 ^ Suc k = x mod 2 ^ k + 2 ^ k"
proof -
  have "x mod (2 ^ k * 2) = 2 ^ k * (x div 2 ^ k mod 2) + x mod 2 ^ k"
    by (rule mod_mult2_eq)
  moreover have "x div 2 ^ k mod 2 = 0 \<or> x div 2 ^ k mod 2 = 1"
    by auto
  ultimately show ?thesis
    by (auto simp: mult.commute)
qed

section \<open>The interface of a keyed store\<close>

text \<open>
  A table of values by key, as its clients see it: \<open>fetch\<close> reads the value of a key (with a
  default where there is none), \<open>store\<close> may die. The laws are what every provider promises of
  one store; the lemmas are about any sequence of them.
\<close>

fun store_all :: "('t \<Rightarrow> 'k \<Rightarrow> 'v \<Rightarrow> 't result) \<Rightarrow> 't \<Rightarrow> ('k \<times> 'v) list \<Rightarrow> 't result" where
  "store_all store t [] = Inr t"
| "store_all store t ((k, v) # kvs) = bind_result (store t k v) (\<lambda>t'. store_all store t' kvs)"

locale keyed_store =
  fixes fetch :: "'t \<Rightarrow> 'k \<Rightarrow> 'v"
    and store :: "'t \<Rightarrow> 'k \<Rightarrow> 'v \<Rightarrow> 't result"
    and invar :: "'t \<Rightarrow> bool"
  assumes fetch_store:
      "invar t \<Longrightarrow> store t k v = Inr t' \<Longrightarrow> fetch t' k' = (if k' = k then v else fetch t k')"
    and invar_store: "invar t \<Longrightarrow> store t k v = Inr t' \<Longrightarrow> invar t'"
begin

lemma invar_store_all: "invar t \<Longrightarrow> store_all store t kvs = Inr t' \<Longrightarrow> invar t'"
proof (induction kvs arbitrary: t)
  case (Cons kv kvs)
  then show ?case
    by (cases kv) (auto simp: bind_result_Inr dest: Cons.IH[OF invar_store])
qed simp

lemma fetch_store_all:
  "invar t \<Longrightarrow> store_all store t kvs = Inr t' \<Longrightarrow>
   fetch t' k = (case map_of (rev kvs) k of None \<Rightarrow> fetch t k | Some v \<Rightarrow> v)"
proof (induction kvs arbitrary: t)
  case Nil
  then show ?case by simp
next
  case (Cons kv kvs)
  obtain k1 v1 where kv: "kv = (k1, v1)" by (cases kv)
  with Cons.prems obtain s where s: "store t k1 v1 = Inr s" "store_all store s kvs = Inr t'"
    by (auto simp: bind_result_Inr)
  with Cons.prems have "invar s" by (auto intro: invar_store)
  with Cons.IH s have "fetch t' k = (case map_of (rev kvs) k of None \<Rightarrow> fetch s k | Some v \<Rightarrow> v)"
    by blast
  moreover have "fetch s k = (if k = k1 then v1 else fetch t k)"
    using Cons.prems(1) s(1) by (rule fetch_store)
  ultimately show ?case
    by (auto simp: kv map_add_def split: option.split)
qed

end

end
