(* ===== verification/Ptr_Table.thy ===== *)
theory Ptr_Table
  imports Kurila_Prelude
begin

text \<open>
  The pointer map of \<open>sv.c\<close> (\<open>Perl_ptr_table_*\<close>): a chained hash table from addresses to
  addresses that doubles when it is full. A chain is the list of the entries that are reached from
  its bucket by the \<open>next\<close> links. The bodies of new entries come from the body arena, which is
  taken to have room. \<open>del_pte\<close> gives an entry back: it is put in front of the free list
  (\<open>PL_body_roots[PTE_SVSLOT]\<close>), whose links are the first words of the bodies, here \<open>next\<close>.
\<close>

section \<open>The table\<close>

record pte =
  oldval :: ptr
  newval :: ptr

record ptr_tbl =
  tbl_ary :: "pte list list"
  tbl_max :: uv
  tbl_items :: uv

definition ptr_table_new :: "allocator \<Rightarrow> ptr_tbl result" where
  "ptr_table_new m =
     (if newx m 1 24 \<and> newx m 512 8
      then Inr \<lparr>tbl_ary = replicate 512 [], tbl_max = 511, tbl_items = 0\<rparr>
      else Inl Out_of_memory)"

definition PTR_TABLE_HASH :: "ptr \<Rightarrow> uv" where
  "PTR_TABLE_HASH p = drop_bit 3 p XOR drop_bit (3 + 7) p XOR drop_bit (3 + 17) p"

fun find_chain :: "pte list \<Rightarrow> ptr \<Rightarrow> pte option" where
  "find_chain [] sv = None"
| "find_chain (e # es) sv = (if oldval e = sv then Some e else find_chain es sv)"

definition ptr_table_find :: "ptr_tbl \<Rightarrow> ptr \<Rightarrow> pte option" where
  "ptr_table_find t sv = find_chain (tbl_ary t ! unat (PTR_TABLE_HASH sv AND tbl_max t)) sv"

definition ptr_table_fetch :: "ptr_tbl \<Rightarrow> ptr \<Rightarrow> ptr" where
  "ptr_table_fetch t sv = (case ptr_table_find t sv of Some e \<Rightarrow> newval e | None \<Rightarrow> 0)"

text \<open>
  \<open>Perl_ptr_table_split\<close>. The inner loop walks one chain: an entry whose hash under the new
  mask is no longer \<open>i\<close> is unlinked and pushed on the front of the chain \<open>oldsize\<close> further up.
\<close>

fun split_chain :: "uv \<Rightarrow> uv \<Rightarrow> pte list \<Rightarrow> pte list \<Rightarrow> pte list \<times> pte list" where
  "split_chain newmax i [] moved = ([], moved)"
| "split_chain newmax i (e # es) moved =
     (if newmax AND PTR_TABLE_HASH (oldval e) \<noteq> i
      then split_chain newmax i es (e # moved)
      else (let (kept, moved') = split_chain newmax i es moved in (e # kept, moved')))"

text \<open>The outer loop, \<open>n\<close> buckets to go from bucket \<open>i\<close> on.\<close>

fun split_loop :: "uv \<Rightarrow> nat \<Rightarrow> nat \<Rightarrow> nat \<Rightarrow> pte list list \<Rightarrow> pte list list" where
  "split_loop newmax oldsize i 0 ary = ary"
| "split_loop newmax oldsize i (Suc n) ary =
     (if ary ! i = [] then split_loop newmax oldsize (Suc i) n ary
      else (let (kept, moved) = split_chain newmax (of_nat i) (ary ! i) (ary ! (i + oldsize))
            in split_loop newmax oldsize (Suc i) n (ary[i := kept, i + oldsize := moved])))"

definition ptr_table_split :: "allocator \<Rightarrow> ptr_tbl \<Rightarrow> ptr_tbl result" where
  "ptr_table_split m t =
     (let oldsize = tbl_max t + 1;
          newsize = oldsize * 2
      in if \<not> newx m (unat newsize) 8 then Inl Out_of_memory
         else let ary = tbl_ary t @ replicate (unat newsize - unat oldsize) [];
                  newmax = newsize - 1
              in Inr (t\<lparr>tbl_max := newmax,
                        tbl_ary := split_loop newmax (unat oldsize) 0 (unat oldsize) ary\<rparr>))"

fun set_newval :: "pte list \<Rightarrow> ptr \<Rightarrow> ptr \<Rightarrow> pte list" where
  "set_newval [] sv v = []"
| "set_newval (e # es) sv v =
     (if oldval e = sv then e\<lparr>newval := v\<rparr> # es else e # set_newval es sv v)"

definition ptr_table_store :: "allocator \<Rightarrow> ptr_tbl \<Rightarrow> ptr \<Rightarrow> ptr \<Rightarrow> ptr_tbl result" where
  "ptr_table_store m t oldsv newsv =
     (let entry = unat (PTR_TABLE_HASH oldsv AND tbl_max t); chain = tbl_ary t ! entry
      in case ptr_table_find t oldsv of
           Some e \<Rightarrow> Inr (t\<lparr>tbl_ary := (tbl_ary t)[entry := set_newval chain oldsv newsv]\<rparr>)
         | None \<Rightarrow>
             (let t' = t\<lparr>tbl_ary := (tbl_ary t)[entry := \<lparr>oldval = oldsv, newval = newsv\<rparr> # chain],
                         tbl_items := tbl_items t + 1\<rparr>
              in if chain \<noteq> [] \<and> tbl_items t' > tbl_max t' then ptr_table_split m t' else Inr t'))"

text \<open>
  \<open>Perl_ptr_table_clear\<close>: from the last bucket down to the first, every entry is given back.
  \<open>clear_chain\<close> is the free list after the entries of one chain, first to last, have been put in front
  of it. The bucket still points at the first of them, whose \<open>next\<close> now leads into the free list as
  it was before: \<open>clear_head\<close> is what is reached from the bucket.
\<close>

fun clear_chain :: "pte list \<Rightarrow> pte list \<Rightarrow> pte list" where
  "clear_chain [] root = root"
| "clear_chain (oentry # entry) root = clear_chain entry (oentry # root)"

fun clear_head :: "pte list \<Rightarrow> pte list \<Rightarrow> pte list" where
  "clear_head [] root = []"
| "clear_head (oentry # entry) root = oentry # root"

text \<open>\<open>clear_loop n\<close> has the buckets below \<open>n\<close> to go.\<close>

fun clear_loop :: "nat \<Rightarrow> pte list list \<Rightarrow> pte list \<Rightarrow> pte list list \<times> pte list" where
  "clear_loop 0 ary root = (ary, root)"
| "clear_loop (Suc riter) ary root =
     clear_loop riter (ary[riter := clear_head (ary ! riter) root]) (clear_chain (ary ! riter) root)"

text \<open>The arguments are the free list and the table; the result is both after the call.\<close>

definition ptr_table_clear :: "pte list \<Rightarrow> ptr_tbl \<Rightarrow> pte list \<times> ptr_tbl" where
  "ptr_table_clear root t =
     (if tbl_items t \<noteq> 0
      then (let (ary, root) = clear_loop (Suc (unat (tbl_max t))) (tbl_ary t) root
            in (root, t\<lparr>tbl_ary := ary, tbl_items := 0\<rparr>))
      else (root, t))"

text \<open>
  \<open>Perl_ptr_table_free\<close>, of a table or NULL: the entries are given back, then the array and the
  table released. The result is the free list, and whether there was a table to release.
\<close>

definition ptr_table_free :: "pte list \<Rightarrow> ptr_tbl option \<Rightarrow> pte list \<times> bool" where
  "ptr_table_free root tbl =
     (case tbl of None \<Rightarrow> (root, False) | Some t \<Rightarrow> (fst (ptr_table_clear root t), True))"

section \<open>Well-formed tables\<close>

text \<open>The bucket of an address in a table of \<open>2 ^ k\<close> buckets.\<close>

definition bucket :: "nat \<Rightarrow> ptr \<Rightarrow> nat" where
  "bucket k p = unat (PTR_TABLE_HASH p) mod 2 ^ k"

definition keys :: "pte list \<Rightarrow> ptr list" where
  "keys c = map oldval c"

definition chain_map :: "pte list \<Rightarrow> ptr \<Rightarrow> ptr option" where
  "chain_map c = map_of (map (\<lambda>e. (oldval e, newval e)) c)"

definition buckets_ok :: "nat \<Rightarrow> pte list list \<Rightarrow> bool" where
  "buckets_ok k ary \<longleftrightarrow>
     length ary = 2 ^ k \<and>
     (\<forall>i < 2 ^ k. distinct (keys (ary ! i)) \<and> (\<forall>p \<in> set (keys (ary ! i)). bucket k p = i))"

text \<open>
  The invariant of a table: a power of two of buckets and the mask for it, every entry in the
  bucket its key hashes to, no key twice, and the item count. The bound on the number of buckets
  is kept because the array is an object of the allocator.
\<close>

definition ptr_tbl_ok :: "ptr_tbl \<Rightarrow> bool" where
  "ptr_tbl_ok t \<longleftrightarrow>
     (\<exists>k \<le> 59. tbl_max t = mask k \<and> buckets_ok k (tbl_ary t)) \<and>
     tbl_items t = of_nat (length (concat (tbl_ary t)))"

lemma bucket_less [simp]: "bucket k p < 2 ^ k"
  by (simp add: bucket_def)

lemma unat_hash_mask: "unat (PTR_TABLE_HASH p AND mask k) = bucket k p"
  by (simp add: bucket_def word_and_mask_eq_mod)

lemma mask_hash_eq:
  assumes "i < 2 ^ 63"
  shows "(mask k AND PTR_TABLE_HASH p = of_nat i) = (bucket k p = i)"
proof -
  have "unat (of_nat i :: uv) = i"
    using assms by (intro unat_of_nat_less) simp
  then show ?thesis
    by (simp add: word_unat_eq_iff unat_hash_mask and.commute[of "mask k"])
qed

lemma chain_map_simps [simp]:
  "chain_map [] p = None"
  "chain_map (e # c) p = (if oldval e = p then Some (newval e) else chain_map c p)"
  by (simp_all add: chain_map_def)

lemma keys_simps [simp]:
  "keys [] = []"
  "keys (e # c) = oldval e # keys c"
  "keys (c @ d) = keys c @ keys d"
  by (simp_all add: keys_def)

lemma chain_map_append: "chain_map (c @ d) p = (case chain_map c p of None \<Rightarrow> chain_map d p | Some v \<Rightarrow> Some v)"
  by (induction c) auto

lemma find_chain_chain_map: "map_option newval (find_chain c p) = chain_map c p"
  by (induction c) auto

lemma chain_map_None_iff: "chain_map c p = None \<longleftrightarrow> p \<notin> set (keys c)"
  by (induction c) auto

lemma chain_map_Some_keys: "chain_map c p = Some v \<Longrightarrow> p \<in> set (keys c)"
  using chain_map_None_iff[of c p] by auto

lemma chain_map_set_newval:
  "distinct (keys c) \<Longrightarrow> p \<in> set (keys c) \<Longrightarrow>
   chain_map (set_newval c p v) q = (if q = p then Some v else chain_map c q)"
  by (induction c) auto

lemma keys_set_newval [simp]: "keys (set_newval c p v) = keys c"
  by (induction c) auto

lemma length_set_newval [simp]: "length (set_newval c p v) = length c"
  by (induction c) auto

text \<open>What the table maps an address to.\<close>

definition tbl_lookup :: "nat \<Rightarrow> pte list list \<Rightarrow> ptr \<Rightarrow> ptr option" where
  "tbl_lookup k ary p = chain_map (ary ! bucket k p) p"

lemma ptr_table_fetch_lookup:
  "tbl_max t = mask k \<Longrightarrow>
   ptr_table_fetch t p = (case tbl_lookup k (tbl_ary t) p of None \<Rightarrow> 0 | Some v \<Rightarrow> v)"
  using find_chain_chain_map[of "tbl_ary t ! bucket k p" p]
  by (auto simp: ptr_table_fetch_def ptr_table_find_def tbl_lookup_def unat_hash_mask
      split: option.splits)

section \<open>Splitting\<close>

lemma split_chain_filter:
  "split_chain m i c mv =
     ([e \<leftarrow> c. m AND PTR_TABLE_HASH (oldval e) = i],
      rev [e \<leftarrow> c. m AND PTR_TABLE_HASH (oldval e) \<noteq> i] @ mv)"
  by (induction m i c mv rule: split_chain.induct) auto

lemma chain_map_filter:
  "chain_map [e \<leftarrow> c. P (oldval e)] p = (if P p then chain_map c p else None)"
  by (induction c) auto

lemma keys_filter: "keys [e \<leftarrow> c. P (oldval e)] = [p \<leftarrow> keys c. P p]"
  by (induction c) auto

lemma keys_rev [simp]: "keys (rev c) = rev (keys c)"
  by (simp add: keys_def rev_map)

lemma chain_map_rev: "distinct (keys c) \<Longrightarrow> chain_map (rev c) p = chain_map c p"
proof (induction c)
  case (Cons e c)
  then show ?case
    by (auto simp: chain_map_append chain_map_None_iff[THEN iffD2] dest!: chain_map_Some_keys
        split: option.split)
qed simp

text \<open>The chains after the loop has passed bucket \<open>i\<close>.\<close>

definition split_bucket :: "nat \<Rightarrow> pte list list \<Rightarrow> nat \<Rightarrow> pte list" where
  "split_bucket k ary j =
     (if j < 2 ^ k then [e \<leftarrow> ary ! j. bucket (Suc k) (oldval e) = j]
      else rev [e \<leftarrow> ary ! (j - 2 ^ k). bucket (Suc k) (oldval e) \<noteq> j - 2 ^ k])"

lemma split_loop_step:
  assumes "length ary = 2 ^ Suc k" "i < 2 ^ k" "k \<le> 61" "ary ! (i + 2 ^ k) = []"
  shows "split_loop (mask (Suc k)) (2 ^ k) i (Suc n) ary =
    split_loop (mask (Suc k)) (2 ^ k) (Suc i) n
      (ary[i := [e \<leftarrow> ary ! i. bucket (Suc k) (oldval e) = i],
           i + 2 ^ k := rev [e \<leftarrow> ary ! i. bucket (Suc k) (oldval e) \<noteq> i]])"
proof -
  have "(2::nat) ^ k \<le> 2 ^ 61"
    using assms(3) by (rule power_increasing) simp
  with assms(2) have i: "i < 2 ^ 63" by simp
  have "ary[i := [], i + 2 ^ k := []] = ary" if "ary ! i = []"
    using that assms(4) by (metis list_update_id)
  then show ?thesis
    using assms(4) by (auto simp: split_chain_filter mask_hash_eq[OF i])
qed

lemma split_loop_nth:
  assumes "length ary = 2 ^ Suc k" "n + i = 2 ^ k" "k \<le> 61"
    "\<forall>j. i + 2 ^ k \<le> j \<and> j < 2 ^ Suc k \<longrightarrow> ary ! j = []" "j < 2 ^ Suc k"
  shows "split_loop (mask (Suc k)) (2 ^ k) i n ary ! j =
    (if i \<le> j \<and> j < 2 ^ k \<or> i + 2 ^ k \<le> j then split_bucket k ary j else ary ! j)"
  using assms
proof (induction n arbitrary: i ary)
  case 0
  then show ?case by auto
next
  case (Suc n)
  let ?ary = "ary[i := [e \<leftarrow> ary ! i. bucket (Suc k) (oldval e) = i],
                  i + 2 ^ k := rev [e \<leftarrow> ary ! i. bucket (Suc k) (oldval e) \<noteq> i]]"
  have i: "i < 2 ^ k" and len: "length ary = 2 * 2 ^ k" using Suc.prems by auto
  have empty: "ary ! (i + 2 ^ k) = []" using Suc.prems(4) i by auto
  have "split_loop (mask (Suc k)) (2 ^ k) (Suc i) n ?ary ! j =
      (if Suc i \<le> j \<and> j < 2 ^ k \<or> Suc i + 2 ^ k \<le> j then split_bucket k ?ary j else ?ary ! j)"
    using Suc.prems i by (intro Suc.IH) (auto simp: nth_list_update)
  moreover have "split_bucket k ?ary j = split_bucket k ary j" if "j \<noteq> i" "j \<noteq> i + 2 ^ k"
    using that i len Suc.prems(5) by (auto simp: split_bucket_def nth_list_update)
  moreover have "?ary ! i = split_bucket k ary i" "?ary ! (i + 2 ^ k) = split_bucket k ary (i + 2 ^ k)"
    using i len by (auto simp: split_bucket_def nth_list_update)
  moreover have "?ary ! j = ary ! j" if "j \<noteq> i" "j \<noteq> i + 2 ^ k"
    using that by simp
  moreover have "(Suc i \<le> j \<and> j < 2 ^ k \<or> Suc i + 2 ^ k \<le> j) =
      (i \<le> j \<and> j < 2 ^ k \<or> i + 2 ^ k \<le> j)" if "j \<noteq> i" "j \<noteq> i + 2 ^ k"
    using that by auto
  moreover have "\<not> (Suc i \<le> i + 2 ^ k \<and> i + 2 ^ k < 2 ^ k \<or> Suc i + 2 ^ k \<le> i + 2 ^ k)"
    "\<not> (Suc i \<le> i \<and> i < 2 ^ k \<or> Suc i + 2 ^ k \<le> i)"
    by auto
  ultimately have "split_loop (mask (Suc k)) (2 ^ k) (Suc i) n ?ary ! j =
    (if i \<le> j \<and> j < 2 ^ k \<or> i + 2 ^ k \<le> j then split_bucket k ary j else ary ! j)"
    using i by (cases "j = i") (force, cases "j = i + 2 ^ k", force, metis)
  then show ?case
    by (simp only: split_loop_step[OF Suc.prems(1) i Suc.prems(3) empty])
qed

lemma length_split_loop [simp]: "length (split_loop m os i n ary) = length ary"
  by (induction m os i n ary rule: split_loop.induct) (auto simp: Let_def split: prod.split)

definition split_ary :: "nat \<Rightarrow> pte list list \<Rightarrow> pte list list" where
  "split_ary k ary =
     split_loop (mask (Suc k)) (2 ^ k) 0 (2 ^ k) (ary @ replicate (2 ^ k) [])"

lemma split_ary_nth:
  assumes "length ary = 2 ^ k" "k \<le> 61" "j < 2 ^ Suc k"
  shows "split_ary k ary ! j = split_bucket k ary j"
proof -
  have "split_ary k ary ! j = split_bucket k (ary @ replicate (2 ^ k) []) j"
    unfolding split_ary_def using assms by (subst split_loop_nth) (auto simp: nth_append)
  then show ?thesis
    using assms by (auto simp: split_bucket_def nth_append)
qed

lemma bucket_Suc_cases: "bucket (Suc k) p = bucket k p \<or> bucket (Suc k) p = bucket k p + 2 ^ k"
  unfolding bucket_def by (rule mod_double_cases)

lemma buckets_ok_split:
  assumes "buckets_ok k ary" "k \<le> 61"
  shows "buckets_ok (Suc k) (split_ary k ary)"
proof -
  have len: "length ary = 2 ^ k" using assms(1) by (simp add: buckets_ok_def)
  have "distinct (keys (split_bucket k ary j)) \<and>
        (\<forall>p \<in> set (keys (split_bucket k ary j)). bucket (Suc k) p = j)" if j: "j < 2 ^ Suc k" for j
  proof (cases "j < 2 ^ k")
    case True
    then show ?thesis
      using assms(1) by (auto simp: split_bucket_def buckets_ok_def
          keys_filter[where P = "\<lambda>p. bucket (Suc k) p = j"])
  next
    case False
    let ?i = "j - 2 ^ k"
    have i: "?i < 2 ^ k" using False j by auto
    have "bucket (Suc k) p = j" if "p \<in> set (keys (ary ! ?i))" "bucket (Suc k) p \<noteq> ?i" for p
    proof -
      have "bucket k p = ?i" using assms(1) that(1) i by (auto simp: buckets_ok_def)
      with bucket_Suc_cases[of k p] that(2) False show ?thesis by auto
    qed
    then show ?thesis
      using assms(1) False i by (auto simp: split_bucket_def buckets_ok_def
          keys_filter[where P = "\<lambda>p. bucket (Suc k) p \<noteq> ?i"])
  qed
  then show ?thesis
    using split_ary_nth[OF len assms(2)] len
    by (simp add: buckets_ok_def) (simp add: split_ary_def)
qed

lemma tbl_lookup_split:
  assumes "buckets_ok k ary" "k \<le> 61"
  shows "tbl_lookup (Suc k) (split_ary k ary) p = tbl_lookup k ary p"
proof -
  let ?i = "bucket k p"
  have len: "length ary = 2 ^ k" using assms(1) by (simp add: buckets_ok_def)
  have d: "distinct (keys (ary ! ?i))" using assms(1) by (simp add: buckets_ok_def)
  have eq: "split_ary k ary ! bucket (Suc k) p = split_bucket k ary (bucket (Suc k) p)"
    by (rule split_ary_nth[OF len assms(2) bucket_less])
  have i: "?i < 2 ^ k" by simp
  from bucket_Suc_cases[of k p]
  have "chain_map (split_bucket k ary (bucket (Suc k) p)) p = chain_map (ary ! ?i) p"
  proof
    assume "bucket (Suc k) p = ?i"
    then show ?thesis
      by (simp add: split_bucket_def chain_map_filter[where P = "\<lambda>q. bucket (Suc k) q = ?i"])
  next
    assume b: "bucket (Suc k) p = ?i + 2 ^ k"
    have "distinct (keys [e \<leftarrow> ary ! ?i. bucket (Suc k) (oldval e) \<noteq> ?i])"
      using d by (simp add: keys_filter[where P = "\<lambda>q. bucket (Suc k) q \<noteq> ?i"])
    then show ?thesis
      by (simp add: b split_bucket_def chain_map_rev
          chain_map_filter[where P = "\<lambda>q. bucket (Suc k) q \<noteq> ?i"])
  qed
  then show ?thesis by (simp add: tbl_lookup_def eq)
qed

lemma length_concat_nth: "length (concat xss) = (\<Sum>j < length xss. length (xss ! j))"
  by (simp add: length_concat sum_list_sum_nth atLeast0LessThan)

lemma length_split_ary [simp]: "length ary = 2 ^ k \<Longrightarrow> length (split_ary k ary) = 2 ^ Suc k"
  by (simp add: split_ary_def)

lemma length_concat_split:
  assumes "length ary = 2 ^ k" "k \<le> 61"
  shows "length (concat (split_ary k ary)) = length (concat ary)"
proof -
  let ?f = "\<lambda>j. length (split_bucket k ary j)"
  have "length (concat (split_ary k ary)) = (\<Sum>j < 2 ^ Suc k. ?f j)"
    using assms split_ary_nth[OF assms] by (simp add: length_concat_nth)
  also have "\<dots> = (\<Sum>j < 2 ^ k. ?f j) + (\<Sum>j \<in> {2 ^ k ..< 2 ^ k + 2 ^ k}. ?f j)"
    by (simp add: lessThan_atLeast0 sum.atLeastLessThan_concat mult_2)
  also have "(\<Sum>j \<in> {2 ^ k ..< 2 ^ k + 2 ^ k}. ?f j) = (\<Sum>j < 2 ^ k. ?f (j + 2 ^ k))"
    using sum.shift_bounds_nat_ivl[of ?f 0 "2 ^ k" "2 ^ k"] by (simp add: lessThan_atLeast0)
  also have "(\<Sum>j < 2 ^ k. ?f j) + (\<Sum>j < 2 ^ k. ?f (j + 2 ^ k)) = (\<Sum>j < 2 ^ k. length (ary ! j))"
    by (simp add: sum.distrib[symmetric] split_bucket_def sum_length_filter_compl)
  finally show ?thesis
    using assms(1) by (simp add: length_concat_nth)
qed

text \<open>\<open>Perl_ptr_table_split\<close> on a well-formed table: twice the buckets, the same map.\<close>

lemma ptr_table_split_ok:
  assumes m: "sane_allocator m" and k: "k \<le> 59" "tbl_max t = mask k"
    and b: "buckets_ok k (tbl_ary t)" and split: "ptr_table_split m t = Inr t'"
  shows "Suc k \<le> 59 \<and> tbl_max t' = mask (Suc k) \<and> tbl_ary t' = split_ary k (tbl_ary t) \<and>
    tbl_items t' = tbl_items t"
proof -
  have "(2::nat) ^ k \<le> 2 ^ 59" using k(1) by (rule power_increasing) simp
  then have less: "(2::nat) ^ k < 2 ^ 64" "(2::nat) ^ Suc k < 2 ^ 64" by simp_all
  have old: "tbl_max t + 1 = (2 ^ k :: uv)"
    by (simp add: k(2) mask_eq_exp_minus_1)
  have uold: "unat (2 ^ k :: uv) = 2 ^ k" "unat (2 ^ k * 2 :: uv) = 2 ^ Suc k"
    using unat_of_nat_less[of "2 ^ k"] unat_of_nat_less[of "2 ^ Suc k"] less k(1)
    by (simp_all add: mult.commute)
  have mask: "(2 ^ k * 2 - 1 :: uv) = mask (Suc k)"
    by (simp add: mask_eq_exp_minus_1)
  have new: "newx m (2 ^ Suc k) 8"
    using split uold by (auto simp: ptr_table_split_def old Let_def split: if_splits)
  then have "2 ^ Suc k * 8 < (2::nat) ^ 63" by (rule newx_bound[OF m])
  then have "(2::nat) ^ (k + 4) < 2 ^ 63" by (simp add: power_add)
  then have "k + 4 < 63" by (simp only: power_strict_increasing_iff)
  moreover have "2 ^ Suc k - (2::nat) ^ k = 2 ^ k" by simp
  ultimately show ?thesis
    using split new uold by (auto simp: ptr_table_split_def old Let_def mask split_ary_def)
qed

section \<open>Storing\<close>

lemma ptr_table_store_found:
  assumes "tbl_max t = mask k" "buckets_ok k (tbl_ary t)" "tbl_lookup k (tbl_ary t) p \<noteq> None"
  shows "ptr_table_store m t p v =
    Inr (t\<lparr>tbl_ary := (tbl_ary t)[bucket k p := set_newval (tbl_ary t ! bucket k p) p v]\<rparr>)"
  using assms find_chain_chain_map[of "tbl_ary t ! bucket k p" p]
  by (auto simp: ptr_table_store_def ptr_table_find_def unat_hash_mask tbl_lookup_def Let_def
      split: option.splits)

lemma ptr_table_store_new:
  assumes "tbl_max t = mask k" "tbl_lookup k (tbl_ary t) p = None"
  shows "ptr_table_store m t p v =
    (let chain = tbl_ary t ! bucket k p;
         t' = t\<lparr>tbl_ary := (tbl_ary t)[bucket k p := \<lparr>oldval = p, newval = v\<rparr> # chain],
                tbl_items := tbl_items t + 1\<rparr>
     in if chain \<noteq> [] \<and> tbl_items t' > tbl_max t' then ptr_table_split m t' else Inr t')"
  using assms find_chain_chain_map[of "tbl_ary t ! bucket k p" p]
  by (auto simp: ptr_table_store_def ptr_table_find_def unat_hash_mask tbl_lookup_def Let_def
      split: option.splits)

lemma buckets_ok_update:
  assumes "buckets_ok k ary" "distinct (keys c) \<and> (\<forall>q \<in> set (keys c). bucket k q = i)" "i < 2 ^ k"
  shows "buckets_ok k (ary[i := c])"
  using assms by (auto simp: buckets_ok_def nth_list_update)

lemma tbl_lookup_update:
  assumes "length ary = 2 ^ k"
  shows "tbl_lookup k (ary[bucket k p := c]) q =
    (if bucket k q = bucket k p then chain_map c q else tbl_lookup k ary q)"
  using assms by (auto simp: tbl_lookup_def)

text \<open>Either the table holds the key and one value changes, or an entry is added in front.\<close>

definition store_ary :: "nat \<Rightarrow> pte list list \<Rightarrow> ptr \<Rightarrow> ptr \<Rightarrow> pte list list" where
  "store_ary k ary p v =
     ary[bucket k p := (if tbl_lookup k ary p = None then \<lparr>oldval = p, newval = v\<rparr> # ary ! bucket k p
                        else set_newval (ary ! bucket k p) p v)]"

lemma buckets_ok_store_ary:
  assumes "buckets_ok k ary"
  shows "buckets_ok k (store_ary k ary p v)"
proof -
  let ?old = "ary ! bucket k p"
  let ?new = "if tbl_lookup k ary p = None then \<lparr>oldval = p, newval = v\<rparr> # ?old
              else set_newval ?old p v"
  have "distinct (keys ?old)" using assms by (simp add: buckets_ok_def)
  then have "distinct (keys ?new)" "set (keys ?new) \<subseteq> insert p (set (keys ?old))"
    by (auto simp: tbl_lookup_def chain_map_None_iff)
  moreover have "bucket k q = bucket k p" if "q \<in> set (keys ?old)" for q
    using assms that bucket_less unfolding buckets_ok_def by blast
  ultimately show ?thesis
    unfolding store_ary_def by (intro buckets_ok_update[OF assms] bucket_less) blast
qed

lemma tbl_lookup_store_ary:
  assumes "buckets_ok k ary"
  shows "tbl_lookup k (store_ary k ary p v) q = (if q = p then Some v else tbl_lookup k ary q)"
proof -
  have "length ary = 2 ^ k" "distinct (keys (ary ! bucket k p))"
    using assms by (auto simp: buckets_ok_def)
  then show ?thesis
    unfolding store_ary_def tbl_lookup_update[OF \<open>length ary = 2 ^ k\<close>]
    by (auto simp: chain_map_set_newval tbl_lookup_def chain_map_None_iff)
qed

lemma length_concat_store_ary:
  assumes "length ary = 2 ^ k"
  shows "length (concat (store_ary k ary p v)) =
    length (concat ary) + (if tbl_lookup k ary p = None then 1 else 0)"
  using assms concat_list_update_perm[of "bucket k p" ary
      "if tbl_lookup k ary p = None then \<lparr>oldval = p, newval = v\<rparr> # ary ! bucket k p
       else set_newval (ary ! bucket k p) p v"]
  by (cases "tbl_lookup k ary p = None") (auto simp: store_ary_def)

lemma ptr_table_store_cases:
  assumes m: "sane_allocator m" and k: "k \<le> 59" "tbl_max t = mask k" "buckets_ok k (tbl_ary t)"
    and store: "ptr_table_store m t p v = Inr t'"
  obtains (plain) "tbl_max t' = mask k" "tbl_ary t' = store_ary k (tbl_ary t) p v"
      "tbl_items t' = tbl_items t + (if tbl_lookup k (tbl_ary t) p = None then 1 else 0)"
  | (split) "Suc k \<le> 59" "tbl_max t' = mask (Suc k)"
      "tbl_ary t' = split_ary k (store_ary k (tbl_ary t) p v)"
      "tbl_items t' = tbl_items t + (if tbl_lookup k (tbl_ary t) p = None then 1 else 0)"
proof (cases "tbl_lookup k (tbl_ary t) p = None")
  case False
  then show ?thesis
    using that(1) store ptr_table_store_found[OF k(2,3) False] k(2)
    by (auto simp: store_ary_def)
next
  case True
  let ?t = "t\<lparr>tbl_ary := store_ary k (tbl_ary t) p v, tbl_items := tbl_items t + 1\<rparr>"
  have "ptr_table_store m t p v =
      (if tbl_ary t ! bucket k p \<noteq> [] \<and> tbl_items ?t > tbl_max ?t then ptr_table_split m ?t else Inr ?t)"
    using ptr_table_store_new[OF k(2) True] True by (simp add: store_ary_def Let_def)
  with store consider "t' = ?t" | "ptr_table_split m ?t = Inr t'"
    by (metis Inr_inject)
  then show ?thesis
  proof cases
    case 1
    then show ?thesis using that(1) k(2) True by simp
  next
    case 2
    have "buckets_ok k (tbl_ary ?t)" using k(3) by (simp add: buckets_ok_store_ary)
    then show ?thesis
      using that(2) ptr_table_split_ok[OF m k(1) _ _ 2] k(2) True by simp
  qed
qed

section \<open>The table as a keyed store\<close>

lemma ptr_table_store_ok:
  assumes m: "sane_allocator m" and t: "ptr_tbl_ok t" and store: "ptr_table_store m t p v = Inr t'"
  shows "ptr_tbl_ok t'"
proof -
  from t obtain k where k: "k \<le> 59" "tbl_max t = mask k" "buckets_ok k (tbl_ary t)"
    and items: "tbl_items t = of_nat (length (concat (tbl_ary t)))"
    by (auto simp: ptr_tbl_ok_def)
  let ?ary = "store_ary k (tbl_ary t) p v"
  have ok: "buckets_ok k ?ary" by (rule buckets_ok_store_ary[OF k(3)])
  have len: "length (tbl_ary t) = 2 ^ k" "length ?ary = 2 ^ k"
    using k(3) ok by (simp_all add: buckets_ok_def)
  note count = length_concat_store_ary[OF len(1), of p v]
  from m k store show ?thesis
  proof (cases rule: ptr_table_store_cases)
    case plain
    then show ?thesis using k(1) ok items count by (auto simp: ptr_tbl_ok_def)
  next
    case split
    then have "buckets_ok (Suc k) (tbl_ary t')" using buckets_ok_split[OF ok] k(1) by simp
    moreover have "length (concat (tbl_ary t')) = length (concat ?ary)"
      using split length_concat_split[OF len(2)] k(1) by simp
    moreover have "tbl_items t' = of_nat (length (concat ?ary))"
      using split items count by simp
    ultimately show ?thesis
      using split(1,2) by (auto simp: ptr_tbl_ok_def intro!: exI[of _ "Suc k"])
  qed
qed

lemma ptr_table_fetch_store:
  assumes m: "sane_allocator m" and t: "ptr_tbl_ok t" and store: "ptr_table_store m t p v = Inr t'"
  shows "ptr_table_fetch t' q = (if q = p then v else ptr_table_fetch t q)"
proof -
  from t obtain k where k: "k \<le> 59" "tbl_max t = mask k" "buckets_ok k (tbl_ary t)"
    by (auto simp: ptr_tbl_ok_def)
  let ?ary = "store_ary k (tbl_ary t) p v"
  have ok: "buckets_ok k ?ary" by (rule buckets_ok_store_ary[OF k(3)])
  note old = ptr_table_fetch_lookup[OF k(2), of q] and new = tbl_lookup_store_ary[OF k(3), of p v q]
  from m k store show ?thesis
  proof (cases rule: ptr_table_store_cases)
    case plain
    then show ?thesis using old new ptr_table_fetch_lookup[OF plain(1), of q] by simp
  next
    case split
    then show ?thesis
      using old new ptr_table_fetch_lookup[OF split(2), of q] tbl_lookup_split[OF ok, of q] k(1)
      by simp
  qed
qed

text \<open>The store interface, on a machine that can hand out objects of up to \<open>2 ^ 62\<close> bytes.\<close>

interpretation pt: keyed_store ptr_table_fetch "ptr_table_store (fixed_allocator (2 ^ 62))" ptr_tbl_ok
proof unfold_locales
  have m: "sane_allocator (fixed_allocator (2 ^ 62))"
    by (rule sane_fixed_allocator) simp
  show "ptr_table_fetch t' k' = (if k' = k then v else ptr_table_fetch t k')"
    if "ptr_tbl_ok t" "ptr_table_store (fixed_allocator (2 ^ 62)) t k v = Inr t'" for t k v t' k'
    using m that by (rule ptr_table_fetch_store)
  show "ptr_tbl_ok t'"
    if "ptr_tbl_ok t" "ptr_table_store (fixed_allocator (2 ^ 62)) t k v = Inr t'" for t k v t'
    using m that by (rule ptr_table_store_ok)
qed

lemma ptr_table_new_ok: "ptr_table_new m = Inr t \<Longrightarrow> ptr_tbl_ok t"
  by (auto simp: ptr_table_new_def ptr_tbl_ok_def buckets_ok_def mask_eq_exp_minus_1 concat_eq_Nil_conv
      split: if_splits intro!: exI[of _ 9])

section \<open>Clearing\<close>

lemma clear_chain_rev: "clear_chain c root = rev c @ root"
  by (induction c root rule: clear_chain.induct) simp_all

lemma clear_loop_result:
  assumes "n \<le> length ary"
  shows "snd (clear_loop n ary root) = rev (concat (rev (take n ary))) @ root \<and>
    length (fst (clear_loop n ary root)) = length ary \<and>
    (\<forall>i < length ary. fst (clear_loop n ary root) ! i =
      (if i < n then clear_head (ary ! i) (rev (concat (rev (drop (Suc i) (take n ary)))) @ root) else ary ! i))"
  using assms
proof (induction n arbitrary: ary root)
  case (Suc n)
  let ?ary = "ary[n := clear_head (ary ! n) root]" and ?root = "rev (ary ! n) @ root"
  have n: "n < length ary" "n \<le> length ?ary" using Suc.prems by simp_all
  have take: "take (Suc n) ary = take n ary @ [ary ! n]" "take n ?ary = take n ary"
    using n by (simp_all add: take_Suc_conv_app_nth)
  have drop: "drop (Suc i) (take (Suc n) ary) = (if i < n then drop (Suc i) (take n ary) @ [ary ! n] else [])" for i
    using n(1) by (auto simp: take)
  show ?case
    using Suc.IH[OF n(2), of ?root] n(1) by (auto simp: clear_chain_rev take drop nth_list_update less_Suc_eq)
qed simp

lemma tbl_max_length:
  assumes "ptr_tbl_ok t"
  shows "Suc (unat (tbl_max t)) = length (tbl_ary t)"
proof -
  from assms obtain k where k: "k \<le> 59" "tbl_max t = mask k" "buckets_ok k (tbl_ary t)"
    by (auto simp: ptr_tbl_ok_def)
  have "(2::nat) ^ k \<le> 2 ^ 59" using k(1) by (rule power_increasing) simp
  then have "unat (of_nat (2 ^ k) :: uv) = 2 ^ k" by (intro unat_of_nat_less) simp
  moreover from this have "of_nat (2 ^ k) \<noteq> (0 :: uv)" by (metis power_not_zero unat_0 zero_neq_numeral)
  ultimately have "unat (mask k :: uv) = 2 ^ k - 1"
    by (simp add: mask_eq_exp_minus_1 unat_minus_one)
  then show ?thesis using k by (simp add: buckets_ok_def)
qed

text \<open>All entries, in the order in which they are given back.\<close>

lemma ptr_table_clear_root:
  assumes "ptr_tbl_ok t" "tbl_items t \<noteq> 0"
  shows "fst (ptr_table_clear root t) = rev (concat (rev (tbl_ary t))) @ root"
  using assms clear_loop_result[of "length (tbl_ary t)" "tbl_ary t" root]
  by (auto simp: ptr_table_clear_def tbl_max_length split: prod.split)

text \<open>\<open>ptr_table_free\<close> gives every entry back once, and nothing else.\<close>

lemma ptr_table_free_all:
  assumes "ptr_tbl_ok t" "length (concat (tbl_ary t)) < 2 ^ 64"
  shows "ptr_table_free root (Some t) = (rev (concat (rev (tbl_ary t))) @ root, True)"
proof (cases "tbl_items t = 0")
  case True
  have "unat (tbl_items t) = length (concat (tbl_ary t))"
    using assms unfolding ptr_tbl_ok_def by (metis unat_of_nat_less)
  with True have "\<forall>c \<in> set (tbl_ary t). c = []"
    by (metis concat_eq_Nil_conv length_0_conv unat_0)
  then have "concat (rev (tbl_ary t)) = []" unfolding concat_eq_Nil_conv set_rev .
  with True show ?thesis by (simp only: ptr_table_free_def ptr_table_clear_def) simp
next
  case False
  with ptr_table_clear_root[OF assms(1)] show ?thesis by (simp add: ptr_table_free_def)
qed

lemma find_chain_append:
  "find_chain (c @ d) p = (case find_chain c p of None \<Rightarrow> find_chain d p | Some e \<Rightarrow> Some e)"
  by (induction c) auto

lemma find_chain_None: "p \<notin> set (keys c) \<Longrightarrow> find_chain c p = None"
  by (induction c) auto

lemma keys_elsewhere:
  assumes "buckets_ok k ary" "i = bucket k p"
  shows "p \<notin> set (keys (rev (concat (rev (drop (Suc i) ary)))))"
proof
  assume "p \<in> set (keys (rev (concat (rev (drop (Suc i) ary)))))"
  then obtain c where c: "c \<in> set (drop (Suc i) ary)" "p \<in> set (keys c)" by (auto simp: keys_def)
  then obtain j where j: "j < length ary - Suc i" "c = ary ! (Suc i + j)" by (auto simp: in_set_conv_nth)
  then have "Suc i + j < 2 ^ k" using assms(1) by (auto simp: buckets_ok_def)
  with c(2) j(2) assms(1) have "bucket k p = Suc i + j" unfolding buckets_ok_def by blast
  with assms(2) show False by simp
qed

section \<open>Properties\<close>

text \<open>
  C1: after any sequence of stores into a well-formed table, however often it doubled, a fetch
  returns the value last stored for the address, and what the table held before for every
  address that was not stored.
\<close>

theorem ptr_table_stores_fetch:
  assumes "ptr_tbl_ok t"
    and "store_all (ptr_table_store (fixed_allocator (2 ^ 62))) t kvs = Inr t'"
  shows "ptr_table_fetch t' p =
    (case map_of (rev kvs) p of None \<Rightarrow> ptr_table_fetch t p | Some v \<Rightarrow> v)"
  using assms by (rule pt.fetch_store_all)

text \<open>Two stores of one key among others: the second value is read back.\<close>

theorem ptr_table_stores_fetch_witness:
  "\<exists>t t'. ptr_table_new (fixed_allocator (2 ^ 62)) = Inr t \<and>
     store_all (ptr_table_store (fixed_allocator (2 ^ 62))) t [(4096, 1), (8192, 2), (4096, 3)] = Inr t' \<and>
     ptr_table_fetch t' 4096 = 3 \<and> ptr_table_fetch t' 8192 = 2"
proof -
  let ?m = "fixed_allocator (2 ^ 62)"
  obtain t where t: "ptr_table_new ?m = Inr t"
    by (simp add: ptr_table_new_def newx_def fixed_allocator_def)
  have "\<exists>t'. store_all (ptr_table_store ?m) t [(4096, 1), (8192, 2), (4096, 3)] = Inr t'"
    using t by (auto simp: ptr_table_new_def ptr_table_store_def ptr_table_find_def PTR_TABLE_HASH_def
        newx_def fixed_allocator_def split: if_splits)
  then obtain t' where
    t': "store_all (ptr_table_store ?m) t [(4096, 1), (8192, 2), (4096, 3)] = Inr t'" ..
  note f = ptr_table_stores_fetch[OF ptr_table_new_ok[OF t] t']
  have "ptr_table_fetch t' 4096 = 3" "ptr_table_fetch t' 8192 = 2"
    using f[of 4096] f[of 8192] by simp_all
  with t t' show ?thesis by blast
qed

text \<open>
  C40: clearing a well-formed table that is not empty gives every entry back to the body arena, exactly once and in front of
  what was free, and sets the item count to 0, but leaves the bucket heads. A fetch after the clear
  still walks freed bodies: it finds the old value of an address that was the first of its chain, and for the
  other addresses goes on to what the free list held before the call (in a table without a
  chain of two, every address is still found). (\<open>del_pte\<close> is \<open>del_body_type\<close>, of an interpreter not compiled
  with \<open>PURIFY\<close>: it links the body into the free list by its first word, the \<open>next\<close> of the entry.)
\<close>

theorem ptr_table_clear_dangles:
  assumes "ptr_tbl_ok t" "tbl_items t \<noteq> 0" "ptr_table_clear root t = (root', t')"
  shows "root' = rev (concat (rev (tbl_ary t))) @ root \<and> tbl_items t' = 0 \<and>
    ptr_table_find t' p =
      (case tbl_ary t ! unat (PTR_TABLE_HASH p AND tbl_max t) of
         [] \<Rightarrow> None
       | e # es \<Rightarrow> if oldval e = p then Some e else find_chain root p)"
proof -
  from assms(1) obtain k where k: "tbl_max t = mask k" "buckets_ok k (tbl_ary t)"
    by (auto simp: ptr_tbl_ok_def)
  let ?i = "bucket k p" and ?n = "length (tbl_ary t)"
  have t': "tbl_ary t' = fst (clear_loop ?n (tbl_ary t) root)" "tbl_max t' = tbl_max t" "tbl_items t' = 0"
    using assms(2,3) by (auto simp: ptr_table_clear_def tbl_max_length[OF assms(1)] split: prod.splits)
  have i: "?i < ?n" using k(2) by (simp add: buckets_ok_def)
  have "ptr_table_find t' p =
      find_chain (clear_head (tbl_ary t ! ?i) (rev (concat (rev (drop (Suc ?i) (tbl_ary t)))) @ root)) p"
    using clear_loop_result[OF order_refl, of "tbl_ary t" root] i t' by (simp add: ptr_table_find_def unat_hash_mask k(1))
  moreover have "find_chain (rev (concat (rev (drop (Suc ?i) (tbl_ary t)))) @ root) p = find_chain root p"
    using keys_elsewhere[OF k(2) refl] by (simp add: find_chain_append find_chain_None)
  ultimately show ?thesis
    using ptr_table_clear_root[OF assms(1,2), of root] assms(3) t'(3) by (auto simp: k(1) unat_hash_mask split: list.split)
qed

text \<open>A chain with the addresses 8 and, behind it, 24: after the clear, 8 is found and 24 is not.\<close>

theorem ptr_table_clear_dangles_witness:
  "\<exists>t root' t'. ptr_tbl_ok t \<and> tbl_items t \<noteq> 0 \<and> ptr_table_clear [] t = (root', t') \<and> tbl_items t' = 0 \<and>
     ptr_table_find t' 8 = Some \<lparr>oldval = 8, newval = 7\<rparr> \<and>
     ptr_table_find t 24 = Some \<lparr>oldval = 24, newval = 9\<rparr> \<and> ptr_table_find t' 24 = None"
proof -
  let ?t = "\<lparr>tbl_ary = [[], [\<lparr>oldval = 8, newval = 7\<rparr>, \<lparr>oldval = 24, newval = 9\<rparr>]], tbl_max = 1, tbl_items = 2\<rparr>"
  have h: "PTR_TABLE_HASH 8 = 1" "PTR_TABLE_HASH 24 = 3"
    by (simp_all add: PTR_TABLE_HASH_def)
  have "buckets_ok 1 (tbl_ary ?t)"
    by (auto simp: buckets_ok_def bucket_def h less_2_cases_iff)
  then have ok: "ptr_tbl_ok ?t"
    by (auto simp: ptr_tbl_ok_def intro!: exI[of _ 1])
  obtain root' t' where c: "ptr_table_clear [] ?t = (root', t')" by fastforce
  show ?thesis
    using ptr_table_clear_dangles[OF ok _ c, of 8] ptr_table_clear_dangles[OF ok _ c, of 24] ok c
    by (intro exI[of _ ?t] exI[of _ root'] exI[of _ t']) (simp add: h ptr_table_find_def)
qed

end
