(* ===== verification/Grok_Numeric.thy ===== *)
theory Grok_Numeric
  imports Kurila_Prelude Complex_Main
begin

text \<open>
  The scanners of binary, hexadecimal and octal literals (\<open>numeric.c\<close>: \<open>grok_bin\<close>,
  \<open>grok_hex\<close>, \<open>grok_oct\<close> and their wrappers \<open>scan_bin\<close>, \<open>scan_hex\<close>, \<open>scan_oct\<close>), proved
  against one contract, the locale \<open>radix_scanner\<close>. A buffer is a byte list with its NUL implicit (\<open>rd\<close>); a pointer into it is an index.
  Warnings are recorded, in order, as if every category were enabled.
\<close>

section \<open>NV values of the scanners\<close>

text \<open>
  The only \<open>NV\<close> values of the \<open>grok_*\<close> scanners are non-negative integers, made by converting a
  \<open>UV\<close>, scaling by a power of two and adding a digit. They are IEEE doubles: \<open>dbl_round\<close> rounds
  to 53 significant bits, ties to even, and values from \<open>2 ^ 1024\<close> on are infinite.
\<close>

datatype dbl = DNat nat | DInf

fun excess_bits :: "nat \<Rightarrow> nat" where
  "excess_bits n = (if n < 2 ^ 53 then 0 else Suc (excess_bits (n div 2)))"

declare excess_bits.simps [simp del]

definition dbl_round :: "nat \<Rightarrow> nat" where
  "dbl_round n =
     (let e = excess_bits n; q = n div 2 ^ e; r = n mod 2 ^ e
      in if e = 0 then n
         else (if r > 2 ^ (e - 1) \<or> r = 2 ^ (e - 1) \<and> odd q then Suc q else q) * 2 ^ e)"

definition dbl_of_nat :: "nat \<Rightarrow> dbl" where
  "dbl_of_nat n = (if dbl_round n < 2 ^ 1024 then DNat (dbl_round n) else DInf)"

fun dbl_mul :: "dbl \<Rightarrow> nat \<Rightarrow> dbl" where
  "dbl_mul (DNat a) b = dbl_of_nat (a * b)"
| "dbl_mul DInf b = DInf"

fun dbl_add :: "dbl \<Rightarrow> nat \<Rightarrow> dbl" where
  "dbl_add (DNat a) b = dbl_of_nat (a + b)"
| "dbl_add DInf b = DInf"

fun dbl_gt :: "dbl \<Rightarrow> nat \<Rightarrow> bool" where
  "dbl_gt (DNat a) b = (a > b)"
| "dbl_gt DInf b = True"

section \<open>The digit accumulator\<close>

datatype warn =
    Warn_overflow string        \<comment> \<open>``Integer overflow in \<dots> number''\<close>
  | Warn_digit u8               \<comment> \<open>``Illegal \<dots> digit ignored''\<close>
  | Warn_portable               \<comment> \<open>``\<dots> number \<dots> non-portable''\<close>

record grok_acc =
  gvalue :: uv
  gvalue_nv :: dbl
  goverflowed :: bool
  gwarn :: "warn list"

definition acc0 :: grok_acc where
  "acc0 = \<lparr>gvalue = 0, gvalue_nv = DNat 0, goverflowed = False, gwarn = []\<rparr>"

text \<open>
  The block at the label \<open>redo\<close> of the three scanners, with \<open>k\<close> bits to a digit: \<open>1\<close> in
  \<open>grok_bin\<close>, \<open>4\<close> in \<open>grok_hex\<close>, \<open>3\<close> in \<open>grok_oct\<close>.
\<close>

definition grok_accum :: "nat \<Rightarrow> string \<Rightarrow> nat \<Rightarrow> grok_acc \<Rightarrow> grok_acc" where
  "grok_accum k what digit acc =
     (if \<not> goverflowed acc \<and> gvalue acc \<le> (- 1) div 2 ^ k
      then acc\<lparr>gvalue := push_bit k (gvalue acc) OR of_nat digit\<rparr>
      else let acc' = (if goverflowed acc then acc
                       else acc\<lparr>gwarn := gwarn acc @ [Warn_overflow what], goverflowed := True,
                                gvalue_nv := dbl_of_nat (unat (gvalue acc))\<rparr>)
           in acc'\<lparr>gvalue_nv := dbl_add (dbl_mul (gvalue_nv acc') (2 ^ k)) digit\<rparr>)"

definition add_warn :: "warn \<Rightarrow> grok_acc \<Rightarrow> grok_acc" where
  "add_warn w acc = acc\<lparr>gwarn := gwarn acc @ [w]\<rparr>"

section \<open>Flags\<close>

definition PERL_SCAN_ALLOW_UNDERSCORES :: u32 where "PERL_SCAN_ALLOW_UNDERSCORES = 0x01"
definition PERL_SCAN_DISALLOW_PREFIX :: u32 where "PERL_SCAN_DISALLOW_PREFIX = 0x02"
definition PERL_SCAN_SILENT_ILLDIGIT :: u32 where "PERL_SCAN_SILENT_ILLDIGIT = 0x04"
definition PERL_SCAN_GREATER_THAN_UV_MAX :: u32 where "PERL_SCAN_GREATER_THAN_UV_MAX = 0x02"

definition flag :: "u32 \<Rightarrow> u32 \<Rightarrow> bool" where
  "flag fl b \<longleftrightarrow> fl AND b \<noteq> 0"

text \<open>What a scanner leaves: the return value, \<open>*len_p\<close>, \<open>*flags\<close> and \<open>*result\<close> if written.\<close>

record grok_out =
  out_value :: uv
  out_len :: nat
  out_flags :: u32
  out_result :: "dbl option"
  out_warn :: "warn list"

definition grok_finish :: "nat \<Rightarrow> grok_acc \<Rightarrow> grok_out" where
  "grok_finish s acc =
     (let w = (if goverflowed acc \<and> dbl_gt (gvalue_nv acc) 4294967295 \<or>
                  \<not> goverflowed acc \<and> gvalue acc > 0xffffffff
               then gwarn acc @ [Warn_portable] else gwarn acc)
      in if \<not> goverflowed acc
         then \<lparr>out_value = gvalue acc, out_len = s, out_flags = 0, out_result = None, out_warn = w\<rparr>
         else \<lparr>out_value = - 1, out_len = s, out_flags = PERL_SCAN_GREATER_THAN_UV_MAX,
               out_result = Some (gvalue_nv acc), out_warn = w\<rparr>)"

section \<open>Binary, hexadecimal and octal\<close>

definition is_bit :: "u8 \<Rightarrow> bool" where
  "is_bit c \<longleftrightarrow> c = ch CHR ''0'' \<or> c = ch CHR ''1''"

text \<open>
  The prefix the binary and the hexadecimal scanner skip: the letter, or a zero and the letter.
\<close>

definition skip_prefix :: "u8 \<Rightarrow> u32 \<Rightarrow> u8 list \<Rightarrow> nat \<Rightarrow> nat" where
  "skip_prefix letter fl buf len =
     (if \<not> flag fl PERL_SCAN_DISALLOW_PREFIX \<and> len \<ge> 1
      then if rd buf 0 = letter then 1
           else if len \<ge> 2 \<and> rd buf 0 = ch CHR ''0'' \<and> rd buf 1 = letter then 2 else 0
      else 0)"

fun grok_bin_loop :: "u8 list \<Rightarrow> u32 \<Rightarrow> nat \<Rightarrow> nat \<Rightarrow> grok_acc \<Rightarrow> nat \<times> grok_acc" where
  "grok_bin_loop buf fl s 0 acc = (s, acc)"
| "grok_bin_loop buf fl s (Suc len) acc =
     (let bit = rd buf s in
      if bit = 0 then (s, acc)
      else if is_bit bit
      then grok_bin_loop buf fl (s + 1) len (grok_accum 1 ''binary'' (unat (bit - ch CHR ''0'')) acc)
      else if bit = ch CHR ''_'' \<and> len \<noteq> 0 \<and> flag fl PERL_SCAN_ALLOW_UNDERSCORES \<and>
              rd buf (s + 1) \<noteq> 0 \<and> is_bit (rd buf (s + 1))
      then grok_bin_loop buf fl (s + 2) (len - 1)
             (grok_accum 1 ''binary'' (unat (rd buf (s + 1) - ch CHR ''0'')) acc)
      else (s, if \<not> flag fl PERL_SCAN_SILENT_ILLDIGIT then add_warn (Warn_digit bit) acc else acc))"

definition grok_bin :: "u8 list \<Rightarrow> nat \<Rightarrow> u32 \<Rightarrow> grok_out" where
  "grok_bin start len fl =
     (let p = skip_prefix (ch CHR ''b'') fl start len;
          (s, acc) = grok_bin_loop start fl p (len - p) acc0
      in grok_finish s acc)"

text \<open>\<open>strchr (PL_hexdigit, c)\<close> for a character that is not NUL, as an offset.\<close>

definition PL_hexdigit :: "u8 list" where
  "PL_hexdigit = map of_char ''0123456789abcdef0123456789ABCDEF''"

definition hexdigit :: "u8 \<Rightarrow> nat option" where
  "hexdigit c =
     (if c \<in> set PL_hexdigit then Some (length (takeWhile (\<lambda>h. h \<noteq> c) PL_hexdigit)) else None)"

fun grok_hex_loop :: "u8 list \<Rightarrow> u32 \<Rightarrow> nat \<Rightarrow> nat \<Rightarrow> grok_acc \<Rightarrow> nat \<times> grok_acc" where
  "grok_hex_loop buf fl s 0 acc = (s, acc)"
| "grok_hex_loop buf fl s (Suc len) acc =
     (if rd buf s = 0 then (s, acc)
      else case hexdigit (rd buf s) of
        Some h \<Rightarrow> grok_hex_loop buf fl (s + 1) len (grok_accum 4 ''hexadecimal'' (h mod 16) acc)
      | None \<Rightarrow>
          (if rd buf s = ch CHR ''_'' \<and> len \<noteq> 0 \<and> flag fl PERL_SCAN_ALLOW_UNDERSCORES \<and>
              rd buf (s + 1) \<noteq> 0 \<and> hexdigit (rd buf (s + 1)) \<noteq> None
           then grok_hex_loop buf fl (s + 2) (len - 1)
                  (grok_accum 4 ''hexadecimal'' (the (hexdigit (rd buf (s + 1))) mod 16) acc)
           else (s, if \<not> flag fl PERL_SCAN_SILENT_ILLDIGIT
                    then add_warn (Warn_digit (rd buf s)) acc else acc)))"

definition grok_hex :: "u8 list \<Rightarrow> nat \<Rightarrow> u32 \<Rightarrow> grok_out" where
  "grok_hex start len fl =
     (let p = skip_prefix (ch CHR ''x'') fl start len;
          (s, acc) = grok_hex_loop start fl p (len - p) acc0
      in grok_finish s acc)"

text \<open>
  \<open>int digit = *s - '0'\<close>, with \<open>char\<close> signed. In the test after an underscore the assignment
  \<open>(digit = s[1] - '0')\<close> is itself a condition, so it fails when the next character is \<open>'0'\<close>,
  and \<open>digit\<close> keeps the new value for the test of 8 and 9 that follows.
\<close>

definition digit_of :: "u8 \<Rightarrow> int" where
  "digit_of c = sint c - 48"

fun grok_oct_loop :: "u8 list \<Rightarrow> u32 \<Rightarrow> nat \<Rightarrow> nat \<Rightarrow> grok_acc \<Rightarrow> nat \<times> grok_acc" where
  "grok_oct_loop buf fl s 0 acc = (s, acc)"
| "grok_oct_loop buf fl s (Suc len) acc =
     (if rd buf s = 0 then (s, acc)
      else let digit = digit_of (rd buf s) in
        if digit \<ge> 0 \<and> digit \<le> 7
        then grok_oct_loop buf fl (s + 1) len (grok_accum 3 ''octal'' (nat digit) acc)
        else let under = (digit = digit_of (ch CHR ''_'') \<and> len \<noteq> 0 \<and> flag fl PERL_SCAN_ALLOW_UNDERSCORES);
                 digit' = (if under then digit_of (rd buf (s + 1)) else digit)
             in if under \<and> digit' \<noteq> 0 \<and> (digit' \<ge> 0 \<and> digit' \<le> 7)
                then grok_oct_loop buf fl (s + 2) (len - 1) (grok_accum 3 ''octal'' (nat digit') acc)
                else (s, if (digit' = 8 \<or> digit' = 9) \<and> \<not> flag fl PERL_SCAN_SILENT_ILLDIGIT
                         then add_warn (Warn_digit (rd buf s)) acc else acc))"

definition grok_oct :: "u8 list \<Rightarrow> nat \<Rightarrow> u32 \<Rightarrow> grok_out" where
  "grok_oct start len fl =
     (let (s, acc) = grok_oct_loop start fl 0 len acc0 in grok_finish s acc)"

text \<open>
  \<open>scan_bin\<close>, \<open>scan_oct\<close>, \<open>scan_hex\<close>: \<open>*retlen\<close> on entry chooses underscores, on exit it is the
  length scanned; the value is an \<open>NV\<close>.
\<close>

definition scan_with :: "(u8 list \<Rightarrow> nat \<Rightarrow> u32 \<Rightarrow> grok_out) \<Rightarrow> u8 list \<Rightarrow> nat \<Rightarrow> nat \<Rightarrow> dbl \<times> nat" where
  "scan_with grok start len retlen =
     (let out = grok start len (if retlen \<noteq> 0 then PERL_SCAN_ALLOW_UNDERSCORES else 0)
      in (if flag (out_flags out) PERL_SCAN_GREATER_THAN_UV_MAX
          then the (out_result out) else dbl_of_nat (unat (out_value out)),
          out_len out))"

definition scan_bin :: "u8 list \<Rightarrow> nat \<Rightarrow> nat \<Rightarrow> dbl \<times> nat" where
  "scan_bin = scan_with grok_bin"

definition scan_oct :: "u8 list \<Rightarrow> nat \<Rightarrow> nat \<Rightarrow> dbl \<times> nat" where
  "scan_oct = scan_with grok_oct"

definition scan_hex :: "u8 list \<Rightarrow> nat \<Rightarrow> nat \<Rightarrow> dbl \<times> nat" where
  "scan_hex = scan_with grok_hex"

section \<open>The accumulator computes the value of the digits\<close>

definition digits_val :: "nat \<Rightarrow> nat list \<Rightarrow> nat" where
  "digits_val b ds = foldl (\<lambda>v d. v * b + d) 0 ds"

lemma digits_val_simps [simp]:
  "digits_val b [] = 0"
  "digits_val b (ds @ [d]) = digits_val b ds * b + d"
  by (simp_all add: digits_val_def)

lemma excess_bits_quotient: "n div 2 ^ excess_bits n < 2 ^ 53"
proof (induction n rule: excess_bits.induct)
  case (1 n)
  show ?case
  proof (cases "n < 2 ^ 53")
    case True
    then show ?thesis by (simp add: excess_bits.simps[of n])
  next
    case False
    with 1 show ?thesis by (simp add: excess_bits.simps[of n] div_mult2_eq)
  qed
qed

lemma excess_bits_le: "0 < excess_bits n \<Longrightarrow> 2 ^ (52 + excess_bits n) \<le> n"
proof (induction n rule: excess_bits.induct)
  case (1 n)
  show ?case
  proof (cases "n < 2 ^ 53")
    case True
    with 1 show ?thesis by (simp add: excess_bits.simps[of n])
  next
    case False
    let ?m = "n div 2"
    have e: "excess_bits n = Suc (excess_bits ?m)" using False by (simp add: excess_bits.simps[of n])
    show ?thesis
    proof (cases "excess_bits ?m = 0")
      case True
      with False e show ?thesis by simp
    next
      case False
      with 1 \<open>\<not> n < 2 ^ 53\<close> have "2 ^ (52 + excess_bits ?m) \<le> ?m" by simp
      then have "2 * 2 ^ (52 + excess_bits ?m) \<le> n" by linarith
      then show ?thesis unfolding e by (simp only: add_Suc_right power_Suc)
    qed
  qed
qed

text \<open>Rounding never crosses a power of two downwards.\<close>

lemma dbl_round_ge: "2 ^ j \<le> n \<Longrightarrow> 2 ^ j \<le> dbl_round n"
proof -
  assume j: "2 ^ j \<le> n"
  let ?e = "excess_bits n"
  show ?thesis
  proof (cases "?e = 0")
    case True
    then show ?thesis using j by (simp add: dbl_round_def Let_def)
  next
    case False
    have "2 ^ j \<le> n div 2 ^ ?e * 2 ^ ?e"
    proof (cases "j \<le> ?e")
      case True
      have "2 ^ ?e \<le> (2::nat) ^ (52 + ?e)" by (rule power_increasing) simp_all
      also have "\<dots> \<le> n" using excess_bits_le False by blast
      finally have "1 \<le> n div 2 ^ ?e" by (simp add: div_greater_zero_iff Suc_le_eq)
      then have "2 ^ ?e \<le> n div 2 ^ ?e * 2 ^ ?e" by simp
      moreover have "(2::nat) ^ j \<le> 2 ^ ?e" using True by (rule power_increasing) simp
      ultimately show ?thesis by linarith
    next
      case False
      then have "(2::nat) ^ j = 2 ^ (j - ?e) * 2 ^ ?e" by (simp add: power_add[symmetric])
      moreover have "2 ^ (j - ?e) \<le> n div 2 ^ ?e"
        using j calculation by (metis div_le_mono nonzero_mult_div_cancel_right power_not_zero zero_neq_numeral)
      ultimately show ?thesis by simp
    qed
    also have "\<dots> \<le> dbl_round n"
      using False by (simp add: dbl_round_def Let_def)
    finally show ?thesis .
  qed
qed

lemma dbl_round_small [simp]: "n < 2 ^ 53 \<Longrightarrow> dbl_round n = n"
  by (simp add: dbl_round_def Let_def excess_bits.simps)

fun dbl_ge :: "dbl \<Rightarrow> nat \<Rightarrow> bool" where
  "dbl_ge (DNat a) b = (a \<ge> b)"
| "dbl_ge DInf b = True"

lemma dbl_of_nat_ge: "2 ^ j \<le> n \<Longrightarrow> dbl_ge (dbl_of_nat n) (2 ^ j)"
  using dbl_round_ge[of j n] by (simp add: dbl_of_nat_def)

lemma dbl_mul_ge: "dbl_ge v (2 ^ j) \<Longrightarrow> dbl_ge (dbl_mul v (2 ^ k)) (2 ^ (j + k))"
  by (cases v) (simp_all add: power_add dbl_of_nat_ge[of "j + k", unfolded power_add])

lemma dbl_add_ge: "dbl_ge v (2 ^ j) \<Longrightarrow> dbl_ge (dbl_add v d) (2 ^ j)"
  by (cases v) (auto intro!: dbl_of_nat_ge)

lemma dbl_ge_mono: "dbl_ge v b \<Longrightarrow> a \<le> b \<Longrightarrow> dbl_ge v a"
  by (cases v) auto

text \<open>
  What the accumulator stands for after the digits \<open>ds\<close>: their value as long as it fits a \<open>UV\<close>,
  afterwards the fact that it does not, with an \<open>NV\<close> that says so too.
\<close>

definition acc_rep :: "nat \<Rightarrow> nat list \<Rightarrow> grok_acc \<Rightarrow> bool" where
  "acc_rep k ds acc \<longleftrightarrow>
     (if goverflowed acc then 2 ^ 64 \<le> digits_val (2 ^ k) ds \<and> dbl_ge (gvalue_nv acc) (2 ^ 64)
      else digits_val (2 ^ k) ds < 2 ^ 64 \<and> unat (gvalue acc) = digits_val (2 ^ k) ds)"

lemma acc_rep_add_warn [simp]: "acc_rep k ds (add_warn w acc) = acc_rep k ds acc"
  by (simp add: acc_rep_def add_warn_def)

lemma acc_rep_acc0: "acc_rep k [] acc0"
  by (simp add: acc_rep_def acc0_def)

lemma shift_or_digit:
  fixes v :: uv
  assumes "d < 2 ^ k" "unat v * 2 ^ k + d < 2 ^ 64"
  shows "unat (push_bit k v OR of_nat d) = unat v * 2 ^ k + d"
proof -
  have "push_bit k v OR of_nat d = push_bit k v + of_nat d"
  proof (rule disjunctive_add[symmetric])
    fix n
    have "\<not> bit d n" if "k \<le> n"
      using assms(1) that by (metis bit_take_bit_iff leD take_bit_nat_eq_self_iff)
    then show "\<not> bit (push_bit k v) n \<or> \<not> bit (of_nat d :: uv) n"
      by (cases "k \<le> n") (auto simp: bit_push_bit_iff bit_of_nat_iff)
  qed
  also have "\<dots> = of_nat (unat v * 2 ^ k + d)"
    by (simp add: push_bit_eq_mult)
  finally show ?thesis
    using assms(2) by (simp add: unat_of_nat take_bit_nat_eq_self_iff del: of_nat_add of_nat_mult)
qed

lemma grok_accum_rep:
  assumes k: "k \<in> {1, 3, 4}" and d: "d < 2 ^ k" and rep: "acc_rep k ds acc"
  shows "acc_rep k (ds @ [d]) (grok_accum k what d acc)"
proof (cases "goverflowed acc")
  case True
  have "dbl_ge (dbl_add (dbl_mul (gvalue_nv acc) (2 ^ k)) d) (2 ^ 64)"
    using True rep
    by (intro dbl_add_ge dbl_ge_mono[OF dbl_mul_ge[of _ 64 k]]) (simp_all add: acc_rep_def power_add)
  moreover have "2 ^ 64 \<le> digits_val (2 ^ k) ds * 2 ^ k + d"
  proof -
    have "2 ^ 64 \<le> digits_val (2 ^ k) ds" using True rep by (simp add: acc_rep_def)
    also have "\<dots> \<le> digits_val (2 ^ k) ds * 2 ^ k" by simp
    finally show ?thesis by linarith
  qed
  ultimately show ?thesis
    using True by (simp add: acc_rep_def grok_accum_def Let_def)
next
  case False
  let ?v = "gvalue acc"
  have v: "unat ?v = digits_val (2 ^ k) ds" using False rep by (simp add: acc_rep_def)
  have fit: "?v \<le> (- 1) div 2 ^ k \<longleftrightarrow> unat ?v * 2 ^ k + d < 2 ^ 64"
    using k d by (auto simp: word_le_nat_alt unat_div)
  show ?thesis
  proof (cases "?v \<le> (- 1) div 2 ^ k")
    case True
    then have "unat ?v * 2 ^ k + d < 2 ^ 64" using fit by simp
    with shift_or_digit[OF d this] show ?thesis
      using False True v by (simp add: acc_rep_def grok_accum_def)
  next
    case big: False
    have "unat ?v \<ge> 2 ^ (64 - k)" using big k by (auto simp: word_le_nat_alt unat_div)
    then have "dbl_ge (dbl_of_nat (unat ?v)) (2 ^ (64 - k))" by (rule dbl_of_nat_ge)
    then have "dbl_ge (dbl_add (dbl_mul (dbl_of_nat (unat ?v)) (2 ^ k)) d) (2 ^ 64)"
      using k dbl_mul_ge[of "dbl_of_nat (unat ?v)" "64 - k" k] by (intro dbl_add_ge) auto
    then show ?thesis
      using False big fit v by (simp add: acc_rep_def grok_accum_def Let_def not_less)
  qed
qed

section \<open>The scanners\<close>

text \<open>
  The reference scanner: the digits at the front of a byte list and how many bytes they take.
  \<open>dig\<close> is the value of a digit, \<open>udig\<close> that of a digit right after an underscore, \<open>us\<close> tells
  whether underscores are allowed.
\<close>

fun scan_digits :: "(u8 \<Rightarrow> nat option) \<Rightarrow> (u8 \<Rightarrow> nat option) \<Rightarrow> bool \<Rightarrow> u8 list \<Rightarrow> nat list \<times> nat" where
  "scan_digits dig udig us [] = ([], 0)"
| "scan_digits dig udig us (c # cs) =
     (case dig c of
        Some d \<Rightarrow> (let (ds, n) = scan_digits dig udig us cs in (d # ds, n + 1))
      | None \<Rightarrow>
          (if c = ch CHR ''_'' \<and> us
           then case cs of
                  [] \<Rightarrow> ([], 0)
                | c' # cs' \<Rightarrow>
                    (case udig c' of
                       None \<Rightarrow> ([], 0)
                     | Some d \<Rightarrow> (let (ds, n) = scan_digits dig udig us cs' in (d # ds, n + 2)))
           else ([], 0)))"

text \<open>
  The contract the three scanning loops share: what one step does with each kind of character.
  A stop leaves the accumulator as it is but for a warning.
\<close>

locale radix_scanner =
  fixes k :: nat and what :: string
    and dig udig :: "u8 \<Rightarrow> nat option"
    and loop :: "u8 list \<Rightarrow> u32 \<Rightarrow> nat \<Rightarrow> nat \<Rightarrow> grok_acc \<Rightarrow> nat \<times> grok_acc"
  assumes k: "k \<in> {1, 3, 4}"
    and dig_less: "dig c = Some d \<Longrightarrow> d < 2 ^ k"
    and udig_less: "udig c = Some d \<Longrightarrow> d < 2 ^ k"
    and dig_nul: "dig 0 = None"
    and udig_nul: "udig 0 = None"
    and loop_0: "loop buf fl s 0 acc = (s, acc)"
    and loop_digit: "dig (rd buf s) = Some d \<Longrightarrow>
      loop buf fl s (Suc len) acc = loop buf fl (s + 1) len (grok_accum k what d acc)"
    and loop_underscore: "dig (rd buf s) = None \<Longrightarrow> rd buf s = ch CHR ''_'' \<Longrightarrow> len \<noteq> 0 \<Longrightarrow>
      flag fl PERL_SCAN_ALLOW_UNDERSCORES \<Longrightarrow> udig (rd buf (s + 1)) = Some d \<Longrightarrow>
      loop buf fl s (Suc len) acc = loop buf fl (s + 2) (len - 1) (grok_accum k what d acc)"
    and loop_stop: "dig (rd buf s) = None \<Longrightarrow>
      \<not> (rd buf s = ch CHR ''_'' \<and> len \<noteq> 0 \<and> flag fl PERL_SCAN_ALLOW_UNDERSCORES \<and>
         udig (rd buf (s + 1)) \<noteq> None) \<Longrightarrow>
      loop buf fl s (Suc len) acc = (s, acc) \<or> (\<exists>w. loop buf fl s (Suc len) acc = (s, add_warn w acc))"
begin

text \<open>The bytes a loop may look at.\<close>

definition window :: "u8 list \<Rightarrow> nat \<Rightarrow> nat \<Rightarrow> u8 list" where
  "window buf s len = take len (drop s buf)"

lemma window_Suc:
  "window buf s (Suc len) = (if s < length buf then buf ! s # window buf (s + 1) len else [])"
  by (simp add: window_def Cons_nth_drop_Suc[symmetric])

theorem loop_scan:
  assumes "acc_rep k ds0 acc"
  shows "\<exists>acc'. loop buf fl s len acc =
      (s + snd (scan_digits dig udig (flag fl PERL_SCAN_ALLOW_UNDERSCORES) (window buf s len)), acc') \<and>
    acc_rep k (ds0 @ fst (scan_digits dig udig (flag fl PERL_SCAN_ALLOW_UNDERSCORES) (window buf s len))) acc'"
  using assms
proof (induction len arbitrary: s acc ds0 rule: less_induct)
  case (less len)
  let ?us = "flag fl PERL_SCAN_ALLOW_UNDERSCORES"
  show ?case
  proof (cases len)
    case 0
    with less.prems show ?thesis by (simp add: loop_0 window_def)
  next
    case (Suc n)
    let ?c = "rd buf s" and ?c' = "rd buf (s + 1)"
    show ?thesis
    proof (cases "dig ?c")
      case (Some d)
      then have s: "s < length buf" using dig_nul by (auto simp: rd_def split: if_splits)
      have "acc_rep k (ds0 @ [d]) (grok_accum k what d acc)"
        using grok_accum_rep[OF k dig_less[OF Some] less.prems] .
      from less.IH[OF _ this, of n "s + 1"] Suc Some s show ?thesis
        by (auto simp: loop_digit window_Suc rd_def case_prod_beta Let_def)
    next
      case None
      show ?thesis
      proof (cases "?c = ch CHR ''_'' \<and> n \<noteq> 0 \<and> ?us \<and> udig ?c' \<noteq> None")
        case True
        then obtain d m where d: "udig ?c' = Some d" and m: "n = Suc m" by (cases n) auto
        have s: "s + 1 < length buf" using d udig_nul by (auto simp: rd_def split: if_splits)
        have "acc_rep k (ds0 @ [d]) (grok_accum k what d acc)"
          using grok_accum_rep[OF k udig_less[OF d] less.prems] .
        from less.IH[OF _ this, of m "s + 2"] Suc m None True d s show ?thesis
          by (auto simp: loop_underscore window_Suc rd_def case_prod_beta Let_def)
      next
        case False
        have "scan_digits dig udig ?us (window buf s len) = ([], 0)"
          using None False Suc udig_nul
          by (auto simp: window_Suc rd_def window_def split: list.splits option.splits if_splits)
            (auto simp: Cons_nth_drop_Suc[symmetric] take_Suc_conv_app_nth neq_Nil_conv take_Cons'
              split: if_splits dest: sym)
        with loop_stop[OF None False, of acc] Suc less.prems show ?thesis by auto
      qed
    qed
  qed
qed

end

subsection \<open>The three scanners meet the contract\<close>

definition bin_digit :: "u8 \<Rightarrow> nat option" where
  "bin_digit c = (if c = ch CHR ''0'' then Some 0 else if c = ch CHR ''1'' then Some 1 else None)"

definition hex_digit :: "u8 \<Rightarrow> nat option" where
  "hex_digit c = map_option (\<lambda>h. h mod 16) (hexdigit c)"

definition oct_digit :: "u8 \<Rightarrow> nat option" where
  "oct_digit c = (if 0 \<le> digit_of c \<and> digit_of c \<le> 7 then Some (nat (digit_of c)) else None)"

text \<open>After an underscore \<open>grok_oct\<close> takes the digits 1 to 7 only.\<close>

definition oct_udigit :: "u8 \<Rightarrow> nat option" where
  "oct_udigit c = (if 1 \<le> digit_of c \<and> digit_of c \<le> 7 then Some (nat (digit_of c)) else None)"

lemma hexdigit_nul [simp]: "hexdigit 0 = None"
  by (simp add: hexdigit_def PL_hexdigit_def)

lemma hexdigit_underscore: "hexdigit (ch CHR ''_'') = None"
  by (simp add: hexdigit_def PL_hexdigit_def)

interpretation bin: radix_scanner 1 "''binary''" bin_digit bin_digit grok_bin_loop
proof unfold_locales
  fix buf :: "u8 list" and fl s len acc d
  show "d < 2 ^ 1" if "bin_digit c = Some d" for c
    using that by (auto simp: bin_digit_def split: if_splits)
  show "bin_digit (rd buf s) = Some d \<Longrightarrow>
      grok_bin_loop buf fl s (Suc len) acc = grok_bin_loop buf fl (s + 1) len (grok_accum 1 ''binary'' d acc)"
    by (auto simp: bin_digit_def is_bit_def split: if_splits)
  show "bin_digit (rd buf s) = None \<Longrightarrow> rd buf s = ch CHR ''_'' \<Longrightarrow> len \<noteq> 0 \<Longrightarrow>
      flag fl PERL_SCAN_ALLOW_UNDERSCORES \<Longrightarrow> bin_digit (rd buf (s + 1)) = Some d \<Longrightarrow>
      grok_bin_loop buf fl s (Suc len) acc = grok_bin_loop buf fl (s + 2) (len - 1) (grok_accum 1 ''binary'' d acc)"
    by (auto simp: bin_digit_def is_bit_def split: if_splits)
  show "grok_bin_loop buf fl s (Suc len) acc = (s, acc) \<or>
      (\<exists>w. grok_bin_loop buf fl s (Suc len) acc = (s, add_warn w acc))"
    if "bin_digit (rd buf s) = None"
      "\<not> (rd buf s = ch CHR ''_'' \<and> len \<noteq> 0 \<and> flag fl PERL_SCAN_ALLOW_UNDERSCORES \<and>
          bin_digit (rd buf (s + 1)) \<noteq> None)"
    using that by (auto simp: bin_digit_def is_bit_def Let_def split: if_splits)
qed (simp_all add: bin_digit_def)

interpretation hex: radix_scanner 4 "''hexadecimal''" hex_digit hex_digit grok_hex_loop
proof unfold_locales
  fix buf :: "u8 list" and fl s len acc d
  show "d < 2 ^ 4" if "hex_digit c = Some d" for c
    using that by (auto simp: hex_digit_def)
  show "hex_digit (rd buf s) = Some d \<Longrightarrow>
      grok_hex_loop buf fl s (Suc len) acc = grok_hex_loop buf fl (s + 1) len (grok_accum 4 ''hexadecimal'' d acc)"
    by (cases "rd buf s = 0") (auto simp: hex_digit_def)
  show "hex_digit (rd buf s) = None \<Longrightarrow> rd buf s = ch CHR ''_'' \<Longrightarrow> len \<noteq> 0 \<Longrightarrow>
      flag fl PERL_SCAN_ALLOW_UNDERSCORES \<Longrightarrow> hex_digit (rd buf (s + 1)) = Some d \<Longrightarrow>
      grok_hex_loop buf fl s (Suc len) acc = grok_hex_loop buf fl (s + 2) (len - 1) (grok_accum 4 ''hexadecimal'' d acc)"
    by (cases "rd buf (s + 1) = 0") (auto simp: hex_digit_def hexdigit_underscore)
  show "grok_hex_loop buf fl s (Suc len) acc = (s, acc) \<or>
      (\<exists>w. grok_hex_loop buf fl s (Suc len) acc = (s, add_warn w acc))"
    if "hex_digit (rd buf s) = None"
      "\<not> (rd buf s = ch CHR ''_'' \<and> len \<noteq> 0 \<and> flag fl PERL_SCAN_ALLOW_UNDERSCORES \<and>
          hex_digit (rd buf (s + 1)) \<noteq> None)"
    using that by (auto simp: hex_digit_def split: option.splits)
qed (simp_all add: hex_digit_def)

lemma digit_of_consts [simp]:
  "digit_of 0 = - 48" "digit_of 95 = 47" "digit_of 48 = 0"
  by (simp_all add: digit_of_def)

lemma digit_of_inj: "digit_of a = digit_of b \<longleftrightarrow> a = b"
  unfolding digit_of_def using word_eq_iff_signed[of a b] by auto

lemma stop_or_warn:
  "(s, if Q then add_warn w acc else acc) = (s, acc) \<or>
   (\<exists>w'. (s, if Q then add_warn w acc else acc) = (s, add_warn w' acc))"
  by auto

lemma grok_oct_stop:
  assumes a: "\<not> (0 \<le> digit_of (rd buf s) \<and> digit_of (rd buf s) \<le> 7)"
    and b: "\<not> (digit_of (rd buf s) = digit_of (ch CHR ''_'') \<and> len \<noteq> 0 \<and>
        flag fl PERL_SCAN_ALLOW_UNDERSCORES \<and>
        (1 \<le> digit_of (rd buf (s + 1)) \<and> digit_of (rd buf (s + 1)) \<le> 7))"
  shows "grok_oct_loop buf fl s (Suc len) acc = (s, acc) \<or>
      (\<exists>w. grok_oct_loop buf fl s (Suc len) acc = (s, add_warn w acc))"
proof (cases "rd buf s = 0")
  case False
  let ?U = "digit_of (rd buf s) = digit_of (ch CHR ''_'') \<and> len \<noteq> 0 \<and> flag fl PERL_SCAN_ALLOW_UNDERSCORES"
  let ?d = "if ?U then digit_of (rd buf (s + 1)) else digit_of (rd buf s)"
  have c: "\<not> (?U \<and> ?d \<noteq> 0 \<and> (?d \<ge> 0 \<and> ?d \<le> 7))"
    using b by (cases ?U) (simp_all only: if_True if_False simp_thms, linarith)
  show ?thesis
    unfolding grok_oct_loop.simps(2) Let_def if_not_P[OF False] if_not_P[OF a] if_not_P[OF c]
    by (rule stop_or_warn)
qed simp

interpretation oct: radix_scanner 3 "''octal''" oct_digit oct_udigit grok_oct_loop
proof unfold_locales
  fix buf :: "u8 list" and fl s len acc d
  show "d < 2 ^ 3" if "oct_digit c = Some d" for c
    using that by (auto simp: oct_digit_def split: if_splits)
  show "d < 2 ^ 3" if "oct_udigit c = Some d" for c
    using that by (auto simp: oct_udigit_def split: if_splits)
  show "oct_digit (rd buf s) = Some d \<Longrightarrow>
      grok_oct_loop buf fl s (Suc len) acc = grok_oct_loop buf fl (s + 1) len (grok_accum 3 ''octal'' d acc)"
    by (cases "rd buf s = 0") (auto simp: oct_digit_def split: if_splits)
  show "oct_digit (rd buf s) = None \<Longrightarrow> rd buf s = ch CHR ''_'' \<Longrightarrow> len \<noteq> 0 \<Longrightarrow>
      flag fl PERL_SCAN_ALLOW_UNDERSCORES \<Longrightarrow> oct_udigit (rd buf (s + 1)) = Some d \<Longrightarrow>
      grok_oct_loop buf fl s (Suc len) acc = grok_oct_loop buf fl (s + 2) (len - 1) (grok_accum 3 ''octal'' d acc)"
    by (auto simp: oct_digit_def oct_udigit_def Let_def split: if_splits)
  show "grok_oct_loop buf fl s (Suc len) acc = (s, acc) \<or>
      (\<exists>w. grok_oct_loop buf fl s (Suc len) acc = (s, add_warn w acc))"
    if "oct_digit (rd buf s) = None"
      "\<not> (rd buf s = ch CHR ''_'' \<and> len \<noteq> 0 \<and> flag fl PERL_SCAN_ALLOW_UNDERSCORES \<and>
          oct_udigit (rd buf (s + 1)) \<noteq> None)"
  proof -
    have "\<not> (0 \<le> digit_of (rd buf s) \<and> digit_of (rd buf s) \<le> 7)"
      using that(1) by (auto simp: oct_digit_def split: if_splits)
    moreover have "\<not> (digit_of (rd buf s) = digit_of (ch CHR ''_'') \<and> len \<noteq> 0 \<and>
        flag fl PERL_SCAN_ALLOW_UNDERSCORES \<and>
        (1 \<le> digit_of (rd buf (s + 1)) \<and> digit_of (rd buf (s + 1)) \<le> 7))"
      using that(2) by (auto simp: oct_udigit_def digit_of_inj
          simp del: digit_of_consts split: if_splits)
    ultimately show ?thesis
      by (rule grok_oct_stop)
  qed
qed (simp_all add: oct_digit_def oct_udigit_def)

subsection \<open>Results\<close>

text \<open>What a scanner must return for digits \<open>ds\<close> found in \<open>n\<close> bytes.\<close>

definition grok_result :: "nat \<Rightarrow> nat list \<Rightarrow> nat \<Rightarrow> grok_out \<Rightarrow> bool" where
  "grok_result b ds n out \<longleftrightarrow>
     out_len out = n \<and>
     (if digits_val b ds < 2 ^ 64
      then out_value out = of_nat (digits_val b ds) \<and> out_flags out = 0 \<and> out_result out = None
      else out_value out = - 1 \<and> out_flags out = PERL_SCAN_GREATER_THAN_UV_MAX \<and>
        (\<exists>v. out_result out = Some v \<and> dbl_ge v (2 ^ 64)))"

lemma grok_finish_result:
  assumes "acc_rep k ds acc"
  shows "grok_result (2 ^ k) ds n (grok_finish n acc)"
  using assms by (auto simp: acc_rep_def grok_finish_def grok_result_def Let_def word_unat_eq_iff
      unat_of_nat_less split: if_splits)

lemma grok_bin_result:
  "grok_result 2 (fst (scan_digits bin_digit bin_digit us (drop p (take len start))))
     (p + snd (scan_digits bin_digit bin_digit us (drop p (take len start)))) (grok_bin start len fl)"
  if "p = skip_prefix (ch CHR ''b'') fl start len" "us = flag fl PERL_SCAN_ALLOW_UNDERSCORES"
  using bin.loop_scan[OF acc_rep_acc0, of start fl p "len - p"] that grok_finish_result[of 1]
  by (auto simp: grok_bin_def bin.window_def drop_take Let_def)

lemma grok_hex_result:
  "grok_result 16 (fst (scan_digits hex_digit hex_digit us (drop p (take len start))))
     (p + snd (scan_digits hex_digit hex_digit us (drop p (take len start)))) (grok_hex start len fl)"
  if "p = skip_prefix (ch CHR ''x'') fl start len" "us = flag fl PERL_SCAN_ALLOW_UNDERSCORES"
  using hex.loop_scan[OF acc_rep_acc0, of start fl p "len - p"] that grok_finish_result[of 4]
  by (auto simp: grok_hex_def hex.window_def drop_take Let_def)

lemma grok_oct_result:
  "grok_result 8 (fst (scan_digits oct_digit oct_udigit us (take len start)))
     (snd (scan_digits oct_digit oct_udigit us (take len start))) (grok_oct start len fl)"
  if "us = flag fl PERL_SCAN_ALLOW_UNDERSCORES"
  using oct.loop_scan[OF acc_rep_acc0, of start fl 0 len] that grok_finish_result[of 3]
  by (auto simp: grok_oct_def oct.window_def)

text \<open>
  C23: \<open>grok_bin\<close> and \<open>grok_hex\<close>, on any buffer, length and flags: with the optional prefix
  skipped, the bytes taken are the longest run of digits (single underscores between them, where
  the flags allow it); \<open>*len_p\<close> counts them with the prefix; the value is exact and the output
  flags are clear if it fits a \<open>UV\<close>, otherwise the value is \<open>UV_MAX\<close>, the flags say so, and
  \<open>*result\<close> holds an \<open>NV\<close> beyond \<open>UV_MAX\<close>.
\<close>

theorem grok_bin_hex_correct:
  fixes us fl len start
  defines "us \<equiv> flag fl PERL_SCAN_ALLOW_UNDERSCORES"
    and "pb \<equiv> skip_prefix (ch CHR ''b'') fl start len"
    and "px \<equiv> skip_prefix (ch CHR ''x'') fl start len"
  shows "(let (ds, n) = scan_digits bin_digit bin_digit us (drop pb (take len start))
      in grok_result 2 ds (pb + n) (grok_bin start len fl)) \<and>
    (let (ds, n) = scan_digits hex_digit hex_digit us (drop px (take len start))
      in grok_result 16 ds (px + n) (grok_hex start len fl))"
  using grok_bin_result[of pb fl start len us] grok_hex_result[of px fl start len us]
  by (simp add: pb_def px_def us_def case_prod_beta Let_def)

text \<open>
  C26: \<open>grok_oct\<close>, on any buffer, length and flags: the same result as the other scanners have, but
  the digit after an underscore may not be \<open>0\<close>.
\<close>

theorem grok_oct_correct:
  "let (ds, n) = scan_digits oct_digit oct_udigit (flag fl PERL_SCAN_ALLOW_UNDERSCORES) (take len start)
   in grok_result 8 ds n (grok_oct start len fl)"
  using grok_oct_result[OF refl, of fl len start] by (simp add: case_prod_beta Let_def)

lemma scan_digits_append:
  assumes "\<And>c. c \<in> set cs \<Longrightarrow> dig c \<noteq> None"
  shows "scan_digits dig udig us (cs @ rest) =
    (let (ds, n) = scan_digits dig udig us rest in (map (\<lambda>c. the (dig c)) cs @ ds, length cs + n))"
  using assms
proof (induction cs)
  case (Cons c cs)
  then obtain d where "dig c = Some d" by fastforce
  with Cons show ?case by (simp add: case_prod_beta Let_def)
qed simp

text \<open>
  An octal literal with underscores is cut short where an underscore is followed by a zero:
  \<open>grok_oct\<close> stops after the digits before the underscore, where \<open>grok_hex\<close> on the same text
  reads on past it.
\<close>

theorem grok_oct_underscore_zero:
  assumes "\<And>c. c \<in> set cs \<Longrightarrow> oct_digit c \<noteq> None"
  shows "out_len (grok_oct (cs @ [ch CHR ''_'', ch CHR ''0''] @ rest)
           (length cs + 2 + length rest) PERL_SCAN_ALLOW_UNDERSCORES) = length cs"
proof -
  let ?x = "cs @ [ch CHR ''_'', ch CHR ''0''] @ rest"
  have stop: "scan_digits oct_digit oct_udigit True ([ch CHR ''_'', ch CHR ''0''] @ rest) = ([], 0)"
    by (simp add: oct_digit_def oct_udigit_def)
  have us: "flag PERL_SCAN_ALLOW_UNDERSCORES PERL_SCAN_ALLOW_UNDERSCORES"
    by (simp add: flag_def PERL_SCAN_ALLOW_UNDERSCORES_def)
  have "scan_digits oct_digit oct_udigit True ?x =
      (let (ds, n) = scan_digits oct_digit oct_udigit True ([ch CHR ''_'', ch CHR ''0''] @ rest)
       in (map (\<lambda>c. the (oct_digit c)) cs @ ds, length cs + n))"
    by (rule scan_digits_append) (rule assms)
  then have "snd (scan_digits oct_digit oct_udigit True ?x) = length cs"
    unfolding stop by simp
  with grok_oct_result[of True PERL_SCAN_ALLOW_UNDERSCORES "length cs + 2 + length rest" ?x] us
  show ?thesis by (simp add: grok_result_def)
qed

theorem grok_oct_underscore_zero_witness:
  "out_len (grok_oct (map of_char ''7_01'') 4 PERL_SCAN_ALLOW_UNDERSCORES) = 1 \<and>
   out_len (grok_hex (map of_char ''7_01'') 4 PERL_SCAN_ALLOW_UNDERSCORES) = 4"
proof
  have "out_len (grok_oct ([ch CHR ''7''] @ [ch CHR ''_'', ch CHR ''0''] @ [ch CHR ''1''])
      (length [ch CHR ''7''] + 2 + length [ch CHR ''1'']) PERL_SCAN_ALLOW_UNDERSCORES) = length [ch CHR ''7'']"
    by (rule grok_oct_underscore_zero) (simp add: oct_digit_def digit_of_def)
  then show "out_len (grok_oct (map of_char ''7_01'') 4 PERL_SCAN_ALLOW_UNDERSCORES) = 1"
    by (simp add: numeral_eq_Suc)
  show "out_len (grok_hex (map of_char ''7_01'') 4 PERL_SCAN_ALLOW_UNDERSCORES) = 4"
    by code_simp
qed

end
