(* ===== verification/Grok_Decimal.thy ===== *)
theory Grok_Decimal
  imports Kurila_Prelude Grok_Numeric
begin

text \<open>
  Decimal numbers and casts (\<open>numeric.c\<close>): \<open>grok_number\<close>, which says whether a string is a
  number and of what kind, and the casts of an \<open>NV\<close> to the 32-bit and 64-bit integer types.
  Positions are indices into the buffer; \<open>send\<close> is the end of the string.
\<close>

section \<open>grok\_number\<close>

definition IS_NUMBER_IN_UV :: u32 where "IS_NUMBER_IN_UV = 0x01"
definition IS_NUMBER_GREATER_THAN_UV_MAX :: u32 where "IS_NUMBER_GREATER_THAN_UV_MAX = 0x02"
definition IS_NUMBER_NOT_INT :: u32 where "IS_NUMBER_NOT_INT = 0x04"
definition IS_NUMBER_NEG :: u32 where "IS_NUMBER_NEG = 0x08"
definition IS_NUMBER_INFINITY :: u32 where "IS_NUMBER_INFINITY = 0x10"
definition IS_NUMBER_NAN :: u32 where "IS_NUMBER_NAN = 0x20"

lemmas number_flags = IS_NUMBER_IN_UV_def IS_NUMBER_GREATER_THAN_UV_MAX_def IS_NUMBER_NOT_INT_def
  IS_NUMBER_NEG_def IS_NUMBER_INFINITY_def IS_NUMBER_NAN_def

definition isSPACE :: "u8 \<Rightarrow> bool" where
  "isSPACE c \<longleftrightarrow> c = 32 \<or> c = 9 \<or> c = 10 \<or> c = 13 \<or> c = 12"

definition isDIGIT :: "u8 \<Rightarrow> bool" where
  "isDIGIT c \<longleftrightarrow> ch CHR ''0'' \<le> c \<and> c \<le> ch CHR ''9''"

definition digit :: "u8 \<Rightarrow> uv" where
  "digit c = ucast (c - ch CHR ''0'')"

text \<open>\<open>while (s < send && p(*s)) s++\<close>\<close>

function skip_while :: "(u8 \<Rightarrow> bool) \<Rightarrow> u8 list \<Rightarrow> nat \<Rightarrow> nat \<Rightarrow> nat" where
  "skip_while p pv send s = (if s < send \<and> p (rd pv s) then skip_while p pv send (s + 1) else s)"
  by pat_completeness auto
termination
  by (relation "measure (\<lambda>(p, pv, send, s). send - s)") auto

definition grok_numeric_radix :: "u8 list \<Rightarrow> nat \<Rightarrow> nat \<Rightarrow> nat \<times> bool" where
  "grok_numeric_radix pv send s =
     (if s < send \<and> rd pv s = ch CHR ''.'' then (s + 1, True) else (s, False))"

text \<open>
  The loop from the tenth digit on, with its overflow test: \<open>s\<close> is before \<open>send\<close> on entry. The
  third component tells that the value overflowed; the rest of the digits is then skipped.
\<close>

function gn_loop :: "u8 list \<Rightarrow> nat \<Rightarrow> nat \<Rightarrow> uv \<Rightarrow> nat \<times> uv \<times> bool" where
  "gn_loop pv send s value =
     (if s < send \<and> isDIGIT (rd pv s) \<and>
         (value < 1844674407370955161 \<or> value = 1844674407370955161 \<and> digit (rd pv s) \<le> 5)
      then (if s + 1 < send then gn_loop pv send (s + 1) (value * 10 + digit (rd pv s))
            else (s + 1, value * 10 + digit (rd pv s), False))
      else if s < send \<and> isDIGIT (rd pv s)
      then (skip_while isDIGIT pv send (s + 1), value, True)
      else (s, value, False))"
  by pat_completeness auto
termination
  by (relation "measure (\<lambda>(pv, send, s, value). send - s)") auto

text \<open>
  The unrolled digits: the first one is in \<open>value\<close> and at \<open>s\<close>; \<open>n\<close> of the eight nested tests are
  still to come before the loop.
\<close>

fun gn_digits :: "nat \<Rightarrow> u8 list \<Rightarrow> nat \<Rightarrow> nat \<Rightarrow> uv \<Rightarrow> nat \<times> uv \<times> bool" where
  "gn_digits 0 pv send s value =
     (if s + 1 < send then gn_loop pv send (s + 1) value else (s + 1, value, False))"
| "gn_digits (Suc n) pv send s value =
     (if s + 1 < send
      then (if isDIGIT (rd pv (s + 1))
            then gn_digits n pv send (s + 1) (value * 10 + digit (rd pv (s + 1)))
            else (s + 1, value, False))
      else (s + 1, value, False))"

text \<open>\<open>s++; if (s == send || (*s != up && *s != low)) return 0;\<close>\<close>

definition expect :: "u8 list \<Rightarrow> nat \<Rightarrow> char \<Rightarrow> char \<Rightarrow> nat \<Rightarrow> nat option" where
  "expect pv send up low s =
     (if s + 1 = send \<or> rd pv (s + 1) \<noteq> ch up \<and> rd pv (s + 1) \<noteq> ch low then None else Some (s + 1))"

definition gn_infinity :: "u8 list \<Rightarrow> nat \<Rightarrow> nat \<Rightarrow> nat option" where
  "gn_infinity pv send s =
     Option.bind (expect pv send CHR ''N'' CHR ''n'' s) (\<lambda>s.
     Option.bind (expect pv send CHR ''F'' CHR ''f'' s) (\<lambda>s.
       let s = s + 1 in
       if s < send \<and> (rd pv s = ch CHR ''I'' \<or> rd pv s = ch CHR ''i'')
       then Option.bind (expect pv send CHR ''N'' CHR ''n'' s) (\<lambda>s.
            Option.bind (expect pv send CHR ''I'' CHR ''i'' s) (\<lambda>s.
            Option.bind (expect pv send CHR ''T'' CHR ''t'' s) (\<lambda>s.
            Option.bind (expect pv send CHR ''Y'' CHR ''y'' s) (\<lambda>s. Some (s + 1)))))
       else Some s))"

definition gn_nan :: "u8 list \<Rightarrow> nat \<Rightarrow> nat \<Rightarrow> nat option" where
  "gn_nan pv send s =
     Option.bind (expect pv send CHR ''A'' CHR ''a'' s) (\<lambda>s.
     Option.bind (expect pv send CHR ''N'' CHR ''n'' s) (\<lambda>s. Some (s + 1)))"

text \<open>What the mantissa leaves; \<open>None\<close> where the code returns 0.\<close>

record gn_state =
  gn_s :: nat
  gn_numtype :: u32
  gn_valuep :: "uv option"
  gn_sawinf :: bool
  gn_sawnan :: bool

definition gn_mantissa :: "u8 list \<Rightarrow> nat \<Rightarrow> nat \<Rightarrow> u32 \<Rightarrow> gn_state option" where
  "gn_mantissa pv send s numtype =
     (if isDIGIT (rd pv s)
      then let (s, value, over) = gn_digits 8 pv send s (digit (rd pv s));
               numtype = numtype OR (if over then IS_NUMBER_GREATER_THAN_UV_MAX else IS_NUMBER_IN_UV);
               (s, radix) = grok_numeric_radix pv send s
           in Some \<lparr>gn_s = (if radix then skip_while isDIGIT pv send s else s),
                    gn_numtype = (if radix then numtype OR IS_NUMBER_NOT_INT else numtype),
                    gn_valuep = (if over then None else Some value),
                    gn_sawinf = False, gn_sawnan = False\<rparr>
      else let (s, radix) = grok_numeric_radix pv send s in
      if radix
      then (if s < send \<and> isDIGIT (rd pv s)
            then Some \<lparr>gn_s = skip_while isDIGIT pv send (s + 1),
                       gn_numtype = numtype OR (IS_NUMBER_NOT_INT OR IS_NUMBER_IN_UV),
                       gn_valuep = Some 0, gn_sawinf = False, gn_sawnan = False\<rparr>
            else None)
      else if rd pv s = ch CHR ''I'' \<or> rd pv s = ch CHR ''i''
      then map_option (\<lambda>s. \<lparr>gn_s = s, gn_numtype = numtype, gn_valuep = None,
                            gn_sawinf = True, gn_sawnan = False\<rparr>) (gn_infinity pv send s)
      else if rd pv s = ch CHR ''N'' \<or> rd pv s = ch CHR ''n''
      then map_option (\<lambda>s. \<lparr>gn_s = s, gn_numtype = numtype, gn_valuep = None,
                            gn_sawinf = False, gn_sawnan = True\<rparr>) (gn_nan pv send s)
      else None)"

text \<open>The exponent, or the flags of an infinity or a NaN.\<close>

definition gn_exponent :: "u8 list \<Rightarrow> nat \<Rightarrow> gn_state \<Rightarrow> (nat \<times> u32) option" where
  "gn_exponent pv send st =
     (let s = gn_s st; sign = gn_numtype st AND IS_NUMBER_NEG in
      if gn_sawinf st then Some (s, sign OR (IS_NUMBER_INFINITY OR IS_NUMBER_NOT_INT))
      else if gn_sawnan st then Some (s, sign OR (IS_NUMBER_NAN OR IS_NUMBER_NOT_INT))
      else if s < send \<and> (rd pv s = ch CHR ''e'' \<or> rd pv s = ch CHR ''E'')
      then let s = s + 1;
               s = (if s < send \<and> (rd pv s = ch CHR ''-'' \<or> rd pv s = ch CHR ''+'') then s + 1 else s)
           in if s < send \<and> isDIGIT (rd pv s)
              then Some (skip_while isDIGIT pv send (s + 1), sign OR IS_NUMBER_NOT_INT)
              else None
      else Some (s, gn_numtype st))"

text \<open>
  The whole function: the number type and the last value assigned through \<open>valuep\<close>, if any
  (\<open>valuep\<close> is not NULL).
\<close>

definition grok_number :: "u8 list \<Rightarrow> nat \<Rightarrow> u32 \<times> uv option" where
  "grok_number pv len =
     (let s = skip_while isSPACE pv len 0 in
      if s = len then (0, None)
      else let (s, numtype) =
                 (if rd pv s = ch CHR ''-'' then (s + 1, IS_NUMBER_NEG)
                  else if rd pv s = ch CHR ''+'' then (s + 1, 0) else (s, 0)) in
      if s = len then (0, None)
      else case gn_mantissa pv len s numtype of
        None \<Rightarrow> (0, None)
      | Some st \<Rightarrow>
          (case gn_exponent pv len st of
             None \<Rightarrow> (0, gn_valuep st)
           | Some (s, numtype) \<Rightarrow>
               if skip_while isSPACE pv len s \<ge> len then (numtype, gn_valuep st)
               else if len = 10 \<and> take 10 pv = map of_char ''0 but true''
               then (IS_NUMBER_IN_UV, Some 0)
               else (0, gn_valuep st)))"

declare skip_while.simps [simp del] gn_loop.simps [simp del]

section \<open>Casts of an NV\<close>

text \<open>An IEEE double as the value it denotes. The C cast to an integer type truncates.\<close>

datatype nv = NaN | PInf | NInf | Fin rat

fun nv_less :: "nv \<Rightarrow> rat \<Rightarrow> bool" where
  "nv_less NaN b = False"
| "nv_less PInf b = False"
| "nv_less NInf b = True"
| "nv_less (Fin a) b = (a < b)"

fun nv_pos :: "nv \<Rightarrow> bool" where
  "nv_pos NaN = False"
| "nv_pos PInf = True"
| "nv_pos NInf = False"
| "nv_pos (Fin a) = (a > 0)"

definition trunc_rat :: "rat \<Rightarrow> int" where
  "trunc_rat a = (if a < 0 then \<lceil>a\<rceil> else \<lfloor>a\<rfloor>)"

fun trunc :: "nv \<Rightarrow> int" where
  "trunc (Fin a) = trunc_rat a"
| "trunc _ = 0"   \<comment> \<open>never cast by the code\<close>

definition cast_ulong :: "nv \<Rightarrow> u32" where
  "cast_ulong f =
     (if nv_less f 0 then (if nv_less f (- (2 ^ 31)) then of_int (- (2 ^ 31)) else of_int (trunc f))
      else if nv_less f (2 ^ 32) then of_int (trunc f)
      else if nv_pos f then - 1 else 0)"

definition cast_i32 :: "nv \<Rightarrow> u32" where
  "cast_i32 f =
     (if nv_less f (2 ^ 31) then (if nv_less f (- (2 ^ 31)) then of_int (- (2 ^ 31)) else of_int (trunc f))
      else if nv_less f (2 ^ 32) then of_int (trunc f)
      else if nv_pos f then - 1 else 0)"

definition cast_iv :: "nv \<Rightarrow> iv" where
  "cast_iv f =
     (if nv_less f (2 ^ 63) then (if nv_less f (- (2 ^ 63)) then of_int (- (2 ^ 63)) else of_int (trunc f))
      else if nv_less f (2 ^ 64) then of_int (trunc f)
      else if nv_pos f then - 1 else 0)"

definition cast_uv :: "nv \<Rightarrow> uv" where
  "cast_uv f =
     (if nv_less f 0 then (if nv_less f (- (2 ^ 63)) then of_int (- (2 ^ 63)) else of_int (trunc f))
      else if nv_less f (2 ^ 64) then of_int (trunc f)
      else if nv_pos f then - 1 else 0)"

section \<open>grok\_number on the decimal grammar\<close>

lemma skip_while_takeWhile:
  "s \<le> length pv \<Longrightarrow> skip_while p pv (length pv) s = s + length (takeWhile p (drop s pv))"
proof (induction p pv "length pv" s rule: skip_while.induct)
  case (1 p pv s)
  show ?case
  proof (cases "s < length pv \<and> p (rd pv s)")
    case True
    then have "drop s pv = pv ! s # drop (s + 1) pv" by (simp add: Cons_nth_drop_Suc)
    with 1 True show ?thesis by (subst skip_while.simps) (simp add: rd_def)
  next
    case False
    then have "takeWhile p (drop s pv) = []"
      by (cases "s < length pv") (auto simp: Cons_nth_drop_Suc[symmetric] rd_def)
    with False show ?thesis by (auto simp: skip_while.simps[of p pv "length pv" s])
  qed
qed

text \<open>The rest of the buffer from \<open>s\<close> on begins with a run of digits.\<close>

definition digit_run :: "u8 list \<Rightarrow> nat \<Rightarrow> u8 list \<Rightarrow> bool" where
  "digit_run pv s ds \<longleftrightarrow> s \<le> length pv \<and> takeWhile isDIGIT (drop s pv) = ds"

lemma digit_run_Nil:
  "digit_run pv s [] \<longleftrightarrow> s \<le> length pv \<and> (s < length pv \<longrightarrow> \<not> isDIGIT (rd pv s))"
  by (cases "s < length pv") (auto simp: digit_run_def rd_def Cons_nth_drop_Suc[symmetric])

lemma digit_run_Cons:
  "digit_run pv s (d # ds) \<longleftrightarrow> s < length pv \<and> isDIGIT d \<and> rd pv s = d \<and> digit_run pv (Suc s) ds"
  by (cases "s < length pv") (auto simp: digit_run_def rd_def Cons_nth_drop_Suc[symmetric])

lemma digit_run_skip: "digit_run pv s ds \<Longrightarrow> skip_while isDIGIT pv (length pv) s = s + length ds"
  by (simp add: digit_run_def skip_while_takeWhile)

text \<open>The value that digits give when they follow a number \<open>v\<close>.\<close>

abbreviation dec_val :: "u8 list \<Rightarrow> nat \<Rightarrow> nat" where
  "dec_val ds v \<equiv> foldl (\<lambda>v d. v * 10 + unat (digit d)) v ds"

lemma dec_val_mono: "v \<le> dec_val ds v"
proof (induction ds arbitrary: v)
  case (Cons d ds)
  from Cons[of "v * 10 + unat (digit d)"] show ?case by simp
qed simp

lemma digit_le: "isDIGIT d \<Longrightarrow> unat (digit d) \<le> 9"
proof -
  assume "isDIGIT d"
  then have "48 \<le> d" "d \<le> 57" by (simp_all add: isDIGIT_def)
  then have "48 \<le> unat d" "unat d \<le> 57" by (simp_all add: word_le_nat_alt)
  then show ?thesis by (simp add: digit_def unsigned_ucast_eq unat_sub_if' take_bit_nat_eq_self[OF order_le_less_trans[of _ 9]])
qed

lemma dec_val_bound:
  "(\<And>d. d \<in> set ds \<Longrightarrow> isDIGIT d) \<Longrightarrow> v < 10 ^ k \<Longrightarrow> dec_val ds v < 10 ^ (k + length ds)"
proof (induction ds arbitrary: v k)
  case (Cons d ds)
  have "v * 10 + unat (digit d) < 10 ^ Suc k"
    using Cons.prems digit_le[of d] by simp
  from Cons.IH[OF _ this] Cons.prems show ?case by simp
qed simp

lemma unat_step:
  fixes v d :: uv
  shows "unat v * 10 + unat d < 2 ^ 64 \<Longrightarrow> unat (v * 10 + d) = unat v * 10 + unat d"
  by (simp add: unat_word_ariths unat_of_nat)

definition loop_ok :: "nat \<Rightarrow> nat \<Rightarrow> nat \<times> uv \<times> bool \<Rightarrow> bool" where
  "loop_ok V s r \<longleftrightarrow> (case r of (s', value, over) \<Rightarrow>
     s' = s \<and> over = (2 ^ 64 \<le> V) \<and> (V < 2 ^ 64 \<longrightarrow> unat value = V))"

lemma gn_loop_run:
  "digit_run pv s ds \<Longrightarrow> loop_ok (dec_val ds (unat val)) (s + length ds) (gn_loop pv (length pv) s val)"
proof (induction ds arbitrary: s val)
  case Nil
  then have "gn_loop pv (length pv) s val = (s, val, False)"
    by (subst gn_loop.simps) (auto simp: digit_run_Nil)
  then show ?case by (simp add: loop_ok_def)
next
  case (Cons d ds)
  then have run: "s < length pv" "isDIGIT d" "rd pv s = d" "digit_run pv (Suc s) ds"
    by (simp_all add: digit_run_Cons)
  let ?t = "val < 1844674407370955161 \<or> val = 1844674407370955161 \<and> digit d \<le> 5"
  have t: "?t \<longleftrightarrow> unat val * 10 + unat (digit d) < 2 ^ 64"
    using digit_le[OF run(2)]
    by (simp add: word_less_nat_alt word_le_nat_alt word_unat_eq_iff) linarith
  show ?case
  proof (cases ?t)
    case True
    let ?v = "val * 10 + digit d"
    have v: "unat ?v = unat val * 10 + unat (digit d)" using True t by (simp only: unat_step)
    have "gn_loop pv (length pv) s val =
        (if s + 1 < length pv then gn_loop pv (length pv) (s + 1) ?v else (s + 1, ?v, False))"
      using True run by (subst gn_loop.simps) simp
    also have "\<dots> = gn_loop pv (length pv) (s + 1) ?v"
      using run by (auto simp: gn_loop.simps[of pv "length pv" "Suc s"])
    finally show ?thesis using Cons.IH[OF run(4), of ?v] v by simp
  next
    case False
    have "gn_loop pv (length pv) s val = (skip_while isDIGIT pv (length pv) (s + 1), val, True)"
      using False run by (auto simp: gn_loop.simps[of pv _ s])
    moreover have "2 ^ 64 \<le> dec_val (d # ds) (unat val)"
      using False t dec_val_mono[of "unat val * 10 + unat (digit d)" ds] by simp
    ultimately show ?thesis using run by (simp add: loop_ok_def digit_run_skip)
  qed
qed

text \<open>The nested tests read up to eight digits; with the first one that is below \<open>10 ^ 9\<close>.\<close>

lemma gn_digits_run:
  "digit_run pv (Suc s) ds \<Longrightarrow> unat val < 10 ^ (9 - n) \<Longrightarrow> n \<le> 8 \<Longrightarrow>
   loop_ok (dec_val ds (unat val)) (Suc s + length ds) (gn_digits n pv (length pv) s val)"
proof (induction n arbitrary: s val ds)
  case 0
  then have "gn_digits 0 pv (length pv) s val = gn_loop pv (length pv) (Suc s) val"
    by (auto simp: gn_loop.simps[of pv "length pv" "Suc s"])
  with gn_loop_run[OF 0(1), of val] show ?case by simp
next
  case (Suc n)
  show ?case
  proof (cases ds)
    case Nil
    with Suc.prems have "gn_digits (Suc n) pv (length pv) s val = (Suc s, val, False)"
      by (auto simp: digit_run_Nil)
    then show ?thesis by (simp add: Nil loop_ok_def)
  next
    case (Cons d ds')
    with Suc.prems have run: "Suc s < length pv" "isDIGIT d" "rd pv (Suc s) = d" "digit_run pv (Suc (Suc s)) ds'"
      by (simp_all add: digit_run_Cons)
    have n: "9 - n = Suc (9 - Suc n)" using Suc.prems by simp
    have b: "unat val * 10 + unat (digit d) < 10 ^ (9 - n)"
      using Suc.prems(2) digit_le[OF run(2)] unfolding n by simp
    also have "(10::nat) ^ (9 - n) \<le> 10 ^ 9" by (rule power_increasing) simp_all
    finally have v: "unat (val * 10 + digit d) = unat val * 10 + unat (digit d)"
      by (intro unat_step) simp
    have "gn_digits (Suc n) pv (length pv) s val =
        gn_digits n pv (length pv) (Suc s) (val * 10 + digit d)"
      using run by simp
    with Suc.IH[OF run(4), of "val * 10 + digit d"] b v Suc.prems(3) Cons show ?thesis by simp
  qed
qed

subsection \<open>The decimal grammar\<close>

lemma rest_at_skip:
  "rest_at pv s xs \<Longrightarrow> skip_while p pv (length pv) s = s + length (takeWhile p xs)"
  by (auto simp: rest_at_def skip_while_takeWhile)

lemma at_digit_run: "rest_at pv s xs \<Longrightarrow> digit_run pv s (takeWhile isDIGIT xs)"
  by (auto simp: rest_at_def digit_run_def)

definition dec_sign :: "u8 list \<Rightarrow> bool" where
  "dec_sign sg \<longleftrightarrow> sg = [] \<or> sg = [ch CHR ''-''] \<or> sg = [ch CHR ''+'']"

definition dec_digits :: "u8 list \<Rightarrow> bool" where
  "dec_digits ds \<longleftrightarrow> list_all isDIGIT ds"

definition dec_fraction :: "u8 list \<Rightarrow> bool" where
  "dec_fraction fr \<longleftrightarrow> fr = [] \<or> hd fr = ch CHR ''.'' \<and> dec_digits (tl fr)"

definition dec_exponent :: "u8 list \<Rightarrow> bool" where
  "dec_exponent ex \<longleftrightarrow>
     ex = [] \<or> (\<exists>e sg ds. ex = e # sg @ ds \<and> (e = ch CHR ''e'' \<or> e = ch CHR ''E'') \<and>
       dec_sign sg \<and> ds \<noteq> [] \<and> dec_digits ds)"

text \<open>What may follow a digit run without continuing it.\<close>

definition ends_run :: "u8 list \<Rightarrow> bool" where
  "ends_run xs \<longleftrightarrow> (case xs of [] \<Rightarrow> True | x # _ \<Rightarrow> \<not> isDIGIT x)"

lemma takeWhile_run: "dec_digits ds \<Longrightarrow> ends_run xs \<Longrightarrow> takeWhile isDIGIT (ds @ xs) = ds"
  by (induction ds) (auto simp: dec_digits_def ends_run_def split: list.splits)

lemma isDIGIT_bytes [simp]:
  "\<not> isDIGIT 0" "\<not> isDIGIT 46" "\<not> isDIGIT 101" "\<not> isDIGIT 69" "\<not> isDIGIT 45" "\<not> isDIGIT 43"
  by (simp_all add: isDIGIT_def)

lemma isSPACE_bytes [simp]:
  "\<not> isSPACE 0" "\<not> isSPACE 46" "\<not> isSPACE 101" "\<not> isSPACE 69" "\<not> isSPACE 45" "\<not> isSPACE 43"
  by (simp_all add: isSPACE_def)

lemma isSPACE_not_isDIGIT: "isDIGIT c \<Longrightarrow> \<not> isSPACE c"
  by (auto simp: isSPACE_def)
    (auto simp: isDIGIT_def)

lemma gn_mantissa_digits:
  assumes at: "rest_at pv s (ds @ fr @ xs)"
    and ds: "ds \<noteq> []" "dec_digits ds" and fr: "dec_fraction fr"
    and xs: "ends_run xs" "xs = [] \<or> hd xs \<noteq> ch CHR ''.''"
  defines "V \<equiv> dec_val ds 0"
  shows "\<exists>st. gn_mantissa pv (length pv) s nt = Some st \<and> gn_s st = s + length (ds @ fr) \<and>
    gn_numtype st = (if fr = [] then nt OR (if V < 2 ^ 64 then IS_NUMBER_IN_UV else IS_NUMBER_GREATER_THAN_UV_MAX)
      else (nt OR (if V < 2 ^ 64 then IS_NUMBER_IN_UV else IS_NUMBER_GREATER_THAN_UV_MAX)) OR IS_NUMBER_NOT_INT) \<and>
    gn_valuep st = (if V < 2 ^ 64 then Some (of_nat V) else None) \<and>
    \<not> gn_sawinf st \<and> \<not> gn_sawnan st"
proof -
  obtain d ds' where d: "ds = d # ds'" "isDIGIT d" "dec_digits ds'"
    using ds by (cases ds) (auto simp: dec_digits_def)
  have rest: "ends_run (fr @ xs)"
    using fr xs(1) by (cases fr) (auto simp: dec_fraction_def ends_run_def)
  have at1: "rest_at pv (Suc s) (ds' @ fr @ xs)" and rd: "rd pv s = d"
    using at d(1) by (simp_all add: rest_at_Cons)
  have "digit_run pv (Suc s) ds'"
    using at_digit_run[OF at1] takeWhile_run[OF d(3) rest] by simp
  from gn_digits_run[OF this, of "digit d" 8] digit_le[OF d(2)]
  have "loop_ok V (s + length ds) (gn_digits 8 pv (length pv) s (digit d))"
    by (simp add: V_def d(1))
  then obtain val over where g: "gn_digits 8 pv (length pv) s (digit d) = (s + length ds, val, over)"
    "over \<longleftrightarrow> \<not> V < 2 ^ 64" "V < 2 ^ 64 \<Longrightarrow> unat val = V"
    by (cases "gn_digits 8 pv (length pv) s (digit d)") (simp add: loop_ok_def not_less)
  have val: "V < 2 ^ 64 \<Longrightarrow> val = of_nat V" using g(3) by auto
  have at2: "rest_at pv (s + length ds) (fr @ xs)"
    using rest_at_append[of pv s ds] at by simp
  show ?thesis
  proof (cases fr)
    case Nil
    have "rd pv (s + length ds) \<noteq> ch CHR ''.'' \<or> \<not> s + length ds < length pv"
      using rest_at_rd[OF at2] rest_at_less[OF at2] xs(2) Nil by (auto split: list.splits)
    then have "grok_numeric_radix pv (length pv) (s + length ds) = (s + length ds, False)"
      by (auto simp: grok_numeric_radix_def)
    with g(1,2) val rd d show ?thesis by (simp add: gn_mantissa_def Nil)
  next
    case (Cons p fs)
    then have p: "p = ch CHR ''.''" "dec_digits fs" using fr by (simp_all add: dec_fraction_def)
    have at3: "rest_at pv (Suc (s + length ds)) (fs @ xs)" and
      "grok_numeric_radix pv (length pv) (s + length ds) = (Suc (s + length ds), True)"
      using at2 by (simp_all add: Cons p rest_at_Cons grok_numeric_radix_def)
    with g(1,2) val rd d rest_at_skip[OF at3, of isDIGIT] takeWhile_run[OF p(2) xs(1)] show ?thesis
      by (simp add: gn_mantissa_def Cons)
  qed
qed

text \<open>Without digits before the radix the value is 0, which fits.\<close>

lemma gn_mantissa_at:
  assumes at: "rest_at pv s (ds @ fr @ xs)"
    and ds: "ds \<noteq> [] \<or> tl fr \<noteq> []" "dec_digits ds" and fr: "dec_fraction fr"
    and xs: "ends_run xs" "xs = [] \<or> hd xs \<noteq> ch CHR ''.''"
  defines "V \<equiv> dec_val ds 0"
  shows "\<exists>st. gn_mantissa pv (length pv) s nt = Some st \<and> gn_s st = s + length (ds @ fr) \<and>
    gn_numtype st = (if fr = [] then nt OR (if V < 2 ^ 64 then IS_NUMBER_IN_UV else IS_NUMBER_GREATER_THAN_UV_MAX)
      else (nt OR (if V < 2 ^ 64 then IS_NUMBER_IN_UV else IS_NUMBER_GREATER_THAN_UV_MAX)) OR IS_NUMBER_NOT_INT) \<and>
    gn_valuep st = (if V < 2 ^ 64 then Some (of_nat V) else None) \<and>
    \<not> gn_sawinf st \<and> \<not> gn_sawnan st"
proof (cases "ds = []")
  case False
  from gn_mantissa_digits[OF at False ds(2) fr xs, of nt] show ?thesis unfolding V_def .
next
  case True
  with ds(1) fr obtain f fs where f: "fr = ch CHR ''.'' # f # fs" "isDIGIT f" "dec_digits fs"
    by (cases fr; cases "tl fr") (auto simp: dec_fraction_def dec_digits_def)
  have at': "rest_at pv s (ch CHR ''.'' # f # fs @ xs)" using at True f(1) by simp
  then have at1: "rest_at pv (Suc s) (f # fs @ xs)" "rd pv s = ch CHR ''.''" "s < length pv"
    by (simp_all add: rest_at_Cons)
  then have at2: "rest_at pv (Suc (Suc s)) (fs @ xs)" "rd pv (Suc s) = f" "Suc s < length pv"
    by (simp_all add: rest_at_Cons)
  have "\<not> isDIGIT (ch CHR ''.'')" by (simp add: isDIGIT_def)
  then show ?thesis
    using at1 at2 f rest_at_skip[OF at2(1), of isDIGIT] takeWhile_run[OF f(3) xs(1)] True
    by (simp add: gn_mantissa_def grok_numeric_radix_def V_def or.assoc or.commute[of IS_NUMBER_NOT_INT])
qed

lemma skip_end:
  "rest_at pv s xs \<Longrightarrow> list_all isSPACE xs \<Longrightarrow> skip_while isSPACE pv (length pv) s \<ge> length pv"
  by (auto simp: rest_at_skip list_all_iff) (auto simp: rest_at_def takeWhile_eq_all_conv[THEN iffD2])

text \<open>The flags that \<open>gn_exponent\<close> leaves, and where it leaves the pointer.\<close>

lemma gn_exponent_at:
  assumes at: "rest_at pv (gn_s st) (ex @ xs)" and ex: "dec_exponent ex"
    and xs: "ends_run xs" "ex = [] \<Longrightarrow> xs = [] \<or> hd xs \<noteq> ch CHR ''e'' \<and> hd xs \<noteq> ch CHR ''E''"
    and st: "\<not> gn_sawinf st" "\<not> gn_sawnan st"
  shows "gn_exponent pv (length pv) st = Some (gn_s st + length ex,
    if ex = [] then gn_numtype st else (gn_numtype st AND IS_NUMBER_NEG) OR IS_NUMBER_NOT_INT)"
proof (cases "ex = []")
  case True
  then show ?thesis
    using st xs(2) rest_at_rd[OF at] rest_at_less[OF at]
    by (auto simp: gn_exponent_def Let_def split: list.splits)
next
  case False
  with ex obtain e sg ds where e: "ex = e # sg @ ds" "e = ch CHR ''e'' \<or> e = ch CHR ''E''"
    "dec_sign sg" "ds \<noteq> []" "dec_digits ds"
    by (auto simp: dec_exponent_def)
  from at e have at1: "rest_at pv (Suc (gn_s st)) (sg @ ds @ xs)" and
    rd: "rd pv (gn_s st) = e" "gn_s st < length pv"
    by (simp_all add: rest_at_Cons)
  obtain d ds' where d: "ds = d # ds'" "isDIGIT d" "dec_digits ds'"
    using e by (cases ds) (auto simp: dec_digits_def)
  have at2: "rest_at pv (Suc (gn_s st) + length sg) (d # ds' @ xs)"
    using rest_at_append[OF at1] by (simp add: d)
  then have rd2: "rd pv (Suc (gn_s st) + length sg) = d" "Suc (gn_s st) + length sg < length pv"
    and at3: "rest_at pv (Suc (Suc (gn_s st) + length sg)) (ds' @ xs)"
    by (simp_all only: rest_at_Cons)
  have "(if Suc (gn_s st) < length pv \<and> (rd pv (Suc (gn_s st)) = ch CHR ''-'' \<or> rd pv (Suc (gn_s st)) = ch CHR ''+'')
      then Suc (gn_s st) + 1 else Suc (gn_s st)) = Suc (gn_s st) + length sg"
    using e(3) at1 rd2 d(2) by (auto simp: dec_sign_def rest_at_Cons)
  then show ?thesis
    using st rd rd2 e(2) d rest_at_skip[OF at3, of isDIGIT] takeWhile_run[OF d(3) xs(1)]
    by (simp add: gn_exponent_def Let_def e(1) split del: if_split)
qed

lemma ends_run_spaces: "list_all isSPACE xs \<Longrightarrow> ends_run xs"
  by (cases xs) (auto simp: ends_run_def dest: isSPACE_not_isDIGIT)

lemma ends_run_exponent: "dec_exponent ex \<Longrightarrow> ends_run xs \<Longrightarrow> ends_run (ex @ xs)"
  by (auto simp: ends_run_def dec_exponent_def)

lemma number_start:
  assumes "ds \<noteq> [] \<or> tl fr \<noteq> []" "dec_digits ds" "dec_fraction fr"
  shows "\<exists>d m. ds @ fr @ xs = d # m \<and> (isDIGIT d \<or> d = ch CHR ''.'')"
  using assms by (cases ds; cases fr) (auto simp: dec_digits_def dec_fraction_def)

text \<open>
  C22: \<open>grok_number\<close> on any decimal number: white space, a sign, digits, a fraction, an exponent,
  white space, where only digits before the radix or, if there are none, behind it must be there. The
  value of the digits before the radix (0 if there are none) is returned exactly if it
  fits a \<open>UV\<close>; the flags say whether it does, whether there is a fraction and whether the sign is
  minus; an exponent leaves the sign and \<open>IS_NUMBER_NOT_INT\<close> as the only flags.
\<close>

theorem grok_number_decimal:
  assumes ws: "list_all isSPACE ws" "list_all isSPACE ws'" and sg: "dec_sign sg"
    and ds: "ds \<noteq> [] \<or> tl fr \<noteq> []" "dec_digits ds" and fr: "dec_fraction fr" and ex: "dec_exponent ex"
  defines "pv \<equiv> ws @ sg @ ds @ fr @ ex @ ws'"
    and "V \<equiv> digits_val 10 (map (\<lambda>d. unat (digit d)) ds)"
  shows "grok_number pv (length pv) =
    ((if sg = [ch CHR ''-''] then IS_NUMBER_NEG else 0) OR
     (if ex \<noteq> [] then IS_NUMBER_NOT_INT
      else (if V < 2 ^ 64 then IS_NUMBER_IN_UV else IS_NUMBER_GREATER_THAN_UV_MAX) OR
           (if fr = [] then 0 else IS_NUMBER_NOT_INT)),
     if V < 2 ^ 64 then Some (of_nat V) else None)"
proof -
  have V: "V = dec_val ds 0" by (simp add: V_def digits_val_def foldl_map)
  define nt :: u32 where "nt = (if sg = [ch CHR ''-''] then IS_NUMBER_NEG else 0)"
  obtain d m where d: "ds @ fr @ ex @ ws' = d # m" "isDIGIT d \<or> d = ch CHR ''.''"
    using number_start[OF ds fr] by blast
  have dn: "\<not> isSPACE d" "d \<noteq> ch CHR ''-''" "d \<noteq> ch CHR ''+''"
    using d(2) isSPACE_not_isDIGIT[of d] by (auto simp: isSPACE_def isDIGIT_def)
  have at0: "rest_at pv (length ws) (sg @ ds @ fr @ ex @ ws')"
    using rest_at_append[of pv 0 ws] by (simp add: pv_def)
  have "takeWhile isSPACE (ws @ sg @ d # m) = ws"
    using ws(1) sg dn(1)
    by (simp add: list_all_iff takeWhile_append2 takeWhile_eq_Nil_iff) (auto simp: dec_sign_def isSPACE_def)
  then have "takeWhile isSPACE pv = ws" unfolding pv_def d(1) .
  then have skip: "skip_while isSPACE pv (length pv) 0 = length ws" using rest_at_skip[of pv 0 pv] by simp
  have sign: "(if rd pv (length ws) = ch CHR ''-'' then (length ws + 1, IS_NUMBER_NEG)
      else if rd pv (length ws) = ch CHR ''+'' then (length ws + 1, 0) else (length ws, 0)) =
      (length ws + length sg, nt)"
    using sg at0[unfolded d(1)] dn by (auto simp: dec_sign_def nt_def rest_at_Cons)
  have at1: "rest_at pv (length ws + length sg) (ds @ fr @ ex @ ws')"
    using rest_at_append[OF at0] .
  have xs: "ends_run (ex @ ws')" "ex @ ws' = [] \<or> hd (ex @ ws') \<noteq> ch CHR ''.''"
    "ws' = [] \<or> hd ws' \<noteq> ch CHR ''e'' \<and> hd ws' \<noteq> ch CHR ''E''"
    using ends_run_exponent[OF ex ends_run_spaces[OF ws(2)]] ex ws(2)
    by (cases ws'; auto simp: dec_exponent_def)+
  obtain st where st: "gn_mantissa pv (length pv) (length ws + length sg) nt = Some st"
    "gn_s st = length ws + length sg + length (ds @ fr)"
    "gn_numtype st = (if fr = [] then nt OR (if V < 2 ^ 64 then IS_NUMBER_IN_UV else IS_NUMBER_GREATER_THAN_UV_MAX)
      else (nt OR (if V < 2 ^ 64 then IS_NUMBER_IN_UV else IS_NUMBER_GREATER_THAN_UV_MAX)) OR IS_NUMBER_NOT_INT)"
    "gn_valuep st = (if V < 2 ^ 64 then Some (of_nat V) else None)" "\<not> gn_sawinf st" "\<not> gn_sawnan st"
    using gn_mantissa_at[OF at1 ds fr xs(1,2), of nt] unfolding V by blast
  have at2: "rest_at pv (gn_s st) (ex @ ws')"
    using rest_at_append[of pv _ "ds @ fr" "ex @ ws'"] at1 st(2) by simp
  note ex' = gn_exponent_at[OF at2 ex ends_run_spaces[OF ws(2)] _ st(5,6)]
  have nt': "gn_numtype st AND IS_NUMBER_NEG = nt"
    by (simp add: st(3) nt_def number_flags)
  show ?thesis
    using skip sign st ex' nt' xs(3) skip_end[OF rest_at_append[OF at2] ws(2)] d(1) rest_at_less[OF at0] rest_at_less[OF at1]
    by (simp add: grok_number_def or.assoc) (auto simp: nt_def)
qed

theorem grok_number_decimal_witness:
  "grok_number (map of_char '' -18446744073709551615.5 '') 25 =
     (IS_NUMBER_NEG OR IS_NUMBER_IN_UV OR IS_NUMBER_NOT_INT, Some (- 1)) \<and>
   grok_number (map of_char ''+.5'') 3 = (IS_NUMBER_IN_UV OR IS_NUMBER_NOT_INT, Some 0)"
proof -
  have "grok_number ([32] @ [ch CHR ''-''] @ map of_char ''18446744073709551615'' @
      map of_char ''.5'' @ [] @ [32])
      (length ([32] @ [ch CHR ''-''] @ map of_char ''18446744073709551615'' @
      map of_char ''.5'' @ [] @ [32])) =
     (IS_NUMBER_NEG OR IS_NUMBER_IN_UV OR IS_NUMBER_NOT_INT, Some (- 1))"
    by (subst grok_number_decimal)
      (simp_all add: isSPACE_def dec_sign_def dec_digits_def isDIGIT_def dec_fraction_def
        dec_exponent_def digit_def digits_val_def or.assoc)
  moreover have "grok_number ([] @ [ch CHR ''+''] @ [] @ map of_char ''.5'' @ [] @ [])
      (length ([] @ [ch CHR ''+''] @ [] @ map of_char ''.5'' @ [] @ [])) =
     (IS_NUMBER_IN_UV OR IS_NUMBER_NOT_INT, Some 0)"
    by (subst grok_number_decimal)
      (simp_all add: isSPACE_def dec_sign_def dec_digits_def isDIGIT_def dec_fraction_def
        dec_exponent_def digit_def digits_val_def)
  ultimately show ?thesis by (simp add: numeral_eq_Suc)
qed

section \<open>Properties of the casts\<close>

lemma sint_of_int_in: "- (2 ^ 63) \<le> i \<Longrightarrow> i < 2 ^ 63 \<Longrightarrow> sint (of_int i :: 64 word) = i"
  by (simp add: signed_of_int signed_take_bit_int_eq_self)

lemma uint_of_int_in: "0 \<le> i \<Longrightarrow> i < 2 ^ 64 \<Longrightarrow> uint (of_int i :: 64 word) = i"
  by (simp add: uint_word_of_int_eq take_bit_int_eq_self)

lemma sint_of_int_in32: "- (2 ^ 31) \<le> i \<Longrightarrow> i < 2 ^ 31 \<Longrightarrow> sint (of_int i :: 32 word) = i"
  by (simp add: signed_of_int signed_take_bit_int_eq_self)

lemma uint_of_int_in32: "0 \<le> i \<Longrightarrow> i < 2 ^ 32 \<Longrightarrow> uint (of_int i :: 32 word) = i"
  by (simp add: uint_word_of_int_eq take_bit_int_eq_self)

lemma cast_iv_eq_cast_uv: "cast_iv f = cast_uv f"
  by (cases f) (auto simp: cast_iv_def cast_uv_def)

lemma cast_i32_eq_cast_ulong: "cast_i32 f = cast_ulong f"
  by (cases f) (auto simp: cast_i32_def cast_ulong_def)

lemma cast_uv_neg: "a < 0 \<Longrightarrow> sint (cast_uv (Fin a)) = max (- (2 ^ 63)) \<lceil>a\<rceil>"
proof (cases "a < - (2 ^ 63)")
  case True
  then have m: "max (- (2 ^ 63)) \<lceil>a\<rceil> = - (2 ^ 63)" by (intro max_absorb1) (simp add: ceiling_le_iff)
  show ?thesis unfolding m using True by (simp add: cast_uv_def)
next
  case False
  assume "a < 0"
  with False have "- (2 ^ 63) \<le> \<lceil>a\<rceil>" "\<lceil>a\<rceil> < 2 ^ 63"
    by (simp_all add: le_ceiling_iff ceiling_less_iff)
  with False \<open>a < 0\<close> show ?thesis by (simp add: cast_uv_def trunc_rat_def sint_of_int_in max_def)
qed

lemma cast_ulong_neg: "a < 0 \<Longrightarrow> sint (cast_ulong (Fin a)) = max (- (2 ^ 31)) \<lceil>a\<rceil>"
proof (cases "a < - (2 ^ 31)")
  case True
  then have m: "max (- (2 ^ 31)) \<lceil>a\<rceil> = - (2 ^ 31)" by (intro max_absorb1) (simp add: ceiling_le_iff)
  show ?thesis unfolding m using True by (simp add: cast_ulong_def)
next
  case False
  assume "a < 0"
  with False have "- (2 ^ 31) \<le> \<lceil>a\<rceil>" "\<lceil>a\<rceil> < 2 ^ 31"
    by (simp_all add: le_ceiling_iff ceiling_less_iff)
  with False \<open>a < 0\<close> show ?thesis by (simp add: cast_ulong_def trunc_rat_def sint_of_int_in32 max_def)
qed

lemma cast_uv_nonneg: "\<not> a < 0 \<Longrightarrow> uint (cast_uv (Fin a)) = min (2 ^ 64 - 1) \<lfloor>a\<rfloor>"
proof (cases "a < 2 ^ 64")
  case True
  assume "\<not> a < 0"
  with True have "0 \<le> \<lfloor>a\<rfloor>" "\<lfloor>a\<rfloor> < 2 ^ 64" by (simp_all add: floor_less_iff)
  then have m: "min (2 ^ 64 - 1) \<lfloor>a\<rfloor> = \<lfloor>a\<rfloor>" by (intro min_absorb2) linarith
  show ?thesis unfolding m using True \<open>\<not> a < 0\<close> \<open>\<lfloor>a\<rfloor> < 2 ^ 64\<close>
    by (simp add: cast_uv_def trunc_rat_def uint_of_int_in)
next
  case False
  then have "2 ^ 64 \<le> \<lfloor>a\<rfloor>" "0 < a" by (simp_all add: le_floor_iff)
  with False show ?thesis
    by (simp add: cast_uv_def min_def unsigned_minus_1_eq_mask mask_eq_exp_minus_1)
qed

lemma cast_ulong_nonneg: "\<not> a < 0 \<Longrightarrow> uint (cast_ulong (Fin a)) = min (2 ^ 32 - 1) \<lfloor>a\<rfloor>"
proof (cases "a < 2 ^ 32")
  case True
  assume "\<not> a < 0"
  with True have "0 \<le> \<lfloor>a\<rfloor>" "\<lfloor>a\<rfloor> < 2 ^ 32" by (simp_all add: floor_less_iff)
  then have m: "min (2 ^ 32 - 1) \<lfloor>a\<rfloor> = \<lfloor>a\<rfloor>" by (intro min_absorb2) linarith
  show ?thesis unfolding m using True \<open>\<not> a < 0\<close> \<open>\<lfloor>a\<rfloor> < 2 ^ 32\<close>
    by (simp add: cast_ulong_def trunc_rat_def uint_of_int_in32)
next
  case False
  then have "2 ^ 32 \<le> \<lfloor>a\<rfloor>" "0 < a" by (simp_all add: le_floor_iff)
  with False show ?thesis
    by (simp add: cast_ulong_def min_def unsigned_minus_1_eq_mask mask_eq_exp_minus_1)
qed

text \<open>
  C39: the casts saturate: the signed and the unsigned cast of a width give the same bits; a
  negative value is rounded to zero and clamped to the least signed value, any other value is
  rounded to zero and clamped to the greatest unsigned value, and NaN gives 0.
\<close>

theorem casts_saturate:
  "cast_iv f = cast_uv f \<and> cast_i32 f = cast_ulong f \<and>
   (case f of
      NaN \<Rightarrow> cast_uv f = 0 \<and> cast_ulong f = 0
    | PInf \<Rightarrow> cast_uv f = - 1 \<and> cast_ulong f = - 1
    | NInf \<Rightarrow> sint (cast_iv f) = - (2 ^ 63) \<and> sint (cast_i32 f) = - (2 ^ 31)
    | Fin a \<Rightarrow> if a < 0
        then sint (cast_iv f) = max (- (2 ^ 63)) \<lceil>a\<rceil> \<and> sint (cast_i32 f) = max (- (2 ^ 31)) \<lceil>a\<rceil>
        else uint (cast_uv f) = min (2 ^ 64 - 1) \<lfloor>a\<rfloor> \<and> uint (cast_ulong f) = min (2 ^ 32 - 1) \<lfloor>a\<rfloor>)"
proof (cases f)
  case (Fin a)
  then show ?thesis
    using cast_uv_neg[of a] cast_ulong_neg[of a] cast_uv_nonneg[of a] cast_ulong_nonneg[of a]
    by (simp add: cast_iv_eq_cast_uv cast_i32_eq_cast_ulong)
qed (simp_all add: cast_iv_eq_cast_uv cast_i32_eq_cast_ulong, simp_all add: cast_uv_def cast_ulong_def)

end
