(* ===== verification/Utf8_Codec.thy ===== *)
theory Utf8_Codec
  imports Kurila_Prelude
begin

text \<open>
  The UTF-8 routines (\<open>utf8.c\<close>, \<open>utf8.h\<close>): encoding and decoding of one character in Perl's
  extended UTF-8 (up to 64 bits, 13 bytes), recognition of characters and strings, counting and
  hopping, and the conversions between bytes, UTF-8 and UTF-16. Pointers into a buffer are
  indices; \<open>w\<close> and \<open>wd\<close> are the answers of \<open>ckWARN(WARN_UTF8)\<close> and \<open>ckWARN_d(WARN_UTF8)\<close>.
\<close>

section \<open>Bytes\<close>

definition PL_utf8skip :: "nat list" where
  "PL_utf8skip = replicate 128 1 @ replicate 64 1 @ replicate 32 2 @
     replicate 16 3 @ replicate 8 4 @ replicate 4 5 @ replicate 2 6 @ [7, 13]"

definition UTF8SKIP :: "u8 \<Rightarrow> nat" where
  "UTF8SKIP c = PL_utf8skip ! unat c"

definition UNI_IS_INVARIANT :: "uv \<Rightarrow> bool" where
  "UNI_IS_INVARIANT c \<longleftrightarrow> c < 0x80"

definition UTF8_IS_INVARIANT :: "u8 \<Rightarrow> bool" where
  "UTF8_IS_INVARIANT c \<longleftrightarrow> c < 0x80"

definition UTF8_IS_START :: "u8 \<Rightarrow> bool" where
  "UTF8_IS_START c \<longleftrightarrow> c \<ge> 0xc0 \<and> c \<le> 0xfd"

definition UTF8_IS_CONTINUATION :: "u8 \<Rightarrow> bool" where
  "UTF8_IS_CONTINUATION c \<longleftrightarrow> c \<ge> 0x80 \<and> c \<le> 0xbf"

definition UTF8_IS_DOWNGRADEABLE_START :: "u8 \<Rightarrow> bool" where
  "UTF8_IS_DOWNGRADEABLE_START c \<longleftrightarrow> c AND 0xfc = 0xc0"

definition UTF_START_MARK :: "nat \<Rightarrow> u32" where
  "UTF_START_MARK len = (if len > 7 then 0xFF else push_bit (7 - len) 0xFE)"

definition UTF_START_MASK :: "nat \<Rightarrow> u32" where
  "UTF_START_MASK len = (if len \<ge> 7 then 0x00 else drop_bit (len - 2) 0x1F)"

definition UTF8_ACCUMULATE :: "'a::len word \<Rightarrow> u8 \<Rightarrow> 'a word" where
  "UTF8_ACCUMULATE old new = push_bit 6 old OR (ucast new AND 0x3f)"

definition UTF8_EIGHT_BIT_HI :: "u8 \<Rightarrow> u8" where
  "UTF8_EIGHT_BIT_HI c = ucast (ucast (drop_bit 6 c) OR UTF_START_MARK 2)"

definition UTF8_EIGHT_BIT_LO :: "u8 \<Rightarrow> u8" where
  "UTF8_EIGHT_BIT_LO c = (c AND 0x3f) OR 0x80"

definition UNISKIP :: "uv \<Rightarrow> nat" where
  "UNISKIP uv =
     (if uv < 0x80 then 1 else if uv < 0x800 then 2 else if uv < 0x10000 then 3
      else if uv < 0x200000 then 4 else if uv < 0x4000000 then 5
      else if uv < 0x80000000 then 6 else if uv < 0x1000000000 then 7 else 13)"

section \<open>Flags and code points\<close>

definition UTF8_ALLOW_EMPTY :: u32 where "UTF8_ALLOW_EMPTY = 0x0001"
definition UTF8_ALLOW_CONTINUATION :: u32 where "UTF8_ALLOW_CONTINUATION = 0x0002"
definition UTF8_ALLOW_FE_FF :: u32 where "UTF8_ALLOW_FE_FF = 0x0008"
definition UTF8_ALLOW_SHORT :: u32 where "UTF8_ALLOW_SHORT = 0x0010"
definition UTF8_ALLOW_SURROGATE :: u32 where "UTF8_ALLOW_SURROGATE = 0x0020"
definition UTF8_ALLOW_FFFF :: u32 where "UTF8_ALLOW_FFFF = 0x0040"
definition UTF8_ALLOW_LONG :: u32 where "UTF8_ALLOW_LONG = 0x0080"
definition UTF8_ALLOW_ANY :: u32 where "UTF8_ALLOW_ANY = 0x00FF"
definition UTF8_CHECK_ONLY :: u32 where "UTF8_CHECK_ONLY = 0x0200"

definition UNICODE_ALLOW_SURROGATE :: uv where "UNICODE_ALLOW_SURROGATE = 0x0001"
definition UNICODE_ALLOW_FDD0 :: uv where "UNICODE_ALLOW_FDD0 = 0x0002"
definition UNICODE_ALLOW_FFFF :: uv where "UNICODE_ALLOW_FFFF = 0x0004"
definition UNICODE_ALLOW_SUPER :: uv where "UNICODE_ALLOW_SUPER = 0x0008"

lemmas utf8_flags = UTF8_ALLOW_EMPTY_def UTF8_ALLOW_CONTINUATION_def UTF8_ALLOW_FE_FF_def
  UTF8_ALLOW_SHORT_def UTF8_ALLOW_SURROGATE_def UTF8_ALLOW_FFFF_def UTF8_ALLOW_LONG_def
  UTF8_ALLOW_ANY_def UTF8_CHECK_ONLY_def

definition has_flag :: "'a::len word \<Rightarrow> 'a word \<Rightarrow> bool" where
  "has_flag fl b \<longleftrightarrow> fl AND b \<noteq> 0"

definition UNICODE_IS_SURROGATE :: "uv \<Rightarrow> bool" where
  "UNICODE_IS_SURROGATE c \<longleftrightarrow> c \<ge> 0xD800 \<and> c \<le> 0xDFFF"

definition UNICODE_IS_ILLEGAL :: "uv \<Rightarrow> bool" where
  "UNICODE_IS_ILLEGAL c \<longleftrightarrow> c = 0xFFFF"

section \<open>Encoding\<close>

datatype uvuni_warning = Warn_surrogate uv | Warn_illegal uv

definition uvuni_warn :: "bool \<Rightarrow> uv \<Rightarrow> uv \<Rightarrow> uvuni_warning option" where
  "uvuni_warn w uv flags =
     (if w then
        (if UNICODE_IS_SURROGATE uv \<and> \<not> has_flag flags UNICODE_ALLOW_SURROGATE
         then Some (Warn_surrogate uv)
         else if (uv \<ge> 0xFDD0 \<and> uv \<le> 0xFDEF \<and> \<not> has_flag flags UNICODE_ALLOW_FDD0 \<or>
                  uv AND 0xFFFE = 0xFFFE \<and> \<not> has_flag flags UNICODE_ALLOW_FFFF) \<and>
                 (uv \<le> 0x10FFFF \<or> \<not> has_flag flags UNICODE_ALLOW_SUPER)
         then Some (Warn_illegal uv) else None)
      else None)"

text \<open>\<open>(U8)(((uv >> k) & 0x3f) | 0x80)\<close> and \<open>(U8)((uv >> k) | mark)\<close>\<close>

definition cont_byte :: "nat \<Rightarrow> uv \<Rightarrow> u8" where
  "cont_byte k uv = ucast ((drop_bit k uv AND 0x3f) OR 0x80)"

definition start_byte :: "nat \<Rightarrow> uv \<Rightarrow> uv \<Rightarrow> u8" where
  "start_byte k mark uv = ucast (drop_bit k uv OR mark)"

definition uvuni_to_utf8_flags :: "bool \<Rightarrow> uv \<Rightarrow> uv \<Rightarrow> u8 list \<times> uvuni_warning option" where
  "uvuni_to_utf8_flags w uv flags =
     (if UNI_IS_INVARIANT uv then [ucast uv]
      else if uv < 0x800 then [start_byte 6 0xc0 uv, cont_byte 0 uv]
      else if uv < 0x10000 then [start_byte 12 0xe0 uv, cont_byte 6 uv, cont_byte 0 uv]
      else if uv < 0x200000 then
        [start_byte 18 0xf0 uv, cont_byte 12 uv, cont_byte 6 uv, cont_byte 0 uv]
      else if uv < 0x4000000 then
        [start_byte 24 0xf8 uv, cont_byte 18 uv, cont_byte 12 uv, cont_byte 6 uv, cont_byte 0 uv]
      else if uv < 0x80000000 then
        [start_byte 30 0xfc uv, cont_byte 24 uv, cont_byte 18 uv, cont_byte 12 uv, cont_byte 6 uv,
         cont_byte 0 uv]
      else if uv < 0x1000000000 then
        [0xfe, cont_byte 30 uv, cont_byte 24 uv, cont_byte 18 uv, cont_byte 12 uv, cont_byte 6 uv,
         cont_byte 0 uv]
      else
        [0xff, 0x80, ucast ((drop_bit 60 uv AND 0x0f) OR 0x80), cont_byte 54 uv, cont_byte 48 uv,
         cont_byte 42 uv, cont_byte 36 uv, cont_byte 30 uv, cont_byte 24 uv, cont_byte 18 uv,
         cont_byte 12 uv, cont_byte 6 uv, cont_byte 0 uv],
      uvuni_warn w uv flags)"

section \<open>Recognition\<close>

text \<open>The test of one character; \<open>p\<close> reads the bytes from it on.\<close>

definition IS_UTF8_CHAR_1 :: "(nat \<Rightarrow> u8) \<Rightarrow> bool" where
  "IS_UTF8_CHAR_1 p \<longleftrightarrow> p 0 \<le> 0x7F"

definition IS_UTF8_CHAR_2 :: "(nat \<Rightarrow> u8) \<Rightarrow> bool" where
  "IS_UTF8_CHAR_2 p \<longleftrightarrow> p 0 \<ge> 0xC2 \<and> p 0 \<le> 0xDF \<and> p 1 \<ge> 0x80 \<and> p 1 \<le> 0xBF"

definition IS_UTF8_CHAR_3 :: "(nat \<Rightarrow> u8) \<Rightarrow> bool" where
  "IS_UTF8_CHAR_3 p \<longleftrightarrow>
     p 0 = 0xE0 \<and> p 1 \<ge> 0xA0 \<and> p 1 \<le> 0xBF \<and> p 2 \<ge> 0x80 \<and> p 2 \<le> 0xBF \<or>
     p 0 \<ge> 0xE1 \<and> p 0 \<le> 0xEC \<and> p 1 \<ge> 0x80 \<and> p 1 \<le> 0xBF \<and> p 2 \<ge> 0x80 \<and> p 2 \<le> 0xBF \<or>
     p 0 = 0xED \<and> p 1 \<ge> 0x80 \<and> p 1 \<le> 0xBF \<and> p 2 \<ge> 0x80 \<and> p 2 \<le> 0xBF \<or>
     p 0 \<ge> 0xEE \<and> p 0 \<le> 0xEF \<and> p 1 \<ge> 0x80 \<and> p 1 \<le> 0xBF \<and> p 2 \<ge> 0x80 \<and> p 2 \<le> 0xBF"

definition IS_UTF8_CHAR_4 :: "(nat \<Rightarrow> u8) \<Rightarrow> bool" where
  "IS_UTF8_CHAR_4 p \<longleftrightarrow>
     p 0 = 0xF0 \<and> p 1 \<ge> 0x90 \<and> p 1 \<le> 0xBF \<and> p 2 \<ge> 0x80 \<and> p 2 \<le> 0xBF \<and>
       p 3 \<ge> 0x80 \<and> p 3 \<le> 0xBF \<or>
     p 0 \<ge> 0xF1 \<and> p 0 \<le> 0xF3 \<and> p 1 \<ge> 0x80 \<and> p 1 \<le> 0xBF \<and> p 2 \<ge> 0x80 \<and> p 2 \<le> 0xBF \<and>
       p 3 \<ge> 0x80 \<and> p 3 \<le> 0xBF \<or>
     (p 0 = 0xF4 \<and> p 0 \<le> 0xF7) \<and> p 1 \<ge> 0x80 \<and> p 1 \<le> 0xBF \<and> p 2 \<ge> 0x80 \<and> p 2 \<le> 0xBF \<and>
       p 3 \<ge> 0x80 \<and> p 3 \<le> 0xBF"

definition IS_UTF8_CHAR :: "(nat \<Rightarrow> u8) \<Rightarrow> nat \<Rightarrow> bool" where
  "IS_UTF8_CHAR p n \<longleftrightarrow>
     (if n = 1 then IS_UTF8_CHAR_1 p else if n = 2 then IS_UTF8_CHAR_2 p
      else if n = 3 then IS_UTF8_CHAR_3 p else if n = 4 then IS_UTF8_CHAR_4 p else False)"

text \<open>The loop of the slow test: \<open>None\<close> where it returns 0.\<close>

fun slow_loop :: "(nat \<Rightarrow> u8) \<Rightarrow> nat \<Rightarrow> nat \<Rightarrow> uv \<Rightarrow> uv option" where
  "slow_loop p s 0 ouv = Some ouv"
| "slow_loop p s (Suc slen) ouv =
     (if \<not> UTF8_IS_CONTINUATION (p s) then None
      else let uv = UTF8_ACCUMULATE ouv (p s)
           in if uv < ouv then None else slow_loop p (s + 1) slen uv)"

definition is_utf8_char_slow :: "(nat \<Rightarrow> u8) \<Rightarrow> nat \<Rightarrow> nat" where
  "is_utf8_char_slow p len =
     (if UTF8_IS_INVARIANT (p 0) then 1
      else if \<not> UTF8_IS_START (p 0) then 0
      else if len < 2 \<or> \<not> UTF8_IS_CONTINUATION (p 1) then 0
      else case slow_loop p 1 (len - 1) (ucast (p 0 AND ucast (UTF_START_MASK len))) of
        None \<Rightarrow> 0
      | Some uv \<Rightarrow> if UNISKIP uv < len then 0 else len)"

definition is_utf8_char :: "(nat \<Rightarrow> u8) \<Rightarrow> nat" where
  "is_utf8_char p =
     (let len = UTF8SKIP (p 0)
      in if len \<le> 4 then (if IS_UTF8_CHAR p len then len else 0) else is_utf8_char_slow p len)"

text \<open>
  The length the string tests advance by; 0 where they stop. \<open>strlen\<close> stands in for a zero
  length.
\<close>

definition string_step :: "(nat \<Rightarrow> u8) \<Rightarrow> nat" where
  "string_step p =
     (if UTF8_IS_INVARIANT (p 0) then 1
      else if \<not> UTF8_IS_START (p 0) then 0
      else let c = UTF8SKIP (p 0)
           in if c \<le> 4 then (if \<not> IS_UTF8_CHAR p c then 0 else c) else is_utf8_char_slow p c)"

definition strlen :: "u8 list \<Rightarrow> nat" where
  "strlen s = length (takeWhile (\<lambda>c. c \<noteq> 0) s)"

function string_loop :: "u8 list \<Rightarrow> nat \<Rightarrow> nat \<Rightarrow> nat \<Rightarrow> nat \<times> nat" where
  "string_loop buf send x outlen =
     (if x < send
      then let c = string_step (\<lambda>i. rd buf (x + i))
           in if c = 0 then (x, outlen) else string_loop buf send (x + c) (outlen + 1)
      else (x, outlen))"
  by pat_completeness auto
termination
  by (relation "measure (\<lambda>(buf, send, x, outlen). send - x)") auto

definition is_utf8_string :: "u8 list \<Rightarrow> nat \<Rightarrow> bool" where
  "is_utf8_string s len =
     (let send = (if len \<noteq> 0 then len else strlen s) in fst (string_loop s send 0 0) = send)"

definition is_utf8_string_loclen :: "u8 list \<Rightarrow> nat \<Rightarrow> bool \<times> nat \<times> nat" where
  "is_utf8_string_loclen s len =
     (let send = (if len \<noteq> 0 then len else strlen s); (x, outlen) = string_loop s send 0 0
      in (x = send, x, outlen))"

section \<open>Decoding\<close>

datatype utf8_malformed =
    M_empty
  | M_continuation uv
  | M_non_continuation u8 nat uv nat   \<comment> \<open>the byte, how far after the start byte, start byte, expected length\<close>
  | M_fe_ff uv
  | M_short nat nat uv
  | M_overflow uv u8 uv
  | M_surrogate uv
  | M_long nat nat uv
  | M_ffff uv

text \<open>\<open>(STRLEN) -1\<close>\<close>

definition STRLEN_MAX :: nat where
  "STRLEN_MAX = 2 ^ 64 - 1"

text \<open>
  The loop over the continuation bytes. A malformation is left with the length expected at that
  point.
\<close>

fun utf8n_loop :: "u8 list \<Rightarrow> u32 \<Rightarrow> uv \<Rightarrow> nat \<Rightarrow> nat \<Rightarrow> nat \<Rightarrow> uv \<Rightarrow> (utf8_malformed \<times> nat) + uv" where
  "utf8n_loop buf flags startbyte expectlen s 0 ouv = Inr ouv"
| "utf8n_loop buf flags startbyte expectlen s (Suc len) ouv =
     (if \<not> UTF8_IS_CONTINUATION (rd buf s)
      then Inl (M_non_continuation (rd buf s) (s - 1) startbyte (expectlen - len), expectlen - len)
      else let uv = UTF8_ACCUMULATE ouv (rd buf s) in
      if \<not> uv > ouv \<and> uv = ouv \<and> expectlen \<noteq> 13 \<and> \<not> has_flag flags UTF8_ALLOW_LONG
      then Inl (M_long expectlen (UNISKIP uv) startbyte, expectlen)
      else if \<not> uv > ouv \<and> uv \<noteq> ouv then Inl (M_overflow ouv (rd buf s) startbyte, expectlen)
      else utf8n_loop buf flags startbyte expectlen (s + 1) len uv)"

text \<open>The length and the payload of a start byte.\<close>

definition utf8_start :: "uv \<Rightarrow> nat \<times> uv" where
  "utf8_start uv =
     (if uv AND 0x20 = 0 then (2, uv AND 0x1f)
      else if uv AND 0x10 = 0 then (3, uv AND 0x0f)
      else if uv AND 0x08 = 0 then (4, uv AND 0x07)
      else if uv AND 0x04 = 0 then (5, uv AND 0x03)
      else if uv AND 0x02 = 0 then (6, uv AND 0x01)
      else if uv AND 0x01 = 0 then (7, 0)
      else (13, 0))"

text \<open>
  What is at the label \<open>malformed\<close>: the value 0, \<open>*retlen\<close> and the warning. The number \<open>len\<close> is
  the one the variable has there.
\<close>

definition utf8n_malformed ::
    "bool \<Rightarrow> u32 \<Rightarrow> nat \<Rightarrow> utf8_malformed \<Rightarrow> nat \<Rightarrow> nat \<Rightarrow> uv \<times> nat \<times> utf8_malformed option" where
  "utf8n_malformed wd flags curlen bad len expectlen =
     (if has_flag flags UTF8_CHECK_ONLY then (0, STRLEN_MAX, None)
      else let expectlen = (if wd then (case bad of M_short _ _ _ \<Rightarrow> curlen | _ \<Rightarrow> expectlen) else expectlen)
           in (0, if expectlen \<noteq> 0 then expectlen else len, if wd then Some bad else None))"

definition utf8n_to_uvuni ::
    "bool \<Rightarrow> u8 list \<Rightarrow> nat \<Rightarrow> nat \<Rightarrow> u32 \<Rightarrow> uv \<times> nat \<times> utf8_malformed option" where
  "utf8n_to_uvuni wd buf s curlen flags =
     (let c = rd buf s; startbyte = ucast c :: uv; bad = utf8n_malformed wd flags curlen in
      if curlen = 0 \<and> \<not> has_flag flags UTF8_ALLOW_EMPTY then bad M_empty 1 0
      else if UTF8_IS_INVARIANT c then (startbyte, 1, None)
      else if UTF8_IS_CONTINUATION c \<and> \<not> has_flag flags UTF8_ALLOW_CONTINUATION
      then bad (M_continuation startbyte) 1 0
      else if UTF8_IS_START c \<and> curlen > 1 \<and> \<not> UTF8_IS_CONTINUATION (rd buf (s + 1))
      then bad (M_non_continuation (rd buf (s + 1)) 0 startbyte 0) 1 0
      else if (startbyte = 0xfe \<or> startbyte = 0xff) \<and> \<not> has_flag flags UTF8_ALLOW_FE_FF
      then bad (M_fe_ff startbyte) 1 0
      else let (expectlen, uv) = utf8_start startbyte in
      if curlen < expectlen \<and> \<not> has_flag flags UTF8_ALLOW_SHORT
      then bad (M_short curlen expectlen startbyte) expectlen expectlen
      else case utf8n_loop (drop s buf) flags startbyte expectlen 1 (expectlen - 1) uv of
        Inl (m, el) \<Rightarrow> bad m 0 el
      | Inr uv \<Rightarrow>
          if UNICODE_IS_SURROGATE uv \<and> \<not> has_flag flags UTF8_ALLOW_SURROGATE
          then bad (M_surrogate uv) 0 expectlen
          else if expectlen > UNISKIP uv \<and> \<not> has_flag flags UTF8_ALLOW_LONG
          then bad (M_long expectlen (UNISKIP uv) startbyte) 0 expectlen
          else if UNICODE_IS_ILLEGAL uv \<and> \<not> has_flag flags UTF8_ALLOW_FFFF
          then bad (M_ffff uv) 0 expectlen
          else (uv, expectlen, None))"

definition utf8_to_uvchr :: "bool \<Rightarrow> bool \<Rightarrow> u8 list \<Rightarrow> nat \<Rightarrow> uv \<times> nat \<times> utf8_malformed option" where
  "utf8_to_uvchr w wd buf s = utf8n_to_uvuni wd buf s 13 (if w then 0 else UTF8_ALLOW_ANY)"

definition utf8_to_uvuni :: "bool \<Rightarrow> bool \<Rightarrow> u8 list \<Rightarrow> nat \<Rightarrow> uv \<times> nat \<times> utf8_malformed option" where
  "utf8_to_uvuni w wd buf s = utf8n_to_uvuni wd buf s 13 (if w then 0 else UTF8_ALLOW_ANY)"

section \<open>Counting and hopping\<close>

lemma length_PL_utf8skip: "length PL_utf8skip = 256"
  by (simp add: PL_utf8skip_def)

lemma UTF8SKIP_pos [simp]: "0 < UTF8SKIP c"
proof -
  have "unat c < length PL_utf8skip"
    by (simp add: length_PL_utf8skip)
  then have "PL_utf8skip ! unat c \<in> set PL_utf8skip" by (rule nth_mem)
  moreover have "\<forall>n \<in> set PL_utf8skip. 0 < n" by (simp add: PL_utf8skip_def)
  ultimately show ?thesis unfolding UTF8SKIP_def by blast
qed

text \<open>The count, and whether the warning was given.\<close>

function utf8_length_loop :: "u8 list \<Rightarrow> nat \<Rightarrow> nat \<Rightarrow> nat \<Rightarrow> nat \<times> bool" where
  "utf8_length_loop buf s e len =
     (if s < e
      then let t = UTF8SKIP (rd buf s)
           in if e - s < t then (len, True) else utf8_length_loop buf (s + t) e (len + 1)
      else (len, False))"
  by pat_completeness auto
termination
  by (relation "measure (\<lambda>(buf, s, e, len). e - s)") (auto intro: diff_less_mono2 less_add_same_cancel1[THEN iffD2])

definition utf8_length :: "u8 list \<Rightarrow> nat \<Rightarrow> nat \<Rightarrow> nat \<times> bool" where
  "utf8_length buf s e = (if e < s then (0, True) else utf8_length_loop buf s e 0)"

definition utf8_distance :: "u8 list \<Rightarrow> nat \<Rightarrow> nat \<Rightarrow> int" where
  "utf8_distance buf a b =
     (if a < b then - 1 * int (fst (utf8_length buf a b)) else int (fst (utf8_length buf b a)))"

fun hop_forward :: "u8 list \<Rightarrow> nat \<Rightarrow> nat \<Rightarrow> nat" where
  "hop_forward buf s 0 = s"
| "hop_forward buf s (Suc off) = hop_forward buf (s + UTF8SKIP (rd buf s)) off"

text \<open>
  \<open>while (UTF8_IS_CONTINUATION( *s)) s--;\<close> \<open>None\<close> where the pointer would leave the buffer.
\<close>

fun back_to_start :: "u8 list \<Rightarrow> nat \<Rightarrow> nat option" where
  "back_to_start buf 0 = (if UTF8_IS_CONTINUATION (rd buf 0) then None else Some 0)"
| "back_to_start buf (Suc s) =
     (if UTF8_IS_CONTINUATION (rd buf (Suc s)) then back_to_start buf s else Some (Suc s))"

fun hop_back :: "u8 list \<Rightarrow> nat \<Rightarrow> nat \<Rightarrow> nat option" where
  "hop_back buf s 0 = Some s"
| "hop_back buf 0 (Suc off) = None"
| "hop_back buf (Suc s) (Suc off) = Option.bind (back_to_start buf s) (\<lambda>s. hop_back buf s off)"

definition utf8_hop :: "u8 list \<Rightarrow> nat \<Rightarrow> int \<Rightarrow> nat option" where
  "utf8_hop buf s off =
     (if off \<ge> 0 then Some (hop_forward buf s (nat off)) else hop_back buf s (nat (- off)))"

declare string_loop.simps [simp del] utf8_length_loop.simps [simp del]

section \<open>Bytes and words as numbers\<close>

lemma and_mask_mod:
  fixes x :: "'a::len word"
  shows "unat (x AND 0x3f) = unat x mod 64" "unat (x AND 0x1f) = unat x mod 32"
    "unat (x AND 0x0f) = unat x mod 16" "unat (x AND 0x07) = unat x mod 8"
    "unat (x AND 0x03) = unat x mod 4" "unat (x AND 0x01) = unat x mod 2"
  using word_and_mask_eq_mod[of x 6] word_and_mask_eq_mod[of x 5] word_and_mask_eq_mod[of x 4]
    word_and_mask_eq_mod[of x 3] word_and_mask_eq_mod[of x 2] word_and_mask_eq_mod[of x 1]
  by (simp_all add: mask_eq_exp_minus_1)

lemma or_add_nat: "n < 2 ^ k \<Longrightarrow> n OR 2 ^ k * m = n + 2 ^ k * (m :: nat)"
proof -
  assume n: "n < 2 ^ k"
  have "n AND 2 ^ k * m = 0"
  proof (rule bit_eqI)
    fix i
    show "bit (n AND 2 ^ k * m) i = bit (0 :: nat) i"
    proof (cases "i < k")
      case True
      then show ?thesis by (simp add: bit_simps push_bit_eq_mult[symmetric] mult.commute)
    next
      case False
      then have "(2::nat) ^ k \<le> 2 ^ i" by (intro power_increasing) simp_all
      with n have "n < 2 ^ i" by (rule order_less_le_trans)
      then have "\<not> bit n i" by (simp add: bit_iff_odd)
      then show ?thesis by (simp add: bit_simps)
    qed
  qed
  then show ?thesis by (simp add: disjunctive_add_eq_or)
qed

lemma unat_drop_bit: "unat (drop_bit k (w :: 'a::len word)) = unat w div 2 ^ k"
  by (subst unsigned_drop_bit_eq) (simp only: take_bit_nat_eq_self[OF unsigned_less] drop_bit_eq_div)

lemma unat_push_bit: "unat (push_bit k (w :: 'a::len word)) = unat w * 2 ^ k mod 2 ^ LENGTH('a)"
  by (subst unsigned_push_bit_eq) (simp only: push_bit_eq_mult take_bit_eq_mod)

lemma unat_ucast8: "unat (x :: uv) < 256 \<Longrightarrow> unat (ucast x :: u8) = unat x"
  by (simp add: unsigned_ucast_eq take_bit_nat_eq_self)

lemma unat_ucast_u8 [simp]: "unat (ucast (c :: u8) :: uv) = unat c"
  using unat_u8_less[of c] unfolding unsigned_ucast_eq
  by (intro take_bit_nat_eq_self) (simp add: order_less_trans[of _ 256])

lemma unat_cont_byte: "unat (cont_byte k uv) = 128 + unat uv div 2 ^ k mod 64"
proof -
  have "unat ((drop_bit k uv AND 0x3f) OR 0x80) = (unat uv div 2 ^ k mod 64) OR 2 ^ 6 * 2"
    by (simp add: unsigned_or_eq and_mask_mod unat_drop_bit)
  also have "\<dots> = 128 + unat uv div 2 ^ k mod 64"
    by (subst or_add_nat) simp_all
  finally show ?thesis unfolding cont_byte_def by (subst unat_ucast8) simp_all
qed

lemma unat_start_byte:
  assumes "unat uv < 2 ^ k * 2 ^ j" and "unat mark = 2 ^ j * m" and "2 ^ j + 2 ^ j * m \<le> 256"
  shows "unat (start_byte k mark uv) = 2 ^ j * m + unat uv div 2 ^ k"
proof -
  have b: "unat uv div 2 ^ k < 2 ^ j"
    using assms(1) by (simp add: div_less_iff_less_mult mult.commute)
  then have "unat (drop_bit k uv OR mark) = unat uv div 2 ^ k + 2 ^ j * m"
    using assms(2) by (simp add: unsigned_or_eq unat_drop_bit or_add_nat)
  then show ?thesis unfolding start_byte_def
    using assms(3) b by (subst unat_ucast8) simp_all
qed

lemma unat_accumulate:
  "unat (UTF8_ACCUMULATE (old :: uv) new) = (unat old * 64 + unat new mod 64) mod 2 ^ 64"
proof -
  define q r x where "q = unat old div 2 ^ 58" and "r = unat old mod 2 ^ 58" and "x = unat new mod 64"
  have old: "unat old = 2 ^ 58 * q + r" unfolding q_def r_def by simp
  have r: "r < 2 ^ 58" and x: "x < 64" unfolding r_def x_def by simp_all
  have "unat (UTF8_ACCUMULATE old new) = (unat old * 64 mod 2 ^ 64) OR x"
    by (simp add: UTF8_ACCUMULATE_def unsigned_or_eq and_mask_mod unat_push_bit x_def)
  also have "unat old * 64 = 2 ^ 6 * r + 2 ^ 64 * q" unfolding old by simp
  also have "(2 ^ 6 * r + 2 ^ 64 * q) mod 2 ^ 64 = 2 ^ 6 * r" using r by simp
  also have "2 ^ 6 * r OR x = x + 2 ^ 6 * r"
    using x by (subst or.commute, intro or_add_nat) simp
  also have "\<dots> = (x + 2 ^ 6 * r + 2 ^ 64 * q) mod 2 ^ 64" using r x by simp
  also have "x + 2 ^ 6 * r + 2 ^ 64 * q = unat old * 64 + x" unfolding old by simp
  finally show ?thesis by (simp add: x_def)
qed

definition skip_num :: "nat \<Rightarrow> nat" where
  "skip_num b =
     (if b < 192 then 1 else if b < 224 then 2 else if b < 240 then 3 else if b < 248 then 4
      else if b < 252 then 5 else if b < 254 then 6 else if b = 254 then 7 else 13)"

lemma PL_utf8skip_num: "b < 256 \<Longrightarrow> PL_utf8skip ! b = skip_num b"
proof -
  assume "b < 256"
  then consider "b < 128" | "128 \<le> b" "b < 192" | "192 \<le> b" "b < 224" | "224 \<le> b" "b < 240"
    | "240 \<le> b" "b < 248" | "248 \<le> b" "b < 252" | "252 \<le> b" "b < 254" | "b = 254" | "b = 255"
    by linarith
  then show ?thesis
    by cases (simp_all add: PL_utf8skip_def nth_append skip_num_def, linarith+)
qed

lemma UTF8SKIP_num: "UTF8SKIP c = skip_num (unat c)"
  by (simp add: UTF8SKIP_def PL_utf8skip_num)

lemma div_64_pow: "(n :: nat) div 2 ^ (6 * Suc m) = n div 64 div 2 ^ (6 * m)"
  by (simp add: div_mult2_eq[symmetric] power_add)

lemmas byte_num = UTF8_IS_CONTINUATION_def UTF8_IS_INVARIANT_def UTF8_IS_START_def
  word_le_nat_alt word_less_nat_alt

text \<open>
  The bytes from \<open>s\<close> on are the \<open>m\<close> continuation bytes of the number \<open>n\<close>, most significant
  first.
\<close>

definition cont_run :: "(nat \<Rightarrow> u8) \<Rightarrow> nat \<Rightarrow> nat \<Rightarrow> nat \<Rightarrow> bool" where
  "cont_run p s m n \<longleftrightarrow> (\<forall>i < m. unat (p (s + i)) = 128 + n div 2 ^ (6 * (m - 1 - i)) mod 64)"

lemma cont_run_0 [simp]: "cont_run p s 0 n"
  by (simp add: cont_run_def)

lemma cont_run_Suc:
  "cont_run p s (Suc m) n \<longleftrightarrow> unat (p s) = 128 + n div 2 ^ (6 * m) mod 64 \<and> cont_run p (Suc s) m n"
  unfolding cont_run_def by (simp add: less_Suc_eq_0_disj ex_disj_distrib all_conj_distrib imp_disjL) auto

lemma cont_run_snoc:
  "cont_run p s (Suc m) n \<longleftrightarrow> cont_run p s m (n div 64) \<and> unat (p (s + m)) = 128 + n mod 64"
proof (induction m arbitrary: s)
  case (Suc m)
  from div_64_pow[of n m] Suc[of "Suc s"] show ?case
    by (simp only: cont_run_Suc[of p s] add_Suc_right add_Suc) blast
qed (simp add: cont_run_Suc)

lemma cont_run_exists:
  "(\<And>i. i < m \<Longrightarrow> UTF8_IS_CONTINUATION (p (s + i))) \<Longrightarrow> \<exists>n. cont_run p s m n \<and> n div 2 ^ (6 * m) = a"
proof (induction m)
  case (Suc m)
  then obtain n where n: "cont_run p s m n" "n div 2 ^ (6 * m) = a" by auto
  let ?n = "n * 64 + (unat (p (s + m)) - 128)"
  have b: "128 \<le> unat (p (s + m))" "unat (p (s + m)) \<le> 191"
    using Suc.prems[of m] by (simp_all add: byte_num)
  then have d: "unat (p (s + m)) - 128 < 64" by linarith
  then have "?n div 64 = n" "?n mod 64 = unat (p (s + m)) - 128" by simp_all
  moreover note div_64_pow[of ?n m]
  ultimately show ?case using n b by (intro exI[of _ ?n]) (simp add: cont_run_snoc)
qed simp

lemma cont_run_byte: "cont_run p s m n \<Longrightarrow> i < m \<Longrightarrow> UTF8_IS_CONTINUATION (p (s + i))"
  by (simp add: cont_run_def byte_num)

section \<open>The form of an encoding\<close>

text \<open>The encoding of a code point, without the warnings.\<close>

definition enc :: "uv \<Rightarrow> u8 list" where
  "enc uv = fst (uvuni_to_utf8_flags False uv 0)"

lemma enc_eq: "enc uv = fst (uvuni_to_utf8_flags w uv flags)"
  by (simp add: enc_def uvuni_to_utf8_flags_def)

definition utf8_lead :: "nat \<Rightarrow> nat \<Rightarrow> nat" where
  "utf8_lead k n =
     (if k = 2 then 192 + n div 2 ^ 6 else if k = 3 then 224 + n div 2 ^ 12
      else if k = 4 then 240 + n div 2 ^ 18 else if k = 5 then 248 + n div 2 ^ 24
      else if k = 6 then 252 + n div 2 ^ 30 else if k = 7 then 254 else 255)"

fun conts :: "nat \<Rightarrow> nat \<Rightarrow> nat list" where
  "conts 0 n = []"
| "conts (Suc m) n = (128 + n div 2 ^ (6 * m) mod 64) # conts m n"

lemma conts_numeral: "conts (numeral v) n = (128 + n div 2 ^ (6 * pred_numeral v) mod 64) # conts (pred_numeral v) n"
  by (simp add: numeral_eq_Suc[of v])

lemma length_conts [simp]: "length (conts m n) = m"
  by (induction m) simp_all

lemma UNISKIP_num:
  "UNISKIP uv = (let n = unat uv in
     if n < 2 ^ 7 then 1 else if n < 2 ^ 11 then 2 else if n < 2 ^ 16 then 3
     else if n < 2 ^ 21 then 4 else if n < 2 ^ 26 then 5 else if n < 2 ^ 31 then 6
     else if n < 2 ^ 36 then 7 else 13)"
  by (simp add: UNISKIP_def word_less_nat_alt Let_def)

lemma unat_reserved_byte: "unat (ucast ((drop_bit 60 uv AND 0x0f) OR 0x80 :: uv) :: u8) = 128 + unat uv div 2 ^ 60"
proof -
  have "unat uv div 2 ^ 60 < 16" by (simp add: div_less_iff_less_mult)
  then have "unat ((drop_bit 60 uv AND 0x0f) OR 0x80) = (unat uv div 2 ^ 60) OR 2 ^ 4 * 8"
    by (simp add: unsigned_or_eq and_mask_mod unat_drop_bit)
  also have "\<dots> = 128 + unat uv div 2 ^ 60"
    using \<open>unat uv div 2 ^ 60 < 16\<close> by (subst or_add_nat) simp_all
  finally show ?thesis
    using \<open>unat uv div 2 ^ 60 < 16\<close> by (subst unat_ucast8) simp_all
qed

lemma enc_invariant: "UNI_IS_INVARIANT uv \<Longrightarrow> enc uv = [ucast uv]"
  by (simp add: enc_def uvuni_to_utf8_flags_def)

lemma enc_form:
  assumes "\<not> UNI_IS_INVARIANT uv"
  shows "map unat (enc uv) = utf8_lead (UNISKIP uv) (unat uv) # conts (UNISKIP uv - 1) (unat uv)"
proof -
  have n: "\<not> unat uv < 2 ^ 7" using assms by (simp add: UNI_IS_INVARIANT_def word_less_nat_alt)
  have top: "unat uv div 1152921504606846976 < 64" "unat uv div 73786976294838206464 = 0"
    by (simp_all add: div_less_iff_less_mult order_less_trans[of _ "2 ^ 64"])
  consider "unat uv < 2 ^ 11" | "\<not> unat uv < 2 ^ 11" "unat uv < 2 ^ 16"
    | "\<not> unat uv < 2 ^ 16" "unat uv < 2 ^ 21" | "\<not> unat uv < 2 ^ 21" "unat uv < 2 ^ 26"
    | "\<not> unat uv < 2 ^ 26" "unat uv < 2 ^ 31" | "\<not> unat uv < 2 ^ 31" "unat uv < 2 ^ 36"
    | "\<not> unat uv < 2 ^ 36"
    by blast
  then show ?thesis
    using n
    by cases (simp_all add: top enc_def uvuni_to_utf8_flags_def UNI_IS_INVARIANT_def word_less_nat_alt
        UNISKIP_num utf8_lead_def unat_cont_byte conts_numeral unat_reserved_byte
        unat_start_byte[of _ 6 5 "0xc0" 6] unat_start_byte[of _ 12 4 "0xe0" 14]
        unat_start_byte[of _ 18 3 "0xf0" 30] unat_start_byte[of _ 24 2 "0xf8" 62]
        unat_start_byte[of _ 30 1 "0xfc" 126])
qed

lemma length_enc: "length (enc uv) = UNISKIP uv"
  by (simp add: enc_def uvuni_to_utf8_flags_def UNISKIP_def UNI_IS_INVARIANT_def)

lemma conts_nth: "i < m \<Longrightarrow> conts m n ! i = 128 + n div 2 ^ (6 * (m - 1 - i)) mod 64"
proof (induction m arbitrary: i)
  case (Suc m)
  then show ?case by (cases i) (simp_all add: less_Suc_eq_le)
qed simp

text \<open>A reader \<open>p\<close> that sees the encoding of \<open>uv\<close>.\<close>

definition reads :: "(nat \<Rightarrow> u8) \<Rightarrow> u8 list \<Rightarrow> bool" where
  "reads p bs \<longleftrightarrow> (\<forall>i < length bs. p i = bs ! i)"

lemma reads_enc_iff:
  assumes "\<not> UNI_IS_INVARIANT uv"
  shows "reads p (enc uv) \<longleftrightarrow> unat (p 0) = utf8_lead (UNISKIP uv) (unat uv) \<and>
    cont_run p 1 (UNISKIP uv - 1) (unat uv)"
proof -
  have k: "0 < UNISKIP uv" by (simp add: UNISKIP_def)
  have "reads p (enc uv) \<longleftrightarrow> (\<forall>i < UNISKIP uv. unat (p i) = map unat (enc uv) ! i)"
    by (simp add: reads_def length_enc word_unat_eq_iff)
  also have "\<dots> \<longleftrightarrow> (\<forall>i < Suc (UNISKIP uv - 1). unat (p i) =
      (utf8_lead (UNISKIP uv) (unat uv) # conts (UNISKIP uv - 1) (unat uv)) ! i)"
    using k by (simp only: enc_form[OF assms] Suc_pred' Suc_diff_1)
  also have "\<dots> \<longleftrightarrow> unat (p 0) = utf8_lead (UNISKIP uv) (unat uv) \<and>
      (\<forall>i < UNISKIP uv - 1. unat (p (Suc i)) = conts (UNISKIP uv - 1) (unat uv) ! i)"
    by (auto simp: less_Suc_eq_0_disj nth_Cons' )
  also have "(\<forall>i < UNISKIP uv - 1. unat (p (Suc i)) = conts (UNISKIP uv - 1) (unat uv) ! i) \<longleftrightarrow>
      cont_run p 1 (UNISKIP uv - 1) (unat uv)"
    by (simp add: cont_run_def conts_nth)
  finally show ?thesis .
qed

section \<open>Accumulating a run\<close>

lemma accumulate_run:
  fixes ouv :: uv
  assumes "n < 2 ^ 64" and "unat ouv = n div 2 ^ (6 * Suc m)"
    and "unat c = 128 + n div 2 ^ (6 * m) mod 64"
  shows "unat (UTF8_ACCUMULATE ouv c) = n div 2 ^ (6 * m)"
proof -
  let ?q = "n div 2 ^ (6 * m)"
  have "unat ouv = ?q div 64" using assms(2) by (simp add: div_mult2_eq[symmetric] power_add mult.commute)
  moreover have "unat c mod 64 = ?q mod 64" using assms(3) by (simp add: mod_add_eq[symmetric])
  ultimately have "unat ouv * 64 + unat c mod 64 = ?q" by simp
  moreover have "?q < 2 ^ 64" using assms(1) by (rule order_le_less_trans[OF div_le_dividend])
  ultimately show ?thesis by (simp only: unat_accumulate mod_less)
qed

lemma run_step_le: "(n :: nat) div 2 ^ (6 * Suc m) \<le> n div 2 ^ (6 * m)"
  by (rule div_le_mono2) (simp_all add: power_increasing)

lemma run_step_less: "0 < n div 2 ^ (6 * m) \<Longrightarrow> (n :: nat) div 2 ^ (6 * Suc m) < n div 2 ^ (6 * m)"
proof -
  have "n div 2 ^ (6 * Suc m) = n div 2 ^ (6 * m) div 64"
    by (simp add: div_mult2_eq[symmetric] power_add mult.commute)
  then show "0 < n div 2 ^ (6 * m) \<Longrightarrow> ?thesis" by simp
qed

lemma slow_loop_run:
  "cont_run p s m n \<Longrightarrow> n < 2 ^ 64 \<Longrightarrow> unat ouv = n div 2 ^ (6 * m) \<Longrightarrow>
   slow_loop p s m ouv = Some (of_nat n)"
proof (induction m arbitrary: s ouv)
  case 0
  then show ?case by (simp add: word_unat_eq_iff unat_of_nat_less)
next
  case (Suc m)
  then have acc: "unat (UTF8_ACCUMULATE ouv (p s)) = n div 2 ^ (6 * m)" and
    run: "cont_run p (Suc s) m n"
    by (simp_all only: accumulate_run cont_run_Suc)
  have "\<not> UTF8_ACCUMULATE ouv (p s) < ouv"
    using run_step_le[of n m] Suc.prems(3) acc by (simp add: word_less_nat_alt)
  with Suc.IH[OF run Suc.prems(2) acc] cont_run_byte[OF Suc.prems(1), of 0] show ?case by simp
qed

section \<open>Start bytes\<close>

lemma and_exp_test: "(w :: 'a::len word) AND 2 ^ j = 0 \<longleftrightarrow> even (unat w div 2 ^ j)"
proof -
  have "bit w j \<longleftrightarrow> bit (unat w) j"
    by (simp add: bit_unsigned_iff possible_bit_def)
  then show ?thesis
    by (simp add: and_exp_eq_0_iff_not_bit bit_iff_odd)
qed

lemma and_bit_test:
  fixes w :: "'a::len word"
  shows "w AND 0x20 = 0 \<longleftrightarrow> even (unat w div 32)" "w AND 0x10 = 0 \<longleftrightarrow> even (unat w div 16)"
    "w AND 0x08 = 0 \<longleftrightarrow> even (unat w div 8)" "w AND 0x04 = 0 \<longleftrightarrow> even (unat w div 4)"
    "w AND 0x02 = 0 \<longleftrightarrow> even (unat w div 2)" "w AND 0x01 = 0 \<longleftrightarrow> even (unat w)"
  using and_exp_test[of w 5] and_exp_test[of w 4] and_exp_test[of w 3] and_exp_test[of w 2]
    and_exp_test[of w 1] and_exp_test[of w 0]
  by simp_all

lemma and_mask_of_nat:
  fixes w :: "'a::len word"
  shows "w AND 0x1f = of_nat (unat w mod 32)" "w AND 0x0f = of_nat (unat w mod 16)"
    "w AND 0x07 = of_nat (unat w mod 8)" "w AND 0x03 = of_nat (unat w mod 4)"
    "w AND 0x01 = of_nat (unat w mod 2)"
  by (simp_all only: and_mask_mod[symmetric] of_nat_unat ucast_id)

lemma utf8_start_div:
  "utf8_start w =
     (if even (unat w div 32) then (2, of_nat (unat w mod 32))
      else if even (unat w div 16) then (3, of_nat (unat w mod 16))
      else if even (unat w div 8) then (4, of_nat (unat w mod 8))
      else if even (unat w div 4) then (5, of_nat (unat w mod 4))
      else if even (unat w div 2) then (6, of_nat (unat w mod 2))
      else if even (unat w) then (7, 0) else (13, 0))"
  unfolding utf8_start_def and_bit_test unfolding and_mask_of_nat ..

definition utf8_start_num :: "nat \<Rightarrow> nat \<times> nat" where
  "utf8_start_num b =
     (if b < 224 then (2, b - 192) else if b < 240 then (3, b - 224) else if b < 248 then (4, b - 240)
      else if b < 252 then (5, b - 248) else if b < 254 then (6, b - 252)
      else if b = 254 then (7, 0) else (13, 0))"

lemma mult_add_div: "(x :: nat) < d \<Longrightarrow> (d * q + x) div d = q \<and> (d * q + x) mod d = x"
  by simp

lemma utf8_start_eq:
  assumes "192 \<le> unat c"
  shows "utf8_start (ucast (c :: u8)) = map_prod id of_nat (utf8_start_num (unat c))"
proof -
  let ?w = "ucast c :: uv"
  define b where "b = unat c"
  have "b < 256" "192 \<le> b" using assms by (simp_all add: b_def)
  then consider "192 \<le> b" "b < 224" | "224 \<le> b" "b < 240" | "240 \<le> b" "b < 248"
    | "248 \<le> b" "b < 252" | "252 \<le> b" "b < 254" | "b = 254" | "b = 255"
    by linarith
  then consider x where "unat c = 32 * 6 + x" "x < 32" | x where "unat c = 16 * 14 + x" "x < 16"
    | x where "unat c = 8 * 30 + x" "x < 8" | x where "unat c = 4 * 62 + x" "x < 4"
    | x where "unat c = 2 * 126 + x" "x < 2" | "unat c = 254" | "unat c = 255"
    unfolding b_def
  proof cases
    case 1 with that(1)[of "unat c - 192"] show thesis by simp
  next
    case 2 with that(2)[of "unat c - 224"] show thesis by simp
  next
    case 3 with that(3)[of "unat c - 240"] show thesis by simp
  next
    case 4 with that(4)[of "unat c - 248"] show thesis by simp
  next
    case 5 with that(5)[of "unat c - 252"] show thesis by simp
  qed (use that(6,7) in blast)+
  then show ?thesis
  proof cases
    case 1
    then have "unat c div 32 = 6" "unat c mod 32 = x" using mult_add_div[of x 32 6] by simp_all
    with 1 show ?thesis
      by (simp add: utf8_start_div utf8_start_num_def)
  next
    case 2
    then have "unat c div 32 = 7" "unat c div 16 = 14" "unat c mod 16 = x"
      using mult_add_div[of x 16 14] by simp_all
    with 2 show ?thesis
      by (simp add: utf8_start_div utf8_start_num_def)
  next
    case 3
    then have "unat c div 32 = 7" "unat c div 16 = 15" "unat c div 8 = 30" "unat c mod 8 = x"
      using mult_add_div[of x 8 30] by simp_all
    with 3 show ?thesis
      by (simp add: utf8_start_div utf8_start_num_def)
  next
    case 4
    then have "unat c div 32 = 7" "unat c div 16 = 15" "unat c div 8 = 31" "unat c div 4 = 62"
      "unat c mod 4 = x"
      using mult_add_div[of x 4 62] by simp_all
    with 4 show ?thesis
      by (simp add: utf8_start_div utf8_start_num_def)
  next
    case 5
    then have "unat c div 32 = 7" "unat c div 16 = 15" "unat c div 8 = 31" "unat c div 4 = 63"
      "unat c div 2 = 126" "unat c mod 2 = x"
      using mult_add_div[of x 2 126] by simp_all
    with 5 show ?thesis
      by (simp add: utf8_start_div utf8_start_num_def)
  qed (simp_all add: utf8_start_div utf8_start_num_def)
qed

text \<open>The start byte of an encoding gives back the length and the top bits.\<close>

lemma utf8_start_num_lead:
  assumes "\<not> UNI_IS_INVARIANT uv"
  defines "n \<equiv> unat uv" and "k \<equiv> UNISKIP uv"
  shows "utf8_start_num (utf8_lead k n) = (k, n div 2 ^ (6 * (k - 1)))" "192 \<le> utf8_lead k n"
    "skip_num (utf8_lead k n) = k" "254 \<le> utf8_lead k n \<longleftrightarrow> 2 ^ 31 \<le> n"
proof -
  have n: "\<not> n < 2 ^ 7" using assms(1) by (simp add: n_def UNI_IS_INVARIANT_def word_less_nat_alt)
  have top: "n div 4722366482869645213696 = 0"
    by (rule div_less) (simp add: n_def order_less_trans[of _ "2 ^ 64"])
  have k: "k = (if n < 2 ^ 7 then 1 else if n < 2 ^ 11 then 2 else if n < 2 ^ 16 then 3
     else if n < 2 ^ 21 then 4 else if n < 2 ^ 26 then 5 else if n < 2 ^ 31 then 6
     else if n < 2 ^ 36 then 7 else 13)"
    unfolding k_def n_def UNISKIP_num Let_def ..
  consider "n < 2 ^ 11" | "\<not> n < 2 ^ 11" "n < 2 ^ 16"
    | "\<not> n < 2 ^ 16" "n < 2 ^ 21" | "\<not> n < 2 ^ 21" "n < 2 ^ 26"
    | "\<not> n < 2 ^ 26" "n < 2 ^ 31" | "\<not> n < 2 ^ 31" "n < 2 ^ 36" | "\<not> n < 2 ^ 36"
    by blast
  then have "utf8_start_num (utf8_lead k n) = (k, n div 2 ^ (6 * (k - 1))) \<and> 192 \<le> utf8_lead k n \<and>
      skip_num (utf8_lead k n) = k \<and> (254 \<le> utf8_lead k n \<longleftrightarrow> 2 ^ 31 \<le> n)"
  proof cases
    case 1 with n have "k = 2" "n div 64 < 32" by (simp_all add: k div_less_iff_less_mult)
    with 1 show ?thesis by (simp add: utf8_lead_def utf8_start_num_def skip_num_def)
  next
    case 2 then have "k = 3" "n div 4096 < 16" by (simp_all add: k div_less_iff_less_mult)
    with 2 show ?thesis by (simp add: utf8_lead_def utf8_start_num_def skip_num_def)
  next
    case 3 then have "k = 4" "n div 262144 < 8" by (simp_all add: k div_less_iff_less_mult)
    with 3 show ?thesis by (simp add: utf8_lead_def utf8_start_num_def skip_num_def)
  next
    case 4 then have "k = 5" "n div 16777216 < 4" by (simp_all add: k div_less_iff_less_mult)
    with 4 show ?thesis by (simp add: utf8_lead_def utf8_start_num_def skip_num_def)
  next
    case 5 then have "k = 6" "n div 1073741824 < 2" by (simp_all add: k div_less_iff_less_mult)
    with 5 show ?thesis by (simp add: utf8_lead_def utf8_start_num_def skip_num_def)
  next
    case 6 then have "k = 7" by (simp add: k)
    with 6 show ?thesis by (simp add: utf8_lead_def utf8_start_num_def skip_num_def)
  next
    case 7 then have "k = 13" by (simp add: k)
    with 7 show ?thesis by (simp add: utf8_lead_def utf8_start_num_def skip_num_def top)
  qed
  then show "utf8_start_num (utf8_lead k n) = (k, n div 2 ^ (6 * (k - 1)))" "192 \<le> utf8_lead k n"
    "skip_num (utf8_lead k n) = k" "254 \<le> utf8_lead k n \<longleftrightarrow> 2 ^ 31 \<le> n"
    by simp_all
qed

section \<open>Decoding an encoding\<close>

lemma utf8n_loop_run:
  "cont_run (rd buf) s m n \<Longrightarrow> n < 2 ^ 64 \<Longrightarrow> unat ouv = n div 2 ^ (6 * m) \<Longrightarrow>
   el = 13 \<or> m = 0 \<or> 0 < n div 2 ^ (6 * (m - 1)) \<Longrightarrow>
   utf8n_loop buf flags sb el s m ouv = Inr (of_nat n)"
proof (induction m arbitrary: s ouv)
  case 0
  then show ?case by (simp add: word_unat_eq_iff unat_of_nat_less)
next
  case (Suc m)
  let ?uv = "UTF8_ACCUMULATE ouv (rd buf s)"
  from Suc have acc: "unat ?uv = n div 2 ^ (6 * m)" and run: "cont_run (rd buf) (Suc s) m n"
    by (simp_all only: accumulate_run cont_run_Suc)
  have next': "el = 13 \<or> m = 0 \<or> 0 < n div 2 ^ (6 * (m - 1))"
    using Suc.prems(4) run_step_le[of n "m - 1"] by (cases m) auto
  have up: "?uv > ouv \<or> ?uv = ouv \<and> el = 13"
  proof (cases "0 < n div 2 ^ (6 * m)")
    case True
    from run_step_less[OF this] show ?thesis using Suc.prems(3) acc by (simp add: word_less_nat_alt)
  next
    case False
    then have "unat ?uv = 0" "unat ouv = 0" using run_step_le[of n m] Suc.prems(3) acc by simp_all
    moreover have "el = 13" using Suc.prems(4) False by simp
    ultimately show ?thesis by (simp add: word_unat_eq_iff)
  qed
  then show ?case
    using Suc.IH[OF run Suc.prems(2) acc next'] cont_run_byte[OF Suc.prems(1), of 0] by auto
qed

lemma rd_drop: "rd (drop s buf) i = rd buf (s + i)"
  by (simp add: rd_def less_diff_conv add.commute)

lemma UNISKIP_ge_2: "\<not> UNI_IS_INVARIANT uv \<Longrightarrow> 2 \<le> UNISKIP uv"
  by (simp add: UNISKIP_def UNI_IS_INVARIANT_def)

lemma UNISKIP_progress:
  assumes "\<not> UNI_IS_INVARIANT uv"
  shows "UNISKIP uv = 13 \<or> 0 < unat uv div 2 ^ (6 * (UNISKIP uv - 1 - 1))"
  using assms unfolding UNISKIP_num Let_def UNI_IS_INVARIANT_def word_less_nat_alt
  by (auto simp: div_greater_zero_iff split: if_splits)

lemma reads_enc_invariant:
  "UNI_IS_INVARIANT uv \<Longrightarrow> reads p (enc uv) \<longleftrightarrow> unat (p 0) = unat uv"
  by (simp add: enc_invariant reads_def word_unat_eq_iff unat_ucast8 UNI_IS_INVARIANT_def word_less_nat_alt)

lemma decode_enc:
  assumes r: "reads (\<lambda>i. rd buf (s + i)) (enc uv)" and len: "UNISKIP uv \<le> curlen"
    and fl: "2 ^ 31 \<le> uv \<Longrightarrow> has_flag flags UTF8_ALLOW_FE_FF"
      "UNICODE_IS_SURROGATE uv \<Longrightarrow> has_flag flags UTF8_ALLOW_SURROGATE"
      "UNICODE_IS_ILLEGAL uv \<Longrightarrow> has_flag flags UTF8_ALLOW_FFFF"
  shows "utf8n_to_uvuni wd buf s curlen flags = (uv, UNISKIP uv, None)"
proof (cases "UNI_IS_INVARIANT uv")
  case True
  then have c: "unat (rd buf s) = unat uv" using r by (simp add: reads_enc_invariant)
  then have "ucast (rd buf s) = uv" by (simp add: word_unat_eq_iff)
  moreover have "UTF8_IS_INVARIANT (rd buf s)"
    using c True by (simp add: UTF8_IS_INVARIANT_def UNI_IS_INVARIANT_def word_less_nat_alt)
  moreover have "UNISKIP uv = 1" using True by (simp add: UNISKIP_def UNI_IS_INVARIANT_def)
  ultimately show ?thesis using len by (simp add: utf8n_to_uvuni_def Let_def)
next
  case False
  let ?c = "rd buf s" and ?n = "unat uv" and ?k = "UNISKIP uv"
  have c: "unat ?c = utf8_lead ?k ?n" and run: "cont_run (\<lambda>i. rd buf (s + i)) 1 (?k - 1) ?n"
    using r reads_enc_iff[OF False] by simp_all
  note lead = utf8_start_num_lead[OF False]
  have k: "2 \<le> ?k" using UNISKIP_ge_2[OF False] .
  have start: "utf8_start (ucast ?c) = (?k, of_nat (?n div 2 ^ (6 * (?k - 1))))"
    using utf8_start_eq[of ?c] lead(1,2) c by simp
  have "cont_run (rd (drop s buf)) 1 (?k - 1) ?n" using run by (simp add: cont_run_def rd_drop)
  moreover have "?n div 2 ^ (6 * (?k - 1)) < 2 ^ 64"
    by (rule order_le_less_trans[OF div_le_dividend]) simp
  ultimately have "utf8n_loop (drop s buf) flags (ucast ?c) ?k 1 (?k - 1)
      (of_nat (?n div 2 ^ (6 * (?k - 1)))) = Inr (of_nat ?n)"
    using UNISKIP_progress[OF False] by (intro utf8n_loop_run) (auto simp: unat_of_nat_less)
  then have loop: "utf8n_loop (drop s buf) flags (ucast ?c) ?k 1 (?k - 1)
      (of_nat (?n div 2 ^ (6 * (?k - 1)))) = Inr uv"
    by simp
  have inv: "\<not> UTF8_IS_INVARIANT ?c" "\<not> UTF8_IS_CONTINUATION ?c"
    using lead(2) c by (simp_all add: byte_num)
  have cont: "UTF8_IS_CONTINUATION (rd buf (s + 1))"
    using cont_run_byte[OF run, of 0] k by simp
  have fe: "(ucast ?c = (0xfe :: uv) \<or> ucast ?c = (0xff :: uv)) \<longleftrightarrow> 2 ^ 31 \<le> uv"
  proof -
    have "(ucast ?c = (0xfe :: uv) \<or> ucast ?c = (0xff :: uv)) \<longleftrightarrow> unat ?c = 254 \<or> unat ?c = 255"
      by (simp add: word_unat_eq_iff)
    also have "\<dots> \<longleftrightarrow> 254 \<le> unat ?c" using unat_u8_less[of ?c] by linarith
    also have "\<dots> \<longleftrightarrow> 2 ^ 31 \<le> uv" using lead(4) c by (simp add: word_le_nat_alt)
    finally show ?thesis .
  qed
  show ?thesis
    using len k fl fe start loop inv cont
    by (auto simp: utf8n_to_uvuni_def Let_def)
qed

end
