(* ===== verification/Utf8_String.thy ===== *)
theory Utf8_String
  imports Utf8_Codec
begin

text \<open>
  What the UTF-8 routines of \<open>Utf8_Codec\<close> promise: decoding gives back what was encoded, the
  character and string tests accept exactly the encodings of a set of code points, and counting
  and hopping move over whole characters.
\<close>

section \<open>One character\<close>

text \<open>
  C7: what \<open>uvuni_to_utf8_flags\<close> writes for any 64-bit code point is \<open>UNISKIP\<close> bytes long and
  \<open>utf8n_to_uvuni\<close> reads it back, wherever it is in a buffer, if the flags allow what the code
  point needs: \<open>UTF8_ALLOW_FE_FF\<close> from \<open>2 ^ 31\<close> on, and the allowance for surrogates and for
  U+FFFF.
\<close>

theorem utf8_encode_decode:
  assumes "UNISKIP uv \<le> curlen"
    and "2 ^ 31 \<le> uv \<Longrightarrow> has_flag flags UTF8_ALLOW_FE_FF"
    and "UNICODE_IS_SURROGATE uv \<Longrightarrow> has_flag flags UTF8_ALLOW_SURROGATE"
    and "UNICODE_IS_ILLEGAL uv \<Longrightarrow> has_flag flags UTF8_ALLOW_FFFF"
  shows "length (fst (uvuni_to_utf8_flags w uv fl)) = UNISKIP uv \<and>
    utf8n_to_uvuni wd (pre @ fst (uvuni_to_utf8_flags w uv fl) @ post) (length pre) curlen flags =
      (uv, UNISKIP uv, None)"
proof
  show "length (fst (uvuni_to_utf8_flags w uv fl)) = UNISKIP uv"
    by (simp add: length_enc flip: enc_eq)
  have "reads (\<lambda>i. rd (pre @ enc uv @ post) (length pre + i)) (enc uv)"
    by (simp add: reads_def rd_def nth_append)
  from decode_enc[OF this assms] show
    "utf8n_to_uvuni wd (pre @ fst (uvuni_to_utf8_flags w uv fl) @ post) (length pre) curlen flags =
      (uv, UNISKIP uv, None)"
    by (simp flip: enc_eq)
qed

theorem utf8_encode_decode_witness:
  "length (fst (uvuni_to_utf8_flags True (- 1) 0)) = 13 \<and>
   utf8n_to_uvuni True ([65] @ fst (uvuni_to_utf8_flags True (- 1) 0) @ []) 1 13 UTF8_ALLOW_FE_FF =
     (- 1, 13, None)"
proof -
  have "UNISKIP (- 1) = 13" by code_simp
  moreover have "\<not> (- 1 :: uv) \<le> 57343" by (simp add: word_le_nat_alt)
  ultimately show ?thesis
    using utf8_encode_decode[of "- 1" 13 UTF8_ALLOW_FE_FF True 0 True "[65]" "[]"]
    by (simp add: has_flag_def utf8_flags UNICODE_IS_SURROGATE_def UNICODE_IS_ILLEGAL_def)
qed

text \<open>The code points whose encoding the character tests accept.\<close>

definition perl_utf8 :: "uv \<Rightarrow> bool" where
  "perl_utf8 uv \<longleftrightarrow> uv < 0x80000000 \<and> \<not> (0x140000 \<le> uv \<and> uv < 0x200000)"

lemma reads_enc_skip: "reads p (enc uv) \<Longrightarrow> UTF8SKIP (p 0) = UNISKIP uv"
proof (cases "UNI_IS_INVARIANT uv")
  case True
  then have "UNISKIP uv = 1" "unat uv < 128"
    by (simp_all add: UNISKIP_def UNI_IS_INVARIANT_def word_less_nat_alt)
  then show "reads p (enc uv) \<Longrightarrow> ?thesis"
    using True by (simp add: reads_enc_invariant UTF8SKIP_num skip_num_def)
next
  case False
  from utf8_start_num_lead[OF False] show "reads p (enc uv) \<Longrightarrow> ?thesis"
    using reads_enc_iff[OF False] by (simp add: UTF8SKIP_num)
qed

lemma unat_mask_start: "unat (c AND ucast (UTF_START_MASK len)) = unat (c :: u8) mod (if len = 5 then 4 else 2)"
  if "len = 5 \<or> len = 6"
  using that
  by (auto simp: UTF_START_MASK_def and_mask_mod)

lemma slow_loop_cont: "slow_loop p s m ouv = Some uv \<Longrightarrow> i < m \<Longrightarrow> UTF8_IS_CONTINUATION (p (s + i))"
proof (induction m arbitrary: s ouv i)
  case (Suc m)
  then have "UTF8_IS_CONTINUATION (p s)" "slow_loop p (Suc s) m (UTF8_ACCUMULATE ouv (p s)) = Some uv"
    by (auto simp: Let_def split: if_splits)
  with Suc.IH[of "Suc s" _ "i - 1"] Suc.prems(2) show ?case by (cases i) simp_all
qed simp

lemma slow_on_enc:
  assumes r: "reads p (enc uv)" and k: "UNISKIP uv = 5 \<or> UNISKIP uv = 6"
  shows "is_utf8_char_slow p (UNISKIP uv) = UNISKIP uv"
proof -
  let ?k = "UNISKIP uv" and ?n = "unat uv"
  have F: "\<not> UNI_IS_INVARIANT uv" using k by (auto simp: UNISKIP_def UNI_IS_INVARIANT_def)
  from r have c: "unat (p 0) = utf8_lead ?k ?n" and run: "cont_run p 1 (?k - 1) ?n"
    by (simp_all add: reads_enc_iff[OF F])
  have n: "?n < 2 ^ 31" using k by (auto simp: UNISKIP_num Let_def split: if_splits)
  have small: "?n div 2 ^ (6 * (?k - 1)) < (if ?k = 5 then 4 else 2)"
    using k by (auto simp: UNISKIP_num Let_def div_less_iff_less_mult split: if_splits)
  have "unat (p 0 AND ucast (UTF_START_MASK ?k)) = ?n div 2 ^ (6 * (?k - 1))"
    unfolding unat_mask_start[OF k] c using k small mult_add_div[of "?n div 2 ^ 24" 4 62]
      mult_add_div[of "?n div 2 ^ 30" 2 126]
    by (auto simp: utf8_lead_def)
  then have "slow_loop p 1 (?k - 1) (ucast (p 0 AND ucast (UTF_START_MASK ?k))) = Some (of_nat ?n)"
    by (intro slow_loop_run[OF run]) simp_all
  moreover have "UTF8_IS_START (p 0)" "\<not> UTF8_IS_INVARIANT (p 0)"
    using utf8_start_num_lead(2,4)[OF F] n c by (simp_all add: byte_num)
  moreover have "UTF8_IS_CONTINUATION (p 1)" using cont_run_byte[OF run, of 0] k by auto
  ultimately show ?thesis using k by (auto simp: is_utf8_char_slow_def)
qed

lemma cont_run_short:
  "cont_run p 1 1 n \<longleftrightarrow> unat (p 1) = 128 + n mod 64"
  "cont_run p 1 2 n \<longleftrightarrow> unat (p 1) = 128 + n div 64 mod 64 \<and> unat (p 2) = 128 + n mod 64"
  "cont_run p 1 3 n \<longleftrightarrow> unat (p 1) = 128 + n div 4096 mod 64 \<and> unat (p 2) = 128 + n div 64 mod 64 \<and>
     unat (p 3) = 128 + n mod 64"
proof -
  have s: "(2::nat) = Suc 1" "(3::nat) = Suc 2" by simp_all
  show 1: "cont_run p 1 1 n \<longleftrightarrow> unat (p 1) = 128 + n mod 64" for n
    by (simp add: cont_run_def)
  show 2: "cont_run p 1 2 n \<longleftrightarrow> unat (p 1) = 128 + n div 64 mod 64 \<and> unat (p 2) = 128 + n mod 64" for n
    by (subst s(1), subst cont_run_snoc) (simp add: 1 del: One_nat_def)
  show "cont_run p 1 3 n \<longleftrightarrow> unat (p 1) = 128 + n div 4096 mod 64 \<and> unat (p 2) = 128 + n div 64 mod 64 \<and>
     unat (p 3) = 128 + n mod 64"
    by (subst s(2), subst cont_run_snoc) (simp add: 2 div_mult2_eq[symmetric] del: One_nat_def)
qed

lemma fast_on_enc:
  assumes r: "reads p (enc uv)" and k: "UNISKIP uv \<le> 4"
  shows "IS_UTF8_CHAR p (UNISKIP uv) \<longleftrightarrow> perl_utf8 uv"
proof (cases "UNI_IS_INVARIANT uv")
  case True
  then have "UNISKIP uv = 1" "unat (p 0) < 128" "unat uv < 128"
    using r by (simp_all add: reads_enc_invariant UNISKIP_def UNI_IS_INVARIANT_def word_less_nat_alt)
  then show ?thesis by (simp add: IS_UTF8_CHAR_def IS_UTF8_CHAR_1_def perl_utf8_def byte_num)
next
  case False
  let ?k = "UNISKIP uv"
  define n where "n = unat uv"
  from r have c: "unat (p 0) = utf8_lead ?k n" and run: "cont_run p 1 (?k - 1) n"
    by (simp_all add: reads_enc_iff[OF False] n_def)
  have n: "\<not> n < 128" using False by (simp add: UNI_IS_INVARIANT_def word_less_nat_alt n_def)
  consider "?k = 2" "n < 2 ^ 11" | "?k = 3" "\<not> n < 2 ^ 11" "n < 2 ^ 16" | "?k = 4" "\<not> n < 2 ^ 16" "n < 2 ^ 21"
    using k n by (auto simp: UNISKIP_num Let_def n_def split: if_splits)
  then show ?thesis
  proof cases
    case 1
    then have b: "unat (p 0) = 192 + n div 64" "unat (p 1) = 128 + n mod 64"
      using c run cont_run_short(1)[of p n] by (simp_all add: utf8_lead_def)
    moreover have "2 \<le> n div 64" "n div 64 < 32" "n mod 64 < 64"
      using 1 n by (simp_all add: div_le_mono[of 128 n 64, simplified] div_less_iff_less_mult)
    ultimately show ?thesis using 1
      by (simp add: IS_UTF8_CHAR_def IS_UTF8_CHAR_2_def perl_utf8_def byte_num n_def[symmetric])
  next
    case 2
    then have b: "unat (p 0) = 224 + n div 4096" "unat (p 1) = 128 + n div 64 mod 64" "unat (p 2) = 128 + n mod 64"
      using c run cont_run_short[of p n] by (simp_all add: utf8_lead_def)
    define x y z where "x = n div 4096" and "y = n div 64 mod 64" and "z = n mod 64"
    have x: "x < 16" "y < 64" "z < 64" using 2 by (simp_all add: x_def y_def z_def div_less_iff_less_mult)
    have "x = 0 \<Longrightarrow> 32 \<le> y"
    proof -
      assume "x = 0"
      then have "n < 4096" by (simp add: x_def)
      then have "n div 64 < 64" "32 \<le> n div 64"
        using 2 div_le_mono[of 2048 n 64] by (simp_all add: div_less_iff_less_mult)
      then show "32 \<le> y" by (simp add: y_def)
    qed
    moreover have "perl_utf8 uv" using 2 by (simp add: perl_utf8_def byte_num n_def[symmetric])
    moreover have "IS_UTF8_CHAR p 3 \<longleftrightarrow> x = 0 \<and> 32 \<le> y \<or> 1 \<le> x"
      using x b unfolding x_def[symmetric] y_def[symmetric] z_def[symmetric]
      by (auto simp: IS_UTF8_CHAR_def IS_UTF8_CHAR_3_def byte_num word_unat_eq_iff)
    ultimately show ?thesis using 2 by auto
  next
    case 3
    then have b: "unat (p 0) = 240 + n div 262144" "unat (p 1) = 128 + n div 4096 mod 64"
      "unat (p 2) = 128 + n div 64 mod 64" "unat (p 3) = 128 + n mod 64"
      using c run cont_run_short[of p n] by (simp_all add: utf8_lead_def)
    define x y z u where "x = n div 262144" and "y = n div 4096 mod 64" and "z = n div 64 mod 64"
      and "u = n mod 64"
    have x: "x < 8" "y < 64" "z < 64" "u < 64"
      using 3 by (simp_all add: x_def y_def z_def u_def div_less_iff_less_mult)
    have "x = 0 \<Longrightarrow> 16 \<le> y"
    proof -
      assume "x = 0"
      then have "n < 262144" by (simp add: x_def)
      then have "n div 4096 < 64" "16 \<le> n div 4096"
        using 3 div_le_mono[of 65536 n 4096] by (simp_all add: div_less_iff_less_mult)
      then show "16 \<le> y" by (simp add: y_def)
    qed
    moreover have "perl_utf8 uv \<longleftrightarrow> x < 5"
      using 3 by (simp add: perl_utf8_def byte_num n_def[symmetric] x_def div_less_iff_less_mult not_le)
    moreover have "IS_UTF8_CHAR p 4 \<longleftrightarrow> x = 0 \<and> 16 \<le> y \<or> 1 \<le> x \<and> x < 5"
      using x b unfolding x_def[symmetric] y_def[symmetric] z_def[symmetric] u_def[symmetric]
      by (auto simp: IS_UTF8_CHAR_def IS_UTF8_CHAR_4_def byte_num word_unat_eq_iff)
    ultimately show ?thesis using 3 by auto
  qed
qed

lemma string_step_enc:
  assumes r: "reads p (enc uv)"
  shows "string_step p = (if perl_utf8 uv then UNISKIP uv else 0)"
    "is_utf8_char p = (if perl_utf8 uv then UNISKIP uv else 0)"
proof -
  have skip: "UTF8SKIP (p 0) = UNISKIP uv" using reads_enc_skip[OF r] .
  have "UNISKIP uv \<le> 4 \<or> UNISKIP uv = 5 \<or> UNISKIP uv = 6 \<or> UNISKIP uv = 7 \<or> UNISKIP uv = 13"
    by (simp add: UNISKIP_def)
  then consider "UNI_IS_INVARIANT uv" | "\<not> UNI_IS_INVARIANT uv" "UNISKIP uv \<le> 4"
    | "UNISKIP uv = 5 \<or> UNISKIP uv = 6" | "UNISKIP uv = 7 \<or> UNISKIP uv = 13"
    by blast
  then have "string_step p = (if perl_utf8 uv then UNISKIP uv else 0) \<and>
    is_utf8_char p = (if perl_utf8 uv then UNISKIP uv else 0)"
  proof cases
    case 1
    then have k: "UNISKIP uv = 1" "perl_utf8 uv" "UTF8_IS_INVARIANT (p 0)"
      using r by (auto simp: reads_enc_invariant UNISKIP_def UNI_IS_INVARIANT_def perl_utf8_def byte_num)
    with fast_on_enc[OF r] skip show ?thesis
      by (simp add: string_step_def is_utf8_char_def)
  next
    case 2
    then have "unat uv < 2 ^ 31" by (auto simp: UNISKIP_num Let_def split: if_splits)
    then have "UTF8_IS_START (p 0)" "\<not> UTF8_IS_INVARIANT (p 0)"
      using r utf8_start_num_lead(2,4)[OF 2(1)] by (simp_all add: reads_enc_iff[OF 2(1)] byte_num)
    with fast_on_enc[OF r 2(2)] skip 2(2) show ?thesis
      by (simp add: string_step_def is_utf8_char_def)
  next
    case 3
    then have F: "\<not> UNI_IS_INVARIANT uv" and n: "unat uv < 2 ^ 31" "2 ^ 21 \<le> unat uv"
      by (auto simp: UNISKIP_num Let_def UNI_IS_INVARIANT_def word_less_nat_alt split: if_splits)
    then have "UTF8_IS_START (p 0)" "\<not> UTF8_IS_INVARIANT (p 0)" "perl_utf8 uv"
      using r utf8_start_num_lead(2,4)[OF F] by (simp_all add: reads_enc_iff[OF F] byte_num perl_utf8_def)
    with slow_on_enc[OF r 3] skip 3 show ?thesis
      by (auto simp: string_step_def is_utf8_char_def)
  next
    case 4
    then have F: "\<not> UNI_IS_INVARIANT uv" and n: "2 ^ 31 \<le> unat uv"
      by (auto simp: UNISKIP_num Let_def UNI_IS_INVARIANT_def word_less_nat_alt split: if_splits)
    then have "\<not> UTF8_IS_START (p 0)" "\<not> UTF8_IS_INVARIANT (p 0)" "\<not> perl_utf8 uv"
      using r utf8_start_num_lead(2,4)[OF F] by (simp_all add: reads_enc_iff[OF F] byte_num perl_utf8_def)
    with skip 4 show ?thesis
      by (auto simp: string_step_def is_utf8_char_def is_utf8_char_slow_def)
  qed
  then show "string_step p = (if perl_utf8 uv then UNISKIP uv else 0)"
    "is_utf8_char p = (if perl_utf8 uv then UNISKIP uv else 0)"
    by simp_all
qed

text \<open>What the tests accept is the encoding of an acceptable code point.\<close>

lemma reads_encI:
  assumes "cont_run p 1 (k - 1) n" "unat (p 0) = utf8_lead k n" "UNISKIP (of_nat n) = k"
    "n < 2 ^ 64" "0x80 \<le> n"
  shows "\<exists>uv. unat uv = n \<and> reads p (enc uv) \<and> UNISKIP uv = k"
  using assms
  by (intro exI[of _ "of_nat n"], subst reads_enc_iff)
    (simp_all add: UNI_IS_INVARIANT_def word_less_nat_alt unat_of_nat_less)

lemma cont_run_top:
  assumes "\<And>i. i < m \<Longrightarrow> UTF8_IS_CONTINUATION (p (1 + i))"
  obtains n where "cont_run p 1 m n" "n div 2 ^ (6 * m) = a" "a * 2 ^ (6 * m) \<le> n"
    "n < (a + 1) * 2 ^ (6 * m)"
proof -
  obtain n where n: "cont_run p 1 m n" "n div 2 ^ (6 * m) = a"
    using cont_run_exists[of m p 1 a] assms by auto
  have "n = a * 2 ^ (6 * m) + n mod 2 ^ (6 * m)" using div_mult_mod_eq[of n "2 ^ (6 * m)"] n(2) by simp
  moreover have "n mod 2 ^ (6 * m) < 2 ^ (6 * m)" by simp
  ultimately have "a * 2 ^ (6 * m) \<le> n" "n < (a + 1) * 2 ^ (6 * m)"
    unfolding distrib_right by linarith+
  with n that show thesis by blast
qed

lemma fast_sound:
  assumes skip: "UTF8SKIP (p 0) = k" "k \<le> 4" and ok: "IS_UTF8_CHAR p k" and b: "192 \<le> unat (p 0)"
  shows "\<exists>uv. perl_utf8 uv \<and> reads p (enc uv) \<and> UNISKIP uv = k"
proof -
  consider "k = 2" "unat (p 0) < 224" | "k = 3" "224 \<le> unat (p 0)" "unat (p 0) < 240"
    | "k = 4" "240 \<le> unat (p 0)" "unat (p 0) < 248"
    using skip b by (auto simp: UTF8SKIP_num skip_num_def split: if_splits)
  then show ?thesis
  proof cases
    case 1
    then have b: "194 \<le> unat (p 0)" "UTF8_IS_CONTINUATION (p 1)"
      using ok by (simp_all add: IS_UTF8_CHAR_def IS_UTF8_CHAR_2_def byte_num)
    obtain n where n: "cont_run p 1 1 n" "n div 2 ^ (6 * 1) = unat (p 0) - 192"
      "(unat (p 0) - 192) * 2 ^ (6 * 1) \<le> n" "n < (unat (p 0) - 192 + 1) * 2 ^ (6 * 1)"
      using cont_run_top[of 1 p "unat (p 0) - 192"] b by auto
    have "128 \<le> n" "n < 2048" using n(3,4) b 1 by simp_all
    with n 1 b obtain uv where "unat uv = n" "reads p (enc uv)" "UNISKIP uv = 2"
      using reads_encI[of p 2 n] by (auto simp: UNISKIP_num unat_of_nat_less utf8_lead_def)
    with \<open>n < 2048\<close> 1 show ?thesis by (intro exI[of _ uv]) (simp add: perl_utf8_def byte_num)
  next
    case 2
    then have b: "UTF8_IS_CONTINUATION (p 1)" "UTF8_IS_CONTINUATION (p 2)"
      "unat (p 0) = 224 \<Longrightarrow> 160 \<le> unat (p 1)"
      using ok by (auto simp: IS_UTF8_CHAR_def IS_UTF8_CHAR_3_def byte_num word_unat_eq_iff)
    have c: "UTF8_IS_CONTINUATION (p (1 + i))" if "i < 2" for i
    proof -
      from that consider "i = 0" | "i = 1" by linarith
      then show ?thesis using b(1,2) by cases (simp_all del: One_nat_def)
    qed
    obtain n where n: "cont_run p 1 2 n" "n div 2 ^ (6 * 2) = unat (p 0) - 224"
      "(unat (p 0) - 224) * 2 ^ (6 * 2) \<le> n" "n < (unat (p 0) - 224 + 1) * 2 ^ (6 * 2)"
      using cont_run_top[of 2 p "unat (p 0) - 224", OF c] by blast
    have "2048 \<le> n"
    proof (cases "unat (p 0) = 224")
      case True
      then have "32 \<le> n div 64 mod 64" using b(3) n(1) cont_run_short(2)[of p n] by simp
      then have "32 \<le> n div 64" by (rule order_trans) simp
      then show ?thesis by (simp add: less_eq_div_iff_mult_less_eq)
    qed (use n(3) 2 in simp)
    moreover have "n < 65536" using n(4) 2 by simp
    moreover from calculation n 2 obtain uv where "unat uv = n" "reads p (enc uv)" "UNISKIP uv = 3"
      using reads_encI[of p 3 n] by (auto simp: UNISKIP_num unat_of_nat_less utf8_lead_def)
    ultimately show ?thesis using 2 by (intro exI[of _ uv]) (simp add: perl_utf8_def byte_num)
  next
    case 3
    then have b: "UTF8_IS_CONTINUATION (p 1)" "UTF8_IS_CONTINUATION (p 2)" "UTF8_IS_CONTINUATION (p 3)"
      "unat (p 0) = 240 \<Longrightarrow> 144 \<le> unat (p 1)" "unat (p 0) \<le> 244"
      using ok by (auto simp: IS_UTF8_CHAR_def IS_UTF8_CHAR_4_def byte_num word_unat_eq_iff)
    have c: "UTF8_IS_CONTINUATION (p (1 + i))" if "i < 3" for i
    proof -
      from that consider "i = 0" | "i = 1" | "i = 2" by linarith
      then show ?thesis using b(1-3) by cases (simp_all del: One_nat_def)
    qed
    obtain n where n: "cont_run p 1 3 n" "n div 2 ^ (6 * 3) = unat (p 0) - 240"
      "(unat (p 0) - 240) * 2 ^ (6 * 3) \<le> n" "n < (unat (p 0) - 240 + 1) * 2 ^ (6 * 3)"
      using cont_run_top[of 3 p "unat (p 0) - 240", OF c] by blast
    have "65536 \<le> n"
    proof (cases "unat (p 0) = 240")
      case True
      then have "16 \<le> n div 4096 mod 64" using b(4) n(1) cont_run_short(3)[of p n] by simp
      then have "16 \<le> n div 4096" by (rule order_trans) simp
      then show ?thesis by (simp add: less_eq_div_iff_mult_less_eq)
    qed (use n(3) 3 in simp)
    moreover have "n < 1310720" using n(4) 3 b(5) by simp
    moreover from calculation n 3 obtain uv where "unat uv = n" "reads p (enc uv)" "UNISKIP uv = 4"
      using reads_encI[of p 4 n] by (auto simp: UNISKIP_num unat_of_nat_less utf8_lead_def)
    ultimately show ?thesis using 3 by (intro exI[of _ uv]) (simp add: perl_utf8_def byte_num)
  qed
qed

lemma slow_sound:
  assumes skip: "UTF8SKIP (p 0) = k" "\<not> k \<le> 4" and st: "UTF8_IS_START (p 0)"
    and ok: "is_utf8_char_slow p k \<noteq> 0"
  shows "is_utf8_char_slow p k = k \<and> (\<exists>uv. perl_utf8 uv \<and> reads p (enc uv) \<and> UNISKIP uv = k)"
proof -
  have k: "k = 5 \<and> 248 \<le> unat (p 0) \<and> unat (p 0) < 252 \<or> k = 6 \<and> 252 \<le> unat (p 0) \<and> unat (p 0) < 254"
    using skip st by (auto simp: UTF8SKIP_num skip_num_def byte_num split: if_splits)
  then have k56: "k = 5 \<or> k = 6" and inv: "\<not> UTF8_IS_INVARIANT (p 0)" by (auto simp: byte_num)
  let ?a = "ucast (p 0 AND ucast (UTF_START_MASK k)) :: uv"
  obtain uv where uv: "slow_loop p 1 (k - 1) ?a = Some uv" "k \<le> UNISKIP uv"
    and res: "is_utf8_char_slow p k = k"
    using ok st inv by (auto simp: is_utf8_char_slow_def split: option.splits if_splits)
  obtain n where n: "cont_run p 1 (k - 1) n" "n div 2 ^ (6 * (k - 1)) = unat ?a"
    "n < (unat ?a + 1) * 2 ^ (6 * (k - 1))"
    using cont_run_top[of "k - 1" p "unat ?a"] slow_loop_cont[OF uv(1)] by blast
  have a: "unat ?a = unat (p 0) - (if k = 5 then 248 else 252)"
    using k unat_mask_start[OF k56, of "p 0"] mult_add_div[of "unat (p 0) - 248" 4 62]
      mult_add_div[of "unat (p 0) - 252" 2 126] by auto
  have small: "n < (if k = 5 then 2 ^ 26 else 2 ^ 31)"
    using n(3) a k by (auto split: if_splits)
  then have n64: "n < 2 ^ 64" by (auto split: if_splits)
  have eq: "uv = of_nat n" using slow_loop_run[OF n(1) n64, of ?a] n(2) uv(1) by simp
  have big: "2 ^ 21 \<le> n" "k = 6 \<Longrightarrow> 2 ^ 26 \<le> n"
    using uv(2) k56 n64 by (auto simp: eq UNISKIP_num unat_of_nat_less Let_def split: if_splits)
  obtain uv' where uv': "unat uv' = n" "reads p (enc uv')" "UNISKIP uv' = k"
    using reads_encI[of p k n] n(1,2) a k small big n64
    by (auto simp: UNISKIP_num unat_of_nat_less utf8_lead_def Let_def split: if_splits)
  moreover have "perl_utf8 uv'"
    using small big(1) uv'(1) by (auto simp: perl_utf8_def byte_num split: if_splits)
  ultimately show ?thesis using res by blast
qed

lemma string_step_sound:
  assumes "string_step p \<noteq> 0"
  shows "\<exists>uv. perl_utf8 uv \<and> reads p (enc uv) \<and> string_step p = UNISKIP uv"
proof (cases "UTF8_IS_INVARIANT (p 0)")
  case True
  let ?uv = "ucast (p 0) :: uv"
  have "unat ?uv < 128" using True by (simp add: byte_num)
  then have "UNI_IS_INVARIANT ?uv" "UNISKIP ?uv = 1" "perl_utf8 ?uv"
    by (simp_all add: UNI_IS_INVARIANT_def UNISKIP_def perl_utf8_def word_less_nat_alt word_le_nat_alt)
  with True show ?thesis
    by (intro exI[of _ ?uv]) (simp add: reads_enc_invariant string_step_def)
next
  case False
  then have st: "UTF8_IS_START (p 0)" using assms by (cases "UTF8_IS_START (p 0)") (simp_all add: string_step_def)
  then have b: "192 \<le> unat (p 0)" by (simp add: byte_num)
  show ?thesis
  proof (cases "UTF8SKIP (p 0) \<le> 4")
    case True
    then have "IS_UTF8_CHAR p (UTF8SKIP (p 0))" "string_step p = UTF8SKIP (p 0)"
      using assms False st by (auto simp: string_step_def Let_def split: if_splits)
    with fast_sound[of p, OF refl True _ b] show ?thesis by auto
  next
    case F: False
    then have "string_step p = is_utf8_char_slow p (UTF8SKIP (p 0))"
      using False st by (simp add: string_step_def Let_def)
    with slow_sound[of p, OF refl F st] assms show ?thesis by auto
  qed
qed

lemma reads_at: "reads (\<lambda>i. rd (pre @ enc uv @ post) (length pre + i)) (enc uv)"
  by (simp add: reads_def rd_def nth_append)

text \<open>
  C36: the character test on the encoding of any 64-bit code point: it gives the length of the
  encoding below \<open>2 ^ 31\<close>, and 0 from there on, but also 0 for 0x140000 to 0x1FFFFF, whose four
  bytes begin with 0xF5 to 0xF7.
\<close>

theorem is_utf8_char_encoding:
  "is_utf8_char (rd (fst (uvuni_to_utf8_flags w uv fl) @ post)) =
     (if uv < 0x80000000 \<and> \<not> (0x140000 \<le> uv \<and> uv < 0x200000) then UNISKIP uv else 0)"
  using string_step_enc(2)[OF reads_at[of "[]" uv post]] by (simp add: perl_utf8_def flip: enc_eq)

text \<open>
  Decoding is not injective on what it accepts without a warning: the thirteen bytes of a
  number that needs 65 bits are decoded as if the top bit were not there, because the overflow test
  compares each partial value with the one before it.
\<close>

theorem utf8_overflow_undetected:
  "utf8n_to_uvuni True ([0xff, 0x80, 0x98] @ replicate 10 0x80) 0 13 UTF8_ALLOW_FE_FF =
     (0x8000000000000000, 13, None) \<and>
   utf8n_to_uvuni True ([0xff, 0x80, 0x88] @ replicate 10 0x80) 0 13 UTF8_ALLOW_FE_FF =
     (0x8000000000000000, 13, None)"
  by code_simp

section \<open>Strings of characters\<close>

text \<open>The UTF-8 of a sequence of code points.\<close>

definition enc_string :: "uv list \<Rightarrow> u8 list" where
  "enc_string uvs = concat (map enc uvs)"

lemma enc_string_simps [simp]:
  "enc_string [] = []" "enc_string (uv # uvs) = enc uv @ enc_string uvs"
  "enc_string (us @ vs) = enc_string us @ enc_string vs"
  by (simp_all add: enc_string_def)

lemma UNISKIP_pos [simp]: "0 < UNISKIP uv" "UNISKIP uv \<noteq> 0"
  by (simp_all add: UNISKIP_def)

lemma enc_first: "reads p (enc uv) \<Longrightarrow> \<not> UTF8_IS_CONTINUATION (p 0)"
proof (cases "UNI_IS_INVARIANT uv")
  case True
  then show "reads p (enc uv) \<Longrightarrow> ?thesis"
    by (simp add: reads_enc_invariant byte_num UNI_IS_INVARIANT_def)
next
  case False
  then show "reads p (enc uv) \<Longrightarrow> ?thesis"
    using utf8_start_num_lead(2)[OF False] by (simp add: reads_enc_iff byte_num)
qed

lemma enc_rest: "reads p (enc uv) \<Longrightarrow> 0 < i \<Longrightarrow> i < UNISKIP uv \<Longrightarrow> UTF8_IS_CONTINUATION (p i)"
proof (cases "UNI_IS_INVARIANT uv")
  case True
  then have "UNISKIP uv = 1" by (simp add: UNISKIP_def UNI_IS_INVARIANT_def)
  then show "0 < i \<Longrightarrow> i < UNISKIP uv \<Longrightarrow> ?thesis" by simp
next
  case False
  then show "reads p (enc uv) \<Longrightarrow> 0 < i \<Longrightarrow> i < UNISKIP uv \<Longrightarrow> ?thesis"
    using cont_run_byte[of p 1 "UNISKIP uv - 1" "unat uv" "i - 1"] by (simp add: reads_enc_iff)
qed

text \<open>A character that is read from inside the buffer ends inside it.\<close>

lemma reads_inside:
  assumes r: "reads (\<lambda>i. rd buf (x + i)) (enc uv)" and x: "x < length buf"
  shows "x + UNISKIP uv \<le> length buf" "take (UNISKIP uv) (drop x buf) = enc uv"
proof -
  show le: "x + UNISKIP uv \<le> length buf"
  proof (rule ccontr)
    assume "\<not> ?thesis"
    with x have "UTF8_IS_CONTINUATION (rd buf (x + (length buf - x)))"
      by (intro enc_rest[OF r]) simp_all
    with x show False by (simp add: rd_def byte_num)
  qed
  show "take (UNISKIP uv) (drop x buf) = enc uv"
  proof (rule nth_equalityI)
    fix i assume "i < length (take (UNISKIP uv) (drop x buf))"
    with le r show "take (UNISKIP uv) (drop x buf) ! i = enc uv ! i"
      by (auto simp: reads_def rd_def length_enc)
  qed (use le in \<open>simp add: length_enc\<close>)
qed

text \<open>Where the string test stops, and what it has passed over.\<close>

definition scanned :: "u8 list \<Rightarrow> nat \<Rightarrow> nat \<Rightarrow> nat \<times> nat \<Rightarrow> bool" where
  "scanned buf x k r \<longleftrightarrow> (case r of (x', k') \<Rightarrow>
     x \<le> x' \<and> x' \<le> length buf \<and>
     (\<exists>uvs. list_all perl_utf8 uvs \<and> k' = k + length uvs \<and> take (x' - x) (drop x buf) = enc_string uvs) \<and>
     (x' < length buf \<longrightarrow> string_step (\<lambda>i. rd buf (x' + i)) = 0))"

lemma string_loop_scanned:
  "x \<le> length buf \<Longrightarrow> scanned buf x k (string_loop buf (length buf) x k)"
proof (induction buf "length buf" x k rule: string_loop.induct)
  case (1 buf x k)
  let ?p = "\<lambda>i. rd buf (x + i)"
  show ?case
  proof (cases "x < length buf \<and> string_step ?p \<noteq> 0")
    case True
    then obtain uv where uv: "perl_utf8 uv" "reads ?p (enc uv)" "string_step ?p = UNISKIP uv"
      using string_step_sound by blast
    let ?x = "x + UNISKIP uv"
    have x: "?x \<le> length buf" "take (UNISKIP uv) (drop x buf) = enc uv"
      using reads_inside[OF uv(2)] True by simp_all
    obtain x' k' where r: "string_loop buf (length buf) ?x (k + 1) = (x', k')" by force
    with 1 True uv(3) x(1) have "scanned buf ?x (k + 1) (x', k')" by simp
    then obtain uvs where uvs: "list_all perl_utf8 uvs" "k' = k + 1 + length uvs" "?x \<le> x'" "x' \<le> length buf"
      "take (x' - ?x) (drop ?x buf) = enc_string uvs"
      "x' < length buf \<longrightarrow> string_step (\<lambda>i. rd buf (x' + i)) = 0"
      by (auto simp: scanned_def)
    have "take (x' - x) (drop x buf) = enc uv @ enc_string uvs"
      using uvs(3,5) x take_add[of "UNISKIP uv" "x' - ?x" "drop x buf"] by (simp add: add.commute)
    with uvs uv(1) have "scanned buf x k (x', k')"
      by (auto simp: scanned_def intro!: exI[of _ "uv # uvs"])
    with r True uv(3) show ?thesis by (simp add: string_loop.simps[of buf _ x] Let_def)
  next
    case False
    with 1 show ?thesis
      by (auto simp: string_loop.simps[of buf _ x] scanned_def intro!: exI[of _ "[]"])
  qed
qed

lemma string_loop_enc:
  "list_all perl_utf8 uvs \<Longrightarrow>
   string_loop (pre @ enc_string uvs) (length (pre @ enc_string uvs)) (length pre) k =
     (length (pre @ enc_string uvs), k + length uvs)"
proof (induction uvs arbitrary: pre k)
  case Nil
  then show ?case by (simp add: string_loop.simps)
next
  case (Cons uv uvs)
  let ?b = "pre @ enc uv @ enc_string uvs"
  have "string_step (\<lambda>i. rd ?b (length pre + i)) = UNISKIP uv"
    using string_step_enc(1)[OF reads_at] Cons.prems by simp
  moreover have "length pre < length ?b" using UNISKIP_pos(1)[of uv] by (simp add: length_enc)
  ultimately have "string_loop ?b (length ?b) (length pre) k =
      string_loop ?b (length ?b) (length (pre @ enc uv)) (k + 1)"
    by (simp add: string_loop.simps[of ?b _ "length pre"] Let_def length_enc)
  with Cons.IH[of "pre @ enc uv" "k + 1"] Cons.prems show ?case by simp
qed

lemma whole_buffer:
  "is_utf8_string buf (length buf) \<longleftrightarrow> fst (string_loop buf (length buf) 0 0) = length buf"
  "is_utf8_string_loclen buf (length buf) =
     (case string_loop buf (length buf) 0 0 of (x, n) \<Rightarrow> (x = length buf, x, n))"
  by (cases "buf = []", simp_all add: is_utf8_string_def is_utf8_string_loclen_def strlen_def Let_def)+

text \<open>
  C20: \<open>is_utf8_string\<close> accepts a whole buffer if and only if it is the concatenation of encodings of
  code points below \<open>2 ^ 31\<close> outside 0x140000 to 0x1FFFFF (which the fast test misses).
\<close>

theorem is_utf8_string_iff:
  "is_utf8_string buf (length buf) \<longleftrightarrow> (\<exists>uvs. list_all perl_utf8 uvs \<and> buf = enc_string uvs)"
proof
  assume "is_utf8_string buf (length buf)"
  with string_loop_scanned[of 0 buf 0] show "\<exists>uvs. list_all perl_utf8 uvs \<and> buf = enc_string uvs"
    by (auto simp: scanned_def whole_buffer split: prod.splits)
next
  assume "\<exists>uvs. list_all perl_utf8 uvs \<and> buf = enc_string uvs"
  then obtain uvs where "list_all perl_utf8 uvs" "buf = enc_string uvs" by blast
  with string_loop_enc[of uvs "[]" 0] show "is_utf8_string buf (length buf)"
    by (simp add: whole_buffer)
qed

text \<open>
  \<open>is_utf8_string_loclen\<close> on a whole buffer: the location it gives is the end of a run of
  acceptable characters from the start, the count is their number, the result tells whether the
  run is the whole buffer, and no acceptable character begins at the location.
\<close>

theorem is_utf8_string_loclen_prefix:
  "case is_utf8_string_loclen buf (length buf) of (ok, x, n) \<Rightarrow>
     (\<exists>uvs. list_all perl_utf8 uvs \<and> length uvs = n \<and> take x buf = enc_string uvs) \<and>
     x \<le> length buf \<and> ok = (x = length buf) \<and>
     (\<nexists>uv post. perl_utf8 uv \<and> drop x buf = enc uv @ post)"
proof -
  obtain x k where r: "string_loop buf (length buf) 0 0 = (x, k)" by force
  have s: "scanned buf 0 0 (x, k)" using string_loop_scanned[of 0 buf 0] r by simp
  have "string_step (\<lambda>i. rd buf (x + i)) \<noteq> 0" if "perl_utf8 uv" "drop x buf = enc uv @ post" for uv post
  proof -
    have "x \<le> length buf" using s by (simp add: scanned_def)
    then have "buf = take x buf @ enc uv @ post" "length (take x buf) = x"
      using that(2) by (metis append_take_drop_id, simp)
    with reads_at[of "take x buf" uv post] have "reads (\<lambda>i. rd buf (x + i)) (enc uv)" by simp
    from string_step_enc(1)[OF this] that(1) UNISKIP_pos(1)[of uv] show ?thesis by simp
  qed
  then have none: "x < length buf \<Longrightarrow> \<nexists>uv post. perl_utf8 uv \<and> drop x buf = enc uv @ post"
    using s by (force simp: scanned_def)
  have "enc uv \<noteq> []" for uv using length_enc[of uv] UNISKIP_pos(1)[of uv] by auto
  with none have "\<nexists>uv post. perl_utf8 uv \<and> drop x buf = enc uv @ post"
    by (cases "x < length buf") auto
  moreover have "\<exists>uvs. list_all perl_utf8 uvs \<and> length uvs = k \<and> take x buf = enc_string uvs"
    "x \<le> length buf" using s by (auto simp: scanned_def)
  ultimately show ?thesis using r
    by (simp add: whole_buffer)
qed

section \<open>Counting and hopping\<close>

lemma utf8_length_loop_enc:
  "utf8_length_loop (pre @ enc_string uvs @ post) (length pre) (length (pre @ enc_string uvs)) k =
     (k + length uvs, False)"
proof (induction uvs arbitrary: pre k)
  case Nil
  then show ?case by (simp add: utf8_length_loop.simps)
next
  case (Cons uv uvs)
  let ?b = "pre @ enc uv @ enc_string uvs @ post"
  have "UTF8SKIP (rd ?b (length pre)) = UNISKIP uv"
    using reads_enc_skip[OF reads_at] by simp
  then have "utf8_length_loop ?b (length pre) (length (pre @ enc uv @ enc_string uvs)) k =
      utf8_length_loop ?b (length (pre @ enc uv)) (length (pre @ enc uv @ enc_string uvs)) (k + 1)"
    by (simp add: utf8_length_loop.simps[of ?b "length pre"] length_enc Let_def)
  with Cons.IH[of "pre @ enc uv" "k + 1"] show ?case by simp
qed

text \<open>The offset of the \<open>i\<close>th character.\<close>

definition char_pos :: "uv list \<Rightarrow> nat \<Rightarrow> nat" where
  "char_pos uvs i = length (enc_string (take i uvs))"

lemma split_at_char:
  "i < length uvs \<Longrightarrow>
   enc_string uvs = enc_string (take i uvs) @ enc (uvs ! i) @ enc_string (drop (Suc i) uvs)"
  by (metis Cons_nth_drop_Suc append_take_drop_id enc_string_simps(2,3))

lemma char_reads:
  "i < length uvs \<Longrightarrow> reads (\<lambda>j. rd (enc_string uvs) (char_pos uvs i + j)) (enc (uvs ! i))"
  using reads_at[of "enc_string (take i uvs)" "uvs ! i" "enc_string (drop (Suc i) uvs)"]
  by (simp add: char_pos_def split_at_char[of i uvs, symmetric])

lemma char_pos_Suc: "i < length uvs \<Longrightarrow> char_pos uvs (Suc i) = char_pos uvs i + UNISKIP (uvs ! i)"
  by (simp add: char_pos_def take_Suc_conv_app_nth length_enc)

lemma hop_forward_enc:
  "i + n \<le> length uvs \<Longrightarrow> hop_forward (enc_string uvs) (char_pos uvs i) n = char_pos uvs (i + n)"
proof (induction n arbitrary: i)
  case (Suc n)
  then have "UTF8SKIP (rd (enc_string uvs) (char_pos uvs i)) = UNISKIP (uvs ! i)"
    using reads_enc_skip[OF char_reads[of i uvs]] by simp
  with Suc.IH[of "Suc i"] Suc.prems show ?case by (simp flip: char_pos_Suc)
qed simp

lemma back_to_start_enc:
  assumes "reads (\<lambda>j. rd buf (x + j)) (enc uv)"
  shows "j < UNISKIP uv \<Longrightarrow> back_to_start buf (x + j) = Some x"
proof (induction j)
  case 0
  show ?case using enc_first[OF assms] by (cases x) simp_all
next
  case (Suc j)
  then show ?case using enc_rest[OF assms, of "Suc j"] by simp
qed

lemma hop_back_enc:
  "i + n \<le> length uvs \<Longrightarrow> hop_back (enc_string uvs) (char_pos uvs (i + n)) n = Some (char_pos uvs i)"
proof (induction n)
  case (Suc n)
  let ?j = "i + n"
  have j: "?j < length uvs" using Suc.prems by simp
  have "char_pos uvs (Suc ?j) = Suc (char_pos uvs ?j + (UNISKIP (uvs ! ?j) - 1))"
    using char_pos_Suc[OF j] by simp
  moreover have "back_to_start (enc_string uvs) (char_pos uvs ?j + (UNISKIP (uvs ! ?j) - 1)) =
      Some (char_pos uvs ?j)"
    by (rule back_to_start_enc[OF char_reads[OF j]]) simp
  ultimately show ?case using Suc by simp
qed simp

text \<open>
  C31: on the UTF-8 of any code points, \<open>utf8_length\<close> counts them without a warning,
  \<open>utf8_distance\<close> of two character offsets is the difference of their positions, and \<open>utf8_hop\<close>
  goes from the offset of one character to that of another, forwards and backwards.
\<close>

theorem utf8_count_and_hop:
  assumes "i \<le> length uvs" and "j \<le> length uvs"
  shows "utf8_length (enc_string uvs) 0 (length (enc_string uvs)) = (length uvs, False) \<and>
    utf8_distance (enc_string uvs) (char_pos uvs i) (char_pos uvs j) = int i - int j \<and>
    utf8_hop (enc_string uvs) (char_pos uvs i) (int j - int i) = Some (char_pos uvs j)"
proof -
  have len: "utf8_length (enc_string uvs) (char_pos uvs a) (char_pos uvs b) = (b - a, False) \<and>
      (a < b \<longrightarrow> char_pos uvs a < char_pos uvs b)"
    if "a \<le> b" "b \<le> length uvs" for a b
  proof -
    let ?v = "drop a (take b uvs)"
    have b: "take b uvs = take a uvs @ ?v"
      using that by (metis append_take_drop_id min.absorb1 take_take)
    have e: "enc_string uvs = enc_string (take a uvs) @ enc_string ?v @ enc_string (drop b uvs)"
      by (metis append_take_drop_id append_assoc b enc_string_simps(3))
    have p: "char_pos uvs b = length (enc_string (take a uvs) @ enc_string ?v)"
      by (simp add: char_pos_def) (metis b enc_string_simps(3) length_append)
    have "a < b \<longrightarrow> 0 < length (enc_string ?v)"
      using that by (cases ?v) (auto simp: length_enc)
    then show ?thesis
      using utf8_length_loop_enc[of "enc_string (take a uvs)" ?v "enc_string (drop b uvs)" 0] e p that
      by (simp add: utf8_length_def char_pos_def)
  qed
  have "utf8_length (enc_string uvs) 0 (length (enc_string uvs)) = (length uvs, False)"
    using len[of 0 "length uvs"] by (simp add: char_pos_def)
  moreover have "utf8_distance (enc_string uvs) (char_pos uvs i) (char_pos uvs j) = int i - int j"
    using len[of i j] len[of j i] assms by (cases "i < j") (auto simp: utf8_distance_def of_nat_diff)
  moreover have "utf8_hop (enc_string uvs) (char_pos uvs i) (int j - int i) = Some (char_pos uvs j)"
    using hop_forward_enc[of i "j - i" uvs] hop_back_enc[of j "i - j" uvs] assms
    by (cases "i \<le> j") (auto simp: utf8_hop_def nat_diff_distrib)
  ultimately show ?thesis by simp
qed

theorem utf8_count_and_hop_witness:
  "utf8_distance (enc_string [0x41, 0xe9, 0x20ac]) 1 3 = - 1 \<and>
   utf8_hop (enc_string [0x41, 0xe9, 0x20ac]) 6 (- 2) = Some 1"
proof -
  have "char_pos [0x41, 0xe9, 0x20ac] 1 = 1 \<and> char_pos [0x41, 0xe9, 0x20ac] 2 = 3 \<and>
      char_pos [0x41, 0xe9, 0x20ac] 3 = 6"
    by code_simp
  then show ?thesis
    using utf8_count_and_hop[of 1 "[0x41, 0xe9, 0x20ac]" 2] utf8_count_and_hop[of 3 "[0x41, 0xe9, 0x20ac]" 1]
    by simp
qed

end
