(* ===== verification/Utf8_Convert.thy ===== *)
theory Utf8_Convert
  imports Utf8_String
begin

text \<open>
  The conversions between byte strings, UTF-8 and UTF-16 (\<open>utf8.c\<close>): \<open>bytes_to_utf8\<close>,
  \<open>bytes_from_utf8\<close>, the in-place \<open>utf8_to_bytes\<close>, \<open>utf16_to_utf8\<close> and its byte-swapped
  variant.
\<close>

section \<open>From bytes to UTF-8\<close>

text \<open>The bytes written, and their number in \<open>*len\<close>; the terminating NUL is one more.\<close>

fun b2u_loop :: "u8 list \<Rightarrow> u8 list" where
  "b2u_loop [] = []"
| "b2u_loop (c # s) =
     (if UNI_IS_INVARIANT (ucast c) then c # b2u_loop s
      else UTF8_EIGHT_BIT_HI c # UTF8_EIGHT_BIT_LO c # b2u_loop s)"

definition bytes_to_utf8 :: "allocator \<Rightarrow> u8 list \<Rightarrow> (u8 list \<times> nat) result" where
  "bytes_to_utf8 m s =
     (if newx m (length s * 2 + 1) 1 then let d = b2u_loop s in Inr (d, length d) else Inl Out_of_memory)"

section \<open>From UTF-8 to bytes\<close>

text \<open>The checking loop: the number of two-byte characters, an \<open>I32\<close>, or \<open>None\<close> where it gives up.\<close>

function bfu_check :: "u8 list \<Rightarrow> nat \<Rightarrow> nat \<Rightarrow> int \<Rightarrow> int option" where
  "bfu_check buf send s count =
     (if s < send
      then let c = rd buf s; s = s + 1 in
        if \<not> UTF8_IS_INVARIANT c
        then if UTF8_IS_DOWNGRADEABLE_START c \<and> s < send \<and> rd buf s \<noteq> 0 \<and> UTF8_IS_CONTINUATION (rd buf s)
             then bfu_check buf send (s + 1) (to_I32 (count + 1))
             else None
        else bfu_check buf send s count
      else Some count)"
  by pat_completeness auto
termination
  by (relation "measure (\<lambda>(buf, send, s, count). send - s)") auto

function bfu_convert :: "u8 list \<Rightarrow> nat \<Rightarrow> nat \<Rightarrow> u8 list" where
  "bfu_convert buf send s =
     (if s < send
      then let c = rd buf s in
        if \<not> UTF8_IS_INVARIANT c
        then UTF8_ACCUMULATE c (rd buf (s + 1)) # bfu_convert buf send (s + 2)
        else c # bfu_convert buf send (s + 1)
      else [])"
  by pat_completeness auto
termination
  by (relation "measure (\<lambda>(buf, send, s). send - s)") auto

text \<open>
  The string returned (\<open>None\<close>: the original one), \<open>*len\<close> and \<open>*is_utf8\<close>, and the size of the
  new buffer, in which the \<open>I32\<close> counter is taken from a \<open>STRLEN\<close>.
\<close>

record bfu_out =
  bfu_string :: "u8 list option"
  bfu_len :: nat
  bfu_is_utf8 :: bool
  bfu_alloc :: nat

definition bytes_from_utf8 :: "allocator \<Rightarrow> u8 list \<Rightarrow> nat \<Rightarrow> bool \<Rightarrow> bfu_out result" where
  "bytes_from_utf8 m s len is_utf8 =
     (if \<not> is_utf8
      then Inr \<lparr>bfu_string = None, bfu_len = len, bfu_is_utf8 = is_utf8, bfu_alloc = 0\<rparr>
      else case bfu_check s len 0 0 of
        None \<Rightarrow> Inr \<lparr>bfu_string = None, bfu_len = len, bfu_is_utf8 = is_utf8, bfu_alloc = 0\<rparr>
      | Some count \<Rightarrow>
          let size = unat (of_nat len - of_int count + 1 :: uv) in
          if newx m size 1
          then let d = bfu_convert s len 0
               in Inr \<lparr>bfu_string = Some d, bfu_len = length d, bfu_is_utf8 = False, bfu_alloc = size\<rparr>
          else Inl Out_of_memory)"

declare bfu_check.simps [simp del] bfu_convert.simps [simp del]

text \<open>The in-place conversion. Its second loop always goes forward.\<close>

lemma utf8n_loop_el:
  "utf8n_loop buf flags sb el s m ouv = Inl (bad, el') \<Longrightarrow> m < el \<Longrightarrow> 0 < el'"
  by (induction buf flags sb el s m ouv rule: utf8n_loop.induct) (auto simp: Let_def split: if_splits)

lemma utf8_start_pos: "0 < fst (utf8_start c)"
  by (simp add: utf8_start_def)

lemma utf8n_malformed_pos:
  "\<not> has_flag flags UTF8_CHECK_ONLY \<Longrightarrow> 0 < curlen \<Longrightarrow> 0 < len \<or> 0 < el \<Longrightarrow>
   0 < fst (snd (utf8n_malformed wd flags curlen bad len el))"
  by (auto simp: utf8n_malformed_def Let_def split: utf8_malformed.splits)

lemma utf8n_to_uvuni_advances:
  assumes "\<not> has_flag flags UTF8_CHECK_ONLY" and "0 < curlen"
  shows "0 < fst (snd (utf8n_to_uvuni wd buf s curlen flags))"
proof -
  obtain el uv where st: "utf8_start (ucast (rd buf s)) = (el, uv)" by force
  then have el: "0 < el" using utf8_start_pos[of "ucast (rd buf s)"] by simp
  note pos = utf8n_malformed_pos[OF assms]
  show ?thesis
  proof (cases "utf8n_loop (drop s buf) flags (ucast (rd buf s)) el 1 (el - 1) uv")
    case (Inl r)
    then obtain bad el' where r: "utf8n_loop (drop s buf) flags (ucast (rd buf s)) el 1 (el - 1) uv = Inl (bad, el')"
      by (cases r) simp
    then have "0 < el'" using el by (auto dest: utf8n_loop_el)
    with r el assms show ?thesis
      by (simp add: utf8n_to_uvuni_def Let_def st pos)
  next
    case (Inr uv')
    with el assms show ?thesis
      by (simp add: utf8n_to_uvuni_def Let_def st pos)
  qed
qed

lemma utf8_to_uvchr_advances: "0 < fst (snd (utf8_to_uvchr w wd buf s))"
  unfolding utf8_to_uvchr_def
  by (rule utf8n_to_uvuni_advances) (simp_all add: has_flag_def utf8_flags)

function utb_check :: "u8 list \<Rightarrow> nat \<Rightarrow> nat \<Rightarrow> bool" where
  "utb_check buf send s =
     (if s < send
      then let c = rd buf s; s = s + 1 in
        if \<not> UTF8_IS_INVARIANT c \<and>
           (\<not> UTF8_IS_DOWNGRADEABLE_START c \<or> s \<ge> send \<or> rd buf s = 0 \<or> \<not> UTF8_IS_CONTINUATION (rd buf s))
        then False
        else utb_check buf send (if \<not> UTF8_IS_INVARIANT c then s + 1 else s)
      else True)"
  by pat_completeness auto
termination
  by (relation "measure (\<lambda>(buf, send, s). send - s)") auto

function utb_loop :: "bool \<Rightarrow> bool \<Rightarrow> u8 list \<Rightarrow> nat \<Rightarrow> nat \<Rightarrow> nat \<Rightarrow> u8 list \<times> nat" where
  "utb_loop w wd buf send s d =
     (if s < send
      then let (uv, ulen, warning) = utf8_to_uvchr w wd buf s
           in utb_loop w wd (buf[d := ucast uv]) send (s + ulen) (d + 1)
      else (buf, d))"
  by pat_completeness auto
termination
proof (relation "measure (\<lambda>(w, wd, buf, send, s, d). send - s)", goal_cases)
  case (2 w wd buf send s d r uv r' ulen warning)
  then have "utf8_to_uvchr w wd buf s = (uv, ulen, warning)" by metis
  then have "0 < ulen" using utf8_to_uvchr_advances[of w wd buf s] by simp
  with 2 show ?case by simp
qed simp

text \<open>
  The result: whether the string pointer is returned, the buffer afterwards and \<open>*len\<close>. The buffer
  holds the terminating NUL of the string, or more, behind the first \<open>len\<close> bytes.
\<close>

definition utf8_to_bytes :: "bool \<Rightarrow> bool \<Rightarrow> u8 list \<Rightarrow> nat \<Rightarrow> bool \<times> u8 list \<times> nat" where
  "utf8_to_bytes w wd buf len =
     (if \<not> utb_check buf len 0 then (False, buf, STRLEN_MAX)
      else let (buf, d) = utb_loop w wd buf len 0 0 in (True, buf[d := 0], d))"

declare utb_check.simps [simp del] utb_loop.simps [simp del]

section \<open>UTF-16\<close>

text \<open>\<open>(p[0] << 8) + p[1]\<close>, an \<open>int\<close> of two signed \<open>char\<close>s converted to \<open>UV\<close>\<close>

definition utf16_unit :: "u8 \<Rightarrow> u8 \<Rightarrow> uv" where
  "utf16_unit hi lo = of_int (sint hi * 256 + sint lo)"

function utf16_loop :: "u8 list \<Rightarrow> nat \<Rightarrow> nat \<Rightarrow> u8 list \<Rightarrow> u8 list result" where
  "utf16_loop src pend p d =
     (if p < pend
      then let uv = utf16_unit (rd src p) (rd src (p + 1)); p = p + 2 in
        if uv < 0x80 then utf16_loop src pend p (d @ [ucast uv])
        else if uv < 0x800 then utf16_loop src pend p (d @ [start_byte 6 0xc0 uv, cont_byte 0 uv])
        else if uv \<ge> 0xd800 \<and> uv < 0xdbff \<and>
                (utf16_unit (rd src p) (rd src (p + 1)) < 0xdc00 \<or>
                 utf16_unit (rd src p) (rd src (p + 1)) \<ge> 0xdfff)
        then Inl Malformed_surrogate
        else let (uv, p) =
                   (if uv \<ge> 0xd800 \<and> uv < 0xdbff
                    then (push_bit 10 (uv - 0xd800) +
                          (utf16_unit (rd src p) (rd src (p + 1)) - 0xdc00) + 0x10000, p + 2)
                    else (uv, p))
             in if uv < 0x10000
                then utf16_loop src pend p (d @ [start_byte 12 0xe0 uv, cont_byte 6 uv, cont_byte 0 uv])
                else utf16_loop src pend p
                       (d @ [start_byte 18 0xf0 uv, cont_byte 12 uv, cont_byte 6 uv, cont_byte 0 uv])
      else Inr d)"
  by pat_completeness auto
termination
  by (relation "measure (\<lambda>(src, pend, p, d). pend - p)") (auto split: if_splits)

text \<open>The bytes written to \<open>d\<close>, and \<open>*newlen\<close>.\<close>

definition utf16_to_utf8 :: "u8 list \<Rightarrow> nat \<Rightarrow> (u8 list \<times> nat) result" where
  "utf16_to_utf8 p bytelen =
     (if bytelen = 1 \<and> rd p 0 = 0 then Inr ([0], 1)
      else if odd bytelen then Inl (Odd_bytelen bytelen)
      else bind_result (utf16_loop p bytelen 0 []) (\<lambda>d. Inr (d, length d)))"

function swap_loop :: "u8 list \<Rightarrow> nat \<Rightarrow> nat \<Rightarrow> u8 list" where
  "swap_loop p send s =
     (if s < send then swap_loop (p[s := rd p (s + 1), s + 1 := rd p s]) send (s + 2) else p)"
  by pat_completeness auto
termination
  by (relation "measure (\<lambda>(p, send, s). send - s)") auto

text \<open>The source after the swap is the first component.\<close>

definition utf16_to_utf8_reversed :: "u8 list \<Rightarrow> nat \<Rightarrow> u8 list \<times> (u8 list \<times> nat) result" where
  "utf16_to_utf8_reversed p bytelen =
     (let p = swap_loop p bytelen 0 in (p, utf16_to_utf8 p bytelen))"

declare utf16_loop.simps [simp del] swap_loop.simps [simp del]

section \<open>Two-byte characters\<close>

lemma enc_byte:
  "enc (ucast (c :: u8)) = (if UNI_IS_INVARIANT (ucast c) then [c] else [UTF8_EIGHT_BIT_HI c, UTF8_EIGHT_BIT_LO c])"
proof (cases "UNI_IS_INVARIANT (ucast c)")
  case True
  then show ?thesis by (simp add: enc_invariant word_unat_eq_iff unat_ucast8)
next
  case False
  have c: "128 \<le> unat c" using False by (simp add: UNI_IS_INVARIANT_def word_less_nat_alt)
  then have k: "UNISKIP (ucast c) = 2"
    by (simp add: UNISKIP_num Let_def order_less_trans[of _ 256])
  have d: "unat c div 64 < 4" by (simp add: div_less_iff_less_mult)
  have hi: "unat (UTF8_EIGHT_BIT_HI c) = 192 + unat c div 64"
  proof -
    have m: "UTF_START_MARK 2 = 0x1FC0" by code_simp
    have "unat (ucast (drop_bit 6 c) :: u32) = unat c div 64"
      using d by (simp only: unsigned_ucast_eq unat_drop_bit) (simp add: take_bit_nat_eq_self)
    then have "unat (ucast (drop_bit 6 c) OR UTF_START_MARK 2) = (unat c div 64) OR 2 ^ 6 * 127"
      by (simp add: m unsigned_or_eq)
    also have "\<dots> = unat c div 64 + 2 ^ 6 * 127" using d by (intro or_add_nat) simp
    finally have "unat (UTF8_EIGHT_BIT_HI c) = (unat c div 64 + 8128) mod 256"
      by (simp add: UTF8_EIGHT_BIT_HI_def unsigned_ucast_eq take_bit_eq_mod)
    also have "unat c div 64 + 8128 = (192 + unat c div 64) + 31 * 256" by simp
    also have "\<dots> mod 256 = 192 + unat c div 64" using d by (simp only: mod_mult_self1 mod_less)
    finally show ?thesis .
  qed
  have lo: "unat (UTF8_EIGHT_BIT_LO c) = 128 + unat c mod 64"
  proof -
    have "unat (UTF8_EIGHT_BIT_LO c) = (unat c mod 64) OR 2 ^ 6 * 2"
      by (simp add: UTF8_EIGHT_BIT_LO_def unsigned_or_eq and_mask_mod)
    also have "\<dots> = unat c mod 64 + 2 ^ 6 * 2" by (intro or_add_nat) simp
    finally show ?thesis by simp
  qed
  have "map unat (enc (ucast c)) = map unat [UTF8_EIGHT_BIT_HI c, UTF8_EIGHT_BIT_LO c]"
    unfolding enc_form[OF False] k using hi lo by (simp add: utf8_lead_def)
  then have "enc (ucast c) = [UTF8_EIGHT_BIT_HI c, UTF8_EIGHT_BIT_LO c]"
    by (rule injD[OF inj_mapI, rotated]) (simp add: inj_def word_unat_eq_iff)
  with False show ?thesis by simp
qed

lemma downgradeable_num: "UTF8_IS_DOWNGRADEABLE_START c \<longleftrightarrow> 192 \<le> unat c \<and> unat c < 196"
proof -
  have "(0xfc :: u8) = NOT (mask 2)" by code_simp
  moreover have "2 \<le> n \<Longrightarrow> Suc (Suc (n - 2)) = n" for n :: nat by simp
  then have "c AND NOT (mask 2) = push_bit 2 (drop_bit 2 c)"
    by (intro bit_word_eqI) (auto simp: bit_simps)
  ultimately have "c AND 0xfc = push_bit 2 (drop_bit 2 c)" by simp
  then have "unat (c AND 0xfc) = unat c div 4 * 4 mod 256"
    by (simp only: unat_push_bit unat_drop_bit) simp
  moreover have "unat c div 4 * 4 < 256"
    by (rule order_le_less_trans[of _ "unat c"]) simp_all
  ultimately have "unat (c AND 0xfc) = unat c div 4 * 4" by simp
  then have "UTF8_IS_DOWNGRADEABLE_START c \<longleftrightarrow> unat c div 4 = 48"
    by (simp add: UTF8_IS_DOWNGRADEABLE_START_def word_unat_eq_iff)
  also have "\<dots> \<longleftrightarrow> 192 \<le> unat c \<and> unat c < 196" by linarith
  finally show ?thesis .
qed

section \<open>Round trips\<close>

lemma b2u_loop_enc: "b2u_loop s = enc_string (map ucast s)"
  by (induction s) (simp_all add: enc_byte)

lemma length_b2u_loop: "length (b2u_loop s) \<le> 2 * length s"
  by (induction s) auto

lemma enc_start_num:
  assumes "reads p (enc uv)"
  shows "UTF8_IS_INVARIANT (p 0) \<longleftrightarrow> uv < 0x80"
    "UTF8_IS_DOWNGRADEABLE_START (p 0) \<longleftrightarrow> 0x80 \<le> uv \<and> uv < 0x100"
proof -
  have "(UTF8_IS_INVARIANT (p 0) \<longleftrightarrow> uv < 0x80) \<and>
    (UTF8_IS_DOWNGRADEABLE_START (p 0) \<longleftrightarrow> 0x80 \<le> uv \<and> uv < 0x100)"
  proof (cases "UNI_IS_INVARIANT uv")
    case True
    then show ?thesis using assms
      by (simp add: reads_enc_invariant downgradeable_num byte_num UNI_IS_INVARIANT_def)
  next
    case False
    let ?n = "unat uv"
    have c: "unat (p 0) = utf8_lead (UNISKIP uv) ?n" using assms reads_enc_iff[OF False] by simp
    have n: "128 \<le> ?n" using False by (simp add: UNI_IS_INVARIANT_def word_less_nat_alt)
    have lead: "192 \<le> unat (p 0)" using utf8_start_num_lead(2)[OF False] c by simp
    have "unat (p 0) < 196 \<longleftrightarrow> ?n < 256"
    proof (cases "?n < 2 ^ 11")
      case True
      then have "UNISKIP uv = 2" using n by (simp add: UNISKIP_num Let_def)
      then show ?thesis using c by (simp add: utf8_lead_def) linarith
    next
      case F: False
      then have "224 \<le> unat (p 0)" unfolding c
        by (auto simp: UNISKIP_num utf8_lead_def Let_def)
      with F show ?thesis by simp
    qed
    with lead n show ?thesis by (simp add: downgradeable_num byte_num)
  qed
  then show "UTF8_IS_INVARIANT (p 0) \<longleftrightarrow> uv < 0x80"
    "UTF8_IS_DOWNGRADEABLE_START (p 0) \<longleftrightarrow> 0x80 \<le> uv \<and> uv < 0x100" by simp_all
qed

text \<open>Reading the encoding of one character at the end of a prefix.\<close>

lemma rd_at_enc: "i < UNISKIP uv \<Longrightarrow> rd (pre @ enc uv @ post) (length pre + i) = enc uv ! i"
  by (simp add: rd_def nth_append length_enc)

lemma accumulate_byte: "unat (UTF8_ACCUMULATE (c :: u8) new) = unat c mod 4 * 64 + unat new mod 64"
proof -
  have "unat (UTF8_ACCUMULATE c new) = (unat c * 64 mod 256) OR (unat new mod 64)"
    by (simp add: UTF8_ACCUMULATE_def unsigned_or_eq and_mask_mod unat_push_bit)
  also have "unat c * 64 mod 256 = 2 ^ 6 * (unat c mod 4)"
    using mult_mod_right[of 64 "unat c" 4] by (simp add: mult.commute)
  also have "2 ^ 6 * (unat c mod 4) OR (unat new mod 64) = unat new mod 64 + 2 ^ 6 * (unat c mod 4)"
    by (subst or.commute, rule or_add_nat) simp
  finally show ?thesis by simp
qed

lemma two_byte_char:
  assumes "\<not> uv < 0x80" and "uv < 0x100" and r: "reads p (enc uv)"
  shows "UNISKIP uv = 2" "UTF8_IS_CONTINUATION (p 1)" "p 1 \<noteq> 0" "UTF8_ACCUMULATE (p 0) (p 1) = ucast uv"
proof -
  have F: "\<not> UNI_IS_INVARIANT uv" using assms(1) by (simp add: UNI_IS_INVARIANT_def)
  have n: "128 \<le> unat uv" "unat uv < 256" using assms by (simp_all add: word_less_nat_alt)
  then show k: "UNISKIP uv = 2" by (simp add: UNISKIP_num Let_def)
  show c: "UTF8_IS_CONTINUATION (p 1)" using enc_rest[OF r, of 1] k by simp
  then show "p 1 \<noteq> 0" by (auto simp: byte_num)
  have b: "unat (p 0) = 192 + unat uv div 64" "unat (p 1) = 128 + unat uv mod 64"
    using r reads_enc_iff[OF F] cont_run_short(1)[of p "unat uv"] by (simp_all add: k utf8_lead_def)
  have d: "unat uv div 64 < 4" using n by (simp add: div_less_iff_less_mult)
  have "(192 + unat uv div 64) mod 4 = unat uv div 64"
    using mult_add_div[OF d, of 48] by simp
  moreover have "(128 + unat uv mod 64) mod 64 = unat uv mod 64"
    using mult_add_div[of "unat uv mod 64" 64 2] by simp
  ultimately show "UTF8_ACCUMULATE (p 0) (p 1) = ucast uv"
    using n by (simp add: word_unat_eq_iff accumulate_byte b[simplified] unat_ucast8)
qed

text \<open>The counter after \<open>n\<close> increments.\<close>

definition count_up :: "nat \<Rightarrow> int \<Rightarrow> int" where
  "count_up n = (\<lambda>k. to_I32 (k + 1)) ^^ n"

lemma count_up_int: "k + n < 2 ^ 31 \<Longrightarrow> count_up n (int k) = int (k + n)"
proof (induction n)
  case (Suc n)
  then have "count_up (Suc n) (int k) = to_I32 (int (Suc (k + n)))" by (simp add: count_up_def add.commute)
  also have "\<dots> = int (Suc (k + n))" using Suc.prems by (intro to_I32_int) simp
  finally show ?case by simp
qed (simp add: count_up_def)

lemma bfu_check_enc:
  "bfu_check (pre @ enc_string uvs @ post) (length (pre @ enc_string uvs)) (length pre) k =
     (if list_all (\<lambda>uv. uv < 0x100) uvs
      then Some (count_up (length (filter (\<lambda>uv. \<not> uv < 0x80) uvs)) k) else None)"
proof (induction uvs arbitrary: pre k)
  case Nil
  then show ?case by (simp add: bfu_check.simps count_up_def)
next
  case (Cons uv uvs)
  let ?b = "pre @ enc uv @ enc_string uvs @ post" and ?s = "length pre"
  let ?send = "length (pre @ enc uv @ enc_string uvs)"
  have r: "reads (\<lambda>i. rd ?b (?s + i)) (enc uv)" by (rule reads_at)
  note st = enc_start_num[OF r, simplified]
  have less: "?s < ?send" by (simp add: length_enc)
  consider "uv < 0x80" | "\<not> uv < 0x80" "uv < 0x100" | "\<not> uv < 0x100" by blast
  then show ?case
  proof cases
    case 1
    then have "UNISKIP uv = 1" "uv < 0x100" by (simp_all add: UNISKIP_def word_less_nat_alt)
    with 1 st less Cons.IH[of "pre @ enc uv" k] show ?thesis
      by (simp add: bfu_check.simps[of ?b _ ?s] Let_def length_enc)
  next
    case 2
    note two = two_byte_char[OF 2 r, simplified]
    have "Suc ?s < ?send" "128 \<le> uv" using 2 by (simp_all add: length_enc two(1) not_less)
    with 2 st less two Cons.IH[of "pre @ enc uv" "to_I32 (k + 1)"] show ?thesis
      by (simp add: bfu_check.simps[of ?b _ ?s] Let_def length_enc count_up_def funpow_Suc_right del: funpow.simps)
  next
    case 3
    then have "\<not> uv < 0x80" by (simp add: word_less_nat_alt)
    with 3 st less show ?thesis
      by (simp add: bfu_check.simps[of ?b _ ?s] Let_def)
  qed
qed

lemma bfu_convert_enc:
  "list_all (\<lambda>uv. uv < 0x100) uvs \<Longrightarrow>
   bfu_convert (pre @ enc_string uvs @ post) (length (pre @ enc_string uvs)) (length pre) = map ucast uvs"
proof (induction uvs arbitrary: pre)
  case Nil
  then show ?case by (simp add: bfu_convert.simps)
next
  case (Cons uv uvs)
  let ?b = "pre @ enc uv @ enc_string uvs @ post" and ?s = "length pre"
  let ?send = "length (pre @ enc uv @ enc_string uvs)"
  have r: "reads (\<lambda>i. rd ?b (?s + i)) (enc uv)" by (rule reads_at)
  note st = enc_start_num[OF r, simplified]
  have less: "?s < ?send" by (simp add: length_enc)
  show ?case
  proof (cases "uv < 0x80")
    case True
    then have k: "UNISKIP uv = 1" by (simp add: UNISKIP_def)
    have "rd ?b ?s = ucast uv"
      using r True by (simp add: reads_enc_invariant UNI_IS_INVARIANT_def word_unat_eq_iff
          word_less_nat_alt unat_ucast8)
    with True k st less Cons.prems Cons.IH[of "pre @ enc uv"] show ?thesis
      by (simp add: bfu_convert.simps[of ?b _ ?s] Let_def length_enc)
  next
    case False
    then have two: "UNISKIP uv = 2" "UTF8_ACCUMULATE (rd ?b ?s) (rd ?b (Suc ?s)) = ucast uv"
      using two_byte_char[OF False _ r] Cons.prems by simp_all
    with False st less Cons.prems Cons.IH[of "pre @ enc uv"] show ?thesis
      by (simp add: bfu_convert.simps[of ?b _ ?s] Let_def length_enc)
  qed
qed

lemma utb_check_eq: "utb_check buf send s \<longleftrightarrow> bfu_check buf send s k \<noteq> None"
proof (induction buf send s k rule: bfu_check.induct)
  case (1 buf send s k)
  then show ?case
    by (subst utb_check.simps, subst bfu_check.simps) (auto simp: Let_def not_le)
qed

text \<open>
  C30: \<open>bytes_to_utf8\<close> writes the UTF-8 of the bytes taken as code points, a string that
  \<open>is_utf8_string\<close> accepts, and what it writes with the NUL fits the buffer it asked for;
  it dies only for want of memory.
\<close>

theorem bytes_to_utf8_correct:
  "bytes_to_utf8 m s =
     (if newx m (length s * 2 + 1) 1
      then Inr (enc_string (map ucast s), length (enc_string (map ucast s))) else Inl Out_of_memory) \<and>
   length (enc_string (map ucast s)) + 1 \<le> length s * 2 + 1 \<and>
   is_utf8_string (enc_string (map ucast s)) (length (enc_string (map ucast s)))"
proof -
  have "list_all perl_utf8 (map ucast s)"
    by (simp add: list_all_iff perl_utf8_def byte_num not_le order_less_trans[of _ 256])
  then show ?thesis
    using length_b2u_loop[of s] is_utf8_string_iff[of "enc_string (map ucast s)"]
    by (auto simp: bytes_to_utf8_def b2u_loop_enc Let_def)
qed

text \<open>
  C29: \<open>bytes_from_utf8\<close> on the UTF-8 of any code points, fewer than \<open>2 ^ 31\<close> of them (the counter is an
  \<open>I32\<close>): if all are below 256 they are the bytes of the new string, \<open>*len\<close> is their number,
  \<open>*is_utf8\<close> is reset and the bytes with the NUL fill the new buffer exactly; otherwise the original
  string is returned and nothing changes.
\<close>

theorem bytes_from_utf8_correct:
  assumes "length uvs < 2 ^ 31"
  shows "bytes_from_utf8 m (enc_string uvs) (length (enc_string uvs)) True =
     (if list_all (\<lambda>uv. uv < 0x100) uvs
      then if newx m (length uvs + 1) 1
           then Inr \<lparr>bfu_string = Some (map ucast uvs), bfu_len = length uvs, bfu_is_utf8 = False,
                     bfu_alloc = length uvs + 1\<rparr>
           else Inl Out_of_memory
      else Inr \<lparr>bfu_string = None, bfu_len = length (enc_string uvs), bfu_is_utf8 = True, bfu_alloc = 0\<rparr>)"
proof -
  let ?n = "length (filter (\<lambda>uv. \<not> uv < 0x80) uvs)"
  have len: "list_all (\<lambda>uv. uv < 0x100) us \<Longrightarrow>
      length (enc_string us) = length us + length (filter (\<lambda>uv. \<not> uv < 0x80) us)" for us
    by (induction us) (auto simp: length_enc UNISKIP_def word_less_nat_alt)
  have "(of_nat (length uvs + ?n) - of_int (int ?n) + 1 :: uv) = of_nat (Suc (length uvs))" by simp
  moreover have "unat (of_nat (Suc (length uvs)) :: uv) = Suc (length uvs)"
    using assms by (intro unat_of_nat_less) simp
  ultimately have size: "unat (of_nat (length uvs + ?n) - of_int (int ?n) + 1 :: uv) = length uvs + 1" by (simp only: Suc_eq_plus1)
  show ?thesis
  proof (cases "list_all (\<lambda>uv. uv < 0x100) uvs")
    case True
    have "?n < 2 ^ 31" using length_filter_le assms by (rule le_less_trans)
    then have "count_up ?n 0 = int ?n" using count_up_int[of 0 ?n] by simp
    with True have "bfu_check (enc_string uvs) (length (enc_string uvs)) 0 0 = Some (int ?n)"
      "bfu_convert (enc_string uvs) (length (enc_string uvs)) 0 = map ucast uvs"
      using bfu_check_enc[of "[]" uvs "[]" 0] bfu_convert_enc[of uvs "[]" "[]"] by simp_all
    with True show ?thesis by (simp only: bytes_from_utf8_def option.case Let_def size len[OF True]) simp
  next
    case False
    with bfu_check_enc[of "[]" uvs "[]" 0] show ?thesis by (auto simp: bytes_from_utf8_def)
  qed
qed

text \<open>\<open>A\<close> and \<open>e\<close> with an acute accent; and a string with the euro sign.\<close>

theorem bytes_from_utf8_correct_witness:
  "bytes_from_utf8 (fixed_allocator 3) [0x41, 0xC3, 0xA9] 3 True =
     Inr \<lparr>bfu_string = Some [0x41, 0xE9], bfu_len = 2, bfu_is_utf8 = False, bfu_alloc = 3\<rparr> \<and>
   bytes_from_utf8 (fixed_allocator 3) [0xE2, 0x82, 0xAC] 3 True =
     Inr \<lparr>bfu_string = None, bfu_len = 3, bfu_is_utf8 = True, bfu_alloc = 0\<rparr>"
proof -
  have "enc_string [0x41, 0xE9] = [0x41, 0xC3, 0xA9]" "enc_string [0x20AC] = [0xE2, 0x82, 0xAC]"
    by (code_simp, code_simp)
  then show ?thesis
    using bytes_from_utf8_correct[of "[0x41, 0xE9]" "fixed_allocator 3"] bytes_from_utf8_correct[of "[0x20AC]" "fixed_allocator 3"]
    by (simp add: newx_def fixed_allocator_def) (simp add: numeral_2_eq_2 numeral_3_eq_3)
qed

text \<open>One step of the in-place conversion.\<close>

lemma utf8_to_uvchr_enc:
  assumes "uv < 0x100"
  shows "utf8_to_uvchr w wd (pre @ enc uv @ post) (length pre) = (uv, UNISKIP uv, None)"
proof -
  have "UNISKIP uv \<le> 13" by (simp add: UNISKIP_def)
  moreover have "\<not> 2 ^ 31 \<le> uv" "\<not> UNICODE_IS_SURROGATE uv" "\<not> UNICODE_IS_ILLEGAL uv"
    using assms by (auto simp: UNICODE_IS_SURROGATE_def UNICODE_IS_ILLEGAL_def word_less_nat_alt word_le_nat_alt)
  ultimately show ?thesis
    unfolding utf8_to_uvchr_def by (intro decode_enc[OF reads_at]) simp_all
qed

lemma utb_loop_enc:
  "list_all (\<lambda>uv. uv < 0x100) uvs \<Longrightarrow>
   \<exists>gap. utb_loop w wd (out @ mid @ enc_string uvs @ post) (length (out @ mid @ enc_string uvs))
     (length (out @ mid)) (length out) =
     (out @ map ucast uvs @ gap @ post, length out + length uvs) \<and>
     length gap + length uvs = length mid + length (enc_string uvs)"
proof (induction uvs arbitrary: out mid)
  case Nil
  then show ?case by (simp add: utb_loop.simps)
next
  case (Cons uv uvs)
  let ?b = "out @ mid @ enc uv @ enc_string uvs @ post" and ?s = "length (out @ mid)"
  have u: "utf8_to_uvchr w wd ?b ?s = (uv, UNISKIP uv, None)"
    using utf8_to_uvchr_enc[of uv w wd "out @ mid" "enc_string uvs @ post"] Cons.prems by simp
  obtain c mid' where mid': "mid @ enc uv = c # mid'"
    using UNISKIP_pos(1)[of uv] by (metis append_is_Nil_conv length_enc length_greater_0_conv list.exhaust)
  have "?b[length out := ucast uv] = (out @ (c # mid') @ enc_string uvs @ post)[length out := ucast uv]"
    by (simp flip: mid')
  also have "\<dots> = (out @ [ucast uv]) @ mid' @ enc_string uvs @ post" by simp
  finally have upd: "?b[length out := ucast uv] = (out @ [ucast uv]) @ mid' @ enc_string uvs @ post" .
  have len: "?s + UNISKIP uv = length ((out @ [ucast uv]) @ mid')"
    "length (out @ mid @ enc uv @ enc_string uvs) = length ((out @ [ucast uv]) @ mid' @ enc_string uvs)"
    using arg_cong[OF mid', of length] by (simp_all add: length_enc)
  have less: "?s < length (out @ mid @ enc uv @ enc_string uvs)" by (simp add: length_enc)
  have "utb_loop w wd ?b (length (out @ mid @ enc uv @ enc_string uvs)) ?s (length out) =
      utb_loop w wd ((out @ [ucast uv]) @ mid' @ enc_string uvs @ post)
        (length ((out @ [ucast uv]) @ mid' @ enc_string uvs)) (length ((out @ [ucast uv]) @ mid'))
        (length (out @ [ucast uv]))"
    using less by (subst utb_loop.simps) (simp only: u upd len Let_def prod.case if_True, simp)
  moreover have "Suc (length mid') = length mid + UNISKIP uv"
    using arg_cong[OF mid', of length] by (simp add: length_enc)
  ultimately show ?case
    using Cons.IH[of "out @ [ucast uv]" mid'] Cons.prems by (auto simp: length_enc)
qed

text \<open>
  C27: \<open>utf8_to_bytes\<close>, in place, on a buffer with the UTF-8 of any code points and at least the
  NUL behind it: it succeeds exactly if all code points are below 256; then the buffer begins with
  these bytes and a NUL and \<open>*len\<close> is their number; otherwise the buffer is untouched and \<open>*len\<close>
  is -1.
\<close>

theorem utf8_to_bytes_in_place:
  assumes "rest \<noteq> []"
  shows "case utf8_to_bytes w wd (enc_string uvs @ rest) (length (enc_string uvs)) of (ok, buf, len) \<Rightarrow>
     length buf = length (enc_string uvs @ rest) \<and>
     (if list_all (\<lambda>uv. uv < 0x100) uvs
      then ok \<and> len = length uvs \<and> take (len + 1) buf = map ucast uvs @ [0]
      else \<not> ok \<and> buf = enc_string uvs @ rest \<and> len = STRLEN_MAX)"
proof -
  have check: "utb_check (enc_string uvs @ rest) (length (enc_string uvs)) 0 \<longleftrightarrow>
      list_all (\<lambda>uv. uv < 0x100) uvs"
    using bfu_check_enc[of "[]" uvs rest 0] utb_check_eq[of _ _ 0 0] by simp
  show ?thesis
  proof (cases "list_all (\<lambda>uv. uv < 0x100) uvs")
    case True
    obtain gap where gap: "utb_loop w wd (enc_string uvs @ rest) (length (enc_string uvs)) 0 0 =
        (map ucast uvs @ gap @ rest, length uvs)" "length gap + length uvs = length (enc_string uvs)"
      using utb_loop_enc[OF True, of w wd "[]" "[]" rest] by auto
    obtain c tl where tl: "gap @ rest = c # tl" using assms by (cases "gap @ rest") auto
    moreover have "Suc (length tl) = length gap + length rest" using arg_cong[OF tl, of length] by simp
    ultimately show ?thesis using gap check True
      by (simp add: utf8_to_bytes_def tl list_update_append)
  next
    case False
    with check show ?thesis by (simp add: utf8_to_bytes_def)
  qed
qed

theorem utf8_to_bytes_in_place_witness:
  "case utf8_to_bytes True True (enc_string [0x41, 0xe9] @ [0]) 3 of (ok, buf, len) \<Rightarrow>
     ok \<and> len = 2 \<and> take 3 buf = [0x41, 0xe9, 0]"
proof -
  have "length (enc_string [0x41, 0xe9]) = 3" by code_simp
  then show ?thesis
    using utf8_to_bytes_in_place[where rest = "[0]" and uvs = "[0x41, 0xe9]" and w = True and wd = True]
    by (auto simp: numeral_3_eq_3)
qed

text \<open>
  The check of \<open>bytes_from_utf8\<close> and \<open>utf8_to_bytes\<close> takes more than valid UTF-8: any
  overlong pair that begins with 0xC0 or 0xC1 is converted to a byte below 128 although
  \<open>is_utf8_string\<close> rejects the string.
\<close>

theorem bytes_from_utf8_overlong:
  assumes "c = 0xc0 \<or> c = 0xc1" and "UTF8_IS_CONTINUATION d" and "newx m 2 1"
  shows "bytes_from_utf8 m [c, d] 2 True =
     Inr \<lparr>bfu_string = Some [UTF8_ACCUMULATE c d], bfu_len = 1, bfu_is_utf8 = False, bfu_alloc = 2\<rparr> \<and>
   unat (UTF8_ACCUMULATE c d) < 128 \<and> \<not> is_utf8_string [c, d] 2"
proof -
  have c: "\<not> UTF8_IS_INVARIANT c" "UTF8_IS_DOWNGRADEABLE_START c" "unat c mod 4 < 2"
    "UTF8_IS_START c" "UTF8SKIP c = 2"
    using assms(1) by (auto simp: byte_num downgradeable_num UTF8SKIP_num skip_num_def)
  have d: "d \<noteq> 0" using assms(2) by (auto simp: byte_num)
  have r: "rd [c, d] 0 = c" "rd [c, d] (Suc 0) = d" by (simp_all add: rd_def)
  have "bfu_check [c, d] 2 0 0 = Some 1" using c d assms(2) r to_I32_int[of 1] by (simp add: bfu_check.simps)
  moreover have "bfu_convert [c, d] 2 0 = [UTF8_ACCUMULATE c d]" using c r by (simp add: bfu_convert.simps)
  moreover have "string_step (\<lambda>i. rd [c, d] (0 + i)) = 0"
    using assms(1) c r by (auto simp: string_step_def IS_UTF8_CHAR_def IS_UTF8_CHAR_2_def)
  then have "\<not> is_utf8_string [c, d] 2"
    by (simp add: is_utf8_string_def string_loop.simps)
  moreover have "unat (UTF8_ACCUMULATE c d) < 128"
  proof -
    have "unat c mod 4 * 64 \<le> 1 * 64" using c(3) by (intro mult_le_mono1) simp
    moreover have "unat d mod 64 < 64" by simp
    ultimately show ?thesis unfolding accumulate_byte by linarith
  qed
  moreover have "unat (of_nat 2 - of_int 1 + 1 :: uv) = 2" by simp
  ultimately show ?thesis
    using assms(3) by (simp only: bytes_from_utf8_def option.case Let_def) simp
qed

theorem bytes_from_utf8_overlong_witness:
  "bytes_from_utf8 (fixed_allocator 100) [0xc1, 0x81] 2 True =
     Inr \<lparr>bfu_string = Some [0x41], bfu_len = 1, bfu_is_utf8 = False, bfu_alloc = 2\<rparr>"
proof -
  have "UTF8_ACCUMULATE (0xc1 :: u8) 0x81 = 0x41" by code_simp
  with bytes_from_utf8_overlong[of "0xc1" "0x81" "fixed_allocator 100"] show ?thesis
    by (simp add: newx_def fixed_allocator_def UTF8_IS_CONTINUATION_def)
qed

section \<open>UTF-16 on a platform with signed characters\<close>

lemma uint_byte: "0 \<le> uint (c :: u8)" "uint (c :: u8) < 256"
proof -
  have "uint c < 2 ^ LENGTH(8)" by (rule unsigned_less)
  then show "uint c < 256" by simp
qed simp

lemma sint_byte: "sint (c :: u8) = (if uint c < 128 then uint c else uint c - 256)"
proof -
  define u where "u = uint c"
  have u: "0 \<le> u" "u < 256" using uint_byte[of c] unfolding u_def .
  have "sint c = take_bit 8 u - 256 * of_bool (bit u 7)"
    unfolding u_def by (simp add: sint_uint signed_take_bit_eq_take_bit_minus)
  moreover have "take_bit 8 u = u" using u by (simp add: take_bit_int_eq_self)
  moreover have "u div 128 = (if u < 128 then 0 else 1)"
    using u by (simp add: div_pos_geq)
  then have "bit u 7 \<longleftrightarrow> \<not> u < 128" by (simp add: bit_iff_odd)
  ultimately show ?thesis unfolding u_def by simp
qed

text \<open>The value of a code unit, by the sign of the \<open>int\<close> it is made of.\<close>

lemma uint_utf16_unit:
  assumes "sint hi * 256 + sint lo = i"
  shows "0 \<le> i \<Longrightarrow> i < 2 ^ 64 \<Longrightarrow> uint (utf16_unit hi lo) = i"
    "i < 0 \<Longrightarrow> - (2 ^ 64) \<le> i \<Longrightarrow> uint (utf16_unit hi lo) = 2 ^ 64 + i"
proof -
  show "0 \<le> i \<Longrightarrow> i < 2 ^ 64 \<Longrightarrow> uint (utf16_unit hi lo) = i"
    unfolding utf16_unit_def assms by (simp add: uint_word_of_int_eq take_bit_int_eq_self)
  assume "i < 0" "- (2 ^ 64) \<le> i"
  then have "(i + 2 ^ 64) mod 2 ^ 64 = i + 2 ^ 64" by (intro mod_pos_pos_trivial) simp_all
  then show "uint (utf16_unit hi lo) = 2 ^ 64 + i"
    unfolding utf16_unit_def assms by (simp add: uint_word_of_int_eq take_bit_eq_mod)
qed

lemma unat_eqI: "uint w = int n \<Longrightarrow> unat w = n"
  by (metis nat_int unat_eq_nat_uint)

lemma utf16_unit_low:
  assumes "hi < 0x80" "lo < 0x80"
  shows "unat (utf16_unit hi lo) = unat hi * 256 + unat lo"
proof (rule unat_eqI)
  have "uint hi < 128" "uint lo < 128" using assms by (simp_all add: word_less_def)
  then show "uint (utf16_unit hi lo) = int (unat hi * 256 + unat lo)"
    using uint_byte[of hi] uint_byte[of lo] uint_utf16_unit(1)[of hi lo "uint hi * 256 + uint lo"]
    by (simp add: sint_byte)
qed

lemma utf16_unit_range: "\<not> (utf16_unit hi lo \<ge> 0x8000 \<and> utf16_unit hi lo < 0xffffffffffff7f80)"
proof -
  define i where "i = sint hi * 256 + sint lo"
  have b: "- 128 \<le> sint c" "sint c < 128" for c :: u8
    using uint_byte(2)[of c] by (simp_all add: sint_byte order_trans[of _ 0])
  have i: "- 32896 \<le> i" "i < 32768" using b[of hi] b[of lo] unfolding i_def by linarith+
  have "uint (utf16_unit hi lo) < 0x8000 \<or> 2 ^ 64 - 0x8080 \<le> uint (utf16_unit hi lo)"
    using i uint_utf16_unit[of hi lo i, OF i_def[symmetric]] by (cases "i < 0") simp_all
  then show ?thesis by (simp add: word_less_def word_le_def) linarith
qed

definition utf16_bytes :: "(u8 \<times> u8) list \<Rightarrow> u8 list" where
  "utf16_bytes us = concat (map (\<lambda>(hi, lo). [hi, lo]) us)"

definition unit_value :: "u8 \<times> u8 \<Rightarrow> uv" where
  "unit_value u = of_nat (unat (fst u) * 256 + unat (snd u))"

lemma utf16_bytes_simps [simp]:
  "utf16_bytes [] = []" "utf16_bytes ((hi, lo) # us) = hi # lo # utf16_bytes us"
  by (simp_all add: utf16_bytes_def)

lemma utf16_loop_low:
  "list_all (\<lambda>(hi, lo). hi < 0x80 \<and> lo < 0x80) us \<Longrightarrow>
   utf16_loop (pre @ utf16_bytes us) (length (pre @ utf16_bytes us)) (length pre) d =
     Inr (d @ enc_string (map unit_value us))"
proof (induction us arbitrary: pre d)
  case Nil
  then show ?case by (simp add: utf16_loop.simps)
next
  case (Cons u us)
  obtain hi lo where u: "u = (hi, lo)" by (cases u)
  let ?b = "pre @ hi # lo # utf16_bytes us" and ?uv = "utf16_unit hi lo"
  have low: "hi < 0x80" "lo < 0x80" using Cons.prems by (simp_all add: u)
  note uv = utf16_unit_low[OF low]
  have val: "unit_value u = ?uv" unfolding unit_value_def u fst_conv snd_conv uv[symmetric] by simp
  have range: "unat ?uv < 0x8000" using uv low by (simp add: word_less_nat_alt)
  have "rd ?b (length pre) = hi" "rd ?b (length pre + 1) = lo"
    by (simp_all add: rd_def nth_append)
  moreover have "\<not> ?uv \<ge> 0xd800" "?uv < 0x10000" "?uv < 0x200000"
    using range by (simp_all add: word_less_nat_alt word_le_nat_alt)
  ultimately have "utf16_loop ?b (length ?b) (length pre) d =
      utf16_loop ?b (length ?b) (length pre + 2) (d @ enc ?uv)"
    by (subst utf16_loop.simps) (simp add: Let_def enc_def uvuni_to_utf8_flags_def UNI_IS_INVARIANT_def)
  with Cons.IH[of "pre @ [hi, lo]" "d @ enc ?uv"] Cons.prems val show ?case
    by (simp add: u)
qed

text \<open>
  \<open>utf16_to_utf8\<close> on big-endian UTF-16 whose bytes are all below 0x80: it gives the UTF-8 of the
  code units, and \<open>*newlen\<close> is its length.
\<close>

theorem utf16_to_utf8_low_bytes:
  assumes "list_all (\<lambda>(hi, lo). hi < 0x80 \<and> lo < 0x80) us"
  shows "utf16_to_utf8 (utf16_bytes us) (2 * length us) =
     Inr (enc_string (map unit_value us), length (enc_string (map unit_value us)))"
proof -
  have "length (utf16_bytes us) = 2 * length us"
    by (induction us) auto
  with utf16_loop_low[OF assms, of "[]" "[]"] show ?thesis
    by (auto simp: utf16_to_utf8_def)
qed

theorem utf16_to_utf8_low_bytes_witness:
  "utf16_to_utf8 [0, 0x41, 0x20, 0x2c] 4 = Inr ([0x41, 0xe2, 0x80, 0xac], 4)"
proof -
  have "enc_string (map unit_value [(0, 0x41), (0x20, 0x2c)]) = [0x41, 0xe2, 0x80, 0xac]" by code_simp
  then show ?thesis
    using utf16_to_utf8_low_bytes[of "[(0, 0x41), (0x20, 0x2c)]"] by simp
qed

text \<open>
  Where \<open>char\<close> is signed, as in the modelled configuration, a byte from 0x80 on is read as
  negative: no code unit is ever in the surrogate range the code tests for, and a character from
  U+0080 to U+00FF becomes four bytes that \<open>is_utf8_string\<close> rejects.
\<close>

theorem utf16_high_bytes_broken:
  assumes "0x80 \<le> lo"
  shows "\<not> (utf16_unit hi lo' \<ge> 0xd800 \<and> utf16_unit hi lo' < 0xdbff) \<and>
   (\<exists>b c. utf16_to_utf8 [0, lo] 2 = Inr ([0xff, 0xbf, b, c], 4) \<and> \<not> is_utf8_string [0xff, 0xbf, b, c] 4)"
proof
  show "\<not> (utf16_unit hi lo' \<ge> 0xd800 \<and> utf16_unit hi lo' < 0xdbff)"
    using utf16_unit_range[of hi lo'] by (auto simp: word_less_def word_le_def)
next
  let ?uv = "utf16_unit 0 lo"
  have "128 \<le> uint lo" using assms by (simp add: word_le_def)
  then have n: "unat ?uv = 2 ^ 64 - 256 + unat lo"
    using uint_byte[of lo] uint_utf16_unit(2)[of 0 lo "uint lo - 256"]
    by (intro unat_eqI) (simp add: sint_byte)
  have nr: "\<not> ?uv < 0x80" "\<not> ?uv < 0x800" "\<not> ?uv < 0xdbff" "\<not> ?uv < 0x10000"
    using n by (simp_all add: word_less_nat_alt)
  have d18: "unat ?uv div 2 ^ 18 = 70368744177663" and d12: "unat ?uv div 2 ^ 12 mod 64 = 63"
  proof -
    have "unat lo < 256" by simp
    moreover have "unat ?uv = 262144 * 70368744177663 + (261888 + unat lo)"
      "unat ?uv = 4096 * 4503599627370495 + (3840 + unat lo)" using n by simp_all
    ultimately show "unat ?uv div 2 ^ 18 = 70368744177663" "unat ?uv div 2 ^ 12 mod 64 = 63"
      using mult_add_div[of "261888 + unat lo" 262144 70368744177663]
        mult_add_div[of "3840 + unat lo" 4096 4503599627370495] by simp_all
  qed
  have "drop_bit 18 ?uv = 70368744177663"
    using d18 by (simp add: word_unat_eq_iff unat_drop_bit)
  then have s: "start_byte 18 0xf0 ?uv = 0xff" by (simp add: start_byte_def)
  have c: "cont_byte 12 ?uv = 0xbf" using d12 by (simp add: word_unat_eq_iff unat_cont_byte)
  have "utf16_loop [0, lo] 2 0 [] = Inr [0xff, 0xbf, cont_byte 6 ?uv, cont_byte 0 ?uv]"
    using nr s c by (simp add: utf16_loop.simps[of _ 2] Let_def rd_def)
  then have "utf16_to_utf8 [0, lo] 2 = Inr ([0xff, 0xbf, cont_byte 6 ?uv, cont_byte 0 ?uv], 4)"
    by (simp add: utf16_to_utf8_def)
  moreover have "string_step (\<lambda>i. rd [0xff, 0xbf, b, c] (0 + i)) = 0" for b c
    by (simp add: string_step_def byte_num rd_def)
  then have "\<not> is_utf8_string [0xff, 0xbf, b, c] 4" for b c
    by (simp add: is_utf8_string_def string_loop.simps)
  ultimately show "\<exists>b c. utf16_to_utf8 [0, lo] 2 = Inr ([0xff, 0xbf, b, c], 4) \<and>
      \<not> is_utf8_string [0xff, 0xbf, b, c] 4" by blast
qed

theorem utf16_high_bytes_broken_witness:
  "\<exists>b c. utf16_to_utf8 [0, 0xe9] 2 = Inr ([0xff, 0xbf, b, c], 4)"
proof -
  have "(0x80 :: u8) \<le> 0xe9" by simp
  from utf16_high_bytes_broken[OF this, of 0 0] show ?thesis by blast
qed

end
