(* ===== verification/Av_Array.thy ===== *)
theory Av_Array
  imports Kurila_Prelude "HOL-Library.While_Combinator"
begin

text \<open>
  Arrays (\<open>av.c\<close>, \<open>av.h\<close>): a block of slots (\<open>AvALLOC\<close>), the offset at which the array begins in
  it (\<open>AvARRAY - AvALLOC\<close>), the index of the last element (\<open>AvFILLp\<close>) and of the last slot
  (\<open>AvMAX\<close>). Shifting moves the beginning forward, unshifting moves it back. The array is not
  the argument stack (\<open>PL_curstack\<close>), whose pointers \<open>av_extend\<close> and \<open>av_store\<close> also adjust.
\<close>

section \<open>State\<close>

text \<open>A slot of the block: uninitialised memory, NULL, \<open>&PL_sv_undef\<close>, or an SV.\<close>

datatype slot = Junk | Null | Undef | Sv nat

record av =
  AvALLOC :: "slot list"      \<comment> \<open>\<open>[]\<close> when the pointer is NULL\<close>
  AvARRAY :: nat              \<comment> \<open>offset into the block\<close>
  AvFILLp :: int
  AvMAX :: int
  AvREAL :: bool
  AvREIFY :: bool
  SvREADONLY :: bool
  SvSMAGICAL :: bool
  SvRMAGICAL :: bool
  mg_is_isa :: bool           \<comment> \<open>the first magic of the array is \<open>PERL_MAGIC_isa\<close>\<close>

text \<open>
  What the operations touch outside the array: reference counts, the next SV to be made, the
  mortals, \<open>PL_delaymagic\<close>, and the calls of magic and of the chunk collector, in order.
\<close>

datatype av_event = Mg_set | Mg_clear | Element_magic nat int | Offer_nice_chunk nat

record world =
  refcnt :: "nat \<Rightarrow> nat"
  next_sv :: nat
  tmps :: "nat list"
  delaymagic :: bool
  dm_array :: bool
  events :: "av_event list"

definition log_event :: "av_event \<Rightarrow> world \<Rightarrow> world" where
  "log_event e w = w\<lparr>events := events w @ [e]\<rparr>"

definition SvREFCNT_inc :: "slot \<Rightarrow> world \<Rightarrow> world" where
  "SvREFCNT_inc s w = (case s of Sv n \<Rightarrow> w\<lparr>refcnt := (refcnt w)(n := refcnt w n + 1)\<rparr> | _ \<Rightarrow> w)"

definition SvREFCNT_dec :: "slot \<Rightarrow> world \<Rightarrow> world" where
  "SvREFCNT_dec s w = (case s of Sv n \<Rightarrow> w\<lparr>refcnt := (refcnt w)(n := refcnt w n - 1)\<rparr> | _ \<Rightarrow> w)"

text \<open>\<open>newSV(0)\<close>: a new undefined SV with one reference.\<close>

definition newSV :: "world \<Rightarrow> slot \<times> world" where
  "newSV w = (Sv (next_sv w), w\<lparr>refcnt := (refcnt w)(next_sv w := 1), next_sv := next_sv w + 1\<rparr>)"

definition av_slot :: "av \<Rightarrow> int \<Rightarrow> slot" where
  "av_slot av k = AvALLOC av ! (AvARRAY av + nat k)"

definition set_slot :: "av \<Rightarrow> int \<Rightarrow> slot \<Rightarrow> av" where
  "set_slot av k s = av\<lparr>AvALLOC := (AvALLOC av)[AvARRAY av + nat k := s]\<rparr>"

text \<open>\<open>while (n) ary[--n] = &PL_sv_undef;\<close> with \<open>ary\<close> at \<open>b\<close>\<close>

fun undef_down :: "slot list \<Rightarrow> nat \<Rightarrow> nat \<Rightarrow> slot list" where
  "undef_down xs b 0 = xs"
| "undef_down xs b (Suc n) = undef_down (xs[b + n := Undef]) b n"

text \<open>\<open>Move\<close>: \<open>n\<close> slots from \<open>src\<close> to \<open>dst\<close>, which may overlap.\<close>

definition move_slots :: "slot list \<Rightarrow> nat \<Rightarrow> nat \<Rightarrow> nat \<Rightarrow> slot list" where
  "move_slots xs src dst n = take dst xs @ take n (drop src xs) @ drop (dst + n) xs"

section \<open>av\_reify\<close>

fun inc_slots :: "slot list \<Rightarrow> world \<Rightarrow> world result" where
  "inc_slots [] w = Inr w"
| "inc_slots (s # ss) w =
     (case s of Undef \<Rightarrow> inc_slots ss w
      | Sv n \<Rightarrow> inc_slots ss (SvREFCNT_inc s w)
      | _ \<Rightarrow> Inl Null_pointer)"

text \<open>The elements are counted from the last one down.\<close>

definition av_reify :: "av \<Rightarrow> world \<Rightarrow> (av \<times> world) result" where
  "av_reify av w =
     (if AvREAL av then Inr (av, w)
      else let xs = undef_down (AvALLOC av) (AvARRAY av + nat (AvFILLp av + 1)) (nat (AvMAX av - AvFILLp av))
           in bind_result (inc_slots (rev (take (nat (AvFILLp av + 1)) (drop (AvARRAY av) xs))) w) (\<lambda>w.
              Inr (av\<lparr>AvALLOC := undef_down xs 0 (AvARRAY av), AvREIFY := False, AvREAL := True\<rparr>, w)))"

section \<open>av\_extend\<close>

definition i32 :: "int \<Rightarrow> int" where
  "i32 x = (x + 2 ^ 31) mod 2 ^ 32 - 2 ^ 31"

definition mem_size :: "int \<Rightarrow> nat" where
  "mem_size x = nat (x mod 2 ^ 64)"

text \<open>
  The size the allocator is asked for: 16 doubled until it holds \<open>bytes\<close> and the allocator's
  overhead, as a number of slots.
\<close>

definition malloc_slots :: "nat \<Rightarrow> nat" where
  "malloc_slots bytes = (while (\<lambda>itmp. itmp - 16 < bytes) (\<lambda>itmp. itmp + itmp) 16 - 16) div 8"

definition av_resize :: "allocator \<Rightarrow> av \<Rightarrow> world \<Rightarrow> int \<Rightarrow> (av \<times> world) result" where
  "av_resize m av w newmax =
     (if mem_size (i32 (newmax + 1)) > (2 ^ 64 - 1) div 8 then Inl Out_of_memory
      else let newmax = i32 (int (malloc_slots (mem_size (i32 (newmax + 1)) * 8)) - 1) in
      if \<not> newx m (mem_size (i32 (newmax + 1))) 8 then Inl Out_of_memory
      else let ary = take (nat (AvMAX av + 1)) (AvALLOC av) @ replicate (nat (newmax - AvMAX av)) Junk;
               w = (if AvMAX av > 64 then log_event (Offer_nice_chunk (nat (AvMAX av + 1) * 8)) w else w);
               ary = (if AvREAL av then undef_down ary (nat (AvMAX av + 1)) (nat (newmax - AvMAX av)) else ary)
           in Inr (av\<lparr>AvALLOC := ary, AvARRAY := 0, AvMAX := newmax\<rparr>, w))"

definition av_extend :: "allocator \<Rightarrow> av \<Rightarrow> world \<Rightarrow> int \<Rightarrow> (av \<times> world) result" where
  "av_extend m av w key =
     (if key > AvMAX av
      then if AvARRAY av \<noteq> 0
        then let tmp = AvARRAY av;
                 xs = move_slots (AvALLOC av) tmp 0 (nat (AvFILLp av + 1));
                 xs = (if AvREAL av then undef_down xs (nat (AvFILLp av + 1)) tmp else xs);
                 av = av\<lparr>AvALLOC := xs, AvMAX := AvMAX av + int tmp, AvARRAY := 0\<rparr>
             in if key > AvMAX av - 10 then av_resize m av w (i32 (key + AvMAX av)) else Inr (av, w)
        else if AvALLOC av \<noteq> [] then av_resize m av w (i32 (key + AvMAX av div 5))
        else let newmax = (if key < 3 then 3 else key) in
             if mem_size (i32 (newmax + 1)) > (2 ^ 64 - 1) div 8 then Inl Out_of_memory
             else if \<not> newx m (mem_size (i32 (newmax + 1))) 8 then Inl Out_of_memory
             else let ary = Undef # replicate (nat newmax) Junk;
                      ary = (if AvREAL av then undef_down ary 1 (nat newmax) else ary)
                  in Inr (av\<lparr>AvALLOC := ary, AvARRAY := 0, AvMAX := newmax\<rparr>, w)
      else Inr (av, w))"

section \<open>Store and fetch\<close>

text \<open>\<open>do { ary[++AvFILLp(av)] = &PL_sv_undef; } while (AvFILLp(av) < key);\<close>\<close>

fun undef_up :: "slot list \<Rightarrow> nat \<Rightarrow> nat \<Rightarrow> slot list" where
  "undef_up xs b 0 = xs"
| "undef_up xs b (Suc n) = undef_up (xs[b := Undef]) (b + 1) n"

text \<open>A negative key counts from the end; a NULL value stands for \<open>&PL_sv_undef\<close>.\<close>

definition norm_key :: "av \<Rightarrow> int \<Rightarrow> int" where
  "norm_key av key = (if key < 0 then key + AvFILLp av + 1 else key)"

definition norm_val :: "slot \<Rightarrow> slot" where
  "norm_val v = (if v = Null then Undef else v)"

text \<open>The array made longer to hold \<open>key\<close>, within the block.\<close>

definition fill_to :: "av \<Rightarrow> int \<Rightarrow> av" where
  "fill_to av key =
     (if AvFILLp av < key
      then (if \<not> AvREAL av
            then av\<lparr>AvALLOC := undef_up (AvALLOC av) (AvARRAY av + nat (AvFILLp av + 1))
                      (nat (key - AvFILLp av)), AvFILLp := key\<rparr>
            else av\<lparr>AvFILLp := key\<rparr>)
      else av)"

text \<open>The magic at the end of \<open>av_store\<close>: \<open>val\<close> gets its element magic, the array is set.\<close>

definition store_magic :: "av \<Rightarrow> world \<Rightarrow> int \<Rightarrow> slot \<Rightarrow> world" where
  "store_magic av w key val =
     (if SvSMAGICAL av
      then let w = (case val of Sv n \<Rightarrow> log_event (Element_magic n key) w | _ \<Rightarrow> w)
           in if delaymagic w \<and> mg_is_isa av then w\<lparr>dm_array := True\<rparr> else log_event Mg_set w
      else w)"

text \<open>The result is the index of the slot whose address the code returns, \<open>None\<close> for NULL.\<close>

definition av_store :: "allocator \<Rightarrow> av \<Rightarrow> world \<Rightarrow> int \<Rightarrow> slot \<Rightarrow> (int option \<times> av \<times> world) result" where
  "av_store m av w key val =
     (let val = norm_val val; key = norm_key av key in
      if key < 0 then Inr (None, av, w)
      else if SvREADONLY av \<and> key \<ge> AvFILLp av then Inl No_modify
      else bind_result (if \<not> AvREAL av \<and> AvREIFY av then av_reify av w else Inr (av, w)) (\<lambda>(av, w).
           bind_result (if key > AvMAX av then av_extend m av w key else Inr (av, w)) (\<lambda>(av, w).
             let w = (if \<not> AvFILLp av < key \<and> AvREAL av then SvREFCNT_dec (av_slot av key) w else w);
                 av = set_slot (fill_to av key) key val
             in Inr (Some key, av, store_magic av w key val))))"

definition SvIS_FREED :: "slot \<Rightarrow> world \<Rightarrow> bool" where
  "SvIS_FREED s w = (case s of Sv n \<Rightarrow> refcnt w n = 0 | _ \<Rightarrow> False)"

definition av_fetch :: "allocator \<Rightarrow> av \<Rightarrow> world \<Rightarrow> int \<Rightarrow> bool \<Rightarrow> (int option \<times> av \<times> world) result" where
  "av_fetch m av w key lval =
     (let key = norm_key av key in
      if key < 0 then Inr (None, av, w)
      else if key > AvFILLp av
      then if \<not> lval then Inr (None, av, w) else let (sv, w) = newSV w in av_store m av w key sv
      else if lval \<and> av_slot av key = Undef
      then let (sv, w) = newSV w in av_store m av w key sv
      else if AvREIFY av \<and> (av_slot av key = Null \<or> SvIS_FREED (av_slot av key) w)
      then let (sv, w) = newSV w in av_store m (set_slot av key Undef) w key sv
      else Inr (Some key, av, w))"

section \<open>Making and clearing\<close>

text \<open>\<open>sv_setsv\<close> copies a value into a new SV; the copies are new SVs here.\<close>

fun make_loop :: "slot list \<Rightarrow> world \<Rightarrow> slot list \<times> world" where
  "make_loop [] w = ([], w)"
| "make_loop (s # ss) w =
     (let (sv, w) = newSV w; (ary, w) = make_loop ss w in (sv # ary, w))"

definition newAV :: av where
  "newAV = \<lparr>AvALLOC = [], AvARRAY = 0, AvFILLp = - 1, AvMAX = - 1, AvREAL = True, AvREIFY = False,
     SvREADONLY = False, SvSMAGICAL = False, SvRMAGICAL = False, mg_is_isa = False\<rparr>"

definition av_make :: "allocator \<Rightarrow> slot list \<Rightarrow> world \<Rightarrow> (av \<times> world) result" where
  "av_make m strp w =
     (if strp = [] then Inr (newAV, w)
      else if \<not> newx m (length strp) 8 then Inl Out_of_memory
      else let (ary, w) = make_loop strp w
           in Inr (newAV\<lparr>AvALLOC := ary, AvFILLp := int (length strp) - 1, AvMAX := int (length strp) - 1\<rparr>, w))"

text \<open>
  \<open>while (index) { sv = ary[--index]; ary[index] = &PL_sv_undef; SvREFCNT_dec(sv); }\<close>
\<close>

fun clear_down :: "slot list \<Rightarrow> nat \<Rightarrow> nat \<Rightarrow> world \<Rightarrow> slot list \<times> world" where
  "clear_down xs b 0 w = (xs, w)"
| "clear_down xs b (Suc n) w = clear_down (xs[b + n := Undef]) b n (SvREFCNT_dec (xs ! (b + n)) w)"

definition av_clear :: "av \<Rightarrow> world \<Rightarrow> (av \<times> world) result" where
  "av_clear av w =
     (if SvREADONLY av then Inl No_modify
      else let w = (if SvRMAGICAL av
                    then if delaymagic w \<and> mg_is_isa av then w\<lparr>dm_array := True\<rparr> else log_event Mg_clear w
                    else w) in
      if AvMAX av < 0 then Inr (av, w)
      else let (xs, w) = (if AvREAL av
                          then clear_down (AvALLOC av) (AvARRAY av) (nat (AvFILLp av + 1)) w
                          else (AvALLOC av, w))
           in Inr (av\<lparr>AvALLOC := xs, AvMAX := AvMAX av + int (AvARRAY av), AvARRAY := 0, AvFILLp := - 1\<rparr>, w))"

fun dec_down :: "slot list \<Rightarrow> nat \<Rightarrow> nat \<Rightarrow> world \<Rightarrow> world" where
  "dec_down xs b 0 w = w"
| "dec_down xs b (Suc n) w = dec_down xs b n (SvREFCNT_dec (xs ! (b + n)) w)"

definition av_undef :: "av \<Rightarrow> world \<Rightarrow> av \<times> world" where
  "av_undef av w =
     (let w = (if AvREAL av then dec_down (AvALLOC av) (AvARRAY av) (nat (AvFILLp av + 1)) w else w);
          w = (if SvRMAGICAL av then log_event Mg_clear w else w)
      in (av\<lparr>AvALLOC := [], AvARRAY := 0, AvMAX := - 1, AvFILLp := - 1\<rparr>, w))"

section \<open>Both ends\<close>

definition av_push :: "allocator \<Rightarrow> av \<Rightarrow> world \<Rightarrow> slot \<Rightarrow> (av \<times> world) result" where
  "av_push m av w val =
     (if SvREADONLY av then Inl No_modify
      else bind_result (av_store m av w (AvFILLp av + 1) val) (\<lambda>(p, av, w). Inr (av, w)))"

definition set_magic :: "av \<Rightarrow> world \<Rightarrow> world" where
  "set_magic av w = (if SvSMAGICAL av then log_event Mg_set w else w)"

definition av_pop :: "av \<Rightarrow> world \<Rightarrow> (slot \<times> av \<times> world) result" where
  "av_pop av w =
     (if SvREADONLY av then Inl No_modify
      else if AvFILLp av < 0 then Inr (Undef, av, w)
      else Inr (av_slot av (AvFILLp av),
                (set_slot av (AvFILLp av) Undef)\<lparr>AvFILLp := AvFILLp av - 1\<rparr>, set_magic av w))"

text \<open>
  \<open>av_unshift\<close>: the slots in front of the array are taken first; the second part makes room for
  the rest and for a buffer in front.
\<close>

definition unshift_front :: "av \<Rightarrow> int \<Rightarrow> av \<times> int" where
  "unshift_front av num =
     (let i = (if int (AvARRAY av) > num then num else int (AvARRAY av))
      in (av\<lparr>AvMAX := AvMAX av + i, AvFILLp := AvFILLp av + i, AvARRAY := AvARRAY av - nat i\<rparr>, num - i))"

definition unshift_rest :: "allocator \<Rightarrow> av \<Rightarrow> world \<Rightarrow> int \<Rightarrow> (av \<times> world) result" where
  "unshift_rest m av w num =
     (let i = AvFILLp av; slide = (if i > 0 then i else 0); num = num + slide in
      bind_result (av_extend m av w (i32 (i + num))) (\<lambda>(av, w).
        let xs = move_slots (AvALLOC av) (AvARRAY av) (AvARRAY av + nat num) (nat (i + 1));
            xs = undef_down xs (AvARRAY av) (nat num)
        in Inr (av\<lparr>AvALLOC := xs, AvFILLp := AvFILLp av + num - slide, AvMAX := AvMAX av - slide,
                   AvARRAY := AvARRAY av + nat slide\<rparr>, w)))"

definition av_unshift :: "allocator \<Rightarrow> av \<Rightarrow> world \<Rightarrow> int \<Rightarrow> (av \<times> world) result" where
  "av_unshift m av w num =
     (if SvREADONLY av then Inl No_modify
      else if num \<le> 0 then Inr (av, w)
      else bind_result (if \<not> AvREAL av \<and> AvREIFY av then av_reify av w else Inr (av, w)) (\<lambda>(av, w).
        let (av, num) = (if AvARRAY av \<noteq> 0 then unshift_front av num else (av, num))
        in if num \<noteq> 0 then unshift_rest m av w num else Inr (av, w)))"

definition av_shift :: "av \<Rightarrow> world \<Rightarrow> (slot \<times> av \<times> world) result" where
  "av_shift av w =
     (if SvREADONLY av then Inl No_modify
      else if AvFILLp av < 0 then Inr (Undef, av, w)
      else let retval = av_slot av 0;
               av = (if AvREAL av then set_slot av 0 Undef else av)
           in Inr (retval, av\<lparr>AvARRAY := AvARRAY av + 1, AvMAX := AvMAX av - 1, AvFILLp := AvFILLp av - 1\<rparr>,
                   set_magic av w))"

definition av_create_and_push :: "allocator \<Rightarrow> av option \<Rightarrow> world \<Rightarrow> slot \<Rightarrow> (av \<times> world) result" where
  "av_create_and_push m avp w val = av_push m (case avp of None \<Rightarrow> newAV | Some av \<Rightarrow> av) w val"

definition av_create_and_unshift_one ::
    "allocator \<Rightarrow> av option \<Rightarrow> world \<Rightarrow> slot \<Rightarrow> (int option \<times> av \<times> world) result" where
  "av_create_and_unshift_one m avp w val =
     bind_result (av_unshift m (case avp of None \<Rightarrow> newAV | Some av \<Rightarrow> av) w 1) (\<lambda>(av, w).
       av_store m av w 0 val)"

section \<open>Length, fill, delete, exists\<close>

definition av_len :: "av \<Rightarrow> int" where
  "av_len av = AvFILLp av"

definition av_fill :: "allocator \<Rightarrow> av \<Rightarrow> world \<Rightarrow> int \<Rightarrow> (av \<times> world) result" where
  "av_fill m av w fill =
     (let fill = (if fill < 0 then - 1 else fill) in
      if fill \<le> AvMAX av
      then let key = AvFILLp av;
               (xs, w) = (if AvREAL av
                          then clear_down (AvALLOC av) (AvARRAY av + nat (fill + 1)) (nat (key - fill)) w
                          else (undef_up (AvALLOC av) (AvARRAY av + nat (key + 1)) (nat (fill - key)), w))
           in Inr (av\<lparr>AvALLOC := xs, AvFILLp := fill\<rparr>, set_magic av w)
      else bind_result (av_store m av w fill Undef) (\<lambda>(p, av, w). Inr (av, w)))"

text \<open>\<open>do { AvFILLp(av)--; } while (--key >= 0 && AvARRAY(av)[key] == &PL_sv_undef);\<close>\<close>

fun delete_down :: "slot list \<Rightarrow> nat \<Rightarrow> int" where
  "delete_down ary 0 = - 1"
| "delete_down ary (Suc key) = (if ary ! key = Undef then delete_down ary key else int key)"

definition av_delete :: "av \<Rightarrow> world \<Rightarrow> int \<Rightarrow> bool \<Rightarrow> (slot \<times> av \<times> world) result" where
  "av_delete av w key discard =
     (if SvREADONLY av then Inl No_modify
      else let key = norm_key av key in
      if key < 0 \<or> key > AvFILLp av then Inr (Null, av, w)
      else bind_result (if \<not> AvREAL av \<and> AvREIFY av then av_reify av w else Inr (av, w)) (\<lambda>(av, w).
        let sv = av_slot av key;
            av = (if key = AvFILLp av
                  then let av = set_slot av key Undef
                       in av\<lparr>AvFILLp := delete_down (drop (AvARRAY av) (AvALLOC av)) (nat key)\<rparr>
                  else set_slot av key Undef);
            w = set_magic av w
        in if discard then Inr (Null, av, SvREFCNT_dec sv w)
           else if AvREAL av then Inr (sv, av, (case sv of Sv n \<Rightarrow> w\<lparr>tmps := tmps w @ [n]\<rparr> | _ \<Rightarrow> w))
           else Inr (sv, av, w)))"

definition av_exists :: "av \<Rightarrow> int \<Rightarrow> bool" where
  "av_exists av key =
     (let key = norm_key av key in
      if key < 0 then False
      else key \<le> AvFILLp av \<and> av_slot av key \<noteq> Undef \<and> av_slot av key \<noteq> Null)"

section \<open>The loops over slots\<close>

lemma length_undef_down [simp]: "length (undef_down xs b n) = length xs"
  by (induction n arbitrary: xs) simp_all

lemma nth_undef_down:
  "i < length xs \<Longrightarrow> undef_down xs b n ! i = (if b \<le> i \<and> i < b + n then Undef else xs ! i)"
  by (induction n arbitrary: xs) (auto simp: nth_list_update less_Suc_eq)

lemma length_undef_up [simp]: "length (undef_up xs b n) = length xs"
  by (induction n arbitrary: xs b) simp_all

lemma nth_undef_up:
  "i < length xs \<Longrightarrow> undef_up xs b n ! i = (if b \<le> i \<and> i < b + n then Undef else xs ! i)"
  by (induction n arbitrary: xs b) (auto simp: nth_list_update)

lemma fst_clear_down: "fst (clear_down xs b n w) = undef_down xs b n"
  by (induction n arbitrary: xs w) simp_all

lemma length_move_slots [simp]:
  "src + n \<le> length xs \<Longrightarrow> dst + n \<le> length xs \<Longrightarrow> length (move_slots xs src dst n) = length xs"
  by (simp add: move_slots_def)

lemma nth_move_slots:
  "src + n \<le> length xs \<Longrightarrow> dst + n \<le> length xs \<Longrightarrow> i < length xs \<Longrightarrow>
   move_slots xs src dst n ! i = (if dst \<le> i \<and> i < dst + n then xs ! (src + (i - dst)) else xs ! i)"
  by (auto simp: move_slots_def nth_append)

section \<open>Invariant and abstraction\<close>

text \<open>The block has exactly the slots up to \<open>AvMAX\<close>; a real array keeps the unused ones undefined.\<close>

definition av_ok :: "av \<Rightarrow> bool" where
  "av_ok av \<longleftrightarrow> - 1 \<le> AvFILLp av \<and> AvFILLp av \<le> AvMAX av \<and>
     int (length (AvALLOC av)) = int (AvARRAY av) + AvMAX av + 1 \<and> length (AvALLOC av) < 2 ^ 31 \<and>
     (AvREAL av \<longrightarrow> (\<forall>i < length (AvALLOC av).
        i < AvARRAY av \<or> AvARRAY av + nat (AvFILLp av + 1) \<le> i \<longrightarrow> AvALLOC av ! i = Undef))"

definition elems :: "av \<Rightarrow> slot list" where
  "elems av = take (nat (AvFILLp av + 1)) (drop (AvARRAY av) (AvALLOC av))"

lemma av_ok_room: "av_ok av \<Longrightarrow> AvARRAY av + nat (AvFILLp av + 1) \<le> length (AvALLOC av)"
  unfolding av_ok_def by linarith

lemma length_elems: "av_ok av \<Longrightarrow> length (elems av) = nat (AvFILLp av + 1)"
  using av_ok_room[of av] by (simp add: elems_def)

lemma nth_elems: "av_ok av \<Longrightarrow> i < nat (AvFILLp av + 1) \<Longrightarrow> elems av ! i = AvALLOC av ! (AvARRAY av + i)"
  using av_ok_room[of av] by (simp add: elems_def)

lemma elems_eqI:
  assumes "av_ok av" and "length xs = nat (AvFILLp av + 1)"
    and "\<And>i. i < length xs \<Longrightarrow> AvALLOC av ! (AvARRAY av + i) = xs ! i"
  shows "elems av = xs"
  using assms by (intro nth_equalityI) (simp_all add: length_elems nth_elems)

text \<open>The flags that no operation but \<open>av_reify\<close> changes.\<close>

definition same_flags :: "av \<Rightarrow> av \<Rightarrow> bool" where
  "same_flags av av' \<longleftrightarrow> AvREAL av' = AvREAL av \<and> AvREIFY av' = AvREIFY av \<and>
     SvREADONLY av' = SvREADONLY av \<and> SvSMAGICAL av' = SvSMAGICAL av \<and> SvRMAGICAL av' = SvRMAGICAL av \<and>
     mg_is_isa av' = mg_is_isa av"

lemma same_flags_refl [simp]: "same_flags av av"
  by (simp add: same_flags_def)

section \<open>Sizes\<close>

lemma i32_id: "- (2 ^ 31) \<le> x \<Longrightarrow> x < 2 ^ 31 \<Longrightarrow> i32 x = x"
  by (simp add: i32_def)

lemma i32_range: "- (2 ^ 31) \<le> i32 x \<and> i32 x < 2 ^ 31"
  by (simp add: i32_def)

lemma i32_wrap: "2 ^ 31 \<le> x \<Longrightarrow> x < 2 ^ 32 + 2 ^ 31 \<Longrightarrow> i32 x = x - 2 ^ 32"
proof -
  assume x: "2 ^ 31 \<le> x" "x < 2 ^ 32 + 2 ^ 31"
  have "x + 2 ^ 31 = (x - 2 ^ 31) + 2 ^ 32" by simp
  then have "(x + 2 ^ 31) mod 2 ^ 32 = (x - 2 ^ 31) mod 2 ^ 32" by (simp only: mod_add_self2)
  also have "\<dots> = x - 2 ^ 31" using x by (intro mod_pos_pos_trivial) simp_all
  finally show ?thesis by (simp add: i32_def)
qed

lemma mem_size_nonneg: "0 \<le> x \<Longrightarrow> x < 2 ^ 64 \<Longrightarrow> mem_size x = nat x"
  by (simp add: mem_size_def)

lemma mem_size_neg: "- (2 ^ 31) \<le> x \<Longrightarrow> x < 0 \<Longrightarrow> mem_size x > (2 ^ 64 - 1) div 8"
proof -
  assume x: "- (2 ^ 31) \<le> x" "x < 0"
  have "x mod 2 ^ 64 = (x + 2 ^ 64) mod 2 ^ 64" by simp
  also have "\<dots> = x + 2 ^ 64" using x by (intro mod_pos_pos_trivial) simp_all
  finally show ?thesis using x by (simp add: mem_size_def) 
qed

text \<open>The doubling loop ends at the first \<open>16 * 2 ^ k\<close> that is large enough.\<close>

lemma malloc_slots_form:
  "\<exists>k. malloc_slots bytes = 2 * 2 ^ k - 2 \<and> bytes \<le> 16 * 2 ^ k - 16 \<and> (k = 0 \<or> 8 * 2 ^ k < bytes + 16)"
proof -
  let ?b = "\<lambda>itmp. itmp - 16 < bytes" and ?c = "\<lambda>itmp :: nat. itmp + itmp"
  let ?I = "\<lambda>itmp :: nat. \<exists>k. itmp = 16 * 2 ^ k \<and> (k = 0 \<or> 8 * 2 ^ k < bytes + (16 :: nat))"
  have "?I (while ?b ?c 16) \<and> \<not> ?b (while ?b ?c 16)"
  proof (rule while_rule[where P = ?I and r = "measure (\<lambda>itmp. bytes + 16 - itmp)"])
    show "?I 16" by (rule exI[of _ 0]) simp
  next
    fix itmp assume "?I itmp" "?b itmp"
    then obtain k where "itmp = 16 * 2 ^ k" "16 * 2 ^ k < bytes + 16" by force
    then show "?I (?c itmp)" by (intro exI[of _ "Suc k"]) simp
    show "(?c itmp, itmp) \<in> measure (\<lambda>itmp. bytes + 16 - itmp)"
    proof -
      have "0 < itmp" "itmp < bytes + 16"
        using \<open>itmp = 16 * 2 ^ k\<close> \<open>16 * 2 ^ k < bytes + 16\<close> by simp_all
      then show ?thesis unfolding in_measure by linarith
    qed
  qed simp_all
  then obtain k where k: "while ?b ?c 16 = 16 * 2 ^ k" "k = 0 \<or> 8 * 2 ^ k < bytes + 16"
    "bytes \<le> 16 * 2 ^ k - 16" by auto
  then have "malloc_slots bytes = (16 * 2 ^ k - 16) div 8" by (simp add: malloc_slots_def)
  also have "16 * 2 ^ k - 16 = 8 * (2 * 2 ^ k - 2 :: nat)" by (simp add: diff_mult_distrib2)
  finally show ?thesis using k by auto
qed

text \<open>
  A request the allocator grants is for a size that has not wrapped, so the new maximum is at
  least the one asked for.
\<close>

lemma grown_max:
  assumes "- (2 ^ 31) \<le> want" "want < 2 ^ 31"
    and "\<not> mem_size (i32 (want + 1)) > (2 ^ 64 - 1) div 8"
    and "newmax = i32 (int (malloc_slots (mem_size (i32 (want + 1)) * 8)) - 1)"
    and "newx m (mem_size (i32 (newmax + 1))) 8"
  shows "- 1 \<le> want" "want \<le> newmax" "newmax < 2 ^ 31 - 1"
proof -
  have pos: "0 \<le> i32 (want + 1)"
    using mem_size_neg[of "i32 (want + 1)"] i32_range[of "want + 1"] assms(3) by (meson not_le)
  have w: "- 1 \<le> want \<and> want + 1 < 2 ^ 31"
  proof (cases "want + 1 < 2 ^ 31")
    case True
    then show ?thesis using pos assms(1) by (simp add: i32_id)
  next
    case False
    then have "want + 1 = 2 ^ 31" using assms(2) by simp
    then have "i32 (want + 1) = - (2 ^ 31)" using i32_wrap[of "want + 1"] by simp
    with pos show ?thesis by simp
  qed
  then show "- 1 \<le> want" by simp
  define b where "b = nat (want + 1) * 8"
  have size: "mem_size (i32 (want + 1)) * 8 = b"
    using w by (simp add: b_def i32_id mem_size_nonneg)
  obtain k where k: "malloc_slots b = 2 * 2 ^ k - 2" "b \<le> 16 * 2 ^ k - 16" "k = 0 \<or> 8 * 2 ^ k < b + 16"
    using malloc_slots_form[of b] by blast
  have "b \<le> 2 ^ 34 - 8" using w by (simp add: b_def nat_le_iff)
  then have "k = 0 \<or> (2 :: nat) ^ k < 2 ^ 32" using k(3) by auto
  then have "k < 32" by (metis power_less_imp_less_exp one_less_numeral_iff semiring_norm(76) zero_less_numeral)
  have le: "want + 1 \<le> int (malloc_slots b)"
  proof -
    have "nat (want + 1) * 8 \<le> 8 * (2 * 2 ^ k - 2)" using k(2) by (simp add: b_def diff_mult_distrib2)
    then show ?thesis using k(1) by linarith
  qed
  have n: "newmax = i32 (int (malloc_slots b) - 1)" using assms(4) size by simp
  have granted: "0 \<le> i32 (newmax + 1)"
    using mem_size_neg[of "i32 (newmax + 1)"] i32_range[of "newmax + 1"] assms(5) by (meson newx_def not_le)
  have "int (malloc_slots b) - 1 < 2 ^ 31 - 1"
  proof (rule ccontr)
    assume big: "\<not> ?thesis"
    have "k = 31"
    proof (rule ccontr)
      assume "k \<noteq> 31"
      with \<open>k < 32\<close> have "(2 :: nat) ^ k \<le> 2 ^ 30" by (intro power_increasing) simp_all
      then have "malloc_slots b \<le> 2147483646" using k(1) by simp
      then have "int (malloc_slots b) \<le> 2147483646" by simp
      with big show False by simp
    qed
    then have "int (malloc_slots b) = 2 ^ 32 - 2" using k(1) by simp
    then have "newmax = - 3" using n i32_wrap[of "2 ^ 32 - 3"] by simp
    with granted show False by (simp add: i32_def)
  qed
  moreover have "newmax = int (malloc_slots b) - 1"
    unfolding n using calculation le w by (intro i32_id) simp_all
  ultimately show "want \<le> newmax" "newmax < 2 ^ 31 - 1" using le by simp_all
qed

section \<open>Extending\<close>

text \<open>What extending leaves: the same elements and flags, and room for the key.\<close>

definition extended :: "av \<Rightarrow> av \<Rightarrow> bool" where
  "extended av av' \<longleftrightarrow> av_ok av' \<and> elems av' = elems av \<and> AvFILLp av' = AvFILLp av \<and> same_flags av av'"

definition same_counts :: "world \<Rightarrow> world \<Rightarrow> bool" where
  "same_counts w w' \<longleftrightarrow> refcnt w' = refcnt w \<and> next_sv w' = next_sv w \<and> tmps w' = tmps w"

lemma same_counts_simps [simp]:
  "same_counts w w" "same_counts w (log_event e w)" "same_counts w (w\<lparr>dm_array := b\<rparr>)"
  by (simp_all add: same_counts_def log_event_def)

lemma av_resize_ok:
  assumes ok: "av_ok av" "AvARRAY av = 0"
    and want: "AvMAX av \<le> want \<or> want < - 1" "- (2 ^ 31) \<le> want" "want < 2 ^ 31"
    and r: "av_resize m av w want = Inr (av', w')"
  shows "extended av av'" "want \<le> AvMAX av'" "same_counts w w'" "- 1 \<le> want"
proof -
  define newmax where "newmax = i32 (int (malloc_slots (mem_size (i32 (want + 1)) * 8)) - 1)"
  have c: "\<not> mem_size (i32 (want + 1)) > (2 ^ 64 - 1) div 8" "newx m (mem_size (i32 (newmax + 1))) 8"
    using r by (auto simp: av_resize_def Let_def newmax_def split: if_splits)
  note g = grown_max[OF want(2,3) c(1) newmax_def c(2)]
  show "- 1 \<le> want" by (rule g(1))
  define ary where "ary = take (nat (AvMAX av + 1)) (AvALLOC av) @ replicate (nat (newmax - AvMAX av)) Junk"
  define ary' where "ary' = (if AvREAL av
    then undef_down ary (nat (AvMAX av + 1)) (nat (newmax - AvMAX av)) else ary)"
  have av': "av' = av\<lparr>AvALLOC := ary', AvARRAY := 0, AvMAX := newmax\<rparr>"
    and w': "same_counts w w'"
    using r c by (auto simp: av_resize_def Let_def newmax_def ary'_def ary_def split: if_splits)
  show "same_counts w w'" by (rule w')
  show "want \<le> AvMAX av'" using g(2) by (simp add: av')
  have max: "AvMAX av \<le> newmax" using want(1) g by linarith
  have len: "length (AvALLOC av) = nat (AvMAX av + 1)" "- 1 \<le> AvFILLp av" "AvFILLp av \<le> AvMAX av"
    using ok unfolding av_ok_def by linarith+
  have lary: "length ary' = nat (newmax + 1)"
    using len max by (simp add: ary'_def ary_def)
  have old: "ary' ! i = AvALLOC av ! i" if "i < nat (AvMAX av + 1)" for i
    using that len max by (simp add: ary'_def ary_def nth_undef_down nth_append)
  have new: "ary' ! i = Undef" if "AvREAL av" "nat (AvMAX av + 1) \<le> i" "i < nat (newmax + 1)" for i
    using that len max by (auto simp: ary'_def ary_def nth_undef_down)
  have ok': "av_ok av'"
    unfolding av_ok_def
  proof (intro conjI impI allI)
    fix i assume real: "AvREAL av'" and i: "i < length (AvALLOC av')"
      "i < AvARRAY av' \<or> AvARRAY av' + nat (AvFILLp av' + 1) \<le> i"
    show "AvALLOC av' ! i = Undef"
    proof (cases "i < nat (AvMAX av + 1)")
      case True
      with real i ok len show ?thesis by (auto simp: av' old av_ok_def)
    qed (use real i lary new in \<open>simp add: av'\<close>)
  qed (use len max g lary in \<open>simp_all add: av'\<close>)
  moreover have "elems av' = elems av"
    by (rule elems_eqI[OF ok']) (use ok len old in \<open>simp_all add: av' length_elems nth_elems\<close>)
  ultimately show "extended av av'" by (simp add: extended_def av' same_flags_def)
qed

lemma av_extend_ok:
  assumes ok: "av_ok av" and key: "- 1 \<le> key" "key < 2 ^ 31"
    and r: "av_extend m av w key = Inr (av', w')"
  shows "extended av av'" "key \<le> AvMAX av'" "same_counts w w'"
proof -
  have "extended av av' \<and> key \<le> AvMAX av' \<and> same_counts w w'"
  proof (cases "key > AvMAX av")
    case False
    then show ?thesis using r ok by (simp add: av_extend_def extended_def)
  next
    case more: True
    have len: "length (AvALLOC av) = AvARRAY av + nat (AvMAX av + 1)" "- 1 \<le> AvFILLp av" "AvFILLp av \<le> AvMAX av"
      "length (AvALLOC av) < 2 ^ 31"
      using ok unfolding av_ok_def by linarith+
    consider (shifted) "AvARRAY av \<noteq> 0" | (full) "AvARRAY av = 0" "AvALLOC av \<noteq> []"
      | (none) "AvARRAY av = 0" "AvALLOC av = []"
      by blast
    then show ?thesis
    proof cases
      case shifted
      let ?f = "nat (AvFILLp av + 1)" and ?tmp = "AvARRAY av"
      define xs where "xs = move_slots (AvALLOC av) ?tmp 0 ?f"
      define xs' where "xs' = (if AvREAL av then undef_down xs ?f ?tmp else xs)"
      define av1 where "av1 = av\<lparr>AvALLOC := xs', AvMAX := AvMAX av + int ?tmp, AvARRAY := 0\<rparr>"
      have room: "?tmp + ?f \<le> length (AvALLOC av)" by (rule av_ok_room[OF ok])
      have lxs: "length xs' = length (AvALLOC av)" using room by (simp add: xs'_def xs_def)
      have nth: "xs' ! i = (if i < ?f then AvALLOC av ! (?tmp + i)
          else if AvREAL av \<and> i < ?f + ?tmp then Undef else AvALLOC av ! i)" if "i < length (AvALLOC av)" for i
        using that room by (simp add: xs'_def xs_def nth_undef_down nth_move_slots)
      have ok1: "av_ok av1"
        unfolding av_ok_def
      proof (intro conjI impI allI)
        fix i assume "AvREAL av1" "i < length (AvALLOC av1)" "i < AvARRAY av1 \<or> AvARRAY av1 + nat (AvFILLp av1 + 1) \<le> i"
        then have i: "AvREAL av" "i < length (AvALLOC av)" "?f \<le> i" by (simp_all add: av1_def lxs)
        then have "i < ?f + ?tmp \<or> AvALLOC av ! i = Undef" using ok by (auto simp: av_ok_def)
        then show "AvALLOC av1 ! i = Undef" using i nth by (auto simp: av1_def)
      qed (use len lxs in \<open>simp_all add: av1_def\<close>)
      have el1: "elems av1 = elems av"
        by (rule elems_eqI[OF ok1]) (use ok nth room in \<open>simp_all add: av1_def length_elems nth_elems\<close>)
      have ext1: "extended av av1" using ok1 el1 by (simp add: extended_def av1_def same_flags_def)
      show ?thesis
      proof (cases "key > AvMAX av1 - 10")
        case True
        then have r1: "av_resize m av1 w (i32 (key + AvMAX av1)) = Inr (av', w')"
          unfolding av1_def xs'_def xs_def
          using r more shifted by (simp add: av_extend_def Let_def split del: if_split)
        have max1: "0 \<le> AvMAX av1" "AvMAX av1 < 2 ^ 31 - 1" using shifted len by (simp_all add: av1_def)
        have w: "i32 (key + AvMAX av1) = key + AvMAX av1 \<or> i32 (key + AvMAX av1) < - 1"
          using key max1 i32_wrap[of "key + AvMAX av1"] i32_id[of "key + AvMAX av1"]
          by (cases "key + AvMAX av1 < 2 ^ 31") simp_all
        have want: "AvMAX av1 \<le> i32 (key + AvMAX av1) \<or> i32 (key + AvMAX av1) < - 1"
          using w more len(2,3) by linarith
        note res = av_resize_ok[OF ok1 _ want _ _ r1]
        have "AvARRAY av1 = 0" by (simp add: av1_def)
        note res = res[OF this i32_range[THEN conjunct1] i32_range[THEN conjunct2]]
        have "key \<le> AvMAX av'" using res(2,4) w max1 by linarith
        with res ext1 show ?thesis by (simp add: extended_def same_flags_def)
      next
        case False
        then have "av' = av1 \<and> w' = w"
          unfolding av1_def xs'_def xs_def
          using r more shifted by (auto simp: av_extend_def Let_def split del: if_split)
        with ext1 False show ?thesis by simp
      qed
    next
      case full
      then have r1: "av_resize m av w (i32 (key + AvMAX av div 5)) = Inr (av', w')"
        using r more by (simp add: av_extend_def)
      have max: "0 \<le> AvMAX av" "AvMAX av < 2 ^ 31 - 1"
      proof -
        have "0 < length (AvALLOC av)" using full(2) by simp
        moreover have "length (AvALLOC av) < 2147483648" using len by simp
        ultimately have "0 \<le> AvMAX av" "AvMAX av < 2147483647" using full(1) len(1-3) by linarith+
        then show "0 \<le> AvMAX av" "AvMAX av < 2 ^ 31 - 1" by simp_all
      qed
      then have q: "0 \<le> AvMAX av div 5" "AvMAX av div 5 < 2 ^ 30" by simp_all
      have w: "i32 (key + AvMAX av div 5) = key + AvMAX av div 5 \<or> i32 (key + AvMAX av div 5) < - 1"
        using key q i32_wrap[of "key + AvMAX av div 5"] i32_id[of "key + AvMAX av div 5"]
        by (cases "key + AvMAX av div 5 < 2 ^ 31") simp_all
      have want: "AvMAX av \<le> i32 (key + AvMAX av div 5) \<or> i32 (key + AvMAX av div 5) < - 1"
        using w more q by linarith
      note res = av_resize_ok[OF ok full(1) want i32_range[THEN conjunct1] i32_range[THEN conjunct2] r1]
      have "key \<le> AvMAX av'" using res(2,4) w q by linarith
      with res show ?thesis by simp
    next
      case none
      define newmax where "newmax = (if key < 3 then 3 else key)"
      define ary where "ary = Undef # replicate (nat newmax) Junk"
      define ary' where "ary' = (if AvREAL av then undef_down ary 1 (nat newmax) else ary)"
      have c: "\<not> mem_size (i32 (newmax + 1)) > (2 ^ 64 - 1) div 8"
        "av' = av\<lparr>AvALLOC := ary', AvARRAY := 0, AvMAX := newmax\<rparr>" "w' = w"
        using r more none by (auto simp: av_extend_def Let_def newmax_def ary'_def ary_def split: if_splits)
      have fill: "AvFILLp av = - 1" using none len by simp
      have "newmax + 1 < 2 ^ 31"
      proof (rule ccontr)
        assume "\<not> ?thesis"
        then have "newmax + 1 = 2 ^ 31" using key by (auto simp: newmax_def split: if_splits)
        then have "i32 (newmax + 1) = - (2 ^ 31)" using i32_wrap[of "newmax + 1"] by simp
        with c(1) mem_size_neg[of "i32 (newmax + 1)"] show False by simp
      qed
      moreover have "key \<le> newmax" "3 \<le> newmax" by (auto simp: newmax_def)
      moreover have "ary' ! i = Undef" if "AvREAL av" "i < length ary'" for i
        using that by (cases i) (auto simp: ary'_def ary_def nth_undef_down)
      moreover have "length ary' = nat newmax + 1" by (simp add: ary'_def ary_def)
      ultimately show ?thesis
        using fill c(2,3) by (simp add: extended_def av_ok_def elems_def same_flags_def)
    qed
  qed
  then show "extended av av'" "key \<le> AvMAX av'" "same_counts w w'" by simp_all
qed

section \<open>Reifying\<close>

lemma inc_slots_counts:
  "inc_slots ss w = Inr w' \<Longrightarrow>
   refcnt w' n = refcnt w n + count_list ss (Sv n) \<and> next_sv w' = next_sv w \<and> tmps w' = tmps w \<and>
   events w' = events w"
proof (induction ss arbitrary: w)
  case (Cons s ss)
  then show ?case by (cases s) (auto simp: SvREFCNT_inc_def)
qed simp

lemma count_list_rev [simp]: "count_list (rev xs) x = count_list xs x"
  by (induction xs) simp_all

definition reified :: "av \<Rightarrow> av \<Rightarrow> bool" where
  "reified av av' \<longleftrightarrow> av_ok av' \<and> elems av' = elems av \<and> AvFILLp av' = AvFILLp av \<and>
     AvMAX av' = AvMAX av \<and> SvREADONLY av' = SvREADONLY av \<and> SvSMAGICAL av' = SvSMAGICAL av \<and>
     SvRMAGICAL av' = SvRMAGICAL av \<and> mg_is_isa av' = mg_is_isa av \<and> AvREAL av' \<and> \<not> AvREIFY av'"

lemma av_reify_ok:
  assumes ok: "av_ok av" and f: "\<not> AvREAL av" and r: "av_reify av w = Inr (av', w')"
  shows "reified av av'" "refcnt w' n = refcnt w n + count_list (elems av) (Sv n)"
    "next_sv w' = next_sv w" "tmps w' = tmps w"
proof -
  let ?f = "nat (AvFILLp av + 1)" and ?o = "AvARRAY av"
  define xs where "xs = undef_down (AvALLOC av) (?o + ?f) (nat (AvMAX av - AvFILLp av))"
  have room: "?o + ?f \<le> length (AvALLOC av)" by (rule av_ok_room[OF ok])
  have len: "length (AvALLOC av) = ?o + ?f + nat (AvMAX av - AvFILLp av)" "- 1 \<le> AvFILLp av"
    using ok unfolding av_ok_def by linarith+
  have nth: "xs ! i = (if ?o + ?f \<le> i then Undef else AvALLOC av ! i)" if "i < length (AvALLOC av)" for i
    using that len by (simp add: xs_def nth_undef_down)
  have el: "take ?f (drop ?o xs) = elems av"
  proof (rule nth_equalityI)
    show "length (take ?f (drop ?o xs)) = length (elems av)"
      using room ok by (simp add: xs_def length_elems)
    fix i assume "i < length (take ?f (drop ?o xs))"
    then show "take ?f (drop ?o xs) ! i = elems av ! i"
      using room ok nth by (simp add: xs_def nth_elems)
  qed
  have av': "av' = av\<lparr>AvALLOC := undef_down xs 0 ?o, AvREIFY := False, AvREAL := True\<rparr>"
    and w': "inc_slots (rev (elems av)) w = Inr w'"
    using r f el by (auto simp: av_reify_def xs_def[symmetric] bind_result_Inr Let_def)
  have flds: "AvARRAY av' = ?o" "AvFILLp av' = AvFILLp av" "AvMAX av' = AvMAX av"
    "length (AvALLOC av') = length (AvALLOC av)"
    by (simp_all add: av' xs_def)
  have nth': "AvALLOC av' ! i = (if i < ?o \<or> ?o + ?f \<le> i then Undef else AvALLOC av ! i)"
    if "i < length (AvALLOC av)" for i
    using that nth[of i] len(1) by (auto simp: av' nth_undef_down xs_def)
  have ok': "av_ok av'"
    using ok nth' by (simp add: av_ok_def flds)
  moreover have "elems av' = elems av"
    by (rule elems_eqI[OF ok']) (use ok nth' room in \<open>simp_all add: flds length_elems nth_elems\<close>)
  ultimately show "reified av av'" by (simp add: reified_def av')
  show "refcnt w' n = refcnt w n + count_list (elems av) (Sv n)" "next_sv w' = next_sv w" "tmps w' = tmps w"
    using inc_slots_counts[OF w', of n] by simp_all
qed

section \<open>Storing\<close>

text \<open>The array as a list: what a store at \<open>k\<close> does to it.\<close>

definition store_list :: "slot list \<Rightarrow> nat \<Rightarrow> slot \<Rightarrow> slot list" where
  "store_list xs k v = (if k < length xs then xs[k := v] else xs @ replicate (k - length xs) Undef @ [v])"

lemma length_store_list: "length (store_list xs k v) = max (length xs) (Suc k)"
  by (auto simp: store_list_def)

lemma nth_store_list:
  "i < length (store_list xs k v) \<Longrightarrow>
   store_list xs k v ! i = (if i = k then v else if i < length xs then xs ! i else Undef)"
  by (auto simp: store_list_def nth_append nth_list_update split: if_splits)

lemma put_ok:
  assumes ok: "av_ok av" and key: "0 \<le> key" "key \<le> AvMAX av"
  shows "av_ok (set_slot (fill_to av key) key val)"
    "elems (set_slot (fill_to av key) key val) = store_list (elems av) (nat key) val"
proof -
  let ?f = "nat (AvFILLp av + 1)" and ?o = "AvARRAY av" and ?k = "nat key"
  define av' where "av' = set_slot (fill_to av key) key val"
  have len: "length (AvALLOC av) = ?o + nat (AvMAX av + 1)" "- 1 \<le> AvFILLp av" "AvFILLp av \<le> AvMAX av"
    "length (AvALLOC av) < 2 ^ 31"
    using ok unfolding av_ok_def by linarith+
  have flds: "AvARRAY av' = ?o" "AvMAX av' = AvMAX av" "AvREAL av' = AvREAL av"
    "AvFILLp av' = max (AvFILLp av) key" "length (AvALLOC av') = length (AvALLOC av)"
    by (auto simp: av'_def set_slot_def fill_to_def)
  have nth: "AvALLOC av' ! i = (if i = ?o + ?k then val
      else if ?o + ?f \<le> i \<and> i \<le> ?o + ?k then Undef else AvALLOC av ! i)"
    if "i < length (AvALLOC av)" for i
  proof -
    have "AvREAL av \<Longrightarrow> ?o + ?f \<le> i \<Longrightarrow> AvALLOC av ! i = Undef" using ok that by (simp add: av_ok_def)
    then show ?thesis
      using that key len
      by (auto simp: av'_def set_slot_def fill_to_def nth_list_update nth_undef_up)
  qed
  have "av_ok av'"
    unfolding av_ok_def flds
  proof (intro conjI impI allI)
    fix i assume i: "AvREAL av" "i < length (AvALLOC av)" "i < ?o \<or> ?o + nat (max (AvFILLp av) key + 1) \<le> i"
    then have "i \<noteq> ?o + ?k" "i < ?o \<or> ?o + ?f \<le> i" using key len by auto
    with i ok nth show "AvALLOC av' ! i = Undef" by (auto simp: av_ok_def)
  qed (use len key ok in \<open>simp_all add: av_ok_def\<close>)
  moreover have "elems av' = store_list (elems av) ?k val"
  proof (rule elems_eqI[OF calculation])
    show "length (store_list (elems av) ?k val) = nat (AvFILLp av' + 1)"
      using key len ok by (simp add: flds length_store_list length_elems)
    fix i assume i: "i < length (store_list (elems av) ?k val)"
    then have "i < nat (AvMAX av + 1)" using key len ok by (simp add: length_store_list length_elems)
    then have "?o + i < length (AvALLOC av)" using len by simp
    with nth[of "?o + i"] i ok show "AvALLOC av' ! (AvARRAY av' + i) = store_list (elems av) ?k val ! i"
      by (auto simp: flds nth_store_list length_store_list length_elems nth_elems)
  qed
  ultimately show "av_ok (set_slot (fill_to av key) key val)"
    "elems (set_slot (fill_to av key) key val) = store_list (elems av) (nat key) val"
    by (simp_all add: av'_def)
qed

text \<open>
  The whole of \<open>av_store\<close>: the key is normalised, a fake array that may become real does so, and
  the element is put in place.
\<close>

definition realish :: "av \<Rightarrow> bool" where
  "realish av \<longleftrightarrow> AvREAL av \<or> AvREIFY av"

text \<open>What an operation may change besides elements, and what it keeps.\<close>

definition keeps :: "av \<Rightarrow> av \<Rightarrow> bool" where
  "keeps av av' \<longleftrightarrow> av_ok av' \<and> SvREADONLY av' = SvREADONLY av \<and> SvSMAGICAL av' = SvSMAGICAL av \<and>
     SvRMAGICAL av' = SvRMAGICAL av \<and> mg_is_isa av' = mg_is_isa av \<and> realish av' = realish av"

lemma maybe_reify_ok:
  assumes "av_ok av" and "(if \<not> AvREAL av \<and> AvREIFY av then av_reify av w else Inr (av, w)) = Inr (av', w')"
  shows "keeps av av'" "elems av' = elems av" "AvFILLp av' = AvFILLp av" "AvMAX av' = AvMAX av"
    "AvREAL av' = realish av" "next_sv w' = next_sv w" "tmps w' = tmps w"
    "AvREAL av \<Longrightarrow> av' = av \<and> w' = w"
  using assms av_reify_ok[of av w av' w']
  by (auto simp: keeps_def reified_def realish_def split: if_splits)

lemma set_slot_sel [simp]:
  "AvFILLp (set_slot av k v) = AvFILLp av" "AvMAX (set_slot av k v) = AvMAX av"
  "AvARRAY (set_slot av k v) = AvARRAY av" "AvREAL (set_slot av k v) = AvREAL av"
  "AvREIFY (set_slot av k v) = AvREIFY av" "SvREADONLY (set_slot av k v) = SvREADONLY av"
  "SvSMAGICAL (set_slot av k v) = SvSMAGICAL av" "SvRMAGICAL (set_slot av k v) = SvRMAGICAL av"
  "mg_is_isa (set_slot av k v) = mg_is_isa av"
  by (simp_all add: set_slot_def)

lemma fill_to_sel [simp]:
  "AvMAX (fill_to av k) = AvMAX av" "AvARRAY (fill_to av k) = AvARRAY av" "AvREAL (fill_to av k) = AvREAL av"
  "AvREIFY (fill_to av k) = AvREIFY av" "SvREADONLY (fill_to av k) = SvREADONLY av"
  "SvSMAGICAL (fill_to av k) = SvSMAGICAL av" "SvRMAGICAL (fill_to av k) = SvRMAGICAL av"
  "mg_is_isa (fill_to av k) = mg_is_isa av" "AvFILLp (fill_to av k) = max (AvFILLp av) k"
  by (auto simp: fill_to_def)

lemma av_store_ok:
  assumes ok: "av_ok av" and key: "key < 2 ^ 31" "0 \<le> norm_key av key"
    and r: "av_store m av w key val = Inr (p, av', w')"
  shows "keeps av av'" "p = Some (norm_key av key)"
    "elems av' = store_list (elems av) (nat (norm_key av key)) (norm_val val)"
proof -
  let ?k = "norm_key av key" and ?v = "norm_val val"
  have nn: "\<not> ?k < 0" using key(2) by simp
  have st: "av_store m av w key val =
     (if SvREADONLY av \<and> ?k \<ge> AvFILLp av then Inl No_modify
      else bind_result (if \<not> AvREAL av \<and> AvREIFY av then av_reify av w else Inr (av, w)) (\<lambda>(av, w).
           bind_result (if ?k > AvMAX av then av_extend m av w ?k else Inr (av, w)) (\<lambda>(av, w).
             let w = (if \<not> AvFILLp av < ?k \<and> AvREAL av then SvREFCNT_dec (av_slot av ?k) w else w);
                 av = set_slot (fill_to av ?k) ?k ?v
             in Inr (Some ?k, av, store_magic av w ?k ?v))))"
    unfolding av_store_def Let_def if_not_P[OF nn] by (rule refl)
  have "\<not> (SvREADONLY av \<and> ?k \<ge> AvFILLp av)" using r st by auto
  note r' = r[unfolded st if_not_P[OF this]]
  obtain x where x: "(if \<not> AvREAL av \<and> AvREIFY av then av_reify av w else Inr (av, w)) = Inr x"
    and rx: "(case x of (av, w) \<Rightarrow>
       bind_result (if ?k > AvMAX av then av_extend m av w ?k else Inr (av, w)) (\<lambda>(av, w).
             let w = (if \<not> AvFILLp av < ?k \<and> AvREAL av then SvREFCNT_dec (av_slot av ?k) w else w);
                 av = set_slot (fill_to av ?k) ?k ?v
             in Inr (Some ?k, av, store_magic av w ?k ?v))) = Inr (p, av', w')"
    by (rule bind_result_InrE[OF r'])
  obtain av1 w1 where x1: "x = (av1, w1)" by (cases x)
  note 1 = x[unfolded x1]
  obtain y where y: "(if ?k > AvMAX av1 then av_extend m av1 w1 ?k else Inr (av1, w1)) = Inr y"
    and ry: "(case y of (av, w) \<Rightarrow>
             let w = (if \<not> AvFILLp av < ?k \<and> AvREAL av then SvREFCNT_dec (av_slot av ?k) w else w);
                 av = set_slot (fill_to av ?k) ?k ?v
             in Inr (Some ?k, av, store_magic av w ?k ?v)) = (Inr (p, av', w') :: (int option \<times> av \<times> world) result)"
    by (rule bind_result_InrE[OF rx[unfolded x1 prod.case]])
  obtain av2 w2 where y2: "y = (av2, w2)" by (cases y)
  note 2 = y[unfolded y2]
  have 3: "p = Some ?k" "av' = set_slot (fill_to av2 ?k) ?k ?v"
    using ry unfolding y2 by (auto simp: Let_def)
  note re = maybe_reify_ok[OF ok 1]
  have ok1: "av_ok av1" using re(1) by (simp add: keeps_def)
  have "?k < 2 ^ 31" using key ok by (auto simp: norm_key_def av_ok_def)
  then have ext: "extended av1 av2" "?k \<le> AvMAX av2"
    using 2 key(2) av_extend_ok[OF ok1, of ?k m w1 av2 w2] ok1
    by (auto simp: extended_def split: if_splits)
  note put = put_ok[of av2 ?k ?v]
  show "p = Some ?k" by (rule 3(1))
  show "elems av' = store_list (elems av) (nat ?k) ?v"
    using put(2) ext key(2) re(2) by (simp add: 3(2) extended_def)
  show "keeps av av'"
    using put(1) ext key(2) re(1) by (simp add: 3(2) extended_def keeps_def same_flags_def realish_def)
qed

section \<open>Both ends: correctness\<close>

lemma av_push_ok:
  assumes ok: "av_ok av" and r: "av_push m av w val = Inr (av', w')"
  shows "keeps av av'" "elems av' = elems av @ [norm_val val]"
proof -
  from r obtain p where st: "av_store m av w (AvFILLp av + 1) val = Inr (p, av', w')"
    by (auto simp: av_push_def bind_result_Inr split: if_splits)
  have k: "AvFILLp av + 1 < 2 ^ 31" "norm_key av (AvFILLp av + 1) = AvFILLp av + 1" "0 \<le> AvFILLp av + 1"
    using ok by (simp_all add: av_ok_def norm_key_def)
  note st = av_store_ok[OF ok k(1) _ st]
  show "keeps av av'" using st(1) k by simp
  show "elems av' = elems av @ [norm_val val]"
    using st(3) k ok by (simp add: store_list_def length_elems)
qed

lemma elems_last:
  assumes "av_ok av" "0 \<le> AvFILLp av"
  shows "elems av = take (nat (AvFILLp av)) (elems av) @ [av_slot av (AvFILLp av)]"
proof -
  have n: "nat (AvFILLp av + 1) = Suc (nat (AvFILLp av))" using assms(2) by simp
  have "take (Suc (nat (AvFILLp av))) (elems av) =
      take (nat (AvFILLp av)) (elems av) @ [elems av ! nat (AvFILLp av)]"
    using assms by (intro take_Suc_conv_app_nth) (simp add: length_elems n)
  moreover have "take (Suc (nat (AvFILLp av))) (elems av) = elems av"
    using assms by (simp add: length_elems n)
  ultimately show ?thesis using assms by (simp add: nth_elems n av_slot_def)
qed

text \<open>The slot of the last or of the first element leaves the array.\<close>

lemma drop_last_ok:
  assumes ok: "av_ok av" and f: "0 \<le> AvFILLp av"
  defines "av' \<equiv> (set_slot av (AvFILLp av) Undef)\<lparr>AvFILLp := AvFILLp av - 1\<rparr>"
  shows "av_ok av'" "elems av' = take (nat (AvFILLp av)) (elems av)"
proof -
  have room: "AvARRAY av + nat (AvFILLp av) < length (AvALLOC av)"
    using av_ok_room[OF ok] f by linarith
  have nth: "AvALLOC av' ! i = (if i = AvARRAY av + nat (AvFILLp av) then Undef else AvALLOC av ! i)"
    if "i < length (AvALLOC av)" for i
    using that by (auto simp: av'_def set_slot_def)
  have ok': "av_ok av'"
    unfolding av_ok_def
  proof (intro conjI impI allI)
    fix i assume i: "AvREAL av'" "i < length (AvALLOC av')" "i < AvARRAY av' \<or> AvARRAY av' + nat (AvFILLp av' + 1) \<le> i"
    then have i': "i < length (AvALLOC av)" "AvREAL av" by (simp_all add: av'_def set_slot_def)
    have "i = AvARRAY av + nat (AvFILLp av) \<or> i < AvARRAY av \<or> AvARRAY av + nat (AvFILLp av + 1) \<le> i"
      using i(3) f by (auto simp: av'_def set_slot_def)
    then show "AvALLOC av' ! i = Undef" using nth[OF i'(1)] ok i' by (auto simp: av_ok_def)
  qed (use ok f in \<open>simp_all add: av_ok_def av'_def set_slot_def\<close>)
  show "av_ok av'" by (rule ok')
  show "elems av' = take (nat (AvFILLp av)) (elems av)"
    by (rule elems_eqI[OF ok'])
      (use ok f room nth in \<open>simp_all add: length_elems nth_elems, simp_all add: av'_def set_slot_def\<close>)
qed

lemma av_pop_ok:
  assumes ok: "av_ok av" and r: "av_pop av w = Inr (s, av', w')"
  shows "keeps av av'" "same_counts w w'"
    "elems av = [] \<Longrightarrow> s = Undef \<and> elems av' = []" "elems av \<noteq> [] \<Longrightarrow> elems av = elems av' @ [s]"
proof -
  have empty: "elems av = [] \<longleftrightarrow> AvFILLp av < 0"
    using ok length_elems[OF ok] by (auto simp: av_ok_def)
  have "keeps av av' \<and> same_counts w w' \<and> (elems av = [] \<longrightarrow> s = Undef \<and> elems av' = []) \<and>
      (elems av \<noteq> [] \<longrightarrow> elems av = elems av' @ [s])"
  proof (cases "AvFILLp av < 0")
    case True
    then show ?thesis using r ok empty by (auto simp: av_pop_def keeps_def realish_def split: if_splits)
  next
    case False
    then have f: "0 \<le> AvFILLp av" by simp
    have av': "av' = (set_slot av (AvFILLp av) Undef)\<lparr>AvFILLp := AvFILLp av - 1\<rparr>"
      "s = av_slot av (AvFILLp av)" "w' = set_magic av w"
      using r False by (auto simp: av_pop_def split: if_splits)
    show ?thesis
      using drop_last_ok[OF ok f] elems_last[OF ok f] empty f
      by (simp add: av' keeps_def realish_def set_magic_def)
  qed
  then show "keeps av av'" "same_counts w w'"
    "elems av = [] \<Longrightarrow> s = Undef \<and> elems av' = []" "elems av \<noteq> [] \<Longrightarrow> elems av = elems av' @ [s]"
    by blast+
qed

lemma av_shift_ok:
  assumes ok: "av_ok av" and r: "av_shift av w = Inr (s, av', w')"
  shows "keeps av av'" "same_counts w w'"
    "elems av = [] \<Longrightarrow> s = Undef \<and> elems av' = []" "elems av \<noteq> [] \<Longrightarrow> elems av = s # elems av'"
proof -
  have empty: "elems av = [] \<longleftrightarrow> AvFILLp av < 0"
    using ok length_elems[OF ok] by (auto simp: av_ok_def)
  have "keeps av av' \<and> same_counts w w' \<and> (elems av = [] \<longrightarrow> s = Undef \<and> elems av' = []) \<and>
      (elems av \<noteq> [] \<longrightarrow> elems av = s # elems av')"
  proof (cases "AvFILLp av < 0")
    case True
    then show ?thesis using r ok empty by (auto simp: av_shift_def keeps_def realish_def split: if_splits)
  next
    case False
    then have f: "0 \<le> AvFILLp av" by simp
    define xs where "xs = (if AvREAL av then (AvALLOC av)[AvARRAY av := Undef] else AvALLOC av)"
    have av': "av' = av\<lparr>AvALLOC := xs, AvARRAY := AvARRAY av + 1, AvMAX := AvMAX av - 1, AvFILLp := AvFILLp av - 1\<rparr>"
      "s = av_slot av 0" "w' = set_magic av w"
      using r False by (auto simp: av_shift_def set_slot_def xs_def Let_def set_magic_def split: if_splits)
    have room: "AvARRAY av < length (AvALLOC av)" using av_ok_room[OF ok] f by linarith
    have nth: "xs ! i = (if i = AvARRAY av \<and> AvREAL av then Undef else AvALLOC av ! i)"
      if "i < length (AvALLOC av)" for i
      using that by (auto simp: xs_def)
    have lxs: "length xs = length (AvALLOC av)" by (simp add: xs_def)
    have ok': "av_ok av'"
      unfolding av_ok_def
    proof (intro conjI impI allI)
      fix i assume i: "AvREAL av'" "i < length (AvALLOC av')" "i < AvARRAY av' \<or> AvARRAY av' + nat (AvFILLp av' + 1) \<le> i"
      then have i': "i < length (AvALLOC av)" "AvREAL av" by (simp_all add: av' lxs)
      have "i = AvARRAY av \<or> i < AvARRAY av \<or> AvARRAY av + nat (AvFILLp av + 1) \<le> i"
        using i(3) f by (auto simp: av')
      then show "AvALLOC av' ! i = Undef" using nth[OF i'(1)] ok i' by (auto simp: av_ok_def av')
    qed (use ok f lxs in \<open>simp_all add: av_ok_def av'\<close>)
    have "elems av = s # elems av'"
    proof (rule elems_eqI[OF ok])
      show l: "length (s # elems av') = nat (AvFILLp av + 1)"
        using f by (simp only: length_Cons length_elems[OF ok']) (simp add: av')
      fix i assume i: "i < length (s # elems av')"
      show "AvALLOC av ! (AvARRAY av + i) = (s # elems av') ! i"
      proof (cases i)
        case 0
        then show ?thesis by (simp add: av'(2) av_slot_def)
      next
        case (Suc j)
        then have "j < nat (AvFILLp av' + 1)" using i by (simp add: length_elems[OF ok'])
        then have "elems av' ! j = xs ! (AvARRAY av + i)" using nth_elems[OF ok', of j] Suc by (simp add: av'(1))
        moreover have "AvARRAY av + i < length (AvALLOC av)"
          using i l av_ok_room[OF ok] by linarith
        ultimately show ?thesis using nth[of "AvARRAY av + i"] Suc by simp
      qed
    qed
    then show ?thesis using ok' empty f by (simp add: av' keeps_def realish_def set_magic_def)
  qed
  then show "keeps av av'" "same_counts w w'"
    "elems av = [] \<Longrightarrow> s = Undef \<and> elems av' = []" "elems av \<noteq> [] \<Longrightarrow> elems av = s # elems av'"
    by blast+
qed

lemma unshift_front_ok:
  assumes ok: "av_ok av" and real: "AvREAL av" and num: "0 < num"
    and u: "unshift_front av num = (av', num')"
  shows "keeps av av'" "AvREAL av'" "0 \<le> num'" "num' \<le> num"
    "elems av' = replicate (nat (num - num')) Undef @ elems av" "AvFILLp av' = AvFILLp av + (num - num')"
proof -
  define i where "i = (if int (AvARRAY av) > num then num else int (AvARRAY av))"
  have i: "0 \<le> i" "i \<le> num" "i \<le> int (AvARRAY av)" using num by (auto simp: i_def)
  have av': "av' = av\<lparr>AvMAX := AvMAX av + i, AvFILLp := AvFILLp av + i, AvARRAY := AvARRAY av - nat i\<rparr>"
    "num' = num - i"
    using u by (simp_all add: unshift_front_def i_def Let_def)
  have front: "AvARRAY av - nat i + nat i = AvARRAY av" using i by simp
  have ok': "av_ok av'"
    unfolding av_ok_def
  proof (intro conjI impI allI)
    fix j assume j: "AvREAL av'" "j < length (AvALLOC av')" "j < AvARRAY av' \<or> AvARRAY av' + nat (AvFILLp av' + 1) \<le> j"
    have "- 1 \<le> AvFILLp av" using ok by (simp add: av_ok_def)
    then have "j < AvARRAY av \<or> AvARRAY av + nat (AvFILLp av + 1) \<le> j"
      using j(3) i by (auto simp: av') 
    then show "AvALLOC av' ! j = Undef" using ok j by (auto simp: av_ok_def av')
  qed (use ok i in \<open>simp_all add: av_ok_def av'\<close>)
  have "elems av' = replicate (nat i) Undef @ elems av"
  proof (rule elems_eqI[OF ok'])
    have "- 1 \<le> AvFILLp av" using ok by (simp add: av_ok_def)
    then show l: "length (replicate (nat i) Undef @ elems av) = nat (AvFILLp av' + 1)"
      using i by (simp add: length_elems[OF ok] av')
    fix j assume j: "j < length (replicate (nat i) Undef @ elems av)"
    show "AvALLOC av' ! (AvARRAY av' + j) = (replicate (nat i) Undef @ elems av) ! j"
    proof (cases "j < nat i")
      case True
      then have lt: "AvARRAY av - nat i + j < AvARRAY av" using i by linarith
      then have "AvARRAY av - nat i + j < length (AvALLOC av)" using av_ok_room[OF ok] by linarith
      then have "AvALLOC av ! (AvARRAY av - nat i + j) = Undef" using ok real lt by (simp add: av_ok_def)
      with True show ?thesis by (simp add: av' nth_append)
    next
      case False
      then have "AvARRAY av - nat i + j = AvARRAY av + (j - nat i)" using i by linarith
      moreover have "elems av ! (j - nat i) = AvALLOC av ! (AvARRAY av + (j - nat i))"
        using False j by (intro nth_elems[OF ok]) (simp add: length_elems[OF ok])
      ultimately show ?thesis using False by (simp only: av' nth_append) (simp add: av')
    qed
  qed
  then show "keeps av av'" "AvREAL av'" "0 \<le> num'" "num' \<le> num"
    "elems av' = replicate (nat (num - num')) Undef @ elems av" "AvFILLp av' = AvFILLp av + (num - num')"
    using ok' i real by (simp_all add: keeps_def realish_def av')
qed

lemma unshift_rest_ok:
  assumes ok: "av_ok av" and num: "0 < num" "2 * AvFILLp av + num < 2 ^ 31" "num < 2 ^ 31"
    and u: "unshift_rest m av w num = Inr (av', w')"
  shows "keeps av av'" "elems av' = replicate (nat num) Undef @ elems av" "AvREAL av' = AvREAL av"
    "same_counts w w'"
proof -
  define f slide n where "f = AvFILLp av" and "slide = (if f > 0 then f else 0)" and "n = num + slide"
  have f: "- 1 \<le> f" "0 \<le> slide" "f \<le> slide" "slide = 0 \<or> slide = f" "2 * f + num < 2 ^ 31"
    using ok num by (auto simp: f_def slide_def av_ok_def)
  have key: "- 1 \<le> f + n" "f + n < 2 ^ 31" using f num(1,3) by (auto simp: n_def slide_def)
  note key = i32_id[OF order_trans[OF _ key(1)] key(2), simplified] key
  obtain av2 w2 where ext: "av_extend m av w (f + n) = Inr (av2, w2)" and
    av': "av' = av2\<lparr>AvALLOC := undef_down (move_slots (AvALLOC av2) (AvARRAY av2) (AvARRAY av2 + nat n) (nat (f + 1)))
              (AvARRAY av2) (nat n),
            AvFILLp := AvFILLp av2 + n - slide, AvMAX := AvMAX av2 - slide, AvARRAY := AvARRAY av2 + nat slide\<rparr>"
    "w' = w2"
    using u key(1) unfolding unshift_rest_def Let_def f_def[symmetric] slide_def[symmetric] n_def[symmetric]
    by (auto simp: bind_result_Inr)
  note e = av_extend_ok[OF ok key(2,3) ext]
  have ok2: "av_ok av2" "elems av2 = elems av" "AvFILLp av2 = f" "f + n \<le> AvMAX av2"
    using e by (simp_all add: extended_def f_def)
  let ?o = "AvARRAY av2" and ?n = "nat n" and ?f = "nat (f + 1)"
  have len: "length (AvALLOC av2) = ?o + nat (AvMAX av2 + 1)" using ok2(1) f ok2(3) unfolding av_ok_def by linarith
  have room: "?o + ?n + ?f \<le> length (AvALLOC av2)" using len ok2(4) f num n_def by linarith
  define xs where "xs = undef_down (move_slots (AvALLOC av2) ?o (?o + ?n) ?f) ?o ?n"
  have lxs: "length xs = length (AvALLOC av2)" using room by (simp add: xs_def)
  have nth: "xs ! i = (if ?o \<le> i \<and> i < ?o + ?n then Undef
      else if ?o + ?n \<le> i \<and> i < ?o + ?n + ?f then AvALLOC av2 ! (i - ?n) else AvALLOC av2 ! i)"
    if "i < length (AvALLOC av2)" for i
    using that room by (simp add: xs_def nth_undef_down nth_move_slots) 
  have flds: "AvARRAY av' = ?o + nat slide" "AvFILLp av' = f + num" "AvMAX av' = AvMAX av2 - slide"
    "AvALLOC av' = xs" "AvREAL av' = AvREAL av2"
    using ok2(3) by (simp_all add: av' xs_def n_def)
  have nn: "?n = nat num + nat slide" using num f by (simp add: n_def nat_add_distrib)
  have ok': "av_ok av'"
    unfolding av_ok_def flds
  proof (intro conjI impI allI)
    fix i assume i: "AvREAL av2" "i < length xs" "i < ?o + nat slide \<or> ?o + nat slide + nat (f + num + 1) \<le> i"
    have "nat (f + num + 1) = ?f + nat num" using f num by (simp add: nat_add_distrib[symmetric] ac_simps)
    then have "i < ?o + nat slide \<or> ?o + ?n + ?f \<le> i" using i(3) nn by linarith
    moreover have "i < ?o \<or> ?o + ?f \<le> i \<Longrightarrow> AvALLOC av2 ! i = Undef"
      using ok2(1,3) i(1,2) lxs unfolding av_ok_def by auto
    ultimately show "xs ! i = Undef" using nth[of i] i lxs nn by auto
  next
    show "- 1 \<le> f + num" using f num by simp
    show "f + num \<le> AvMAX av2 - slide" using ok2(4) by (simp add: n_def)
    show "int (length xs) = int (?o + nat slide) + (AvMAX av2 - slide) + 1"
      using ok2(1) lxs f by (simp add: av_ok_def)
    show "length xs < 2 ^ 31" using ok2(1) lxs by (simp add: av_ok_def)
  qed
  have "elems av' = replicate (nat num) Undef @ elems av"
  proof (rule elems_eqI[OF ok'])
    show l: "length (replicate (nat num) Undef @ elems av) = nat (AvFILLp av' + 1)"
      using f num by (simp add: length_elems[OF ok] flds f_def[symmetric] nat_add_distrib[symmetric] ac_simps)
    fix j assume j: "j < length (replicate (nat num) Undef @ elems av)"
    then have j': "j < nat num + ?f" by (simp add: length_elems[OF ok] f_def)
    then have inside: "?o + nat slide + j < length (AvALLOC av2)" using room nn by linarith
    show "AvALLOC av' ! (AvARRAY av' + j) = (replicate (nat num) Undef @ elems av) ! j"
    proof (cases "j < nat num")
      case True
      with nth[OF inside] nn show ?thesis by (simp add: flds nth_append)
    next
      case False
      then have "?o + nat slide + j - ?n = ?o + (j - nat num)" using nn by linarith
      moreover have "elems av ! (j - nat num) = AvALLOC av2 ! (?o + (j - nat num))"
        using nth_elems[OF ok2(1), of "j - nat num"] ok2 j' False by simp
      ultimately show ?thesis using nth[OF inside] False j' nn by (simp add: flds nth_append)
    qed
  qed
  then show "keeps av av'" "elems av' = replicate (nat num) Undef @ elems av" "AvREAL av' = AvREAL av" "same_counts w w'"
    using ok' e(1,3) by (simp_all add: keeps_def realish_def extended_def same_flags_def av')
qed

lemma av_unshift_ok:
  assumes ok: "av_ok av" "realish av" and num: "int (length (elems av)) + num < 2 ^ 30"
    and u: "av_unshift m av w num = Inr (av', w')"
  shows "keeps av av'" "elems av' = replicate (nat num) Undef @ elems av"
proof -
  have "keeps av av' \<and> elems av' = replicate (nat num) Undef @ elems av"
  proof (cases "num \<le> 0")
    case True
    then show ?thesis using u ok by (auto simp: av_unshift_def keeps_def split: if_splits)
  next
    case False
    have nr: "\<not> SvREADONLY av" using u by (auto simp: av_unshift_def)
    note u' = u[unfolded av_unshift_def if_not_P[OF nr] if_not_P[OF False]]
    obtain x where x: "(if \<not> AvREAL av \<and> AvREIFY av then av_reify av w else Inr (av, w)) = Inr x"
      and rx: "(case x of (av, w) \<Rightarrow>
          let (av, num) = (if AvARRAY av \<noteq> 0 then unshift_front av num else (av, num))
          in if num \<noteq> 0 then unshift_rest m av w num else Inr (av, w)) = Inr (av', w')"
      by (rule bind_result_InrE[OF u'])
    obtain av1 w1 where x1: "x = (av1, w1)" by (cases x)
    note re = maybe_reify_ok[OF ok(1) x[unfolded x1]]
    have ok1: "av_ok av1" "AvREAL av1" using re(1,5) ok by (simp_all add: keeps_def)
    obtain av2 num2 where 2: "(if AvARRAY av1 \<noteq> 0 then unshift_front av1 num else (av1, num)) = (av2, num2)"
      by force
    have front: "keeps av1 av2" "AvREAL av2" "0 \<le> num2" "num2 \<le> num"
      "elems av2 = replicate (nat (num - num2)) Undef @ elems av1" "AvFILLp av2 = AvFILLp av1 + (num - num2)"
      using 2 False ok1 unshift_front_ok[OF ok1, of num av2 num2]
      by (auto simp: keeps_def split: if_splits)
    have r2: "(if num2 \<noteq> 0 then unshift_rest m av2 w1 num2 else Inr (av2, w1)) = Inr (av', w')"
      using rx unfolding x1 prod.case 2 Let_def .
    have small: "2 * AvFILLp av2 + num2 < 2 ^ 31"
      using num front(3,4,6) re(3) ok(1) False by (simp add: length_elems av_ok_def)
    show ?thesis
    proof (cases "num2 = 0")
      case True
      then show ?thesis using r2 front re(1,2) by (simp add: keeps_def)
    next
      case False
      have "unshift_rest m av2 w1 num2 = Inr (av', w')" using r2 False by simp
      note rest = unshift_rest_ok[OF _ _ _ _ this]
      have "av_ok av2" "0 < num2" "2 * AvFILLp av2 + num2 < 2 ^ 31" "num2 < 2 ^ 31"
        using front small False num by (simp_all add: keeps_def)
      note rest = rest[OF this]
      have "nat num = nat num2 + nat (num - num2)" using front(3,4) by (simp add: nat_add_distrib[symmetric])
      then show ?thesis using rest front re(1,2) by (simp add: keeps_def replicate_add)
    qed
  qed
  then show "keeps av av'" "elems av' = replicate (nat num) Undef @ elems av" by simp_all
qed

section \<open>Clearing, filling, deleting\<close>

lemma dec_down_cong:
  "(\<And>i. b \<le> i \<Longrightarrow> i < b + n \<Longrightarrow> xs ! i = ys ! i) \<Longrightarrow> dec_down xs b n w = dec_down ys b n w"
  by (induction n arbitrary: w) simp_all

lemma snd_clear_down: "b + n \<le> length xs \<Longrightarrow> snd (clear_down xs b n w) = dec_down xs b n w"
proof (induction n arbitrary: xs w)
  case (Suc n)
  have "dec_down (xs[b + n := Undef]) b n (SvREFCNT_dec (xs ! (b + n)) w) =
      dec_down xs b n (SvREFCNT_dec (xs ! (b + n)) w)"
    by (rule dec_down_cong) simp
  with Suc show ?case by simp
qed simp

lemma refcnt_dec_down:
  "b + n \<le> length xs \<Longrightarrow>
   refcnt (dec_down xs b n w) x = refcnt w x - count_list (take n (drop b xs)) (Sv x) \<and>
   next_sv (dec_down xs b n w) = next_sv w"
proof (induction n arbitrary: w)
  case (Suc n)
  then have "take (Suc n) (drop b xs) = take n (drop b xs) @ [xs ! (b + n)]"
    by (simp add: take_Suc_conv_app_nth)
  with Suc show ?case
    by (cases "xs ! (b + n)") (auto simp: SvREFCNT_dec_def)
qed simp

lemma av_clear_ok:
  assumes ok: "av_ok av" and r: "av_clear av w = Inr (av', w')"
  shows "keeps av av'" "elems av' = []"
    "refcnt w' x = (if AvREAL av then refcnt w x - count_list (elems av) (Sv x) else refcnt w x)"
proof -
  have nr: "\<not> SvREADONLY av" using r by (auto simp: av_clear_def)
  define w1 where "w1 = (if SvRMAGICAL av
     then if delaymagic w \<and> mg_is_isa av then w\<lparr>dm_array := True\<rparr> else log_event Mg_clear w else w)"
  have w1: "refcnt w1 x = refcnt w x" by (simp add: w1_def log_event_def)
  have "keeps av av' \<and> elems av' = [] \<and>
    refcnt w' x = (if AvREAL av then refcnt w x - count_list (elems av) (Sv x) else refcnt w x)"
  proof (cases "AvMAX av < 0")
    case True
    then have "elems av = []" using length_elems[OF ok] ok by (simp add: av_ok_def)
    moreover have "av' = av \<and> w' = w1"
      unfolding w1_def using r nr True by (auto simp: av_clear_def Let_def split del: if_split)
    ultimately have "av' = av" "w' = w1" "elems av = []" by simp_all
    then show ?thesis using ok w1 by (simp add: keeps_def)
  next
    case False
    let ?f = "nat (AvFILLp av + 1)"
    define xs where "xs = (if AvREAL av then undef_down (AvALLOC av) (AvARRAY av) ?f else AvALLOC av)"
    have av': "av' = av\<lparr>AvALLOC := xs, AvMAX := AvMAX av + int (AvARRAY av), AvARRAY := 0, AvFILLp := - 1\<rparr>"
      "w' = (if AvREAL av then dec_down (AvALLOC av) (AvARRAY av) ?f w1 else w1)"
      using r nr False fst_clear_down[of "AvALLOC av" "AvARRAY av" ?f w1]
        snd_clear_down[of "AvARRAY av" ?f "AvALLOC av" w1] av_ok_room[OF ok]
      by (auto simp: av_clear_def w1_def[symmetric] Let_def xs_def split: prod.splits if_splits)
    have ok': "av_ok av'"
      using ok unfolding av_ok_def
      by (auto simp: av' xs_def nth_undef_down not_less)
    then have "elems av' = []" using length_elems[OF ok'] by (simp add: av')
    moreover have "refcnt w' x = (if AvREAL av then refcnt w x - count_list (elems av) (Sv x) else refcnt w x)"
      using refcnt_dec_down[OF av_ok_room[OF ok], of w1 x] w1 by (simp add: av' elems_def)
    ultimately show ?thesis using ok' by (simp add: keeps_def realish_def av')
  qed
  then show "keeps av av'" "elems av' = []"
    "refcnt w' x = (if AvREAL av then refcnt w x - count_list (elems av) (Sv x) else refcnt w x)" by blast+
qed

text \<open>What \<open>$#array = fill\<close> does to the list.\<close>

definition fill_list :: "slot list \<Rightarrow> nat \<Rightarrow> slot list" where
  "fill_list xs n = take n xs @ replicate (n - length xs) Undef"

lemma av_fill_ok:
  assumes ok: "av_ok av" and fill: "fill < 2 ^ 31" and r: "av_fill m av w fill = Inr (av', w')"
  shows "keeps av av'" "elems av' = fill_list (elems av) (nat (fill + 1))"
proof -
  define f where "f = (if fill < 0 then - 1 else fill)"
  have f: "- 1 \<le> f" "nat (fill + 1) = nat (f + 1)" "f < 2 ^ 31" using fill by (auto simp: f_def)
  have "keeps av av' \<and> elems av' = fill_list (elems av) (nat (f + 1))"
  proof (cases "f \<le> AvMAX av")
    case True
    let ?o = "AvARRAY av" and ?k = "AvFILLp av"
    define xs where "xs = (if AvREAL av then undef_down (AvALLOC av) (?o + nat (f + 1)) (nat (?k - f))
      else undef_up (AvALLOC av) (?o + nat (?k + 1)) (nat (f - ?k)))"
    have av': "av' = av\<lparr>AvALLOC := xs, AvFILLp := f\<rparr>"
      using r True fst_clear_down[of "AvALLOC av" "?o + nat (f + 1)" "nat (?k - f)" w]
      by (auto simp: av_fill_def f_def[symmetric] Let_def xs_def split: prod.splits if_splits)
    have len: "length (AvALLOC av) = ?o + nat (AvMAX av + 1)" "- 1 \<le> ?k" "?k \<le> AvMAX av"
      using ok unfolding av_ok_def by linarith+
    have nth: "xs ! i = (if AvREAL av \<and> ?o + nat (f + 1) \<le> i \<or> ?o + nat (?k + 1) \<le> i \<and> i < ?o + nat (f + 1)
        then Undef else AvALLOC av ! i)" if "i < length (AvALLOC av)" for i
    proof -
      have "AvREAL av \<Longrightarrow> ?o + nat (?k + 1) \<le> i \<Longrightarrow> AvALLOC av ! i = Undef" using ok that by (simp add: av_ok_def)
      then show ?thesis using that len f(1) by (auto simp: xs_def nth_undef_down nth_undef_up)
    qed
    have lxs: "length xs = length (AvALLOC av)" by (simp add: xs_def)
    have ok': "av_ok av'"
      using ok True f nth by (auto simp: av_ok_def av' lxs)
    have "elems av' = fill_list (elems av) (nat (f + 1))"
    proof (rule elems_eqI[OF ok'])
      show "length (fill_list (elems av) (nat (f + 1))) = nat (AvFILLp av' + 1)"
        by (auto simp: fill_list_def av' length_elems[OF ok])
      fix i assume "i < length (fill_list (elems av) (nat (f + 1)))"
      then have i: "i < nat (f + 1)" by (auto simp: fill_list_def)
      then have "?o + i < length (AvALLOC av)" using len True by linarith
      with nth[of "?o + i"] i show "AvALLOC av' ! (AvARRAY av' + i) = fill_list (elems av) (nat (f + 1)) ! i"
        by (auto simp: av' fill_list_def nth_append nth_elems[OF ok] length_elems[OF ok])
    qed
    then show ?thesis using ok' by (simp add: keeps_def realish_def av')
  next
    case False
    then obtain p where st: "av_store m av w f Undef = Inr (p, av', w')"
      using r by (auto simp: av_fill_def f_def[symmetric] Let_def bind_result_Inr)
    have "- 1 \<le> AvMAX av" "AvFILLp av \<le> AvMAX av" using ok by (simp_all add: av_ok_def)
    then have k: "0 \<le> f" "norm_key av f = f" "AvFILLp av < f" using False by (simp_all add: norm_key_def)
    note st = av_store_ok[OF ok f(3) _ st, unfolded k(2), OF k(1)]
    have n: "nat (f + 1) = Suc (nat f)" using k(1) by simp
    have "length (elems av) \<le> nat f" using k(3) by (simp add: length_elems[OF ok])
    then have "store_list (elems av) (nat f) (norm_val Undef) = fill_list (elems av) (nat (f + 1))"
      unfolding n by (simp add: store_list_def fill_list_def norm_val_def Suc_diff_le replicate_append_same)
    with st show ?thesis by simp
  qed
  then show "keeps av av'" "elems av' = fill_list (elems av) (nat (fill + 1))" using f(2) by simp_all
qed

text \<open>
  Deleting the last element removes the undefined ones before it too; deleting another one leaves
  it undefined.
\<close>

definition delete_list :: "slot list \<Rightarrow> nat \<Rightarrow> slot list" where
  "delete_list xs k =
     (if Suc k = length xs then rev (dropWhile (\<lambda>s. s = Undef) (rev (take k xs))) else xs[k := Undef])"

lemma delete_down_form:
  "k \<le> length ary \<Longrightarrow>
   delete_down ary k = int (length (rev (dropWhile (\<lambda>s. s = Undef) (rev (take k ary))))) - 1"
  by (induction k) (auto simp: take_Suc_conv_app_nth)

lemma strip_prefix: "rev (dropWhile P (rev xs)) = take (length (rev (dropWhile P (rev xs)))) xs"
proof (induction xs rule: rev_induct)
  case (snoc x xs)
  have "length (dropWhile P (rev xs)) \<le> length xs" by (metis length_dropWhile_le length_rev)
  with snoc show ?case by simp
qed simp

lemma strip_rest: "length (rev (dropWhile P (rev xs))) \<le> i \<Longrightarrow> i < length xs \<Longrightarrow> P (xs ! i)"
proof (induction xs rule: rev_induct)
  case (snoc x xs)
  then show ?case by (auto simp: nth_append less_Suc_eq split: if_splits)
qed simp

lemma av_delete_ok:
  assumes ok: "av_ok av" and r: "av_delete av w key discard = Inr (s, av', w')"
    and k: "0 \<le> norm_key av key" "norm_key av key \<le> AvFILLp av"
  shows "keeps av av'" "elems av' = delete_list (elems av) (nat (norm_key av key))"
    "s = (if discard then Null else elems av ! nat (norm_key av key))"
proof -
  let ?k = "norm_key av key"
  have nr: "\<not> SvREADONLY av" using r by (auto simp: av_delete_def)
  have in_range: "\<not> (?k < 0 \<or> ?k > AvFILLp av)" using k by simp
  note r' = r[unfolded av_delete_def Let_def if_not_P[OF nr] if_not_P[OF in_range]]
  define rest where "rest av w = (let sv = av_slot av ?k;
            av = (if ?k = AvFILLp av
                  then let av = set_slot av ?k Undef
                       in av\<lparr>AvFILLp := delete_down (drop (AvARRAY av) (AvALLOC av)) (nat ?k)\<rparr>
                  else set_slot av ?k Undef);
            w = set_magic av w
        in if discard then Inr (Null, av, SvREFCNT_dec sv w)
           else if AvREAL av then Inr (sv, av, (case sv of Sv n \<Rightarrow> w\<lparr>tmps := tmps w @ [n]\<rparr> | _ \<Rightarrow> w))
           else (Inr (sv, av, w) :: (slot \<times> av \<times> world) result))" for av :: av and w :: world
  obtain x where x: "(if \<not> AvREAL av \<and> AvREIFY av then av_reify av w else Inr (av, w)) = Inr x"
    and rx: "(case x of (av, w) \<Rightarrow> rest av w) = Inr (s, av', w')"
    unfolding rest_def Let_def by (rule bind_result_InrE[OF r'])
  obtain av1 w1 where x1: "x = (av1, w1)" by (cases x)
  note re = maybe_reify_ok[OF ok x[unfolded x1]]
  have ok1: "av_ok av1" using re(1) by (simp add: keeps_def)
  have k1: "nat ?k < nat (AvFILLp av1 + 1)" using k re(3) by simp
  have el: "av_slot av1 ?k = elems av ! nat ?k" using nth_elems[OF ok1 k1] re(2) by (simp add: av_slot_def)
  have sv: "s = (if discard then Null else av_slot av1 ?k)" and
    av': "av' = (if ?k = AvFILLp av1
      then (set_slot av1 ?k Undef)\<lparr>AvFILLp := delete_down (drop (AvARRAY av1) (AvALLOC (set_slot av1 ?k Undef))) (nat ?k)\<rparr>
      else set_slot av1 ?k Undef)"
    using rx by (auto simp: x1 rest_def Let_def split: if_splits)
  show "s = (if discard then Null else elems av ! nat ?k)" using sv el by simp
  have "keeps av1 av' \<and> elems av' = delete_list (elems av1) (nat ?k)"
  proof (cases "?k = AvFILLp av1")
    case False
    have "fill_to av1 ?k = av1" using k re(3) by (simp add: fill_to_def)
    moreover have "AvFILLp av1 \<le> AvMAX av1" using ok1 by (simp add: av_ok_def)
    ultimately have "av_ok (set_slot av1 ?k Undef)"
      "elems (set_slot av1 ?k Undef) = store_list (elems av1) (nat ?k) Undef"
      using put_ok[OF ok1 k(1), of Undef] k re(3) by simp_all
    moreover have "store_list (elems av1) (nat ?k) Undef = delete_list (elems av1) (nat ?k)"
      using False k re(3) by (auto simp: store_list_def delete_list_def length_elems[OF ok1])
    ultimately show ?thesis using False av' by (simp add: keeps_def realish_def)
  next
    case True
    then have f: "0 \<le> AvFILLp av1" "nat (AvFILLp av1 + 1) = Suc (nat ?k)" using k by simp_all
    let ?S = "rev (dropWhile (\<lambda>s. s = Undef) (rev (take (nat ?k) (elems av1))))"
    define xs where "xs = (AvALLOC av1)[AvARRAY av1 + nat ?k := Undef]"
    have room: "AvARRAY av1 + Suc (nat ?k) \<le> length (AvALLOC av1)" using av_ok_room[OF ok1] f by simp
    have "take (nat ?k) (drop (AvARRAY av1) xs) = take (nat ?k) (elems av1)"
      by (rule nth_equalityI) (use room f in \<open>simp_all add: xs_def elems_def\<close>)
    then have av'_eq: "av' = av1\<lparr>AvALLOC := xs, AvFILLp := int (length ?S) - 1\<rparr>"
      using av' True room delete_down_form[of "nat ?k" "drop (AvARRAY av1) xs"]
      by (simp add: set_slot_def xs_def)
    have S: "length ?S \<le> nat ?k" by (simp add: length_dropWhile_le[THEN order_trans])
    have nth: "xs ! i = (if i = AvARRAY av1 + nat ?k then Undef else AvALLOC av1 ! i)" if "i < length (AvALLOC av1)" for i
      using that by (auto simp: xs_def)
    have gap: "AvALLOC av1 ! (AvARRAY av1 + i) = Undef" if "length ?S \<le> i" "i < nat ?k" for i
      using strip_rest[of "\<lambda>s. s = Undef" "take (nat ?k) (elems av1)" i] that f
      by (simp add: length_elems[OF ok1] nth_elems[OF ok1])
    have ok': "av_ok av'"
      unfolding av_ok_def
    proof (intro conjI impI allI)
      fix i assume i: "AvREAL av'" "i < length (AvALLOC av')" "i < AvARRAY av' \<or> AvARRAY av' + nat (AvFILLp av' + 1) \<le> i"
      then have i': "AvREAL av1" "i < length (AvALLOC av1)" by (simp_all add: av'_eq xs_def)
      have "i < AvARRAY av1 \<or> AvARRAY av1 + length ?S \<le> i" using i(3) by (auto simp: av'_eq)
      then consider "i < AvARRAY av1" | "AvARRAY av1 + Suc (nat ?k) \<le> i" | "i = AvARRAY av1 + nat ?k"
        | "AvARRAY av1 + length ?S \<le> i" "i < AvARRAY av1 + nat ?k" by linarith
      then show "AvALLOC av' ! i = Undef"
      proof cases
        case 4
        then have "AvALLOC av1 ! (AvARRAY av1 + (i - AvARRAY av1)) = Undef" by (intro gap) linarith+
        with 4 nth[OF i'(2)] show ?thesis by (simp add: av'_eq)
      qed (use nth[OF i'(2)] i' ok1 f in \<open>auto simp: av'_eq av_ok_def\<close>)
    next
      have "AvFILLp av1 \<le> AvMAX av1" using ok1 by (simp add: av_ok_def)
      then have "int (length ?S) - 1 \<le> AvMAX av1" using S f(1) True by linarith
      then show "AvFILLp av' \<le> AvMAX av'" by (simp add: av'_eq)
    qed (use ok1 in \<open>simp_all add: av'_eq av_ok_def xs_def\<close>)
    have "elems av' = ?S"
    proof (rule elems_eqI[OF ok'])
      show "length ?S = nat (AvFILLp av' + 1)" by (simp add: av'_eq)
      fix i assume i: "i < length ?S"
      then have "?S ! i = take (nat ?k) (elems av1) ! i"
        by (subst strip_prefix) (simp only: nth_take)
      also have "\<dots> = AvALLOC av1 ! (AvARRAY av1 + i)"
        using i S f by (simp add: nth_elems[OF ok1])
      finally show "AvALLOC av' ! (AvARRAY av' + i) = ?S ! i"
        using nth[of "AvARRAY av1 + i"] i S room by (simp add: av'_eq)
    qed
    moreover have "delete_list (elems av1) (nat ?k) = ?S"
      using f by (simp add: delete_list_def length_elems[OF ok1])
    ultimately show ?thesis using ok' by (simp add: keeps_def realish_def av'_eq)
  qed
  then show "keeps av av'" "elems av' = delete_list (elems av) (nat ?k)"
    using re(1,2) by (simp_all add: keeps_def)
qed

section \<open>av_tmprefcnt\<close>

text \<open>
  \<open>Perl_av_tmprefcnt\<close>: the slots whose temporary count (\<open>SvTMPREFCNT_inc\<close>) is raised, in order.
  \<open>tmpref_down xs b key\<close> has the elements below \<open>key\<close> to go, in the block \<open>xs\<close> from \<open>b\<close> on.
\<close>

fun tmpref_down :: "slot list \<Rightarrow> nat \<Rightarrow> nat \<Rightarrow> slot list" where
  "tmpref_down xs b 0 = []"
| "tmpref_down xs b (Suc key) = xs ! (b + key) # tmpref_down xs b key"

definition av_tmprefcnt :: "av \<Rightarrow> slot list" where
  "av_tmprefcnt av = (if AvREAL av then tmpref_down (AvALLOC av) (AvARRAY av) (nat (AvFILLp av + 1)) else [])"

lemma tmpref_down_rev: "b + n \<le> length xs \<Longrightarrow> tmpref_down xs b n = rev (take n (drop b xs))"
  by (induction n) (simp_all add: take_Suc_conv_app_nth)

text \<open>A real array counts every element once.\<close>

lemma av_tmprefcnt_ok: "av_ok av \<Longrightarrow> av_tmprefcnt av = (if AvREAL av then rev (elems av) else [])"
  using av_ok_room[of av] by (simp add: av_tmprefcnt_def tmpref_down_rev elems_def)

end
