(* ===== verification/Av_Deque.thy ===== *)
theory Av_Deque
  imports Av_Array
begin

text \<open>
  What the operations of \<open>av.c\<close> promise their callers. Pushing, popping, unshifting and shifting
  are the operations of a double-ended queue, which do not fail while the array is short of 2^26
  elements and the allocator grants blocks of 16 gigabytes; storing, filling, deleting and clearing are list
  operations. The last section holds the two places where the code departs from that.
\<close>

section \<open>The interface of a double-ended queue\<close>

datatype 'v dq_op = Push 'v | Pop | Unshift 'v | Shift

text \<open>
  The reference: the operations on a list, each with the value it returns (\<open>d\<close> where it returns
  none). A provider stores \<open>norm v\<close> for \<open>v\<close>.
\<close>

fun dq_list :: "'v \<Rightarrow> 'v dq_op \<Rightarrow> 'v list \<Rightarrow> 'v \<times> 'v list" where
  "dq_list d (Push v) xs = (d, xs @ [v])"
| "dq_list d Pop xs = (if xs = [] then (d, []) else (last xs, butlast xs))"
| "dq_list d (Unshift v) xs = (d, v # xs)"
| "dq_list d Shift xs = (if xs = [] then (d, []) else (hd xs, tl xs))"

fun run_list :: "'v \<Rightarrow> 'v dq_op list \<Rightarrow> 'v list \<Rightarrow> 'v list \<times> 'v list" where
  "run_list d [] xs = ([], xs)"
| "run_list d (p # ps) xs =
     (let (r, xs) = dq_list d p xs; (rs, xs) = run_list d ps xs in (r # rs, xs))"

text \<open>The same on a provider, whose operations may die.\<close>

fun run_ops :: "('v dq_op \<Rightarrow> 's \<Rightarrow> ('v \<times> 's) result) \<Rightarrow> 'v dq_op list \<Rightarrow> 's \<Rightarrow> ('v list \<times> 's) result" where
  "run_ops step [] s = Inr ([], s)"
| "run_ops step (p # ps) s =
     bind_result (step p s) (\<lambda>(r, s). bind_result (run_ops step ps s) (\<lambda>(rs, s). Inr (r # rs, s)))"

locale deque =
  fixes step :: "'v dq_op \<Rightarrow> 's \<Rightarrow> ('v \<times> 's) result"
    and invar :: "'s \<Rightarrow> bool"
    and contents :: "'s \<Rightarrow> 'v list"
    and norm :: "'v \<Rightarrow> 'v"
    and d :: 'v
    and limit :: nat
  assumes step_ok: "invar s \<Longrightarrow> length (contents s) < limit \<Longrightarrow>
      \<exists>r s'. step p s = Inr (r, s') \<and> invar s' \<and> (r, contents s') = dq_list d (map_dq_op norm p) (contents s)"
begin

lemma length_step:
  "dq_list d p xs = (r, xs') \<Longrightarrow> length xs' \<le> Suc (length xs)"
  by (cases p) (auto split: if_splits)

lemma run_ok:
  assumes "invar s" "length (contents s) + length ps \<le> limit"
  shows "\<exists>rs s'. run_ops step ps s = Inr (rs, s') \<and> invar s' \<and> (rs, contents s') = run_list d (map (map_dq_op norm) ps) (contents s)"
  using assms
proof (induction ps arbitrary: s)
  case (Cons p ps)
  obtain r s1 where s1: "step p s = Inr (r, s1)" "invar s1" "(r, contents s1) = dq_list d (map_dq_op norm p) (contents s)"
    using step_ok[of s p] Cons.prems by auto
  then have "length (contents s1) + length ps \<le> limit"
    using length_step[of "map_dq_op norm p" "contents s" r "contents s1"] Cons.prems(2) by simp
  from Cons.IH[OF s1(2) this] obtain rs s2 where
    "run_ops step ps s1 = Inr (rs, s2)" "invar s2" "(rs, contents s2) = run_list d (map (map_dq_op norm) ps) (contents s1)" by blast
  with s1(1) s1(3)[symmetric] show ?case by (auto split: prod.splits)
qed simp

end

section \<open>The operations return\<close>

text \<open>An allocator that grants blocks up to 2^34 bytes.\<close>

definition roomy :: "allocator \<Rightarrow> bool" where
  "roomy m \<longleftrightarrow> (\<forall>n \<le> 2 ^ 34. m n)"

lemma roomy_newx: "roomy m \<Longrightarrow> n \<le> 2 ^ 31 \<Longrightarrow> newx m n 8"
  by (simp add: roomy_def newx_def)

lemma malloc_slots_le: "malloc_slots (n * 8) \<le> 2 * n + 2"
  using malloc_slots_form[of "n * 8"] by auto

lemma malloc_slots_pos: "0 < n \<Longrightarrow> 0 < malloc_slots (n * 8)"
proof -
  assume n: "0 < n"
  obtain k where k: "malloc_slots (n * 8) = 2 * 2 ^ k - 2" "n * 8 \<le> 16 * 2 ^ k - 16"
    using malloc_slots_form[of "n * 8"] by blast
  with n have "16 * 2 ^ k > (16 :: nat)" by linarith
  then show ?thesis using k by simp
qed

lemma av_resize_returns:
  assumes "roomy m" "0 \<le> want" "want < 2 ^ 30 - 2"
  shows "\<exists>av' w'. av_resize m av w want = Inr (av', w') \<and> AvMAX av' \<le> 2 * want + 3 \<and> AvREAL av' = AvREAL av"
proof -
  let ?n = "malloc_slots (nat (want + 1) * 8)"
  have w: "mem_size (i32 (want + 1)) = nat (want + 1)"
    using assms by (simp add: i32_id mem_size_nonneg)
  have n: "?n \<le> 2 * nat (want + 1) + 2" "0 < ?n"
    using malloc_slots_le malloc_slots_pos assms by simp_all
  then have le: "int ?n \<le> 2 * want + 4" using assms by linarith
  then have i: "i32 (int ?n - 1) = int ?n - 1" "i32 (int ?n) = int ?n"
    using assms(3) by (auto intro!: i32_id)
  have m: "mem_size (int ?n) = ?n" using le assms(3) by (simp add: mem_size_nonneg)
  have g: "newx m ?n 8" using le assms by (intro roomy_newx) auto
  have "\<not> nat (want + 1) > (2 ^ 64 - 1) div 8" using assms by simp
  with g show ?thesis
    unfolding av_resize_def w using le by (simp add: i m Let_def)
qed

lemma av_extend_returns:
  assumes ok: "av_ok av" and m: "roomy m" and key: "0 \<le> key" "key < 2 ^ 28 - 16" and len: "length (AvALLOC av) \<le> 2 ^ 30"
  shows "\<exists>av' w'. av_extend m av w key = Inr (av', w') \<and> length (AvALLOC av') \<le> 2 ^ 30"
proof (cases "key > AvMAX av")
  case False
  then show ?thesis using len by (simp add: av_extend_def)
next
  case more: True
  have room: "length (AvALLOC av) = AvARRAY av + nat (AvMAX av + 1)" "- 1 \<le> AvMAX av"
    using ok unfolding av_ok_def by linarith+
  have "\<exists>av' w'. av_extend m av w key = Inr (av', w') \<and> AvMAX av' < 2 ^ 30"
  proof -
    consider (shifted) "AvARRAY av \<noteq> 0" | (full) "AvARRAY av = 0" "AvALLOC av \<noteq> []"
      | (none) "AvARRAY av = 0" "AvALLOC av = []"
      by blast
    then show ?thesis
    proof cases
      case shifted
      define av1 where "av1 = av\<lparr>AvALLOC := (if AvREAL av
          then undef_down (move_slots (AvALLOC av) (AvARRAY av) 0 (nat (AvFILLp av + 1))) (nat (AvFILLp av + 1)) (AvARRAY av)
          else move_slots (AvALLOC av) (AvARRAY av) 0 (nat (AvFILLp av + 1))),
        AvMAX := AvMAX av + int (AvARRAY av), AvARRAY := 0\<rparr>"
      have e: "av_extend m av w key =
        (if key > AvMAX av1 - 10 then av_resize m av1 w (i32 (key + AvMAX av1)) else Inr (av1, w))"
        using more shifted unfolding av_extend_def av1_def Let_def by (simp split del: if_split)
      have max: "0 \<le> AvMAX av1" "AvMAX av1 < 2 ^ 30"
        using room len shifted by (simp_all add: av1_def)
      show ?thesis
      proof (cases "key > AvMAX av1 - 10")
        case True
        then have "i32 (key + AvMAX av1) = key + AvMAX av1" using key max by (intro i32_id) simp_all
        moreover obtain av' w' where "av_resize m av1 w (key + AvMAX av1) = Inr (av', w')"
          "AvMAX av' \<le> 2 * (key + AvMAX av1) + 3"
          using av_resize_returns[OF m, of "key + AvMAX av1" av1 w] True key max by auto
        ultimately show ?thesis using e True key(2) by simp
      next
        case False
        with e max show ?thesis by simp
      qed
    next
      case full
      have "0 < length (AvALLOC av)" using full(2) by simp
      then have "AvMAX av \<ge> 0" using full(1) room by linarith
      then have q: "0 \<le> AvMAX av div 5" "AvMAX av div 5 \<le> key" using more by linarith+
      then have "i32 (key + AvMAX av div 5) = key + AvMAX av div 5" using key by (intro i32_id) simp_all
      moreover obtain av' w' where "av_resize m av w (key + AvMAX av div 5) = Inr (av', w')"
        "AvMAX av' \<le> 2 * (key + AvMAX av div 5) + 3"
        using av_resize_returns[OF m, of "key + AvMAX av div 5" av w] key q by auto
      ultimately show ?thesis using more full key(2) q by (simp add: av_extend_def)
    next
      case none
      define newmax where "newmax = (if key < 3 then 3 else key)"
      have n: "0 \<le> newmax" "newmax < 2 ^ 28" using key by (auto simp: newmax_def)
      then have s: "mem_size (i32 (newmax + 1)) = nat (newmax + 1)" by (simp add: i32_id mem_size_nonneg)
      have "newx m (nat (newmax + 1)) 8" using n by (intro roomy_newx[OF m]) simp
      with more none n s show ?thesis
        unfolding av_extend_def Let_def newmax_def[symmetric] by simp
    qed
  qed
  then obtain av' w' where r: "av_extend m av w key = Inr (av', w')" "AvMAX av' < 2 ^ 30" by blast
  have "key < 2 ^ 31" "- 1 \<le> key" using key by simp_all
  with av_extend_ok[OF ok _ _ r(1)] have "av_ok av'" by (simp add: extended_def)
  moreover have "AvARRAY av' = 0" using r(1) more
    by (auto simp: av_extend_def av_resize_def Let_def split: if_splits)
  ultimately have "length (AvALLOC av') \<le> 2 ^ 30" using r(2) unfolding av_ok_def by simp
  with r show ?thesis by blast
qed

text \<open>A real array that may be changed, with a block of at most 2^30 slots.\<close>

definition dq_ok :: "av \<Rightarrow> bool" where
  "dq_ok av \<longleftrightarrow> av_ok av \<and> AvREAL av \<and> \<not> SvREADONLY av \<and> length (AvALLOC av) \<le> 2 ^ 30"

lemma av_store_returns:
  assumes ok: "dq_ok av" and m: "roomy m" and key: "0 \<le> norm_key av key" "norm_key av key < 2 ^ 28 - 16"
  shows "\<exists>av' w'. av_store m av w key val = Inr (Some (norm_key av key), av', w') \<and>
    length (AvALLOC av') \<le> 2 ^ 30"
proof -
  let ?k = "norm_key av key"
  have ok': "av_ok av" "length (AvALLOC av) \<le> 2 ^ 30" using ok by (simp_all add: dq_ok_def)
  obtain av1 w1 where 1: "(if ?k > AvMAX av then av_extend m av w ?k else Inr (av, w)) = Inr (av1, w1)"
    "length (AvALLOC av1) \<le> 2 ^ 30"
    using av_extend_returns[OF ok'(1) m key ok'(2), of w] ok'(2) by (cases "?k > AvMAX av") auto
  have "length (AvALLOC (set_slot (fill_to av1 ?k) ?k (norm_val val))) = length (AvALLOC av1)"
    by (simp add: set_slot_def fill_to_def)
  with 1 ok key(1) show ?thesis
    unfolding av_store_def Let_def by (simp add: dq_ok_def bind_result_def not_less)
qed

lemma av_push_returns:
  assumes ok: "dq_ok av" and m: "roomy m" and len: "length (elems av) < 2 ^ 26"
  shows "\<exists>av' w'. av_push m av w val = Inr (av', w') \<and> length (AvALLOC av') \<le> 2 ^ 30"
proof -
  have "nat (AvFILLp av + 1) < 2 ^ 26" "- 1 \<le> AvFILLp av"
    using ok len length_elems[of av] by (simp_all add: dq_ok_def av_ok_def)
  then have k: "0 \<le> norm_key av (AvFILLp av + 1)" "norm_key av (AvFILLp av + 1) < 2 ^ 28 - 16"
    by (simp_all add: norm_key_def)
  obtain p av' w' where "av_store m av w (AvFILLp av + 1) val = Inr (p, av', w')" "length (AvALLOC av') \<le> 2 ^ 30"
    using av_store_returns[OF ok m k, of w val] by blast
  then show ?thesis using ok by (simp add: av_push_def dq_ok_def)
qed

lemma av_unshift_returns:
  assumes ok: "dq_ok av" and m: "roomy m" and len: "length (elems av) < 2 ^ 26"
  shows "\<exists>av' w'. av_unshift m av w 1 = Inr (av', w') \<and> length (AvALLOC av') \<le> 2 ^ 30"
proof (cases "AvARRAY av = 0")
  case False
  then show ?thesis using ok
    by (auto simp: av_unshift_def dq_ok_def unshift_front_def Let_def)
next
  case True
  define slide where "slide = (if AvFILLp av > 0 then AvFILLp av else 0)"
  have f: "nat (AvFILLp av + 1) < 2 ^ 26" "- 1 \<le> AvFILLp av"
    using ok len length_elems[of av] by (simp_all add: dq_ok_def av_ok_def)
  then have k: "0 \<le> AvFILLp av + (1 + slide)" "AvFILLp av + (1 + slide) < 2 ^ 28 - 16"
    by (auto simp: slide_def)
  then have i: "i32 (AvFILLp av + (1 + slide)) = AvFILLp av + (1 + slide)" by (intro i32_id) simp_all
  obtain av1 w1 where 1: "av_extend m av w (AvFILLp av + (1 + slide)) = Inr (av1, w1)"
    "length (AvALLOC av1) \<le> 2 ^ 30"
    using av_extend_returns[OF _ m k, of av w] ok unfolding dq_ok_def by blast
  have "- 1 \<le> AvFILLp av + (1 + slide)" "AvFILLp av + (1 + slide) < 2 ^ 31" using k by simp_all
  note e = av_extend_ok[OF _ this 1(1)]
  have ext: "extended av av1" "AvFILLp av + (1 + slide) \<le> AvMAX av1" using e ok by (simp_all add: dq_ok_def)
  have "AvARRAY av1 + nat (AvMAX av1 + 1) \<le> length (AvALLOC av1)"
    using ext(1) unfolding extended_def av_ok_def by linarith
  then have "AvARRAY av1 + nat (1 + slide) + nat (AvFILLp av + 1) \<le> length (AvALLOC av1)"
    using ext(2) f by (simp add: slide_def split: if_splits)
  then have len1: "length (move_slots (AvALLOC av1) (AvARRAY av1) (AvARRAY av1 + nat (1 + slide)) (nat (AvFILLp av + 1)))
      \<le> 2 ^ 30"
    using 1(2) by simp
  have "unshift_rest m av w 1 = Inr (av1\<lparr>AvALLOC := undef_down (move_slots (AvALLOC av1) (AvARRAY av1)
      (AvARRAY av1 + nat (1 + slide)) (nat (AvFILLp av + 1))) (AvARRAY av1) (nat (1 + slide)),
      AvFILLp := AvFILLp av1 + (1 + slide) - slide, AvMAX := AvMAX av1 - slide,
      AvARRAY := AvARRAY av1 + nat slide\<rparr>, w1)"
    unfolding unshift_rest_def Let_def slide_def[symmetric] i 1(1) by simp
  then show ?thesis using len1 ok True by (simp add: av_unshift_def dq_ok_def)
qed

section \<open>The array is a double-ended queue\<close>

text \<open>A world without SVs, for the examples.\<close>

definition world0 :: world where
  "world0 = \<lparr>refcnt = (\<lambda>n. 0), next_sv = 1, tmps = [], delaymagic = False, dm_array = False, events = []\<rparr>"

definition av_step :: "allocator \<Rightarrow> slot dq_op \<Rightarrow> av \<times> world \<Rightarrow> (slot \<times> av \<times> world) result" where
  "av_step m p s =
     (case s of (av, w) \<Rightarrow> case p of
        Push v \<Rightarrow> bind_result (av_push m av w v) (\<lambda>(av, w). Inr (Undef, av, w))
      | Pop \<Rightarrow> av_pop av w
      | Unshift v \<Rightarrow> bind_result (av_create_and_unshift_one m (Some av) w v) (\<lambda>(p, av, w). Inr (Undef, av, w))
      | Shift \<Rightarrow> av_shift av w)"

lemma real_extend: "av_extend m av w key = Inr (av', w') \<Longrightarrow> AvREAL av' = AvREAL av"
  by (auto simp: av_extend_def av_resize_def Let_def split: if_splits)

lemma real_store: "av_store m av w key val = Inr (p, av', w') \<Longrightarrow> AvREAL av \<Longrightarrow> AvREAL av'"
  by (auto simp: av_store_def Let_def bind_result_Inr dest: real_extend split: if_splits)

lemma real_push: "av_push m av w val = Inr (av', w') \<Longrightarrow> AvREAL av \<Longrightarrow> AvREAL av'"
  by (auto simp: av_push_def bind_result_Inr dest: real_store split: if_splits)

lemma real_unshift: "av_unshift m av w n = Inr (av', w') \<Longrightarrow> AvREAL av \<Longrightarrow> AvREAL av'"
  by (auto simp: av_unshift_def unshift_rest_def unshift_front_def Let_def bind_result_Inr
      dest: real_extend split: if_splits)

lemma readonly_kept: "keeps av av' \<Longrightarrow> SvREADONLY av' = SvREADONLY av"
  by (simp add: keeps_def)

lemma step_push:
  assumes "dq_ok av" "roomy m" "length (elems av) < 2 ^ 26"
  shows "\<exists>av' w'. av_push m av w v = Inr (av', w') \<and> dq_ok av' \<and> elems av' = elems av @ [norm_val v]"
proof -
  obtain av' w' where r: "av_push m av w v = Inr (av', w')" "length (AvALLOC av') \<le> 2 ^ 30"
    using av_push_returns[OF assms] by blast
  with av_push_ok[OF _ r(1)] real_push[OF r(1)] assms(1) show ?thesis
    by (auto simp: dq_ok_def keeps_def)
qed

lemma step_unshift:
  assumes ok: "dq_ok av" and m: "roomy m" and len: "length (elems av) < 2 ^ 26"
  shows "\<exists>p av' w'. av_create_and_unshift_one m (Some av) w v = Inr (p, av', w') \<and> dq_ok av' \<and>
    elems av' = norm_val v # elems av"
proof -
  obtain av1 w1 where 1: "av_unshift m av w 1 = Inr (av1, w1)" "length (AvALLOC av1) \<le> 2 ^ 30"
    using av_unshift_returns[OF assms] by blast
  have "int (length (elems av)) + 1 < 2 ^ 30" using len by simp
  note u = av_unshift_ok[OF _ _ this 1(1)]
  have ok1: "dq_ok av1" "elems av1 = Undef # elems av"
    using u real_unshift[OF 1(1)] 1(2) ok by (simp_all add: dq_ok_def keeps_def realish_def)
  have k: "norm_key av1 0 = 0" "(0 :: int) < 2 ^ 28 - 16" by (simp_all add: norm_key_def)
  obtain av2 w2 where 2: "av_store m av1 w1 0 v = Inr (Some 0, av2, w2)" "length (AvALLOC av2) \<le> 2 ^ 30"
    using av_store_returns[OF ok1(1) m, of 0 w1 v] k by auto
  have "keeps av1 av2" "elems av2 = store_list (elems av1) 0 (norm_val v)"
    using av_store_ok[OF _ _ _ 2(1)] ok1(1) k by (simp_all add: dq_ok_def)
  then have "dq_ok av2" "elems av2 = norm_val v # elems av"
    using real_store[OF 2(1)] 2(2) ok1 by (simp_all add: dq_ok_def keeps_def store_list_def)
  then show ?thesis using 1(1) 2(1) by (simp add: av_create_and_unshift_one_def)
qed

lemma step_pop:
  assumes "dq_ok av"
  shows "\<exists>r av' w'. av_pop av w = Inr (r, av', w') \<and> dq_ok av' \<and>
    (r, elems av') = (if elems av = [] then (Undef, []) else (last (elems av), butlast (elems av)))"
proof -
  obtain r av' w' where p: "av_pop av w = Inr (r, av', w')" "length (AvALLOC av') = length (AvALLOC av)" "AvREAL av'"
    using assms by (cases "AvFILLp av < 0") (simp_all add: av_pop_def dq_ok_def set_slot_def)
  with av_pop_ok[OF _ p(1)] assms show ?thesis
    by (auto simp: dq_ok_def keeps_def)
qed

lemma step_shift:
  assumes "dq_ok av"
  shows "\<exists>r av' w'. av_shift av w = Inr (r, av', w') \<and> dq_ok av' \<and>
    (r, elems av') = (if elems av = [] then (Undef, []) else (hd (elems av), tl (elems av)))"
proof -
  obtain r av' w' where p: "av_shift av w = Inr (r, av', w')" "length (AvALLOC av') = length (AvALLOC av)" "AvREAL av'"
    using assms by (cases "AvFILLp av < 0") (simp_all add: av_shift_def dq_ok_def set_slot_def Let_def)
  with av_shift_ok[OF _ p(1)] assms show ?thesis
    by (auto simp: dq_ok_def keeps_def)
qed

interpretation avq: deque "av_step (fixed_allocator (2 ^ 34))" "\<lambda>(av, w). dq_ok av" "\<lambda>(av, w). elems av"
  norm_val Undef "2 ^ 26"
proof
  fix s :: "av \<times> world" and p :: "slot dq_op"
  assume a: "case s of (av, w) \<Rightarrow> dq_ok av" "length (case s of (av, w) \<Rightarrow> elems av) < 2 ^ 26"
  obtain av w where s: "s = (av, w)" by (cases s)
  have m: "roomy (fixed_allocator (2 ^ 34))" by (simp add: roomy_def fixed_allocator_def)
  have av: "dq_ok av" "length (elems av) < 2 ^ 26" using a by (simp_all add: s)
  show "\<exists>r s'. av_step (fixed_allocator (2 ^ 34)) p s = Inr (r, s') \<and> (case s' of (av, w) \<Rightarrow> dq_ok av) \<and>
      (r, case s' of (av, w) \<Rightarrow> elems av) = dq_list Undef (map_dq_op norm_val p) (case s of (av, w) \<Rightarrow> elems av)"
  proof (cases p)
    case (Push v)
    with step_push[OF av(1) m av(2), of w v] show ?thesis by (auto simp: s av_step_def)
  next
    case Pop
    with step_pop[OF av(1), of w] show ?thesis by (fastforce simp: s av_step_def)
  next
    case (Unshift v)
    with step_unshift[OF av(1) m av(2), of w v] show ?thesis by (auto simp: s av_step_def)
  next
    case Shift
    with step_shift[OF av(1), of w] show ?thesis by (fastforce simp: s av_step_def)
  qed
qed

text \<open>
  C6: any sequence of pushes, pops, unshifts and shifts on a real, writable array returns, keeps
  the array well formed, and returns and leaves what the same sequence does on a list, as long as
  the array cannot get longer than 2^26 elements (a NULL that is pushed becomes undef).
\<close>

theorem av_deque:
  assumes "dq_ok av" "length (elems av) + length ps \<le> 2 ^ 26"
  shows "\<exists>rs av' w'. run_ops (av_step (fixed_allocator (2 ^ 34))) ps (av, w) = Inr (rs, av', w') \<and> dq_ok av' \<and>
    (rs, elems av') = run_list Undef (map (map_dq_op norm_val) ps) (elems av)"
  using avq.run_ok[of "(av, w)" ps] assms by auto

theorem av_deque_witness:
  "\<exists>av' w'. run_ops (av_step (fixed_allocator (2 ^ 34)))
     [Push (Sv 1), Push Null, Unshift (Sv 2), Shift, Pop, Push (Sv 3), Unshift (Sv 4)] (newAV, world0) =
       Inr ([Undef, Undef, Undef, Sv 2, Undef, Undef, Undef], av', w') \<and>
     elems av' = [Sv 4, Sv 1, Sv 3]"
proof -
  have "dq_ok newAV" "elems newAV = []"
    by (simp_all add: dq_ok_def newAV_def av_ok_def elems_def)
  then show ?thesis
    using av_deque[of newAV "[Push (Sv 1), Push Null, Unshift (Sv 2), Shift, Pop, Push (Sv 3), Unshift (Sv 4)]" world0]
    by (auto simp: norm_val_def)
qed

section \<open>Store and fetch\<close>

lemma refcnt_store_magic [simp]: "refcnt (store_magic av w k v) = refcnt w"
  by (auto simp: store_magic_def log_event_def Let_def split: slot.split)

lemma av_store_counts:
  assumes ok: "dq_ok av" and key: "0 \<le> norm_key av key" "norm_key av key < 2 ^ 31"
    and r: "av_store m av w key val = Inr (p, av', w')"
  shows "refcnt w' x = refcnt w x - count_list (take 1 (drop (nat (norm_key av key)) (elems av))) (Sv x)"
proof -
  let ?k = "norm_key av key"
  have ok': "av_ok av" "AvREAL av" "\<not> SvREADONLY av" using ok by (simp_all add: dq_ok_def)
  obtain av1 w1 where 1: "(if ?k > AvMAX av then av_extend m av w ?k else Inr (av, w)) = Inr (av1, w1)"
    "w' = store_magic (set_slot (fill_to av1 ?k) ?k (norm_val val))
       (if \<not> AvFILLp av1 < ?k \<and> AvREAL av1 then SvREFCNT_dec (av_slot av1 ?k) w1 else w1) ?k (norm_val val)"
    using r ok' key(1) by (auto simp: av_store_def Let_def bind_result_Inr split: if_splits)
  have e: "extended av av1" "same_counts w w1"
    using 1(1) ok' key av_extend_ok[OF ok'(1), of ?k m w av1 w1]
    by (auto simp: extended_def same_flags_def split: if_splits)
  have "av_slot av1 ?k = elems av ! nat ?k" "nat ?k < length (elems av)" if "\<not> AvFILLp av1 < ?k"
    using that key(1) e(1) nth_elems[of av1 "nat ?k"] length_elems[of av1]
    by (simp_all add: extended_def av_slot_def)
  moreover have "\<not> nat ?k < length (elems av)" if "AvFILLp av1 < ?k"
    using that key(1) e(1) length_elems[of av1] by (simp add: extended_def)
  moreover have "AvREAL av1" using e(1) ok' by (simp add: extended_def same_flags_def)
  moreover have "take 1 (drop (nat ?k) (elems av)) = [elems av ! nat ?k]" if "nat ?k < length (elems av)"
    using that by (simp add: take_Suc_conv_app_nth)
  ultimately show ?thesis
    using e(2) 1(2) by (cases "elems av ! nat ?k") (auto simp: same_counts_def SvREFCNT_dec_def)
qed

text \<open>
  C24: storing in a real, writable array returns the slot of the key (counted from the end when it
  is negative), puts the value there (undef for NULL), fills the gap behind the old end with
  undef, takes one reference from the element that was there and from nothing else; a key before
  the beginning changes nothing and gives NULL. Fetching the key then gives the slot.
\<close>

theorem av_store_correct:
  assumes "dq_ok av" "norm_key av key < 2 ^ 28 - 16"
  shows "\<exists>p av' w'. av_store (fixed_allocator (2 ^ 34)) av w key val = Inr (p, av', w') \<and> dq_ok av' \<and>
    (if norm_key av key < 0 then p = None \<and> av' = av \<and> w' = w
     else p = Some (norm_key av key) \<and>
       elems av' = store_list (elems av) (nat (norm_key av key)) (norm_val val) \<and>
       (\<forall>x. refcnt w' x = refcnt w x -
          count_list (take 1 (drop (nat (norm_key av key)) (elems av))) (Sv x)) \<and>
       (\<not> AvREIFY av' \<longrightarrow> av_fetch m av' w' (norm_key av key) False = Inr (Some (norm_key av key), av', w')))"
proof (cases "norm_key av key < 0")
  case True
  then show ?thesis using assms by (simp add: av_store_def Let_def)
next
  case False
  have m: "roomy (fixed_allocator (2 ^ 34))" by (simp add: roomy_def fixed_allocator_def)
  let ?k = "norm_key av key"
  have k: "0 \<le> ?k" "?k < 2 ^ 31" "key < 2 ^ 31"
    using False assms by (auto simp: norm_key_def split: if_splits)
  obtain av' w' where s: "av_store (fixed_allocator (2 ^ 34)) av w key val = Inr (Some ?k, av', w')"
    "length (AvALLOC av') \<le> 2 ^ 30"
    using av_store_returns[OF assms(1) m k(1) assms(2), of w val] by blast
  have ok: "av_ok av" using assms(1) by (simp add: dq_ok_def)
  note st = av_store_ok[OF ok k(3,1) s(1)]
  have ok': "dq_ok av'" using st(1) real_store[OF s(1)] s(2) assms(1) by (simp add: dq_ok_def keeps_def)
  have "nat (AvFILLp av' + 1) = max (length (elems av)) (Suc (nat ?k))"
    using length_elems[of av'] ok' st(3) by (simp add: dq_ok_def length_store_list)
  then have "\<not> AvFILLp av' < ?k" using k(1) by linarith
  then have "\<not> AvREIFY av' \<longrightarrow> av_fetch m av' w' ?k False = Inr (Some ?k, av', w')"
    using k(1) by (simp add: av_fetch_def Let_def norm_key_def[of av' ?k])
  with False s(1) ok' st(3) av_store_counts[OF assms(1) k(1,2) s(1)] show ?thesis by auto
qed

theorem av_store_correct_witness:
  "\<exists>p av' w'. av_store (fixed_allocator (2 ^ 34)) newAV world0 2 (Sv 5) = Inr (p, av', w') \<and>
     p = Some 2 \<and> elems av' = [Undef, Undef, Sv 5]"
proof -
  have "dq_ok newAV" "elems newAV = []" "norm_key newAV 2 = 2"
    by (simp_all add: dq_ok_def newAV_def av_ok_def elems_def norm_key_def)
  then show ?thesis
    using av_store_correct[of newAV 2 world0 "Sv 5" "fixed_allocator 0"]
    by (auto simp: store_list_def norm_val_def numeral_2_eq_2)
qed

text \<open>
  An lvalue fetch gives the slot of the key in an array that has it: an element that is there
  and not undef is left alone; otherwise a new SV with one reference is put there, after undefs
  that fill the gap.
\<close>

theorem av_fetch_lvalue:
  assumes "dq_ok av" "\<not> AvREIFY av" "0 \<le> norm_key av key" "norm_key av key < 2 ^ 28 - 16"
  shows "\<exists>av' w'. av_fetch (fixed_allocator (2 ^ 34)) av w key True = Inr (Some (norm_key av key), av', w') \<and>
    dq_ok av' \<and>
    (if nat (norm_key av key) < length (elems av) \<and> elems av ! nat (norm_key av key) \<noteq> Undef
     then av' = av \<and> w' = w
     else elems av' = store_list (elems av) (nat (norm_key av key)) (Sv (next_sv w)))"
proof -
  let ?k = "norm_key av key" and ?m = "fixed_allocator (2 ^ 34)"
  have ok: "av_ok av" using assms(1) by (simp add: dq_ok_def)
  have m: "roomy ?m" by (simp add: roomy_def fixed_allocator_def)
  have nk: "norm_key av ?k = ?k" using assms(3) by (simp add: norm_key_def)
  have in_range: "nat ?k < length (elems av) \<longleftrightarrow> \<not> ?k > AvFILLp av"
    using length_elems[OF ok] assms(3) by auto
  have slot: "av_slot av ?k = elems av ! nat ?k" if "\<not> ?k > AvFILLp av"
    using nth_elems[OF ok, of "nat ?k"] that assms(3) by (simp add: av_slot_def)
  show ?thesis
  proof (cases "nat ?k < length (elems av) \<and> elems av ! nat ?k \<noteq> Undef")
    case True
    then have "av_fetch ?m av w key True = Inr (Some ?k, av, w)"
      using assms(2,3) in_range slot by (simp add: av_fetch_def Let_def)
    with True assms(1) show ?thesis by simp
  next
    case False
    define w1 where "w1 = snd (newSV w)"
    have new: "newSV w = (Sv (next_sv w), w1)" by (simp add: w1_def newSV_def)
    have "av_fetch ?m av w key True = av_store ?m av w1 ?k (Sv (next_sv w))"
      using False assms(3) in_range slot new by (auto simp: av_fetch_def Let_def)
    moreover obtain av' w' where s: "av_store ?m av w1 ?k (Sv (next_sv w)) = Inr (Some ?k, av', w')"
      "length (AvALLOC av') \<le> 2 ^ 30"
      using av_store_returns[OF assms(1) m, of ?k w1 "Sv (next_sv w)"] assms(3,4) nk by auto
    moreover have "keeps av av'" "elems av' = store_list (elems av) (nat ?k) (Sv (next_sv w))"
      using av_store_ok[OF ok _ _ s(1)] assms(3,4) nk by (simp_all add: norm_val_def)
    moreover have "dq_ok av'"
      using s(2) \<open>keeps av av'\<close> real_store[OF s(1)] assms(1) by (simp add: dq_ok_def keeps_def)
    ultimately show ?thesis using False by auto
  qed
qed

theorem av_fetch_lvalue_witness:
  "\<exists>av' w'. av_fetch (fixed_allocator (2 ^ 34)) newAV world0 1 True = Inr (Some 1, av', w') \<and>
     elems av' = [Undef, Sv (next_sv world0)]"
proof -
  have "dq_ok newAV" "elems newAV = []" "norm_key newAV 1 = 1" "\<not> AvREIFY newAV"
    by (simp_all add: dq_ok_def newAV_def av_ok_def elems_def norm_key_def)
  then show ?thesis
    using av_fetch_lvalue[of newAV 1 world0] by (auto simp: store_list_def)
qed

section \<open>Clearing, filling, deleting\<close>

text \<open>
  C25: clearing a writable array empties it, keeps it well formed and gives back one reference of
  every element of a real array, none of one that does not own its elements.
\<close>

theorem av_clear_correct:
  assumes "av_ok av" "\<not> SvREADONLY av"
  shows "\<exists>av' w'. av_clear av w = Inr (av', w') \<and> av_ok av' \<and> elems av' = [] \<and>
    AvREAL av' = AvREAL av \<and>
    (\<forall>x. refcnt w' x = refcnt w x - (if AvREAL av then count_list (elems av) (Sv x) else 0))"
proof -
  have "\<exists>x. av_clear av w = Inr x"
    using assms(2) by (cases "AvMAX av < 0") (simp_all add: av_clear_def Let_def split: prod.split)
  then obtain av' w' where c: "av_clear av w = Inr (av', w')" by auto
  then have real: "AvREAL av' = AvREAL av"
    using assms(2) by (auto simp: av_clear_def Let_def split: prod.splits if_splits)
  note ok = av_clear_ok[OF assms(1) c(1)]
  have "\<forall>x. refcnt w' x = refcnt w x - (if AvREAL av then count_list (elems av) (Sv x) else 0)"
    using ok(3) by simp
  with ok(1,2) c real show ?thesis by (auto simp: keeps_def)
qed

theorem av_clear_correct_witness:
  "\<exists>av' w'. av_clear (newAV\<lparr>AvALLOC := [Undef, Sv 3, Sv 3], AvARRAY := 1, AvFILLp := 1, AvMAX := 1\<rparr>)
      (world0\<lparr>refcnt := (\<lambda>x. 5)\<rparr>) = Inr (av', w') \<and> elems av' = [] \<and> refcnt w' 3 = 3 \<and> refcnt w' 4 = 5"
proof -
  let ?av = "newAV\<lparr>AvALLOC := [Undef, Sv 3, Sv 3], AvARRAY := 1, AvFILLp := 1, AvMAX := 1\<rparr>"
  have "av_ok ?av" "\<not> SvREADONLY ?av" "elems ?av = [Sv 3, Sv 3]" "AvREAL ?av"
    by (auto simp: newAV_def av_ok_def elems_def less_Suc_eq nth_Cons split: nat.split)
  then show ?thesis using av_clear_correct[of ?av "world0\<lparr>refcnt := (\<lambda>x. 5)\<rparr>"] by auto
qed

text \<open>
  C38: setting the last index of a real, writable array cuts it off or fills it up with undef.
\<close>

theorem av_fill_correct:
  assumes "dq_ok av" "fill < 2 ^ 28 - 16"
  shows "\<exists>av' w'. av_fill (fixed_allocator (2 ^ 34)) av w fill = Inr (av', w') \<and> av_ok av' \<and>
    elems av' = fill_list (elems av) (nat (fill + 1)) \<and> av_len av' = max fill (- 1)"
proof -
  let ?m = "fixed_allocator (2 ^ 34)"
  have ok: "av_ok av" using assms(1) by (simp add: dq_ok_def)
  have m: "roomy ?m" by (simp add: roomy_def fixed_allocator_def)
  obtain av' w' where r: "av_fill ?m av w fill = Inr (av', w')"
  proof (cases "(if fill < 0 then - 1 else fill) \<le> AvMAX av")
    case True
    then have "\<exists>x. av_fill ?m av w fill = Inr x" by (simp add: av_fill_def Let_def split: prod.split)
    then show ?thesis using that by auto
  next
    case False
    have "- 1 \<le> AvMAX av" using ok unfolding av_ok_def by linarith
    with False have k: "norm_key av fill = fill" "0 \<le> fill" by (auto simp: norm_key_def split: if_splits)
    obtain p av' w' where "av_store ?m av w fill Undef = Inr (p, av', w')"
      using av_store_returns[OF assms(1) m, of fill w Undef] k assms(2) by auto
    with False k(2) show ?thesis using that by (auto simp: av_fill_def Let_def)
  qed
  have "fill < 2 ^ 31" using assms(2) by simp
  note f = av_fill_ok[OF ok this r]
  have "nat (AvFILLp av' + 1) = nat (fill + 1)" "- 1 \<le> AvFILLp av'"
    using f length_elems[of av'] by (simp_all add: keeps_def fill_list_def av_ok_def)
  then have "AvFILLp av' = max fill (- 1)" by linarith
  with r f show ?thesis by (simp add: keeps_def av_len_def)
qed

theorem av_fill_correct_witness:
  "\<exists>av' w'. av_fill (fixed_allocator (2 ^ 34)) newAV world0 1 = Inr (av', w') \<and> elems av' = [Undef, Undef] \<and>
     av_len av' = 1"
proof -
  have "dq_ok newAV" "elems newAV = []"
    by (simp_all add: dq_ok_def newAV_def av_ok_def elems_def)
  then show ?thesis
    using av_fill_correct[of newAV 1 world0] by (auto simp: fill_list_def numeral_2_eq_2)
qed

text \<open>
  C37: deleting an element of a writable array returns it (NULL when it is discarded), and leaves
  undef in its place; deleting the last one shortens the array, by the undefined elements before
  it too, so that after a deletion at the end the array is empty or ends in a defined element. A
  key that is not in the array changes nothing.
\<close>

theorem av_delete_correct:
  assumes "av_ok av" "AvREAL av" "\<not> SvREADONLY av"
  shows "\<exists>s av' w'. av_delete av w key discard = Inr (s, av', w') \<and> av_ok av' \<and>
    (if norm_key av key < 0 \<or> norm_key av key > av_len av then s = Null \<and> av' = av \<and> w' = w
     else s = (if discard then Null else elems av ! nat (norm_key av key)) \<and>
       elems av' = delete_list (elems av) (nat (norm_key av key)) \<and>
       (norm_key av key = av_len av \<longrightarrow> elems av' = [] \<or> last (elems av') \<noteq> Undef))"
proof (cases "norm_key av key < 0 \<or> norm_key av key > av_len av")
  case True
  then show ?thesis using assms by (auto simp: av_delete_def av_len_def Let_def)
next
  case False
  let ?k = "norm_key av key"
  have k: "0 \<le> ?k" "?k \<le> AvFILLp av" using False by (simp_all add: av_len_def)
  have "\<exists>x. av_delete av w key discard = Inr x"
    using assms k by (cases discard) (simp_all add: av_delete_def Let_def)
  then obtain s av' w' where d: "av_delete av w key discard = Inr (s, av', w')" by auto
  note ok = av_delete_ok[OF assms(1) d k]
  have "elems av' = [] \<or> last (elems av') \<noteq> Undef" if last: "?k = av_len av"
  proof -
    let ?xs = "rev (take (nat ?k) (elems av))"
    have "Suc (nat ?k) = length (elems av)"
      using length_elems[OF assms(1)] k last by (simp add: av_len_def Suc_nat_eq_nat_zadd1)
    then have el: "elems av' = rev (dropWhile (\<lambda>s. s = Undef) ?xs)"
      using ok(2) by (simp add: delete_list_def)
    show ?thesis
      using hd_dropWhile[of "\<lambda>s. s = Undef" ?xs] unfolding el by (auto simp: last_rev)
  qed
  with False d ok show ?thesis by (auto simp: keeps_def)
qed

theorem av_delete_correct_witness:
  "\<exists>s av' w'. av_delete (newAV\<lparr>AvALLOC := [Sv 1, Undef, Sv 3], AvFILLp := 2, AvMAX := 2\<rparr>) world0 (- 1) False =
      Inr (s, av', w') \<and> s = Sv 3 \<and> elems av' = [Sv 1]"
proof -
  let ?av = "newAV\<lparr>AvALLOC := [Sv 1, Undef, Sv 3], AvFILLp := 2, AvMAX := 2\<rparr>"
  have "av_ok ?av" "\<not> SvREADONLY ?av" "elems ?av = [Sv 1, Undef, Sv 3]" "AvREAL ?av" "norm_key ?av (- 1) = 2"
    "av_len ?av = 2"
    by (auto simp: newAV_def av_ok_def elems_def norm_key_def av_len_def)
  then show ?thesis using av_delete_correct[of ?av world0 "- 1" False] by (auto simp: delete_list_def)
qed

text \<open>
  The check of \<open>av_store\<close> for a read-only array compares the key with the last index, so it
  refuses to replace the last element but replaces every other one. Pushing, popping, unshifting, shifting, deleting and
  clearing are refused for every element.
\<close>

theorem av_readonly:
  assumes "dq_ok (av\<lparr>SvREADONLY := False\<rparr>)" "SvREADONLY av" "0 \<le> norm_key av key"
  shows "(norm_key av key < av_len av \<longrightarrow> (\<exists>av' w'. av_store m av w key val = Inr (Some (norm_key av key), av', w') \<and>
           elems av' = (elems av)[nat (norm_key av key) := norm_val val])) \<and>
    (av_len av \<le> norm_key av key \<longrightarrow> av_store m av w key val = Inl No_modify) \<and>
    av_push m av w val = Inl No_modify \<and> av_pop av w = Inl No_modify \<and> av_unshift m av w n = Inl No_modify \<and>
    av_shift av w = Inl No_modify \<and> av_delete av w key discard = Inl No_modify \<and> av_clear av w = Inl No_modify"
proof -
  have ok: "av_ok av" "AvREAL av" using assms(1) by (simp_all add: dq_ok_def av_ok_def)
  let ?k = "norm_key av key"
  have "\<exists>av' w'. av_store m av w key val = Inr (Some ?k, av', w') \<and>
      elems av' = (elems av)[nat ?k := norm_val val]" if k: "?k < AvFILLp av"
  proof -
    have "AvFILLp av \<le> AvMAX av" "AvMAX av \<le> int (length (AvALLOC av))"
      using ok(1) unfolding av_ok_def by linarith+
    then have le: "AvFILLp av \<le> AvMAX av" "AvMAX av < 2 ^ 31" using assms(1) by (simp_all add: dq_ok_def)
    obtain p av' w' where s: "av_store m av w key val = Inr (p, av', w')"
      using k assms(3) ok le by (auto simp: av_store_def Let_def)
    have "key < 2 ^ 31" using k le by (auto simp: norm_key_def split: if_splits)
    moreover have "nat ?k < length (elems av)" using k assms(3) length_elems[OF ok(1)] by simp
    ultimately show ?thesis using av_store_ok[OF ok(1) _ assms(3) s] s by (simp add: store_list_def)
  qed
  with assms(2,3) show ?thesis
    by (simp add: av_len_def av_store_def av_push_def av_pop_def av_unshift_def av_shift_def av_delete_def
        av_clear_def Let_def)
qed

theorem av_readonly_witness:
  "\<exists>av. SvREADONLY av \<and> elems av = [Sv 1, Sv 2] \<and> av_store (fixed_allocator 0) av world0 1 (Sv 3) = Inl No_modify \<and>
     (\<exists>av' w'. av_store (fixed_allocator 0) av world0 0 (Sv 3) = Inr (Some 0, av', w') \<and> elems av' = [Sv 3, Sv 2])"
proof -
  let ?av = "newAV\<lparr>AvALLOC := [Sv 1, Sv 2], AvFILLp := 1, AvMAX := 1, SvREADONLY := True\<rparr>"
  have a: "dq_ok (?av\<lparr>SvREADONLY := False\<rparr>)" "SvREADONLY ?av" "elems ?av = [Sv 1, Sv 2]"
    "norm_key ?av 0 = 0" "norm_key ?av 1 = 1" "av_len ?av = 1"
    by (auto simp: newAV_def av_ok_def elems_def norm_key_def av_len_def dq_ok_def)
  with av_readonly[OF a(1,2), of 0 "fixed_allocator 0" world0 "Sv 3"] av_readonly[OF a(1,2), of 1 "fixed_allocator 0" world0 "Sv 3"]
  show ?thesis by (intro exI[of _ ?av]) (simp add: norm_val_def)
qed

end
