(* ===== verification/Keyword.thy ===== *)
theory Keyword
  imports Kurila_Prelude
begin

text \<open>
  Reserved words (\<open>toke.c\<close>, \<open>keywords.h\<close>): \<open>Perl_keyword\<close> tells the lexer whether an identifier is
  a keyword, by its length and then character by character. The function was once written by
  \<open>perl_keyword.pl\<close> from a list of words and has been edited by hand since. Here the decision tree
  is compared with the list of the keywords.
\<close>

section \<open>Numbers\<close>

text \<open>
  The keywords in the order of \<open>keywords.h\<close>, which numbers them from 1; \<open>KEY w\<close> is \<open>KEY_w\<close>. Each
  is marked: \<open>True\<close> for a word whose number the lexer is told, \<open>False\<close> for one that a sub of the
  program may take the place of, of which it is told the negative number.
\<close>

definition keyword_table :: "(string \<times> bool) list" where
  "keyword_table =
   [(''__FILE__'', False), (''__LINE__'', False), (''__PACKAGE__'', False), (''__DATA__'', True),
    (''__END__'', True), (''BEGIN'', True), (''UNITCHECK'', True), (''CORE'', False), (''DESTROY'', True),
    (''END'', True), (''INIT'', True), (''CHECK'', True), (''abs'', False), (''accept'', False),
    (''alarm'', False), (''and'', False), (''atan2'', False), (''bind'', False), (''binmode'', False),
    (''bless'', False), (''caller'', False), (''chdir'', False), (''chmod'', False), (''chomp'', False),
    (''chop'', False), (''chown'', False), (''chr'', False), (''chroot'', False), (''close'', False),
    (''closedir'', False), (''cmp'', False), (''connect'', False), (''continue'', False), (''cos'', False),
    (''crypt'', False), (''defined'', True), (''delete'', True), (''die'', False), (''do'', True),
    (''dynascope'', True), (''each'', False), (''else'', True), (''elsif'', True), (''endgrent'', False),
    (''endhostent'', False), (''endnetent'', False), (''endprotoent'', False), (''endpwent'', False),
    (''endservent'', False), (''eof'', False), (''eq'', False), (''eval'', True), (''exec'', False),
    (''exists'', True), (''exit'', False), (''exp'', False), (''fcntl'', False), (''fileno'', False),
    (''flock'', False), (''for'', True), (''foreach'', True), (''fork'', False), (''getc'', False),
    (''getgrent'', False), (''getgrgid'', False), (''getgrnam'', False), (''gethostbyaddr'', False),
    (''gethostbyname'', False), (''gethostent'', False), (''getlogin'', False), (''getnetbyaddr'', False),
    (''getnetbyname'', False), (''getnetent'', False), (''getpeername'', False), (''getpgrp'', False),
    (''getppid'', False), (''getpriority'', False), (''getprotobyname'', False),
    (''getprotobynumber'', False), (''getprotoent'', False), (''getpwent'', False), (''getpwnam'', False),
    (''getpwuid'', False), (''getservbyname'', False), (''getservbyport'', False), (''getservent'', False),
    (''getsockname'', False), (''getsockopt'', False), (''glob'', True), (''gmtime'', False),
    (''grep'', True), (''hex'', False), (''if'', True), (''index'', False), (''int'', False),
    (''ioctl'', False), (''join'', False), (''keys'', False), (''kill'', False), (''last'', True),
    (''lc'', False), (''lcfirst'', False), (''length'', False), (''link'', False), (''listen'', False),
    (''local'', True), (''localtime'', False), (''lock'', False), (''log'', False), (''lstat'', False),
    (''nelems'', True), (''nkeys'', True), (''m'', True), (''map'', True), (''mkdir'', False),
    (''msgctl'', False), (''msgget'', False), (''msgrcv'', False), (''msgsnd'', False), (''my'', True),
    (''ne'', False), (''next'', True), (''no'', True), (''not'', False), (''oct'', False), (''open'', False),
    (''opendir'', False), (''or'', False), (''ord'', False), (''our'', True), (''pack'', False),
    (''package'', True), (''pipe'', False), (''pop'', False), (''pos'', True), (''print'', True),
    (''printf'', True), (''prototype'', True), (''push'', False), (''q'', True), (''qq'', True),
    (''qr'', True), (''quotemeta'', False), (''qw'', True), (''qx'', True), (''rand'', False),
    (''read'', False), (''readdir'', False), (''readline'', False), (''readlink'', False),
    (''readpipe'', False), (''recv'', False), (''redo'', True), (''ref'', False), (''rename'', False),
    (''require'', True), (''return'', True), (''reverse'', False), (''rewinddir'', False),
    (''rindex'', False), (''rmdir'', False), (''s'', True), (''scalar'', True), (''seek'', False),
    (''seekdir'', False), (''select'', False), (''semctl'', False), (''semget'', False), (''semop'', False),
    (''send'', False), (''setgrent'', False), (''sethostent'', False), (''setnetent'', False),
    (''setpgrp'', False), (''setpriority'', False), (''setprotoent'', False), (''setpwent'', False),
    (''setservent'', False), (''setsockopt'', False), (''shift'', False), (''shmctl'', False),
    (''shmget'', False), (''shmread'', False), (''shmwrite'', False), (''shutdown'', False),
    (''sin'', False), (''sleep'', False), (''socket'', False), (''socketpair'', False), (''sort'', True),
    (''splice'', False), (''split'', True), (''sprintf'', False), (''sqrt'', False), (''srand'', False),
    (''stat'', False), (''study'', True), (''sub'', True), (''substr'', False), (''symlink'', False),
    (''syscall'', False), (''sysopen'', False), (''sysread'', False), (''sysseek'', False),
    (''system'', False), (''syswrite'', False), (''tell'', False), (''telldir'', False), (''time'', False),
    (''times'', False), (''tr'', True), (''truncate'', False), (''try'', True), (''uc'', False),
    (''ucfirst'', False), (''umask'', False), (''undef'', True), (''unless'', True), (''unlink'', False),
    (''unpack'', False), (''unshift'', False), (''until'', True), (''use'', True), (''utime'', False),
    (''values'', False), (''vec'', False), (''wait'', False), (''waitpid'', False), (''warn'', False),
    (''while'', True), (''write'', False), (''x'', False), (''xor'', False), (''y'', True)]"

definition keyword_names :: "string list" where
  "keyword_names = map fst keyword_table"

fun index_of :: "string \<Rightarrow> string list \<Rightarrow> nat" where
  "index_of w [] = 0"
| "index_of w (v # vs) = (if w = v then 0 else Suc (index_of w vs))"

definition KEY :: "string \<Rightarrow> int" where
  "KEY w = int (index_of w keyword_names) + 1"

text \<open>How a branch of the function ends: \<open>return\<close>, \<open>goto unknown\<close>, or a warning and \<open>goto unknown\<close>.\<close>

datatype kw_end = Ret int | Unknown | Warn_elseif

section \<open>Words of length 1\<close>

definition kw_1 :: "string \<Rightarrow> kw_end" where
  "kw_1 name =
    (if name ! 0 = CHR ''m'' then
      Ret (KEY ''m'')
    else if name ! 0 = CHR ''q'' then
      Ret (KEY ''q'')
    else if name ! 0 = CHR ''s'' then
      Ret (KEY ''s'')
    else if name ! 0 = CHR ''x'' then
      Ret (- KEY ''x'')
    else if name ! 0 = CHR ''y'' then
      Ret (KEY ''y'')
    else Unknown)"

section \<open>Words of length 2\<close>

definition kw_2 :: "string \<Rightarrow> kw_end" where
  "kw_2 name =
    (if name ! 0 = CHR ''d'' then
      if name ! 1 = CHR ''o''
      then Ret (KEY ''do'')
      else Unknown
    else if name ! 0 = CHR ''e'' then
      if name ! 1 = CHR ''q''
      then Ret (- KEY ''eq'')
      else Unknown
    else if name ! 0 = CHR ''g'' then
      Unknown
    else if name ! 0 = CHR ''i'' then
      if name ! 1 = CHR ''f''
      then Ret (KEY ''if'')
      else Unknown
    else if name ! 0 = CHR ''l'' then
      if name ! 1 = CHR ''c'' then
        Ret (- KEY ''lc'')
      else Unknown
    else if name ! 0 = CHR ''m'' then
      if name ! 1 = CHR ''y''
      then Ret (KEY ''my'')
      else Unknown
    else if name ! 0 = CHR ''n'' then
      if name ! 1 = CHR ''e'' then
        Ret (- KEY ''ne'')
      else if name ! 1 = CHR ''o'' then
        Ret (KEY ''no'')
      else Unknown
    else if name ! 0 = CHR ''o'' then
      if name ! 1 = CHR ''r''
      then Ret (- KEY ''or'')
      else Unknown
    else if name ! 0 = CHR ''q'' then
      if name ! 1 = CHR ''q'' then
        Ret (KEY ''qq'')
      else if name ! 1 = CHR ''r'' then
        Ret (KEY ''qr'')
      else if name ! 1 = CHR ''w'' then
        Ret (KEY ''qw'')
      else if name ! 1 = CHR ''x'' then
        Ret (KEY ''qx'')
      else Unknown
    else if name ! 0 = CHR ''t'' then
      if name ! 1 = CHR ''r''
      then Ret (KEY ''tr'')
      else Unknown
    else if name ! 0 = CHR ''u'' then
      if name ! 1 = CHR ''c''
      then Ret (- KEY ''uc'')
      else Unknown
    else Unknown)"

section \<open>Words of length 3\<close>

definition kw_3_EE :: "string \<Rightarrow> kw_end" where
  "kw_3_EE name =
    (if name ! 1 = CHR ''N'' \<and> name ! 2 = CHR ''D''
    then Ret (KEY ''END'')
    else Unknown)"

definition kw_3_a :: "string \<Rightarrow> kw_end" where
  "kw_3_a name =
    (if name ! 1 = CHR ''b'' then
      if name ! 2 = CHR ''s''
      then Ret (- KEY ''abs'')
      else Unknown
    else if name ! 1 = CHR ''n'' then
      if name ! 2 = CHR ''d''
      then Ret (- KEY ''and'')
      else Unknown
    else Unknown)"

definition kw_3_c :: "string \<Rightarrow> kw_end" where
  "kw_3_c name =
    (if name ! 1 = CHR ''h'' then
      if name ! 2 = CHR ''r''
      then Ret (- KEY ''chr'')
      else Unknown
    else if name ! 1 = CHR ''m'' then
      if name ! 2 = CHR ''p''
      then Ret (- KEY ''cmp'')
      else Unknown
    else if name ! 1 = CHR ''o'' then
      if name ! 2 = CHR ''s''
      then Ret (- KEY ''cos'')
      else Unknown
    else Unknown)"

definition kw_3_d :: "string \<Rightarrow> kw_end" where
  "kw_3_d name =
    (if name ! 1 = CHR ''i'' \<and> name ! 2 = CHR ''e''
    then Ret (- KEY ''die'')
    else Unknown)"

definition kw_3_e :: "string \<Rightarrow> kw_end" where
  "kw_3_e name =
    (if name ! 1 = CHR ''o'' then
      if name ! 2 = CHR ''f''
      then Ret (- KEY ''eof'')
      else Unknown
    else if name ! 1 = CHR ''x'' then
      if name ! 2 = CHR ''p''
      then Ret (- KEY ''exp'')
      else Unknown
    else Unknown)"

definition kw_3_f :: "string \<Rightarrow> kw_end" where
  "kw_3_f name =
    (if name ! 1 = CHR ''o'' \<and> name ! 2 = CHR ''r''
    then Ret (KEY ''for'')
    else Unknown)"

definition kw_3_h :: "string \<Rightarrow> kw_end" where
  "kw_3_h name =
    (if name ! 1 = CHR ''e'' \<and> name ! 2 = CHR ''x''
    then Ret (- KEY ''hex'')
    else Unknown)"

definition kw_3_i :: "string \<Rightarrow> kw_end" where
  "kw_3_i name =
    (if name ! 1 = CHR ''n'' \<and> name ! 2 = CHR ''t''
    then Ret (- KEY ''int'')
    else Unknown)"

definition kw_3_l :: "string \<Rightarrow> kw_end" where
  "kw_3_l name =
    (if name ! 1 = CHR ''o'' \<and> name ! 2 = CHR ''g''
    then Ret (- KEY ''log'')
    else Unknown)"

definition kw_3_m :: "string \<Rightarrow> kw_end" where
  "kw_3_m name =
    (if name ! 1 = CHR ''a'' \<and> name ! 2 = CHR ''p''
    then Ret (KEY ''map'')
    else Unknown)"

definition kw_3_n :: "string \<Rightarrow> kw_end" where
  "kw_3_n name =
    (if name ! 1 = CHR ''o'' \<and> name ! 2 = CHR ''t''
    then Ret (- KEY ''not'')
    else Unknown)"

definition kw_3_o :: "string \<Rightarrow> kw_end" where
  "kw_3_o name =
    (if name ! 1 = CHR ''c'' then
      if name ! 2 = CHR ''t''
      then Ret (- KEY ''oct'')
      else Unknown
    else if name ! 1 = CHR ''r'' then
      if name ! 2 = CHR ''d''
      then Ret (- KEY ''ord'')
      else Unknown
    else if name ! 1 = CHR ''u'' then
      if name ! 2 = CHR ''r''
      then Ret (KEY ''our'')
      else Unknown
    else Unknown)"

definition kw_3_p :: "string \<Rightarrow> kw_end" where
  "kw_3_p name =
    (if name ! 1 = CHR ''o''
    then if name ! 2 = CHR ''p'' then
        Ret (- KEY ''pop'')
      else if name ! 2 = CHR ''s'' then
        Ret (KEY ''pos'')
      else Unknown
    else Unknown)"

definition kw_3_r :: "string \<Rightarrow> kw_end" where
  "kw_3_r name =
    (if name ! 1 = CHR ''e'' \<and> name ! 2 = CHR ''f''
    then Ret (- KEY ''ref'')
    else Unknown)"

definition kw_3_s :: "string \<Rightarrow> kw_end" where
  "kw_3_s name =
    (if name ! 1 = CHR ''i'' then
      if name ! 2 = CHR ''n''
      then Ret (- KEY ''sin'')
      else Unknown
    else if name ! 1 = CHR ''u'' then
      if name ! 2 = CHR ''b''
      then Ret (KEY ''sub'')
      else Unknown
    else Unknown)"

definition kw_3_t :: "string \<Rightarrow> kw_end" where
  "kw_3_t name =
    (if name ! 1 = CHR ''r'' \<and> name ! 2 = CHR ''y''
    then Ret (KEY ''try'')
    else Unknown)"

definition kw_3_u :: "string \<Rightarrow> kw_end" where
  "kw_3_u name =
    (if name ! 1 = CHR ''s'' \<and> name ! 2 = CHR ''e''
    then Ret (KEY ''use'')
    else Unknown)"

definition kw_3_v :: "string \<Rightarrow> kw_end" where
  "kw_3_v name =
    (if name ! 1 = CHR ''e'' \<and> name ! 2 = CHR ''c''
    then Ret (- KEY ''vec'')
    else Unknown)"

definition kw_3_x :: "string \<Rightarrow> kw_end" where
  "kw_3_x name =
    (if name ! 1 = CHR ''o'' \<and> name ! 2 = CHR ''r''
    then Ret (- KEY ''xor'')
    else Unknown)"

definition kw_3 :: "string \<Rightarrow> kw_end" where
  "kw_3 name =
    (if name ! 0 = CHR ''E'' then kw_3_EE name
    else if name ! 0 = CHR ''a'' then kw_3_a name
    else if name ! 0 = CHR ''c'' then kw_3_c name
    else if name ! 0 = CHR ''d'' then kw_3_d name
    else if name ! 0 = CHR ''e'' then kw_3_e name
    else if name ! 0 = CHR ''f'' then kw_3_f name
    else if name ! 0 = CHR ''h'' then kw_3_h name
    else if name ! 0 = CHR ''i'' then kw_3_i name
    else if name ! 0 = CHR ''l'' then kw_3_l name
    else if name ! 0 = CHR ''m'' then kw_3_m name
    else if name ! 0 = CHR ''n'' then kw_3_n name
    else if name ! 0 = CHR ''o'' then kw_3_o name
    else if name ! 0 = CHR ''p'' then kw_3_p name
    else if name ! 0 = CHR ''r'' then kw_3_r name
    else if name ! 0 = CHR ''s'' then kw_3_s name
    else if name ! 0 = CHR ''t'' then kw_3_t name
    else if name ! 0 = CHR ''u'' then kw_3_u name
    else if name ! 0 = CHR ''v'' then kw_3_v name
    else if name ! 0 = CHR ''x'' then kw_3_x name
    else Unknown)"

section \<open>Words of length 4\<close>

definition kw_4_CC :: "string \<Rightarrow> kw_end" where
  "kw_4_CC name =
    (if name ! 1 = CHR ''O'' \<and> name ! 2 = CHR ''R'' \<and> name ! 3 = CHR ''E''
    then Ret (- KEY ''CORE'')
    else Unknown)"

definition kw_4_II :: "string \<Rightarrow> kw_end" where
  "kw_4_II name =
    (if name ! 1 = CHR ''N'' \<and> name ! 2 = CHR ''I'' \<and> name ! 3 = CHR ''T''
    then Ret (KEY ''INIT'')
    else Unknown)"

definition kw_4_b :: "string \<Rightarrow> kw_end" where
  "kw_4_b name =
    (if name ! 1 = CHR ''i'' \<and> name ! 2 = CHR ''n'' \<and> name ! 3 = CHR ''d''
    then Ret (- KEY ''bind'')
    else Unknown)"

definition kw_4_c :: "string \<Rightarrow> kw_end" where
  "kw_4_c name =
    (if name ! 1 = CHR ''h'' \<and> name ! 2 = CHR ''o'' \<and> name ! 3 = CHR ''p''
    then Ret (- KEY ''chop'')
    else Unknown)"

definition kw_4_e :: "string \<Rightarrow> kw_end" where
  "kw_4_e name =
    (if name ! 1 = CHR ''a'' then
      if name ! 2 = CHR ''c'' \<and> name ! 3 = CHR ''h''
      then Ret (- KEY ''each'')
      else Unknown
    else if name ! 1 = CHR ''l'' then
      if name ! 2 = CHR ''s'' \<and> name ! 3 = CHR ''e''
      then Ret (KEY ''else'')
      else Unknown
    else if name ! 1 = CHR ''v'' then
      if name ! 2 = CHR ''a'' \<and> name ! 3 = CHR ''l''
      then Ret (KEY ''eval'')
      else Unknown
    else if name ! 1 = CHR ''x'' then
      if name ! 2 = CHR ''e'' then
        if name ! 3 = CHR ''c''
        then Ret (- KEY ''exec'')
        else Unknown
      else if name ! 2 = CHR ''i'' then
        if name ! 3 = CHR ''t''
        then Ret (- KEY ''exit'')
        else Unknown
      else Unknown
    else Unknown)"

definition kw_4_f :: "string \<Rightarrow> kw_end" where
  "kw_4_f name =
    (if name ! 1 = CHR ''o'' \<and> name ! 2 = CHR ''r'' \<and> name ! 3 = CHR ''k''
    then Ret (- KEY ''fork'')
    else Unknown)"

definition kw_4_g :: "string \<Rightarrow> kw_end" where
  "kw_4_g name =
    (if name ! 1 = CHR ''e'' then
      if name ! 2 = CHR ''t'' \<and> name ! 3 = CHR ''c''
      then Ret (- KEY ''getc'')
      else Unknown
    else if name ! 1 = CHR ''l'' then
      if name ! 2 = CHR ''o'' \<and> name ! 3 = CHR ''b''
      then Ret (KEY ''glob'')
      else Unknown
    else if name ! 1 = CHR ''r'' then
      if name ! 2 = CHR ''e'' \<and> name ! 3 = CHR ''p''
      then Ret (KEY ''grep'')
      else Unknown
    else Unknown)"

definition kw_4_j :: "string \<Rightarrow> kw_end" where
  "kw_4_j name =
    (if name ! 1 = CHR ''o'' \<and> name ! 2 = CHR ''i'' \<and> name ! 3 = CHR ''n''
    then Ret (- KEY ''join'')
    else Unknown)"

definition kw_4_k :: "string \<Rightarrow> kw_end" where
  "kw_4_k name =
    (if name ! 1 = CHR ''e'' then
      if name ! 2 = CHR ''y'' \<and> name ! 3 = CHR ''s''
      then Ret (- KEY ''keys'')
      else Unknown
    else if name ! 1 = CHR ''i'' then
      if name ! 2 = CHR ''l'' \<and> name ! 3 = CHR ''l''
      then Ret (- KEY ''kill'')
      else Unknown
    else Unknown)"

definition kw_4_l :: "string \<Rightarrow> kw_end" where
  "kw_4_l name =
    (if name ! 1 = CHR ''a'' then
      if name ! 2 = CHR ''s'' \<and> name ! 3 = CHR ''t''
      then Ret (KEY ''last'')
      else Unknown
    else if name ! 1 = CHR ''i'' then
      if name ! 2 = CHR ''n'' \<and> name ! 3 = CHR ''k''
      then Ret (- KEY ''link'')
      else Unknown
    else if name ! 1 = CHR ''o'' then
      if name ! 2 = CHR ''c'' \<and> name ! 3 = CHR ''k''
      then Ret (- KEY ''lock'')
      else Unknown
    else Unknown)"

definition kw_4_n :: "string \<Rightarrow> kw_end" where
  "kw_4_n name =
    (if name ! 1 = CHR ''e'' \<and> name ! 2 = CHR ''x'' \<and> name ! 3 = CHR ''t''
    then Ret (KEY ''next'')
    else Unknown)"

definition kw_4_o :: "string \<Rightarrow> kw_end" where
  "kw_4_o name =
    (if name ! 1 = CHR ''p'' \<and> name ! 2 = CHR ''e'' \<and> name ! 3 = CHR ''n''
    then Ret (- KEY ''open'')
    else Unknown)"

definition kw_4_p :: "string \<Rightarrow> kw_end" where
  "kw_4_p name =
    (if name ! 1 = CHR ''a'' then
      if name ! 2 = CHR ''c'' \<and> name ! 3 = CHR ''k''
      then Ret (- KEY ''pack'')
      else Unknown
    else if name ! 1 = CHR ''i'' then
      if name ! 2 = CHR ''p'' \<and> name ! 3 = CHR ''e''
      then Ret (- KEY ''pipe'')
      else Unknown
    else if name ! 1 = CHR ''u'' then
      if name ! 2 = CHR ''s'' \<and> name ! 3 = CHR ''h''
      then Ret (- KEY ''push'')
      else Unknown
    else Unknown)"

definition kw_4_r :: "string \<Rightarrow> kw_end" where
  "kw_4_r name =
    (if name ! 1 = CHR ''a'' then
      if name ! 2 = CHR ''n'' \<and> name ! 3 = CHR ''d''
      then Ret (- KEY ''rand'')
      else Unknown
    else if name ! 1 = CHR ''e'' then
      if name ! 2 = CHR ''a'' then
        if name ! 3 = CHR ''d''
        then Ret (- KEY ''read'')
        else Unknown
      else if name ! 2 = CHR ''c'' then
        if name ! 3 = CHR ''v''
        then Ret (- KEY ''recv'')
        else Unknown
      else if name ! 2 = CHR ''d'' then
        if name ! 3 = CHR ''o''
        then Ret (KEY ''redo'')
        else Unknown
      else Unknown
    else Unknown)"

definition kw_4_s :: "string \<Rightarrow> kw_end" where
  "kw_4_s name =
    (if name ! 1 = CHR ''e'' then
      if name ! 2 = CHR ''e'' then
        if name ! 3 = CHR ''k''
        then Ret (- KEY ''seek'')
        else Unknown
      else if name ! 2 = CHR ''n'' then
        if name ! 3 = CHR ''d''
        then Ret (- KEY ''send'')
        else Unknown
      else Unknown
    else if name ! 1 = CHR ''o'' then
      if name ! 2 = CHR ''r'' \<and> name ! 3 = CHR ''t''
      then Ret (KEY ''sort'')
      else Unknown
    else if name ! 1 = CHR ''q'' then
      if name ! 2 = CHR ''r'' \<and> name ! 3 = CHR ''t''
      then Ret (- KEY ''sqrt'')
      else Unknown
    else if name ! 1 = CHR ''t'' then
      if name ! 2 = CHR ''a'' \<and> name ! 3 = CHR ''t''
      then Ret (- KEY ''stat'')
      else Unknown
    else Unknown)"

definition kw_4_t :: "string \<Rightarrow> kw_end" where
  "kw_4_t name =
    (if name ! 1 = CHR ''e'' then
      if name ! 2 = CHR ''l'' \<and> name ! 3 = CHR ''l''
      then Ret (- KEY ''tell'')
      else Unknown
    else if name ! 1 = CHR ''i'' then
      if name ! 2 = CHR ''m'' then
        if name ! 3 = CHR ''e''
        then Ret (- KEY ''time'')
        else Unknown
      else Unknown
    else Unknown)"

definition kw_4_w :: "string \<Rightarrow> kw_end" where
  "kw_4_w name =
    (if name ! 1 = CHR ''a'' then
      if name ! 2 = CHR ''i'' then
        if name ! 3 = CHR ''t''
        then Ret (- KEY ''wait'')
        else Unknown
      else if name ! 2 = CHR ''r'' then
        if name ! 3 = CHR ''n''
        then Ret (- KEY ''warn'')
        else Unknown
      else Unknown
    else Unknown)"

definition kw_4 :: "string \<Rightarrow> kw_end" where
  "kw_4 name =
    (if name ! 0 = CHR ''C'' then kw_4_CC name
    else if name ! 0 = CHR ''I'' then kw_4_II name
    else if name ! 0 = CHR ''b'' then kw_4_b name
    else if name ! 0 = CHR ''c'' then kw_4_c name
    else if name ! 0 = CHR ''e'' then kw_4_e name
    else if name ! 0 = CHR ''f'' then kw_4_f name
    else if name ! 0 = CHR ''g'' then kw_4_g name
    else if name ! 0 = CHR ''j'' then kw_4_j name
    else if name ! 0 = CHR ''k'' then kw_4_k name
    else if name ! 0 = CHR ''l'' then kw_4_l name
    else if name ! 0 = CHR ''n'' then kw_4_n name
    else if name ! 0 = CHR ''o'' then kw_4_o name
    else if name ! 0 = CHR ''p'' then kw_4_p name
    else if name ! 0 = CHR ''r'' then kw_4_r name
    else if name ! 0 = CHR ''s'' then kw_4_s name
    else if name ! 0 = CHR ''t'' then kw_4_t name
    else if name ! 0 = CHR ''w'' then kw_4_w name
    else Unknown)"

section \<open>Words of length 5\<close>

definition kw_5_BB :: "string \<Rightarrow> kw_end" where
  "kw_5_BB name =
    (if name ! 1 = CHR ''E'' \<and> name ! 2 = CHR ''G'' \<and> name ! 3 = CHR ''I'' \<and> name ! 4 = CHR ''N''
    then Ret (KEY ''BEGIN'')
    else Unknown)"

definition kw_5_CC :: "string \<Rightarrow> kw_end" where
  "kw_5_CC name =
    (if name ! 1 = CHR ''H'' \<and> name ! 2 = CHR ''E'' \<and> name ! 3 = CHR ''C'' \<and> name ! 4 = CHR ''K''
    then Ret (KEY ''CHECK'')
    else Unknown)"

definition kw_5_a :: "string \<Rightarrow> kw_end" where
  "kw_5_a name =
    (if name ! 1 = CHR ''l'' then
      if name ! 2 = CHR ''a'' \<and> name ! 3 = CHR ''r'' \<and> name ! 4 = CHR ''m''
      then Ret (- KEY ''alarm'')
      else Unknown
    else if name ! 1 = CHR ''t'' then
      if name ! 2 = CHR ''a'' \<and> name ! 3 = CHR ''n'' \<and> name ! 4 = CHR ''2''
      then Ret (- KEY ''atan2'')
      else Unknown
    else Unknown)"

definition kw_5_b :: "string \<Rightarrow> kw_end" where
  "kw_5_b name =
    (if name ! 1 = CHR ''l'' then
      if name ! 2 = CHR ''e'' \<and> name ! 3 = CHR ''s'' \<and> name ! 4 = CHR ''s''
      then Ret (- KEY ''bless'')
      else Unknown
    else Unknown)"

definition kw_5_c :: "string \<Rightarrow> kw_end" where
  "kw_5_c name =
    (if name ! 1 = CHR ''h'' then
      if name ! 2 = CHR ''d'' then
        if name ! 3 = CHR ''i'' \<and> name ! 4 = CHR ''r''
        then Ret (- KEY ''chdir'')
        else Unknown
      else if name ! 2 = CHR ''m'' then
        if name ! 3 = CHR ''o'' \<and> name ! 4 = CHR ''d''
        then Ret (- KEY ''chmod'')
        else Unknown
      else if name ! 2 = CHR ''o'' then
        if name ! 3 = CHR ''m'' then
          if name ! 4 = CHR ''p''
          then Ret (- KEY ''chomp'')
          else Unknown
        else if name ! 3 = CHR ''w'' then
          if name ! 4 = CHR ''n''
          then Ret (- KEY ''chown'')
          else Unknown
        else Unknown
      else Unknown
    else if name ! 1 = CHR ''l'' then
      if name ! 2 = CHR ''o'' \<and> name ! 3 = CHR ''s'' \<and> name ! 4 = CHR ''e''
      then Ret (- KEY ''close'')
      else Unknown
    else if name ! 1 = CHR ''r'' then
      if name ! 2 = CHR ''y'' \<and> name ! 3 = CHR ''p'' \<and> name ! 4 = CHR ''t''
      then Ret (- KEY ''crypt'')
      else Unknown
    else Unknown)"

definition kw_5_e :: "string \<Rightarrow> kw_end" where
  "kw_5_e name =
    (if name ! 1 = CHR ''l'' \<and> name ! 2 = CHR ''s'' \<and> name ! 3 = CHR ''i'' \<and> name ! 4 = CHR ''f''
    then Ret (KEY ''elsif'')
    else Unknown)"

definition kw_5_f :: "string \<Rightarrow> kw_end" where
  "kw_5_f name =
    (if name ! 1 = CHR ''c'' then
      if name ! 2 = CHR ''n'' \<and> name ! 3 = CHR ''t'' \<and> name ! 4 = CHR ''l''
      then Ret (- KEY ''fcntl'')
      else Unknown
    else if name ! 1 = CHR ''l'' then
      if name ! 2 = CHR ''o'' \<and> name ! 3 = CHR ''c'' \<and> name ! 4 = CHR ''k''
      then Ret (- KEY ''flock'')
      else Unknown
    else Unknown)"

definition kw_5_i :: "string \<Rightarrow> kw_end" where
  "kw_5_i name =
    (if name ! 1 = CHR ''n'' then
      if name ! 2 = CHR ''d'' \<and> name ! 3 = CHR ''e'' \<and> name ! 4 = CHR ''x''
      then Ret (- KEY ''index'')
      else Unknown
    else if name ! 1 = CHR ''o'' then
      if name ! 2 = CHR ''c'' \<and> name ! 3 = CHR ''t'' \<and> name ! 4 = CHR ''l''
      then Ret (- KEY ''ioctl'')
      else Unknown
    else Unknown)"

definition kw_5_l :: "string \<Rightarrow> kw_end" where
  "kw_5_l name =
    (if name ! 1 = CHR ''o'' then
      if name ! 2 = CHR ''c'' \<and> name ! 3 = CHR ''a'' \<and> name ! 4 = CHR ''l''
      then Ret (KEY ''local'')
      else Unknown
    else if name ! 1 = CHR ''s'' then
      if name ! 2 = CHR ''t'' \<and> name ! 3 = CHR ''a'' \<and> name ! 4 = CHR ''t''
      then Ret (- KEY ''lstat'')
      else Unknown
    else Unknown)"

definition kw_5_n :: "string \<Rightarrow> kw_end" where
  "kw_5_n name =
    (if name ! 1 = CHR ''k'' \<and> name ! 2 = CHR ''e'' \<and> name ! 3 = CHR ''y'' \<and> name ! 4 = CHR ''s''
    then Ret (KEY ''nkeys'')
    else Unknown)"

definition kw_5_m :: "string \<Rightarrow> kw_end" where
  "kw_5_m name =
    (if name ! 1 = CHR ''k'' \<and> name ! 2 = CHR ''d'' \<and> name ! 3 = CHR ''i'' \<and> name ! 4 = CHR ''r''
    then Ret (- KEY ''mkdir'')
    else Unknown)"

definition kw_5_p :: "string \<Rightarrow> kw_end" where
  "kw_5_p name =
    (if name ! 1 = CHR ''r'' \<and> name ! 2 = CHR ''i'' \<and> name ! 3 = CHR ''n'' \<and> name ! 4 = CHR ''t''
    then Ret (KEY ''print'')
    else Unknown)"

definition kw_5_r :: "string \<Rightarrow> kw_end" where
  "kw_5_r name =
    (if name ! 1 = CHR ''m'' then
      if name ! 2 = CHR ''d'' \<and> name ! 3 = CHR ''i'' \<and> name ! 4 = CHR ''r''
      then Ret (- KEY ''rmdir'')
      else Unknown
    else Unknown)"

definition kw_5_s :: "string \<Rightarrow> kw_end" where
  "kw_5_s name =
    (if name ! 1 = CHR ''e'' then
      if name ! 2 = CHR ''m'' \<and> name ! 3 = CHR ''o'' \<and> name ! 4 = CHR ''p''
      then Ret (- KEY ''semop'')
      else Unknown
    else if name ! 1 = CHR ''h'' then
      if name ! 2 = CHR ''i'' \<and> name ! 3 = CHR ''f'' \<and> name ! 4 = CHR ''t''
      then Ret (- KEY ''shift'')
      else Unknown
    else if name ! 1 = CHR ''l'' then
      if name ! 2 = CHR ''e'' \<and> name ! 3 = CHR ''e'' \<and> name ! 4 = CHR ''p''
      then Ret (- KEY ''sleep'')
      else Unknown
    else if name ! 1 = CHR ''p'' then
      if name ! 2 = CHR ''l'' \<and> name ! 3 = CHR ''i'' \<and> name ! 4 = CHR ''t''
      then Ret (KEY ''split'')
      else Unknown
    else if name ! 1 = CHR ''r'' then
      if name ! 2 = CHR ''a'' \<and> name ! 3 = CHR ''n'' \<and> name ! 4 = CHR ''d''
      then Ret (- KEY ''srand'')
      else Unknown
    else if name ! 1 = CHR ''t'' then
      if name ! 2 = CHR ''u'' then
        if name ! 3 = CHR ''d'' \<and> name ! 4 = CHR ''y''
        then Ret (KEY ''study'')
        else Unknown
      else Unknown
    else Unknown)"

definition kw_5_t :: "string \<Rightarrow> kw_end" where
  "kw_5_t name =
    (if name ! 1 = CHR ''i'' \<and> name ! 2 = CHR ''m'' \<and> name ! 3 = CHR ''e'' \<and> name ! 4 = CHR ''s''
    then Ret (- KEY ''times'')
    else Unknown)"

definition kw_5_u :: "string \<Rightarrow> kw_end" where
  "kw_5_u name =
    (if name ! 1 = CHR ''m'' then
      if name ! 2 = CHR ''a'' \<and> name ! 3 = CHR ''s'' \<and> name ! 4 = CHR ''k''
      then Ret (- KEY ''umask'')
      else Unknown
    else if name ! 1 = CHR ''n'' then
      if name ! 2 = CHR ''d'' then
        if name ! 3 = CHR ''e'' \<and> name ! 4 = CHR ''f''
        then Ret (KEY ''undef'')
        else Unknown
      else if name ! 2 = CHR ''t'' then
        if name ! 3 = CHR ''i''
        then if name ! 4 = CHR ''l'' then
            Ret (KEY ''until'')
          else Unknown
        else Unknown
      else Unknown
    else if name ! 1 = CHR ''t'' then
      if name ! 2 = CHR ''i'' \<and> name ! 3 = CHR ''m'' \<and> name ! 4 = CHR ''e''
      then Ret (- KEY ''utime'')
      else Unknown
    else Unknown)"

definition kw_5_w :: "string \<Rightarrow> kw_end" where
  "kw_5_w name =
    (if name ! 1 = CHR ''h'' then
      if name ! 2 = CHR ''i'' \<and> name ! 3 = CHR ''l'' \<and> name ! 4 = CHR ''e''
      then Ret (KEY ''while'')
      else Unknown
    else if name ! 1 = CHR ''r'' then
      if name ! 2 = CHR ''i'' \<and> name ! 3 = CHR ''t'' \<and> name ! 4 = CHR ''e''
      then Ret (- KEY ''write'')
      else Unknown
    else Unknown)"

definition kw_5 :: "string \<Rightarrow> kw_end" where
  "kw_5 name =
    (if name ! 0 = CHR ''B'' then kw_5_BB name
    else if name ! 0 = CHR ''C'' then kw_5_CC name
    else if name ! 0 = CHR ''a'' then kw_5_a name
    else if name ! 0 = CHR ''b'' then kw_5_b name
    else if name ! 0 = CHR ''c'' then kw_5_c name
    else if name ! 0 = CHR ''e'' then kw_5_e name
    else if name ! 0 = CHR ''f'' then kw_5_f name
    else if name ! 0 = CHR ''i'' then kw_5_i name
    else if name ! 0 = CHR ''l'' then kw_5_l name
    else if name ! 0 = CHR ''n'' then kw_5_n name
    else if name ! 0 = CHR ''m'' then kw_5_m name
    else if name ! 0 = CHR ''p'' then kw_5_p name
    else if name ! 0 = CHR ''r'' then kw_5_r name
    else if name ! 0 = CHR ''s'' then kw_5_s name
    else if name ! 0 = CHR ''t'' then kw_5_t name
    else if name ! 0 = CHR ''u'' then kw_5_u name
    else if name ! 0 = CHR ''w'' then kw_5_w name
    else Unknown)"

section \<open>Words of length 6\<close>

definition kw_6_a :: "string \<Rightarrow> kw_end" where
  "kw_6_a name =
    (if name ! 1 = CHR ''c'' \<and> name ! 2 = CHR ''c'' \<and> name ! 3 = CHR ''e'' \<and> name ! 4 = CHR ''p'' \<and> name ! 5 = CHR ''t''
    then Ret (- KEY ''accept'')
    else Unknown)"

definition kw_6_c :: "string \<Rightarrow> kw_end" where
  "kw_6_c name =
    (if name ! 1 = CHR ''a'' then
      if name ! 2 = CHR ''l'' \<and> name ! 3 = CHR ''l'' \<and> name ! 4 = CHR ''e'' \<and> name ! 5 = CHR ''r''
      then Ret (- KEY ''caller'')
      else Unknown
    else if name ! 1 = CHR ''h'' then
      if name ! 2 = CHR ''r'' \<and> name ! 3 = CHR ''o'' \<and> name ! 4 = CHR ''o'' \<and> name ! 5 = CHR ''t''
      then Ret (- KEY ''chroot'')
      else Unknown
    else Unknown)"

definition kw_6_d :: "string \<Rightarrow> kw_end" where
  "kw_6_d name =
    (if name ! 1 = CHR ''e'' \<and> name ! 2 = CHR ''l'' \<and> name ! 3 = CHR ''e'' \<and> name ! 4 = CHR ''t'' \<and> name ! 5 = CHR ''e''
    then Ret (KEY ''delete'')
    else Unknown)"

definition kw_6_e :: "string \<Rightarrow> kw_end" where
  "kw_6_e name =
    (if name ! 1 = CHR ''l'' then
      if name ! 2 = CHR ''s'' \<and> name ! 3 = CHR ''e'' \<and> name ! 4 = CHR ''i'' \<and> name ! 5 = CHR ''f''
      then Warn_elseif
      else Unknown
    else if name ! 1 = CHR ''x'' then
      if name ! 2 = CHR ''i'' \<and> name ! 3 = CHR ''s'' \<and> name ! 4 = CHR ''t'' \<and> name ! 5 = CHR ''s''
      then Ret (KEY ''exists'')
      else Unknown
    else Unknown)"

definition kw_6_f :: "string \<Rightarrow> kw_end" where
  "kw_6_f name =
    (if name ! 1 = CHR ''i'' then
      if name ! 2 = CHR ''l'' \<and> name ! 3 = CHR ''e'' \<and> name ! 4 = CHR ''n'' \<and> name ! 5 = CHR ''o''
      then Ret (- KEY ''fileno'')
      else Unknown
    else Unknown)"

definition kw_6_g :: "string \<Rightarrow> kw_end" where
  "kw_6_g name =
    (if name ! 1 = CHR ''m'' \<and> name ! 2 = CHR ''t'' \<and> name ! 3 = CHR ''i'' \<and> name ! 4 = CHR ''m'' \<and> name ! 5 = CHR ''e''
    then Ret (- KEY ''gmtime'')
    else Unknown)"

definition kw_6_l :: "string \<Rightarrow> kw_end" where
  "kw_6_l name =
    (if name ! 1 = CHR ''e'' then
      if name ! 2 = CHR ''n'' \<and> name ! 3 = CHR ''g'' \<and> name ! 4 = CHR ''t'' \<and> name ! 5 = CHR ''h''
      then Ret (- KEY ''length'')
      else Unknown
    else if name ! 1 = CHR ''i'' then
      if name ! 2 = CHR ''s'' \<and> name ! 3 = CHR ''t'' \<and> name ! 4 = CHR ''e'' \<and> name ! 5 = CHR ''n''
      then Ret (- KEY ''listen'')
      else Unknown
    else Unknown)"

definition kw_6_m :: "string \<Rightarrow> kw_end" where
  "kw_6_m name =
    (if name ! 1 = CHR ''s'' \<and> name ! 2 = CHR ''g''
    then if name ! 3 = CHR ''c'' then
        if name ! 4 = CHR ''t'' \<and> name ! 5 = CHR ''l''
        then Ret (- KEY ''msgctl'')
        else Unknown
      else if name ! 3 = CHR ''g'' then
        if name ! 4 = CHR ''e'' \<and> name ! 5 = CHR ''t''
        then Ret (- KEY ''msgget'')
        else Unknown
      else if name ! 3 = CHR ''r'' then
        if name ! 4 = CHR ''c'' \<and> name ! 5 = CHR ''v''
        then Ret (- KEY ''msgrcv'')
        else Unknown
      else if name ! 3 = CHR ''s'' then
        if name ! 4 = CHR ''n'' \<and> name ! 5 = CHR ''d''
        then Ret (- KEY ''msgsnd'')
        else Unknown
      else Unknown
    else Unknown)"

definition kw_6_n :: "string \<Rightarrow> kw_end" where
  "kw_6_n name =
    (if name ! 1 = CHR ''e'' \<and> name ! 2 = CHR ''l'' \<and> name ! 3 = CHR ''e'' \<and> name ! 4 = CHR ''m'' \<and> name ! 5 = CHR ''s''
    then Ret (KEY ''nelems'')
    else Unknown)"

definition kw_6_p :: "string \<Rightarrow> kw_end" where
  "kw_6_p name =
    (if name ! 1 = CHR ''r'' \<and> name ! 2 = CHR ''i'' \<and> name ! 3 = CHR ''n'' \<and> name ! 4 = CHR ''t'' \<and> name ! 5 = CHR ''f''
    then Ret (KEY ''printf'')
    else Unknown)"

definition kw_6_r :: "string \<Rightarrow> kw_end" where
  "kw_6_r name =
    (if name ! 1 = CHR ''e'' then
      if name ! 2 = CHR ''n'' then
        if name ! 3 = CHR ''a'' \<and> name ! 4 = CHR ''m'' \<and> name ! 5 = CHR ''e''
        then Ret (- KEY ''rename'')
        else Unknown
      else if name ! 2 = CHR ''t'' then
        if name ! 3 = CHR ''u'' \<and> name ! 4 = CHR ''r'' \<and> name ! 5 = CHR ''n''
        then Ret (KEY ''return'')
        else Unknown
      else Unknown
    else if name ! 1 = CHR ''i'' then
      if name ! 2 = CHR ''n'' \<and> name ! 3 = CHR ''d'' \<and> name ! 4 = CHR ''e'' \<and> name ! 5 = CHR ''x''
      then Ret (- KEY ''rindex'')
      else Unknown
    else Unknown)"

definition kw_6_s :: "string \<Rightarrow> kw_end" where
  "kw_6_s name =
    (if name ! 1 = CHR ''c'' then
      if name ! 2 = CHR ''a'' \<and> name ! 3 = CHR ''l'' \<and> name ! 4 = CHR ''a'' \<and> name ! 5 = CHR ''r''
      then Ret (KEY ''scalar'')
      else Unknown
    else if name ! 1 = CHR ''e'' then
      if name ! 2 = CHR ''l'' then
        if name ! 3 = CHR ''e'' \<and> name ! 4 = CHR ''c'' \<and> name ! 5 = CHR ''t''
        then Ret (- KEY ''select'')
        else Unknown
      else if name ! 2 = CHR ''m'' then
        if name ! 3 = CHR ''c'' then
          if name ! 4 = CHR ''t'' \<and> name ! 5 = CHR ''l''
          then Ret (- KEY ''semctl'')
          else Unknown
        else if name ! 3 = CHR ''g'' then
          if name ! 4 = CHR ''e'' \<and> name ! 5 = CHR ''t''
          then Ret (- KEY ''semget'')
          else Unknown
        else Unknown
      else Unknown
    else if name ! 1 = CHR ''h'' then
      if name ! 2 = CHR ''m''
      then if name ! 3 = CHR ''c'' then
          if name ! 4 = CHR ''t'' \<and> name ! 5 = CHR ''l''
          then Ret (- KEY ''shmctl'')
          else Unknown
        else if name ! 3 = CHR ''g'' then
          if name ! 4 = CHR ''e'' \<and> name ! 5 = CHR ''t''
          then Ret (- KEY ''shmget'')
          else Unknown
        else Unknown
      else Unknown
    else if name ! 1 = CHR ''o'' then
      if name ! 2 = CHR ''c'' \<and> name ! 3 = CHR ''k'' \<and> name ! 4 = CHR ''e'' \<and> name ! 5 = CHR ''t''
      then Ret (- KEY ''socket'')
      else Unknown
    else if name ! 1 = CHR ''p'' then
      if name ! 2 = CHR ''l'' \<and> name ! 3 = CHR ''i'' \<and> name ! 4 = CHR ''c'' \<and> name ! 5 = CHR ''e''
      then Ret (- KEY ''splice'')
      else Unknown
    else if name ! 1 = CHR ''u'' then
      if name ! 2 = CHR ''b'' \<and> name ! 3 = CHR ''s'' \<and> name ! 4 = CHR ''t'' \<and> name ! 5 = CHR ''r''
      then Ret (- KEY ''substr'')
      else Unknown
    else if name ! 1 = CHR ''y'' then
      if name ! 2 = CHR ''s'' \<and> name ! 3 = CHR ''t'' \<and> name ! 4 = CHR ''e'' \<and> name ! 5 = CHR ''m''
      then Ret (- KEY ''system'')
      else Unknown
    else Unknown)"

definition kw_6_u :: "string \<Rightarrow> kw_end" where
  "kw_6_u name =
    (if name ! 1 = CHR ''n''
    then if name ! 2 = CHR ''l'' then
        if name ! 3 = CHR ''e'' then
          if name ! 4 = CHR ''s'' \<and> name ! 5 = CHR ''s''
          then Ret (KEY ''unless'')
          else Unknown
        else if name ! 3 = CHR ''i'' then
          if name ! 4 = CHR ''n'' \<and> name ! 5 = CHR ''k''
          then Ret (- KEY ''unlink'')
          else Unknown
        else Unknown
      else if name ! 2 = CHR ''p'' then
        if name ! 3 = CHR ''a'' \<and> name ! 4 = CHR ''c'' \<and> name ! 5 = CHR ''k''
        then Ret (- KEY ''unpack'')
        else Unknown
      else Unknown
    else Unknown)"

definition kw_6_v :: "string \<Rightarrow> kw_end" where
  "kw_6_v name =
    (if name ! 1 = CHR ''a'' \<and> name ! 2 = CHR ''l'' \<and> name ! 3 = CHR ''u'' \<and> name ! 4 = CHR ''e'' \<and> name ! 5 = CHR ''s''
    then Ret (- KEY ''values'')
    else Unknown)"

definition kw_6 :: "string \<Rightarrow> kw_end" where
  "kw_6 name =
    (if name ! 0 = CHR ''a'' then kw_6_a name
    else if name ! 0 = CHR ''c'' then kw_6_c name
    else if name ! 0 = CHR ''d'' then kw_6_d name
    else if name ! 0 = CHR ''e'' then kw_6_e name
    else if name ! 0 = CHR ''f'' then kw_6_f name
    else if name ! 0 = CHR ''g'' then kw_6_g name
    else if name ! 0 = CHR ''l'' then kw_6_l name
    else if name ! 0 = CHR ''m'' then kw_6_m name
    else if name ! 0 = CHR ''n'' then kw_6_n name
    else if name ! 0 = CHR ''p'' then kw_6_p name
    else if name ! 0 = CHR ''r'' then kw_6_r name
    else if name ! 0 = CHR ''s'' then kw_6_s name
    else if name ! 0 = CHR ''u'' then kw_6_u name
    else if name ! 0 = CHR ''v'' then kw_6_v name
    else Unknown)"

section \<open>Words of length 7\<close>

definition kw_7_DD :: "string \<Rightarrow> kw_end" where
  "kw_7_DD name =
    (if name ! 1 = CHR ''E'' \<and> name ! 2 = CHR ''S'' \<and> name ! 3 = CHR ''T'' \<and> name ! 4 = CHR ''R'' \<and> name ! 5 = CHR ''O'' \<and> name ! 6 = CHR ''Y''
    then Ret (KEY ''DESTROY'')
    else Unknown)"

definition kw_7_U :: "string \<Rightarrow> kw_end" where
  "kw_7_U name =
    (if name ! 1 = CHR ''_'' \<and> name ! 2 = CHR ''E'' \<and> name ! 3 = CHR ''N'' \<and> name ! 4 = CHR ''D'' \<and> name ! 5 = CHR ''_'' \<and> name ! 6 = CHR ''_''
    then Ret (KEY ''__END__'')
    else Unknown)"

definition kw_7_b :: "string \<Rightarrow> kw_end" where
  "kw_7_b name =
    (if name ! 1 = CHR ''i'' \<and> name ! 2 = CHR ''n'' \<and> name ! 3 = CHR ''m'' \<and> name ! 4 = CHR ''o'' \<and> name ! 5 = CHR ''d'' \<and> name ! 6 = CHR ''e''
    then Ret (- KEY ''binmode'')
    else Unknown)"

definition kw_7_c :: "string \<Rightarrow> kw_end" where
  "kw_7_c name =
    (if name ! 1 = CHR ''o'' \<and> name ! 2 = CHR ''n'' \<and> name ! 3 = CHR ''n'' \<and> name ! 4 = CHR ''e'' \<and> name ! 5 = CHR ''c'' \<and> name ! 6 = CHR ''t''
    then Ret (- KEY ''connect'')
    else Unknown)"

definition kw_7_d :: "string \<Rightarrow> kw_end" where
  "kw_7_d name =
    (if name ! 1 = CHR ''e'' then
      if name ! 2 = CHR ''f'' \<and> name ! 3 = CHR ''i'' \<and> name ! 4 = CHR ''n'' \<and> name ! 5 = CHR ''e'' \<and> name ! 6 = CHR ''d''
      then Ret (KEY ''defined'')
      else Unknown
    else Unknown)"

definition kw_7_f :: "string \<Rightarrow> kw_end" where
  "kw_7_f name =
    (if name ! 1 = CHR ''o'' \<and> name ! 2 = CHR ''r'' \<and> name ! 3 = CHR ''e'' \<and> name ! 4 = CHR ''a'' \<and> name ! 5 = CHR ''c'' \<and> name ! 6 = CHR ''h''
    then Ret (KEY ''foreach'')
    else Unknown)"

definition kw_7_g :: "string \<Rightarrow> kw_end" where
  "kw_7_g name =
    (if name ! 1 = CHR ''e'' \<and> name ! 2 = CHR ''t'' \<and> name ! 3 = CHR ''p''
    then if name ! 4 = CHR ''g'' then
        if name ! 5 = CHR ''r'' \<and> name ! 6 = CHR ''p''
        then Ret (- KEY ''getpgrp'')
        else Unknown
      else if name ! 4 = CHR ''p'' then
        if name ! 5 = CHR ''i'' \<and> name ! 6 = CHR ''d''
        then Ret (- KEY ''getppid'')
        else Unknown
      else Unknown
    else Unknown)"

definition kw_7_l :: "string \<Rightarrow> kw_end" where
  "kw_7_l name =
    (if name ! 1 = CHR ''c'' \<and> name ! 2 = CHR ''f'' \<and> name ! 3 = CHR ''i'' \<and> name ! 4 = CHR ''r'' \<and> name ! 5 = CHR ''s'' \<and> name ! 6 = CHR ''t''
    then Ret (- KEY ''lcfirst'')
    else Unknown)"

definition kw_7_o :: "string \<Rightarrow> kw_end" where
  "kw_7_o name =
    (if name ! 1 = CHR ''p'' \<and> name ! 2 = CHR ''e'' \<and> name ! 3 = CHR ''n'' \<and> name ! 4 = CHR ''d'' \<and> name ! 5 = CHR ''i'' \<and> name ! 6 = CHR ''r''
    then Ret (- KEY ''opendir'')
    else Unknown)"

definition kw_7_p :: "string \<Rightarrow> kw_end" where
  "kw_7_p name =
    (if name ! 1 = CHR ''a'' \<and> name ! 2 = CHR ''c'' \<and> name ! 3 = CHR ''k'' \<and> name ! 4 = CHR ''a'' \<and> name ! 5 = CHR ''g'' \<and> name ! 6 = CHR ''e''
    then Ret (KEY ''package'')
    else Unknown)"

definition kw_7_r :: "string \<Rightarrow> kw_end" where
  "kw_7_r name =
    (if name ! 1 = CHR ''e''
    then if name ! 2 = CHR ''a'' then
        if name ! 3 = CHR ''d'' \<and> name ! 4 = CHR ''d'' \<and> name ! 5 = CHR ''i'' \<and> name ! 6 = CHR ''r''
        then Ret (- KEY ''readdir'')
        else Unknown
      else if name ! 2 = CHR ''q'' then
        if name ! 3 = CHR ''u'' \<and> name ! 4 = CHR ''i'' \<and> name ! 5 = CHR ''r'' \<and> name ! 6 = CHR ''e''
        then Ret (KEY ''require'')
        else Unknown
      else if name ! 2 = CHR ''v'' then
        if name ! 3 = CHR ''e'' \<and> name ! 4 = CHR ''r'' \<and> name ! 5 = CHR ''s'' \<and> name ! 6 = CHR ''e''
        then Ret (- KEY ''reverse'')
        else Unknown
      else Unknown
    else Unknown)"

definition kw_7_s :: "string \<Rightarrow> kw_end" where
  "kw_7_s name =
    (if name ! 1 = CHR ''e'' then
      if name ! 2 = CHR ''e'' then
        if name ! 3 = CHR ''k'' \<and> name ! 4 = CHR ''d'' \<and> name ! 5 = CHR ''i'' \<and> name ! 6 = CHR ''r''
        then Ret (- KEY ''seekdir'')
        else Unknown
      else if name ! 2 = CHR ''t'' then
        if name ! 3 = CHR ''p'' \<and> name ! 4 = CHR ''g'' \<and> name ! 5 = CHR ''r'' \<and> name ! 6 = CHR ''p''
        then Ret (- KEY ''setpgrp'')
        else Unknown
      else Unknown
    else if name ! 1 = CHR ''h'' then
      if name ! 2 = CHR ''m'' \<and> name ! 3 = CHR ''r'' \<and> name ! 4 = CHR ''e'' \<and> name ! 5 = CHR ''a'' \<and> name ! 6 = CHR ''d''
      then Ret (- KEY ''shmread'')
      else Unknown
    else if name ! 1 = CHR ''p'' then
      if name ! 2 = CHR ''r'' \<and> name ! 3 = CHR ''i'' \<and> name ! 4 = CHR ''n'' \<and> name ! 5 = CHR ''t'' \<and> name ! 6 = CHR ''f''
      then Ret (- KEY ''sprintf'')
      else Unknown
    else if name ! 1 = CHR ''y'' then
      if name ! 2 = CHR ''m'' then
        if name ! 3 = CHR ''l'' \<and> name ! 4 = CHR ''i'' \<and> name ! 5 = CHR ''n'' \<and> name ! 6 = CHR ''k''
        then Ret (- KEY ''symlink'')
        else Unknown
      else if name ! 2 = CHR ''s'' then
        if name ! 3 = CHR ''c'' then
          if name ! 4 = CHR ''a'' \<and> name ! 5 = CHR ''l'' \<and> name ! 6 = CHR ''l''
          then Ret (- KEY ''syscall'')
          else Unknown
        else if name ! 3 = CHR ''o'' then
          if name ! 4 = CHR ''p'' \<and> name ! 5 = CHR ''e'' \<and> name ! 6 = CHR ''n''
          then Ret (- KEY ''sysopen'')
          else Unknown
        else if name ! 3 = CHR ''r'' then
          if name ! 4 = CHR ''e'' \<and> name ! 5 = CHR ''a'' \<and> name ! 6 = CHR ''d''
          then Ret (- KEY ''sysread'')
          else Unknown
        else if name ! 3 = CHR ''s'' then
          if name ! 4 = CHR ''e'' \<and> name ! 5 = CHR ''e'' \<and> name ! 6 = CHR ''k''
          then Ret (- KEY ''sysseek'')
          else Unknown
        else Unknown
      else Unknown
    else Unknown)"

definition kw_7_t :: "string \<Rightarrow> kw_end" where
  "kw_7_t name =
    (if name ! 1 = CHR ''e'' \<and> name ! 2 = CHR ''l'' \<and> name ! 3 = CHR ''l'' \<and> name ! 4 = CHR ''d'' \<and> name ! 5 = CHR ''i'' \<and> name ! 6 = CHR ''r''
    then Ret (- KEY ''telldir'')
    else Unknown)"

definition kw_7_u :: "string \<Rightarrow> kw_end" where
  "kw_7_u name =
    (if name ! 1 = CHR ''c'' then
      if name ! 2 = CHR ''f'' \<and> name ! 3 = CHR ''i'' \<and> name ! 4 = CHR ''r'' \<and> name ! 5 = CHR ''s'' \<and> name ! 6 = CHR ''t''
      then Ret (- KEY ''ucfirst'')
      else Unknown
    else if name ! 1 = CHR ''n'' then
      if name ! 2 = CHR ''s'' \<and> name ! 3 = CHR ''h'' \<and> name ! 4 = CHR ''i'' \<and> name ! 5 = CHR ''f'' \<and> name ! 6 = CHR ''t''
      then Ret (- KEY ''unshift'')
      else Unknown
    else Unknown)"

definition kw_7_w :: "string \<Rightarrow> kw_end" where
  "kw_7_w name =
    (if name ! 1 = CHR ''a'' \<and> name ! 2 = CHR ''i'' \<and> name ! 3 = CHR ''t'' \<and> name ! 4 = CHR ''p'' \<and> name ! 5 = CHR ''i'' \<and> name ! 6 = CHR ''d''
    then Ret (- KEY ''waitpid'')
    else Unknown)"

definition kw_7 :: "string \<Rightarrow> kw_end" where
  "kw_7 name =
    (if name ! 0 = CHR ''D'' then kw_7_DD name
    else if name ! 0 = CHR ''_'' then kw_7_U name
    else if name ! 0 = CHR ''b'' then kw_7_b name
    else if name ! 0 = CHR ''c'' then kw_7_c name
    else if name ! 0 = CHR ''d'' then kw_7_d name
    else if name ! 0 = CHR ''f'' then kw_7_f name
    else if name ! 0 = CHR ''g'' then kw_7_g name
    else if name ! 0 = CHR ''l'' then kw_7_l name
    else if name ! 0 = CHR ''o'' then kw_7_o name
    else if name ! 0 = CHR ''p'' then kw_7_p name
    else if name ! 0 = CHR ''r'' then kw_7_r name
    else if name ! 0 = CHR ''s'' then kw_7_s name
    else if name ! 0 = CHR ''t'' then kw_7_t name
    else if name ! 0 = CHR ''u'' then kw_7_u name
    else if name ! 0 = CHR ''w'' then kw_7_w name
    else Unknown)"

section \<open>Words of length 8\<close>

definition kw_8_U :: "string \<Rightarrow> kw_end" where
  "kw_8_U name =
    (if name ! 1 = CHR ''_''
    then if name ! 2 = CHR ''D'' then
        if name ! 3 = CHR ''A'' \<and> name ! 4 = CHR ''T'' \<and> name ! 5 = CHR ''A'' \<and> name ! 6 = CHR ''_'' \<and> name ! 7 = CHR ''_''
        then Ret (KEY ''__DATA__'')
        else Unknown
      else if name ! 2 = CHR ''F'' then
        if name ! 3 = CHR ''I'' \<and> name ! 4 = CHR ''L'' \<and> name ! 5 = CHR ''E'' \<and> name ! 6 = CHR ''_'' \<and> name ! 7 = CHR ''_''
        then Ret (- KEY ''__FILE__'')
        else Unknown
      else if name ! 2 = CHR ''L'' then
        if name ! 3 = CHR ''I'' \<and> name ! 4 = CHR ''N'' \<and> name ! 5 = CHR ''E'' \<and> name ! 6 = CHR ''_'' \<and> name ! 7 = CHR ''_''
        then Ret (- KEY ''__LINE__'')
        else Unknown
      else Unknown
    else Unknown)"

definition kw_8_c :: "string \<Rightarrow> kw_end" where
  "kw_8_c name =
    (if name ! 1 = CHR ''l'' then
      if name ! 2 = CHR ''o'' \<and> name ! 3 = CHR ''s'' \<and> name ! 4 = CHR ''e'' \<and> name ! 5 = CHR ''d'' \<and> name ! 6 = CHR ''i'' \<and> name ! 7 = CHR ''r''
      then Ret (- KEY ''closedir'')
      else Unknown
    else if name ! 1 = CHR ''o'' then
      if name ! 2 = CHR ''n'' \<and> name ! 3 = CHR ''t'' \<and> name ! 4 = CHR ''i'' \<and> name ! 5 = CHR ''n'' \<and> name ! 6 = CHR ''u'' \<and> name ! 7 = CHR ''e''
      then Ret (- KEY ''continue'')
      else Unknown
    else Unknown)"

definition kw_8_e :: "string \<Rightarrow> kw_end" where
  "kw_8_e name =
    (if name ! 1 = CHR ''n'' \<and> name ! 2 = CHR ''d''
    then if name ! 3 = CHR ''g'' then
        if name ! 4 = CHR ''r'' \<and> name ! 5 = CHR ''e'' \<and> name ! 6 = CHR ''n'' \<and> name ! 7 = CHR ''t''
        then Ret (- KEY ''endgrent'')
        else Unknown
      else if name ! 3 = CHR ''p'' then
        if name ! 4 = CHR ''w'' \<and> name ! 5 = CHR ''e'' \<and> name ! 6 = CHR ''n'' \<and> name ! 7 = CHR ''t''
        then Ret (- KEY ''endpwent'')
        else Unknown
      else Unknown
    else Unknown)"

definition kw_8_g :: "string \<Rightarrow> kw_end" where
  "kw_8_g name =
    (if name ! 1 = CHR ''e'' \<and> name ! 2 = CHR ''t''
    then if name ! 3 = CHR ''g'' then
        if name ! 4 = CHR ''r''
        then if name ! 5 = CHR ''e'' then
            if name ! 6 = CHR ''n'' \<and> name ! 7 = CHR ''t''
            then Ret (- KEY ''getgrent'')
            else Unknown
          else if name ! 5 = CHR ''g'' then
            if name ! 6 = CHR ''i'' \<and> name ! 7 = CHR ''d''
            then Ret (- KEY ''getgrgid'')
            else Unknown
          else if name ! 5 = CHR ''n'' then
            if name ! 6 = CHR ''a'' \<and> name ! 7 = CHR ''m''
            then Ret (- KEY ''getgrnam'')
            else Unknown
          else Unknown
        else Unknown
      else if name ! 3 = CHR ''l'' then
        if name ! 4 = CHR ''o'' \<and> name ! 5 = CHR ''g'' \<and> name ! 6 = CHR ''i'' \<and> name ! 7 = CHR ''n''
        then Ret (- KEY ''getlogin'')
        else Unknown
      else if name ! 3 = CHR ''p'' then
        if name ! 4 = CHR ''w''
        then if name ! 5 = CHR ''e'' then
            if name ! 6 = CHR ''n'' \<and> name ! 7 = CHR ''t''
            then Ret (- KEY ''getpwent'')
            else Unknown
          else if name ! 5 = CHR ''n'' then
            if name ! 6 = CHR ''a'' \<and> name ! 7 = CHR ''m''
            then Ret (- KEY ''getpwnam'')
            else Unknown
          else if name ! 5 = CHR ''u'' then
            if name ! 6 = CHR ''i'' \<and> name ! 7 = CHR ''d''
            then Ret (- KEY ''getpwuid'')
            else Unknown
          else Unknown
        else Unknown
      else Unknown
    else Unknown)"

definition kw_8_r :: "string \<Rightarrow> kw_end" where
  "kw_8_r name =
    (if name ! 1 = CHR ''e'' \<and> name ! 2 = CHR ''a'' \<and> name ! 3 = CHR ''d''
    then if name ! 4 = CHR ''l'' then
        if name ! 5 = CHR ''i'' \<and> name ! 6 = CHR ''n''
        then if name ! 7 = CHR ''e'' then
            Ret (- KEY ''readline'')
          else if name ! 7 = CHR ''k'' then
            Ret (- KEY ''readlink'')
          else Unknown
        else Unknown
      else if name ! 4 = CHR ''p'' then
        if name ! 5 = CHR ''i'' \<and> name ! 6 = CHR ''p'' \<and> name ! 7 = CHR ''e''
        then Ret (- KEY ''readpipe'')
        else Unknown
      else Unknown
    else Unknown)"

definition kw_8_s :: "string \<Rightarrow> kw_end" where
  "kw_8_s name =
    (if name ! 1 = CHR ''e'' then
      if name ! 2 = CHR ''t''
      then if name ! 3 = CHR ''g'' then
          if name ! 4 = CHR ''r'' \<and> name ! 5 = CHR ''e'' \<and> name ! 6 = CHR ''n'' \<and> name ! 7 = CHR ''t''
          then Ret (- KEY ''setgrent'')
          else Unknown
        else if name ! 3 = CHR ''p'' then
          if name ! 4 = CHR ''w'' \<and> name ! 5 = CHR ''e'' \<and> name ! 6 = CHR ''n'' \<and> name ! 7 = CHR ''t''
          then Ret (- KEY ''setpwent'')
          else Unknown
        else Unknown
      else Unknown
    else if name ! 1 = CHR ''h'' then
      if name ! 2 = CHR ''m'' then
        if name ! 3 = CHR ''w'' \<and> name ! 4 = CHR ''r'' \<and> name ! 5 = CHR ''i'' \<and> name ! 6 = CHR ''t'' \<and> name ! 7 = CHR ''e''
        then Ret (- KEY ''shmwrite'')
        else Unknown
      else if name ! 2 = CHR ''u'' then
        if name ! 3 = CHR ''t'' \<and> name ! 4 = CHR ''d'' \<and> name ! 5 = CHR ''o'' \<and> name ! 6 = CHR ''w'' \<and> name ! 7 = CHR ''n''
        then Ret (- KEY ''shutdown'')
        else Unknown
      else Unknown
    else if name ! 1 = CHR ''y'' then
      if name ! 2 = CHR ''s'' \<and> name ! 3 = CHR ''w'' \<and> name ! 4 = CHR ''r'' \<and> name ! 5 = CHR ''i'' \<and> name ! 6 = CHR ''t'' \<and> name ! 7 = CHR ''e''
      then Ret (- KEY ''syswrite'')
      else Unknown
    else Unknown)"

definition kw_8_t :: "string \<Rightarrow> kw_end" where
  "kw_8_t name =
    (if name ! 1 = CHR ''r'' \<and> name ! 2 = CHR ''u'' \<and> name ! 3 = CHR ''n'' \<and> name ! 4 = CHR ''c'' \<and> name ! 5 = CHR ''a'' \<and> name ! 6 = CHR ''t'' \<and> name ! 7 = CHR ''e''
    then Ret (- KEY ''truncate'')
    else Unknown)"

definition kw_8 :: "string \<Rightarrow> kw_end" where
  "kw_8 name =
    (if name ! 0 = CHR ''_'' then kw_8_U name
    else if name ! 0 = CHR ''c'' then kw_8_c name
    else if name ! 0 = CHR ''e'' then kw_8_e name
    else if name ! 0 = CHR ''g'' then kw_8_g name
    else if name ! 0 = CHR ''r'' then kw_8_r name
    else if name ! 0 = CHR ''s'' then kw_8_s name
    else if name ! 0 = CHR ''t'' then kw_8_t name
    else Unknown)"

section \<open>Words of length 9\<close>

definition kw_9 :: "string \<Rightarrow> kw_end" where
  "kw_9 name =
    (if name ! 0 = CHR ''U'' then
      if name ! 1 = CHR ''N'' \<and> name ! 2 = CHR ''I'' \<and> name ! 3 = CHR ''T'' \<and> name ! 4 = CHR ''C'' \<and> name ! 5 = CHR ''H'' \<and> name ! 6 = CHR ''E'' \<and> name ! 7 = CHR ''C'' \<and> name ! 8 = CHR ''K''
      then Ret (KEY ''UNITCHECK'')
      else Unknown
    else if name ! 0 = CHR ''d'' then
      if name ! 1 = CHR ''y'' \<and> name ! 2 = CHR ''n'' \<and> name ! 3 = CHR ''a'' \<and> name ! 4 = CHR ''s'' \<and> name ! 5 = CHR ''c'' \<and> name ! 6 = CHR ''o'' \<and> name ! 7 = CHR ''p'' \<and> name ! 8 = CHR ''e''
      then Ret (KEY ''dynascope'')
      else Unknown
    else if name ! 0 = CHR ''e'' then
      if name ! 1 = CHR ''n'' \<and> name ! 2 = CHR ''d'' \<and> name ! 3 = CHR ''n'' \<and> name ! 4 = CHR ''e'' \<and> name ! 5 = CHR ''t'' \<and> name ! 6 = CHR ''e'' \<and> name ! 7 = CHR ''n'' \<and> name ! 8 = CHR ''t''
      then Ret (- KEY ''endnetent'')
      else Unknown
    else if name ! 0 = CHR ''g'' then
      if name ! 1 = CHR ''e'' \<and> name ! 2 = CHR ''t'' \<and> name ! 3 = CHR ''n'' \<and> name ! 4 = CHR ''e'' \<and> name ! 5 = CHR ''t'' \<and> name ! 6 = CHR ''e'' \<and> name ! 7 = CHR ''n'' \<and> name ! 8 = CHR ''t''
      then Ret (- KEY ''getnetent'')
      else Unknown
    else if name ! 0 = CHR ''l'' then
      if name ! 1 = CHR ''o'' \<and> name ! 2 = CHR ''c'' \<and> name ! 3 = CHR ''a'' \<and> name ! 4 = CHR ''l'' \<and> name ! 5 = CHR ''t'' \<and> name ! 6 = CHR ''i'' \<and> name ! 7 = CHR ''m'' \<and> name ! 8 = CHR ''e''
      then Ret (- KEY ''localtime'')
      else Unknown
    else if name ! 0 = CHR ''p'' then
      if name ! 1 = CHR ''r'' \<and> name ! 2 = CHR ''o'' \<and> name ! 3 = CHR ''t'' \<and> name ! 4 = CHR ''o'' \<and> name ! 5 = CHR ''t'' \<and> name ! 6 = CHR ''y'' \<and> name ! 7 = CHR ''p'' \<and> name ! 8 = CHR ''e''
      then Ret (KEY ''prototype'')
      else Unknown
    else if name ! 0 = CHR ''q'' then
      if name ! 1 = CHR ''u'' \<and> name ! 2 = CHR ''o'' \<and> name ! 3 = CHR ''t'' \<and> name ! 4 = CHR ''e'' \<and> name ! 5 = CHR ''m'' \<and> name ! 6 = CHR ''e'' \<and> name ! 7 = CHR ''t'' \<and> name ! 8 = CHR ''a''
      then Ret (- KEY ''quotemeta'')
      else Unknown
    else if name ! 0 = CHR ''r'' then
      if name ! 1 = CHR ''e'' \<and> name ! 2 = CHR ''w'' \<and> name ! 3 = CHR ''i'' \<and> name ! 4 = CHR ''n'' \<and> name ! 5 = CHR ''d'' \<and> name ! 6 = CHR ''d'' \<and> name ! 7 = CHR ''i'' \<and> name ! 8 = CHR ''r''
      then Ret (- KEY ''rewinddir'')
      else Unknown
    else if name ! 0 = CHR ''s'' then
      if name ! 1 = CHR ''e'' \<and> name ! 2 = CHR ''t'' \<and> name ! 3 = CHR ''n'' \<and> name ! 4 = CHR ''e'' \<and> name ! 5 = CHR ''t'' \<and> name ! 6 = CHR ''e'' \<and> name ! 7 = CHR ''n'' \<and> name ! 8 = CHR ''t''
      then Ret (- KEY ''setnetent'')
      else Unknown
    else Unknown)"

section \<open>Words of length 10\<close>

definition kw_10_e :: "string \<Rightarrow> kw_end" where
  "kw_10_e name =
    (if name ! 1 = CHR ''n'' \<and> name ! 2 = CHR ''d''
    then if name ! 3 = CHR ''h'' then
        if name ! 4 = CHR ''o'' \<and> name ! 5 = CHR ''s'' \<and> name ! 6 = CHR ''t'' \<and> name ! 7 = CHR ''e'' \<and> name ! 8 = CHR ''n'' \<and> name ! 9 = CHR ''t''
        then Ret (- KEY ''endhostent'')
        else Unknown
      else if name ! 3 = CHR ''s'' then
        if name ! 4 = CHR ''e'' \<and> name ! 5 = CHR ''r'' \<and> name ! 6 = CHR ''v'' \<and> name ! 7 = CHR ''e'' \<and> name ! 8 = CHR ''n'' \<and> name ! 9 = CHR ''t''
        then Ret (- KEY ''endservent'')
        else Unknown
      else Unknown
    else Unknown)"

definition kw_10_g :: "string \<Rightarrow> kw_end" where
  "kw_10_g name =
    (if name ! 1 = CHR ''e'' \<and> name ! 2 = CHR ''t''
    then if name ! 3 = CHR ''h'' then
        if name ! 4 = CHR ''o'' \<and> name ! 5 = CHR ''s'' \<and> name ! 6 = CHR ''t'' \<and> name ! 7 = CHR ''e'' \<and> name ! 8 = CHR ''n'' \<and> name ! 9 = CHR ''t''
        then Ret (- KEY ''gethostent'')
        else Unknown
      else if name ! 3 = CHR ''s'' then
        if name ! 4 = CHR ''e'' then
          if name ! 5 = CHR ''r'' \<and> name ! 6 = CHR ''v'' \<and> name ! 7 = CHR ''e'' \<and> name ! 8 = CHR ''n'' \<and> name ! 9 = CHR ''t''
          then Ret (- KEY ''getservent'')
          else Unknown
        else if name ! 4 = CHR ''o'' then
          if name ! 5 = CHR ''c'' \<and> name ! 6 = CHR ''k'' \<and> name ! 7 = CHR ''o'' \<and> name ! 8 = CHR ''p'' \<and> name ! 9 = CHR ''t''
          then Ret (- KEY ''getsockopt'')
          else Unknown
        else Unknown
      else Unknown
    else Unknown)"

definition kw_10_s :: "string \<Rightarrow> kw_end" where
  "kw_10_s name =
    (if name ! 1 = CHR ''e'' then
      if name ! 2 = CHR ''t''
      then if name ! 3 = CHR ''h'' then
          if name ! 4 = CHR ''o'' \<and> name ! 5 = CHR ''s'' \<and> name ! 6 = CHR ''t'' \<and> name ! 7 = CHR ''e'' \<and> name ! 8 = CHR ''n'' \<and> name ! 9 = CHR ''t''
          then Ret (- KEY ''sethostent'')
          else Unknown
        else if name ! 3 = CHR ''s'' then
          if name ! 4 = CHR ''e'' then
            if name ! 5 = CHR ''r'' \<and> name ! 6 = CHR ''v'' \<and> name ! 7 = CHR ''e'' \<and> name ! 8 = CHR ''n'' \<and> name ! 9 = CHR ''t''
            then Ret (- KEY ''setservent'')
            else Unknown
          else if name ! 4 = CHR ''o'' then
            if name ! 5 = CHR ''c'' \<and> name ! 6 = CHR ''k'' \<and> name ! 7 = CHR ''o'' \<and> name ! 8 = CHR ''p'' \<and> name ! 9 = CHR ''t''
            then Ret (- KEY ''setsockopt'')
            else Unknown
          else Unknown
        else Unknown
      else Unknown
    else if name ! 1 = CHR ''o'' then
      if name ! 2 = CHR ''c'' \<and> name ! 3 = CHR ''k'' \<and> name ! 4 = CHR ''e'' \<and> name ! 5 = CHR ''t'' \<and> name ! 6 = CHR ''p'' \<and> name ! 7 = CHR ''a'' \<and> name ! 8 = CHR ''i'' \<and> name ! 9 = CHR ''r''
      then Ret (- KEY ''socketpair'')
      else Unknown
    else Unknown)"

definition kw_10 :: "string \<Rightarrow> kw_end" where
  "kw_10 name =
    (if name ! 0 = CHR ''e'' then kw_10_e name
    else if name ! 0 = CHR ''g'' then kw_10_g name
    else if name ! 0 = CHR ''s'' then kw_10_s name
    else Unknown)"

section \<open>Words of length 11\<close>

definition kw_11_U :: "string \<Rightarrow> kw_end" where
  "kw_11_U name =
    (if name ! 1 = CHR ''_'' \<and> name ! 2 = CHR ''P'' \<and> name ! 3 = CHR ''A'' \<and> name ! 4 = CHR ''C'' \<and> name ! 5 = CHR ''K'' \<and> name ! 6 = CHR ''A'' \<and> name ! 7 = CHR ''G'' \<and> name ! 8 = CHR ''E'' \<and> name ! 9 = CHR ''_'' \<and> name ! 10 = CHR ''_''
    then Ret (- KEY ''__PACKAGE__'')
    else Unknown)"

definition kw_11_e :: "string \<Rightarrow> kw_end" where
  "kw_11_e name =
    (if name ! 1 = CHR ''n'' \<and> name ! 2 = CHR ''d'' \<and> name ! 3 = CHR ''p'' \<and> name ! 4 = CHR ''r'' \<and> name ! 5 = CHR ''o'' \<and> name ! 6 = CHR ''t'' \<and> name ! 7 = CHR ''o'' \<and> name ! 8 = CHR ''e'' \<and> name ! 9 = CHR ''n'' \<and> name ! 10 = CHR ''t''
    then Ret (- KEY ''endprotoent'')
    else Unknown)"

definition kw_11_g :: "string \<Rightarrow> kw_end" where
  "kw_11_g name =
    (if name ! 1 = CHR ''e'' \<and> name ! 2 = CHR ''t''
    then if name ! 3 = CHR ''p'' then
        if name ! 4 = CHR ''e'' then
          if name ! 5 = CHR ''e'' \<and> name ! 6 = CHR ''r'' \<and> name ! 7 = CHR ''n'' \<and> name ! 8 = CHR ''a'' \<and> name ! 9 = CHR ''m'' \<and> name ! 10 = CHR ''e''
          then Ret (- KEY ''getpeername'')
          else Unknown
        else if name ! 4 = CHR ''r'' then
          if name ! 5 = CHR ''i'' then
            if name ! 6 = CHR ''o'' \<and> name ! 7 = CHR ''r'' \<and> name ! 8 = CHR ''i'' \<and> name ! 9 = CHR ''t'' \<and> name ! 10 = CHR ''y''
            then Ret (- KEY ''getpriority'')
            else Unknown
          else if name ! 5 = CHR ''o'' then
            if name ! 6 = CHR ''t'' \<and> name ! 7 = CHR ''o'' \<and> name ! 8 = CHR ''e'' \<and> name ! 9 = CHR ''n'' \<and> name ! 10 = CHR ''t''
            then Ret (- KEY ''getprotoent'')
            else Unknown
          else Unknown
        else Unknown
      else if name ! 3 = CHR ''s'' then
        if name ! 4 = CHR ''o'' \<and> name ! 5 = CHR ''c'' \<and> name ! 6 = CHR ''k'' \<and> name ! 7 = CHR ''n'' \<and> name ! 8 = CHR ''a'' \<and> name ! 9 = CHR ''m'' \<and> name ! 10 = CHR ''e''
        then Ret (- KEY ''getsockname'')
        else Unknown
      else Unknown
    else Unknown)"

definition kw_11_s :: "string \<Rightarrow> kw_end" where
  "kw_11_s name =
    (if name ! 1 = CHR ''e'' \<and> name ! 2 = CHR ''t'' \<and> name ! 3 = CHR ''p'' \<and> name ! 4 = CHR ''r''
    then if name ! 5 = CHR ''i'' then
        if name ! 6 = CHR ''o'' \<and> name ! 7 = CHR ''r'' \<and> name ! 8 = CHR ''i'' \<and> name ! 9 = CHR ''t'' \<and> name ! 10 = CHR ''y''
        then Ret (- KEY ''setpriority'')
        else Unknown
      else if name ! 5 = CHR ''o'' then
        if name ! 6 = CHR ''t'' \<and> name ! 7 = CHR ''o'' \<and> name ! 8 = CHR ''e'' \<and> name ! 9 = CHR ''n'' \<and> name ! 10 = CHR ''t''
        then Ret (- KEY ''setprotoent'')
        else Unknown
      else Unknown
    else Unknown)"

definition kw_11 :: "string \<Rightarrow> kw_end" where
  "kw_11 name =
    (if name ! 0 = CHR ''_'' then kw_11_U name
    else if name ! 0 = CHR ''e'' then kw_11_e name
    else if name ! 0 = CHR ''g'' then kw_11_g name
    else if name ! 0 = CHR ''s'' then kw_11_s name
    else Unknown)"

section \<open>Words of length 12\<close>

definition kw_12 :: "string \<Rightarrow> kw_end" where
  "kw_12 name =
    (if name ! 0 = CHR ''g'' \<and> name ! 1 = CHR ''e'' \<and> name ! 2 = CHR ''t'' \<and> name ! 3 = CHR ''n'' \<and> name ! 4 = CHR ''e'' \<and> name ! 5 = CHR ''t'' \<and> name ! 6 = CHR ''b'' \<and> name ! 7 = CHR ''y''
    then if name ! 8 = CHR ''a'' then
        if name ! 9 = CHR ''d'' \<and> name ! 10 = CHR ''d'' \<and> name ! 11 = CHR ''r''
        then Ret (- KEY ''getnetbyaddr'')
        else Unknown
      else if name ! 8 = CHR ''n'' then
        if name ! 9 = CHR ''a'' \<and> name ! 10 = CHR ''m'' \<and> name ! 11 = CHR ''e''
        then Ret (- KEY ''getnetbyname'')
        else Unknown
      else Unknown
    else Unknown)"

section \<open>Words of length 13\<close>

definition kw_13 :: "string \<Rightarrow> kw_end" where
  "kw_13 name =
    (if name ! 0 = CHR ''g'' \<and> name ! 1 = CHR ''e'' \<and> name ! 2 = CHR ''t''
    then if name ! 3 = CHR ''h'' then
        if name ! 4 = CHR ''o'' \<and> name ! 5 = CHR ''s'' \<and> name ! 6 = CHR ''t'' \<and> name ! 7 = CHR ''b'' \<and> name ! 8 = CHR ''y''
        then if name ! 9 = CHR ''a'' then
            if name ! 10 = CHR ''d'' \<and> name ! 11 = CHR ''d'' \<and> name ! 12 = CHR ''r''
            then Ret (- KEY ''gethostbyaddr'')
            else Unknown
          else if name ! 9 = CHR ''n'' then
            if name ! 10 = CHR ''a'' \<and> name ! 11 = CHR ''m'' \<and> name ! 12 = CHR ''e''
            then Ret (- KEY ''gethostbyname'')
            else Unknown
          else Unknown
        else Unknown
      else if name ! 3 = CHR ''s'' then
        if name ! 4 = CHR ''e'' \<and> name ! 5 = CHR ''r'' \<and> name ! 6 = CHR ''v'' \<and> name ! 7 = CHR ''b'' \<and> name ! 8 = CHR ''y''
        then if name ! 9 = CHR ''n'' then
            if name ! 10 = CHR ''a'' \<and> name ! 11 = CHR ''m'' \<and> name ! 12 = CHR ''e''
            then Ret (- KEY ''getservbyname'')
            else Unknown
          else if name ! 9 = CHR ''p'' then
            if name ! 10 = CHR ''o'' \<and> name ! 11 = CHR ''r'' \<and> name ! 12 = CHR ''t''
            then Ret (- KEY ''getservbyport'')
            else Unknown
          else Unknown
        else Unknown
      else Unknown
    else Unknown)"

section \<open>Words of length 14\<close>

definition kw_14 :: "string \<Rightarrow> kw_end" where
  "kw_14 name =
    (if name ! 0 = CHR ''g'' \<and> name ! 1 = CHR ''e'' \<and> name ! 2 = CHR ''t'' \<and> name ! 3 = CHR ''p'' \<and> name ! 4 = CHR ''r'' \<and> name ! 5 = CHR ''o'' \<and> name ! 6 = CHR ''t'' \<and> name ! 7 = CHR ''o'' \<and> name ! 8 = CHR ''b'' \<and> name ! 9 = CHR ''y'' \<and> name ! 10 = CHR ''n'' \<and> name ! 11 = CHR ''a'' \<and> name ! 12 = CHR ''m'' \<and> name ! 13 = CHR ''e''
    then Ret (- KEY ''getprotobyname'')
    else Unknown)"

section \<open>Words of length 16\<close>

definition kw_16 :: "string \<Rightarrow> kw_end" where
  "kw_16 name =
    (if name ! 0 = CHR ''g'' \<and> name ! 1 = CHR ''e'' \<and> name ! 2 = CHR ''t'' \<and> name ! 3 = CHR ''p'' \<and> name ! 4 = CHR ''r'' \<and> name ! 5 = CHR ''o'' \<and> name ! 6 = CHR ''t'' \<and> name ! 7 = CHR ''o'' \<and> name ! 8 = CHR ''b'' \<and> name ! 9 = CHR ''y'' \<and> name ! 10 = CHR ''n'' \<and> name ! 11 = CHR ''u'' \<and> name ! 12 = CHR ''m'' \<and> name ! 13 = CHR ''b'' \<and> name ! 14 = CHR ''e'' \<and> name ! 15 = CHR ''r''
    then Ret (- KEY ''getprotobynumber'')
    else Unknown)"

section \<open>The function\<close>

text \<open>The value and the warnings, which are given when \<open>ckWARN_d(WARN_SYNTAX)\<close> holds.\<close>

definition keyword_end :: "string \<Rightarrow> nat \<Rightarrow> kw_end" where
  "keyword_end name len =
    (if len = 1 then kw_1 name
     else if len = 2 then kw_2 name
     else if len = 3 then kw_3 name
     else if len = 4 then kw_4 name
     else if len = 5 then kw_5 name
     else if len = 6 then kw_6 name
     else if len = 7 then kw_7 name
     else if len = 8 then kw_8 name
     else if len = 9 then kw_9 name
     else if len = 10 then kw_10 name
     else if len = 11 then kw_11 name
     else if len = 12 then kw_12 name
     else if len = 13 then kw_13 name
     else if len = 14 then kw_14 name
     else if len = 16 then kw_16 name
     else Unknown)"

definition keyword :: "bool \<Rightarrow> string \<Rightarrow> nat \<Rightarrow> int \<times> string list" where
  "keyword ckWARN_d name len =
    (case keyword_end name len of
       Ret k \<Rightarrow> (k, [])
     | Unknown \<Rightarrow> (0, [])
     | Warn_elseif \<Rightarrow> (0, if ckWARN_d then [''elseif should be elsif''] else []))"

section \<open>Every branch is a keyword\<close>

lemmas kw_3_all = kw_3_EE_def kw_3_a_def kw_3_c_def kw_3_d_def kw_3_e_def kw_3_f_def kw_3_h_def kw_3_i_def kw_3_l_def kw_3_m_def kw_3_n_def kw_3_o_def kw_3_p_def kw_3_r_def kw_3_s_def kw_3_t_def kw_3_u_def kw_3_v_def kw_3_x_def kw_3_def

lemmas kw_4_all = kw_4_CC_def kw_4_II_def kw_4_b_def kw_4_c_def kw_4_e_def kw_4_f_def kw_4_g_def kw_4_j_def kw_4_k_def kw_4_l_def kw_4_n_def kw_4_o_def kw_4_p_def kw_4_r_def kw_4_s_def kw_4_t_def kw_4_w_def kw_4_def

lemmas kw_5_all = kw_5_BB_def kw_5_CC_def kw_5_a_def kw_5_b_def kw_5_c_def kw_5_e_def kw_5_f_def kw_5_i_def kw_5_l_def kw_5_n_def kw_5_m_def kw_5_p_def kw_5_r_def kw_5_s_def kw_5_t_def kw_5_u_def kw_5_w_def kw_5_def

lemmas kw_6_all = kw_6_a_def kw_6_c_def kw_6_d_def kw_6_e_def kw_6_f_def kw_6_g_def kw_6_l_def kw_6_m_def kw_6_n_def kw_6_p_def kw_6_r_def kw_6_s_def kw_6_u_def kw_6_v_def kw_6_def

lemmas kw_7_all = kw_7_DD_def kw_7_U_def kw_7_b_def kw_7_c_def kw_7_d_def kw_7_f_def kw_7_g_def kw_7_l_def kw_7_o_def kw_7_p_def kw_7_r_def kw_7_s_def kw_7_t_def kw_7_u_def kw_7_w_def kw_7_def

lemmas kw_8_all = kw_8_U_def kw_8_c_def kw_8_e_def kw_8_g_def kw_8_r_def kw_8_s_def kw_8_t_def kw_8_def

lemmas kw_10_all = kw_10_e_def kw_10_g_def kw_10_s_def kw_10_def

lemmas kw_11_all = kw_11_U_def kw_11_e_def kw_11_g_def kw_11_s_def kw_11_def

lemma words_1:
  "[w \<leftarrow> keyword_names. length w = 1] =
   [''m'', ''q'', ''s'', ''x'', ''y'']"
  by code_simp

lemma kw_1_sound:
  assumes "length xs = 1" "kw_1 xs \<noteq> Unknown"
  shows "xs \<in> set ([w \<leftarrow> keyword_names. length w = 1])"
proof -
  obtain c0 where "xs = [c0]"
    using assms(1) by (auto simp: numeral_eq_Suc length_Suc_conv)
  with assms(2) show ?thesis
    unfolding kw_1_def words_1 by (simp split: if_splits)
qed

lemma words_2:
  "[w \<leftarrow> keyword_names. length w = 2] =
   [''do'', ''eq'', ''if'', ''lc'', ''my'', ''ne'', ''no'', ''or'', ''qq'', ''qr'', ''qw'', ''qx'', ''tr'',
    ''uc'']"
  by code_simp

lemma kw_2_sound:
  assumes "length xs = 2" "kw_2 xs \<noteq> Unknown"
  shows "xs \<in> set ([w \<leftarrow> keyword_names. length w = 2])"
proof -
  obtain c0 c1 where "xs = [c0, c1]"
    using assms(1) by (auto simp: numeral_eq_Suc length_Suc_conv)
  with assms(2) show ?thesis
    unfolding kw_2_def words_2 by (simp split: if_splits)
qed

lemma words_3:
  "[w \<leftarrow> keyword_names. length w = 3] =
   [''END'', ''abs'', ''and'', ''chr'', ''cmp'', ''cos'', ''die'', ''eof'', ''exp'', ''for'', ''hex'',
    ''int'', ''log'', ''map'', ''not'', ''oct'', ''ord'', ''our'', ''pop'', ''pos'', ''ref'', ''sin'',
    ''sub'', ''try'', ''use'', ''vec'', ''xor'']"
  by code_simp

lemma kw_3_sound:
  assumes "length xs = 3" "kw_3 xs \<noteq> Unknown"
  shows "xs \<in> set ([w \<leftarrow> keyword_names. length w = 3])"
proof -
  obtain c0 c1 c2 where "xs = [c0, c1, c2]"
    using assms(1) by (auto simp: numeral_eq_Suc length_Suc_conv)
  with assms(2) show ?thesis
    unfolding kw_3_all words_3 by (simp split: if_splits)
qed

lemma words_4:
  "[w \<leftarrow> keyword_names. length w = 4] =
   [''CORE'', ''INIT'', ''bind'', ''chop'', ''each'', ''else'', ''eval'', ''exec'', ''exit'', ''fork'',
    ''getc'', ''glob'', ''grep'', ''join'', ''keys'', ''kill'', ''last'', ''link'', ''lock'', ''next'',
    ''open'', ''pack'', ''pipe'', ''push'', ''rand'', ''read'', ''recv'', ''redo'', ''seek'', ''send'',
    ''sort'', ''sqrt'', ''stat'', ''tell'', ''time'', ''wait'', ''warn'']"
  by code_simp

lemma kw_4_sound:
  assumes "length xs = 4" "kw_4 xs \<noteq> Unknown"
  shows "xs \<in> set ([w \<leftarrow> keyword_names. length w = 4])"
proof -
  obtain c0 c1 c2 c3 where "xs = [c0, c1, c2, c3]"
    using assms(1) by (auto simp: numeral_eq_Suc length_Suc_conv)
  with assms(2) show ?thesis
    unfolding kw_4_all words_4 by (simp split: if_splits)
qed

lemma words_5:
  "[w \<leftarrow> keyword_names. length w = 5] =
   [''BEGIN'', ''CHECK'', ''alarm'', ''atan2'', ''bless'', ''chdir'', ''chmod'', ''chomp'', ''chown'',
    ''close'', ''crypt'', ''elsif'', ''fcntl'', ''flock'', ''index'', ''ioctl'', ''local'', ''lstat'',
    ''nkeys'', ''mkdir'', ''print'', ''rmdir'', ''semop'', ''shift'', ''sleep'', ''split'', ''srand'',
    ''study'', ''times'', ''umask'', ''undef'', ''until'', ''utime'', ''while'', ''write'']"
  by code_simp

lemma kw_5_sound:
  assumes "length xs = 5" "kw_5 xs \<noteq> Unknown"
  shows "xs \<in> set ([w \<leftarrow> keyword_names. length w = 5])"
proof -
  obtain c0 c1 c2 c3 c4 where "xs = [c0, c1, c2, c3, c4]"
    using assms(1) by (auto simp: numeral_eq_Suc length_Suc_conv)
  with assms(2) show ?thesis
    unfolding kw_5_all words_5 by (simp split: if_splits)
qed

lemma words_6:
  "[w \<leftarrow> keyword_names. length w = 6] =
   [''accept'', ''caller'', ''chroot'', ''delete'', ''exists'', ''fileno'', ''gmtime'', ''length'',
    ''listen'', ''nelems'', ''msgctl'', ''msgget'', ''msgrcv'', ''msgsnd'', ''printf'', ''rename'',
    ''return'', ''rindex'', ''scalar'', ''select'', ''semctl'', ''semget'', ''shmctl'', ''shmget'',
    ''socket'', ''splice'', ''substr'', ''system'', ''unless'', ''unlink'', ''unpack'', ''values'']"
  by code_simp

lemma kw_6_sound:
  assumes "length xs = 6" "kw_6 xs \<noteq> Unknown"
  shows "xs \<in> set (''elseif'' # [w \<leftarrow> keyword_names. length w = 6])"
proof -
  obtain c0 c1 c2 c3 c4 c5 where "xs = [c0, c1, c2, c3, c4, c5]"
    using assms(1) by (auto simp: numeral_eq_Suc length_Suc_conv)
  with assms(2) show ?thesis
    unfolding kw_6_all words_6 by (simp split: if_splits)
qed

lemma words_7:
  "[w \<leftarrow> keyword_names. length w = 7] =
   [''__END__'', ''DESTROY'', ''binmode'', ''connect'', ''defined'', ''foreach'', ''getpgrp'', ''getppid'',
    ''lcfirst'', ''opendir'', ''package'', ''readdir'', ''require'', ''reverse'', ''seekdir'', ''setpgrp'',
    ''shmread'', ''sprintf'', ''symlink'', ''syscall'', ''sysopen'', ''sysread'', ''sysseek'', ''telldir'',
    ''ucfirst'', ''unshift'', ''waitpid'']"
  by code_simp

lemma kw_7_sound:
  assumes "length xs = 7" "kw_7 xs \<noteq> Unknown"
  shows "xs \<in> set ([w \<leftarrow> keyword_names. length w = 7])"
proof -
  obtain c0 c1 c2 c3 c4 c5 c6 where "xs = [c0, c1, c2, c3, c4, c5, c6]"
    using assms(1) by (auto simp: numeral_eq_Suc length_Suc_conv)
  with assms(2) show ?thesis
    unfolding kw_7_all words_7 by (simp split: if_splits)
qed

lemma words_8:
  "[w \<leftarrow> keyword_names. length w = 8] =
   [''__FILE__'', ''__LINE__'', ''__DATA__'', ''closedir'', ''continue'', ''endgrent'', ''endpwent'',
    ''getgrent'', ''getgrgid'', ''getgrnam'', ''getlogin'', ''getpwent'', ''getpwnam'', ''getpwuid'',
    ''readline'', ''readlink'', ''readpipe'', ''setgrent'', ''setpwent'', ''shmwrite'', ''shutdown'',
    ''syswrite'', ''truncate'']"
  by code_simp

lemma kw_8_sound:
  assumes "length xs = 8" "kw_8 xs \<noteq> Unknown"
  shows "xs \<in> set ([w \<leftarrow> keyword_names. length w = 8])"
proof -
  obtain c0 c1 c2 c3 c4 c5 c6 c7 where "xs = [c0, c1, c2, c3, c4, c5, c6, c7]"
    using assms(1) by (auto simp: numeral_eq_Suc length_Suc_conv)
  with assms(2) show ?thesis
    unfolding kw_8_all words_8 by (simp split: if_splits)
qed

lemma words_9:
  "[w \<leftarrow> keyword_names. length w = 9] =
   [''UNITCHECK'', ''dynascope'', ''endnetent'', ''getnetent'', ''localtime'', ''prototype'', ''quotemeta'',
    ''rewinddir'', ''setnetent'']"
  by code_simp

lemma kw_9_sound:
  assumes "length xs = 9" "kw_9 xs \<noteq> Unknown"
  shows "xs \<in> set ([w \<leftarrow> keyword_names. length w = 9])"
proof -
  obtain c0 c1 c2 c3 c4 c5 c6 c7 c8 where "xs = [c0, c1, c2, c3, c4, c5, c6, c7, c8]"
    using assms(1) by (auto simp: numeral_eq_Suc length_Suc_conv)
  with assms(2) show ?thesis
    unfolding kw_9_def words_9 by (simp split: if_splits)
qed

lemma words_10:
  "[w \<leftarrow> keyword_names. length w = 10] =
   [''endhostent'', ''endservent'', ''gethostent'', ''getservent'', ''getsockopt'', ''sethostent'',
    ''setservent'', ''setsockopt'', ''socketpair'']"
  by code_simp

lemma kw_10_sound:
  assumes "length xs = 10" "kw_10 xs \<noteq> Unknown"
  shows "xs \<in> set ([w \<leftarrow> keyword_names. length w = 10])"
proof -
  obtain c0 c1 c2 c3 c4 c5 c6 c7 c8 c9 where "xs = [c0, c1, c2, c3, c4, c5, c6, c7, c8, c9]"
    using assms(1) by (auto simp: numeral_eq_Suc length_Suc_conv)
  with assms(2) show ?thesis
    unfolding kw_10_all words_10 by (simp split: if_splits)
qed

lemma words_11:
  "[w \<leftarrow> keyword_names. length w = 11] =
   [''__PACKAGE__'', ''endprotoent'', ''getpeername'', ''getpriority'', ''getprotoent'', ''getsockname'',
    ''setpriority'', ''setprotoent'']"
  by code_simp

lemma kw_11_sound:
  assumes "length xs = 11" "kw_11 xs \<noteq> Unknown"
  shows "xs \<in> set ([w \<leftarrow> keyword_names. length w = 11])"
proof -
  obtain c0 c1 c2 c3 c4 c5 c6 c7 c8 c9 c10 where "xs = [c0, c1, c2, c3, c4, c5, c6, c7, c8, c9, c10]"
    using assms(1) by (auto simp: numeral_eq_Suc length_Suc_conv)
  with assms(2) show ?thesis
    unfolding kw_11_all words_11 by (simp split: if_splits)
qed

lemma words_12:
  "[w \<leftarrow> keyword_names. length w = 12] =
   [''getnetbyaddr'', ''getnetbyname'']"
  by code_simp

lemma kw_12_sound:
  assumes "length xs = 12" "kw_12 xs \<noteq> Unknown"
  shows "xs \<in> set ([w \<leftarrow> keyword_names. length w = 12])"
proof -
  obtain c0 c1 c2 c3 c4 c5 c6 c7 c8 c9 c10 c11 where "xs = [c0, c1, c2, c3, c4, c5, c6, c7, c8, c9, c10, c11]"
    using assms(1) by (auto simp: numeral_eq_Suc length_Suc_conv)
  with assms(2) show ?thesis
    unfolding kw_12_def words_12 by (simp split: if_splits)
qed

lemma words_13:
  "[w \<leftarrow> keyword_names. length w = 13] =
   [''gethostbyaddr'', ''gethostbyname'', ''getservbyname'', ''getservbyport'']"
  by code_simp

lemma kw_13_sound:
  assumes "length xs = 13" "kw_13 xs \<noteq> Unknown"
  shows "xs \<in> set ([w \<leftarrow> keyword_names. length w = 13])"
proof -
  obtain c0 c1 c2 c3 c4 c5 c6 c7 c8 c9 c10 c11 c12 where "xs = [c0, c1, c2, c3, c4, c5, c6, c7, c8, c9, c10, c11, c12]"
    using assms(1) by (auto simp: numeral_eq_Suc length_Suc_conv)
  with assms(2) show ?thesis
    unfolding kw_13_def words_13 by (simp split: if_splits)
qed

lemma words_14:
  "[w \<leftarrow> keyword_names. length w = 14] =
   [''getprotobyname'']"
  by code_simp

lemma kw_14_sound:
  assumes "length xs = 14" "kw_14 xs \<noteq> Unknown"
  shows "xs \<in> set ([w \<leftarrow> keyword_names. length w = 14])"
proof -
  obtain c0 c1 c2 c3 c4 c5 c6 c7 c8 c9 c10 c11 c12 c13 where "xs = [c0, c1, c2, c3, c4, c5, c6, c7, c8, c9, c10, c11, c12, c13]"
    using assms(1) by (auto simp: numeral_eq_Suc length_Suc_conv)
  with assms(2) show ?thesis
    unfolding kw_14_def words_14 by (simp split: if_splits)
qed

lemma words_16:
  "[w \<leftarrow> keyword_names. length w = 16] =
   [''getprotobynumber'']"
  by code_simp

lemma kw_16_sound:
  assumes "length xs = 16" "kw_16 xs \<noteq> Unknown"
  shows "xs \<in> set ([w \<leftarrow> keyword_names. length w = 16])"
proof -
  obtain c0 c1 c2 c3 c4 c5 c6 c7 c8 c9 c10 c11 c12 c13 c14 c15 where "xs = [c0, c1, c2, c3, c4, c5, c6, c7, c8, c9, c10, c11, c12, c13, c14, c15]"
    using assms(1) by (auto simp: numeral_eq_Suc length_Suc_conv)
  with assms(2) show ?thesis
    unfolding kw_16_def words_16 by (simp split: if_splits)
qed

lemmas kw_sounds = kw_1_sound kw_2_sound kw_3_sound kw_4_sound kw_5_sound kw_6_sound kw_7_sound kw_8_sound kw_9_sound kw_10_sound kw_11_sound kw_12_sound kw_13_sound kw_14_sound kw_16_sound

section \<open>Correctness\<close>

definition classify :: "string \<Rightarrow> int" where
  "classify w =
    (if (w, True) \<in> set keyword_table then KEY w
     else if (w, False) \<in> set keyword_table then - KEY w
     else 0)"

lemma kw_1_take: "kw_1 (take 1 name) = kw_1 name"
  unfolding kw_1_def by (simp cong: if_cong split del: if_split)

lemma kw_2_take: "kw_2 (take 2 name) = kw_2 name"
  unfolding kw_2_def by (simp cong: if_cong split del: if_split)

lemma kw_3_take: "kw_3 (take 3 name) = kw_3 name"
  unfolding kw_3_all by (simp cong: if_cong split del: if_split)

lemma kw_4_take: "kw_4 (take 4 name) = kw_4 name"
  unfolding kw_4_all by (simp cong: if_cong split del: if_split)

lemma kw_5_take: "kw_5 (take 5 name) = kw_5 name"
  unfolding kw_5_all by (simp cong: if_cong split del: if_split)

lemma kw_6_take: "kw_6 (take 6 name) = kw_6 name"
  unfolding kw_6_all by (simp cong: if_cong split del: if_split)

lemma kw_7_take: "kw_7 (take 7 name) = kw_7 name"
  unfolding kw_7_all by (simp cong: if_cong split del: if_split)

lemma kw_8_take: "kw_8 (take 8 name) = kw_8 name"
  unfolding kw_8_all by (simp cong: if_cong split del: if_split)

lemma kw_9_take: "kw_9 (take 9 name) = kw_9 name"
  unfolding kw_9_def by (simp cong: if_cong split del: if_split)

lemma kw_10_take: "kw_10 (take 10 name) = kw_10 name"
  unfolding kw_10_all by (simp cong: if_cong split del: if_split)

lemma kw_11_take: "kw_11 (take 11 name) = kw_11 name"
  unfolding kw_11_all by (simp cong: if_cong split del: if_split)

lemma kw_12_take: "kw_12 (take 12 name) = kw_12 name"
  unfolding kw_12_def by (simp cong: if_cong split del: if_split)

lemma kw_13_take: "kw_13 (take 13 name) = kw_13 name"
  unfolding kw_13_def by (simp cong: if_cong split del: if_split)

lemma kw_14_take: "kw_14 (take 14 name) = kw_14 name"
  unfolding kw_14_def by (simp cong: if_cong split del: if_split)

lemma kw_16_take: "kw_16 (take 16 name) = kw_16 name"
  unfolding kw_16_def by (simp cong: if_cong split del: if_split)

lemmas kw_takes = kw_1_take kw_2_take kw_3_take kw_4_take kw_5_take kw_6_take kw_7_take kw_8_take kw_9_take kw_10_take kw_11_take kw_12_take kw_13_take kw_14_take kw_16_take

lemma keyword_end_take: "keyword_end (take len name) len = keyword_end name len"
  unfolding keyword_end_def by (simp add: kw_takes del: One_nat_def)

lemma kw_1_complete:
  "list_all (\<lambda>(w, strong). kw_1 w = Ret (if strong then KEY w else - KEY w))
   [(''m'', True), (''q'', True), (''s'', True), (''x'', False), (''y'', True)]"
  unfolding kw_1_def by simp

lemma kw_2_complete:
  "list_all (\<lambda>(w, strong). kw_2 w = Ret (if strong then KEY w else - KEY w))
   [(''do'', True), (''eq'', False), (''if'', True), (''lc'', False), (''my'', True), (''ne'', False),
    (''no'', True), (''or'', False), (''qq'', True), (''qr'', True), (''qw'', True), (''qx'', True),
    (''tr'', True), (''uc'', False)]"
  unfolding kw_2_def by simp

lemma kw_3_complete:
  "list_all (\<lambda>(w, strong). kw_3 w = Ret (if strong then KEY w else - KEY w))
   [(''END'', True), (''abs'', False), (''and'', False), (''chr'', False), (''cmp'', False),
    (''cos'', False), (''die'', False), (''eof'', False), (''exp'', False), (''for'', True),
    (''hex'', False), (''int'', False), (''log'', False), (''map'', True), (''not'', False),
    (''oct'', False), (''ord'', False), (''our'', True), (''pop'', False), (''pos'', True), (''ref'', False),
    (''sin'', False), (''sub'', True), (''try'', True), (''use'', True), (''vec'', False), (''xor'', False)]"
  unfolding kw_3_all by simp

lemma kw_4_complete:
  "list_all (\<lambda>(w, strong). kw_4 w = Ret (if strong then KEY w else - KEY w))
   [(''CORE'', False), (''INIT'', True), (''bind'', False), (''chop'', False), (''each'', False),
    (''else'', True), (''eval'', True), (''exec'', False), (''exit'', False), (''fork'', False),
    (''getc'', False), (''glob'', True), (''grep'', True), (''join'', False), (''keys'', False),
    (''kill'', False), (''last'', True), (''link'', False), (''lock'', False), (''next'', True),
    (''open'', False), (''pack'', False), (''pipe'', False), (''push'', False), (''rand'', False),
    (''read'', False), (''recv'', False), (''redo'', True), (''seek'', False), (''send'', False),
    (''sort'', True), (''sqrt'', False), (''stat'', False), (''tell'', False), (''time'', False),
    (''wait'', False), (''warn'', False)]"
  unfolding kw_4_all by simp

lemma kw_5_complete:
  "list_all (\<lambda>(w, strong). kw_5 w = Ret (if strong then KEY w else - KEY w))
   [(''BEGIN'', True), (''CHECK'', True), (''alarm'', False), (''atan2'', False), (''bless'', False),
    (''chdir'', False), (''chmod'', False), (''chomp'', False), (''chown'', False), (''close'', False),
    (''crypt'', False), (''elsif'', True), (''fcntl'', False), (''flock'', False), (''index'', False),
    (''ioctl'', False), (''local'', True), (''lstat'', False), (''nkeys'', True), (''mkdir'', False),
    (''print'', True), (''rmdir'', False), (''semop'', False), (''shift'', False), (''sleep'', False),
    (''split'', True), (''srand'', False), (''study'', True), (''times'', False), (''umask'', False),
    (''undef'', True), (''until'', True), (''utime'', False), (''while'', True), (''write'', False)]"
  unfolding kw_5_all by simp

lemma kw_6_complete:
  "list_all (\<lambda>(w, strong). kw_6 w = Ret (if strong then KEY w else - KEY w))
   [(''accept'', False), (''caller'', False), (''chroot'', False), (''delete'', True), (''exists'', True),
    (''fileno'', False), (''gmtime'', False), (''length'', False), (''listen'', False), (''nelems'', True),
    (''msgctl'', False), (''msgget'', False), (''msgrcv'', False), (''msgsnd'', False), (''printf'', True),
    (''rename'', False), (''return'', True), (''rindex'', False), (''scalar'', True), (''select'', False),
    (''semctl'', False), (''semget'', False), (''shmctl'', False), (''shmget'', False), (''socket'', False),
    (''splice'', False), (''substr'', False), (''system'', False), (''unless'', True), (''unlink'', False),
    (''unpack'', False), (''values'', False)]"
  unfolding kw_6_all by simp

lemma kw_7_complete:
  "list_all (\<lambda>(w, strong). kw_7 w = Ret (if strong then KEY w else - KEY w))
   [(''__END__'', True), (''DESTROY'', True), (''binmode'', False), (''connect'', False),
    (''defined'', True), (''foreach'', True), (''getpgrp'', False), (''getppid'', False),
    (''lcfirst'', False), (''opendir'', False), (''package'', True), (''readdir'', False),
    (''require'', True), (''reverse'', False), (''seekdir'', False), (''setpgrp'', False),
    (''shmread'', False), (''sprintf'', False), (''symlink'', False), (''syscall'', False),
    (''sysopen'', False), (''sysread'', False), (''sysseek'', False), (''telldir'', False),
    (''ucfirst'', False), (''unshift'', False), (''waitpid'', False)]"
  unfolding kw_7_all by simp

lemma kw_8_complete:
  "list_all (\<lambda>(w, strong). kw_8 w = Ret (if strong then KEY w else - KEY w))
   [(''__FILE__'', False), (''__LINE__'', False), (''__DATA__'', True), (''closedir'', False),
    (''continue'', False), (''endgrent'', False), (''endpwent'', False), (''getgrent'', False),
    (''getgrgid'', False), (''getgrnam'', False), (''getlogin'', False), (''getpwent'', False),
    (''getpwnam'', False), (''getpwuid'', False), (''readline'', False), (''readlink'', False),
    (''readpipe'', False), (''setgrent'', False), (''setpwent'', False), (''shmwrite'', False),
    (''shutdown'', False), (''syswrite'', False), (''truncate'', False)]"
  unfolding kw_8_all by simp

lemma kw_9_complete:
  "list_all (\<lambda>(w, strong). kw_9 w = Ret (if strong then KEY w else - KEY w))
   [(''UNITCHECK'', True), (''dynascope'', True), (''endnetent'', False), (''getnetent'', False),
    (''localtime'', False), (''prototype'', True), (''quotemeta'', False), (''rewinddir'', False),
    (''setnetent'', False)]"
  unfolding kw_9_def by simp

lemma kw_10_complete:
  "list_all (\<lambda>(w, strong). kw_10 w = Ret (if strong then KEY w else - KEY w))
   [(''endhostent'', False), (''endservent'', False), (''gethostent'', False), (''getservent'', False),
    (''getsockopt'', False), (''sethostent'', False), (''setservent'', False), (''setsockopt'', False),
    (''socketpair'', False)]"
  unfolding kw_10_all by simp

lemma kw_11_complete:
  "list_all (\<lambda>(w, strong). kw_11 w = Ret (if strong then KEY w else - KEY w))
   [(''__PACKAGE__'', False), (''endprotoent'', False), (''getpeername'', False), (''getpriority'', False),
    (''getprotoent'', False), (''getsockname'', False), (''setpriority'', False), (''setprotoent'', False)]"
  unfolding kw_11_all by simp

lemma kw_12_complete:
  "list_all (\<lambda>(w, strong). kw_12 w = Ret (if strong then KEY w else - KEY w))
   [(''getnetbyaddr'', False), (''getnetbyname'', False)]"
  unfolding kw_12_def by simp

lemma kw_13_complete:
  "list_all (\<lambda>(w, strong). kw_13 w = Ret (if strong then KEY w else - KEY w))
   [(''gethostbyaddr'', False), (''gethostbyname'', False), (''getservbyname'', False),
    (''getservbyport'', False)]"
  unfolding kw_13_def by simp

lemma kw_14_complete:
  "list_all (\<lambda>(w, strong). kw_14 w = Ret (if strong then KEY w else - KEY w))
   [(''getprotobyname'', False)]"
  unfolding kw_14_def by simp

lemma kw_16_complete:
  "list_all (\<lambda>(w, strong). kw_16 w = Ret (if strong then KEY w else - KEY w))
   [(''getprotobynumber'', False)]"
  unfolding kw_16_def by simp

lemma keyword_end_complete:
  "list_all (\<lambda>(w, strong). keyword_end w (length w) = Ret (if strong then KEY w else - KEY w)) keyword_table"
  unfolding keyword_table_def using kw_1_complete kw_2_complete kw_3_complete kw_4_complete kw_5_complete kw_6_complete kw_7_complete kw_8_complete kw_9_complete kw_10_complete kw_11_complete kw_12_complete kw_13_complete kw_14_complete kw_16_complete
  by (simp add: keyword_end_def)

lemma keyword_end_sound:
  assumes "keyword_end xs (length xs) \<noteq> Unknown"
  shows "xs \<in> set (''elseif'' # keyword_names)"
  using assms kw_sounds[of xs] unfolding keyword_end_def
  by (simp del: One_nat_def split: if_splits; blast)

lemma keyword_end_table:
  "(w, strong) \<in> set keyword_table \<Longrightarrow> keyword_end w (length w) = Ret (if strong then KEY w else - KEY w)"
  using keyword_end_complete by (auto simp: list_all_iff)

lemma keyword_end_elseif: "keyword_end ''elseif'' (length ''elseif'') = Warn_elseif"
  by (simp add: keyword_end_def kw_6_all)

lemma elseif_not_in_table: "(''elseif'', strong) \<notin> set keyword_table"
proof
  assume "(''elseif'', strong) \<in> set keyword_table"
  from keyword_end_table[OF this, unfolded keyword_end_elseif] show False by simp
qed

text \<open>
  C21: for an identifier of any length the decision tree gives what a search of the list of the
  keywords gives: the number of the word, its negative for a word that can be overridden, 0 for
  every other identifier; the one warning is for \<open>elseif\<close>, which is not a keyword.
\<close>

theorem keyword_correct:
  assumes "len \<le> length name"
  shows "keyword c name len = (classify (take len name),
    if c \<and> take len name = ''elseif'' then [''elseif should be elsif''] else [])"
proof -
  let ?w = "take len name"
  have len: "length ?w = len" using assms by simp
  have e: "keyword_end name len = keyword_end ?w (length ?w)" using keyword_end_take[of len name] len by simp
  consider (strong) "(?w, True) \<in> set keyword_table" | (weak) "(?w, False) \<in> set keyword_table"
    | (none) "?w \<notin> set keyword_names"
  proof (cases "?w \<in> set keyword_names")
    case True
    then obtain b where "(?w, b) \<in> set keyword_table" by (auto simp: keyword_names_def)
    with that(1,2) show ?thesis by (cases b) simp_all
  qed (use that(3) in simp)
  then show ?thesis
  proof cases
    case strong
    then have "?w \<noteq> ''elseif''" using elseif_not_in_table by metis
    with strong show ?thesis using keyword_end_table[OF strong] e by (simp add: keyword_def classify_def)
  next
    case weak
    then have "?w \<noteq> ''elseif''" using elseif_not_in_table by metis
    moreover have "(?w, True) \<notin> set keyword_table"
      using keyword_end_table[OF weak] keyword_end_table[of ?w True] by (auto simp: KEY_def)
    ultimately show ?thesis using keyword_end_table[OF weak] weak e by (simp add: keyword_def classify_def)
  next
    case none
    then have "classify ?w = 0" by (force simp: classify_def keyword_names_def)
    moreover have "keyword_end ?w (length ?w) = (if ?w = ''elseif'' then Warn_elseif else Unknown)"
    proof (cases "?w = ''elseif''")
      case True
      then show ?thesis unfolding True keyword_end_elseif by simp
    next
      case False
      then show ?thesis using none keyword_end_sound[of ?w] by (auto simp del: length_take)
    qed
    ultimately show ?thesis using e by (simp add: keyword_def)
  qed
qed

theorem keyword_correct_witness:
  "keyword True ''elsewhere'' 4 = (KEY ''else'', []) \<and> keyword True ''elseif'' 6 = (0, [''elseif should be elsif'']) \<and>
   keyword True ''goto'' 4 = (0, [])"
proof -
  have "classify ''else'' = KEY ''else''" "classify ''elseif'' = 0" "classify ''goto'' = 0"
    by (simp_all add: classify_def keyword_table_def)
  then show ?thesis
    using keyword_correct[of 4 "''elsewhere''" True] keyword_correct[of 6 "''elseif''" True]
      keyword_correct[of 4 "''goto''" True]
    by simp
qed

lemma index_of_inj: "index_of w ws = index_of v ws \<Longrightarrow> w \<in> set ws \<Longrightarrow> w = v"
  by (induction ws) (auto split: if_splits)

lemma classify_inj: "\<bar>classify w\<bar> = \<bar>classify v\<bar> \<Longrightarrow> classify w \<noteq> 0 \<Longrightarrow> w = v"
proof -
  assume a: "\<bar>classify w\<bar> = \<bar>classify v\<bar>" "classify w \<noteq> 0"
  have pos: "KEY u \<ge> 1" for u by (simp add: KEY_def)
  have mem: "classify u = KEY u \<or> classify u = - KEY u" "u \<in> set keyword_names" if "classify u \<noteq> 0" for u
    using that by (force simp: classify_def keyword_names_def split: if_splits)+
  have "classify v \<noteq> 0" using a by auto
  then have "KEY w = KEY v" using mem(1)[of w] mem(1)[of v] a pos[of w] pos[of v] by linarith
  then show "w = v" using mem(2)[OF a(2)] by (intro index_of_inj) (simp_all add: KEY_def)
qed

text \<open>
  Two identifiers that are told apart by nothing but the sign of the number are the same
  keyword: the numbers of different keywords differ, and no keyword has the number 0.
\<close>

theorem keyword_injective:
  assumes "l1 \<le> length n1" "l2 \<le> length n2" "\<bar>fst (keyword c n1 l1)\<bar> = \<bar>fst (keyword c n2 l2)\<bar>"
    and "fst (keyword c n1 l1) \<noteq> 0"
  shows "take l1 n1 = take l2 n2"
  using assms classify_inj by (simp add: keyword_correct)

theorem keyword_injective_witness:
  "fst (keyword True ''x'' 1) \<noteq> 0 \<and> take 1 ''x'' = take 1 ''xor''"
proof -
  have "kw_1 ''x'' = Ret (- KEY ''x'')" "kw_1 ''xor'' = Ret (- KEY ''x'')" by (simp_all add: kw_1_def)
  then have k: "fst (keyword True ''x'' 1) = - KEY ''x''" "fst (keyword True ''xor'' 1) = - KEY ''x''"
    by (simp_all add: keyword_def keyword_end_def)
  have "KEY ''x'' \<noteq> 0" by (simp add: KEY_def)
  with keyword_injective[of 1 "''x''" 1 "''xor''" True] k show ?thesis by simp
qed

end
