(* ===== verification/C3_Merge.thy ===== *)
theory C3_Merge
  imports Kurila_Prelude "HOL-Library.Sublist"
begin

text \<open>
  The merge of the C3 method resolution order (\<open>S_mro_get_linear_isa_c3\<close> in \<open>mro.c\<close>): the
  linearizations of the parents, followed by the list of the parents, are merged by indices into
  the sequences and a table of how often a class occurs behind a head. The reference is the
  textbook merge on lists; the last section says what order the result has.
\<close>

type_synonym pkg = "u8 list"

section \<open>The merge of the code\<close>

text \<open>
  \<open>seqs\<close> holds \<open>None\<close> for a sequence that is used up; \<open>tails\<close> is the hash of counts. A fetch
  that finds nothing is dereferenced by the code, which is a death by a NULL pointer.
\<close>

record c3 =
  seqs :: "pkg list option list"
  heads :: "nat \<Rightarrow> nat"
  tails :: "pkg \<rightharpoonup> int"
  retval :: "pkg list"
  cand :: "pkg option"
  winner :: "pkg option"

definition tail_inc :: "pkg \<Rightarrow> (pkg \<rightharpoonup> int) \<Rightarrow> (pkg \<rightharpoonup> int)" where
  "tail_inc x t = t(x \<mapsto> (case t x of None \<Rightarrow> 1 | Some v \<Rightarrow> v + 1))"

definition tails_of :: "pkg list list \<Rightarrow> (pkg \<rightharpoonup> int)" where
  "tails_of ss = fold (\<lambda>seq t. fold tail_inc (tl seq) t) ss Map.empty"

definition in_tails :: "pkg \<Rightarrow> c3 \<Rightarrow> bool" where
  "in_tails x st = (case tails st x of None \<Rightarrow> False | Some v \<Rightarrow> v > 0)"

text \<open>The head of a sequence is the candidate as long as no sequence has won the round.\<close>

definition c3_candidate :: "pkg \<Rightarrow> c3 \<Rightarrow> c3" where
  "c3_candidate x st =
     (if winner st = None
      then let st = st\<lparr>cand := Some x\<rparr>
           in if in_tails x st then st else st\<lparr>winner := Some x, retval := retval st @ [x]\<rparr>
      else st)"

text \<open>The winner is taken off a sequence it heads.\<close>

definition c3_take :: "nat \<Rightarrow> pkg list \<Rightarrow> c3 \<Rightarrow> c3 result" where
  "c3_take s seq st =
     (let new_head = heads st s + 1; st = st\<lparr>heads := (heads st)(s := new_head)\<rparr>
      in if new_head \<ge> length seq then Inr (st\<lparr>seqs := (seqs st)[s := None]\<rparr>)
         else case tails st (seq ! new_head) of
             None \<Rightarrow> Inl Null_pointer
           | Some v \<Rightarrow> Inr (st\<lparr>tails := (tails st)(seq ! new_head \<mapsto> v - 1)\<rparr>))"

definition c3_seq :: "nat \<Rightarrow> c3 \<Rightarrow> c3 result" where
  "c3_seq s st =
     (case seqs st ! s of
        None \<Rightarrow> Inr st
      | Some seq \<Rightarrow>
          if heads st s \<ge> length seq then Inl Null_pointer
          else let seqhead = seq ! heads st s; st = c3_candidate seqhead st
               in if winner st = Some seqhead then c3_take s seq st else Inr st)"

text \<open>\<open>for(s = 0; s <= AvFILLp(seqs); s++)\<close>, \<open>n\<close> sequences before the end\<close>

fun c3_for :: "nat \<Rightarrow> nat \<Rightarrow> c3 \<Rightarrow> c3 result" where
  "c3_for 0 s st = Inr st"
| "c3_for (Suc n) s st = bind_result (c3_seq s st) (\<lambda>st. c3_for n (s + 1) st)"

definition c3_round :: "c3 \<Rightarrow> c3 result" where
  "c3_round st = c3_for (length (seqs st)) 0 (st\<lparr>cand := None, winner := None\<rparr>)"

text \<open>Every round that has a winner moves a head or uses up a sequence.\<close>

definition seq_weight :: "c3 \<Rightarrow> nat \<Rightarrow> nat" where
  "seq_weight st s = (case seqs st ! s of None \<Rightarrow> 0 | Some seq \<Rightarrow> Suc (length seq - heads st s))"

definition c3_weight :: "c3 \<Rightarrow> nat" where
  "c3_weight st = (\<Sum>s < length (seqs st). seq_weight st s)"

lemma c3_weight_cong: "seqs st' = seqs st \<Longrightarrow> heads st' = heads st \<Longrightarrow> c3_weight st' = c3_weight st"
  by (simp add: c3_weight_def seq_weight_def cong: option.case_cong)

lemma c3_candidate_sel [simp]:
  "seqs (c3_candidate x st) = seqs st" "heads (c3_candidate x st) = heads st"
  "tails (c3_candidate x st) = tails st"
  by (simp_all add: c3_candidate_def Let_def)

lemma c3_take_weight:
  assumes "c3_take s seq st = Inr st'" "seqs st ! s = Some seq" "s < length (seqs st)" "heads st s < length seq"
  shows "length (seqs st') = length (seqs st)" "c3_weight st' < c3_weight st"
proof -
  show l: "length (seqs st') = length (seqs st)"
    using assms(1) by (auto simp: c3_take_def Let_def split: if_splits option.splits)
  have "seq_weight st' s < seq_weight st s"
    using assms by (auto simp: c3_take_def seq_weight_def Let_def split: if_splits option.splits)
  moreover have "seq_weight st' i = seq_weight st i" if "i \<noteq> s" for i
    using assms(1) that by (auto simp: c3_take_def seq_weight_def Let_def split: if_splits option.splits)
  ultimately show "c3_weight st' < c3_weight st"
    unfolding c3_weight_def l using assms(3) by (intro sum_strict_mono_ex1) (metis finite_lessThan less_imp_le order_refl lessThan_iff)+
qed

lemma c3_seq_weight:
  assumes "c3_seq s st = Inr st'" "s < length (seqs st)"
  shows "length (seqs st') = length (seqs st) \<and> c3_weight st' \<le> c3_weight st \<and>
    (winner st = None \<longrightarrow> winner st' \<noteq> None \<longrightarrow> c3_weight st' < c3_weight st)"
proof (cases "seqs st ! s")
  case None
  then show ?thesis using assms by (simp add: c3_seq_def)
next
  case (Some seq)
  let ?st = "c3_candidate (seq ! heads st s) st"
  have h: "heads st s < length seq" using assms Some by (auto simp: c3_seq_def split: if_splits)
  have w: "c3_weight ?st = c3_weight st" by (rule c3_weight_cong) simp_all
  show ?thesis
  proof (cases "winner ?st = Some (seq ! heads st s)")
    case True
    then have "c3_take s seq ?st = Inr st'" using assms Some h by (simp add: c3_seq_def Let_def)
    from c3_take_weight[OF this] show ?thesis using Some assms(2) h w by simp
  next
    case False
    then have "st' = ?st" using assms Some h by (simp add: c3_seq_def Let_def)
    with False w show ?thesis by (auto simp: c3_candidate_def Let_def split: if_splits)
  qed
qed

lemma c3_for_weight:
  "c3_for n s st = Inr st' \<Longrightarrow> s + n \<le> length (seqs st) \<Longrightarrow>
   c3_weight st' \<le> c3_weight st \<and> (winner st = None \<longrightarrow> winner st' \<noteq> None \<longrightarrow> c3_weight st' < c3_weight st)"
proof (induction n arbitrary: s st)
  case (Suc n)
  then obtain st1 where 1: "c3_seq s st = Inr st1" "c3_for n (s + 1) st1 = Inr st'"
    by (auto simp: bind_result_Inr)
  with Suc.IH[OF 1(2)] c3_seq_weight[OF 1(1)] Suc.prems(2) show ?case by (cases "winner st1") auto
qed simp

lemma c3_round_weight: "c3_round st = Inr st' \<Longrightarrow> winner st' \<noteq> None \<Longrightarrow> c3_weight st' < c3_weight st"
  using c3_for_weight[of "length (seqs st)" 0 "st\<lparr>cand := None, winner := None\<rparr>" st']
    c3_weight_cong[of "st\<lparr>cand := None, winner := None\<rparr>" st]
  by (simp add: c3_round_def)

text \<open>\<open>while(1)\<close>: the loop ends with no candidate left, or with candidates and no winner.\<close>

function c3_loop :: "pkg \<Rightarrow> c3 \<Rightarrow> pkg list result" where
  "c3_loop stashname st =
     (case c3_round st of
        Inl e \<Rightarrow> Inl e
      | Inr st \<Rightarrow>
          (case cand st of
             None \<Rightarrow> Inr (retval st)
           | Some c \<Rightarrow>
               if winner st = None then Inl (Inconsistent_hierarchy stashname c) else c3_loop stashname st))"
  by pat_completeness auto
termination
  by (relation "measure (\<lambda>(stashname, st). c3_weight st)") (auto dest: c3_round_weight)

declare c3_loop.simps [simp del]

definition c3_merge :: "pkg \<Rightarrow> pkg list list \<Rightarrow> pkg list result" where
  "c3_merge stashname ss =
     c3_loop stashname \<lparr>seqs = map Some ss, heads = (\<lambda>s. 0), tails = tails_of ss, retval = [stashname],
       cand = None, winner = None\<rparr>"

section \<open>The textbook merge\<close>

text \<open>
  The next class is the first head that no sequence has behind its head; it is taken off all the
  sequences it heads. The class named in the error is the last head that was tried.
\<close>

definition good_head :: "pkg list list \<Rightarrow> pkg \<Rightarrow> bool" where
  "good_head ss x \<longleftrightarrow> (\<forall>s \<in> set ss. x \<notin> set (tl s))"

definition drop_head :: "pkg \<Rightarrow> pkg list \<Rightarrow> pkg list" where
  "drop_head x s = (case s of [] \<Rightarrow> [] | y # ys \<Rightarrow> if y = x then ys else s)"

definition all_heads :: "pkg list list \<Rightarrow> pkg list" where
  "all_heads ss = concat (map (take 1) ss)"

lemma all_heads_simps [simp]:
  "all_heads [] = []" "all_heads (s # ss) = take 1 s @ all_heads ss"
  by (simp_all add: all_heads_def)

lemma drop_head_less:
  "x \<in> set (all_heads ss) \<Longrightarrow> sum_list (map (\<lambda>s. length (drop_head x s)) ss) < sum_list (map length ss)"
proof (induction ss)
  case (Cons s ss)
  have le: "length (drop_head x t) \<le> length t" for t by (simp add: drop_head_def split: list.split)
  have "sum_list (map (\<lambda>s. length (drop_head x s)) ss) \<le> sum_list (map length ss)"
    by (rule sum_list_mono) (simp add: le)
  moreover have "length (drop_head x s) < length s" if "x \<in> set (take 1 s)"
    using that by (cases s) (simp_all add: drop_head_def)
  ultimately show ?case
    using Cons le[of s] by (cases "x \<in> set (take 1 s)") (simp_all add: add_less_le_mono add_le_less_mono)
qed simp

function merge_ref :: "pkg \<Rightarrow> pkg list list \<Rightarrow> pkg list result" where
  "merge_ref nm ss =
     (if all_heads ss = [] then Inr []
      else case List.find (good_head ss) (all_heads ss) of
          None \<Rightarrow> Inl (Inconsistent_hierarchy nm (last (all_heads ss)))
        | Some x \<Rightarrow>
            (case merge_ref nm (map (drop_head x) ss) of Inl e \<Rightarrow> Inl e | Inr l \<Rightarrow> Inr (x # l)))"
  by pat_completeness auto
termination
  by (relation "measure (\<lambda>(nm, ss). sum_list (map length ss))")
    (auto simp: find_Some_iff comp_def intro!: drop_head_less)

declare merge_ref.simps [simp del]

section \<open>The code computes the textbook merge\<close>

text \<open>What is left of the sequences, and the invariant of the loop: no index is past its sequence,
  and the table counts the classes behind the heads.\<close>

definition left_of :: "c3 \<Rightarrow> nat \<Rightarrow> pkg list" where
  "left_of st s = (case seqs st ! s of None \<Rightarrow> [] | Some seq \<Rightarrow> drop (heads st s) seq)"

definition left :: "c3 \<Rightarrow> pkg list list" where
  "left st = map (left_of st) [0..<length (seqs st)]"

definition tail_count :: "pkg list list \<Rightarrow> pkg \<Rightarrow> int" where
  "tail_count ss x = int (sum_list (map (\<lambda>s. count_list (tl s) x) ss))"

definition c3_ok :: "c3 \<Rightarrow> bool" where
  "c3_ok st \<longleftrightarrow>
     (\<forall>s < length (seqs st). \<forall>seq. seqs st ! s = Some seq \<longrightarrow> heads st s < length seq) \<and>
     (\<forall>x. (case tails st x of None \<Rightarrow> 0 | Some v \<Rightarrow> v) = tail_count (left st) x)"

lemma length_left [simp]: "length (left st) = length (seqs st)"
  by (simp add: left_def)

lemma nth_left: "s < length (seqs st) \<Longrightarrow> left st ! s = left_of st s"
  by (simp add: left_def)

lemma left_updateI:
  assumes "length (seqs st') = length (seqs st)" "left_of st' s = y"
    and "\<And>i. i \<noteq> s \<Longrightarrow> seqs st' ! i = seqs st ! i \<and> heads st' i = heads st i"
  shows "left st' = (left st)[s := y]"
proof (rule nth_equalityI)
  fix i assume i: "i < length (left st')"
  show "left st' ! i = (left st)[s := y] ! i"
  proof (cases "i = s")
    case False
    then have "left_of st' i = left_of st i" using assms(3)[of i] by (simp add: left_of_def cong: option.case_cong)
    with False i assms(1) show ?thesis by (simp add: nth_left)
  qed (use i assms in \<open>simp add: nth_left\<close>)
qed (simp add: assms(1))

lemma tail_count_pos: "tail_count ss x > 0 \<longleftrightarrow> \<not> good_head ss x"
proof -
  have "(\<Sum>s\<leftarrow>ss. count_list (tl s) x) = 0 \<longleftrightarrow> (\<forall>s \<in> set ss. x \<notin> set (tl s))"
    by (auto simp: count_list_0_iff)
  then show ?thesis unfolding tail_count_def good_head_def
    by (metis gr0I less_irrefl of_nat_0_less_iff)
qed

lemma in_tails_iff: "c3_ok st \<Longrightarrow> in_tails x st \<longleftrightarrow> \<not> good_head (left st) x"
  unfolding tail_count_pos[symmetric] c3_ok_def in_tails_def
  by (metis less_irrefl option.case_eq_if)

lemma sum_list_update_int:
  fixes f :: "'a \<Rightarrow> nat"
  shows "k < length xs \<Longrightarrow> int (sum_list (map f (xs[k := y]))) = int (sum_list (map f xs)) - int (f (xs ! k)) + int (f y)"
proof (induction xs arbitrary: k)
  case (Cons x xs)
  then show ?case by (cases k) auto
qed simp

lemma tail_count_update:
  "k < length ss \<Longrightarrow>
   tail_count (ss[k := y]) x = tail_count ss x - int (count_list (tl (ss ! k)) x) + int (count_list (tl y) x)"
  by (simp add: tail_count_def sum_list_update_int)

text \<open>Taking the winner off a sequence.\<close>

lemma c3_take_ok:
  assumes ok: "c3_ok st" and s: "s < length (seqs st)" "seqs st ! s = Some seq"
  shows "\<exists>st'. c3_take s seq st = Inr st' \<and> c3_ok st' \<and> left st' = (left st)[s := tl (left_of st s)] \<and>
    cand st' = cand st \<and> winner st' = winner st \<and> retval st' = retval st \<and> length (seqs st') = length (seqs st)"
proof -
  let ?h = "heads st s"
  have h: "?h < length seq" using ok s by (simp add: c3_ok_def)
  have left_s: "left_of st s = drop ?h seq" using s by (simp add: left_of_def)
  have tl_s: "tl (left_of st s) = drop (Suc ?h) seq" by (simp add: left_s tl_drop drop_Suc)
  show ?thesis
  proof (cases "Suc ?h \<ge> length seq")
    case True
    define st' where "st' = st\<lparr>heads := (heads st)(s := Suc ?h), seqs := (seqs st)[s := None]\<rparr>"
    have take: "c3_take s seq st = Inr st'" using True by (simp add: c3_take_def st'_def)
    have left: "left st' = (left st)[s := tl (left_of st s)]"
      by (rule left_updateI) (use True s tl_s in \<open>simp_all add: st'_def left_of_def\<close>)
    have "c3_ok st'"
      unfolding c3_ok_def
    proof (intro conjI allI impI)
      fix i sq assume "i < length (seqs st')" "seqs st' ! i = Some sq"
      then show "heads st' i < length sq" using ok by (auto simp: st'_def c3_ok_def nth_list_update split: if_splits)
    next
      fix x show "(case tails st' x of None \<Rightarrow> 0 | Some v \<Rightarrow> v) = tail_count (left st') x"
        using ok True s tl_s unfolding left by (simp add: tail_count_update c3_ok_def nth_left st'_def)
    qed
    with take left show ?thesis by (simp add: st'_def)
  next
    case False
    let ?y = "seq ! Suc ?h"
    have dr: "drop (Suc ?h) seq = ?y # drop (Suc (Suc ?h)) seq" using False by (simp add: Cons_nth_drop_Suc)
    have y: "?y \<in> set (tl (left st ! s))" using s tl_s dr by (simp add: nth_left)
    have "left st ! s \<in> set (left st)" using s(1) by (simp add: left_def)
    with y have "\<not> good_head (left st) ?y" unfolding good_head_def by blast
    then have "tail_count (left st) ?y > 0" by (simp add: tail_count_pos)
    then obtain v where v: "tails st ?y = Some v" using ok unfolding c3_ok_def
      by (metis less_irrefl not_None_eq option.case(1))
    define st' where "st' = st\<lparr>heads := (heads st)(s := Suc ?h), tails := (tails st)(?y \<mapsto> v - 1)\<rparr>"
    have take: "c3_take s seq st = Inr st'" using False v by (simp add: c3_take_def st'_def)
    have left: "left st' = (left st)[s := tl (left_of st s)]"
      by (rule left_updateI) (use s tl_s in \<open>simp_all add: st'_def left_of_def\<close>)
    have "c3_ok st'"
      unfolding c3_ok_def
    proof (intro conjI allI impI)
      fix i sq assume "i < length (seqs st')" "seqs st' ! i = Some sq"
      then show "heads st' i < length sq" using ok False s by (auto simp: st'_def c3_ok_def)
    next
      fix x
      have "tail_count (left st') x = tail_count (left st) x - (if x = ?y then 1 else 0)"
        using s unfolding left by (simp add: tail_count_update nth_left tl_s) (simp add: dr)
      moreover have "(case tails st x of None \<Rightarrow> 0 | Some v \<Rightarrow> v) = tail_count (left st) x"
        using ok by (simp add: c3_ok_def)
      ultimately show "(case tails st' x of None \<Rightarrow> 0 | Some v \<Rightarrow> v) = tail_count (left st') x"
        using v by (auto simp: st'_def)
    qed
    with take left show ?thesis by (simp add: st'_def)
  qed
qed

text \<open>One sequence, with and without a winner.\<close>

lemma left_of_None: "c3_ok st \<Longrightarrow> s < length (seqs st) \<Longrightarrow> left st ! s = [] \<longleftrightarrow> seqs st ! s = None"
  by (force simp: nth_left left_of_def c3_ok_def split: option.split)

lemma left_of_Cons:
  "s < length (seqs st) \<Longrightarrow> left st ! s = x # xs \<Longrightarrow>
   \<exists>seq. seqs st ! s = Some seq \<and> heads st s < length seq \<and> seq ! heads st s = x"
proof -
  assume s: "s < length (seqs st)" and "left st ! s = x # xs"
  then obtain seq where seq: "seqs st ! s = Some seq" "drop (heads st s) seq = x # xs"
    by (auto simp: nth_left left_of_def split: option.splits)
  then have h: "heads st s < length seq" by (metis drop_eq_Nil2 leI list.distinct(1))
  then have "seq ! heads st s = x" using seq(2) by (metis hd_drop_conv_nth list.sel(1))
  with seq(1) h show ?thesis by blast
qed

lemma c3_ok_cong:
  "c3_ok st \<Longrightarrow> seqs st' = seqs st \<Longrightarrow> heads st' = heads st \<Longrightarrow> tails st' = tails st \<Longrightarrow>
   c3_ok st' \<and> left st' = left st"
proof -
  assume a: "c3_ok st" "seqs st' = seqs st" "heads st' = heads st" "tails st' = tails st"
  then have "left_of st' = left_of st" by (intro ext) (simp add: left_of_def cong: option.case_cong)
  with a show ?thesis by (simp add: c3_ok_def left_def)
qed

lemma c3_seq_winner:
  assumes ok: "c3_ok st" and s: "s < length (seqs st)" and w: "winner st = Some w"
  shows "\<exists>st'. c3_seq s st = Inr st' \<and> c3_ok st' \<and> left st' = (left st)[s := drop_head w (left st ! s)] \<and>
    cand st' = cand st \<and> winner st' = Some w \<and> retval st' = retval st \<and> length (seqs st') = length (seqs st)"
proof (cases "left st ! s")
  case Nil
  then have "c3_seq s st = Inr st" using left_of_None[OF ok s] by (simp add: c3_seq_def)
  moreover have "(left st)[s := drop_head w (left st ! s)] = left st"
    using Nil by (metis drop_head_def list.case(1) list_update_id)
  ultimately show ?thesis using ok w by simp
next
  case (Cons x xs)
  then obtain seq where seq: "seqs st ! s = Some seq" "heads st s < length seq" "seq ! heads st s = x"
    using left_of_Cons[OF s Cons] by blast
  then have e: "c3_seq s st = (if w = x then c3_take s seq st else Inr st)"
    using w by (simp add: c3_seq_def c3_candidate_def Let_def)
  show ?thesis
  proof (cases "w = x")
    case True
    have "tl (left_of st s) = drop_head w (left st ! s)" using True Cons s by (simp add: drop_head_def nth_left)
    with c3_take_ok[OF ok s seq(1)] show ?thesis unfolding e if_P[OF True] w by metis
  next
    case False
    then have "drop_head w (left st ! s) = left st ! s" using Cons by (auto simp: drop_head_def)
    then have "left st = (left st)[s := drop_head w (left st ! s)]" by simp
    moreover have "c3_seq s st = Inr st" using e False by simp
    ultimately show ?thesis using ok w by blast
  qed
qed

lemma c3_seq_open:
  assumes ok: "c3_ok st" and s: "s < length (seqs st)" and w: "winner st = None"
  shows "left st ! s = [] \<Longrightarrow> c3_seq s st = Inr st"
    and "left st ! s = x # xs \<Longrightarrow> \<not> good_head (left st) x \<Longrightarrow> c3_seq s st = Inr (st\<lparr>cand := Some x\<rparr>)"
    and "left st ! s = x # xs \<Longrightarrow> good_head (left st) x \<Longrightarrow>
      \<exists>st'. c3_seq s st = Inr st' \<and> c3_ok st' \<and> left st' = (left st)[s := xs] \<and> cand st' = Some x \<and>
        winner st' = Some x \<and> retval st' = retval st @ [x] \<and> length (seqs st') = length (seqs st)"
proof -
  show "c3_seq s st = Inr st" if "left st ! s = []"
    using left_of_None[OF ok s] that by (simp add: c3_seq_def)
  assume x: "left st ! s = x # xs"
  obtain seq where seq: "seqs st ! s = Some seq" "heads st s < length seq" "seq ! heads st s = x"
    using left_of_Cons[OF s x] by blast
  have t: "in_tails x (st\<lparr>cand := Some x\<rparr>) \<longleftrightarrow> \<not> good_head (left st) x"
    using in_tails_iff[OF ok, of x] by (simp add: in_tails_def)
  show "c3_seq s st = Inr (st\<lparr>cand := Some x\<rparr>)" if "\<not> good_head (left st) x"
    using seq w t that by (simp add: c3_seq_def c3_candidate_def Let_def)
  show "\<exists>st'. c3_seq s st = Inr st' \<and> c3_ok st' \<and> left st' = (left st)[s := xs] \<and> cand st' = Some x \<and>
        winner st' = Some x \<and> retval st' = retval st @ [x] \<and> length (seqs st') = length (seqs st)"
    if good: "good_head (left st) x"
  proof -
    define st1 where "st1 = st\<lparr>cand := Some x, winner := Some x, retval := retval st @ [x]\<rparr>"
    have "c3_seq s st = c3_take s seq st1"
      using seq w t good by (simp add: c3_seq_def c3_candidate_def Let_def st1_def)
    moreover have 1: "c3_ok st1 \<and> left st1 = left st" by (rule c3_ok_cong[OF ok]) (simp_all add: st1_def)
    moreover have "left_of st1 s = x # xs" using 1 x s nth_left[of s st1] by (simp add: st1_def)
    ultimately show ?thesis using c3_take_ok[of st1 s seq] seq(1) s by (auto simp: st1_def)
  qed
qed

text \<open>The rest of a round after the winner, and a whole round.\<close>

lemma c3_for_winner:
  "c3_ok st \<Longrightarrow> s + n = length (seqs st) \<Longrightarrow> winner st = Some w \<Longrightarrow>
   \<exists>st'. c3_for n s st = Inr st' \<and> c3_ok st' \<and>
     left st' = take s (left st) @ map (drop_head w) (drop s (left st)) \<and>
     cand st' = cand st \<and> winner st' = Some w \<and> retval st' = retval st \<and> length (seqs st') = length (seqs st)"
proof (induction n arbitrary: s st)
  case 0
  then have "length (left st) \<le> s" by simp
  with 0 show ?case by simp
next
  case (Suc n)
  then have s: "s < length (left st)" by simp
  obtain st1 where 1: "c3_seq s st = Inr st1" "c3_ok st1" "left st1 = (left st)[s := drop_head w (left st ! s)]"
    "cand st1 = cand st" "winner st1 = Some w" "retval st1 = retval st" "length (seqs st1) = length (seqs st)"
    using c3_seq_winner[OF Suc.prems(1) _ Suc.prems(3), of s] s by auto
  have "take (Suc s) (left st1) = take s (left st) @ [drop_head w (left st ! s)]"
    "drop (Suc s) (left st1) = drop (Suc s) (left st)"
    using s by (simp_all add: 1(3) take_Suc_conv_app_nth)
  moreover have "drop s (left st) = left st ! s # drop (Suc s) (left st)" using s by (rule Cons_nth_drop_Suc[symmetric])
  ultimately show ?case using Suc.IH[of st1 "Suc s"] 1 Suc.prems(2) by auto
qed

lemma c3_for_open:
  "c3_ok st \<Longrightarrow> s + n = length (seqs st) \<Longrightarrow> winner st = None \<Longrightarrow>
   \<exists>st'. c3_for n s st = Inr st' \<and> c3_ok st' \<and>
     (case List.find (good_head (left st)) (all_heads (drop s (left st))) of
        None \<Rightarrow> winner st' = None \<and> left st' = left st \<and> retval st' = retval st \<and>
          cand st' = (if all_heads (drop s (left st)) = [] then cand st else Some (last (all_heads (drop s (left st)))))
      | Some x \<Rightarrow> winner st' = Some x \<and> cand st' \<noteq> None \<and> retval st' = retval st @ [x] \<and>
          left st' = take s (left st) @ map (drop_head x) (drop s (left st)))"
proof (induction n arbitrary: s st)
  case 0
  then have "length (left st) \<le> s" by simp
  with 0 show ?case by simp
next
  case (Suc n)
  then have s: "s < length (left st)" "s < length (seqs st)" by simp_all
  have d: "drop s (left st) = left st ! s # drop (Suc s) (left st)" using s(1) by (rule Cons_nth_drop_Suc[symmetric])
  have t: "take (Suc s) (left st) = take s (left st) @ [left st ! s]" using s(1) by (rule take_Suc_conv_app_nth)
  note open_s = c3_seq_open[OF Suc.prems(1) s(2) Suc.prems(3)]
  show ?case
  proof (cases "left st ! s")
    case Nil
    have "drop_head x [] = []" for x by (simp add: drop_head_def)
    with Suc.IH[of st "Suc s"] Suc.prems open_s(1)[OF Nil] d t Nil show ?thesis
      by (auto split: option.splits)
  next
    case (Cons x xs)
    show ?thesis
    proof (cases "good_head (left st) x")
      case True
      obtain st1 where 1: "c3_seq s st = Inr st1" "c3_ok st1" "left st1 = (left st)[s := xs]"
        "cand st1 = Some x" "winner st1 = Some x" "retval st1 = retval st @ [x]"
        "length (seqs st1) = length (seqs st)"
        using open_s(3)[OF Cons True] by blast
      have "take (Suc s) (left st1) = take s (left st) @ [xs]" "drop (Suc s) (left st1) = drop (Suc s) (left st)"
        using s by (simp_all add: 1(3) take_Suc_conv_app_nth)
      with c3_for_winner[of st1 "Suc s" n x] 1 Suc.prems(2) d Cons True show ?thesis
        by (auto simp: drop_head_def)
    next
      case False
      let ?st = "st\<lparr>cand := Some x\<rparr>"
      have 1: "c3_ok ?st \<and> left ?st = left st" by (rule c3_ok_cong[OF Suc.prems(1)]) simp_all
      have "drop_head y (x # xs) = x # xs" if "List.find (good_head (left st)) ys = Some y" for y ys
        using that False by (auto simp: drop_head_def find_Some_iff)
      with Suc.IH[of ?st "Suc s"] 1 Suc.prems open_s(2)[OF Cons False] d t Cons False show ?thesis
        by (auto split: option.splits)
    qed
  qed
qed

lemma c3_loop_ref:
  "c3_ok st \<Longrightarrow>
   c3_loop nm st = (case merge_ref nm (left st) of Inl e \<Rightarrow> Inl e | Inr l \<Rightarrow> Inr (retval st @ l))"
proof (induction nm st rule: c3_loop.induct)
  case (1 nm st)
  define st0 where "st0 = st\<lparr>cand := None, winner := None\<rparr>"
  have 0: "c3_ok st0 \<and> left st0 = left st" unfolding st0_def by (rule c3_ok_cong[OF "1.prems"]) simp_all
  have st0: "seqs st0 = seqs st" "retval st0 = retval st" "cand st0 = None" "winner st0 = None" by (simp_all add: st0_def)
  have o: "c3_ok st0" "0 + length (seqs st) = length (seqs st0)" using 0 st0 by simp_all
  obtain st1 where r: "c3_round st = Inr st1" "c3_ok st1" and
    f0: "case List.find (good_head (left st0)) (all_heads (drop 0 (left st0))) of
        None \<Rightarrow> winner st1 = None \<and> left st1 = left st0 \<and> retval st1 = retval st0 \<and>
          cand st1 = (if all_heads (drop 0 (left st0)) = [] then cand st0 else Some (last (all_heads (drop 0 (left st0)))))
      | Some x \<Rightarrow> winner st1 = Some x \<and> cand st1 \<noteq> None \<and> retval st1 = retval st0 @ [x] \<and>
          left st1 = take 0 (left st0) @ map (drop_head x) (drop 0 (left st0))"
    using c3_for_open[OF o st0(4)] unfolding c3_round_def st0_def[symmetric] by blast
  have f: "case List.find (good_head (left st)) (all_heads (left st)) of
        None \<Rightarrow> winner st1 = None \<and> left st1 = left st \<and> retval st1 = retval st \<and>
          cand st1 = (if all_heads (left st) = [] then None else Some (last (all_heads (left st))))
      | Some x \<Rightarrow> winner st1 = Some x \<and> cand st1 \<noteq> None \<and> retval st1 = retval st @ [x] \<and>
          left st1 = map (drop_head x) (left st)"
    using f0 unfolding drop0 take0 append_Nil 0[THEN conjunct2] st0 .
  show ?case
  proof (cases "List.find (good_head (left st)) (all_heads (left st))")
    case None
    with f r show ?thesis by (simp add: c3_loop.simps[of nm st] merge_ref.simps[of nm "left st"])
  next
    case (Some x)
    then have "all_heads (left st) \<noteq> []" by auto
    moreover obtain c where c: "cand st1 = Some c" using f Some by auto
    moreover have "c3_loop nm st1 = (case merge_ref nm (left st1) of Inl e \<Rightarrow> Inl e | Inr l \<Rightarrow> Inr (retval st1 @ l))"
      using "1.IH"[OF r(1) c] f Some r(2) by simp
    ultimately show ?thesis using f r Some
      by (simp add: c3_loop.simps[of nm st] merge_ref.simps[of nm "left st"] split: sum.split)
  qed
qed

lemma tail_inc_count:
  "(case fold tail_inc xs t x of None \<Rightarrow> 0 | Some v \<Rightarrow> v) =
   (case t x of None \<Rightarrow> 0 | Some v \<Rightarrow> v) + int (count_list xs x)"
  by (induction xs arbitrary: t) (auto simp: tail_inc_def split: option.split)

lemma tails_of_count: "(case tails_of ss x of None \<Rightarrow> 0 | Some v \<Rightarrow> v) = tail_count ss x"
proof -
  have "(case fold (\<lambda>seq t. fold tail_inc (tl seq) t) ss t x of None \<Rightarrow> 0 | Some v \<Rightarrow> v) =
      (case t x of None \<Rightarrow> 0 | Some v \<Rightarrow> v) + tail_count ss x" for t
    by (induction ss arbitrary: t) (simp_all add: tail_count_def tail_inc_count)
  from this[of Map.empty] show ?thesis by (simp add: tails_of_def)
qed

lemma c3_merge_ref:
  assumes "\<forall>s \<in> set ss. s \<noteq> []"
  shows "c3_merge nm ss = (case merge_ref nm ss of Inl e \<Rightarrow> Inl e | Inr l \<Rightarrow> Inr (nm # l))"
proof -
  let ?st = "\<lparr>seqs = map Some ss, heads = (\<lambda>s. 0), tails = tails_of ss, retval = [nm], cand = None, winner = None\<rparr>"
  have left: "left ?st = ss"
    by (rule nth_equalityI) (simp_all add: nth_left left_of_def)
  have "c3_ok ?st"
    unfolding c3_ok_def left using assms by (auto simp: tails_of_count)
  from c3_loop_ref[OF this, of nm] show ?thesis unfolding left by (simp add: c3_merge_def cong: sum.case_cong)
qed

text \<open>
  C13: for sequences that are not empty the merge of the code, with its indices and its table of
  counts, terminates, never follows a NULL pointer, and gives what the textbook merge gives: the
  same order after the class itself, or the same error with the same class in it.
\<close>

theorem c3_merge_is_textbook:
  assumes "\<forall>s \<in> set ss. s \<noteq> []"
  shows "c3_merge nm ss = (case merge_ref nm ss of Inl e \<Rightarrow> Inl e | Inr l \<Rightarrow> Inr (nm # l))"
  using assms by (rule c3_merge_ref)

text \<open>The diamond of the manuals, and an order that contradicts itself.\<close>

theorem c3_merge_is_textbook_witness:
  "c3_merge [68] [[[66], [65]], [[67], [65]], [[66], [67]]] = Inr [[68], [66], [67], [65]] \<and>
   c3_merge [90] [[[65], [66]], [[66], [65]], [[65], [66]]] = Inl (Inconsistent_hierarchy [90] [65])"
proof -
  have "merge_ref [68] [[[66], [65]], [[67], [65]], [[66], [67]]] = Inr [[66], [67], [65]]"
    "merge_ref [90] [[[65], [66]], [[66], [65]], [[65], [66]]] = Inl (Inconsistent_hierarchy [90] [65])"
    by code_simp+
  then show ?thesis
    using c3_merge_is_textbook[of "[[[66], [65]], [[67], [65]], [[66], [67]]]" "[68]"]
      c3_merge_is_textbook[of "[[[65], [66]], [[66], [65]], [[65], [66]]]" "[90]"]
    by simp
qed

section \<open>The order of the merge\<close>

lemma find_good_head:
  "List.find (good_head ss) (all_heads ss) = Some x \<Longrightarrow> good_head ss x \<and> x \<in> set (all_heads ss)"
  by (auto simp: find_Some_iff)

lemma set_drop_head: "set (drop_head x s) \<subseteq> set s" "set s \<subseteq> insert x (set (drop_head x s))"
  by (cases s; auto simp: drop_head_def)+

lemma all_heads_in: "x \<in> set (all_heads ss) \<Longrightarrow> \<exists>s \<in> set ss. x \<in> set s"
  by (auto simp: all_heads_def dest: in_set_takeD)

lemma good_head_gone: "good_head ss x \<Longrightarrow> s \<in> set ss \<Longrightarrow> x \<notin> set (drop_head x s)"
  by (cases s) (auto simp: good_head_def drop_head_def)

lemma merge_ref_order:
  "merge_ref nm ss = Inr l \<Longrightarrow>
   distinct l \<and> set l = (\<Union>s \<in> set ss. set s) \<and> (\<forall>s \<in> set ss. subseq s l)"
proof (induction nm ss arbitrary: l rule: merge_ref.induct)
  case (1 nm ss)
  show ?case
  proof (cases "List.find (good_head ss) (all_heads ss)")
    case None
    with "1.prems" have "all_heads ss = []" "l = []" by (simp_all add: merge_ref.simps[of nm ss] split: if_splits)
    then have "\<forall>s \<in> set ss. s = []" by (auto simp: all_heads_def take_Suc_conv_app_nth)
    with \<open>l = []\<close> show ?thesis by auto
  next
    case (Some x)
    then have ne: "all_heads ss \<noteq> []" by auto
    have "merge_ref nm ss = (case merge_ref nm (map (drop_head x) ss) of Inl e \<Rightarrow> Inl e | Inr l \<Rightarrow> Inr (x # l))"
      using Some ne by (simp add: merge_ref.simps[of nm ss])
    with "1.prems" have "\<exists>l'. l = x # l' \<and> merge_ref nm (map (drop_head x) ss) = Inr l'"
      by (cases "merge_ref nm (map (drop_head x) ss)") auto
    then obtain l' where l: "l = x # l'" "merge_ref nm (map (drop_head x) ss) = Inr l'" by blast
    have ih: "distinct l'" "set l' = (\<Union>s \<in> set ss. set (drop_head x s))" "\<forall>s \<in> set ss. subseq (drop_head x s) l'"
      using "1.IH"[OF ne Some l(2)] by auto
    have x: "good_head ss x" "x \<in> set (all_heads ss)" using find_good_head[OF Some] by simp_all
    have "x \<notin> set l'" using ih(2) good_head_gone[OF x(1)] by blast
    moreover have "set l = (\<Union>s \<in> set ss. set s)"
    proof (rule set_eqI)
      fix y
      have "(\<exists>s \<in> set ss. y \<in> set s) \<longleftrightarrow> y = x \<or> (\<exists>s \<in> set ss. y \<in> set (drop_head x s))"
        using set_drop_head[where x = x] all_heads_in[OF x(2)] by blast
      then show "y \<in> set l \<longleftrightarrow> y \<in> (\<Union>s \<in> set ss. set s)" using ih(2) l(1) by simp
    qed
    moreover have "subseq s l" if "s \<in> set ss" for s
      using ih(3) that by (cases s) (auto simp: l(1) drop_head_def split: if_splits)
    ultimately show ?thesis using ih(1) l(1) by simp
  qed
qed

text \<open>An order that all the sequences agree with makes the merge succeed.\<close>

lemma before_in_distinct:
  "distinct (l1 @ x # l2) \<Longrightarrow> subseq [y, x] (l1 @ x # l2) \<Longrightarrow> y \<in> set l1"
proof (induction l1)
  case Nil
  then have "subseq [x] l2"
    by (cases "y = x") (auto dest: subseq_Cons' simp: subseq_Cons2_iff split: if_splits)
  with Nil show ?case by (auto simp: subseq_singleton_left)
next
  case (Cons a l1)
  then show ?case by (cases "y = a") (auto simp: subseq_Cons2_iff split: if_splits)
qed

lemma order_gives_good_head:
  assumes l: "distinct l" "\<forall>s \<in> set ss. subseq s l" and ne: "all_heads ss \<noteq> []"
  shows "List.find (good_head ss) (all_heads ss) \<noteq> None"
proof -
  have sub: "set (all_heads ss) \<subseteq> set l"
  proof
    fix y assume "y \<in> set (all_heads ss)"
    then obtain s where s: "s \<in> set ss" "y \<in> set s" using all_heads_in by blast
    then have "subseq [y] l" using l(2) subseq_order.order_trans[of "[y]" s l] by (simp add: subseq_singleton_left)
    then show "y \<in> set l" by (simp add: subseq_singleton_left)
  qed
  obtain h where "h \<in> set l" "h \<in> set (all_heads ss)" using ne sub by (cases "all_heads ss") auto
  then obtain l1 x l2 where x: "l = l1 @ x # l2" "x \<in> set (all_heads ss)" "\<forall>y \<in> set l1. y \<notin> set (all_heads ss)"
    using split_list_first_prop[of l "\<lambda>y. y \<in> set (all_heads ss)"] by blast
  have "x \<notin> set (tl s)" if s: "s \<in> set ss" for s
  proof
    assume t: "x \<in> set (tl s)"
    then obtain y ys where y: "s = y # ys" "x \<in> set ys" by (cases s) auto
    have "subseq [x] ys" using y(2) by (simp add: subseq_singleton_left)
    then have "subseq [y, x] s" using y(1) by simp
    moreover have "subseq s l" using l(2) s by blast
    ultimately have "subseq [y, x] l" by (rule subseq_order.order_trans)
    then have "y \<in> set l1" by (rule before_in_distinct[OF l(1)[unfolded x(1)], folded x(1)])
    moreover have "y \<in> set (all_heads ss)" 
      unfolding all_heads_def set_concat set_map using s y(1) by (intro UN_I[of "take 1 s"] imageI) simp_all
    ultimately show False using x(3) by blast
  qed
  then have "good_head ss x" by (simp add: good_head_def)
  with x(2) show ?thesis by (auto simp: find_None_iff)
qed

lemma merge_ref_succeeds:
  "distinct l \<Longrightarrow> \<forall>s \<in> set ss. subseq s l \<Longrightarrow> \<exists>l'. merge_ref nm ss = Inr l'"
proof (induction nm ss rule: merge_ref.induct)
  case (1 nm ss)
  show ?case
  proof (cases "all_heads ss = []")
    case True
    then show ?thesis by (simp add: merge_ref.simps[of nm ss])
  next
    case False
    then obtain x where x: "List.find (good_head ss) (all_heads ss) = Some x"
      using order_gives_good_head[OF "1.prems"] by auto
    have "subseq (drop_head x s) l" if "s \<in> set ss" for s
      using "1.prems"(2) that by (auto simp: drop_head_def dest: subseq_Cons' split: list.split)
    with "1.IH"[OF False x "1.prems"(1)] x False show ?thesis
      by (auto simp: merge_ref.simps[of nm ss])
  qed
qed

text \<open>
  C14: the merge of the code succeeds exactly when there is an order of the classes that every
  sequence agrees with, and then gives one: the class itself first, every other class of the
  sequences exactly once, and each sequence in its own order.
\<close>

theorem c3_merge_order:
  assumes "\<forall>s \<in> set ss. s \<noteq> []"
  shows "((\<exists>r. c3_merge nm ss = Inr r) \<longleftrightarrow> (\<exists>l. distinct l \<and> (\<forall>s \<in> set ss. subseq s l))) \<and>
    (\<forall>r. c3_merge nm ss = Inr r \<longrightarrow> (\<exists>l. r = nm # l \<and> distinct l \<and> set l = (\<Union>s \<in> set ss. set s) \<and>
       (\<forall>s \<in> set ss. subseq s l)))"
proof -
  have ref: "c3_merge nm ss = Inr r \<longleftrightarrow> (\<exists>l. merge_ref nm ss = Inr l \<and> r = nm # l)" for r
    unfolding c3_merge_ref[OF assms] by (auto split: sum.split)
  have "(\<exists>l. merge_ref nm ss = Inr l) \<longleftrightarrow> (\<exists>l. distinct l \<and> (\<forall>s \<in> set ss. subseq s l))"
    using merge_ref_order[of nm ss] merge_ref_succeeds[of _ ss nm] by metis
  moreover have "merge_ref nm ss = Inr l \<Longrightarrow> distinct l \<and> set l = (\<Union>s \<in> set ss. set s) \<and> (\<forall>s \<in> set ss. subseq s l)" for l
    by (rule merge_ref_order)
  ultimately show ?thesis unfolding ref by metis
qed

theorem c3_merge_order_witness:
  "\<exists>l. c3_merge [68] [[[66], [65]], [[67], [65]], [[66], [67]]] = Inr ([68] # l) \<and> distinct l \<and>
     set l = {[65], [66], [67]} \<and> subseq [[67], [65]] l"
proof -
  let ?ss = "[[[66], [65]], [[67], [65]], [[66], [67]]] :: pkg list list"
  have l: "distinct [[66], [67], [65 :: u8]] \<and> (\<forall>s \<in> set ?ss. subseq s [[66], [67], [65]])" by simp
  note order = c3_merge_order[of ?ss "[68]"]
  have ne: "\<forall>s \<in> set ?ss. s \<noteq> []" by simp
  have "\<exists>l. distinct l \<and> (\<forall>s \<in> set ?ss. subseq s l)" using l by blast
  then obtain r where r: "c3_merge [68] ?ss = Inr r" using order[OF ne] by blast
  then obtain l where "r = [68] # l" "distinct l" "set l = (\<Union>s \<in> set ?ss. set s)" "\<forall>s \<in> set ?ss. subseq s l"
    using order[OF ne] by blast
  with r show ?thesis by (intro exI[of _ l]) auto
qed

end
