(* ===== verification/Mro_Cache.thy ===== *)
theory Mro_Cache
  imports C3_Merge
begin

text \<open>
  Method resolution order (\<open>mro.c\<close>): the cached linearization of every class, the reverse index
  \<open>PL_isarev\<close> from a class to the classes below it, and the generation numbers that make cached
  methods invalid. The first part is the code; the second relates the caches to the
  linearization that the current \<open>@ISA\<close> arrays define.
\<close>

section \<open>State\<close>

text \<open>A class's \<open>@ISA\<close>: none, a variable that is no array, or its elements.\<close>

datatype isa_elem = Plain pkg | Not_plain
datatype isa_var = No_isa | Not_array | Isa "isa_elem list"

record mro_meta =
  mro_linear_c3 :: "pkg list option"
  mro_nextmethod :: "(pkg \<rightharpoonup> nat) option"
  cache_gen :: u32
  pkg_gen :: u32

record stash =
  st_isa :: isa_var
  xhv_mro_meta :: "mro_meta option"

record interp =
  stashes :: "pkg \<rightharpoonup> stash"
  PL_isarev :: "pkg \<rightharpoonup> pkg list"
  PL_sub_generation :: u32

definition mro_meta_init :: mro_meta where
  "mro_meta_init = \<lparr>mro_linear_c3 = None, mro_nextmethod = None, cache_gen = 1, pkg_gen = 1\<rparr>"

text \<open>\<open>HvMROMETA\<close>: the meta data of a stash, made when it is first asked for.\<close>

definition HvMROMETA :: "stash \<Rightarrow> mro_meta" where
  "HvMROMETA st = (case xhv_mro_meta st of None \<Rightarrow> mro_meta_init | Some m \<Rightarrow> m)"

definition with_meta :: "pkg \<Rightarrow> (mro_meta \<Rightarrow> mro_meta) \<Rightarrow> interp \<Rightarrow> interp" where
  "with_meta nm f s =
     (case stashes s nm of
        None \<Rightarrow> s
      | Some st \<Rightarrow> s\<lparr>stashes := (stashes s)(nm \<mapsto> st\<lparr>xhv_mro_meta := Some (f (HvMROMETA st))\<rparr>)\<rparr>)"

section \<open>Linearization\<close>

fun plain :: "isa_elem \<Rightarrow> pkg" where
  "plain (Plain p) = p"
| "plain Not_plain = []"

definition set_linear :: "pkg \<Rightarrow> pkg list \<Rightarrow> interp \<Rightarrow> interp" where
  "set_linear nm l = with_meta nm (\<lambda>m. m\<lparr>mro_linear_c3 := Some l\<rparr>)"

text \<open>
  \<open>S_mro_get_linear_isa_c3\<close> on a stash with a name, and its loop over the parents. A parent without
  a stash stands for itself. What was cached before an error stays cached.
\<close>

function linear_isa_c3 :: "pkg \<Rightarrow> nat \<Rightarrow> interp \<Rightarrow> pkg list result \<times> interp"
  and isa_seqs :: "isa_elem list \<Rightarrow> nat \<Rightarrow> interp \<Rightarrow> pkg list list result \<times> interp" where
  "linear_isa_c3 nm level s =
     (if level > 100 then (Inl (Recursive_inheritance nm), s)
      else case stashes s nm of
        None \<Rightarrow> (Inl Anonymous_stash, s)
      | Some st \<Rightarrow>
        (case mro_linear_c3 (HvMROMETA st) of
           Some l \<Rightarrow> (Inr l, s)
         | None \<Rightarrow>
           (case st_isa st of
              Not_array \<Rightarrow> (Inl Isa_not_array, s)
            | No_isa \<Rightarrow> (Inr [nm], set_linear nm [nm] s)
            | Isa items \<Rightarrow>
                if items = [] then (Inr [nm], set_linear nm [nm] s)
                else (case isa_seqs items level s of
                    (Inl e, s) \<Rightarrow> (Inl e, s)
                  | (Inr ss, s) \<Rightarrow>
                      (case c3_merge nm (ss @ [map plain items]) of
                         Inl e \<Rightarrow> (Inl e, s)
                       | Inr l \<Rightarrow> (Inr l, set_linear nm l s))))))"
| "isa_seqs [] level s = (Inr [], s)"
| "isa_seqs (item # items) level s =
     (case item of
        Not_plain \<Rightarrow> (Inl Isa_elem_not_plain, s)
      | Plain p \<Rightarrow>
          (case (if stashes s p = None then (Inr [p], s) else linear_isa_c3 p (level + 1) s) of
             (Inl e, s) \<Rightarrow> (Inl e, s)
           | (Inr l, s) \<Rightarrow>
               (case isa_seqs items level s of
                  (Inl e, s) \<Rightarrow> (Inl e, s)
                | (Inr ss, s) \<Rightarrow> (Inr (l # ss), s))))"
  by pat_completeness auto
termination
  by (relation "measures [
      (\<lambda>x. case x of Inl (nm, level, s) \<Rightarrow> if level > 100 then 0 else 2 * (101 - level) + 1
                   | Inr (items, level, s) \<Rightarrow> 2 * (101 - level)),
      (\<lambda>x. case x of Inl (nm, level, s) \<Rightarrow> 0 | Inr (items, level, s) \<Rightarrow> length items)]")
    auto

declare linear_isa_c3.simps [simp del]

text \<open>\<open>mro_get_linear_isa\<close>; an anonymous symbol table has no name.\<close>

definition mro_get_linear_isa :: "pkg option \<Rightarrow> interp \<Rightarrow> pkg list result \<times> interp" where
  "mro_get_linear_isa stash s =
     (case stash of None \<Rightarrow> (Inl Anonymous_stash, s) | Some nm \<Rightarrow> linear_isa_c3 nm 0 s)"

section \<open>Invalidation\<close>

definition UNIVERSAL :: pkg where
  "UNIVERSAL = map of_char ''UNIVERSAL''"

definition isarev_keys :: "pkg \<Rightarrow> interp \<Rightarrow> pkg list" where
  "isarev_keys nm s = (case PL_isarev s nm of None \<Rightarrow> [] | Some ks \<Rightarrow> ks)"

definition is_universal :: "pkg \<Rightarrow> interp \<Rightarrow> bool" where
  "is_universal nm s \<longleftrightarrow> nm = UNIVERSAL \<or> UNIVERSAL \<in> set (isarev_keys nm s)"

definition hv_clear :: "(pkg \<rightharpoonup> nat) option \<Rightarrow> (pkg \<rightharpoonup> nat) option" where
  "hv_clear h = map_option (\<lambda>x. Map.empty) h"

text \<open>\<open>hv_store\<close> of \<open>PL_sv_yes\<close> under a name in the reverse index of a class.\<close>

definition isarev_store :: "pkg \<Rightarrow> pkg \<Rightarrow> interp \<Rightarrow> interp" where
  "isarev_store p c s =
     (let ks = isarev_keys p s
      in s\<lparr>PL_isarev := (PL_isarev s)(p \<mapsto> (if c \<in> set ks then ks else ks @ [c]))\<rparr>)"

definition wipe_child :: "bool \<Rightarrow> pkg \<Rightarrow> interp \<Rightarrow> interp" where
  "wipe_child is_univ revkey = with_meta revkey (\<lambda>m.
     m\<lparr>mro_linear_c3 := None, cache_gen := (if is_univ then cache_gen m else cache_gen m + 1),
       mro_nextmethod := hv_clear (mro_nextmethod m)\<rparr>)"

definition mro_isa_changed_in :: "pkg option \<Rightarrow> interp \<Rightarrow> unit result \<times> interp" where
  "mro_isa_changed_in stash s =
     (case stash of
        None \<Rightarrow> (Inl Anonymous_stash, s)
      | Some nm \<Rightarrow>
        (let isarev = isarev_keys nm s;
             univ = is_universal nm s;
             s = with_meta nm (\<lambda>m. m\<lparr>mro_linear_c3 := None, pkg_gen := pkg_gen m + 1\<rparr>) s;
             s = (if univ then s\<lparr>PL_sub_generation := PL_sub_generation s + 1\<rparr>
                  else with_meta nm (\<lambda>m. m\<lparr>cache_gen := cache_gen m + 1\<rparr>) s);
             s = with_meta nm (\<lambda>m. m\<lparr>mro_nextmethod := hv_clear (mro_nextmethod m)\<rparr>) s;
             s = fold (wipe_child univ) isarev s
         in case mro_get_linear_isa (Some nm) s of
              (Inl e, s) \<Rightarrow> (Inl e, s)
            | (Inr linear_mro, s) \<Rightarrow>
                (Inr (), fold (\<lambda>p s. fold (isarev_store p) isarev (isarev_store p nm s)) (tl linear_mro) s)))"

definition mro_method_changed_in :: "pkg option \<Rightarrow> interp \<Rightarrow> unit result \<times> interp" where
  "mro_method_changed_in stash s =
     (case stash of
        None \<Rightarrow> (Inl Anonymous_stash, s)
      | Some nm \<Rightarrow>
        (let s = with_meta nm (\<lambda>m. m\<lparr>pkg_gen := pkg_gen m + 1\<rparr>) s
         in if is_universal nm s then (Inr (), s\<lparr>PL_sub_generation := PL_sub_generation s + 1\<rparr>)
            else (Inr (), fold (\<lambda>revkey. with_meta revkey (\<lambda>m.
                   m\<lparr>cache_gen := cache_gen m + 1, mro_nextmethod := hv_clear (mro_nextmethod m)\<rparr>))
                 (isarev_keys nm s) s)))"

section \<open>The functions of package mro\<close>

definition XS_mro_get_linear_isa :: "pkg list \<Rightarrow> interp \<Rightarrow> pkg list result \<times> interp" where
  "XS_mro_get_linear_isa args s =
     (if length args < 1 \<or> length args > 2
      then (Inl (Usage ''mro::get_linear_isa(classname [, type ])''), s)
      else let classname = hd args
           in if stashes s classname = None then (Inr [classname], s)
              else mro_get_linear_isa (Some classname) s)"

definition XS_mro_get_isarev :: "pkg list \<Rightarrow> interp \<Rightarrow> pkg list result" where
  "XS_mro_get_isarev args s =
     (if length args \<noteq> 1 then Inl (Usage ''mro::get_isarev(classname)'')
      else Inr (isarev_keys (hd args) s))"

definition XS_mro_is_universal :: "pkg list \<Rightarrow> interp \<Rightarrow> bool result" where
  "XS_mro_is_universal args s =
     (if length args \<noteq> 1 then Inl (Usage ''mro::is_universal(classname)'')
      else Inr (is_universal (hd args) s))"

definition XS_mro_invalidate_method_caches :: "pkg list \<Rightarrow> interp \<Rightarrow> unit result \<times> interp" where
  "XS_mro_invalidate_method_caches args s =
     (if length args \<noteq> 0 then (Inl (Usage ''mro::invalidate_all_method_caches()''), s)
      else (Inr (), s\<lparr>PL_sub_generation := PL_sub_generation s + 1\<rparr>))"

definition XS_mro_method_changed_in :: "pkg list \<Rightarrow> interp \<Rightarrow> unit result \<times> interp" where
  "XS_mro_method_changed_in args s =
     (if length args \<noteq> 1 then (Inl (Usage ''mro::method_changed_in(classname)''), s)
      else if stashes s (hd args) = None then (Inl (No_such_class (hd args)), s)
      else mro_method_changed_in (Some (hd args)) s)"

definition XS_mro_get_pkg_gen :: "pkg list \<Rightarrow> interp \<Rightarrow> u32 result" where
  "XS_mro_get_pkg_gen args s =
     (if length args \<noteq> 1 then Inl (Usage ''mro::get_pkg_gen(classname)'')
      else Inr (case stashes s (hd args) of None \<Rightarrow> 0 | Some st \<Rightarrow> pkg_gen (HvMROMETA st)))"

section \<open>The linearization that the arrays define\<close>

text \<open>
  By recursion on a depth: the C3 merge of the parents' linearizations and the list of the
  parents, with no cache.
\<close>

type_synonym isa_graph = "pkg \<Rightarrow> isa_var option"

definition graph :: "interp \<Rightarrow> isa_graph" where
  "graph s = (\<lambda>nm. map_option st_isa (stashes s nm))"

fun c3_ref :: "isa_graph \<Rightarrow> nat \<Rightarrow> pkg \<Rightarrow> pkg list option" where
  "c3_ref g 0 nm = (if g nm = None then Some [nm] else None)"
| "c3_ref g (Suc d) nm =
     (case g nm of
        None \<Rightarrow> Some [nm]
      | Some No_isa \<Rightarrow> Some [nm]
      | Some Not_array \<Rightarrow> None
      | Some (Isa items) \<Rightarrow>
          if items = [] then Some [nm]
          else if Not_plain \<in> set items then None
          else (case those (map (\<lambda>i. c3_ref g d (plain i)) items) of
              None \<Rightarrow> None
            | Some ss \<Rightarrow>
                (case merge_ref nm (ss @ [map plain items]) of Inl e \<Rightarrow> None | Inr l \<Rightarrow> Some (nm # l))))"

definition linearizes :: "isa_graph \<Rightarrow> pkg \<Rightarrow> pkg list \<Rightarrow> bool" where
  "linearizes g nm l \<longleftrightarrow> (\<exists>d. c3_ref g d nm = Some l)"

lemma those_Some_iff: "those xs = Some ys \<longleftrightarrow> xs = map Some ys"
proof (induction xs arbitrary: ys)
  case (Cons x xs)
  then show ?case by (cases x; cases ys) auto
qed auto

lemma those_map_Some [simp]: "those (map Some ys) = Some ys"
  by (simp add: those_Some_iff)

lemma map_Some_mono_in:
  "map f xs = map Some ys \<Longrightarrow> (\<And>x y. x \<in> set xs \<Longrightarrow> f x = Some y \<Longrightarrow> f' x = Some y) \<Longrightarrow>
   map f' xs = map Some ys"
  by (induction xs arbitrary: ys) (auto simp: Cons_eq_map_conv)

lemma map_Some_mono:
  "map f xs = map Some ys \<Longrightarrow> (\<And>x y. f x = Some y \<Longrightarrow> f' x = Some y) \<Longrightarrow> map f' xs = map Some ys"
  by (rule map_Some_mono_in)

lemma c3_ref_Suc: "c3_ref g d nm = Some l \<Longrightarrow> c3_ref g (Suc d) nm = Some l"
proof (induction d arbitrary: nm l)
  case 0
  then show ?case by (simp split: if_splits)
next
  case (Suc d)
  have "map (\<lambda>i. c3_ref g (Suc d) (plain i)) items = map Some ss"
    if "map (\<lambda>i. c3_ref g d (plain i)) items = map Some ss" for items ss
    using that by (rule map_Some_mono) (rule Suc.IH)
  with Suc.prems show ?case
    by (auto simp: those_Some_iff split: option.splits isa_var.splits if_splits simp del: c3_ref.simps(2)
        simp add: c3_ref.simps(2)[of g d nm] c3_ref.simps(2)[of g "Suc d" nm])
qed

lemma c3_ref_mono: "c3_ref g d nm = Some l \<Longrightarrow> d \<le> d' \<Longrightarrow> c3_ref g d' nm = Some l"
proof (induction d')
  case (Suc d')
  then show ?case by (cases "d = Suc d'") (auto intro: c3_ref_Suc simp del: c3_ref.simps)
qed simp

lemma linearizes_unique: "linearizes g nm l \<Longrightarrow> linearizes g nm l' \<Longrightarrow> l = l'"
  unfolding linearizes_def by (metis c3_ref_mono nat_le_linear option.inject)

lemma c3_ref_hd: "c3_ref g d nm = Some l \<Longrightarrow> \<exists>l'. l = nm # l'"
  by (cases d) (auto split: if_splits option.splits isa_var.splits sum.splits)

lemma linearizes_list:
  "list_all2 (linearizes g) ps ss \<Longrightarrow> \<exists>d. map (c3_ref g d) ps = map Some ss"
proof (induction rule: list_all2_induct)
  case (Cons p ps l ss)
  then obtain d1 d2 where "c3_ref g d1 p = Some l" "map (c3_ref g d2) ps = map Some ss"
    by (auto simp: linearizes_def)
  moreover have "map (c3_ref g (max d1 d2)) ps = map Some ss"
    using \<open>map (c3_ref g d2) ps = map Some ss\<close> by (rule map_Some_mono) (erule c3_ref_mono, simp)
  moreover have "c3_ref g (max d1 d2) p = Some l"
    using \<open>c3_ref g d1 p = Some l\<close> by (rule c3_ref_mono) simp
  ultimately show ?case by (metis list.simps(9))
qed simp

section \<open>Caches\<close>

definition cache :: "interp \<Rightarrow> pkg \<Rightarrow> pkg list option" where
  "cache s nm = (case stashes s nm of None \<Rightarrow> None | Some st \<Rightarrow> mro_linear_c3 (HvMROMETA st))"

text \<open>Every cached linearization is the one the arrays define now.\<close>

definition cache_ok :: "interp \<Rightarrow> bool" where
  "cache_ok s \<longleftrightarrow> (\<forall>nm l. cache s nm = Some l \<longrightarrow> linearizes (graph s) nm l)"

lemma graph_with_meta [simp]: "graph (with_meta nm f s) = graph s"
  by (auto simp: graph_def with_meta_def split: option.split)

lemma isarev_with_meta [simp]:
  "PL_isarev (with_meta nm f s) = PL_isarev s" "isarev_keys p (with_meta nm f s) = isarev_keys p s"
  "PL_sub_generation (with_meta nm f s) = PL_sub_generation s"
  by (auto simp: with_meta_def isarev_keys_def split: option.split)

lemma dom_with_meta [simp]: "stashes (with_meta nm f s) p = None \<longleftrightarrow> stashes s p = None"
  by (auto simp: with_meta_def split: option.split)

lemma cache_with_meta:
  "cache (with_meta nm f s) p =
     (if p = nm then (case stashes s nm of None \<Rightarrow> None | Some st \<Rightarrow> mro_linear_c3 (f (HvMROMETA st))) else cache s p)"
  by (auto simp: cache_def with_meta_def HvMROMETA_def split: option.split)

lemma cache_set_linear:
  "cache (set_linear nm l s) p = (if p = nm \<and> stashes s nm \<noteq> None then Some l else cache s p)"
  unfolding set_linear_def cache_with_meta by (auto simp: cache_def split: option.split)

lemma cache_ok_set_linear: "cache_ok s \<Longrightarrow> linearizes (graph s) nm l \<Longrightarrow> cache_ok (set_linear nm l s)"
  by (auto simp: cache_ok_def cache_set_linear) (simp_all add: set_linear_def)

lemma graph_set_linear [simp]: "graph (set_linear nm l s) = graph s"
  by (simp add: set_linear_def)

text \<open>What computing a linearization leaves.\<close>

definition only_caches :: "interp \<Rightarrow> interp \<Rightarrow> bool" where
  "only_caches s s' \<longleftrightarrow> graph s' = graph s \<and> PL_isarev s' = PL_isarev s \<and>
     PL_sub_generation s' = PL_sub_generation s \<and> cache_ok s'"

text \<open>
  What is to be shown of the two functions: a result is the linearization of the arrays, and up to
  the depth that is left there is a result whenever the arrays define one.
\<close>

definition linear_spec :: "interp \<Rightarrow> pkg \<Rightarrow> nat \<Rightarrow> pkg list result \<Rightarrow> interp \<Rightarrow> bool" where
  "linear_spec s nm level r s' \<longleftrightarrow>
     only_caches s s' \<and> (\<forall>l. r = Inr l \<longrightarrow> linearizes (graph s) nm l) \<and>
     (\<forall>l. level \<le> 100 \<longrightarrow> graph s nm \<noteq> None \<longrightarrow> c3_ref (graph s) (101 - level) nm = Some l \<longrightarrow> r = Inr l)"

definition seqs_spec :: "interp \<Rightarrow> isa_elem list \<Rightarrow> nat \<Rightarrow> pkg list list result \<Rightarrow> interp \<Rightarrow> bool" where
  "seqs_spec s items level rs s' \<longleftrightarrow>
     only_caches s s' \<and>
     (\<forall>ss. rs = Inr ss \<longrightarrow> Not_plain \<notin> set items \<and> list_all2 (linearizes (graph s)) (map plain items) ss) \<and>
     (\<forall>ss. level \<le> 100 \<longrightarrow> Not_plain \<notin> set items \<longrightarrow>
        map (\<lambda>i. c3_ref (graph s) (100 - level) (plain i)) items = map Some ss \<longrightarrow> rs = Inr ss)"

text \<open>A class whose parents' linearizations are known.\<close>

lemma linear_of_parents:
  assumes g: "graph s nm = Some (Isa items)" "items \<noteq> []" "Not_plain \<notin> set items"
    and all2: "list_all2 (linearizes (graph s)) (map plain items) ss"
  shows "c3_merge nm (ss @ [map plain items]) =
      (case merge_ref nm (ss @ [map plain items]) of Inl e \<Rightarrow> Inl e | Inr l \<Rightarrow> Inr (nm # l))"
    and "linearizes (graph s) nm l \<longleftrightarrow> c3_merge nm (ss @ [map plain items]) = Inr l"
proof -
  obtain d where d: "map (\<lambda>i. c3_ref (graph s) d (plain i)) items = map Some ss"
    using linearizes_list[OF all2] by (auto simp: comp_def)
  have "\<forall>x \<in> set ss. x \<noteq> []"
  proof
    fix x assume "x \<in> set ss"
    then obtain i where "c3_ref (graph s) d i = Some x" using d
      by (metis (mono_tags, lifting) in_set_conv_nth length_map nth_map)
    then show "x \<noteq> []" using c3_ref_hd by blast
  qed
  then show merge: "c3_merge nm (ss @ [map plain items]) =
      (case merge_ref nm (ss @ [map plain items]) of Inl e \<Rightarrow> Inl e | Inr l \<Rightarrow> Inr (nm # l))"
    using g(2) by (intro c3_merge_ref) auto
  have ref: "c3_ref (graph s) (Suc d) nm = (case merge_ref nm (ss @ [map plain items]) of Inl e \<Rightarrow> None | Inr l \<Rightarrow> Some (nm # l))"
    using g d by simp
  have "linearizes (graph s) nm l \<longleftrightarrow> c3_ref (graph s) (Suc d) nm = Some l"
  proof
    assume "linearizes (graph s) nm l"
    then obtain d' where d': "c3_ref (graph s) (Suc d') nm = Some l"
      unfolding linearizes_def by (metis c3_ref_Suc)
    then obtain ss' where ss': "map (\<lambda>i. c3_ref (graph s) d' (plain i)) items = map Some ss'"
      using g by (auto simp: those_Some_iff split: option.splits)
    have up: "map (\<lambda>i. c3_ref (graph s) (max d d') (plain i)) items = map Some ss"
      "map (\<lambda>i. c3_ref (graph s) (max d d') (plain i)) items = map Some ss'"
      using map_Some_mono[OF d] map_Some_mono[OF ss'] c3_ref_mono[of "graph s"] by (meson max.cobounded1 max.cobounded2)+
    then have "map Some ss = map Some ss'" by simp
    then have "ss = ss'" by simp
    with d' ss' ref g show "c3_ref (graph s) (Suc d) nm = Some l" by simp
  qed (unfold linearizes_def, blast)
  then show "linearizes (graph s) nm l \<longleftrightarrow> c3_merge nm (ss @ [map plain items]) = Inr l"
    using ref merge by (auto split: sum.split)
qed

lemma linear_spec_node:
  assumes g: "graph s nm = Some (Isa items)" "items \<noteq> []" and lev: "\<not> level > 100"
    and seqs: "seqs_spec s items level rs s1"
    and r: "(case rs of Inl e \<Rightarrow> (Inl e, s1)
      | Inr ss \<Rightarrow> (case c3_merge nm (ss @ [map plain items]) of Inl e \<Rightarrow> (Inl e, s1) | Inr l \<Rightarrow> (Inr l, set_linear nm l s1))) = (r, s')"
  shows "linear_spec s nm level r s'"
proof -
  have lev': "101 - level = Suc (100 - level)" using lev by simp
  have parents: "\<exists>ss. rs = Inr ss" if ref: "c3_ref (graph s) (101 - level) nm = Some l" for l
  proof -
    have "Not_plain \<notin> set items" using ref g lev' by (auto split: if_splits)
    moreover obtain ss where "map (\<lambda>i. c3_ref (graph s) (100 - level) (plain i)) items = map Some ss"
      using ref g lev' by (auto simp: those_Some_iff split: option.splits if_splits)
    ultimately show ?thesis using seqs lev by (auto simp: seqs_spec_def)
  qed
  have ok1: "only_caches s s1" using seqs by (simp add: seqs_spec_def)
  show ?thesis
  proof (cases rs)
    case (Inl e)
    with r ok1 parents show ?thesis by (auto simp: linear_spec_def)
  next
    case (Inr ss)
    then have all2: "Not_plain \<notin> set items" "list_all2 (linearizes (graph s)) (map plain items) ss"
      using seqs by (simp_all add: seqs_spec_def)
    note lin = linear_of_parents(2)[OF g all2]
    have ref: "c3_merge nm (ss @ [map plain items]) = Inr l" if "c3_ref (graph s) (101 - level) nm = Some l" for l
      using that lin[of l] unfolding linearizes_def by blast
    show ?thesis
    proof (cases "c3_merge nm (ss @ [map plain items])")
      case (Inl e)
      with r Inr ok1 ref show ?thesis by (auto simp: linear_spec_def)
    next
      case (Inr l)
      then have r': "r = Inr l" "s' = set_linear nm l s1" using r \<open>rs = Inr ss\<close> by simp_all
      have "linearizes (graph s) nm l" using lin[of l] Inr by simp
      moreover have "only_caches s s'"
        using ok1 cache_ok_set_linear[of s1 nm l] calculation r'(2) by (simp add: only_caches_def set_linear_def)
      ultimately show ?thesis using r'(1) ref Inr by (auto simp: linear_spec_def)
    qed
  qed
qed

lemma linear_spec_leaf:
  assumes ok: "cache_ok s" and g: "graph s nm = Some No_isa \<or> graph s nm = Some (Isa [])" and lev: "\<not> level > 100"
  shows "linear_spec s nm level (Inr [nm]) (set_linear nm [nm] s)"
proof -
  have ref: "c3_ref (graph s) (Suc d) nm = Some [nm]" for d using g by auto
  then have lin: "linearizes (graph s) nm [nm]" unfolding linearizes_def by blast
  have "101 - level = Suc (100 - level)" using lev by simp
  with ref lin cache_ok_set_linear[OF ok lin] show ?thesis
    by (simp add: linear_spec_def only_caches_def) (simp add: set_linear_def)
qed

lemma linear_isa_correct:
  "cache_ok s \<Longrightarrow> linear_isa_c3 nm level s = (r, s') \<Longrightarrow> linear_spec s nm level r s'"
  "cache_ok s \<Longrightarrow> isa_seqs items level s = (rs, s') \<Longrightarrow> seqs_spec s items level rs s'"
proof (induction nm level s and items level s arbitrary: r s' and rs s' rule: linear_isa_c3_isa_seqs.induct)
  case (1 nm level s)
  note run = "1.prems"(2)[unfolded linear_isa_c3.simps]
  have same: "only_caches s s" using "1.prems"(1) by (simp add: only_caches_def)
  show ?case
  proof (cases "level > 100 \<or> stashes s nm = None")
    case True
    then show ?thesis using run same by (auto simp: graph_def linear_spec_def split: if_splits)
  next
    case False
    then obtain st where st: "stashes s nm = Some st" "\<not> level > 100" by auto
    then have g: "graph s nm = Some (st_isa st)" by (simp add: graph_def)
    show ?thesis
    proof (cases "mro_linear_c3 (HvMROMETA st)")
      case (Some l)
      then have "r = Inr l" "s' = s" using run st by simp_all
      moreover have "linearizes (graph s) nm l" using "1.prems"(1) Some st by (simp add: cache_ok_def cache_def)
      moreover have "c3_ref (graph s) (101 - level) nm = Some l' \<Longrightarrow> l = l'" for l'
        using linearizes_unique calculation(3) unfolding linearizes_def by blast
      ultimately show ?thesis using same by (auto simp: linear_spec_def)
    next
      case None
      show ?thesis
      proof (cases "\<exists>items. st_isa st = Isa items \<and> items \<noteq> []")
        case False
        have "101 - level = Suc (100 - level)" using st(2) by simp
        with False show ?thesis using run st None g same linear_spec_leaf[OF "1.prems"(1), of nm level]
          by (cases "st_isa st") (auto simp: linear_spec_def)
      next
        case True
        then obtain items where items: "st_isa st = Isa items" "items \<noteq> []" by blast
        obtain rs s1 where seqs: "isa_seqs items level s = (rs, s1)" by force
        have "seqs_spec s items level rs s1" by (rule "1.IH"[OF st(2,1) None items "1.prems"(1) seqs])
        moreover have "(case rs of Inl e \<Rightarrow> (Inl e, s1)
          | Inr ss \<Rightarrow> (case c3_merge nm (ss @ [map plain items]) of Inl e \<Rightarrow> (Inl e, s1) | Inr l \<Rightarrow> (Inr l, set_linear nm l s1)))
            = (r, s')"
          using run st None items seqs by (simp split: sum.splits)
        ultimately show ?thesis by (rule linear_spec_node[OF g[unfolded items(1)] items(2) st(2)])
      qed
    qed
  qed
next
  case (2 level s)
  then show ?case by (auto simp: only_caches_def linear_isa_c3.simps seqs_spec_def)
next
  case (3 item items level s)
  have same: "only_caches s s" using "3.prems"(1) by (simp add: only_caches_def)
  show ?case
  proof (cases item)
    case Not_plain
    then show ?thesis using "3.prems"(2) same by (auto simp: seqs_spec_def)
  next
    case (Plain p)
    obtain r1 s1 where 1: "(if stashes s p = None then (Inr [p], s) else linear_isa_c3 p (level + 1) s) = (r1, s1)" by force
    have one: "only_caches s s1" "\<And>l. r1 = Inr l \<Longrightarrow> linearizes (graph s) p l"
      "\<And>l. level \<le> 100 \<Longrightarrow> c3_ref (graph s) (100 - level) p = Some l \<Longrightarrow> r1 = Inr l"
    proof -
      have "only_caches s s1 \<and> (\<forall>l. r1 = Inr l \<longrightarrow> linearizes (graph s) p l) \<and>
        (\<forall>l. level \<le> 100 \<longrightarrow> c3_ref (graph s) (100 - level) p = Some l \<longrightarrow> r1 = Inr l)"
      proof (cases "stashes s p = None")
        case True
        then have "c3_ref (graph s) d p = Some [p]" for d by (cases d) (simp_all add: graph_def)
        with True 1 same show ?thesis by (auto simp: linearizes_def)
      next
        case False
        have "linear_isa_c3 p (level + 1) s = (r1, s1)" by (rule 1[unfolded if_not_P[OF False]])
        then have "linear_spec s p (level + 1) r1 s1" by (rule "3.IH"(1)[OF Plain False "3.prems"(1)])
        moreover have "c3_ref (graph s) (100 - level) p \<noteq> Some l" if "\<not> level + 1 \<le> 100" "level \<le> 100" for l
          using that False by (auto simp: graph_def)
        ultimately show ?thesis using False by (auto simp: linear_spec_def graph_def)
      qed
      then show "only_caches s s1" "\<And>l. r1 = Inr l \<Longrightarrow> linearizes (graph s) p l"
        "\<And>l. level \<le> 100 \<Longrightarrow> c3_ref (graph s) (100 - level) p = Some l \<Longrightarrow> r1 = Inr l" by blast+
    qed
    have g1: "graph s1 = graph s" "cache_ok s1" using one(1) by (simp_all add: only_caches_def)
    show ?thesis
    proof (cases r1)
      case (Inl e)
      with one(1,3) "3.prems"(2) Plain 1 show ?thesis by (auto simp: seqs_spec_def)
    next
      case (Inr l)
      obtain rs2 s2 where 2: "isa_seqs items level s1 = (rs2, s2)" by force
      have seqs: "seqs_spec s1 items level rs2 s2"
        by (rule "3.IH"(2)[OF Plain 1[symmetric] Inr g1(2) 2])
      have r: "(rs, s') = (case rs2 of Inl e \<Rightarrow> (Inl e, s2) | Inr ss \<Rightarrow> (Inr (l # ss), s2))"
        using "3.prems"(2)[symmetric] Plain 1 2 Inr by (cases rs2) simp_all
      show ?thesis
      proof (cases rs2)
        case (Inl e)
        with r seqs one \<open>r1 = Inr l\<close> g1 Plain show ?thesis by (auto simp: seqs_spec_def only_caches_def)
      next
        case (Inr ss)
        with r seqs one \<open>r1 = Inr l\<close> g1 Plain show ?thesis by (auto simp: seqs_spec_def only_caches_def)
      qed
    qed
  qed
qed

section \<open>Ancestors\<close>

definition isa_edges :: "isa_graph \<Rightarrow> (pkg \<times> pkg) set" where
  "isa_edges g = {(c, p). \<exists>items. g c = Some (Isa items) \<and> Plain p \<in> set items}"

text \<open>A linearization holds the class and its ancestors; a class is never its own ancestor.\<close>

lemma c3_ref_cases:
  assumes "c3_ref g d nm = Some l"
  obtains (leaf) "l = [nm]" "g nm = None \<or> d \<noteq> 0 \<and> (g nm = Some No_isa \<or> g nm = Some (Isa []))"
  | (node) items ss l' d' where "d = Suc d'" "g nm = Some (Isa items)" "Not_plain \<notin> set items"
      "map (\<lambda>i. c3_ref g d' (plain i)) items = map Some ss"
      "merge_ref nm (ss @ [map plain items]) = Inr l'" "l = nm # l'" "items \<noteq> []"
proof (cases d)
  case 0
  with assms leaf show ?thesis by (auto split: if_splits)
next
  case (Suc d')
  with assms leaf node show ?thesis
    by (auto simp: those_Some_iff split: option.splits isa_var.splits if_splits sum.splits)
qed

lemma edge_item:
  "(nm, p) \<in> isa_edges g \<Longrightarrow> g nm = Some (Isa items) \<Longrightarrow> Plain p \<in> set items"
  by (auto simp: isa_edges_def)

lemma plain_item: "i \<in> set items \<Longrightarrow> Not_plain \<notin> set items \<Longrightarrow> i = Plain (plain i)"
  by (cases i) auto

lemma c3_ref_parent:
  assumes "c3_ref g d nm = Some l" "(nm, p) \<in> isa_edges g"
  shows "\<exists>d' l'. d = Suc d' \<and> c3_ref g d' p = Some l'"
  using assms(1)
proof (cases rule: c3_ref_cases)
  case leaf
  with assms(2) show ?thesis by (auto simp: isa_edges_def)
next
  case (node items ss l' d')
  have "Plain p \<in> set items" using edge_item[OF assms(2) node(2)] .
  then obtain i where "i < length items" "items ! i = Plain p" by (auto simp: in_set_conv_nth)
  then have "c3_ref g d' p = Some (ss ! i)" using node(4) by (metis length_map nth_map plain.simps(1))
  with node(1) show ?thesis by blast
qed

lemma c3_ref_ancestor:
  "(nm, p) \<in> (isa_edges g)\<^sup>+ \<Longrightarrow> c3_ref g d nm = Some l \<Longrightarrow> \<exists>d' < d. \<exists>l'. c3_ref g d' p = Some l'"
proof (induction arbitrary: d l rule: trancl_induct)
  case (base p)
  then show ?case using c3_ref_parent by blast
next
  case (step p q)
  then obtain d1 l1 where "d1 < d" "c3_ref g d1 p = Some l1" by blast
  with c3_ref_parent[OF this(2) step(2)] show ?case by (metis Suc_lessD less_trans lessI)
qed

lemma linearizes_acyclic: "linearizes g nm l \<Longrightarrow> (nm, nm) \<notin> (isa_edges g)\<^sup>+"
proof
  assume a: "linearizes g nm l" "(nm, nm) \<in> (isa_edges g)\<^sup>+"
  define d where "d = (LEAST d. \<exists>l. c3_ref g d nm = Some l)"
  have "\<exists>l. c3_ref g d nm = Some l" unfolding d_def using a(1) by (auto simp: linearizes_def intro: LeastI2)
  then obtain d' where "d' < d" "\<exists>l. c3_ref g d' nm = Some l" using c3_ref_ancestor[OF a(2)] by blast
  then show False unfolding d_def using not_less_Least by blast
qed

lemma set_c3_ref: "c3_ref g d nm = Some l \<Longrightarrow> l = nm # tl l \<and> set (tl l) = {p. (nm, p) \<in> (isa_edges g)\<^sup>+}"
proof (induction d arbitrary: nm l rule: less_induct)
  case (less d)
  from less.prems show ?case
  proof (cases rule: c3_ref_cases)
    case leaf
    then have "(nm, p) \<notin> isa_edges g" for p by (auto simp: isa_edges_def)
    then show ?thesis using leaf(1) by (auto dest: tranclD)
  next
    case (node items ss l' d')
    have len: "length ss = length items" using node(4) by (metis length_map)
    have parent: "p \<in> set (ss ! i) \<longleftrightarrow> (plain (items ! i), p) \<in> (isa_edges g)\<^sup>*"
      "(nm, plain (items ! i)) \<in> isa_edges g" if "i < length items" for i p
    proof -
      have "c3_ref g d' (plain (items ! i)) = Some (ss ! i)" using node(4) that len by (metis length_map nth_map)
      then have e: "ss ! i = plain (items ! i) # tl (ss ! i)"
          "set (tl (ss ! i)) = {p. (plain (items ! i), p) \<in> (isa_edges g)\<^sup>+}"
        using less.IH[of d'] node(1) by simp_all
      have "set (ss ! i) = insert (plain (items ! i)) (set (tl (ss ! i)))" by (subst e(1)) (rule list.simps)
      then show "p \<in> set (ss ! i) \<longleftrightarrow> (plain (items ! i), p) \<in> (isa_edges g)\<^sup>*"
        unfolding e(2) by (auto simp: rtrancl_eq_or_trancl)
      show "(nm, plain (items ! i)) \<in> isa_edges g"
        using node(2,3) that plain_item[OF nth_mem[OF that]] nth_mem[OF that] by (auto simp: isa_edges_def)
    qed
    have l': "set l' = (\<Union>s \<in> set ss. set s) \<union> plain ` set items" using merge_ref_order[OF node(5)] by auto
    have "p \<in> set l' \<longleftrightarrow> (nm, p) \<in> (isa_edges g)\<^sup>+" for p
    proof
      assume "p \<in> set l'"
      then have "(\<exists>s \<in> set ss. p \<in> set s) \<or> (\<exists>i \<in> set items. p = plain i)" unfolding l' by auto
      then obtain i where i: "i < length items" "p \<in> set (ss ! i) \<or> p = plain (items ! i)"
        using len by (metis in_set_conv_nth)
      then have "(plain (items ! i), p) \<in> (isa_edges g)\<^sup>*" using parent(1)[OF i(1)] by auto
      with parent(2)[OF i(1)] show "(nm, p) \<in> (isa_edges g)\<^sup>+" by (meson rtrancl_into_trancl2)
    next
      assume "(nm, p) \<in> (isa_edges g)\<^sup>+"
      then obtain q where q: "(nm, q) \<in> isa_edges g" "(q, p) \<in> (isa_edges g)\<^sup>*" by (meson tranclD)
      obtain i where i: "i < length items" "plain (items ! i) = q"
        using edge_item[OF q(1) node(2)] by (metis in_set_conv_nth plain.simps(1))
      then have "p \<in> set (ss ! i)" using parent(1)[OF i(1)] q(2) by simp
      then show "p \<in> set l'" unfolding l' using i(1) len by auto
    qed
    then show ?thesis using node(6) by auto
  qed
qed

lemma set_tl_linearizes: "linearizes g nm l \<Longrightarrow> set (tl l) = {p. (nm, p) \<in> (isa_edges g)\<^sup>+}"
  using set_c3_ref unfolding linearizes_def by blast

text \<open>The linearization of a class depends on the arrays of the class and its ancestors only.\<close>

lemma c3_ref_agree:
  "(\<And>p. (nm, p) \<in> (isa_edges g)\<^sup>* \<Longrightarrow> g' p = g p) \<Longrightarrow> c3_ref g d nm = Some l \<Longrightarrow> c3_ref g' d nm = Some l"
proof (induction d arbitrary: nm l rule: less_induct)
  case (less d)
  have g': "g' nm = g nm" by (rule less.prems(1)) simp
  from less.prems(2) show ?case
  proof (cases rule: c3_ref_cases)
    case leaf
    then show ?thesis using g' by (cases d) auto
  next
    case (node items ss l' d')
    have "c3_ref g' d' (plain i) = Some y" if i: "i \<in> set items" "c3_ref g d' (plain i) = Some y" for i y
    proof (rule less.IH[of d'])
      have "(nm, plain i) \<in> isa_edges g" using node(2) i(1) plain_item[OF i(1) node(3)] by (auto simp: isa_edges_def)
      then show "(plain i, p) \<in> (isa_edges g)\<^sup>* \<Longrightarrow> g' p = g p" for p
        using less.prems(1) by (meson converse_rtrancl_into_rtrancl)
    qed (use node(1) i(2) in simp_all)
    then have "map (\<lambda>i. c3_ref g' d' (plain i)) items = map Some ss"
      by (rule map_Some_mono_in[OF node(4)])
    then show ?thesis using node g' less.prems(2) by (cases "items = []") auto
  qed
qed

end
