(* ===== verification/Mro_State.thy ===== *)
theory Mro_State
  imports Mro_Cache
begin

text \<open>
  The interpreter's method resolution as a state machine: packages are made, \<open>@ISA\<close> arrays are
  assigned (each assignment followed by \<open>mro_isa_changed_in\<close>, as the magic of \<open>@ISA\<close> does),
  linearizations are asked for and methods change. The invariant is that every cached
  linearization is current and that the reverse index holds every class below a class. The last
  section shows the one way out of it: an assignment that dies.
\<close>

section \<open>Operations\<close>

definition new_package :: "pkg \<Rightarrow> interp \<Rightarrow> interp" where
  "new_package nm s = s\<lparr>stashes := (stashes s)(nm \<mapsto> \<lparr>st_isa = No_isa, xhv_mro_meta = None\<rparr>)\<rparr>"

definition set_isa :: "pkg \<Rightarrow> isa_elem list \<Rightarrow> interp \<Rightarrow> interp" where
  "set_isa nm items s =
     s\<lparr>stashes := (stashes s)(nm \<mapsto>
        (case stashes s nm of
           None \<Rightarrow> \<lparr>st_isa = Isa items, xhv_mro_meta = None\<rparr>
         | Some st \<Rightarrow> st\<lparr>st_isa := Isa items\<rparr>))\<rparr>"

definition assign_isa :: "pkg \<Rightarrow> isa_elem list \<Rightarrow> interp \<Rightarrow> unit result \<times> interp" where
  "assign_isa nm items s = mro_isa_changed_in (Some nm) (set_isa nm items s)"

definition isarev_ok :: "interp \<Rightarrow> bool" where
  "isarev_ok s \<longleftrightarrow> (\<forall>c p. (c, p) \<in> (isa_edges (graph s))\<^sup>+ \<longrightarrow> c \<in> set (isarev_keys p s)) \<and>
     (\<forall>p. distinct (isarev_keys p s))"

definition mro_ok :: "interp \<Rightarrow> bool" where
  "mro_ok s \<longleftrightarrow> cache_ok s \<and> isarev_ok s"

section \<open>Invalidation wipes enough\<close>

lemma graph_set_isa: "graph (set_isa nm items s) = (graph s)(nm \<mapsto> Isa items)"
  by (auto simp: graph_def set_isa_def split: option.split)

lemma cache_set_isa: "cache (set_isa nm items s) p = cache s p"
  by (auto simp: cache_def set_isa_def HvMROMETA_def mro_meta_init_def split: option.split)

lemma isarev_set_isa [simp]: "isarev_keys p (set_isa nm items s) = isarev_keys p s"
  by (simp add: isarev_keys_def set_isa_def)

lemma graph_sub_generation [simp]:
  "graph (s\<lparr>PL_sub_generation := n\<rparr>) = graph s" "isarev_keys p (s\<lparr>PL_sub_generation := n\<rparr>) = isarev_keys p s"
  "cache (s\<lparr>PL_sub_generation := n\<rparr>) p = cache s p"
  by (simp_all add: graph_def isarev_keys_def cache_def)

text \<open>The caches after the class and the classes below it have been wiped.\<close>

definition wiped :: "pkg \<Rightarrow> interp \<Rightarrow> interp \<Rightarrow> bool" where
  "wiped nm s s' \<longleftrightarrow> graph s' = graph s \<and> (\<forall>p. isarev_keys p s' = isarev_keys p s) \<and>
     (\<forall>p. cache s' p = (if p = nm \<or> p \<in> set (isarev_keys nm s) then None else cache s p))"

lemma cache_with_meta_id:
  "(\<And>m. mro_linear_c3 (f m) = mro_linear_c3 m) \<Longrightarrow> cache (with_meta nm f s) p = cache s p"
  unfolding cache_with_meta by (auto simp: cache_def split: option.split)

lemma cache_with_meta_wipe:
  "(\<And>m. mro_linear_c3 (f m) = None) \<Longrightarrow> cache (with_meta nm f s) p = (if p = nm then None else cache s p)"
  unfolding cache_with_meta by (auto simp: cache_def split: option.split)

lemma wipe_child_simps:
  "graph (wipe_child u k s) = graph s" "isarev_keys q (wipe_child u k s) = isarev_keys q s"
  "cache (wipe_child u k s) p = (if p = k then None else cache s p)"
  by (simp_all add: wipe_child_def cache_with_meta_wipe)

lemma fold_wipe:
  "graph (fold (wipe_child u) ks s) = graph s" "isarev_keys q (fold (wipe_child u) ks s) = isarev_keys q s"
  "cache (fold (wipe_child u) ks s) p = (if p \<in> set ks then None else cache s p)"
  by (induction ks arbitrary: s) (auto simp: wipe_child_simps)

definition invalidate :: "pkg \<Rightarrow> interp \<Rightarrow> interp" where
  "invalidate nm s =
     (let isarev = isarev_keys nm s;
          univ = is_universal nm s;
          s = with_meta nm (\<lambda>m. m\<lparr>mro_linear_c3 := None, pkg_gen := pkg_gen m + 1\<rparr>) s;
          s = (if univ then s\<lparr>PL_sub_generation := PL_sub_generation s + 1\<rparr>
               else with_meta nm (\<lambda>m. m\<lparr>cache_gen := cache_gen m + 1\<rparr>) s);
          s = with_meta nm (\<lambda>m. m\<lparr>mro_nextmethod := hv_clear (mro_nextmethod m)\<rparr>) s
      in fold (wipe_child univ) isarev s)"

definition index_parents :: "pkg \<Rightarrow> pkg list \<Rightarrow> pkg list \<Rightarrow> interp \<Rightarrow> interp" where
  "index_parents nm isarev ps s = fold (\<lambda>p s. fold (isarev_store p) isarev (isarev_store p nm s)) ps s"

lemma mro_isa_changed_in_form:
  "mro_isa_changed_in (Some nm) s =
     (case linear_isa_c3 nm 0 (invalidate nm s) of
        (Inl e, s') \<Rightarrow> (Inl e, s')
      | (Inr l, s') \<Rightarrow> (Inr (), index_parents nm (isarev_keys nm s) (tl l) s'))"
  unfolding mro_isa_changed_in_def mro_get_linear_isa_def invalidate_def index_parents_def Let_def option.case
  by (rule refl)

lemma invalidate_wiped: "wiped nm s (invalidate nm s)"
  unfolding wiped_def invalidate_def Let_def
  by (auto simp: fold_wipe cache_with_meta_id cache_with_meta_wipe)

section \<open>The reverse index grows\<close>

lemma isarev_store_simps [simp]:
  "graph (isarev_store p c s) = graph s" "cache (isarev_store p c s) q = cache s q"
  by (simp_all add: isarev_store_def graph_def cache_def Let_def)

lemma isarev_store_keys:
  "set (isarev_keys q (isarev_store p c s)) = (if q = p then insert c (set (isarev_keys p s)) else set (isarev_keys q s))"
  by (auto simp: isarev_store_def isarev_keys_def Let_def)

lemma fold_isarev_store:
  "graph (fold (isarev_store p) ks s) = graph s" "cache (fold (isarev_store p) ks s) c = cache s c"
  "set (isarev_keys q (fold (isarev_store p) ks s)) =
     (if q = p then set ks \<union> set (isarev_keys p s) else set (isarev_keys q s))"
  by (induction ks arbitrary: s) (auto simp: isarev_store_keys)

lemma index_parents:
  "graph (index_parents nm ks ps s) = graph s" "cache (index_parents nm ks ps s) c = cache s c"
  "set (isarev_keys q (index_parents nm ks ps s)) =
     (if q \<in> set ps then insert nm (set ks) \<union> set (isarev_keys q s) else set (isarev_keys q s))"
  by (induction ps arbitrary: s) (auto simp: index_parents_def fold_isarev_store isarev_store_keys)

lemma isarev_store_distinct: "\<forall>q. distinct (isarev_keys q s) \<Longrightarrow> \<forall>q. distinct (isarev_keys q (isarev_store p c s))"
proof -
  assume d: "\<forall>q. distinct (isarev_keys q s)"
  have "isarev_keys q (isarev_store p c s) =
      (if q = p \<and> c \<notin> set (isarev_keys p s) then isarev_keys p s @ [c] else isarev_keys q s)" for q
    by (auto simp: isarev_store_def Let_def isarev_keys_def)
  with d show ?thesis by simp
qed

lemma fold_isarev_store_distinct:
  "\<forall>q. distinct (isarev_keys q s) \<Longrightarrow> \<forall>q. distinct (isarev_keys q (fold (isarev_store p) ks s))"
  by (induction ks arbitrary: s) (simp_all add: isarev_store_distinct)

lemma index_parents_distinct:
  "\<forall>q. distinct (isarev_keys q s) \<Longrightarrow> \<forall>q. distinct (isarev_keys q (index_parents nm ks ps s))"
  by (induction ps arbitrary: s)
    (simp_all add: index_parents_def isarev_store_distinct fold_isarev_store_distinct)

section \<open>The invariant\<close>

lemma edges_upd_mono: "(c, p) \<in> isa_edges (g(nm \<mapsto> x)) \<Longrightarrow> c \<noteq> nm \<Longrightarrow> (c, p) \<in> isa_edges g"
  by (auto simp: isa_edges_def)

text \<open>A path in the changed graph either avoids the changed class or passes through it.\<close>

lemma path_upd:
  assumes "\<And>c p. (c, p) \<in> E' \<Longrightarrow> c \<noteq> nm \<Longrightarrow> (c, p) \<in> E"
  shows "(c, p) \<in> E'\<^sup>+ \<Longrightarrow> (c, p) \<in> E\<^sup>+ \<or> (c = nm \<or> (c, nm) \<in> E\<^sup>+) \<and> (nm, p) \<in> E'\<^sup>+"
proof (induction rule: trancl_induct)
  case (base p)
  then show ?case using assms by (cases "c = nm") auto
next
  case (step p q)
  show ?case
  proof (cases "p = nm")
    case True
    with step show ?thesis by auto
  next
    case False
    then have "(p, q) \<in> E" using assms step(2) by blast
    with step show ?thesis by (meson trancl.trancl_into_trancl)
  qed
qed

lemma isa_change_keeps:
  assumes ok: "mro_ok s" and run: "assign_isa nm items s = (r, s')"
  shows "graph s' = (graph s)(nm \<mapsto> Isa items)" "cache_ok s'" "r = Inr () \<Longrightarrow> isarev_ok s'"
proof -
  define g' where "g' = (graph s)(nm \<mapsto> Isa items)"
  define s1 where "s1 = invalidate nm (set_isa nm items s)"
  have w: "graph s1 = g'" "\<And>p. isarev_keys p s1 = isarev_keys p s"
    "\<And>p. cache s1 p = (if p = nm \<or> p \<in> set (isarev_keys nm s) then None else cache s p)"
    using invalidate_wiped[of nm "set_isa nm items s"]
    by (simp_all add: wiped_def s1_def graph_set_isa g'_def cache_set_isa)
  have "cache_ok s1"
    unfolding cache_ok_def
  proof (intro allI impI)
    fix p l assume "cache s1 p = Some l"
    then have p: "p \<noteq> nm" "p \<notin> set (isarev_keys nm s)" "linearizes (graph s) p l"
      using ok by (auto simp: w(3) mro_ok_def cache_ok_def split: if_splits)
    have "g' q = graph s q" if "(p, q) \<in> (isa_edges (graph s))\<^sup>*" for q
      using that p ok by (auto simp: g'_def mro_ok_def isarev_ok_def rtrancl_eq_or_trancl)
    then show "linearizes (graph s1) p l"
      using p(3) c3_ref_agree unfolding w(1) linearizes_def by blast
  qed
  obtain r1 s2 where lin: "linear_isa_c3 nm 0 s1 = (r1, s2)" by force
  have spec: "linear_spec s1 nm 0 r1 s2" by (rule linear_isa_correct(1)[OF \<open>cache_ok s1\<close> lin])
  then have s2: "graph s2 = g'" "cache_ok s2" "\<And>p. isarev_keys p s2 = isarev_keys p s"
    using w(1,2) by (simp_all add: linear_spec_def only_caches_def isarev_keys_def)
  have res: "(r, s') = (case r1 of Inl e \<Rightarrow> (Inl e, s2) | Inr l \<Rightarrow> (Inr (), index_parents nm (isarev_keys nm s) (tl l) s2))"
    using run lin by (cases r1) (simp_all add: assign_isa_def mro_isa_changed_in_form s1_def[symmetric])
  show "graph s' = (graph s)(nm \<mapsto> Isa items)" "cache_ok s'"
    using res s2 by (cases r1; simp add: g'_def cache_ok_def index_parents)+
  assume "r = Inr ()"
  with res obtain l where l: "r1 = Inr l" "s' = index_parents nm (isarev_keys nm s) (tl l) s2" by (cases r1) auto
  have "linearizes g' nm l" using spec l(1) w(1) by (simp add: linear_spec_def)
  then have tl: "set (tl l) = {p. (nm, p) \<in> (isa_edges g')\<^sup>+}" by (rule set_tl_linearizes)
  show "isarev_ok s'"
    unfolding isarev_ok_def
  proof (intro conjI, intro allI impI)
    have "\<forall>p. distinct (isarev_keys p s2)" using ok by (simp add: s2(3) mro_ok_def isarev_ok_def)
    then show "\<forall>p. distinct (isarev_keys p s')" unfolding l(2) by (rule index_parents_distinct)
    fix c p assume "(c, p) \<in> (isa_edges (graph s'))\<^sup>+"
    then have "(c, p) \<in> (isa_edges g')\<^sup>+" by (simp add: l(2) index_parents s2(1))
    moreover have "(c, p) \<in> isa_edges g' \<Longrightarrow> c \<noteq> nm \<Longrightarrow> (c, p) \<in> isa_edges (graph s)" for c p
      unfolding g'_def by (rule edges_upd_mono)
    ultimately have "(c, p) \<in> (isa_edges (graph s))\<^sup>+ \<or>
        (c = nm \<or> (c, nm) \<in> (isa_edges (graph s))\<^sup>+) \<and> p \<in> set (tl l)"
      unfolding tl using path_upd[of "isa_edges g'" nm "isa_edges (graph s)" c p] by blast
    then show "c \<in> set (isarev_keys p s')"
      using ok unfolding l(2) mro_ok_def isarev_ok_def by (auto simp: index_parents s2(3))
  qed
qed

lemma c3_ref_new_package:
  "g nm = None \<Longrightarrow> c3_ref g d p = Some l \<Longrightarrow> c3_ref (g(nm \<mapsto> No_isa)) (Suc d) p = Some l"
proof (induction d arbitrary: p l)
  case 0
  then show ?case by (auto split: if_splits)
next
  case (Suc d)
  note new = Suc.IH[OF Suc.prems(1)]
  from Suc.prems(2) show ?case
  proof (cases rule: c3_ref_cases)
    case leaf
    then show ?thesis by auto
  next
    case (node items ss l' d')
    have "d' = d" using node(1) by simp
    have "map (\<lambda>i. c3_ref (g(nm \<mapsto> No_isa)) (Suc d) (plain i)) items = map Some ss"
      by (rule map_Some_mono[OF node(4)[unfolded \<open>d' = d\<close>]]) (rule new)
    moreover have "(g(nm \<mapsto> No_isa)) p = Some (Isa items)" using Suc.prems(1) node(2) by auto
    ultimately show ?thesis
      unfolding c3_ref.simps(2)[of "g(nm \<mapsto> No_isa)" "Suc d" p] using node(3,5-7) by simp
  qed
qed

lemma new_package_keeps:
  assumes ok: "mro_ok s" and new: "stashes s nm = None"
  shows "mro_ok (new_package nm s)"
proof -
  have g: "graph (new_package nm s) = (graph s)(nm \<mapsto> No_isa)" "graph s nm = None"
    using new by (auto simp: graph_def new_package_def)
  have "cache (new_package nm s) p = cache s p" for p
    using new by (auto simp: cache_def new_package_def HvMROMETA_def mro_meta_init_def)
  then have "cache_ok (new_package nm s)"
    using ok c3_ref_new_package[of "graph s" nm, OF g(2)] unfolding mro_ok_def cache_ok_def linearizes_def g(1) by metis
  moreover have "isa_edges (graph (new_package nm s)) = isa_edges (graph s)"
    using g by (auto simp: isa_edges_def split: if_splits)
  moreover have "isarev_keys p (new_package nm s) = isarev_keys p s" for p
    by (simp add: isarev_keys_def new_package_def)
  ultimately show ?thesis using ok by (simp add: mro_ok_def isarev_ok_def)
qed

lemma query_keeps: "mro_ok s \<Longrightarrow> linear_isa_c3 nm 0 s = (r, s') \<Longrightarrow> mro_ok s' \<and> graph s' = graph s"
  using linear_isa_correct(1)[of s nm 0 r s']
  by (auto simp: mro_ok_def linear_spec_def only_caches_def isarev_ok_def isarev_keys_def)

lemma fold_with_meta:
  "graph (fold (\<lambda>k. with_meta k f) ks s) = graph s" "isarev_keys q (fold (\<lambda>k. with_meta k f) ks s) = isarev_keys q s"
  "(\<And>m. mro_linear_c3 (f m) = mro_linear_c3 m) \<Longrightarrow> cache (fold (\<lambda>k. with_meta k f) ks s) p = cache s p"
  by (induction ks arbitrary: s) (auto simp: cache_with_meta_id)

lemma method_change_keeps:
  assumes "mro_ok s" "mro_method_changed_in (Some nm) s = (r, s')"
  shows "mro_ok s'"
proof -
  have "graph s' = graph s \<and> (\<forall>p. isarev_keys p s' = isarev_keys p s) \<and> (\<forall>p. cache s' p = cache s p)"
    using assms(2) by (auto simp: mro_method_changed_in_def Let_def fold_with_meta cache_with_meta_id split: if_splits)
  then show ?thesis using assms(1) by (auto simp: mro_ok_def cache_ok_def isarev_ok_def)
qed

section \<open>Reachable states\<close>

definition interp0 :: interp where
  "interp0 = \<lparr>stashes = Map.empty, PL_isarev = Map.empty, PL_sub_generation = 1\<rparr>"

text \<open>An assignment counts as a step when it does not die.\<close>

inductive mro_step :: "interp \<Rightarrow> interp \<Rightarrow> bool" where
  package: "stashes s nm = None \<Longrightarrow> mro_step s (new_package nm s)"
| assign: "assign_isa nm items s = (Inr (), s') \<Longrightarrow> mro_step s s'"
| query: "mro_get_linear_isa (Some nm) s = (r, s') \<Longrightarrow> mro_step s s'"
| method_change: "mro_method_changed_in (Some nm) s = (r, s') \<Longrightarrow> mro_step s s'"

inductive mro_reachable :: "interp \<Rightarrow> bool" where
  start: "mro_reachable interp0"
| step: "mro_reachable s \<Longrightarrow> mro_step s s' \<Longrightarrow> mro_reachable s'"

lemma mro_step_keeps: "mro_step s s' \<Longrightarrow> mro_ok s \<Longrightarrow> mro_ok s'"
proof (induction rule: mro_step.induct)
  case (assign nm items s s')
  then show ?case using isa_change_keeps[OF assign(2,1)] by (simp add: mro_ok_def)
next
  case (query nm s r s')
  then show ?case using query_keeps[of s nm r s'] by (simp add: mro_get_linear_isa_def)
qed (auto intro: new_package_keeps method_change_keeps)

lemma mro_reachable_ok: "mro_reachable s \<Longrightarrow> mro_ok s"
proof (induction rule: mro_reachable.induct)
  case start
  show ?case by (simp add: mro_ok_def cache_ok_def isarev_ok_def interp0_def cache_def graph_def isa_edges_def isarev_keys_def)
qed (rule mro_step_keeps)

text \<open>
  C4: in every state that packages, assignments to \<open>@ISA\<close> that do not die, queries and method
  changes lead to, asking for a linearization gives nothing but the C3 order of the \<open>@ISA\<close> arrays
  as they are now, whatever was cached before; and where the arrays define an order within 100
  levels of inheritance it is given.
\<close>

theorem mro_linearization_current:
  assumes "mro_reachable s" "stashes s nm \<noteq> None" "mro_get_linear_isa (Some nm) s = (r, s')"
  shows "(\<forall>l. r = Inr l \<longrightarrow> linearizes (graph s) nm l) \<and>
    (\<forall>l. c3_ref (graph s) 101 nm = Some l \<longrightarrow> r = Inr l)"
  using linear_isa_correct(1)[of s nm 0 r s'] mro_reachable_ok[OF assms(1)] assms(2,3)
  by (auto simp: mro_ok_def mro_get_linear_isa_def linear_spec_def graph_def)

text \<open>A diamond: D inherits from B and C, which inherit from A.\<close>

definition diamond :: interp where
  "diamond = snd (assign_isa [68] [Plain [66], Plain [67]]
     (snd (assign_isa [67] [Plain [65]] (snd (assign_isa [66] [Plain [65]] (new_package [65] interp0))))))"

lemma diamond_reachable: "mro_reachable diamond"
proof -
  let ?s1 = "new_package [65] interp0"
  let ?s2 = "snd (assign_isa [66] [Plain [65]] ?s1)"
  let ?s3 = "snd (assign_isa [67] [Plain [65]] ?s2)"
  have fst: "fst (assign_isa [66] [Plain [65]] ?s1) = Inr ()" "fst (assign_isa [67] [Plain [65]] ?s2) = Inr ()"
    "fst (assign_isa [68] [Plain [66], Plain [67]] ?s3) = Inr ()"
    by code_simp+
  have step: "mro_reachable s \<Longrightarrow> fst (assign_isa nm items s) = Inr () \<Longrightarrow> mro_reachable (snd (assign_isa nm items s))"
    for s nm items
    by (rule mro_reachable.step, assumption, rule mro_step.assign) (simp add: prod_eq_iff)
  have "mro_reachable ?s1"
    by (rule mro_reachable.step[OF mro_reachable.start mro_step.package]) (simp add: interp0_def)
  then show ?thesis unfolding diamond_def by (intro step fst)
qed

theorem mro_linearization_current_witness:
  "\<exists>s'. mro_get_linear_isa (Some [68]) diamond = (Inr [[68], [66], [67], [65]], s')"
proof -
  have "stashes diamond [68] \<noteq> None" "c3_ref (graph diamond) 101 [68] = Some [[68], [66], [67], [65]]"
    by code_simp+
  with mro_linearization_current[OF diamond_reachable, of "[68]"] show ?thesis
    by (metis surj_pair)
qed

section \<open>Methods\<close>








section \<open>After an assignment that dies\<close>

text \<open>Computing a linearization adds to the caches, and touches neither what is cached nor the reverse index.\<close>

lemma set_linear_isarev [simp]: "PL_isarev (set_linear nm l s) = PL_isarev s"
  by (simp add: set_linear_def)

lemma linear_keeps:
  "linear_isa_c3 nm level s = (r, s') \<Longrightarrow> PL_isarev s' = PL_isarev s \<and> (cache s p = Some l \<longrightarrow> cache s' p = Some l)"
  "isa_seqs items level s = (rs, s') \<Longrightarrow> PL_isarev s' = PL_isarev s \<and> (cache s p = Some l \<longrightarrow> cache s' p = Some l)"
proof (induction nm level s and items level s arbitrary: r s' and rs s' rule: linear_isa_c3_isa_seqs.induct)
  case (1 nm level s)
  show ?case
  proof (cases "level > 100 \<or> stashes s nm = None \<or> cache s nm \<noteq> None")
    case True
    with "1.prems" show ?thesis by (auto simp: linear_isa_c3.simps[of nm] cache_def split: option.splits if_splits)
  next
    case False
    then obtain st where st: "\<not> level > 100" "stashes s nm = Some st" "mro_linear_c3 (HvMROMETA st) = None"
      and c: "cache s nm = None"
      by (auto simp: cache_def split: option.splits)
    note run = "1.prems"[unfolded linear_isa_c3.simps[of nm] if_not_P[OF st(1)] st(2,3) option.case]
    show ?thesis
    proof (cases "\<exists>items. st_isa st = Isa items \<and> items \<noteq> []")
      case False
      with run c show ?thesis by (auto simp: cache_set_linear split: isa_var.splits if_splits)
    next
      case True
      then obtain items where it: "st_isa st = Isa items" "items \<noteq> []" by blast
      obtain rs s1 where seqs: "isa_seqs items level s = (rs, s1)" by force
      have "PL_isarev s1 = PL_isarev s \<and> (cache s p = Some l \<longrightarrow> cache s1 p = Some l)"
        by (rule "1.IH"[OF st(1) st(2,3) it(1) _ seqs]) (simp add: it(2))
      with run it seqs c show ?thesis
        by (auto simp: cache_set_linear split: sum.splits)
    qed
  qed
next
  case (2 level s)
  then show ?case by simp
next
  case (3 item items level s)
  show ?case
  proof (cases item)
    case Not_plain
    with "3.prems" show ?thesis by simp
  next
    case (Plain q)
    obtain r1 s1 where q: "(if stashes s q = None then (Inr [q], s) else linear_isa_c3 q (level + 1) s) = (r1, s1)" by force
    have s1: "PL_isarev s1 = PL_isarev s \<and> (cache s p = Some l \<longrightarrow> cache s1 p = Some l)"
      using q "3.IH"(1)[OF Plain, of r1 s1] by (cases "stashes s q = None") auto
    show ?thesis
    proof (cases r1)
      case (Inl e)
      with "3.prems" q Plain s1 show ?thesis by simp
    next
      case (Inr l1)
      obtain rs2 s2 where rest: "isa_seqs items level s1 = (rs2, s2)" by force
      from "3.IH"(2)[OF Plain q[symmetric] Inr rest] s1 "3.prems" q Plain Inr rest show ?thesis
        by (auto split: sum.splits)
    qed
  qed
qed

text \<open>An assignment wipes the class and the classes the reverse index has below it, no other.\<close>

lemma assign_keeps_unindexed:
  assumes "assign_isa q items s = (r, s')" "cache s nm = Some l" "nm \<noteq> q" "nm \<notin> set (isarev_keys q s)"
  shows "cache s' nm = Some l"
proof -
  define s1 where "s1 = invalidate q (set_isa q items s)"
  have c1: "cache s1 nm = Some l"
    using invalidate_wiped[of q "set_isa q items s"] assms(2-4) by (simp add: wiped_def s1_def cache_set_isa)
  obtain r1 s2 where lin: "linear_isa_c3 q 0 s1 = (r1, s2)" by force
  from linear_keeps(1)[OF lin] c1 have "cache s2 nm = Some l" by blast
  moreover have "(r, s') = (case r1 of Inl e \<Rightarrow> (Inl e, s2) | Inr l \<Rightarrow> (Inr (), index_parents q (isarev_keys q s) (tl l) s2))"
    using assms(1) lin by (cases r1) (simp_all add: assign_isa_def mro_isa_changed_in_form s1_def[symmetric])
  ultimately show ?thesis by (cases r1) (simp_all add: index_parents)
qed

lemma dead_assignment:
  assumes "assign_isa nm items s = (Inl e, s')"
  shows "isarev_keys p s' = isarev_keys p s"
proof -
  define s1 where "s1 = invalidate nm (set_isa nm items s)"
  have w: "\<And>p. isarev_keys p s1 = isarev_keys p s"
    using invalidate_wiped[of nm "set_isa nm items s"] by (simp add: wiped_def s1_def)
  obtain r1 s2 where lin: "linear_isa_c3 nm 0 s1 = (r1, s2)" by force
  have "(Inl e, s') = (case r1 of Inl e \<Rightarrow> (Inl e, s2) | Inr l \<Rightarrow> (Inr (), index_parents nm (isarev_keys nm s) (tl l) s2))"
    using assms lin by (cases r1) (simp_all add: assign_isa_def mro_isa_changed_in_form s1_def[symmetric])
  then have "s' = s2" by (cases r1) simp_all
  with w linear_keeps(1)[OF lin] show ?thesis by (simp add: isarev_keys_def)
qed

text \<open>
  C35: in any well-formed state an assignment to \<open>@ISA\<close> that dies (of an inconsistent or a recursive hierarchy, or of an element that is not
  a name) keeps the new array but leaves the reverse index as it was, so the class is not
  put below its new parents; what is cached is still current then. But a class that is not in the reverse
  index of a parent keeps its cached linearization through every assignment to that parent's \<open>@ISA\<close>, and
  is given it however wrong it has become.
\<close>

theorem mro_dead_assignment:
  assumes "mro_ok s" "assign_isa nm items s = (Inl e, s')"
  shows "graph s' = (graph s)(nm \<mapsto> Isa items) \<and> (\<forall>p. isarev_keys p s' = isarev_keys p s) \<and> cache_ok s' \<and>
    (\<forall>q its s2 r s3 l. q \<noteq> nm \<longrightarrow> nm \<notin> set (isarev_keys q s2) \<longrightarrow> cache s2 nm = Some l \<longrightarrow>
       assign_isa q its s2 = (r, s3) \<longrightarrow> mro_get_linear_isa (Some nm) s3 = (Inr l, s3))"
proof -
  have "mro_get_linear_isa (Some nm) s3 = (Inr l, s3)"
    if "q \<noteq> nm" "nm \<notin> set (isarev_keys q s2)" "cache s2 nm = Some l" "assign_isa q its s2 = (r, s3)" for q its s2 r s3 l
  proof -
    have "cache s3 nm = Some l" using that by (intro assign_keeps_unindexed[OF that(4,3)]) auto
    then show ?thesis
      by (auto simp: cache_def mro_get_linear_isa_def linear_isa_c3.simps[of nm] split: option.splits)
  qed
  with isa_change_keeps(1,2)[OF assms] dead_assignment[OF assms(2)] show ?thesis by blast
qed

text \<open>
  B inherits from Y and X, and X from Y: that dies. Then X inherits from nothing, B is given the order B, Y, X,
  and keeps it when X inherits from Z.
\<close>

theorem mro_dead_assignment_witness:
  "\<exists>s1 s2 s3 s4 s5 s6.
     assign_isa [88] [Plain [89]] interp0 = (Inr (), s1) \<and>
     assign_isa [66] [Plain [89], Plain [88]] s1 = (Inl (Inconsistent_hierarchy [66] [89]), s2) \<and>
     assign_isa [88] [] s2 = (Inr (), s3) \<and>
     mro_get_linear_isa (Some [66]) s3 = (Inr [[66], [89], [88]], s4) \<and>
     assign_isa [88] [Plain [90]] s4 = (Inr (), s5) \<and>
     mro_get_linear_isa (Some [66]) s5 = (Inr [[66], [89], [88]], s6) \<and>
     c3_ref (graph s5) 101 [66] = Some [[66], [89], [88], [90]]"
proof -
  define s1 where "s1 = snd (assign_isa [88] [Plain [89]] interp0)"
  define s2 where "s2 = snd (assign_isa [66] [Plain [89], Plain [88]] s1)"
  define s3 where "s3 = snd (assign_isa [88] [] s2)"
  define s4 where "s4 = snd (mro_get_linear_isa (Some [66]) s3)"
  define s5 where "s5 = snd (assign_isa [88] [Plain [90]] s4)"
  note defs = s5_def s4_def s3_def s2_def s1_def
  have run: "fst (assign_isa [88] [Plain [89]] interp0) = Inr ()"
    "fst (assign_isa [66] [Plain [89], Plain [88]] s1) = Inl (Inconsistent_hierarchy [66] [89])"
    "fst (assign_isa [88] [] s2) = Inr ()" "fst (mro_get_linear_isa (Some [66]) s3) = Inr [[66], [89], [88]]"
    "fst (assign_isa [88] [Plain [90]] s4) = Inr ()"
    "c3_ref (graph s5) 101 [66] = Some [[66], [89], [88], [90]]"
    "cache s4 [66] = Some [[66], [89], [88]]" "[66] \<notin> set (isarev_keys [88] s4)"
    unfolding defs by code_simp+
  have a1: "assign_isa [88] [Plain [89]] interp0 = (Inr (), s1)" using run(1) by (simp add: prod_eq_iff s1_def)
  have ok: "mro_ok s1"
    using isa_change_keeps(2,3)[OF mro_reachable_ok[OF mro_reachable.start] a1] by (simp add: mro_ok_def)
  have a2: "assign_isa [66] [Plain [89], Plain [88]] s1 = (Inl (Inconsistent_hierarchy [66] [89]), s2)"
    using run(2) by (simp add: prod_eq_iff s2_def)
  have a5: "assign_isa [88] [Plain [90]] s4 = (Inr (), s5)" using run(5) by (simp add: prod_eq_iff s5_def)
  have ne: "[88::u8] \<noteq> [66]" by simp
  note law = conjunct2[OF conjunct2[OF conjunct2[OF mro_dead_assignment[OF ok a2]]]]
  have "mro_get_linear_isa (Some [66]) s5 = (Inr [[66], [89], [88]], s5)"
    by (rule law[rule_format, OF ne run(8,7) a5])
  with run(1-6) have "fst (assign_isa [88] [Plain [89]] interp0) = Inr ()"
    "fst (assign_isa [66] [Plain [89], Plain [88]] s1) = Inl (Inconsistent_hierarchy [66] [89])"
    "fst (assign_isa [88] [] s2) = Inr ()" "fst (mro_get_linear_isa (Some [66]) s3) = Inr [[66], [89], [88]]"
    "fst (assign_isa [88] [Plain [90]] s4) = Inr ()" "fst (mro_get_linear_isa (Some [66]) s5) = Inr [[66], [89], [88]]"
    "c3_ref (graph s5) 101 [66] = Some [[66], [89], [88], [90]]" by simp_all
  then show ?thesis
    by (intro exI[of _ s1] exI[of _ s2] exI[of _ s3] exI[of _ s4] exI[of _ s5]
        exI[of _ "snd (mro_get_linear_isa (Some [66]) s5)"])
      (simp add: prod_eq_iff s1_def[symmetric] s2_def[symmetric] s3_def[symmetric] s4_def[symmetric] s5_def[symmetric])
qed

end
