(* ===== verification/Sort_Cells.thy ===== *)
theory Sort_Cells
  imports Kurila_Prelude "HOL-Library.Monad_Syntax" "HOL-Library.Multiset"
begin

text \<open>
  The two arrays of the merge sort of \<open>pp_sort.c\<close> and what it means to sort.

  Each array is a list of cells. A cell holds an element (a \<open>gptr\<close>), or, where a run starts
  in the parallel array, the pointer \<open>NEXT\<close> to the start of the next run, or what an
  uninitialised word of memory holds. Every such pointer of the code points into the array
  it stands in, so it is an index. An access outside an array, or one that takes a link for
  an element or an element for a link, is \<open>None\<close>: the theorems that the sort returns
  \<open>Some\<close> result say that none happens.
\<close>

section \<open>Cells\<close>

datatype 'a cell = Elem 'a | Next nat | Junk

type_synonym 'a buf = "'a cell list"

text \<open>A comparison (\<open>SVCOMPARE_t\<close>): its result is an \<open>I32\<close>.\<close>

type_synonym 'a cmp = "'a \<Rightarrow> 'a \<Rightarrow> int"

definition get :: "'a buf \<Rightarrow> nat \<Rightarrow> 'a option" where
  "get b i =
    (if i < length b then (case b ! i of Elem x \<Rightarrow> Some x | Next n \<Rightarrow> None | Junk \<Rightarrow> None)
     else None)"

definition next_of :: "'a buf \<Rightarrow> nat \<Rightarrow> nat option" where
  "next_of b i =
    (if i < length b then (case b ! i of Elem x \<Rightarrow> None | Next n \<Rightarrow> Some n | Junk \<Rightarrow> None)
     else None)"

definition put :: "'a buf \<Rightarrow> nat \<Rightarrow> 'a cell \<Rightarrow> 'a buf option" where
  "put b i c = (if i < length b then Some (b[i := c]) else None)"

section \<open>Regions of an array\<close>

definition holds :: "'a buf \<Rightarrow> nat \<Rightarrow> 'a list \<Rightarrow> bool" where
  "holds b i xs \<longleftrightarrow>
    i + length xs \<le> length b \<and> (\<forall>k. k < length xs \<longrightarrow> b ! (i + k) = Elem (xs ! k))"

definition same_outside :: "nat \<Rightarrow> nat \<Rightarrow> 'a buf \<Rightarrow> 'a buf \<Rightarrow> bool" where
  "same_outside i j b b' \<longleftrightarrow>
    length b' = length b \<and> (\<forall>k. k < i \<or> j \<le> k \<longrightarrow> b' ! k = b ! k)"

text \<open>The runs \<open>rs\<close> start one after the other at \<open>i\<close>, each with a link to the next.\<close>

fun chain_at :: "'a buf \<Rightarrow> nat \<Rightarrow> 'b list list \<Rightarrow> bool" where
  "chain_at b i [] \<longleftrightarrow> True"
| "chain_at b i (r # rs) \<longleftrightarrow>
    r \<noteq> [] \<and> i < length b \<and> b ! i = Next (i + length r) \<and> chain_at b (i + length r) rs"

lemma get_holds: "holds b i xs \<Longrightarrow> k < length xs \<Longrightarrow> get b (i + k) = Some (xs ! k)"
  by (simp add: holds_def get_def)

lemma holds_Nil [simp]: "holds b i [] \<longleftrightarrow> i \<le> length b"
  by (simp add: holds_def)

lemma holds_append:
  "holds b i (xs @ ys) \<longleftrightarrow> holds b i xs \<and> holds b (i + length xs) ys"
proof -
  have "b ! (i + length xs + k) = Elem (ys ! k)"
    if "\<forall>k. k < length xs + length ys \<longrightarrow> b ! (i + k) = Elem ((xs @ ys) ! k)" "k < length ys" for k
    using that(1)[rule_format, of "length xs + k"] that(2) by (simp add: add.assoc)
  then show ?thesis
    by (auto simp: holds_def nth_append)
      (metis add.assoc le_add_diff_inverse linorder_not_less nat_add_left_cancel_less)
qed

lemma holds_same:
  "holds b i xs \<Longrightarrow> same_outside l h b b' \<Longrightarrow> i + length xs \<le> l \<or> h \<le> i \<Longrightarrow> holds b' i xs"
  by (auto simp: holds_def same_outside_def)

lemma chain_at_same:
  "chain_at b i rs \<Longrightarrow> same_outside l h b b' \<Longrightarrow> h \<le> i \<Longrightarrow> chain_at b' i rs"
  by (induction rs arbitrary: i) (auto simp: same_outside_def)

lemma chain_at_append:
  "chain_at b i (rs @ ss) \<longleftrightarrow> chain_at b i rs \<and> chain_at b (i + length (concat rs)) ss"
  by (induction rs arbitrary: i) (auto simp: add.assoc)

lemma same_outside_refl [simp]: "same_outside i j b b"
  by (simp add: same_outside_def)

lemma same_outside_trans:
  "same_outside i j b b' \<Longrightarrow> same_outside i' j' b' b'' \<Longrightarrow> l \<le> i \<Longrightarrow> l \<le> i' \<Longrightarrow> j \<le> h \<Longrightarrow> j' \<le> h \<Longrightarrow>
   same_outside l h b b''"
  by (auto simp: same_outside_def)

lemma put_Some: "i < length b \<Longrightarrow> put b i c = Some (b[i := c])"
  by (simp add: put_def)

lemma same_outside_put: "l \<le> i \<Longrightarrow> i < h \<Longrightarrow> same_outside l h b (b[i := c])"
  by (auto simp: same_outside_def)

lemma holds_snoc_put:
  assumes "holds b i xs" "i + length xs < length b"
  shows "holds (b[i + length xs := Elem x]) i (xs @ [x])"
  using assms by (auto simp: holds_def nth_append nth_list_update)

lemma holds_map_Elem [simp]: "holds (map Elem xs) 0 xs"
  by (simp add: holds_def)

lemma get_map_Elem [simp]: "get (map Elem xs) i = (if i < length xs then Some (xs ! i) else None)"
  by (simp add: get_def)

lemma put_map_Elem [simp]:
  "put (map Elem xs) i (Elem x) = (if i < length xs then Some (map Elem (xs[i := x])) else None)"
  by (simp add: put_def map_update)

lemma holds_whole:
  assumes "holds b 0 xs" "length b = length xs"
  shows "b = map Elem xs"
  using assms by (intro nth_equalityI) (auto simp: holds_def)

section \<open>What a sort promises\<close>

text \<open>
  A comparison orders its arguments: its sign is antisymmetric and \<open>\<le>\<close> is transitive (a
  total preorder).
\<close>

definition cmp_order :: "'a cmp \<Rightarrow> bool" where
  "cmp_order cmp \<longleftrightarrow>
    (\<forall>x y. 0 < cmp x y \<longleftrightarrow> cmp y x < 0) \<and>
    (\<forall>x y z. cmp x y \<le> 0 \<longrightarrow> cmp y z \<le> 0 \<longrightarrow> cmp x z \<le> 0)"

abbreviation cmp_sorted :: "'a cmp \<Rightarrow> 'a list \<Rightarrow> bool" where
  "cmp_sorted cmp \<equiv> sorted_wrt (\<lambda>x y. cmp x y \<le> 0)"

definition cmp_stable :: "'a cmp \<Rightarrow> 'a list \<Rightarrow> 'a list \<Rightarrow> bool" where
  "cmp_stable cmp xs ys \<longleftrightarrow> (\<forall>x. filter (\<lambda>y. cmp x y = 0) ys = filter (\<lambda>y. cmp x y = 0) xs)"

text \<open>
  \<open>ys\<close> is \<open>xs\<close> sorted: the same elements whatever the comparison does, and, when it is an
  order, in order and with equal elements in their original order.
\<close>

definition sorted_version :: "'a cmp \<Rightarrow> 'a list \<Rightarrow> 'a list \<Rightarrow> bool" where
  "sorted_version cmp xs ys \<longleftrightarrow>
    mset ys = mset xs \<and> (cmp_order cmp \<longrightarrow> cmp_sorted cmp ys \<and> cmp_stable cmp xs ys)"

lemma cmp_orderD:
  assumes "cmp_order cmp"
  shows cmp_flip: "0 < cmp x y \<longleftrightarrow> cmp y x < 0"
    and cmp_trans: "cmp x y \<le> 0 \<Longrightarrow> cmp y z \<le> 0 \<Longrightarrow> cmp x z \<le> 0"
    and cmp_refl: "cmp x x = 0"
  using assms unfolding cmp_order_def by (blast, blast, (metis linorder_neqE_linordered_idom not_less_iff_gr_or_eq))

lemma cmp_flip_le: "cmp_order cmp \<Longrightarrow> cmp x y \<le> 0 \<longleftrightarrow> 0 \<le> cmp y x"
  using cmp_flip[of cmp x y] by linarith

lemma cmp_flip_less: "cmp_order cmp \<Longrightarrow> cmp x y < 0 \<longleftrightarrow> 0 < cmp y x"
  using cmp_flip[of cmp y x] by blast

lemma cmp_less_trans: "cmp_order cmp \<Longrightarrow> 0 < cmp x y \<Longrightarrow> 0 < cmp y z \<Longrightarrow> 0 < cmp x z"
  using cmp_trans[of cmp x z y] by (meson cmp_flip_le cmp_flip_less linorder_not_le order_less_imp_le)

lemma sorted_version_length: "sorted_version cmp xs ys \<Longrightarrow> length ys = length xs"
  unfolding sorted_version_def by (metis mset_eq_length)

end
