(* ===== verification/Sort_Runs.thy ===== *)
theory Sort_Runs
  imports Sort_Cells
begin

text \<open>
  \<open>dynprep\<close> of \<open>pp_sort.c\<close>: cut the array into runs. Pairs are put in order, runs of at least
  \<open>2 * PTHRESH\<close> elements that are already in order (or in reverse order) are kept (or reversed)
  as they are. The runs are linked in the parallel array.
  The lemmas show that for every comparison \<open>dynprep\<close> returns, stays inside both arrays and
  only moves elements inside their run, and that each run is the sorted version of its
  elements when the comparison is an order.
\<close>

text \<open>\<open>lim\<close> is the \<open>last\<close> of the code: the end of the array.\<close>

section \<open>The code\<close>

definition PTHRESH :: nat where
  "PTHRESH = 8"

text \<open>\<open>(cmp(aTHX_ *t, *p) > 0) == sense\<close>\<close>

definition same_sense :: "'a cmp \<Rightarrow> 'a buf \<Rightarrow> bool \<Rightarrow> nat \<Rightarrow> nat \<Rightarrow> bool option" where
  "same_sense cmp list1 sense t p = do {
     x \<leftarrow> get list1 t;
     y \<leftarrow> get list1 p;
     Some ((cmp x y > 0) = sense)
   }"

text \<open>The end \<open>t\<close> of the pairs with the prevailing sense; \<open>p\<close> is \<open>t + 1\<close> at the test.\<close>

function dyn_top :: "'a cmp \<Rightarrow> 'a buf \<Rightarrow> bool \<Rightarrow> nat \<Rightarrow> nat \<Rightarrow> nat option" where
  "dyn_top cmp list1 sense lim t =
    (if t + 1 < lim then do {
       same \<leftarrow> same_sense cmp list1 sense t (t + 1);
       if same then dyn_top cmp list1 sense lim (t + 2) else Some t
     } else Some t)"
  by pat_completeness auto
termination by (relation "measure (\<lambda>(_, _, _, lim, t). lim - t)") auto

text \<open>Work back from the candidate \<open>r\<close> to \<open>q\<close>.\<close>

function dyn_back :: "'a cmp \<Rightarrow> 'a buf \<Rightarrow> bool \<Rightarrow> nat \<Rightarrow> nat \<Rightarrow> nat option" where
  "dyn_back cmp list1 sense q p = do {
     same \<leftarrow> same_sense cmp list1 sense (p - 1) p;
     if same then (if p - 2 > q then dyn_back cmp list1 sense q (p - 2) else Some (p - 2))
     else Some p
   }"
  by pat_completeness auto
termination by (relation "measure (\<lambda>(_, _, _, _, p). p)") auto

text \<open>Extend a long run towards \<open>t\<close>.\<close>

function dyn_extend :: "'a cmp \<Rightarrow> 'a buf \<Rightarrow> bool \<Rightarrow> nat \<Rightarrow> nat \<Rightarrow> nat option" where
  "dyn_extend cmp list1 sense t q =
    (if q + 2 < t then do {
       same \<leftarrow> same_sense cmp list1 sense (q + 1) (q + 2);
       if same then dyn_extend cmp list1 sense t (q + 2) else Some q
     } else Some q)"
  by pat_completeness auto
termination by (relation "measure (\<lambda>(_, _, _, t, q). t - q)") auto

text \<open>Look for a long run at \<open>b\<close>: the new \<open>p\<close>, \<open>q\<close> and \<open>r\<close>.\<close>

definition dyn_look :: "'a cmp \<Rightarrow> 'a buf \<Rightarrow> bool \<Rightarrow> nat \<Rightarrow> nat \<Rightarrow> nat \<Rightarrow> (nat \<times> nat \<times> nat) option" where
  "dyn_look cmp list1 sense t b q =
    (let r = b + 2 * PTHRESH in
     if r \<ge> t then Some (t, q, t)
     else do {
       p \<leftarrow> dyn_back cmp list1 sense q r;
       if p \<le> q then do {
         q \<leftarrow> dyn_extend cmp list1 sense t r;
         Some (q + 2, q, q + 2)
       } else Some (p, q, r)
     })"

text \<open>Exchange two cells of \<open>list1\<close>.\<close>

definition swap_cells :: "'a buf \<Rightarrow> nat \<Rightarrow> nat \<Rightarrow> 'a buf option" where
  "swap_cells list1 i j = do {
     c \<leftarrow> get list1 i;
     d \<leftarrow> get list1 j;
     list1 \<leftarrow> put list1 i (Elem d);
     put list1 j (Elem c)
   }"

text \<open>\<open>while (b < --p)\<close>: reverse the elements from \<open>b\<close> up to \<open>p\<close>.\<close>

function dyn_reverse :: "'a buf \<Rightarrow> nat \<Rightarrow> nat \<Rightarrow> 'a buf option" where
  "dyn_reverse list1 b p =
    (if b < p - 1 then do {
       list1 \<leftarrow> swap_cells list1 b (p - 1);
       dyn_reverse list1 (b + 1) (p - 1)
     } else Some list1)"
  by pat_completeness auto
termination by (relation "measure (\<lambda>(_, _, p). p)") auto

text \<open>
  Record the run of more than two elements at \<open>b\<close>, when there is one. Gives \<open>list1\<close>,
  \<open>list2\<close>, the number of runs, \<open>p\<close>, \<open>q\<close>, \<open>r\<close> and \<open>p2\<close>.
\<close>

definition dyn_run ::
  "'a cmp \<Rightarrow> bool \<Rightarrow> nat \<Rightarrow> nat \<Rightarrow> nat \<Rightarrow> 'a buf \<Rightarrow> 'a buf \<Rightarrow> nat \<Rightarrow> nat \<Rightarrow> nat \<times> nat \<times> nat \<Rightarrow>
   ('a buf \<times> 'a buf \<times> nat \<times> nat \<times> nat \<times> nat \<times> nat) option" where
  "dyn_run cmp sense t lim b list1 list2 p2 runs pqr =
    (case pqr of (p, q, r) \<Rightarrow>
     if q > b then do {
       let savep = p;
       let q = q + 2;
       let p = q;
       single \<leftarrow> (if p = t \<and> t + 1 = lim then same_sense cmp list1 sense (p - 1) p
                 else Some False);
       let (savep, r, p, q) = (if single then (lim, lim, lim, lim) else (savep, r, p, q));
       list2 \<leftarrow> put list2 p2 (Next (p2 + (p - b)));
       list1 \<leftarrow> (if sense then dyn_reverse list1 b p else Some list1);
       Some (list1, list2, runs + 1, savep, q, r, p2 + (p - b))
     } else Some (list1, list2, runs, p, q, r, p2))"

text \<open>Record the simple pairs from \<open>q\<close> up to \<open>p\<close>.\<close>

function dyn_pairs ::
  "bool \<Rightarrow> nat \<Rightarrow> nat \<Rightarrow> 'a buf \<Rightarrow> 'a buf \<Rightarrow> nat \<Rightarrow> nat \<Rightarrow> ('a buf \<times> 'a buf \<times> nat \<times> nat) option" where
  "dyn_pairs sense q p list1 list2 p2 runs =
    (if q < p then do {
       list2 \<leftarrow> put list2 p2 (Next (p2 + 2));
       list1 \<leftarrow> (if sense then swap_cells list1 q (q + 1) else Some list1);
       dyn_pairs sense (q + 2) p list1 list2 (p2 + 2) (runs + 1)
     } else Some (list1, list2, p2, runs))"
  by pat_completeness auto
termination by (relation "measure (\<lambda>(_, q, p, _). p - q)") auto

text \<open>One round of the \<open>do\<close> loop: \<open>list1\<close>, \<open>list2\<close>, \<open>p2\<close>, \<open>runs\<close>, \<open>b\<close> and \<open>q\<close> after it.\<close>

definition dyn_round ::
  "'a cmp \<Rightarrow> bool \<Rightarrow> nat \<Rightarrow> nat \<Rightarrow> nat \<Rightarrow> nat \<Rightarrow> 'a buf \<Rightarrow> 'a buf \<Rightarrow> nat \<Rightarrow> nat \<Rightarrow>
   ('a buf \<times> 'a buf \<times> nat \<times> nat \<times> nat \<times> nat) option" where
  "dyn_round cmp sense t lim b q list1 list2 p2 runs = do {
     pqr \<leftarrow> dyn_look cmp list1 sense t b q;
     (list1, list2, runs, p, q, r, p2) \<leftarrow> dyn_run cmp sense t lim b list1 list2 p2 runs pqr;
     (list1, list2, p2, runs) \<leftarrow> dyn_pairs sense q p list1 list2 p2 runs;
     let b = p;
     if b = t \<and> t + 1 = lim then do {
       list2 \<leftarrow> put list2 p2 (Next (p2 + 1));
       Some (list1, list2, p2, runs + 1, b + 1, r)
     } else Some (list1, list2, p2, runs, b, r)
   }"

partial_function (option) dyn_inner ::
  "'a cmp \<Rightarrow> bool \<Rightarrow> nat \<Rightarrow> nat \<Rightarrow> nat \<Rightarrow> nat \<Rightarrow> 'a buf \<Rightarrow> 'a buf \<Rightarrow> nat \<Rightarrow> nat \<Rightarrow>
   ('a buf \<times> 'a buf \<times> nat \<times> nat \<times> nat) option" where
  "dyn_inner cmp sense t lim b q list1 list2 p2 runs =
     Option.bind (dyn_round cmp sense t lim b q list1 list2 p2 runs)
       (\<lambda>(list1, list2, p2, runs, b, q).
         if b < t then dyn_inner cmp sense t lim b q list1 list2 p2 runs
         else Some (list1, list2, p2, runs, b))"

partial_function (option) dyn_outer ::
  "'a cmp \<Rightarrow> nat \<Rightarrow> bool \<Rightarrow> nat \<Rightarrow> 'a buf \<Rightarrow> 'a buf \<Rightarrow> nat \<Rightarrow> nat \<Rightarrow>
   ('a buf \<times> 'a buf \<times> nat) option" where
  "dyn_outer cmp lim sense b list1 list2 p2 runs =
    (if b < lim then
       Option.bind (dyn_top cmp list1 sense lim (b + 2)) (\<lambda>t.
       Option.bind (dyn_inner cmp sense t lim b b list1 list2 p2 runs)
         (\<lambda>(list1, list2, p2, runs, b). dyn_outer cmp lim (\<not> sense) b list1 list2 p2 runs))
     else Some (list1, list2, runs))"

declare dyn_inner.simps [code] dyn_outer.simps [code]

text \<open>The arrays with their runs, and the number of runs.\<close>

definition dynprep :: "'a cmp \<Rightarrow> nat \<Rightarrow> 'a buf \<Rightarrow> 'a buf \<Rightarrow> ('a buf \<times> 'a buf \<times> nat) option" where
  "dynprep cmp nmemb list1 list2 = do {
     x \<leftarrow> get list1 0;
     y \<leftarrow> get list1 1;
     dyn_outer cmp nmemb (cmp x y > 0) 0 list1 list2 0 0
   }"

declare dyn_top.simps [simp del] dyn_back.simps [simp del] dyn_extend.simps [simp del]
  dyn_reverse.simps [simp del] dyn_pairs.simps [simp del]

section \<open>Runs\<close>

declare even_diff_nat [simp del]   \<comment> \<open>keep the distances as they are\<close>

text \<open>The adjacent elements of the region from \<open>i\<close> up to \<open>j\<close> all compare with the sense.\<close>

definition adj :: "'a cmp \<Rightarrow> bool \<Rightarrow> 'a list \<Rightarrow> nat \<Rightarrow> nat \<Rightarrow> bool" where
  "adj cmp sense xs i j \<longleftrightarrow> (\<forall>k. i \<le> k \<and> k + 1 < j \<longrightarrow> (cmp (xs ! k) (xs ! (k + 1)) > 0) = sense)"

text \<open>So do the pairs at \<open>i\<close>, \<open>i + 2\<close>, ... before \<open>j\<close>.\<close>

definition pairs :: "'a cmp \<Rightarrow> bool \<Rightarrow> 'a list \<Rightarrow> nat \<Rightarrow> nat \<Rightarrow> bool" where
  "pairs cmp sense xs i j \<longleftrightarrow>
    (\<forall>k. i \<le> k \<and> k + 1 < j \<and> even (k - i) \<longrightarrow> (cmp (xs ! k) (xs ! (k + 1)) > 0) = sense)"

definition seg :: "'a list \<Rightarrow> nat \<Rightarrow> nat \<Rightarrow> 'a list" where
  "seg xs i j = take (j - i) (drop i xs)"

lemma even_step: "b \<le> q \<Longrightarrow> even (q - b) \<Longrightarrow> even (q + 2 - b)"
  and even_gap: "b \<le> q \<Longrightarrow> q < t \<Longrightarrow> even (q - b) \<Longrightarrow> even (t - b) \<Longrightarrow> q + 2 \<le> t"
  and even_between: "b \<le> q \<Longrightarrow> q \<le> t \<Longrightarrow> even (q - b) \<Longrightarrow> even (t - b) \<Longrightarrow> even (t - q)"
  for b q t :: nat
  by presburger+

lemma same_sense_map [simp]:
  "i < length xs \<Longrightarrow> j < length xs \<Longrightarrow>
   same_sense cmp (map Elem xs) sense i j = Some ((cmp (xs ! i) (xs ! j) > 0) = sense)"
  by (simp add: same_sense_def)

lemma length_seg [simp]: "i \<le> j \<Longrightarrow> j \<le> length xs \<Longrightarrow> length (seg xs i j) = j - i"
  by (simp add: seg_def)

lemma nth_seg: "i + k < j \<Longrightarrow> j \<le> length xs \<Longrightarrow> seg xs i j ! k = xs ! (i + k)"
  by (simp add: seg_def)

lemma adj_seg:
  "adj cmp sense xs i j \<Longrightarrow> j \<le> length xs \<Longrightarrow>
   successively (\<lambda>x y. (cmp x y > 0) = sense) (seg xs i j)"
  by (cases "i \<le> j") (auto simp: successively_conv_nth adj_def nth_seg seg_def[of xs i j] min_def)

lemma pairs_shift: "pairs cmp sense xs i j \<Longrightarrow> i \<le> i' \<Longrightarrow> even (i' - i) \<Longrightarrow> pairs cmp sense xs i' j"
  unfolding pairs_def
proof (intro allI impI)
  fix k
  assume *: "\<forall>k. i \<le> k \<and> k + 1 < j \<and> even (k - i) \<longrightarrow> (0 < cmp (xs ! k) (xs ! (k + 1))) = sense"
    and le: "i \<le> i'" "even (i' - i)" and k: "i' \<le> k \<and> k + 1 < j \<and> even (k - i')"
  have "k - i = (k - i') + (i' - i)"
    using le k by simp
  then have "even (k - i)"
    using le k by (metis even_add)
  with * le k show "(0 < cmp (xs ! k) (xs ! (k + 1))) = sense"
    by auto
qed

lemma adj_pair: "pairs cmp sense xs i j \<Longrightarrow> i \<le> k \<Longrightarrow> even (k - i) \<Longrightarrow> k + 2 \<le> j \<Longrightarrow> adj cmp sense xs k (k + 2)"
  unfolding adj_def
proof (intro allI impI)
  fix n
  assume "pairs cmp sense xs i j" "i \<le> k" "even (k - i)" "k + 2 \<le> j" "k \<le> n \<and> n + 1 < k + 2"
  moreover from this have "n = k" by simp
  ultimately show "(0 < cmp (xs ! n) (xs ! (n + 1))) = sense"
    by (simp add: pairs_def)
qed

lemma pairs_extend:
  assumes "pairs cmp sense xs (i + 2) j" "(cmp (xs ! i) (xs ! (i + 1)) > 0) = sense"
  shows "pairs cmp sense xs i j"
  unfolding pairs_def
proof (intro allI impI)
  fix k assume k: "i \<le> k \<and> k + 1 < j \<and> even (k - i)"
  show "(0 < cmp (xs ! k) (xs ! (k + 1))) = sense"
  proof (cases "k = i")
    case False
    with k have "i + 2 \<le> k" "even (k - (i + 2))"
      by (presburger, presburger)
    with assms(1) k show ?thesis by (simp add: pairs_def)
  qed (use assms(2) in simp)
qed

lemma adj_join:
  "adj cmp sense xs i j \<Longrightarrow> adj cmp sense xs j h \<Longrightarrow> (cmp (xs ! (j - 1)) (xs ! j) > 0) = sense \<Longrightarrow>
   0 < j \<Longrightarrow> adj cmp sense xs i h"
  unfolding adj_def
proof (intro allI impI)
  fix k
  assume "\<forall>k. i \<le> k \<and> k + 1 < j \<longrightarrow> (0 < cmp (xs ! k) (xs ! (k + 1))) = sense"
    "\<forall>k. j \<le> k \<and> k + 1 < h \<longrightarrow> (0 < cmp (xs ! k) (xs ! (k + 1))) = sense"
    "(0 < cmp (xs ! (j - 1)) (xs ! j)) = sense" "0 < j" "i \<le> k \<and> k + 1 < h"
  then show "(0 < cmp (xs ! k) (xs ! (k + 1))) = sense"
    by (cases "k + 1 < j"; cases "k + 1 = j") auto
qed

lemma adj_overlap:
  assumes "adj cmp sense xs i j" "adj cmp sense xs l h" "l < j"
  shows "adj cmp sense xs i h"
  unfolding adj_def
proof (intro allI impI)
  fix k
  assume k: "i \<le> k \<and> k + 1 < h"
  show "(0 < cmp (xs ! k) (xs ! (k + 1))) = sense"
  proof (cases "k + 1 < j")
    case True
    with assms(1) k show ?thesis by (simp add: adj_def)
  next
    case False
    with assms(3) have "l \<le> k" by simp
    with assms(2) k show ?thesis by (simp add: adj_def)
  qed
qed

lemma strictly_down_filter:
  assumes "cmp_order cmp" "sorted_wrt (\<lambda>x y. 0 < cmp x y) xs"
  shows "rev (filter (\<lambda>y. cmp x y = 0) xs) = filter (\<lambda>y. cmp x y = 0) xs"
  using assms(2)
proof (induction xs)
  case (Cons a xs)
  have "filter (\<lambda>y. cmp x y = 0) xs = []" if "cmp x a = 0"
  proof -
    have "cmp x b \<noteq> 0" if "b \<in> set xs" for b
    proof
      assume "cmp x b = 0"
      then have "cmp a x \<le> 0" "cmp x b \<le> 0"
        using \<open>cmp x a = 0\<close> cmp_flip[OF assms(1), of a x] by auto
      then have "cmp a b \<le> 0"
        by (rule cmp_trans[OF assms(1)])
      with Cons.prems that show False
        by force
    qed
    then show ?thesis by (simp add: filter_empty_conv)
  qed
  with Cons show ?case by auto
qed simp

lemma run_sorted:
  assumes "successively (\<lambda>x y. (cmp x y > 0) = sense) xs"
  shows "sorted_version cmp xs (if sense then rev xs else xs)"
proof (cases sense)
  case True
  have "cmp_sorted cmp (rev xs) \<and> cmp_stable cmp xs (rev xs)" if o: "cmp_order cmp"
  proof -
    have "transp (\<lambda>x y. 0 < cmp x y)"
      by (rule transpI) (rule cmp_less_trans[OF o])
    then have down: "sorted_wrt (\<lambda>x y. 0 < cmp x y) xs"
      using assms True by (simp add: successively_conv_sorted_wrt)
    then have "sorted_wrt (\<lambda>x y. cmp x y \<le> 0) (rev xs)"
      by (auto simp: sorted_wrt_rev cmp_flip_le[OF o] intro: sorted_wrt_mono_rel[rotated])
    moreover have "cmp_stable cmp xs (rev xs)"
      using strictly_down_filter[OF o down] by (simp add: cmp_stable_def flip: rev_filter)
    ultimately show ?thesis ..
  qed
  with True show ?thesis by (simp add: sorted_version_def)
next
  case False
  have "cmp_sorted cmp xs" if o: "cmp_order cmp"
  proof -
    have "transp (\<lambda>x y. cmp x y \<le> 0)"
      by (rule transpI) (rule cmp_trans[OF o])
    moreover have "successively (\<lambda>x y. cmp x y \<le> 0) xs"
      using assms False by (simp add: not_less)
    ultimately show ?thesis
      by (simp add: successively_conv_sorted_wrt)
  qed
  with False show ?thesis by (simp add: sorted_version_def cmp_stable_def)
qed

section \<open>The searches\<close>

lemma dyn_top_ok:
  assumes "t \<le> length xs"
  shows "\<exists>t'. dyn_top cmp (map Elem xs) sense (length xs) t = Some t' \<and> t \<le> t' \<and> t' \<le> length xs \<and>
    even (t' - t) \<and> pairs cmp sense xs t t' \<and>
    (t' + 1 < length xs \<longrightarrow> (cmp (xs ! t') (xs ! (t' + 1)) > 0) \<noteq> sense)"
  using assms
proof (induction "length xs - t" arbitrary: t rule: less_induct)
  case less
  show ?case
  proof (cases "t + 1 < length xs \<and> (cmp (xs ! t) (xs ! (t + 1)) > 0) = sense")
    case True
    then have "length xs - (t + 2) < length xs - t" "t + 2 \<le> length xs"
      by auto
    from less.hyps[OF this]
    obtain t' where t': "dyn_top cmp (map Elem xs) sense (length xs) (t + 2) = Some t'"
        "t + 2 \<le> t'" "t' \<le> length xs" "even (t' - (t + 2))" "pairs cmp sense xs (t + 2) t'"
        "t' + 1 < length xs \<longrightarrow> (cmp (xs ! t') (xs ! (t' + 1)) > 0) \<noteq> sense"
      by blast
    have "pairs cmp sense xs t t'"
      by (rule pairs_extend[OF t'(5)]) (use True in simp)
    moreover have "even (t' - t)" using t'(2,4) by presburger
    moreover have "dyn_top cmp (map Elem xs) sense (length xs) t = Some t'"
      using True t'(1) by (subst dyn_top.simps) simp
    ultimately show ?thesis using t' by auto
  next
    case False
    moreover have "pairs cmp sense xs t t" by (auto simp: pairs_def)
    ultimately show ?thesis
      using less.prems by (subst dyn_top.simps) auto
  qed
qed

lemma dyn_back_ok:
  assumes "pairs cmp sense xs b t" "t \<le> length xs" "b \<le> q" "q < p" "p < t" "even (q - b)" "even (p - b)"
    "adj cmp sense xs p j"
  shows "\<exists>p'. dyn_back cmp (map Elem xs) sense q p = Some p' \<and> q \<le> p' \<and> p' \<le> p \<and> even (p' - b) \<and>
    adj cmp sense xs p' j"
  using assms
proof (induction p rule: less_induct)
  case (less p)
  have p: "q + 2 \<le> p" "even (p - 2 - b)" "p - 2 + 2 = p"
    using less.prems by presburger+
  have in_range: "p - 1 < length xs" "p < length xs"
    using less.prems by auto
  show ?case
  proof (cases "(cmp (xs ! (p - 1)) (xs ! p) > 0) = sense")
    case False
    with less.prems in_range show ?thesis
      by (intro exI[of _ p]) (subst dyn_back.simps, simp)
  next
    case True
    have "adj cmp sense xs (p - 2) p"
      using adj_pair[OF less.prems(1), of "p - 2"] p less.prems by simp
    with True less.prems(8) have adj: "adj cmp sense xs (p - 2) j"
      using adj_join[of cmp sense xs "p - 2" p j] less.prems(4) by simp
    show ?thesis
    proof (cases "q < p - 2")
      case True
      then obtain p' where "dyn_back cmp (map Elem xs) sense q (p - 2) = Some p'" "q \<le> p'" "p' \<le> p - 2"
          "even (p' - b)" "adj cmp sense xs p' j"
        using less.IH[of "p - 2"] less.prems p adj by auto
      with True \<open>(cmp (xs ! (p - 1)) (xs ! p) > 0) = sense\<close> in_range show ?thesis
        by (intro exI[of _ p']) (subst dyn_back.simps, simp)
    next
      case False
      with True p adj in_range show ?thesis
        by (intro exI[of _ "p - 2"]) (subst dyn_back.simps, simp)
    qed
  qed
qed

lemma dyn_extend_ok:
  assumes "pairs cmp sense xs b t" "t \<le> length xs" "b \<le> q" "q + 2 \<le> t" "even (q - b)" "even (t - b)"
    "adj cmp sense xs b (q + 2)"
  shows "\<exists>q'. dyn_extend cmp (map Elem xs) sense t q = Some q' \<and> q \<le> q' \<and> q' + 2 \<le> t \<and> even (q' - b) \<and>
    adj cmp sense xs b (q' + 2)"
  using assms
proof (induction "t - q" arbitrary: q rule: less_induct)
  case less
  show ?case
  proof (cases "q + 2 < t \<and> (cmp (xs ! (q + 1)) (xs ! (q + 2)) > 0) = sense")
    case True
    then have "q + 2 < t" by blast
    with less.prems(3,4,5,6) have q: "q + 4 \<le> t" "even (q + 2 - b)"
      by (presburger, presburger)
    have "adj cmp sense xs (q + 2) (q + 2 + 2)"
      using adj_pair[OF less.prems(1), of "q + 2"] q less.prems by simp
    then have adj: "adj cmp sense xs b (q + 2 + 2)"
      using adj_join[OF less.prems(7)] True by simp
    have "t - (q + 2) < t - q" "b \<le> q + 2" "q + 2 + 2 \<le> t"
      using q less.prems by auto
    from less.hyps[OF this(1) less.prems(1,2) this(2,3) q(2) less.prems(6) adj]
    obtain q' where "dyn_extend cmp (map Elem xs) sense t (q + 2) = Some q'" "q + 2 \<le> q'" "q' + 2 \<le> t"
        "even (q' - b)" "adj cmp sense xs b (q' + 2)"
      by blast
    with True less.prems show ?thesis
      by (intro exI[of _ q']) (subst dyn_extend.simps, simp)
  next
    case False
    with less.prems show ?thesis
      by (intro exI[of _ q]) (subst dyn_extend.simps, auto)
  qed
qed

text \<open>
  After the look: \<open>b\<close> to \<open>q\<close> is a run, \<open>q\<close> to \<open>p\<close> are pairs, and \<open>p\<close> to \<open>r\<close> is a run unless
  \<open>p\<close> is \<open>t\<close>.
\<close>

definition looked :: "'a cmp \<Rightarrow> bool \<Rightarrow> 'a list \<Rightarrow> nat \<Rightarrow> nat \<Rightarrow> nat \<times> nat \<times> nat \<Rightarrow> bool" where
  "looked cmp sense xs b t pqr \<longleftrightarrow> (case pqr of (p, q, r) \<Rightarrow>
    b \<le> q \<and> q + 2 \<le> p \<and> p \<le> r \<and> r \<le> t \<and> r < p + 2 * PTHRESH \<and> even (q - b) \<and> even (p - b) \<and> even (r - b) \<and>
    adj cmp sense xs b (q + 2) \<and> (p < t \<longrightarrow> r < t \<and> adj cmp sense xs p (r + 2)))"

lemma dyn_look_ok:
  assumes "pairs cmp sense xs b t" "t \<le> length xs" "b \<le> q" "q + 2 \<le> t" "even (q - b)" "even (t - b)"
    "adj cmp sense xs b (q + 2)" "q < b + 2 * PTHRESH"
  shows "\<exists>pqr. dyn_look cmp (map Elem xs) sense t b q = Some pqr \<and> looked cmp sense xs b t pqr"
proof (cases "t \<le> b + 2 * PTHRESH")
  case True
  with assms show ?thesis by (simp add: dyn_look_def looked_def PTHRESH_def)
next
  case False
  define r where "r = b + 2 * PTHRESH"
  have r: "r < t" "q < r" "even (r - b)" using False assms(8) by (simp_all add: r_def PTHRESH_def)
  have r2: "r + 2 \<le> t" using r assms(3,6) by presburger
  have "adj cmp sense xs r (r + 2)"
    using adj_pair[OF assms(1) _ r(3) r2] r(2) assms(3) by simp
  from dyn_back_ok[OF assms(1,2,3) r(2,1) assms(5) r(3) this]
  obtain p where p: "dyn_back cmp (map Elem xs) sense q r = Some p" "q \<le> p" "p \<le> r" "even (p - b)"
    "adj cmp sense xs p (r + 2)" by blast
  show ?thesis
  proof (cases "p \<le> q")
    case True
    with p(2) have "p = q" by simp
    have "adj cmp sense xs b (r + 2)"
      using adj_overlap[OF assms(7) p(5)] \<open>p = q\<close> by simp
    from dyn_extend_ok[OF assms(1,2) _ r2 r(3) assms(6) this] r(2) assms(3)
    obtain q' where q': "dyn_extend cmp (map Elem xs) sense t r = Some q'" "r \<le> q'" "q' + 2 \<le> t"
      "even (q' - b)" "adj cmp sense xs b (q' + 2)" by auto
    have e: "even (q' + 2 - b)" and t: "q' + 2 < t \<Longrightarrow> q' + 2 + 2 \<le> t"
      using q'(2,4) r(2) assms(3,6) by (presburger, presburger)
    have "adj cmp sense xs (q' + 2) (q' + 2 + 2)" if "q' + 2 < t"
      using adj_pair[OF assms(1) _ e t[OF that]] q'(2) r(2) assms(3) by simp
    with q' e r assms(3) have "looked cmp sense xs b t (q' + 2, q', q' + 2)"
      by (simp add: looked_def PTHRESH_def)
    moreover have "dyn_look cmp (map Elem xs) sense t b q = Some (q' + 2, q', q' + 2)"
      using True p(1) q'(1) r(1) by (simp add: dyn_look_def Let_def flip: r_def)
    ultimately show ?thesis by blast
  next
    case False
    with p(4) assms(3,5) have "q + 2 \<le> p" by presburger
    with p r assms(3,5,7) have "looked cmp sense xs b t (p, q, r)"
      by (simp add: looked_def) (simp add: r_def)
    moreover have "dyn_look cmp (map Elem xs) sense t b q = Some (p, q, r)"
      using False p(1) r(1) by (simp add: dyn_look_def Let_def flip: r_def)
    ultimately show ?thesis by blast
  qed
qed

section \<open>Moving the elements of a run\<close>

lemma swap_cells_map [simp]:
  "i < length xs \<Longrightarrow> j < length xs \<Longrightarrow>
   swap_cells (map Elem xs) i j = Some (map Elem (xs[i := xs ! j, j := xs ! i]))"
  by (simp add: swap_cells_def)

lemma dyn_reverse_ok:
  "dyn_reverse (map Elem (xs @ ys @ zs)) (length xs) (length xs + length ys) =
   Some (map Elem (xs @ rev ys @ zs))"
proof (induction "length ys" arbitrary: xs ys zs rule: less_induct)
  case less
  show ?case
  proof (cases "length ys < 2")
    case True
    then have "rev ys = ys" by (cases ys) auto
    have "\<not> length xs < length xs + length ys - 1" using True by arith
    note this \<open>rev ys = ys\<close>
    then show ?thesis by (subst dyn_reverse.simps) (simp only: if_False append_Nil2)
  next
    case False
    then obtain a ms c where ys: "ys = a # ms @ [c]"
      by (metis One_nat_def append_butlast_last_id length_Cons list.exhaust list.size(3) less_2_cases_iff)
    have "dyn_reverse (map Elem ((xs @ [c]) @ ms @ (a # zs))) (length (xs @ [c])) (length (xs @ [c]) + length ms) =
        Some (map Elem ((xs @ [c]) @ rev ms @ (a # zs)))"
      by (rule less.hyps) (simp add: ys)
    moreover have "swap_cells (map Elem (xs @ ys @ zs)) (length xs) (length xs + length ys - 1) =
        Some (map Elem ((xs @ [c]) @ ms @ (a # zs)))"
      by (subst swap_cells_map) (simp_all add: ys nth_append list_update_append)
    ultimately show ?thesis
      using False by (subst dyn_reverse.simps) (simp add: ys del: map_append list.map)
  qed
qed

section \<open>Progress\<close>

text \<open>
  The array has been cut up to \<open>b\<close>: the runs stand one after the other, linked in the
  parallel array, each the sorted version of the elements it had at first. From \<open>b\<close> on
  nothing has moved.
\<close>

definition prog :: "'a cmp \<Rightarrow> 'a list \<Rightarrow> nat \<Rightarrow> nat \<Rightarrow> 'a list \<Rightarrow> 'a buf \<Rightarrow> nat \<Rightarrow> bool" where
  "prog cmp xs0 n b xs links runs \<longleftrightarrow>
    (\<exists>segs rs. concat segs = take b xs0 \<and> concat rs = take b xs \<and>
      list_all2 (sorted_version cmp) segs rs \<and> chain_at links 0 rs \<and> length rs = runs) \<and>
    drop b xs = drop b xs0 \<and> length xs = length xs0 \<and> b \<le> length xs0 \<and>
    length links = n \<and> length xs0 \<le> n"

lemma chain_at_put: "chain_at b i rs \<Longrightarrow> i + length (concat rs) \<le> k \<Longrightarrow> chain_at (b[k := c]) i rs"
proof (induction rs arbitrary: i)
  case (Cons r rs)
  then have "i < k" by (cases r) auto
  with Cons show ?case by auto
qed simp

lemma prog_start: "length xs \<le> length links \<Longrightarrow> prog cmp xs (length links) 0 xs links 0"
  by (simp add: prog_def)

lemma prog_nth: "prog cmp xs0 n b xs links runs \<Longrightarrow> b \<le> k \<Longrightarrow> k < length xs0 \<Longrightarrow> xs ! k = xs0 ! k"
  unfolding prog_def by (metis le_add_diff_inverse nth_drop)

lemma prog_adj:
  "prog cmp xs0 n b xs links runs \<Longrightarrow> b \<le> i \<Longrightarrow> j \<le> length xs0 \<Longrightarrow> adj cmp sense xs i j = adj cmp sense xs0 i j"
  by (simp add: adj_def prog_nth cong: imp_cong conj_cong)

lemma prog_pairs:
  "prog cmp xs0 n b xs links runs \<Longrightarrow> b \<le> i \<Longrightarrow> j \<le> length xs0 \<Longrightarrow>
   pairs cmp sense xs i j = pairs cmp sense xs0 i j"
  by (simp add: pairs_def prog_nth cong: imp_cong conj_cong)

lemma seg_drop: "seg xs i j = take (j - i) (drop i xs)"
  by (simp add: seg_def)

lemma prog_length: "prog cmp xs0 n b xs links runs \<Longrightarrow> length xs = length xs0 \<and> length links = n \<and> length xs0 \<le> n"
  by (simp add: prog_def)

lemma prog_split:
  assumes "prog cmp xs0 n b xs links runs" "b \<le> e" "e \<le> length xs0"
  shows "xs = take b xs @ seg xs0 b e @ drop e xs"
proof -
  have "seg xs0 b e = take (e - b) (drop b xs)"
    using assms by (simp add: seg_def prog_def)
  moreover have "drop e xs = drop (e - b) (drop b xs)"
    using assms(2) by simp
  ultimately show ?thesis
    by (metis append_take_drop_id)
qed

lemma prog_add:
  assumes prog: "prog cmp xs0 n b xs links runs" and e: "b < e" "e \<le> length xs0"
    and r: "sorted_version cmp (seg xs0 b e) r"
  shows "prog cmp xs0 n e (take b xs @ r @ drop e xs) (links[b := Next e]) (runs + 1)"
proof -
  from prog obtain segs rs where rs: "concat segs = take b xs0" "concat rs = take b xs"
      "list_all2 (sorted_version cmp) segs rs" "chain_at links 0 rs" "length rs = runs"
    by (auto simp: prog_def)
  note len = prog_length[OF prog]
  have lr: "length r = e - b"
    using sorted_version_length[OF r] e by simp
  have lc: "length (concat rs) = b"
    using rs(2) len e by simp
  have "take e xs0 = take b xs0 @ seg xs0 b e"
    using e by (metis seg_def le_add_diff_inverse less_imp_le_nat take_add)
  then have "concat (segs @ [seg xs0 b e]) = take e xs0"
    using rs(1) by simp
  moreover have "concat (rs @ [r]) = take e (take b xs @ r @ drop e xs)"
    using rs(2) lr e len by simp
  moreover have "list_all2 (sorted_version cmp) (segs @ [seg xs0 b e]) (rs @ [r])"
    using rs(3) r by (simp add: list_all2_appendI)
  moreover have "chain_at (links[b := Next e]) 0 (rs @ [r])"
    using chain_at_put[OF rs(4), of b "Next e"] lc lr e len by (auto simp: chain_at_append)
  moreover have "drop e (take b xs @ r @ drop e xs) = drop e xs0"
    using prog lr e len unfolding prog_def
    by (simp, metis drop_drop le_add_diff_inverse2 less_imp_le_nat)
  moreover have "length (take b xs @ r @ drop e xs) = length xs0"
    using lr e len by simp
  ultimately show ?thesis
    using rs(5) e(2) len unfolding prog_def
    by (intro conjI exI[of _ "segs @ [seg xs0 b e]"] exI[of _ "rs @ [r]"]) simp_all
qed

lemma dyn_reverse_pair: "dyn_reverse list1 b (Suc (Suc b)) = swap_cells list1 b (Suc b)"
proof -
  have "dyn_reverse l (Suc b) (Suc b) = Some l" for l :: "'a buf"
    by (subst dyn_reverse.simps) simp
  then show ?thesis
    by (subst dyn_reverse.simps) simp
qed

lemma reverse_seg:
  assumes "prog cmp xs0 n b xs links runs" "b \<le> e" "e \<le> length xs0"
  shows "(if sense then dyn_reverse (map Elem xs) b e else Some (map Elem xs)) =
    Some (map Elem (take b xs @ (if sense then rev (seg xs0 b e) else seg xs0 b e) @ drop e xs))"
proof (cases sense)
  case True
  with dyn_reverse_ok[of "take b xs" "seg xs0 b e" "drop e xs"] prog_split[OF assms] assms prog_length[OF assms(1)]
  show ?thesis by (simp add: min_absorb2)
next
  case False
  with prog_split[OF assms] show ?thesis by simp
qed

section \<open>The rounds\<close>

text \<open>Where the pairs up to \<open>q\<close> are recorded and \<open>p\<close> is where they end.\<close>

lemma dyn_run_ok:
  assumes prog: "prog cmp xs0 n b xs links runs" and look: "looked cmp sense xs0 b t (p, q, r)"
    and t: "t \<le> length xs0"
  shows "\<exists>xs' links' runs' p' q' r'.
    dyn_run cmp sense t (length xs0) b (map Elem xs) links b runs (p, q, r) =
      Some (map Elem xs', links', runs', p', q', r', q') \<and>
    prog cmp xs0 n q' xs' links' runs' \<and>
    (p' = p \<and> r' = r \<and> b \<le> q' \<and> q' \<le> p \<and> even (q' - b) \<or>
     t + 1 = length xs0 \<and> p' = length xs0 \<and> q' = length xs0 \<and> r' = length xs0)"
proof (cases "q > b")
  case False
  with look have "q = b" by (simp add: looked_def)
  with prog look show ?thesis
    by (intro exI[of _ xs]) (simp add: dyn_run_def looked_def)
next
  case True
  note len = prog_length[OF prog]
  define single where "single \<longleftrightarrow> q + 2 = t \<and> t + 1 = length xs0 \<and> (cmp (xs0 ! (t - 1)) (xs0 ! t) > 0) = sense"
  define e where "e = (if single then length xs0 else q + 2)"
  have qt: "q + 2 \<le> t" "even (q + 2 - b)"
    using look True even_step[of b q] by (simp_all add: looked_def)
  have e: "b < e" "e \<le> length xs0"
    using True qt t by (auto simp: e_def single_def)
  have "adj cmp sense xs0 b e"
  proof (cases single)
    case True
    have "adj cmp sense xs0 t (t + 1)" by (auto simp: adj_def)
    with True look have "adj cmp sense xs0 b (t + 1)"
      using adj_join[of cmp sense xs0 b t "t + 1"] by (auto simp: single_def looked_def)
    with True show ?thesis by (simp add: e_def single_def)
  next
    case False
    with look show ?thesis by (simp add: e_def looked_def)
  qed
  then have ver: "sorted_version cmp (seg xs0 b e) (if sense then rev (seg xs0 b e) else seg xs0 b e)"
    using e(2) by (intro run_sorted adj_seg)
  define xs' where "xs' = take b xs @ (if sense then rev (seg xs0 b e) else seg xs0 b e) @ drop e xs"
  have prog': "prog cmp xs0 n e xs' (links[b := Next e]) (runs + 1)"
    unfolding xs'_def by (rule prog_add[OF prog e ver])
  have sg: "(if q + 2 = t \<and> t + 1 = length xs0 then same_sense cmp (map Elem xs) sense (q + 2 - 1) (q + 2)
      else Some False) = Some single"
    using prog_nth[OF prog, of t] prog_nth[OF prog, of "t - 1"] len True
    by (auto simp: single_def)
  have "dyn_run cmp sense t (length xs0) b (map Elem xs) links b runs (p, q, r) =
      Some (map Elem xs', links[b := Next e], runs + 1, if single then length xs0 else p, e,
        if single then length xs0 else r, e)"
    using True e len reverse_seg[OF prog less_imp_le[OF e(1)] e(2), of sense]
    unfolding dyn_run_def Let_def prod.case if_P[OF True] sg
    by (cases single; cases sense) (simp_all add: put_Some e_def xs'_def del: map_append)
  moreover have "even (e - b) \<and> e \<le> p \<and> b \<le> e" if "\<not> single"
    using look that qt e by (auto simp: e_def looked_def)
  ultimately show ?thesis
    using prog' by (cases single) (auto simp: e_def single_def)
qed

lemma dyn_pairs_ok:
  assumes "prog cmp xs0 n q xs links runs" "pairs cmp sense xs0 q p" "q \<le> p" "p \<le> length xs0" "even (p - q)"
  shows "\<exists>xs' links' runs'. dyn_pairs sense q p (map Elem xs) links q runs = Some (map Elem xs', links', p, runs') \<and>
    prog cmp xs0 n p xs' links' runs'"
  using assms
proof (induction "p - q" arbitrary: q xs links runs rule: less_induct)
  case less
  show ?case
  proof (cases "q < p")
    case False
    with less.prems show ?thesis
      by (intro exI[of _ xs] exI[of _ links] exI[of _ runs]) (subst dyn_pairs.simps, simp)
  next
    case True
    note prog = less.prems(1)
    note len = prog_length[OF prog]
    have q: "q + 2 \<le> p" "even (p - (q + 2))" "q < q + 2" "q + 2 \<le> length xs0"
      using True less.prems(4,5) by presburger+
    define xs' where "xs' = take q xs @ (if sense then rev (seg xs0 q (q + 2)) else seg xs0 q (q + 2)) @ drop (q + 2) xs"
    have "adj cmp sense xs0 q (q + 2)"
      using adj_pair[OF less.prems(2), of q] q by simp
    then have "sorted_version cmp (seg xs0 q (q + 2))
        (if sense then rev (seg xs0 q (q + 2)) else seg xs0 q (q + 2))"
      using q(4) by (intro run_sorted adj_seg)
    from prog_add[OF prog q(3,4) this]
    have prog': "prog cmp xs0 n (q + 2) xs' (links[q := Next (q + 2)]) (runs + 1)"
      by (simp only: xs'_def)
    have "pairs cmp sense xs0 (q + 2) p"
      using less.prems(2) by (rule pairs_shift) auto
    have "p - (q + 2) < p - q" using True by simp
    from less.hyps[OF this prog' \<open>pairs cmp sense xs0 (q + 2) p\<close> q(1) less.prems(4) q(2)]
    obtain ys ls rs where ys: "dyn_pairs sense (q + 2) p (map Elem xs') (links[q := Next (q + 2)]) (q + 2) (runs + 1) =
        Some (map Elem ys, ls, p, rs)" "prog cmp xs0 n p ys ls rs"
      by blast
    have "(if sense then swap_cells (map Elem xs) q (q + 1) else Some (map Elem xs)) = Some (map Elem xs')"
      using reverse_seg[OF prog _ q(4), of sense] q len
      by (cases sense) (simp_all add: xs'_def dyn_reverse_pair del: swap_cells_map map_append)
    with True ys len q show ?thesis
      by (intro exI[of _ ys] exI[of _ ls] exI[of _ rs]) (subst dyn_pairs.simps, simp add: put_Some)
  qed
qed

text \<open>What holds when a round starts at \<open>b\<close>, where \<open>b\<close> to \<open>q\<close> is known to be a run.\<close>

definition round_at :: "'a cmp \<Rightarrow> bool \<Rightarrow> 'a list \<Rightarrow> nat \<Rightarrow> nat \<Rightarrow> nat \<Rightarrow> bool" where
  "round_at cmp sense xs0 t b q \<longleftrightarrow>
    pairs cmp sense xs0 b t \<and> t \<le> length xs0 \<and> b \<le> q \<and> q + 2 \<le> t \<and> even (q - b) \<and> even (t - b) \<and>
    adj cmp sense xs0 b (q + 2) \<and> q < b + 2 * PTHRESH"

lemma prog_look:
  assumes "prog cmp xs0 n b xs links runs" "round_at cmp sense xs0 t b q"
  shows "\<exists>p q' r. dyn_look cmp (map Elem xs) sense t b q = Some (p, q', r) \<and> looked cmp sense xs0 b t (p, q', r)"
proof -
  note len = prog_length[OF assms(1)]
  have eq: "adj cmp sense xs i j = adj cmp sense xs0 i j" if "b \<le> i" "j \<le> length xs0" for i j
    by (rule prog_adj[OF assms(1) that])
  have "pairs cmp sense xs b t"
    using prog_pairs[OF assms(1), of b t] assms(2) by (simp add: round_at_def)
  then have "\<exists>pqr. dyn_look cmp (map Elem xs) sense t b q = Some pqr \<and> looked cmp sense xs b t pqr"
    using assms(2) len eq[of b "q + 2"] by (intro dyn_look_ok) (auto simp: round_at_def)
  then obtain p q' r where pqr: "dyn_look cmp (map Elem xs) sense t b q = Some (p, q', r)"
      "looked cmp sense xs b t (p, q', r)"
    by auto
  have "p < t \<longrightarrow> r < t \<longrightarrow> r + 2 \<le> length xs0"
    using pqr(2) assms(2) even_gap[of b r t] by (auto simp: looked_def round_at_def)
  then have "looked cmp sense xs0 b t (p, q', r)"
    using pqr(2) eq[of b "q' + 2"] eq[of p "r + 2"] assms(2) unfolding looked_def round_at_def by auto
  with pqr(1) show ?thesis by blast
qed

lemma dyn_round_ok:
  assumes prog: "prog cmp xs0 n b xs links runs" and at: "round_at cmp sense xs0 t b q"
  shows "\<exists>xs' links' p2' runs' b' q'.
    dyn_round cmp sense t (length xs0) b q (map Elem xs) links b runs =
      Some (map Elem xs', links', p2', runs', b', q') \<and>
    prog cmp xs0 n b' xs' links' runs' \<and> b < b' \<and> (b' < length xs0 \<longrightarrow> p2' = b') \<and>
    (b' < t \<longrightarrow> round_at cmp sense xs0 t b' q') \<and>
    (t \<le> b' \<longrightarrow> b' = t \<and> t + 1 \<noteq> length xs0 \<or> b' = length xs0)"
proof -
  have t: "t \<le> length xs0" "pairs cmp sense xs0 b t" "even (t - b)"
    using at by (simp_all add: round_at_def)
  obtain p q' r where look: "dyn_look cmp (map Elem xs) sense t b q = Some (p, q', r)"
      "looked cmp sense xs0 b t (p, q', r)"
    using prog_look[OF prog at] by blast
  from dyn_run_ok[OF prog look(2) t(1)]
  obtain ys ls rs p1 q1 r1 where
    run: "dyn_run cmp sense t (length xs0) b (map Elem xs) links b runs (p, q', r) =
        Some (map Elem ys, ls, rs, p1, q1, r1, q1)"
    and pr: "prog cmp xs0 n q1 ys ls rs"
    and cs: "p1 = p \<and> r1 = r \<and> b \<le> q1 \<and> q1 \<le> p \<and> even (q1 - b) \<or>
     t + 1 = length xs0 \<and> p1 = length xs0 \<and> q1 = length xs0 \<and> r1 = length xs0"
    by blast
  have p: "p \<le> t" "b < p" "even (p - b)"
    using look(2) by (auto simp: looked_def)
  have "pairs cmp sense xs0 q1 p1 \<and> q1 \<le> p1 \<and> p1 \<le> length xs0 \<and> even (p1 - q1)"
  proof (cases "p1 = p \<and> r1 = r \<and> b \<le> q1 \<and> q1 \<le> p \<and> even (q1 - b)")
    case True
    with pairs_shift[OF t(2), of q1] have "pairs cmp sense xs0 q1 t" by simp
    with True p t even_between[of b q1 p] show ?thesis by (auto simp: pairs_def)
  next
    case False
    with cs show ?thesis by (auto simp: pairs_def)
  qed
  with dyn_pairs_ok[OF pr] obtain zs ms ss where
    ps: "dyn_pairs sense q1 p1 (map Elem ys) ls q1 rs = Some (map Elem zs, ms, p1, ss)"
    and pz: "prog cmp xs0 n p1 zs ms ss"
    by blast
  show ?thesis
  proof (cases "p1 = t \<and> t + 1 = length xs0")
    case True
    have "sorted_version cmp (seg xs0 t (t + 1)) (seg xs0 t (t + 1))"
      using run_sorted[of cmp False "seg xs0 t (t + 1)"] True by (simp add: successively_conv_nth)
    from prog_add[OF pz[unfolded conjunct1[OF True]] _ _ this] True prog_split[of cmp xs0 n t zs ms ss "t + 1"] pz
    have "prog cmp xs0 n (t + 1) zs (ms[t := Next (t + 1)]) (ss + 1)" by simp
    moreover have "t < length ms"
      using True prog_length[OF pz] by linarith
    then have "dyn_round cmp sense t (length xs0) b q (map Elem xs) links b runs =
        Some (map Elem zs, ms[t := Next (t + 1)], t, ss + 1, t + 1, r1)"
      using True look(1) run ps by (simp add: dyn_round_def put_Some)
    moreover have "b < t + 1" "\<not> t + 1 < t" "t + 1 = length xs0" "\<not> t + 1 < length xs0"
      using True p by simp_all
    ultimately show ?thesis by blast
  next
    case False
    have "round_at cmp sense xs0 t p1 r1" if "p1 < t"
    proof -
      from that t cs have c: "p1 = p" "r1 = r" by auto
      with look(2) that have r: "p \<le> r" "r < t" "r < p + 2 * PTHRESH" "even (r - b)" "adj cmp sense xs0 p (r + 2)"
        by (auto simp: looked_def)
      have "even (r - p)" "even (t - p)" "r + 2 \<le> t"
        using r(1,2,4) p t(3) even_between[of b p r] even_between[of b p t] even_gap[of b r t] by auto
      with r c t pairs_shift[OF t(2), of p] p show ?thesis by (simp add: round_at_def)
    qed
    moreover have "dyn_round cmp sense t (length xs0) b q (map Elem xs) links b runs =
        Some (map Elem zs, ms, p1, ss, p1, r1)"
      using False look(1) run ps by (auto simp: dyn_round_def)
    moreover have "b < p1" "t \<le> p1 \<longrightarrow> p1 = t \<and> t + 1 \<noteq> length xs0 \<or> p1 = length xs0"
      using False p cs t by auto
    ultimately show ?thesis using pz by blast
  qed
qed

lemma dyn_inner_ok:
  assumes "prog cmp xs0 n b xs links runs" "round_at cmp sense xs0 t b q"
  shows "\<exists>xs' links' p2' runs' b'.
    dyn_inner cmp sense t (length xs0) b q (map Elem xs) links b runs = Some (map Elem xs', links', p2', runs', b') \<and>
    prog cmp xs0 n b' xs' links' runs' \<and> b < b' \<and> (b' < length xs0 \<longrightarrow> p2' = b') \<and> (b' = t \<and> t + 1 \<noteq> length xs0 \<or> b' = length xs0)"
  using assms
proof (induction "length xs0 - b" arbitrary: b q xs links runs rule: less_induct)
  case less
  from dyn_round_ok[OF less.prems]
  obtain ys ls p2 rs b1 q1 where
    rnd: "dyn_round cmp sense t (length xs0) b q (map Elem xs) links b runs = Some (map Elem ys, ls, p2, rs, b1, q1)"
    and pr: "prog cmp xs0 n b1 ys ls rs" and b1: "b < b1" and p2: "b1 < length xs0 \<longrightarrow> p2 = b1"
    and next_round: "b1 < t \<longrightarrow> round_at cmp sense xs0 t b1 q1"
    and finished: "t \<le> b1 \<longrightarrow> b1 = t \<and> t + 1 \<noteq> length xs0 \<or> b1 = length xs0"
    by blast
  show ?case
  proof (cases "b1 < t")
    case True
    moreover have "t \<le> length xs0"
      using less.prems(2) by (simp add: round_at_def)
    ultimately have "length xs0 - b1 < length xs0 - b"
      using b1 by linarith
    from less.hyps[OF this pr] True next_round
    obtain zs ms p3 ss b2 where
      "dyn_inner cmp sense t (length xs0) b1 q1 (map Elem ys) ls b1 rs = Some (map Elem zs, ms, p3, ss, b2)"
      "prog cmp xs0 n b2 zs ms ss" "b1 < b2" "b2 < length xs0 \<longrightarrow> p3 = b2" "b2 = t \<and> t + 1 \<noteq> length xs0 \<or> b2 = length xs0"
      by blast
    moreover from this(3) b1 have "b < b2" by simp
    moreover have "p2 = b1" using p2 True less.prems(2) by (simp add: round_at_def)
    with True rnd have "dyn_inner cmp sense t (length xs0) b q (map Elem xs) links b runs =
        dyn_inner cmp sense t (length xs0) b1 q1 (map Elem ys) ls b1 rs"
      by (subst dyn_inner.simps) simp
    ultimately show ?thesis by auto
  next
    case False
    with rnd have "dyn_inner cmp sense t (length xs0) b q (map Elem xs) links b runs = Some (map Elem ys, ls, p2, rs, b1)"
      by (subst dyn_inner.simps) simp
    with False pr b1 p2 finished show ?thesis by (metis not_le)
  qed
qed

lemma dyn_outer_ok:
  assumes "prog cmp xs0 n b xs links runs"
    "b < length xs0 \<Longrightarrow> b + 1 < length xs0 \<and> (cmp (xs0 ! b) (xs0 ! (b + 1)) > 0) = sense"
  shows "\<exists>xs' links' runs'.
    dyn_outer cmp (length xs0) sense b (map Elem xs) links b runs = Some (map Elem xs', links', runs') \<and>
    prog cmp xs0 n (length xs0) xs' links' runs'"
  using assms
proof (induction "length xs0 - b" arbitrary: b xs links runs sense rule: less_induct)
  case less
  note prog = less.prems(1)
  note len = prog_length[OF prog]
  show ?case
  proof (cases "b < length xs0")
    case False
    with prog have "b = length xs0" by (simp add: prog_def)
    moreover from False have "dyn_outer cmp (length xs0) sense b (map Elem xs) links b runs = Some (map Elem xs, links, runs)"
      by (subst dyn_outer.simps) simp
    ultimately show ?thesis using prog by blast
  next
    case True
    with less.prems(2) have b: "b + 2 \<le> length xs" "(cmp (xs0 ! b) (xs0 ! (b + 1)) > 0) = sense"
      using len by auto
    from dyn_top_ok[OF b(1), of cmp sense]
    obtain t where t: "dyn_top cmp (map Elem xs) sense (length xs0) (b + 2) = Some t" "b + 2 \<le> t" "t \<le> length xs0"
        "even (t - (b + 2))" "pairs cmp sense xs (b + 2) t"
        "t + 1 < length xs0 \<longrightarrow> (cmp (xs ! t) (xs ! (t + 1)) > 0) \<noteq> sense"
      using len by auto
    have ev: "even (t - b)" using t(2,4) by presburger
    have adj: "adj cmp sense xs0 b (b + 2)"
      unfolding adj_def using b(2) by (metis add.commute add_2_eq_Suc le_antisym less_Suc_eq_le Suc_eq_plus1 Suc_less_eq)
    have "pairs cmp sense xs0 (b + 2) t"
      using t(3,5) prog_pairs[OF prog, of "b + 2" t] by simp
    then have "pairs cmp sense xs0 b t"
      by (rule pairs_extend) (use b(2) in simp)
    with t ev adj have "round_at cmp sense xs0 t b b"
      by (simp add: round_at_def PTHRESH_def)
    from dyn_inner_ok[OF prog this]
    obtain ys ls p2 rs b1 where
      inner: "dyn_inner cmp sense t (length xs0) b b (map Elem xs) links b runs = Some (map Elem ys, ls, p2, rs, b1)"
      and pr: "prog cmp xs0 n b1 ys ls rs" and p2: "b1 < length xs0 \<longrightarrow> p2 = b1" and b1: "b < b1" "b1 = t \<and> t + 1 \<noteq> length xs0 \<or> b1 = length xs0"
      by blast
    have "b1 + 1 < length xs0 \<and> (cmp (xs0 ! b1) (xs0 ! (b1 + 1)) > 0) = (\<not> sense)" if "b1 < length xs0"
    proof -
      from that b1(2) t(3) have "b1 = t" "t + 1 < length xs0" by auto
      with t(2,6) prog_nth[OF prog, of t] prog_nth[OF prog, of "t + 1"] show ?thesis by auto
    qed
    moreover have "length xs0 - b1 < length xs0 - b" using True b1(1) by simp
    ultimately obtain zs ms ss where
      "dyn_outer cmp (length xs0) (\<not> sense) b1 (map Elem ys) ls b1 rs = Some (map Elem zs, ms, ss)"
      "prog cmp xs0 n (length xs0) zs ms ss"
      using less.hyps[OF _ pr, of "\<not> sense"] by blast
    moreover have "dyn_outer cmp (length xs0) sense b (map Elem xs) links b runs =
        dyn_outer cmp (length xs0) (\<not> sense) b1 (map Elem ys) ls p2 rs"
      using True t(1) inner by (subst dyn_outer.simps) simp
    moreover have "dyn_outer cmp (length xs0) (\<not> sense) b1 (map Elem ys) ls p2 rs =
        dyn_outer cmp (length xs0) (\<not> sense) b1 (map Elem ys) ls b1 rs"
      using p2 by (cases "b1 < length xs0") (simp_all add: dyn_outer.simps)
    ultimately show ?thesis by auto
  qed
qed

text \<open>What \<open>dynprep\<close> leaves.\<close>

lemma dynprep_ok:
  assumes "2 \<le> length xs" "length xs \<le> length links"
  shows "\<exists>segs rs links'.
    dynprep cmp (length xs) (map Elem xs) links = Some (map Elem (concat rs), links', length rs) \<and>
    concat segs = xs \<and> list_all2 (sorted_version cmp) segs rs \<and> chain_at links' 0 rs \<and>
    length links' = length links \<and> length (concat rs) = length xs"
proof -
  have "dynprep cmp (length xs) (map Elem xs) links =
      dyn_outer cmp (length xs) (cmp (xs ! 0) (xs ! 1) > 0) 0 (map Elem xs) links 0 0"
    using assms(1) by (simp add: dynprep_def del: list.map(2) split: if_splits) auto
  moreover obtain ys ls n where
    "dyn_outer cmp (length xs) (cmp (xs ! 0) (xs ! 1) > 0) 0 (map Elem xs) links 0 0 = Some (map Elem ys, ls, n)"
    and pr: "prog cmp xs (length links) (length xs) ys ls n"
    using dyn_outer_ok[OF prog_start[OF assms(2), of cmp], where sense = "cmp (xs ! 0) (xs ! 1) > 0"] assms(1) by auto
  moreover from pr obtain segs rs where "concat segs = xs" "concat rs = ys"
      "list_all2 (sorted_version cmp) segs rs" "chain_at ls 0 rs" "length rs = n"
      "length ys = length xs" "length ls = length links"
    by (auto simp: prog_def)
  ultimately show ?thesis
    by - (rule exI[of _ segs], rule exI[of _ rs], rule exI[of _ ls], simp)
qed

end
