(* ===== verification/Sort_Merge.thy ===== *)
theory Sort_Merge
  imports Sort_Runs
begin

text \<open>
  One merge of \<open>S_mergesortsv\<close> in \<open>pp_sort.c\<close>: two adjacent runs of \<open>list1\<close> into one run of
  \<open>list2\<close>. The element that is the larger of the two heads is looked up in the other run by a
  ramp up and a binary search, and everything below it is copied first.
  The lemmas show that for every comparison the merge stays inside both runs and loses no
  element, and that it computes the textbook stable merge when the comparison is an order
  and both runs are in order.
\<close>

section \<open>The code\<close>

definition RTHRESH :: nat where
  "RTHRESH = 6"

text \<open>\<open>cmp(aTHX_ *q, *p) <= sense\<close>\<close>

definition at_most :: "'a cmp \<Rightarrow> 'a buf \<Rightarrow> nat \<Rightarrow> nat \<Rightarrow> int \<Rightarrow> bool option" where
  "at_most cmp list1 q p sense = do {
     x \<leftarrow> get list1 q;
     y \<leftarrow> get list1 p;
     Some (cmp x y \<le> sense)
   }"

text \<open>The ramp up: \<open>b\<close> and \<open>t\<close> after it.\<close>

partial_function (option) ramp_up ::
  "'a cmp \<Rightarrow> 'a buf \<Rightarrow> nat \<Rightarrow> int \<Rightarrow> nat \<Rightarrow> nat \<Rightarrow> nat \<Rightarrow> nat \<Rightarrow> (nat \<times> nat) option" where
  "ramp_up cmp list1 q sense b t i run =
    (let p = b + i in
     if p \<ge> t then
       (let p = t - 1 in
        Option.bind (if p > b then at_most cmp list1 q p sense else Some False) (\<lambda>low.
        if low then Some (b, p) else Some (p, t)))
     else
       Option.bind (at_most cmp list1 q p sense) (\<lambda>low.
       if low then Some (b, p)
       else ramp_up cmp list1 q sense p t (if run + 1 \<ge> RTHRESH then i + i else i) (run + 1)))"

declare ramp_up.simps [code]

text \<open>The binary search of \<open>[b, t)\<close>.\<close>

function bin_search :: "'a cmp \<Rightarrow> 'a buf \<Rightarrow> nat \<Rightarrow> int \<Rightarrow> nat \<Rightarrow> nat \<Rightarrow> nat option" where
  "bin_search cmp list1 q sense b t =
    (if b < t then do {
       let p = b + (t - b - 1) div 2;
       low \<leftarrow> at_most cmp list1 q p sense;
       if low then bin_search cmp list1 q sense b p
       else bin_search cmp list1 q sense (p + 1) t
     } else Some t)"
  by pat_completeness auto
termination by (relation "measure (\<lambda>(_, _, _, _, b, t). t - b)") auto

text \<open>\<open>FROMTOUPTO\<close>: copy from \<open>i\<close> up to \<open>lim\<close>, at least one element.\<close>

function from_to_upto :: "'a buf \<Rightarrow> 'a buf \<Rightarrow> nat \<Rightarrow> nat \<Rightarrow> nat \<Rightarrow> ('a buf \<times> nat \<times> nat) option" where
  "from_to_upto src dst i j lim = do {
     x \<leftarrow> get src i;
     dst \<leftarrow> put dst j (Elem x);
     if i + 1 < lim then from_to_upto src dst (i + 1) (j + 1) lim else Some (dst, i + 1, j + 1)
   }"
  by pat_completeness auto
termination by (relation "measure (\<lambda>(_, _, i, _, lim). lim - i)") auto

text \<open>The loop while both runs have elements. Gives \<open>list2\<close>, \<open>f1\<close>, \<open>f2\<close> and \<open>tp2\<close>.\<close>

partial_function (option) merge_loop ::
  "'a cmp \<Rightarrow> 'a buf \<Rightarrow> nat \<Rightarrow> nat \<Rightarrow> 'a buf \<Rightarrow> nat \<Rightarrow> nat \<Rightarrow> nat \<Rightarrow> ('a buf \<times> nat \<times> nat \<times> nat) option" where
  "merge_loop cmp list1 l1 l2 list2 f1 f2 tp2 =
    (if f1 < l1 \<and> f2 < l2 then
       Option.bind (at_most cmp list1 f1 f2 0) (\<lambda>low.
       let (q, b, t, sense) = (if low then (f2, f1, l1, - 1) else (f1, f2, l2, 0)) in
       Option.bind (ramp_up cmp list1 q sense b t 1 0) (\<lambda>(b, t).
       Option.bind (bin_search cmp list1 q sense (b + 1) t) (\<lambda>t.
       if q = f1 then
         Option.bind (from_to_upto list1 list2 f2 tp2 t) (\<lambda>(list2, f2, tp2).
         Option.bind (get list1 f1) (\<lambda>x.
         Option.bind (put list2 tp2 (Elem x)) (\<lambda>list2.
         merge_loop cmp list1 l1 l2 list2 (f1 + 1) f2 (tp2 + 1))))
       else
         Option.bind (from_to_upto list1 list2 f1 tp2 t) (\<lambda>(list2, f1, tp2).
         Option.bind (get list1 f2) (\<lambda>x.
         Option.bind (put list2 tp2 (Elem x)) (\<lambda>list2.
         merge_loop cmp list1 l1 l2 list2 f1 (f2 + 1) (tp2 + 1)))))))
     else Some (list2, f1, f2, tp2))"

declare merge_loop.simps [code]

text \<open>
  The merge of the two runs that start at \<open>offset\<close> of \<open>list1\<close> into \<open>list2\<close>, which still holds
  the links to their ends. Gives both arrays and the offset of the end.
\<close>

definition merge_runs :: "'a cmp \<Rightarrow> 'a buf \<Rightarrow> 'a buf \<Rightarrow> nat \<Rightarrow> ('a buf \<times> 'a buf \<times> nat) option" where
  "merge_runs cmp list1 list2 offset = do {
     t \<leftarrow> next_of list2 offset;
     let f2 = t; let l1 = t;
     t \<leftarrow> next_of list2 t;
     let l2 = t;
     (list2, f1, f2, tp2) \<leftarrow> merge_loop cmp list1 l1 l2 list2 offset f2 offset;
     (list2, f, tp2) \<leftarrow>
       (if f1 = l1 then (if f2 < l2 then from_to_upto list1 list2 f2 tp2 l2 else Some (list2, f2, tp2))
        else from_to_upto list1 list2 f1 tp2 l1);
     list1 \<leftarrow> put list1 offset (Next tp2);
     Some (list1, list2, t)
   }"

declare bin_search.simps [simp del] from_to_upto.simps [simp del]

section \<open>The textbook merge\<close>

fun mrg :: "'a cmp \<Rightarrow> 'a list \<Rightarrow> 'a list \<Rightarrow> 'a list" where
  "mrg cmp [] ys = ys"
| "mrg cmp (x # xs) [] = x # xs"
| "mrg cmp (x # xs) (y # ys) =
    (if cmp x y \<le> 0 then x # mrg cmp xs (y # ys) else y # mrg cmp (x # xs) ys)"

lemma mrg_Nil2 [simp]: "mrg cmp xs [] = xs"
  by (cases xs) simp_all

lemma mset_mrg [simp]: "mset (mrg cmp xs ys) = mset xs + mset ys"
  by (induction cmp xs ys rule: mrg.induct) simp_all

lemma set_mrg [simp]: "set (mrg cmp xs ys) = set xs \<union> set ys"
  by (metis mset_mrg set_mset_mset set_mset_union)

lemma mrg_sorted:
  assumes "cmp_order cmp" "cmp_sorted cmp xs" "cmp_sorted cmp ys"
  shows "cmp_sorted cmp (mrg cmp xs ys)"
  using assms
proof (induction cmp xs ys rule: mrg.induct)
  case (3 cmp x xs y ys)
  note trans = cmp_trans[OF "3.prems"(1)]
  show ?case
  proof (cases "cmp x y \<le> 0")
    case True
    then have "\<forall>z \<in> set (y # ys). cmp x z \<le> 0"
      using "3.prems"(3) trans[OF True] by auto
    with True 3 show ?thesis by auto
  next
    case False
    then have "cmp y x \<le> 0"
      using cmp_flip_le[OF "3.prems"(1), of y x] by simp
    then have "\<forall>z \<in> set (x # xs). cmp y z \<le> 0"
      using "3.prems"(2) trans[of y x] by auto
    with False 3 show ?thesis by auto
  qed
qed simp_all

lemma mrg_stable:
  assumes "cmp_order cmp" "cmp_sorted cmp xs"
  shows "filter (\<lambda>y. cmp a y = 0) (mrg cmp xs ys) =
    filter (\<lambda>y. cmp a y = 0) xs @ filter (\<lambda>y. cmp a y = 0) ys"
  using assms
proof (induction cmp xs ys rule: mrg.induct)
  case (3 cmp x xs y ys)
  show ?case
  proof (cases "cmp x y \<le> 0")
    case False
    have "filter (\<lambda>z. cmp a z = 0) (x # xs) = []" if a: "cmp a y = 0"
    proof -
      have "cmp a z \<noteq> 0" if z: "z \<in> set (x # xs)" for z
      proof
        assume "cmp a z = 0"
        then have "cmp z a \<le> 0" using cmp_flip[OF "3.prems"(1), of z a] by simp
        moreover have "cmp x z \<le> 0"
          using z "3.prems"(2) cmp_refl[OF "3.prems"(1), of x] by auto
        ultimately have "cmp x a \<le> 0" using cmp_trans[OF "3.prems"(1)] by blast
        moreover have "cmp a y \<le> 0" using a by simp
        ultimately have "cmp x y \<le> 0" using cmp_trans[OF "3.prems"(1)] by blast
        with False show False by simp
      qed
      then show ?thesis by (simp only: filter_empty_conv) blast
    qed
    with False 3 show ?thesis by (cases "cmp a y = 0") auto
  qed (use 3 in auto)
qed simp_all

text \<open>What the search for the larger head finds: everything below it goes first.\<close>

lemma mrg_low_first:
  "\<forall>x \<in> set xs. cmp x y \<le> 0 \<Longrightarrow> mrg cmp (xs @ xs') (y # ys) = xs @ mrg cmp xs' (y # ys)"
  by (induction xs) simp_all

lemma mrg_low_second:
  "\<forall>y \<in> set ys. 0 < cmp x y \<Longrightarrow> mrg cmp (x # xs) (ys @ ys') = ys @ mrg cmp (x # xs) ys'"
  by (induction ys) simp_all

definition merged :: "'a cmp \<Rightarrow> 'a list \<Rightarrow> 'a list \<Rightarrow> 'a list \<Rightarrow> bool" where
  "merged cmp xs ys m \<longleftrightarrow> mset m = mset xs + mset ys \<and>
    (cmp_order cmp \<longrightarrow> cmp_sorted cmp xs \<longrightarrow> cmp_sorted cmp ys \<longrightarrow> m = mrg cmp xs ys)"

lemma merged_version:
  assumes "sorted_version cmp xs0 xs" "sorted_version cmp ys0 ys" "merged cmp xs ys m"
  shows "sorted_version cmp (xs0 @ ys0) m"
  using assms mrg_sorted[of cmp xs ys] mrg_stable[of cmp xs _ ys]
  by (auto simp: sorted_version_def merged_def cmp_stable_def)

section \<open>The searches stay inside the run\<close>

definition val :: "'a buf \<Rightarrow> nat \<Rightarrow> 'a" where
  "val b i = (case get b i of Some x \<Rightarrow> x | None \<Rightarrow> undefined)"

definition low_at :: "'a cmp \<Rightarrow> 'a buf \<Rightarrow> nat \<Rightarrow> int \<Rightarrow> nat \<Rightarrow> bool" where
  "low_at cmp list1 q sense p \<longleftrightarrow> cmp (val list1 q) (val list1 p) \<le> sense"

lemma at_most_below:
  "get list1 q \<noteq> None \<Longrightarrow> get list1 p \<noteq> None \<Longrightarrow> at_most cmp list1 q p sense = Some (low_at cmp list1 q sense p)"
  by (auto simp: at_most_def low_at_def val_def)

lemma ramp_up_ok:
  fixes cmp list1 q sense P
  defines "P \<equiv> low_at cmp list1 q sense"
  assumes "\<forall>k. b \<le> k \<and> k < t \<longrightarrow> get list1 k \<noteq> None" "get list1 q \<noteq> None" "b < t" "0 < i"
  shows "\<exists>b' t'. ramp_up cmp list1 q sense b t i run = Some (b', t') \<and> b \<le> b' \<and> b' < t' \<and> t' \<le> t \<and>
    (\<not> P b \<longrightarrow> \<not> P b') \<and> (t' < t \<longrightarrow> P t')"
  using assms(2,4,5)
proof (induction "t - b" arbitrary: b i run rule: less_induct)
  case less
  have test: "at_most cmp list1 q p sense = Some (P p)" if "b \<le> p" "p < t" for p
    using less.prems(1) that assms(3) by (simp add: at_most_below P_def)
  show ?case
  proof (cases "t \<le> b + i")
    case True
    show ?thesis
    proof (cases "t - 1 > b \<and> P (t - 1)")
      case True
      with \<open>t \<le> b + i\<close> less.prems test[of "t - 1"] show ?thesis
        by (intro exI[of _ b] exI[of _ "t - 1"]) (subst ramp_up.simps, simp)
    next
      case False
      moreover have "b \<le> t - 1" "t - 1 < t" using less.prems(2) by auto
      moreover from this test have "at_most cmp list1 q (t - 1) sense = Some (P (t - 1))" by blast
      ultimately have "ramp_up cmp list1 q sense b t i run = Some (t - 1, t)"
        using \<open>t \<le> b + i\<close> by (subst ramp_up.simps) (auto simp: Let_def)
      moreover have "\<not> P b \<longrightarrow> \<not> P (t - 1)"
        using False less.prems(2) by (cases "t - 1 > b") (auto simp: not_less, metis Suc_leI diff_Suc_1 le_antisym Suc_le_eq less_Suc_eq_le Suc_pred zero_less_Suc gr0I less_nat_zero_code)
      ultimately show ?thesis using less.prems(2) by auto
    qed
  next
    case False
    show ?thesis
    proof (cases "P (b + i)")
      case True
      with False less.prems test[of "b + i"] show ?thesis
        by (intro exI[of _ b] exI[of _ "b + i"]) (subst ramp_up.simps, simp)
    next
      case Pf: False
      define j where "j = (if run + 1 \<ge> RTHRESH then i + i else i)"
      have "t - (b + i) < t - b" "\<forall>k. b + i \<le> k \<and> k < t \<longrightarrow> get list1 k \<noteq> None" "b + i < t" "0 < j"
        using False less.prems by (auto simp: j_def)
      from less.hyps[OF this, of "run + 1"] Pf
      obtain b' t' where "ramp_up cmp list1 q sense (b + i) t j (run + 1) = Some (b', t')"
          "b + i \<le> b'" "b' < t'" "t' \<le> t" "\<not> P b'" "t' < t \<longrightarrow> P t'" by blast
      moreover from this(2) have "b \<le> b'" by simp
      moreover from False Pf test[of "b + i"]
      have "ramp_up cmp list1 q sense b t i run = ramp_up cmp list1 q sense (b + i) t j (run + 1)"
        by (subst ramp_up.simps) (simp add: j_def)
      ultimately show ?thesis by auto
    qed
  qed
qed

text \<open>\<open>P\<close> is upward closed on the region, and \<open>t'\<close> is where it begins to hold.\<close>

definition upward :: "(nat \<Rightarrow> bool) \<Rightarrow> nat \<Rightarrow> nat \<Rightarrow> bool" where
  "upward P b t \<longleftrightarrow> (\<forall>i j. b \<le> i \<and> i \<le> j \<and> j < t \<and> P i \<longrightarrow> P j)"

definition cuts :: "(nat \<Rightarrow> bool) \<Rightarrow> nat \<Rightarrow> nat \<Rightarrow> nat \<Rightarrow> bool" where
  "cuts P b t' t \<longleftrightarrow> (\<forall>k. b \<le> k \<and> k < t' \<longrightarrow> \<not> P k) \<and> (t' < t \<longrightarrow> P t')"

lemma upward_sub: "upward P b t \<Longrightarrow> b \<le> b' \<Longrightarrow> t' \<le> t \<Longrightarrow> upward P b' t'"
  unfolding upward_def by (meson order_trans less_le_trans)

lemma upward_not: "upward P b t \<Longrightarrow> \<not> P j \<Longrightarrow> j < t \<Longrightarrow> b \<le> i \<Longrightarrow> i \<le> j \<Longrightarrow> \<not> P i"
  unfolding upward_def by blast

lemma cuts_lower: "cuts P b t' p \<Longrightarrow> P p \<Longrightarrow> t' \<le> p \<Longrightarrow> cuts P b t' t"
  unfolding cuts_def by (metis le_neq_implies_less)

lemma cuts_upper:
  assumes "upward P b t" "\<not> P p" "p < t" "cuts P (p + 1) t' t"
  shows "cuts P b t' t"
  unfolding cuts_def
proof (rule conjI, intro allI impI)
  fix k assume k: "b \<le> k \<and> k < t'"
  show "\<not> P k"
  proof (cases "k \<le> p")
    case True
    with upward_not[OF assms(1-3)] k show ?thesis by blast
  next
    case False
    with assms(4) k show ?thesis by (simp add: cuts_def)
  qed
qed (use assms(4) in \<open>simp add: cuts_def\<close>)

lemma bin_search_ok:
  fixes cmp list1 q sense P
  defines "P \<equiv> low_at cmp list1 q sense"
  assumes "\<forall>k. b \<le> k \<and> k < t \<longrightarrow> get list1 k \<noteq> None" "get list1 q \<noteq> None" "b \<le> t"
  shows "\<exists>t'. bin_search cmp list1 q sense b t = Some t' \<and> b \<le> t' \<and> t' \<le> t \<and>
    (upward P b t \<longrightarrow> cuts P b t' t)"
  using assms(2,4)
proof (induction "t - b" arbitrary: b t rule: less_induct)
  case less
  show ?case
  proof (cases "b < t")
    case False
    with less.prems show ?thesis by (intro exI[of _ t]) (subst bin_search.simps, auto simp: cuts_def)
  next
    case True
    define p where "p = b + (t - b - 1) div 2"
    have p: "b \<le> p" "p < t" using True by (auto simp: p_def)
    have test: "at_most cmp list1 q p sense = Some (P p)"
      using less.prems(1) p assms(3) by (simp add: at_most_below P_def)
    show ?thesis
    proof (cases "P p")
      case True
      have "p - b < t - b" "\<forall>k. b \<le> k \<and> k < p \<longrightarrow> get list1 k \<noteq> None"
        using p less.prems(1) by auto
      from less.hyps[OF this p(1)]
      obtain t' where t': "bin_search cmp list1 q sense b p = Some t'" "b \<le> t'" "t' \<le> p"
        "upward P b p \<longrightarrow> cuts P b t' p"
        by blast
      have "bin_search cmp list1 q sense b t = Some t'"
        using True test t'(1) \<open>b < t\<close> by (subst bin_search.simps, unfold Let_def p_def[symmetric]) simp
      moreover have "upward P b t \<longrightarrow> cuts P b t' t"
        using t'(3,4) True p(2) upward_sub[of P b t b p] cuts_lower[of P b t' p] by auto
      ultimately show ?thesis using t'(2,3) p(2) by (intro exI[of _ t']) simp
    next
      case False
      have "t - (p + 1) < t - b" "\<forall>k. p + 1 \<le> k \<and> k < t \<longrightarrow> get list1 k \<noteq> None" "p + 1 \<le> t"
        using p less.prems(1) by auto
      from less.hyps[OF this]
      obtain t' where t': "bin_search cmp list1 q sense (p + 1) t = Some t'" "p + 1 \<le> t'" "t' \<le> t"
        "upward P (p + 1) t \<longrightarrow> cuts P (p + 1) t' t"
        by blast
      have "bin_search cmp list1 q sense b t = Some t'"
        using False test t'(1) \<open>b < t\<close> by (subst bin_search.simps, unfold Let_def p_def[symmetric]) simp
      moreover have "upward P b t \<longrightarrow> cuts P b t' t"
        using t'(4) False p upward_sub[of P b t "p + 1" t] cuts_upper[of P b t p t'] by auto
      ultimately show ?thesis using t'(2,3) p(1) by (intro exI[of _ t']) simp
    qed
  qed
qed

text \<open>Both searches together, from the head \<open>b\<close> of the other run.\<close>

lemma search_ok:
  fixes cmp list1 q sense P
  defines "P \<equiv> low_at cmp list1 q sense"
  assumes "\<forall>k. b \<le> k \<and> k < t \<longrightarrow> get list1 k \<noteq> None" "get list1 q \<noteq> None" "b < t"
  shows "\<exists>b' t1 t'. ramp_up cmp list1 q sense b t 1 0 = Some (b', t1) \<and>
    bin_search cmp list1 q sense (b' + 1) t1 = Some t' \<and> b < t' \<and> t' \<le> t \<and>
    (\<not> P b \<and> upward P b t \<longrightarrow> cuts P b t' t)"
proof -
  from ramp_up_ok[OF assms(2,3,4) zero_less_one, of cmp sense 0, folded P_def]
  obtain b' t1 where r: "ramp_up cmp list1 q sense b t 1 0 = Some (b', t1)" "b \<le> b'" "b' < t1" "t1 \<le> t"
    "\<not> P b \<longrightarrow> \<not> P b'" "t1 < t \<longrightarrow> P t1" by blast
  have "\<forall>k. b' + 1 \<le> k \<and> k < t1 \<longrightarrow> get list1 k \<noteq> None" "b' + 1 \<le> t1"
    using assms(2) r(2-4) by auto
  from bin_search_ok[OF this(1) assms(3) this(2), of cmp sense, folded P_def]
  obtain t' where t': "bin_search cmp list1 q sense (b' + 1) t1 = Some t'" "b' + 1 \<le> t'" "t' \<le> t1"
    "upward P (b' + 1) t1 \<longrightarrow> cuts P (b' + 1) t' t1"
    by blast
  have "\<not> P b \<and> upward P b t \<longrightarrow> cuts P b t' t"
  proof
    assume "\<not> P b \<and> upward P b t"
    then have u: "upward P b t" and "\<not> P b'" using r(5) by blast+
    from upward_sub[OF u, of "b' + 1" t1] r(2,4) t'(4) have "cuts P (b' + 1) t' t1" by simp
    then have "cuts P (b' + 1) t' t"
      using r(4,6) t'(3) cuts_lower[of P "b' + 1" t' t1 t] by (cases "t1 = t") auto
    with u \<open>\<not> P b'\<close> r(3,4) show "cuts P b t' t" by (intro cuts_upper[of P b t b' t']) auto
  qed
  moreover have "b < t'" "t' \<le> t" using r t' by auto
  ultimately show ?thesis using r(1) t'(1) by blast
qed

section \<open>The merge\<close>

lemma from_to_upto_ok:
  assumes "holds src i xs" "xs \<noteq> []" "j + length xs \<le> length dst"
  shows "\<exists>dst'. from_to_upto src dst i j (i + length xs) = Some (dst', i + length xs, j + length xs) \<and>
    holds dst' j xs \<and> same_outside j (j + length xs) dst dst'"
  using assms
proof (induction xs arbitrary: i j dst)
  case (Cons x xs)
  have x: "get src i = Some x" and xs: "holds src (i + 1) xs"
    using Cons.prems(1) get_holds[of src i "x # xs" 0] holds_append[of src i "[x]" xs] by auto
  let ?dst = "dst[j := Elem x]"
  have put: "put dst j (Elem x) = Some ?dst" using Cons.prems(3) by (simp add: put_Some)
  have h: "holds ?dst j [x]" using Cons.prems(3) by (simp add: holds_def)
  show ?case
  proof (cases "xs = []")
    case True
    with x put h Cons.prems(3) show ?thesis
      by (subst from_to_upto.simps) (simp add: same_outside_put)
  next
    case False
    have "j + 1 + length xs \<le> length ?dst" using Cons.prems(3) by simp
    from Cons.IH[OF xs False this] obtain dst' where
      d: "from_to_upto src ?dst (i + 1) (j + 1) (i + 1 + length xs) = Some (dst', i + 1 + length xs, j + 1 + length xs)"
        "holds dst' (j + 1) xs" "same_outside (j + 1) (j + 1 + length xs) ?dst dst'" by blast
    have "holds dst' j [x]" by (rule holds_same[OF h d(3)]) simp
    with d(2) have "holds dst' j (x # xs)" using holds_append[of dst' j "[x]" xs] by simp
    moreover have "same_outside j (j + length (x # xs)) dst dst'"
      by (rule same_outside_trans[OF same_outside_put[of j j "j + 1"] d(3)]) simp_all
    ultimately show ?thesis
      using x put d(1) False by (subst from_to_upto.simps) simp
  qed
qed simp

text \<open>The cut of one run by an element of the other.\<close>

lemma run_cut:
  assumes "holds list1 b z" "get list1 q = Some e" "z \<noteq> []"
  shows "\<exists>b' t1 z1 z2. ramp_up cmp list1 q sense b (b + length z) 1 0 = Some (b', t1) \<and>
    bin_search cmp list1 q sense (b' + 1) t1 = Some (b + length z1) \<and> z = z1 @ z2 \<and> z1 \<noteq> [] \<and>
    (\<not> cmp e (hd z) \<le> sense \<and>
      (\<forall>i j. i \<le> j \<and> j < length z \<and> cmp e (z ! i) \<le> sense \<longrightarrow> cmp e (z ! j) \<le> sense) \<longrightarrow>
      (\<forall>v \<in> set z1. \<not> cmp e v \<le> sense) \<and> (z2 \<noteq> [] \<longrightarrow> cmp e (hd z2) \<le> sense))"
proof -
  define P where "P = low_at cmp list1 q sense"
  have g: "get list1 (b + k) = Some (z ! k)" if "k < length z" for k
    by (rule get_holds[OF assms(1) that])
  have P: "P (b + k) \<longleftrightarrow> cmp e (z ! k) \<le> sense" if "k < length z" for k
    using g[OF that] assms(2) by (simp add: P_def low_at_def val_def)
  have all: "\<forall>k. b \<le> k \<and> k < b + length z \<longrightarrow> get list1 k \<noteq> None"
    using g by (metis less_diff_conv2 le_add_diff_inverse option.distinct(1) nat_add_left_cancel_less)
  have "get list1 q \<noteq> None" "b < b + length z" using assms(2,3) by auto
  from search_ok[OF all this, of cmp sense, folded P_def]
  obtain b' t1 t' where s: "ramp_up cmp list1 q sense b (b + length z) 1 0 = Some (b', t1)"
    "bin_search cmp list1 q sense (b' + 1) t1 = Some t'" "b < t'" "t' \<le> b + length z"
    "\<not> P b \<and> upward P b (b + length z) \<longrightarrow> cuts P b t' (b + length z)" by blast
  define n where "n = t' - b"
  have n: "t' = b + n" "0 < n" "n \<le> length z" using s(3,4) by (auto simp: n_def)
  have "\<not> cmp e (hd z) \<le> sense \<and>
      (\<forall>i j. i \<le> j \<and> j < length z \<and> cmp e (z ! i) \<le> sense \<longrightarrow> cmp e (z ! j) \<le> sense) \<longrightarrow>
      (\<forall>v \<in> set (take n z). \<not> cmp e v \<le> sense) \<and> (drop n z \<noteq> [] \<longrightarrow> cmp e (hd (drop n z)) \<le> sense)"
  proof (rule impI, elim conjE)
    assume c: "\<not> cmp e (hd z) \<le> sense"
      "\<forall>i j. i \<le> j \<and> j < length z \<and> cmp e (z ! i) \<le> sense \<longrightarrow> cmp e (z ! j) \<le> sense"
    have "\<not> P b" using P[of 0] c(1) assms(3) by (simp add: hd_conv_nth)
    moreover have "upward P b (b + length z)"
      unfolding upward_def
    proof (intro allI impI)
      fix i j assume ij: "b \<le> i \<and> i \<le> j \<and> j < b + length z \<and> P i"
      then have "i - b \<le> j - b" "j - b < length z" "b + (i - b) = i" "b + (j - b) = j" by auto
      with P[of "i - b"] P[of "j - b"] ij c(2) show "P j" by auto
    qed
    ultimately have "cuts P b t' (b + length z)" using s(5) by blast
    then have lo: "\<forall>k < n. \<not> P (b + k)" and hi: "n < length z \<longrightarrow> P (b + n)"
      unfolding cuts_def n(1) by auto
    have "\<not> cmp e v \<le> sense" if "v \<in> set (take n z)" for v
    proof -
      from that obtain k where "k < n" "v = z ! k" using n(3) by (auto simp: in_set_conv_nth)
      with lo P[of k] n(3) show ?thesis by auto
    qed
    with hi P[of n] show "(\<forall>v \<in> set (take n z). \<not> cmp e v \<le> sense) \<and>
        (drop n z \<noteq> [] \<longrightarrow> cmp e (hd (drop n z)) \<le> sense)"
      by (auto simp: hd_drop_conv_nth)
  qed
  moreover have "take n z \<noteq> []" "length (take n z) = n" "z = take n z @ drop n z" using n assms(3) by auto
  moreover have "bin_search cmp list1 q sense (b' + 1) t1 = Some (b + length (take n z))"
    using s(2) n(1,3) by simp
  ultimately show ?thesis
    using s(1) by blast
qed

lemma cmp_less_le_trans:
  assumes o: "cmp_order cmp" and "cmp x y < 0" "cmp y z \<le> 0"
  shows "cmp x z < 0"
proof (rule ccontr)
  assume "\<not> cmp x z < 0"
  then have "cmp z x \<le> 0" using cmp_flip_le[OF o, of z x] by simp
  with assms(3) have "cmp y x \<le> 0" by (rule cmp_trans[OF o])
  with assms(2) cmp_flip_le[OF o, of y x] show False by simp
qed

lemma merged_first:
  assumes "merged cmp xs' ys m"
    "cmp_order cmp \<Longrightarrow> cmp_sorted cmp (xs @ xs') \<Longrightarrow>
      (\<forall>x \<in> set xs. cmp x y \<le> 0) \<and> (xs' \<noteq> [] \<longrightarrow> 0 < cmp (hd xs') y)"
  shows "merged cmp (xs @ xs') (y # ys) (xs @ y # m)"
  unfolding merged_def
proof (intro conjI impI)
  show "mset (xs @ y # m) = mset (xs @ xs') + mset (y # ys)"
    using assms(1) by (simp add: merged_def)
  assume o: "cmp_order cmp" "cmp_sorted cmp (xs @ xs')" "cmp_sorted cmp (y # ys)"
  then have "m = mrg cmp xs' ys"
    using assms(1) by (simp add: merged_def sorted_wrt_append)
  moreover have "mrg cmp xs' (y # ys) = y # mrg cmp xs' ys"
    using assms(2)[OF o(1,2)] by (cases xs') auto
  ultimately show "xs @ y # m = mrg cmp (xs @ xs') (y # ys)"
    using assms(2)[OF o(1,2)] by (simp add: mrg_low_first)
qed

lemma merged_second:
  assumes "merged cmp xs ys' m"
    "cmp_order cmp \<Longrightarrow> cmp_sorted cmp (ys @ ys') \<Longrightarrow>
      (\<forall>y \<in> set ys. 0 < cmp x y) \<and> (ys' \<noteq> [] \<longrightarrow> cmp x (hd ys') \<le> 0)"
  shows "merged cmp (x # xs) (ys @ ys') (ys @ x # m)"
  unfolding merged_def
proof (intro conjI impI)
  show "mset (ys @ x # m) = mset (x # xs) + mset (ys @ ys')"
    using assms(1) by (simp add: merged_def)
  assume o: "cmp_order cmp" "cmp_sorted cmp (x # xs)" "cmp_sorted cmp (ys @ ys')"
  then have "m = mrg cmp xs ys'"
    using assms(1) by (simp add: merged_def sorted_wrt_append)
  moreover have "mrg cmp (x # xs) ys' = x # mrg cmp xs ys'"
    using assms(2)[OF o(1,3)] by (cases ys') auto
  ultimately show "ys @ x # m = mrg cmp (x # xs) (ys @ ys')"
    using assms(2)[OF o(1,3)] by (simp add: mrg_low_second)
qed

lemma cut_first:
  assumes "holds list1 f x" "get list1 q = Some c" "x \<noteq> []" "cmp (hd x) c \<le> 0"
  shows "\<exists>b' t1 x1 x2. ramp_up cmp list1 q (- 1) f (f + length x) 1 0 = Some (b', t1) \<and>
    bin_search cmp list1 q (- 1) (b' + 1) t1 = Some (f + length x1) \<and> x = x1 @ x2 \<and> x1 \<noteq> [] \<and>
    (cmp_order cmp \<longrightarrow> cmp_sorted cmp x \<longrightarrow> (\<forall>v \<in> set x1. cmp v c \<le> 0) \<and> (x2 \<noteq> [] \<longrightarrow> 0 < cmp (hd x2) c))"
proof -
  from run_cut[OF assms(1-3), of cmp "- 1"]
  obtain b' t1 x1 x2 where cut: "ramp_up cmp list1 q (- 1) f (f + length x) 1 0 = Some (b', t1)"
    "bin_search cmp list1 q (- 1) (b' + 1) t1 = Some (f + length x1)" "x = x1 @ x2" "x1 \<noteq> []"
    and lo: "\<not> cmp c (hd x) \<le> - 1 \<and>
      (\<forall>i j. i \<le> j \<and> j < length x \<and> cmp c (x ! i) \<le> - 1 \<longrightarrow> cmp c (x ! j) \<le> - 1) \<longrightarrow>
      (\<forall>v \<in> set x1. \<not> cmp c v \<le> - 1) \<and> (x2 \<noteq> [] \<longrightarrow> cmp c (hd x2) \<le> - 1)" by blast
  have "(\<forall>v \<in> set x1. cmp v c \<le> 0) \<and> (x2 \<noteq> [] \<longrightarrow> 0 < cmp (hd x2) c)"
    if o: "cmp_order cmp" and sorted: "cmp_sorted cmp x"
  proof -
    have "\<not> cmp c (hd x) \<le> - 1" using cmp_flip_le[OF o, of "hd x" c] assms(4) by simp
    moreover have "cmp c (x ! j) \<le> - 1" if "i \<le> j" "j < length x" "cmp c (x ! i) \<le> - 1" for i j
    proof (cases "i = j")
      case False
      with that(1,2) have "cmp (x ! i) (x ! j) \<le> 0"
        using sorted by (simp add: sorted_wrt_iff_nth_less)
      with cmp_less_le_trans[OF o, of c "x ! i" "x ! j"] that(3) show ?thesis by simp
    qed (use that(3) in simp)
    ultimately have l: "(\<forall>v \<in> set x1. \<not> cmp c v \<le> - 1) \<and> (x2 \<noteq> [] \<longrightarrow> cmp c (hd x2) \<le> - 1)"
      using lo by blast
    have "cmp v c \<le> 0 \<longleftrightarrow> \<not> cmp c v \<le> - 1" "0 < cmp v c \<longleftrightarrow> cmp c v \<le> - 1" for v
      using cmp_flip_le[OF o, of v c] cmp_flip[OF o, of v c] by auto
    with l show ?thesis by blast
  qed
  with cut show ?thesis by blast
qed

lemma cut_second:
  assumes "holds list1 f y" "get list1 q = Some a" "y \<noteq> []" "\<not> cmp a (hd y) \<le> 0"
  shows "\<exists>b' t1 y1 y2. ramp_up cmp list1 q 0 f (f + length y) 1 0 = Some (b', t1) \<and>
    bin_search cmp list1 q 0 (b' + 1) t1 = Some (f + length y1) \<and> y = y1 @ y2 \<and> y1 \<noteq> [] \<and>
    (cmp_order cmp \<longrightarrow> cmp_sorted cmp y \<longrightarrow> (\<forall>v \<in> set y1. 0 < cmp a v) \<and> (y2 \<noteq> [] \<longrightarrow> cmp a (hd y2) \<le> 0))"
proof -
  from run_cut[OF assms(1-3), of cmp 0]
  obtain b' t1 y1 y2 where cut: "ramp_up cmp list1 q 0 f (f + length y) 1 0 = Some (b', t1)"
    "bin_search cmp list1 q 0 (b' + 1) t1 = Some (f + length y1)" "y = y1 @ y2" "y1 \<noteq> []"
    and lo: "\<not> cmp a (hd y) \<le> 0 \<and>
      (\<forall>i j. i \<le> j \<and> j < length y \<and> cmp a (y ! i) \<le> 0 \<longrightarrow> cmp a (y ! j) \<le> 0) \<longrightarrow>
      (\<forall>v \<in> set y1. \<not> cmp a v \<le> 0) \<and> (y2 \<noteq> [] \<longrightarrow> cmp a (hd y2) \<le> 0)" by blast
  have "(\<forall>v \<in> set y1. 0 < cmp a v) \<and> (y2 \<noteq> [] \<longrightarrow> cmp a (hd y2) \<le> 0)"
    if o: "cmp_order cmp" and sorted: "cmp_sorted cmp y"
  proof -
    have "cmp a (y ! j) \<le> 0" if "i \<le> j" "j < length y" "cmp a (y ! i) \<le> 0" for i j
    proof (cases "i = j")
      case False
      with that(1,2) have "cmp (y ! i) (y ! j) \<le> 0"
        using sorted by (simp add: sorted_wrt_iff_nth_less)
      with that(3) show ?thesis by (rule cmp_trans[OF o])
    qed (use that(3) in simp)
    with lo assms(4) show ?thesis by (auto simp: not_le)
  qed
  with cut show ?thesis by blast
qed

text \<open>What one round of the loop writes: the low elements \<open>xs\<close> of one run and then \<open>y\<close>.\<close>

lemma copy_then_put:
  assumes "holds list1 f xs" "xs \<noteq> []" "get list1 q = Some y" "tp2 + length xs < length list2"
  shows "\<exists>list2' list2''. from_to_upto list1 list2 f tp2 (f + length xs) = Some (list2', f + length xs, tp2 + length xs) \<and>
    put list2' (tp2 + length xs) (Elem y) = Some list2'' \<and> holds list2'' tp2 (xs @ [y]) \<and>
    same_outside tp2 (tp2 + length xs + 1) list2 list2''"
proof -
  from from_to_upto_ok[OF assms(1,2), of tp2 list2] assms(4)
  obtain list2' where c: "from_to_upto list1 list2 f tp2 (f + length xs) = Some (list2', f + length xs, tp2 + length xs)"
    "holds list2' tp2 xs" "same_outside tp2 (tp2 + length xs) list2 list2'" by auto
  have len: "tp2 + length xs < length list2'" using c(3) assms(4) by (simp add: same_outside_def)
  let ?l = "list2'[tp2 + length xs := Elem y]"
  have "same_outside (tp2 + length xs) (tp2 + length xs + 1) list2' ?l"
    by (rule same_outside_put) auto
  with c(3) have "same_outside tp2 (tp2 + length xs + 1) list2 ?l"
    by (rule same_outside_trans) auto
  with c(1) holds_snoc_put[OF c(2) len, of y] put_Some[OF len, of "Elem y"] show ?thesis by blast
qed

definition loop_result ::
  "'a cmp \<Rightarrow> 'a buf \<Rightarrow> nat \<Rightarrow> nat \<Rightarrow> 'a buf \<Rightarrow> nat \<Rightarrow> 'a list \<Rightarrow> 'a list \<Rightarrow> ('a buf \<times> nat \<times> nat \<times> nat) option \<Rightarrow> bool" where
  "loop_result cmp list1 l1 l2 list2 tp2 x y res \<longleftrightarrow>
    (\<exists>list2' f1 f2 out x' y'. res = Some (list2', f1, f2, tp2 + length out) \<and>
      holds list1 f1 x' \<and> f1 + length x' = l1 \<and> holds list1 f2 y' \<and> f2 + length y' = l2 \<and>
      (x' = [] \<or> y' = []) \<and> length out + length x' + length y' = length x + length y \<and>
      holds list2' tp2 out \<and> same_outside tp2 (tp2 + length out) list2 list2' \<and>
      merged cmp x y (out @ x' @ y'))"

lemma loop_result_first:
  assumes "loop_result cmp list1 l1 l2 lb (tp2 + length x1 + 1) x2 ys res"
    and h: "holds lb tp2 (x1 @ [c])" "same_outside tp2 (tp2 + length x1 + 1) list2 lb"
    and low: "cmp_order cmp \<longrightarrow> cmp_sorted cmp (x1 @ x2) \<longrightarrow>
      (\<forall>v \<in> set x1. cmp v c \<le> 0) \<and> (x2 \<noteq> [] \<longrightarrow> 0 < cmp (hd x2) c)"
  shows "loop_result cmp list1 l1 l2 list2 tp2 (x1 @ x2) (c # ys) res"
proof -
  from assms(1) obtain list2' f1 f2 out x' y' where
    r: "res = Some (list2', f1, f2, tp2 + length x1 + 1 + length out)"
      "holds list1 f1 x'" "f1 + length x' = l1" "holds list1 f2 y'" "f2 + length y' = l2"
      "x' = [] \<or> y' = []" "length out + length x' + length y' = length x2 + length ys"
      "holds list2' (tp2 + length x1 + 1) out"
      "same_outside (tp2 + length x1 + 1) (tp2 + length x1 + 1 + length out) lb list2'"
      "merged cmp x2 ys (out @ x' @ y')"
    unfolding loop_result_def by blast
  have "holds list2' tp2 (x1 @ [c])"
    by (rule holds_same[OF h(1) r(9)]) simp
  with r(8) have "holds list2' tp2 ((x1 @ [c]) @ out)"
    by (subst holds_append) simp
  moreover have "same_outside tp2 (tp2 + length ((x1 @ [c]) @ out)) list2 list2'"
    by (rule same_outside_trans[OF h(2) r(9)]) auto
  moreover have "merged cmp (x1 @ x2) (c # ys) (((x1 @ [c]) @ out) @ x' @ y')"
    using merged_first[OF r(10), of x1 c] low by simp
  ultimately show ?thesis
    unfolding loop_result_def using r(1-7)
    by (intro exI[of _ list2'] exI[of _ f1] exI[of _ f2] exI[of _ "(x1 @ [c]) @ out"] exI[of _ x'] exI[of _ y']) simp
qed

lemma loop_result_second:
  assumes "loop_result cmp list1 l1 l2 lb (tp2 + length y1 + 1) xs y2 res"
    and h: "holds lb tp2 (y1 @ [a])" "same_outside tp2 (tp2 + length y1 + 1) list2 lb"
    and low: "cmp_order cmp \<longrightarrow> cmp_sorted cmp (y1 @ y2) \<longrightarrow>
      (\<forall>v \<in> set y1. 0 < cmp a v) \<and> (y2 \<noteq> [] \<longrightarrow> cmp a (hd y2) \<le> 0)"
  shows "loop_result cmp list1 l1 l2 list2 tp2 (a # xs) (y1 @ y2) res"
proof -
  from assms(1) obtain list2' f1 f2 out x' y' where
    r: "res = Some (list2', f1, f2, tp2 + length y1 + 1 + length out)"
      "holds list1 f1 x'" "f1 + length x' = l1" "holds list1 f2 y'" "f2 + length y' = l2"
      "x' = [] \<or> y' = []" "length out + length x' + length y' = length xs + length y2"
      "holds list2' (tp2 + length y1 + 1) out"
      "same_outside (tp2 + length y1 + 1) (tp2 + length y1 + 1 + length out) lb list2'"
      "merged cmp xs y2 (out @ x' @ y')"
    unfolding loop_result_def by blast
  have "holds list2' tp2 (y1 @ [a])"
    by (rule holds_same[OF h(1) r(9)]) simp
  with r(8) have "holds list2' tp2 ((y1 @ [a]) @ out)"
    by (subst holds_append) simp
  moreover have "same_outside tp2 (tp2 + length ((y1 @ [a]) @ out)) list2 list2'"
    by (rule same_outside_trans[OF h(2) r(9)]) auto
  moreover have "merged cmp (a # xs) (y1 @ y2) (((y1 @ [a]) @ out) @ x' @ y')"
    using merged_second[OF r(10), of y1 a] low by simp
  ultimately show ?thesis
    unfolding loop_result_def using r(1-7)
    by (intro exI[of _ list2'] exI[of _ f1] exI[of _ f2] exI[of _ "(y1 @ [a]) @ out"] exI[of _ x'] exI[of _ y']) simp
qed

text \<open>One round of the loop, for each of the two cases.\<close>

lemma merge_step_first:
  assumes x: "holds list1 f1 x" "x \<noteq> []" "f1 + length x = l1" and le: "cmp (hd x) c \<le> 0"
    and c: "get list1 f2 = Some c" "f2 < l2" "f1 \<noteq> f2" and room: "tp2 + length x < length list2"
  shows "\<exists>x1 x2 lb. x = x1 @ x2 \<and> x1 \<noteq> [] \<and> holds list1 (f1 + length x1) x2 \<and>
    merge_loop cmp list1 l1 l2 list2 f1 f2 tp2 =
      merge_loop cmp list1 l1 l2 lb (f1 + length x1) (f2 + 1) (tp2 + length x1 + 1) \<and>
    holds lb tp2 (x1 @ [c]) \<and> same_outside tp2 (tp2 + length x1 + 1) list2 lb \<and>
    (cmp_order cmp \<longrightarrow> cmp_sorted cmp x \<longrightarrow> (\<forall>v \<in> set x1. cmp v c \<le> 0) \<and> (x2 \<noteq> [] \<longrightarrow> 0 < cmp (hd x2) c))"
proof -
  from cut_first[where cmp = cmp, OF x(1) c(1) x(2) le, unfolded x(3)]
  obtain b' t1 x1 x2 where cut: "ramp_up cmp list1 f2 (- 1) f1 l1 1 0 = Some (b', t1)"
    "bin_search cmp list1 f2 (- 1) (b' + 1) t1 = Some (f1 + length x1)" "x = x1 @ x2" "x1 \<noteq> []"
    and low: "cmp_order cmp \<longrightarrow> cmp_sorted cmp x \<longrightarrow> (\<forall>v \<in> set x1. cmp v c \<le> 0) \<and> (x2 \<noteq> [] \<longrightarrow> 0 < cmp (hd x2) c)"
    by blast
  have h: "holds list1 f1 x1" "holds list1 (f1 + length x1) x2"
    using x(1) cut(3) by (simp_all add: holds_append)
  have room': "tp2 + length x1 < length list2" using room cut(3) by simp
  from copy_then_put[OF h(1) cut(4) c(1) room']
  obtain la lb where cp: "from_to_upto list1 list2 f1 tp2 (f1 + length x1) = Some (la, f1 + length x1, tp2 + length x1)"
    "put la (tp2 + length x1) (Elem c) = Some lb" "holds lb tp2 (x1 @ [c])"
    "same_outside tp2 (tp2 + length x1 + 1) list2 lb" by blast
  have "get list1 f1 = Some (hd x)"
    using get_holds[OF x(1), of 0] x(2) by (simp add: hd_conv_nth)
  moreover have "f1 < l1" using x(2,3) by (cases x) auto
  ultimately have "merge_loop cmp list1 l1 l2 list2 f1 f2 tp2 =
      merge_loop cmp list1 l1 l2 lb (f1 + length x1) (f2 + 1) (tp2 + length x1 + 1)"
    using le c cut(1,2) cp(1,2) by (subst merge_loop.simps) (simp add: at_most_def)
  with cut(3,4) h(2) cp(3,4) low show ?thesis by blast
qed

lemma merge_step_second:
  assumes y: "holds list1 f2 y" "y \<noteq> []" "f2 + length y = l2" and gt: "\<not> cmp a (hd y) \<le> 0"
    and a: "get list1 f1 = Some a" "f1 < l1" "f1 \<noteq> f2" and room: "tp2 + length y < length list2"
  shows "\<exists>y1 y2 lb. y = y1 @ y2 \<and> y1 \<noteq> [] \<and> holds list1 (f2 + length y1) y2 \<and>
    merge_loop cmp list1 l1 l2 list2 f1 f2 tp2 =
      merge_loop cmp list1 l1 l2 lb (f1 + 1) (f2 + length y1) (tp2 + length y1 + 1) \<and>
    holds lb tp2 (y1 @ [a]) \<and> same_outside tp2 (tp2 + length y1 + 1) list2 lb \<and>
    (cmp_order cmp \<longrightarrow> cmp_sorted cmp y \<longrightarrow> (\<forall>v \<in> set y1. 0 < cmp a v) \<and> (y2 \<noteq> [] \<longrightarrow> cmp a (hd y2) \<le> 0))"
proof -
  from cut_second[where cmp = cmp, OF y(1) a(1) y(2) gt, unfolded y(3)]
  obtain b' t1 y1 y2 where cut: "ramp_up cmp list1 f1 0 f2 l2 1 0 = Some (b', t1)"
    "bin_search cmp list1 f1 0 (b' + 1) t1 = Some (f2 + length y1)" "y = y1 @ y2" "y1 \<noteq> []"
    and low: "cmp_order cmp \<longrightarrow> cmp_sorted cmp y \<longrightarrow> (\<forall>v \<in> set y1. 0 < cmp a v) \<and> (y2 \<noteq> [] \<longrightarrow> cmp a (hd y2) \<le> 0)"
    by blast
  have h: "holds list1 f2 y1" "holds list1 (f2 + length y1) y2"
    using y(1) cut(3) by (simp_all add: holds_append)
  have room': "tp2 + length y1 < length list2" using room cut(3) by simp
  from copy_then_put[OF h(1) cut(4) a(1) room']
  obtain la lb where cp: "from_to_upto list1 list2 f2 tp2 (f2 + length y1) = Some (la, f2 + length y1, tp2 + length y1)"
    "put la (tp2 + length y1) (Elem a) = Some lb" "holds lb tp2 (y1 @ [a])"
    "same_outside tp2 (tp2 + length y1 + 1) list2 lb" by blast
  have "get list1 f2 = Some (hd y)"
    using get_holds[OF y(1), of 0] y(2) by (simp add: hd_conv_nth)
  moreover have "f2 < l2" using y(2,3) by (cases y) auto
  ultimately have "merge_loop cmp list1 l1 l2 list2 f1 f2 tp2 =
      merge_loop cmp list1 l1 l2 lb (f1 + 1) (f2 + length y1) (tp2 + length y1 + 1)"
    using gt a cut(1,2) cp(1,2) by (subst merge_loop.simps) (simp add: at_most_def)
  with cut(3,4) h(2) cp(3,4) low show ?thesis by blast
qed

lemma merge_loop_ok:
  assumes "holds list1 f1 x" "holds list1 f2 y" "f1 + length x = l1" "f2 + length y = l2" "l1 \<le> f2"
    "tp2 + length x + length y \<le> length list2"
  shows "loop_result cmp list1 l1 l2 list2 tp2 x y (merge_loop cmp list1 l1 l2 list2 f1 f2 tp2)"
  using assms
proof (induction "length x + length y" arbitrary: x y f1 f2 list2 tp2 rule: less_induct)
  case less
  show ?case
  proof (cases "x = [] \<or> y = []")
    case True
    then have "merged cmp x y (x @ y)" by (auto simp: merged_def)
    moreover have "merge_loop cmp list1 l1 l2 list2 f1 f2 tp2 = Some (list2, f1, f2, tp2)"
      using True less.prems(3,4) by (subst merge_loop.simps) auto
    ultimately show ?thesis
      unfolding loop_result_def using True less.prems
      by (intro exI[of _ list2] exI[of _ f1] exI[of _ f2] exI[of _ "[]"] exI[of _ x] exI[of _ y]) auto
  next
    case False
    then obtain a xs c ys where xy: "x = a # xs" "y = c # ys" by (auto simp: neq_Nil_conv)
    have ga: "get list1 f1 = Some a" and gc: "get list1 f2 = Some c"
      using get_holds[OF less.prems(1), of 0] get_holds[OF less.prems(2), of 0] xy by auto
    have xs: "holds list1 (f1 + 1) xs" and ys: "holds list1 (f2 + 1) ys"
      using less.prems(1,2) holds_append[of list1 f1 "[a]" xs] holds_append[of list1 f2 "[c]" ys] xy by auto
    have ne: "x \<noteq> []" "y \<noteq> []" and lims: "f1 < l1" "f2 < l2" "f1 \<noteq> f2"
      "tp2 + length x < length list2" "tp2 + length y < length list2"
      using less.prems(3-6) xy by auto
    show ?thesis
    proof (cases "cmp a c \<le> 0")
      case True
      with xy have "cmp (hd x) c \<le> 0" by simp
      from merge_step_first[where cmp = cmp, OF less.prems(1) ne(1) less.prems(3) this gc lims(2-4)]
      obtain x1 x2 lb where st: "x = x1 @ x2" "x1 \<noteq> []" "holds list1 (f1 + length x1) x2"
        "merge_loop cmp list1 l1 l2 list2 f1 f2 tp2 =
          merge_loop cmp list1 l1 l2 lb (f1 + length x1) (f2 + 1) (tp2 + length x1 + 1)"
        "holds lb tp2 (x1 @ [c])" "same_outside tp2 (tp2 + length x1 + 1) list2 lb"
        "cmp_order cmp \<longrightarrow> cmp_sorted cmp x \<longrightarrow> (\<forall>v \<in> set x1. cmp v c \<le> 0) \<and> (x2 \<noteq> [] \<longrightarrow> 0 < cmp (hd x2) c)"
        by blast
      have "loop_result cmp list1 l1 l2 lb (tp2 + length x1 + 1) x2 ys
          (merge_loop cmp list1 l1 l2 lb (f1 + length x1) (f2 + 1) (tp2 + length x1 + 1))"
        using less.prems(3-6) st(1,2,6) xy(2)
        by (intro less.hyps st(3) ys) (auto simp: same_outside_def)
      from loop_result_first[OF this st(5,6)] st(1,4,7) xy(2) show ?thesis by simp
    next
      case False
      with xy have "\<not> cmp a (hd y) \<le> 0" by simp
      from merge_step_second[where cmp = cmp, OF less.prems(2) ne(2) less.prems(4) this ga lims(1,3,5)]
      obtain y1 y2 lb where st: "y = y1 @ y2" "y1 \<noteq> []" "holds list1 (f2 + length y1) y2"
        "merge_loop cmp list1 l1 l2 list2 f1 f2 tp2 =
          merge_loop cmp list1 l1 l2 lb (f1 + 1) (f2 + length y1) (tp2 + length y1 + 1)"
        "holds lb tp2 (y1 @ [a])" "same_outside tp2 (tp2 + length y1 + 1) list2 lb"
        "cmp_order cmp \<longrightarrow> cmp_sorted cmp y \<longrightarrow> (\<forall>v \<in> set y1. 0 < cmp a v) \<and> (y2 \<noteq> [] \<longrightarrow> cmp a (hd y2) \<le> 0)"
        by blast
      have "loop_result cmp list1 l1 l2 lb (tp2 + length y1 + 1) xs y2
          (merge_loop cmp list1 l1 l2 lb (f1 + 1) (f2 + length y1) (tp2 + length y1 + 1))"
        using less.prems(3-6) st(1,2,6) xy(1)
        by (intro less.hyps st(3) xs) (auto simp: same_outside_def)
      from loop_result_second[OF this st(5,6)] st(1,4,7) xy(1) show ?thesis by simp
    qed
  qed
qed

text \<open>The run that is left is copied behind what the loop wrote.\<close>

lemma run_out_ok:
  assumes "holds list1 f1 x'" "f1 + length x' = l1" "holds list1 f2 y'" "f2 + length y' = l2"
    "x' = [] \<or> y' = []" "tp2 + length x' + length y' \<le> length l"
  shows "\<exists>l' f. (if f1 = l1 then (if f2 < l2 then from_to_upto list1 l f2 tp2 l2 else Some (l, f2, tp2))
      else from_to_upto list1 l f1 tp2 l1) = Some (l', f, tp2 + length (x' @ y')) \<and>
    holds l' tp2 (x' @ y') \<and> same_outside tp2 (tp2 + length (x' @ y')) l l'"
proof (cases "x' = [] \<and> y' = []")
  case True
  with assms show ?thesis by auto
next
  case ne: False
  show ?thesis
  proof (cases "x' = []")
    case True
    with ne have y: "y' \<noteq> []" by simp
    with assms(4) have "f2 < l2" by (cases y') auto
    with True y assms from_to_upto_ok[OF assms(3) y, of tp2 l] show ?thesis by auto
  next
    case False
    with assms(5) have "y' = []" by simp
    with False assms from_to_upto_ok[OF assms(1) False, of tp2 l] show ?thesis by auto
  qed
qed

text \<open>The whole merge of two runs.\<close>

lemma merge_runs_ok:
  assumes "holds list1 off (x @ y)" "x \<noteq> []" "y \<noteq> []"
    "next_of list2 off = Some (off + length x)"
    "next_of list2 (off + length x) = Some (off + length x + length y)"
    "off + length x + length y \<le> length list2"
  shows "\<exists>list2' m. merge_runs cmp list1 list2 off =
      Some (list1[off := Next (off + length x + length y)], list2', off + length x + length y) \<and>
    holds list2' off m \<and> same_outside off (off + length x + length y) list2 list2' \<and> merged cmp x y m \<and>
    length m = length x + length y"
proof -
  have xy: "holds list1 off x" "holds list1 (off + length x) y" using assms(1) by (simp_all add: holds_append)
  from merge_loop_ok[OF xy refl refl order_refl assms(6), of cmp]
  obtain l f1 f2 out x' y' where
    r: "merge_loop cmp list1 (off + length x) (off + length x + length y) list2 off (off + length x) off =
        Some (l, f1, f2, off + length out)"
      "holds list1 f1 x'" "f1 + length x' = off + length x" "holds list1 f2 y'"
      "f2 + length y' = off + length x + length y" "x' = [] \<or> y' = []"
      "length out + length x' + length y' = length x + length y"
      "holds l off out" "same_outside off (off + length out) list2 l" "merged cmp x y (out @ x' @ y')"
    unfolding loop_result_def by blast
  have "off + length out + length x' + length y' \<le> length l"
    using r(7,9) assms(6) by (simp add: same_outside_def)
  from run_out_ok[OF r(2-6) this]
  obtain l' f where l': "(if f1 = off + length x then
      (if f2 < off + length x + length y then from_to_upto list1 l f2 (off + length out) (off + length x + length y)
       else Some (l, f2, off + length out))
    else from_to_upto list1 l f1 (off + length out) (off + length x)) = Some (l', f, off + length out + length (x' @ y'))"
    "holds l' (off + length out) (x' @ y')"
    "same_outside (off + length out) (off + length out + length (x' @ y')) l l'" by blast
  have len: "length (out @ x' @ y') = length x + length y" using r(7) by simp
  have "holds l' off out" by (rule holds_same[OF r(8) l'(3)]) simp
  with l'(2) have "holds l' off (out @ x' @ y')" by (subst holds_append) simp
  moreover have "same_outside off (off + length x + length y) list2 l'"
    by (rule same_outside_trans[OF r(9) l'(3)]) (use len in auto)
  moreover have "put list1 off (Next (off + length out + length (x' @ y'))) =
      Some (list1[off := Next (off + length x + length y)])"
    using put_Some[of off list1] xy(1) assms(2) len by (cases x) (auto simp: holds_def add.assoc)
  then have "merge_runs cmp list1 list2 off =
      Some (list1[off := Next (off + length x + length y)], l', off + length x + length y)"
    by (simp only: merge_runs_def Let_def assms(4,5) r(1) l'(1) bind.simps prod.case)
  ultimately show ?thesis using r(10) len by blast
qed

end
