(* ===== verification/Merge_Sort.thy ===== *)
theory Merge_Sort
  imports Sort_Merge
begin

text \<open>
  \<open>S_mergesortsv\<close> of \<open>pp_sort.c\<close>: the recursive merge sort, with its pseudo-stack of levels.
  A level holds the offset of the first of two runs and how many runs are still to be made
  into the second. The lemmas show that the loop comes back from every level with one run
  in the array where that level's run belongs, within the 60 levels of the stack, and that
  the whole returns the elements sorted.
\<close>

section \<open>The code\<close>

record off_runs =
  ofs :: nat      \<comment> \<open>\<open>offset\<close>: of the first of two runs at this level\<close>
  nruns :: nat    \<comment> \<open>\<open>runs\<close>: how many runs must be combined into one\<close>

definition SMALLSORT :: nat where
  "SMALLSORT = 200"

definition stack_size :: nat where
  "stack_size = 60"

text \<open>
  \<open>which\<close>: the array where the run of a level is made, and the other one. \<open>stackp\<close> is the head
  of the list and \<open>level\<close> the number of entries below it.
\<close>

definition which_put :: "nat \<Rightarrow> 'a buf \<Rightarrow> 'a buf \<Rightarrow> 'a buf \<times> 'a buf" where
  "which_put level base aux = (if even level then (base, aux) else (aux, base))"

text \<open>
  The body of the \<open>do\<close> loop: merge the two runs of a level, which are in \<open>which[level & 1]\<close>,
  into the other array. Swapping \<open>list1\<close> and \<open>list2\<close> for the next level up is the change of
  the parity of \<open>level\<close>.
\<close>

definition merge_level :: "'a cmp \<Rightarrow> nat \<Rightarrow> nat \<Rightarrow> 'a buf \<Rightarrow> 'a buf \<Rightarrow> ('a buf \<times> 'a buf \<times> nat) option" where
  "merge_level cmp level offset base aux = do {
     let (list1, list2) = which_put level base aux;
     (list1, list2, offset) \<leftarrow> merge_runs cmp list1 list2 offset;
     let (base, aux) = which_put level list1 list2;
     Some (base, aux, offset)
   }"

text \<open>\<open>while (runs > 2)\<close>: stack the second half of the runs and go on with the first.\<close>

function split_runs :: "nat \<Rightarrow> nat \<Rightarrow> off_runs list \<Rightarrow> (nat \<times> off_runs list) option" where
  "split_runs runs offset stack =
    (if runs > 2 then
       (if length stack < stack_size then
          split_runs (runs - runs div 2) offset (\<lparr>ofs = offset, nruns = runs div 2\<rparr> # stack)
        else None)
     else Some (runs, stack))"
  by pat_completeness auto
termination by (relation "measure (\<lambda>(runs, _). runs)") auto

text \<open>Copy a run from \<open>base\<close> to \<open>aux\<close>.\<close>

definition copy_run :: "nat \<Rightarrow> 'a buf \<Rightarrow> 'a buf \<Rightarrow> ('a buf \<times> 'a buf \<times> nat) option" where
  "copy_run offset base aux = do {
     t \<leftarrow> next_of aux offset;
     (aux, _, _) \<leftarrow> from_to_upto base aux offset offset t;
     base \<leftarrow> put base offset (Next t);
     Some (base, aux, t)
   }"

text \<open>Copy two runs from \<open>base\<close> to \<open>aux\<close>; the offset is the end of the first.\<close>

definition copy_two_runs :: "nat \<Rightarrow> 'a buf \<Rightarrow> 'a buf \<Rightarrow> ('a buf \<times> 'a buf \<times> nat) option" where
  "copy_two_runs offset base aux = do {
     p \<leftarrow> next_of aux offset;
     t \<leftarrow> next_of aux p;
     (aux, _, _) \<leftarrow> from_to_upto base aux offset offset t;
     base \<leftarrow> put base offset (Next p);
     base \<leftarrow> put base p (Next t);
     Some (base, aux, p)
   }"

text \<open>
  The rest of the loop's body: make a single run of \<open>runs\<close> runs. Gives the stack, the offset,
  both arrays and whether the sort is done.
\<close>

definition construct ::
  "off_runs list \<Rightarrow> nat \<Rightarrow> 'a buf \<Rightarrow> 'a buf \<Rightarrow> nat \<Rightarrow> (off_runs list \<times> nat \<times> 'a buf \<times> 'a buf \<times> bool) option" where
  "construct stack offset base aux runs = do {
     (runs, stack) \<leftarrow> split_runs runs offset stack;
     let level = length stack - 1;
     if runs = 1 then
       (if odd level then do {
          (base, aux, offset) \<leftarrow> copy_run offset base aux;
          Some (stack, offset, base, aux, False)
        } else Some (stack, offset, base, aux, level = 0))
     else if length stack < stack_size then do {
       let stack = \<lparr>ofs = offset, nruns = 0\<rparr> # stack;
       if even level then do {
         (base, aux, offset) \<leftarrow> copy_two_runs offset base aux;
         Some (stack, offset, base, aux, False)
       } else Some (stack, offset, base, aux, False)
     } else None
   }"

text \<open>The loop: both arrays when it is done.\<close>

partial_function (option) sort_loop ::
  "'a cmp \<Rightarrow> off_runs list \<Rightarrow> nat \<Rightarrow> 'a buf \<Rightarrow> 'a buf \<Rightarrow> ('a buf \<times> 'a buf) option" where
  "sort_loop cmp stack offset base aux =
    (case stack of
       [] \<Rightarrow> None
     | fr # lower \<Rightarrow>
         if nruns fr = 0 then
           Option.bind (merge_level cmp (length lower) (ofs fr) base aux) (\<lambda>(base, aux, offset).
           if length lower = 1 then Some (base, aux) else sort_loop cmp lower offset base aux)
         else
           Option.bind (construct (fr\<lparr>nruns := 0\<rparr> # lower) offset base aux (nruns fr))
             (\<lambda>(stack, offset, base, aux, finished).
               if finished then Some (base, aux) else sort_loop cmp stack offset base aux))"

declare sort_loop.simps [code]

definition SORTf_DESC :: nat where "SORTf_DESC = 1"
definition SORTf_STABLE :: nat where "SORTf_STABLE = 2"
definition SORTf_QSORT :: nat where "SORTf_QSORT = 4"

text \<open>\<open>cmp_desc\<close>: the \<open>I32\<close> is negated.\<close>

definition cmp_desc :: "'a cmp \<Rightarrow> 'a cmp" where
  "cmp_desc cmp a b = (let c = cmp a b in if c = - (2 ^ 31) then c else - c)"

text \<open>
  The sort: the sorted array, and \<open>PL_sort_RealCmp\<close> after it (\<open>None\<close> is a null pointer). The
  array \<open>small\<close> is not initialised. While the sort runs in descending order,
  \<open>PL_sort_RealCmp\<close> is the comparison it was called with.
\<close>

definition S_mergesortsv ::
  "allocator \<Rightarrow> 'a list \<Rightarrow> 'a cmp \<Rightarrow> nat \<Rightarrow> 'a cmp option \<Rightarrow> ('a buf \<times> 'a cmp option) option result" where
  "S_mergesortsv m base cmp flags PL_sort_RealCmp =
    (let nmemb = length base in
     if nmemb \<le> 1 then Inr (Some (map Elem base, PL_sort_RealCmp))
     else let desc = flags AND SORTf_DESC \<noteq> 0;
              savecmp = (if desc then PL_sort_RealCmp else None);
              RealCmp = (if desc then Some cmp else PL_sort_RealCmp);
              cmp = (if desc then cmp_desc cmp else cmp)
     in if nmemb > SMALLSORT \<and> \<not> newx m nmemb 8 then Inl Out_of_memory
     else let aux = replicate (if nmemb \<le> SMALLSORT then SMALLSORT else nmemb) Junk in
     Inr (do {
       (base, aux, runs) \<leftarrow> dynprep cmp nmemb (map Elem base) aux;
       (base, aux) \<leftarrow> sort_loop cmp [\<lparr>ofs = 0, nruns = runs\<rparr>] 0 base aux;
       Some (base, if flags \<noteq> 0 then savecmp else RealCmp)
     }))"

declare split_runs.simps [simp del]

section \<open>One level\<close>

text \<open>
  \<open>made level off m base aux\<close>: the run \<open>m\<close> stands at \<open>off\<close> in the array of the level, and the
  other array links to its end.
\<close>

definition made :: "nat \<Rightarrow> nat \<Rightarrow> 'a list \<Rightarrow> 'a buf \<Rightarrow> 'a buf \<Rightarrow> bool" where
  "made level off m base aux \<longleftrightarrow>
    holds (fst (which_put level base aux)) off m \<and>
    next_of (snd (which_put level base aux)) off = Some (off + length m)"

text \<open>The original runs, before anything is made of them.\<close>

definition raw_runs :: "nat \<Rightarrow> 'a list list \<Rightarrow> 'a buf \<Rightarrow> 'a buf \<Rightarrow> bool" where
  "raw_runs off rs base aux \<longleftrightarrow>
    holds base off (concat rs) \<and> chain_at aux off rs \<and> off + length (concat rs) \<le> length aux"

text \<open>\<open>m\<close> combines the runs: if they are sorted versions of segments, it is one of all of them.\<close>

definition combines :: "'a cmp \<Rightarrow> 'a list list \<Rightarrow> 'a list \<Rightarrow> bool" where
  "combines cmp rs m \<longleftrightarrow> m \<noteq> [] \<and> length m = length (concat rs) \<and>
    (\<forall>segs. list_all2 (sorted_version cmp) segs rs \<longrightarrow> sorted_version cmp (concat segs) m)"

lemma combines_single: "r \<noteq> [] \<Longrightarrow> combines cmp [r] r"
  by (auto simp: combines_def list_all2_Cons2)

lemma combines_merged:
  assumes "combines cmp rs m" "combines cmp ss n" "merged cmp m n k"
  shows "combines cmp (rs @ ss) k"
proof -
  have "length k = length m + length n"
    using assms(3) unfolding merged_def by (metis mset_eq_length mset_append length_append)
  moreover from this have "k \<noteq> []" using assms(1) by (cases k) (auto simp del: length_concat simp: combines_def)
  ultimately show ?thesis
    using assms by (auto simp: combines_def list_all2_append2 intro!: merged_version)
qed

lemma which_put_twice:
  "which_put level base aux = (l1, l2) \<Longrightarrow> which_put level l1' l2' = (base', aux') \<Longrightarrow>
   which_put level base' aux' = (l1', l2')"
  by (auto simp: which_put_def split: if_splits)

lemma which_put_Suc: "which_put (Suc level) base aux = (snd (which_put level base aux), fst (which_put level base aux))"
  by (simp add: which_put_def)

definition untouched :: "nat \<Rightarrow> nat \<Rightarrow> 'a buf \<Rightarrow> 'a buf \<Rightarrow> 'a buf \<Rightarrow> 'a buf \<Rightarrow> bool" where
  "untouched i j base aux base' aux' \<longleftrightarrow> same_outside i j base base' \<and> same_outside i j aux aux'"

lemma untouched_trans:
  "untouched i j b a b' a' \<Longrightarrow> untouched i' j' b' a' b'' a'' \<Longrightarrow> l \<le> i \<Longrightarrow> l \<le> i' \<Longrightarrow> j \<le> h \<Longrightarrow> j' \<le> h \<Longrightarrow>
   untouched l h b a b'' a''"
  unfolding untouched_def by (blast intro: same_outside_trans)

lemma untouched_which:
  "untouched i j b a b' a' \<longleftrightarrow>
   same_outside i j (fst (which_put level b a)) (fst (which_put level b' a')) \<and>
   same_outside i j (snd (which_put level b a)) (snd (which_put level b' a'))"
  by (auto simp: untouched_def which_put_def)

lemma next_of_same: "next_of b i = Some n \<Longrightarrow> same_outside l h b b' \<Longrightarrow> i < l \<or> h \<le> i \<Longrightarrow> next_of b' i = Some n"
  by (auto simp: next_of_def same_outside_def split: if_splits)

lemma made_kept:
  "made level off m b a \<Longrightarrow> m \<noteq> [] \<Longrightarrow> untouched l h b a b' a' \<Longrightarrow> off + length m \<le> l \<Longrightarrow> made level off m b' a'"
  unfolding made_def untouched_which[where level = level]
  by (metis holds_same next_of_same length_greater_0_conv less_add_same_cancel1 less_le_trans)

lemma raw_runs_kept:
  assumes "raw_runs off rs b a" "untouched l h b a b' a'" "h \<le> off"
  shows "raw_runs off rs b' a'"
  using assms holds_same[of b off "concat rs" l h b'] chain_at_same[of a off rs l h a']
  by (auto simp: raw_runs_def untouched_def same_outside_def)

text \<open>The merge of a level whose two runs are made.\<close>

lemma merge_level_ok:
  assumes "made (Suc level) off m base aux" "made (Suc level) (off + length m) n base aux" "m \<noteq> []" "n \<noteq> []"
    "off + length m + length n \<le> length base" "off + length m + length n \<le> length aux"
  shows "\<exists>base' aux' k. merge_level cmp (Suc level) off base aux = Some (base', aux', off + length m + length n) \<and>
    made level off k base' aux' \<and> untouched off (off + length m + length n) base aux base' aux' \<and>
    merged cmp m n k \<and> length k = length m + length n"
proof -
  obtain l1 l2 where w: "which_put (Suc level) base aux = (l1, l2)" by force
  have len: "off + length m + length n \<le> length l1" "off + length m + length n \<le> length l2"
    using w assms(5,6) by (auto simp: which_put_def split: if_splits)
  have "holds l1 off (m @ n)" "next_of l2 off = Some (off + length m)"
      "next_of l2 (off + length m) = Some (off + length m + length n)"
    using assms(1,2) w by (simp_all add: made_def holds_append)
  from merge_runs_ok[where cmp = cmp, OF this(1) assms(3,4) this(2,3) len(2)]
  obtain l2' k where r: "merge_runs cmp l1 l2 off =
      Some (l1[off := Next (off + length m + length n)], l2', off + length m + length n)"
    "holds l2' off k" "same_outside off (off + length m + length n) l2 l2'" "merged cmp m n k"
    "length k = length m + length n" by blast
  define l1' where "l1' = l1[off := Next (off + length m + length n)]"
  obtain base' aux' where w': "which_put (Suc level) l1' l2' = (base', aux')" by force
  have wb: "which_put (Suc level) base' aux' = (l1', l2')" by (rule which_put_twice[OF w w'])
  have off: "off < length l1" using len(1) assms(3) by (cases m) auto
  then have l1': "same_outside off (off + length m + length n) l1 l1'" "next_of l1' off = Some (off + length k)"
    using assms(3) r(5) by (auto simp: l1'_def next_of_def intro!: same_outside_put)
  have "made level off k base' aux'"
    using wb l1'(2) r(2) by (simp add: made_def which_put_Suc)
  moreover have "untouched off (off + length m + length n) base aux base' aux'"
    using w wb l1'(1) r(3) by (simp add: untouched_which[where level = "Suc level"])
  moreover have "merge_level cmp (Suc level) off base aux = Some (base', aux', off + length m + length n)"
    using w w' r(1) by (simp add: merge_level_def l1'_def)
  ultimately show ?thesis using r(4,5) by blast
qed

section \<open>The loop\<close>

text \<open>What the loop does after a level's run is made, and the making of a level's run.\<close>

definition sort_cont ::
  "'a cmp \<Rightarrow> off_runs list \<Rightarrow> nat \<Rightarrow> 'a buf \<Rightarrow> 'a buf \<Rightarrow> ('a buf \<times> 'a buf) option" where
  "sort_cont cmp stack offset base aux =
    (if length stack = 1 then Some (base, aux) else sort_loop cmp stack offset base aux)"

definition build ::
  "'a cmp \<Rightarrow> off_runs list \<Rightarrow> nat \<Rightarrow> 'a buf \<Rightarrow> 'a buf \<Rightarrow> nat \<Rightarrow> ('a buf \<times> 'a buf) option" where
  "build cmp stack offset base aux runs =
    Option.bind (construct stack offset base aux runs) (\<lambda>(stack, offset, base, aux, finished).
      if finished then Some (base, aux) else sort_loop cmp stack offset base aux)"

lemma sort_loop_build:
  "nruns fr \<noteq> 0 \<Longrightarrow> sort_loop cmp (fr # lower) offset base aux = build cmp (fr\<lparr>nruns := 0\<rparr> # lower) offset base aux (nruns fr)"
  by (subst sort_loop.simps) (simp add: build_def)

lemma sort_loop_merge:
  "nruns fr = 0 \<Longrightarrow> merge_level cmp (length lower) (ofs fr) base aux = Some (base', aux', offset') \<Longrightarrow>
   sort_loop cmp (fr # lower) offset base aux = sort_cont cmp lower offset' base' aux'"
  by (subst sort_loop.simps) (simp add: sort_cont_def)

lemma build_split:
  "2 < runs \<Longrightarrow> length stack < stack_size \<Longrightarrow>
   build cmp stack offset base aux runs =
   build cmp (\<lparr>ofs = offset, nruns = runs div 2\<rparr> # stack) offset base aux (runs - runs div 2)"
  unfolding build_def construct_def by (subst split_runs.simps) simp

text \<open>\<open>built\<close>: the loop has come to make one run, \<open>m\<close>, out of the runs at \<open>off\<close>.\<close>

definition built ::
  "'a cmp \<Rightarrow> off_runs list \<Rightarrow> nat \<Rightarrow> 'a buf \<Rightarrow> 'a buf \<Rightarrow> 'a list list \<Rightarrow> bool" where
  "built cmp stack off base aux rs \<longleftrightarrow>
    (\<exists>off' base' aux' m. build cmp stack off base aux (length rs) = sort_cont cmp stack off' base' aux' \<and>
      made (length stack - 1) off m base' aux' \<and> untouched off (off + length (concat rs)) base aux base' aux' \<and>
      combines cmp rs m \<and> (2 \<le> length rs \<longrightarrow> off' = off + length m))"

lemma copy_run_ok:
  assumes "raw_runs off [r] base aux" "r \<noteq> []"
  shows "\<exists>base' aux'. copy_run off base aux = Some (base', aux', off + length r) \<and>
    holds aux' off r \<and> next_of base' off = Some (off + length r) \<and>
    untouched off (off + length r) base aux base' aux'"
proof -
  have "0 < length r" using assms(2) by simp
  then have r: "holds base off r" "next_of aux off = Some (off + length r)" "off + length r \<le> length aux" "off < length base"
    using assms(1) by (auto simp: raw_runs_def next_of_def holds_def simp del: length_greater_0_conv)
  from from_to_upto_ok[OF r(1) assms(2) r(3)] obtain aux' where
    c: "from_to_upto base aux off off (off + length r) = Some (aux', off + length r, off + length r)"
      "holds aux' off r" "same_outside off (off + length r) aux aux'" by blast
  with r put_Some[OF r(4)] assms(2) show ?thesis
    by (auto simp: copy_run_def next_of_def untouched_def intro!: same_outside_put)
qed

lemma copy_two_runs_ok:
  assumes "raw_runs off [r, s] base aux" "r \<noteq> []" "s \<noteq> []"
  shows "\<exists>base' aux' p. copy_two_runs off base aux = Some (base', aux', p) \<and>
    holds aux' off (r @ s) \<and> next_of base' off = Some (off + length r) \<and>
    next_of base' (off + length r) = Some (off + length r + length s) \<and>
    untouched off (off + length (r @ s)) base aux base' aux'"
proof -
  have "0 < length r" "0 < length s" using assms(2,3) by simp_all
  then have r: "holds base off (r @ s)" "next_of aux off = Some (off + length r)"
      "next_of aux (off + length r) = Some (off + length (r @ s))"
      "off + length (r @ s) \<le> length aux" "off < length base" "off + length r < length base"
    using assms(1) by (auto simp: raw_runs_def next_of_def holds_def simp del: length_greater_0_conv)
  have ne: "r @ s \<noteq> []" "off \<noteq> off + length r" using assms(2) by auto
  from from_to_upto_ok[OF r(1) ne(1) r(4)] obtain aux' where
    c: "from_to_upto base aux off off (off + length (r @ s)) = Some (aux', off + length (r @ s), off + length (r @ s))"
      "holds aux' off (r @ s)" "same_outside off (off + length (r @ s)) aux aux'" by blast
  define b where "b = base[off := Next (off + length r), off + length r := Next (off + length (r @ s))]"
  have "copy_two_runs off base aux = Some (b, aux', off + length r)"
    using r c(1) by (simp add: copy_two_runs_def put_Some b_def)
  moreover have "next_of b off = Some (off + length r)" "next_of b (off + length r) = Some (off + length r + length s)"
    using r(5,6) ne(2) by (auto simp: b_def next_of_def nth_list_update)
  moreover have "same_outside off (off + length (r @ s)) base b"
    using \<open>0 < length r\<close> \<open>0 < length s\<close>
    by (auto simp: b_def same_outside_def nth_list_update simp del: length_greater_0_conv)
  ultimately show ?thesis using c(2,3) by (auto simp: untouched_def)
qed

lemma built_one:
  assumes "raw_runs off [r] base aux" "r \<noteq> []" "1 < length stack"
  shows "built cmp stack off base aux [r]"
proof -
  have sr: "split_runs 1 off stack = Some (1, stack)" by (subst split_runs.simps) simp
  have r: "holds base off r" "next_of aux off = Some (off + length r)"
    using assms(1) by (auto simp: raw_runs_def next_of_def)
  show ?thesis
  proof (cases "odd (length stack - 1)")
    case True
    from copy_run_ok[OF assms(1,2)] obtain base' aux' where
      c: "copy_run off base aux = Some (base', aux', off + length r)" "holds aux' off r"
        "next_of base' off = Some (off + length r)" "untouched off (off + length r) base aux base' aux'" by blast
    have "build cmp stack off base aux 1 = sort_cont cmp stack (off + length r) base' aux'"
      using True c(1) sr assms(3) by (simp add: build_def construct_def sort_cont_def)
    moreover have "made (length stack - 1) off r base' aux'"
      using True c(2,3) by (simp add: made_def which_put_def)
    ultimately show ?thesis
      unfolding built_def using c(4) combines_single[OF assms(2)]
      by (intro exI[of _ "off + length r"] exI[of _ base'] exI[of _ aux'] exI[of _ r]) simp
  next
    case False
    have "build cmp stack off base aux 1 = sort_cont cmp stack off base aux"
      using False sr assms(3) by (auto simp: build_def construct_def sort_cont_def)
    moreover have "made (length stack - 1) off r base aux"
      using False r by (simp add: made_def which_put_def)
    ultimately show ?thesis
      unfolding built_def using combines_single[OF assms(2)]
      by (intro exI[of _ off] exI[of _ base] exI[of _ aux] exI[of _ r]) (simp add: untouched_def)
  qed
qed

text \<open>The merge of two made runs finishes the level below.\<close>

lemma built_merge:
  assumes eq: "build cmp stack off base aux (length rs) = sort_loop cmp (\<lparr>ofs = off, nruns = 0\<rparr> # stack) off1 b1 a1"
    and made: "made (length stack) off m b1 a1" "made (length stack) (off + length m) n b1 a1"
    and u: "untouched off (off + length (concat rs)) base aux b1 a1"
    and c: "rs = rs1 @ rs2" "combines cmp rs1 m" "combines cmp rs2 n"
    and room: "off + length (concat rs) \<le> length base" "off + length (concat rs) \<le> length aux" and "stack \<noteq> []"
  shows "built cmp stack off base aux rs"
proof -
  have len: "length m + length n = length (concat rs)" and ne: "m \<noteq> []" "n \<noteq> []"
    using c by (auto simp: combines_def)
  have S: "Suc (length stack - 1) = length stack" using assms(10) by (cases stack) auto
  have "off + length m + length n \<le> length b1" "off + length m + length n \<le> length a1"
    using room u len by (auto simp: untouched_def same_outside_def)
  with merge_level_ok[of "length stack - 1" off m b1 a1 n cmp] made ne
  obtain base' aux' k where k: "merge_level cmp (length stack) off b1 a1 = Some (base', aux', off + length m + length n)"
    "made (length stack - 1) off k base' aux'" "untouched off (off + length m + length n) b1 a1 base' aux'"
    "merged cmp m n k" "length k = length m + length n"
    unfolding S by blast
  have "build cmp stack off base aux (length rs) = sort_cont cmp stack (off + length m + length n) base' aux'"
    unfolding eq by (rule sort_loop_merge) (use k(1) in simp_all)
  moreover have "untouched off (off + length (concat rs)) base aux base' aux'"
    by (rule untouched_trans[OF u k(3)]) (use len in auto)
  moreover have "combines cmp rs k"
    unfolding c(1) by (rule combines_merged[OF c(2,3) k(4)])
  moreover have "off + length m + length n = off + length k" using k(5) by simp
  ultimately show ?thesis using k(2) unfolding built_def by blast
qed

lemma built_two:
  assumes "raw_runs off [r, s] base aux" "r \<noteq> []" "s \<noteq> []" "stack \<noteq> []" "length stack < stack_size"
  shows "built cmp stack off base aux [r, s]"
proof -
  have sr: "split_runs 2 off stack = Some (2, stack)" by (subst split_runs.simps) simp
  have room: "off + length (concat [r, s]) \<le> length base" "off + length (concat [r, s]) \<le> length aux"
    using assms(1) by (auto simp: raw_runs_def holds_def)
  have c: "[r, s] = [r] @ [s]" "combines cmp [r] r" "combines cmp [s] s"
    using assms(2,3) by (auto intro: combines_single)
  show ?thesis
  proof (cases "even (length stack - 1)")
    case True
    then have odd: "odd (length stack)" using assms(4) by (cases stack) auto
    from copy_two_runs_ok[OF assms(1-3)] obtain base' aux' p where
      w: "copy_two_runs off base aux = Some (base', aux', p)" "holds aux' off (r @ s)"
        "next_of base' off = Some (off + length r)" "next_of base' (off + length r) = Some (off + length r + length s)"
        "untouched off (off + length (r @ s)) base aux base' aux'" by blast
    have "build cmp stack off base aux (length [r, s]) =
        sort_loop cmp (\<lparr>ofs = off, nruns = 0\<rparr> # stack) p base' aux'"
      using True w(1) sr assms(5) by (simp add: build_def construct_def numeral_2_eq_2)
    then show ?thesis
      by (rule built_merge[OF _ _ _ _ c room assms(4)])
        (use odd w in \<open>auto simp: made_def which_put_def holds_append\<close>)
  next
    case False
    then have even: "even (length stack)" using assms(4) by (cases stack) auto
    have "build cmp stack off base aux (length [r, s]) =
        sort_loop cmp (\<lparr>ofs = off, nruns = 0\<rparr> # stack) off base aux"
      using False sr assms(5) by (simp add: build_def construct_def numeral_2_eq_2)
    then show ?thesis
      by (rule built_merge[OF _ _ _ _ c room assms(4)])
        (use even assms(1) in \<open>auto simp: made_def which_put_def holds_append raw_runs_def next_of_def untouched_def\<close>)
  qed
qed

text \<open>Every level is finished, as long as the stack has room for the halvings.\<close>

lemma raw_runs_append:
  "raw_runs off (rs @ ss) base aux \<longleftrightarrow>
   raw_runs off rs base aux \<and> raw_runs (off + length (concat rs)) ss base aux"
  by (auto simp: raw_runs_def holds_append chain_at_append)

lemma raw_runs_nonempty: "raw_runs off rs base aux \<Longrightarrow> r \<in> set rs \<Longrightarrow> r \<noteq> []"
proof -
  have "chain_at b i rs \<Longrightarrow> r \<in> set rs \<Longrightarrow> r \<noteq> []" for b :: "'a buf" and i
    by (induction rs arbitrary: i) auto
  then show "raw_runs off rs base aux \<Longrightarrow> r \<in> set rs \<Longrightarrow> r \<noteq> []"
    unfolding raw_runs_def by blast
qed

lemma built_step:
  assumes rs: "rs = rs1 @ rs2" "length rs2 = length rs div 2" "2 < length rs"
    and S: "stack \<noteq> []" "length stack < stack_size"
    and raw: "raw_runs off rs base aux"
    and first: "\<And>fr. built cmp (fr # stack) off base aux rs1"
    and second: "\<And>fr off' b a. raw_runs off' rs2 b a \<Longrightarrow> built cmp (fr # stack) off' b a rs2"
  shows "built cmp stack off base aux rs"
proof -
  let ?fr = "\<lparr>ofs = off, nruns = length rs div 2\<rparr>"
  have l1: "length rs - length rs div 2 = length rs1" "2 \<le> length rs1" "length rs div 2 \<noteq> 0" using rs by auto
  from first[of ?fr] obtain off1 b1 a1 m where
    f: "build cmp (?fr # stack) off base aux (length rs1) = sort_cont cmp (?fr # stack) off1 b1 a1"
      "made (length stack) off m b1 a1" "untouched off (off + length (concat rs1)) base aux b1 a1"
      "combines cmp rs1 m" "off1 = off + length m"
    using l1(2) unfolding built_def by auto
  have lm: "length m = length (concat rs1)" "m \<noteq> []" using f(4) by (auto simp: combines_def)
  have raw2: "raw_runs off1 rs2 b1 a1"
    using raw raw_runs_kept[OF _ f(3), of "off + length (concat rs1)" rs2] rs(1) f(5) lm(1)
    by (simp add: raw_runs_append)
  from second[OF raw2, of "?fr\<lparr>nruns := 0\<rparr>"] obtain off2 b2 a2 n where
    s: "build cmp (?fr\<lparr>nruns := 0\<rparr> # stack) off1 b1 a1 (length rs2) = sort_cont cmp (?fr\<lparr>nruns := 0\<rparr> # stack) off2 b2 a2"
      "made (length stack) off1 n b2 a2" "untouched off1 (off1 + length (concat rs2)) b1 a1 b2 a2"
      "combines cmp rs2 n"
    unfolding built_def by auto
  have "build cmp stack off base aux (length rs) = build cmp (?fr # stack) off base aux (length rs1)"
    using build_split[OF rs(3) S(2)] l1(1) by simp
  also have "\<dots> = sort_loop cmp (?fr # stack) off1 b1 a1"
    using f(1) S(1) by (simp add: sort_cont_def)
  also have "\<dots> = build cmp (?fr\<lparr>nruns := 0\<rparr> # stack) off1 b1 a1 (length rs2)"
    using sort_loop_build[of ?fr cmp stack off1 b1 a1] l1(3) rs(2) by simp
  also have "\<dots> = sort_loop cmp (?fr\<lparr>nruns := 0\<rparr> # stack) off2 b2 a2"
    using s(1) S(1) by (simp add: sort_cont_def)
  finally have eq: "build cmp stack off base aux (length rs) = sort_loop cmp (\<lparr>ofs = off, nruns = 0\<rparr> # stack) off2 b2 a2"
    by simp
  have "made (length stack) off m b2 a2"
    by (rule made_kept[OF f(2) lm(2) s(3)]) (simp add: f(5))
  moreover have "untouched off (off + length (concat rs)) base aux b2 a2"
    by (rule untouched_trans[OF f(3) s(3)]) (use rs(1) f(5) lm(1) in auto)
  moreover have "off + length (concat rs) \<le> length base" "off + length (concat rs) \<le> length aux"
    using raw by (auto simp: raw_runs_def holds_def)
  ultimately show ?thesis
    using s(2) f(5) by (intro built_merge[OF eq _ _ _ rs(1) f(4) s(4) _ _ S(1)]) auto
qed

lemma built_ok:
  assumes "raw_runs off rs base aux" "rs \<noteq> []" "length rs = 1 \<longrightarrow> 1 < length stack" "stack \<noteq> []"
    "length rs \<le> 2 ^ k" "length stack + k \<le> stack_size"
  shows "built cmp stack off base aux rs"
  using assms
proof (induction "length rs" arbitrary: rs off base aux stack k rule: less_induct)
  case less
  have "0 < length rs" using less.prems(2) by simp
  then consider "length rs = 1" | "length rs = 2" | "2 < length rs" by linarith
  then show ?case
  proof cases
    case 1
    then obtain r where "rs = [r]" by (auto simp: length_Suc_conv)
    with less.prems raw_runs_nonempty[OF less.prems(1), of r] 1 show ?thesis by (auto intro: built_one)
  next
    case 2
    then obtain r s where rs: "rs = [r, s]" by (auto simp: numeral_2_eq_2 length_Suc_conv)
    with less.prems(5) have "0 < k" by (cases k) auto
    with rs less.prems raw_runs_nonempty[OF less.prems(1), of r] raw_runs_nonempty[OF less.prems(1), of s]
    show ?thesis by (auto intro!: built_two)
  next
    case 3
    define h where "h = length rs - length rs div 2"
    have h: "2 \<le> h" "h < length rs" "0 < length rs div 2" "length rs div 2 < length rs" using 3 by (auto simp: h_def)
    obtain j where k: "k = Suc j" using 3 less.prems(5) by (cases k) auto
    have hj: "h \<le> 2 ^ j" "length rs div 2 \<le> 2 ^ j" using less.prems(5) by (auto simp: h_def k)
    have rs: "rs = take h rs @ drop h rs" "length (drop h rs) = length rs div 2" by (simp_all add: h_def)
    have len: "length (take h rs) = h" using h by simp
    have split: "raw_runs off (take h rs @ drop h rs) base aux" using less.prems(1) by simp
    show ?thesis
    proof (rule built_step[OF rs 3 less.prems(4) _ less.prems(1)])
      show "length stack < stack_size" using less.prems(6) k by simp
      show "built cmp (fr # stack) off base aux (take h rs)" for fr
        using split h hj len less.prems(6) k
        by (intro less.hyps[where k = j]) (auto simp: raw_runs_append simp del: append_take_drop_id)
      show "built cmp (fr # stack) off' b a (drop h rs)" if "raw_runs off' (drop h rs) b a" for fr off' b a
        using that rs(2) h hj less.prems(4,6) k
        by (intro less.hyps[where k = j]) (auto simp: neq_Nil_conv)
    qed
  qed
qed

section \<open>The sort\<close>

lemma sort_loop_ok:
  assumes "raw_runs 0 rs base aux" "rs \<noteq> []" "length rs \<le> 2 ^ 59" "length base = length (concat rs)"
    "length rs = 1 \<Longrightarrow> base = map Elem (concat rs)"
  shows "\<exists>m aux'. sort_loop cmp [\<lparr>ofs = 0, nruns = length rs\<rparr>] 0 base aux = Some (map Elem m, aux') \<and> combines cmp rs m"
proof (cases "length rs = 1")
  case True
  then obtain r where rs: "rs = [r]" by (auto simp: length_Suc_conv)
  have "split_runs 1 0 [\<lparr>ofs = 0, nruns = 0\<rparr>] = Some (1, [\<lparr>ofs = 0, nruns = 0\<rparr>])"
    by (subst split_runs.simps) simp
  then have "sort_loop cmp [\<lparr>ofs = 0, nruns = length rs\<rparr>] 0 base aux = Some (map Elem r, aux)"
    using rs assms(5) by (subst sort_loop.simps) (simp add: construct_def)
  with combines_single[of r cmp] raw_runs_nonempty[OF assms(1), of r] rs show ?thesis by auto
next
  case False
  have "built cmp [\<lparr>ofs = 0, nruns = 0\<rparr>] 0 base aux rs"
    by (rule built_ok[OF assms(1,2) _ _ assms(3)]) (use False in \<open>auto simp: stack_size_def\<close>)
  then obtain off' base' aux' m where
    b: "build cmp [\<lparr>ofs = 0, nruns = 0\<rparr>] 0 base aux (length rs) = Some (base', aux')"
      "made 0 0 m base' aux'" "untouched 0 (length (concat rs)) base aux base' aux'" "combines cmp rs m"
    by (auto simp: built_def sort_cont_def)
  have "sort_loop cmp [\<lparr>ofs = 0, nruns = length rs\<rparr>] 0 base aux = Some (base', aux')"
    using sort_loop_build[of "\<lparr>ofs = 0, nruns = length rs\<rparr>" cmp "[]" 0 base aux] b(1) assms(2) by simp
  moreover have "base' = map Elem m"
    using b(2-4) assms(4) by (intro holds_whole) (auto simp: made_def which_put_def untouched_def same_outside_def combines_def)
  ultimately show ?thesis using b(4) by blast
qed

text \<open>The arrays are sorted by the comparison, or by its reverse in descending order.\<close>

definition cmp_of_flags :: "nat \<Rightarrow> 'a cmp \<Rightarrow> 'a cmp" where
  "cmp_of_flags flags cmp = (if flags AND SORTf_DESC \<noteq> 0 then cmp_desc cmp else cmp)"

lemma dynprep_sort:
  assumes "2 \<le> length xs" "length xs \<le> length aux" "length xs < 2 ^ 59"
  shows "\<exists>m base aux1 aux2 runs. dynprep cmp (length xs) (map Elem xs) aux = Some (base, aux1, runs) \<and>
    sort_loop cmp [\<lparr>ofs = 0, nruns = runs\<rparr>] 0 base aux1 = Some (map Elem m, aux2) \<and> sorted_version cmp xs m"
proof -
  from dynprep_ok[OF assms(1,2), of cmp] obtain segs rs links where
    d: "dynprep cmp (length xs) (map Elem xs) aux = Some (map Elem (concat rs), links, length rs)"
      "concat segs = xs" "list_all2 (sorted_version cmp) segs rs" "chain_at links 0 rs"
      "length links = length aux" "length (concat rs) = length xs" by blast
  have raw: "raw_runs 0 rs (map Elem (concat rs)) links"
    using d(4-6) assms(2) by (simp add: raw_runs_def)
  have "rs \<noteq> []" using d(6) assms(1) by auto
  moreover have "length rs \<le> length (concat rs)"
  proof -
    have "\<forall>r \<in> set rs. 1 \<le> length r" using raw_runs_nonempty[OF raw] by (metis Suc_leI length_greater_0_conv One_nat_def)
    then show ?thesis by (induction rs) auto
  qed
  ultimately obtain m aux2 where
    "sort_loop cmp [\<lparr>ofs = 0, nruns = length rs\<rparr>] 0 (map Elem (concat rs)) links = Some (map Elem m, aux2)"
    "combines cmp rs m"
    using sort_loop_ok[OF raw, of cmp] d(6) assms(3) by auto
  with d(1-3) show ?thesis unfolding combines_def by blast
qed

text \<open>When the auxiliary array can be had.\<close>

definition aux_available :: "allocator \<Rightarrow> nat \<Rightarrow> bool" where
  "aux_available m n \<longleftrightarrow> n \<le> SMALLSORT \<or> newx m n 8"

text \<open>\<open>PL_sort_RealCmp\<close> after the sort.\<close>

definition RealCmp_after :: "nat \<Rightarrow> nat \<Rightarrow> 'a cmp option \<Rightarrow> 'a cmp option" where
  "RealCmp_after n flags RealCmp =
    (if 1 < n \<and> flags \<noteq> 0 \<and> flags AND SORTf_DESC = 0 then None else RealCmp)"

lemma mergesort_run:
  assumes "length xs < 2 ^ 59" "aux_available m (length xs)"
  shows "\<exists>ys. S_mergesortsv m xs cmp flags RealCmp = Inr (Some (map Elem ys, RealCmp_after (length xs) flags RealCmp)) \<and>
    sorted_version (cmp_of_flags flags cmp) xs ys"
proof (cases "length xs \<le> 1")
  case True
  have "cmp_sorted (cmp_of_flags flags cmp) xs"
    using True by (cases xs) auto
  with True show ?thesis
    by (intro exI[of _ xs]) (simp add: S_mergesortsv_def RealCmp_after_def sorted_version_def cmp_stable_def)
next
  case False
  define aux :: "'a buf" where "aux = replicate (if length xs \<le> SMALLSORT then SMALLSORT else length xs) Junk"
  have "2 \<le> length xs" "length xs \<le> length aux" using False by (auto simp: aux_def)
  from dynprep_sort[OF this assms(1), of "cmp_of_flags flags cmp"]
  obtain ys base aux1 aux2 runs where
    r: "dynprep (cmp_of_flags flags cmp) (length xs) (map Elem xs) aux = Some (base, aux1, runs)"
      "sort_loop (cmp_of_flags flags cmp) [\<lparr>ofs = 0, nruns = runs\<rparr>] 0 base aux1 = Some (map Elem ys, aux2)"
      "sorted_version (cmp_of_flags flags cmp) xs ys" by blast
  have "S_mergesortsv m xs cmp flags RealCmp =
      Inr (do {
        (base, aux, runs) \<leftarrow> dynprep (cmp_of_flags flags cmp) (length xs) (map Elem xs) aux;
        (base, aux) \<leftarrow> sort_loop (cmp_of_flags flags cmp) [\<lparr>ofs = 0, nruns = runs\<rparr>] 0 base aux;
        Some (base, RealCmp_after (length xs) flags RealCmp)
      })"
    using False assms(2) unfolding S_mergesortsv_def aux_available_def
    by (auto simp: Let_def aux_def cmp_of_flags_def RealCmp_after_def)
  with r show ?thesis by (intro exI[of _ ys]) simp
qed

lemma cmp_desc_order:
  assumes "cmp_order cmp" "\<And>x y. - (2 ^ 31) < cmp x y"
  shows "cmp_order (cmp_desc cmp)" and "cmp_desc cmp x y = - cmp x y"
proof -
  have d: "cmp_desc cmp x y = - cmp x y" for x y
    using assms(2)[of x y] by (simp add: cmp_desc_def)
  have "cmp_desc cmp x z \<le> 0" if "cmp_desc cmp x y \<le> 0" "cmp_desc cmp y z \<le> 0" for x y z
    using that cmp_trans[OF assms(1), of z y x] cmp_flip_le[OF assms(1)] by (simp add: d)
  then show "cmp_order (cmp_desc cmp)"
    using cmp_flip[OF assms(1)] unfolding cmp_order_def by (metis d neg_0_less_iff_less neg_less_0_iff_less)
  show "cmp_desc cmp x y = - cmp x y" by (rule d)
qed

lemma mergesort_sorted:
  assumes "length xs < 2 ^ 59" "aux_available m (length xs)" "cmp_order cmp"
    and desc: "\<And>x y. flags AND SORTf_DESC \<noteq> 0 \<Longrightarrow> - (2 ^ 31) < cmp x y"
  shows "\<exists>ys. S_mergesortsv m xs cmp flags RealCmp = Inr (Some (map Elem ys, RealCmp_after (length xs) flags RealCmp)) \<and>
    mset ys = mset xs \<and> cmp_stable cmp xs ys \<and>
    sorted_wrt (\<lambda>x y. if flags AND SORTf_DESC \<noteq> 0 then 0 \<le> cmp x y else cmp x y \<le> 0) ys"
proof -
  from mergesort_run[OF assms(1,2), of cmp flags RealCmp]
  obtain ys where r: "S_mergesortsv m xs cmp flags RealCmp =
      Inr (Some (map Elem ys, RealCmp_after (length xs) flags RealCmp))"
    "sorted_version (cmp_of_flags flags cmp) xs ys" by blast
  note d = cmp_desc_order[OF assms(3) desc]
  have "cmp_order (cmp_of_flags flags cmp)"
    using assms(3) d(1) by (simp add: cmp_of_flags_def)
  with r(2) have ys: "mset ys = mset xs" "cmp_sorted (cmp_of_flags flags cmp) ys" "cmp_stable (cmp_of_flags flags cmp) xs ys"
    by (simp_all add: sorted_version_def)
  show ?thesis
  proof (cases "flags AND SORTf_DESC = 0")
    case True
    with r(1) ys show ?thesis by (auto simp: cmp_of_flags_def)
  next
    case False
    have neg: "cmp_desc cmp x y = - cmp x y" for x y using d(2) False by blast
    with False r(1) ys show ?thesis by (auto simp: cmp_of_flags_def cmp_stable_def)
  qed
qed

section \<open>The properties\<close>

text \<open>
  C3: The merge sort is correct. On every array (of fewer than \<open>2 ^ 59\<close> elements), if the auxiliary array
  can be allocated, and for every comparison that is a total preorder, \<open>S_mergesortsv\<close> returns,
  stays inside its arrays and its stack of 60 levels, and leaves the same elements in order, or, with
  \<open>SORTf_DESC\<close>, in reverse order; elements that compare equal keep their order, in the descending
  sort too. The descending sort negates what the comparison returns, so there the comparison must
  not return the least \<open>I32\<close>, which is its own negation.
\<close>

theorem merge_sort_correct:
  assumes "length xs < 2 ^ 59" "aux_available m (length xs)" "cmp_order cmp"
    and "flags AND SORTf_DESC \<noteq> 0 \<longrightarrow> (\<forall>x y. - (2 ^ 31) < cmp x y)"
  shows "\<exists>ys RealCmp'. S_mergesortsv m xs cmp flags RealCmp = Inr (Some (map Elem ys, RealCmp')) \<and>
    mset ys = mset xs \<and>
    sorted_wrt (\<lambda>x y. if flags AND SORTf_DESC \<noteq> 0 then 0 \<le> cmp x y else cmp x y \<le> 0) ys \<and>
    (\<forall>x. filter (\<lambda>y. cmp x y = 0) ys = filter (\<lambda>y. cmp x y = 0) xs)"
  using mergesort_sorted[OF assms(1-3), of flags RealCmp] assms(4) unfolding cmp_stable_def by blast

definition tens_cmp :: "nat cmp" where
  "tens_cmp x y = (if x div 10 < y div 10 then - 1 else if x div 10 = y div 10 then 0 else 1)"

theorem merge_sort_correct_witness:
  "\<exists>ys RealCmp'. S_mergesortsv (fixed_allocator 0) [31, 32, 11, 53, 12] tens_cmp SORTf_DESC None =
      Inr (Some (map Elem ys, RealCmp')) \<and>
    mset ys = mset [31, 32, 11, 53, 12] \<and>
    sorted_wrt (\<lambda>x y. if SORTf_DESC AND SORTf_DESC \<noteq> 0 then 0 \<le> tens_cmp x y else tens_cmp x y \<le> 0) ys \<and>
    (\<forall>x. filter (\<lambda>y. tens_cmp x y = 0) ys = filter (\<lambda>y. tens_cmp x y = 0) [31, 32, 11, 53, 12])"
  by (rule merge_sort_correct)
    (auto simp: aux_available_def SMALLSORT_def cmp_order_def tens_cmp_def split: if_splits)

text \<open>
  C15: The merge sort is safe for every comparison, consistent or not: it terminates, never
  reads or writes outside its arrays, never takes a link for an element, never overflows its
  stack, and returns a permutation of the elements. It dies only when the auxiliary array
  cannot be allocated.
\<close>

theorem merge_sort_safe:
  assumes "length xs < 2 ^ 59"
  shows "if aux_available m (length xs)
    then \<exists>ys RealCmp'. S_mergesortsv m xs cmp flags RealCmp = Inr (Some (map Elem ys, RealCmp')) \<and> mset ys = mset xs
    else S_mergesortsv m xs cmp flags RealCmp = Inl Out_of_memory"
proof (cases "aux_available m (length xs)")
  case True
  with mergesort_run[OF assms True, of cmp flags RealCmp] show ?thesis
    by (auto simp: sorted_version_def)
next
  case False
  then show ?thesis by (simp add: S_mergesortsv_def aux_available_def SMALLSORT_def Let_def)
qed

theorem merge_sort_safe_witness:
  "if aux_available (fixed_allocator 0) (length [3, 1, 2 :: nat])
    then \<exists>ys RealCmp'. S_mergesortsv (fixed_allocator 0) [3, 1, 2 :: nat] (\<lambda>x y. 1) 0 None = Inr (Some (map Elem ys, RealCmp')) \<and>
      mset ys = mset [3, 1, 2]
    else S_mergesortsv (fixed_allocator 0) [3, 1, 2 :: nat] (\<lambda>x y. 1) 0 None = Inl Out_of_memory"
  by (rule merge_sort_safe) simp

text \<open>
  C34: The sort puts \<open>PL_sort_RealCmp\<close> back when it had replaced it (\<open>SORTf_DESC\<close>) and leaves it
  alone without flags. With other flags, \<open>SORTf_STABLE\<close> alone for instance, it had not saved
  the old value and still ``restores'' it: the comparison of an enclosing descending sort
  becomes a null pointer.
\<close>

theorem merge_sort_realcmp:
  assumes "1 < length xs" "length xs < 2 ^ 59" "aux_available m (length xs)"
  shows "\<exists>ys. S_mergesortsv m xs cmp flags (Some outer) =
    Inr (Some (map Elem ys, if flags = 0 \<or> flags AND SORTf_DESC \<noteq> 0 then Some outer else None))"
  using mergesort_run[OF assms(2,3), of cmp flags "Some outer"] assms(1)
  by (auto simp: RealCmp_after_def)

theorem merge_sort_realcmp_witness:
  "\<exists>ys. S_mergesortsv (fixed_allocator 0) [2, 1] tens_cmp SORTf_STABLE (Some tens_cmp) =
    Inr (Some (map Elem ys, if SORTf_STABLE = 0 \<or> SORTf_STABLE AND SORTf_DESC \<noteq> 0 then Some tens_cmp else None)) \<and>
    (if SORTf_STABLE = 0 \<or> SORTf_STABLE AND SORTf_DESC \<noteq> 0 then Some tens_cmp else None) = None"
proof -
  have "\<exists>ys. S_mergesortsv (fixed_allocator 0) [2, 1] tens_cmp SORTf_STABLE (Some tens_cmp) =
    Inr (Some (map Elem ys, if SORTf_STABLE = 0 \<or> SORTf_STABLE AND SORTf_DESC \<noteq> 0 then Some tens_cmp else None))"
    by (rule merge_sort_realcmp) (simp_all add: aux_available_def SMALLSORT_def)
  then show ?thesis by (simp add: SORTf_STABLE_def SORTf_DESC_def)
qed

end
