(* ===== verification/Hash_Core.thy ===== *)
theory Hash_Core
  imports Kurila_Prelude "HOL-Library.Multiset"
begin

text \<open>
  What the hashes of \<open>hv.c\<close> and the table of shared strings have in common: keys with their
  hash value and flags, the hash function, chains of entries, and the doubling of the array of
  buckets (the first half of \<open>hsplit\<close>). The lemmas show that the doubling keeps every entry
  and puts it in the bucket of its hash value.
\<close>

section \<open>Keys and entries\<close>

record hek =
  hek_hash :: u32
  hek_key :: "u8 list"
  hek_flags :: u32       \<comment> \<open>one byte\<close>

text \<open>An entry: its address, its key and its value (of the string table: a count).\<close>

record 'v he =
  he_addr :: nat
  he_hek :: hek
  he_val :: 'v

abbreviation he_hash :: "('v, 'z) he_scheme \<Rightarrow> u32" where
  "he_hash e \<equiv> hek_hash (he_hek e)"

abbreviation he_key :: "('v, 'z) he_scheme \<Rightarrow> u8 list" where
  "he_key e \<equiv> hek_key (he_hek e)"

definition HVhek_REHASH :: u32 where "HVhek_REHASH = 0x04"
definition HVhek_UNSHARED :: u32 where "HVhek_UNSHARED = 0x08"
definition HVhek_MASK :: u32 where "HVhek_MASK = 0xFF"
definition HV_MAX_LENGTH_BEFORE_SPLIT :: nat where "HV_MAX_LENGTH_BEFORE_SPLIT = 14"
definition HEK_BASESIZE :: nat where "HEK_BASESIZE = 8"

text \<open>\<open>PERL_HASH\<close> and \<open>PERL_HASH_INTERNAL\<close>, which differ in the seed.\<close>

definition hash_step :: "u32 \<Rightarrow> u8 \<Rightarrow> u32" where
  "hash_step h c =
    (let h = h + ucast c;
         h = h + push_bit 10 h
     in h XOR drop_bit 6 h)"

definition perl_hash :: "u32 \<Rightarrow> u8 list \<Rightarrow> u32" where
  "perl_hash seed key =
    (let h = foldl hash_step seed key;
         h = h + push_bit 3 h;
         h = h XOR drop_bit 11 h
     in h + push_bit 15 h)"

text \<open>\<open>hash & (I32) xhv->xhv_max\<close>\<close>

definition bucket_of :: "u32 \<Rightarrow> nat \<Rightarrow> nat" where
  "bucket_of hash xhv_max = unat (hash AND of_nat xhv_max)"

text \<open>The comparisons of the walk down a chain: hash value, length and bytes of the key.\<close>

definition key_matches :: "u32 \<Rightarrow> u8 list \<Rightarrow> ('v, 'z) he_scheme \<Rightarrow> bool" where
  "key_matches hash key e \<longleftrightarrow>
    \<not> (he_hash e \<noteq> hash) \<and> \<not> (length (he_key e) \<noteq> length key) \<and> \<not> (he_key e \<noteq> key)"

text \<open>Unlink the first entry of a chain that satisfies \<open>P\<close>; replace it.\<close>

fun remove_first :: "('a \<Rightarrow> bool) \<Rightarrow> 'a list \<Rightarrow> 'a list" where
  "remove_first P [] = []"
| "remove_first P (e # es) = (if P e then es else e # remove_first P es)"

fun replace_first :: "('a \<Rightarrow> bool) \<Rightarrow> 'a \<Rightarrow> 'a list \<Rightarrow> 'a list" where
  "replace_first P x [] = []"
| "replace_first P x (e # es) = (if P e then x # es else e # replace_first P x es)"

section \<open>Doubling the array\<close>

text \<open>
  The inner loop of \<open>hsplit\<close>: the entries of bucket \<open>i\<close> that stay, and those that go to the
  bucket \<open>*bep\<close>, each pushed on its front. \<open>newmax\<close> is the new \<open>HvMAX\<close>.
\<close>

fun split_entries :: "nat \<Rightarrow> nat \<Rightarrow> 'v he list \<Rightarrow> 'v he list \<Rightarrow> 'v he list \<times> 'v he list" where
  "split_entries newmax i [] bep = ([], bep)"
| "split_entries newmax i (entry # rest) bep =
    (if bucket_of (he_hash entry) newmax \<noteq> i then split_entries newmax i rest (entry # bep)
     else let (left, right) = split_entries newmax i rest bep in (entry # left, right))"

text \<open>
  One round of the outer loop: the array, \<open>xhv_fill\<close> and \<open>longest_chain\<close>. \<open>left_length\<close> and
  \<open>right_length\<close> are the numbers of entries that stayed and moved.
\<close>

definition split_bucket ::
  "nat \<Rightarrow> 'v he list list \<times> nat \<times> nat \<Rightarrow> nat \<Rightarrow> 'v he list list \<times> nat \<times> nat" where
  "split_bucket oldsize st i =
    (case st of (a, fill, longest) \<Rightarrow>
     if a ! i = [] then st
     else let (left, right) = split_entries (2 * oldsize - 1) i (a ! i) (a ! (i + oldsize));
              right_length = length right - length (a ! (i + oldsize));
              fill = (if a ! (i + oldsize) = [] \<and> right_length > 0 then fill + 1 else fill);
              fill = (if left = [] then fill - 1 else fill)
     in (a[i := left, i + oldsize := right], fill, max longest (max (length left) right_length)))"

definition split_array :: "'v he list list \<Rightarrow> nat \<Rightarrow> 'v he list list \<times> nat \<times> nat" where
  "split_array a fill =
    (let oldsize = length a
     in foldl (split_bucket oldsize) (a @ replicate oldsize [], fill, 0) [0..<oldsize])"

section \<open>Buckets\<close>

definition well_placed :: "'v he list list \<Rightarrow> bool" where
  "well_placed a \<longleftrightarrow> (\<forall>i < length a. \<forall>e \<in> set (a ! i). bucket_of (he_hash e) (length a - 1) = i)"

definition fill_count :: "'v he list list \<Rightarrow> nat" where
  "fill_count a = length (filter (\<lambda>c. c \<noteq> []) a)"

lemma key_matches_iff [simp]: "key_matches hash key e \<longleftrightarrow> he_hash e = hash \<and> he_key e = key"
  by (auto simp: key_matches_def)

lemma bucket_of_mod:
  assumes "k \<le> 32"
  shows "bucket_of h (2 ^ k - 1) = unat h mod 2 ^ k"
proof -
  have "of_nat (2 ^ k - 1) = (mask k :: u32)"
    by (simp add: mask_eq_exp_minus_1)
  then show ?thesis
    by (simp add: bucket_of_def word_and_mask_eq_mod)
qed

lemma bucket_of_less: "k \<le> 32 \<Longrightarrow> bucket_of h (2 ^ k - 1) < 2 ^ k"
  using bucket_of_mod[of k h] by simp

lemma bucket_double:
  assumes "k < 32"
  shows "bucket_of h (2 * 2 ^ k - 1) = bucket_of h (2 ^ k - 1) \<or>
    bucket_of h (2 * 2 ^ k - 1) = bucket_of h (2 ^ k - 1) + 2 ^ k"
  using assms mod_double_cases[of "unat h" k] bucket_of_mod[of k h] bucket_of_mod[of "Suc k" h] by simp

section \<open>What the doubling does\<close>

lemma split_entries_form:
  "split_entries newmax i es bep =
    (filter (\<lambda>e. bucket_of (he_hash e) newmax = i) es,
     rev (filter (\<lambda>e. bucket_of (he_hash e) newmax \<noteq> i) es) @ bep)"
  by (induction newmax i es bep rule: split_entries.induct) auto

definition stays :: "nat \<Rightarrow> 'v he list list \<Rightarrow> nat \<Rightarrow> 'v he list" where
  "stays newmax a i = filter (\<lambda>e. bucket_of (he_hash e) newmax = i) (a ! i)"

definition moves :: "nat \<Rightarrow> 'v he list list \<Rightarrow> nat \<Rightarrow> 'v he list" where
  "moves newmax a i = rev (filter (\<lambda>e. bucket_of (he_hash e) newmax \<noteq> i) (a ! i))"

text \<open>The array when the first \<open>n\<close> buckets have been split.\<close>

definition split_upto :: "'v he list list \<Rightarrow> nat \<Rightarrow> 'v he list list" where
  "split_upto a n =
    map (\<lambda>i. if i < length a then (if i < n then stays (2 * length a - 1) a i else a ! i)
      else if i - length a < n then moves (2 * length a - 1) a (i - length a) else [])
    [0..<2 * length a]"

lemma length_split_upto [simp]: "length (split_upto a n) = 2 * length a"
  by (simp add: split_upto_def)

lemma nth_split_upto:
  "i < length a \<Longrightarrow> split_upto a n ! i = (if i < n then stays (2 * length a - 1) a i else a ! i)"
  "i < length a \<Longrightarrow> split_upto a n ! (i + length a) = (if i < n then moves (2 * length a - 1) a i else [])"
  by (simp_all add: split_upto_def)

lemma split_upto_0: "split_upto a 0 = a @ replicate (length a) []"
  by (rule nth_equalityI) (auto simp: split_upto_def nth_append)

lemma split_upto_Suc:
  assumes "n < length a"
  shows "(split_upto a n)[n := stays (2 * length a - 1) a n, n + length a := moves (2 * length a - 1) a n] =
    split_upto a (Suc n)"
proof (rule nth_equalityI)
  fix i assume "i < length ((split_upto a n)[n := stays (2 * length a - 1) a n, n + length a := moves (2 * length a - 1) a n])"
  then have i: "i < 2 * length a" by simp
  show "(split_upto a n)[n := stays (2 * length a - 1) a n, n + length a := moves (2 * length a - 1) a n] ! i =
      split_upto a (Suc n) ! i"
    using i assms by (auto simp: nth_list_update split_upto_def less_Suc_eq)
qed simp

lemma fill_count_update:
  "i < length a \<Longrightarrow> fill_count (a[i := c]) + (if a ! i = [] then 0 else 1) = fill_count a + (if c = [] then 0 else 1)"
proof (induction a arbitrary: i)
  case (Cons x a)
  show ?case
  proof (cases i)
    case (Suc j)
    with Cons.IH[of j] Cons.prems show ?thesis by (simp add: fill_count_def split: if_splits)
  qed (simp add: fill_count_def)
qed simp

lemma fill_count_append [simp]: "fill_count (a @ b) = fill_count a + fill_count b"
  by (simp add: fill_count_def)

lemma fill_count_replicate [simp]: "fill_count (replicate n []) = 0"
  by (simp add: fill_count_def)

lemma stays_moves_Nil: "stays m a i = [] \<and> moves m a i = [] \<longleftrightarrow> a ! i = []"
  by (auto simp: stays_def moves_def filter_empty_conv)

lemma split_bucket_step:
  assumes "n < length a"
  shows "\<exists>longest'. split_bucket (length a) (split_upto a n, fill_count (split_upto a n), longest) n =
      (split_upto a (Suc n), fill_count (split_upto a (Suc n)), longest') \<and> longest \<le> longest' \<and>
      length (stays (2 * length a - 1) a n) \<le> longest' \<and> length (moves (2 * length a - 1) a n) \<le> longest'"
proof (cases "a ! n = []")
  case True
  then have st: "stays (2 * length a - 1) a n = []" "moves (2 * length a - 1) a n = []"
    by (simp_all add: stays_def moves_def)
  have "split_upto a (Suc n) = split_upto a n"
    using split_upto_Suc[OF assms] st True assms nth_split_upto[OF assms, of n]
    by (metis less_irrefl list_update_id)
  with True st assms show ?thesis by (simp add: split_bucket_def nth_split_upto)
next
  case False
  let ?m = "2 * length a - 1"
  let ?l = "stays ?m a n" and ?r = "moves ?m a n"
  have nth: "split_upto a n ! n = a ! n" "split_upto a n ! (n + length a) = []"
    using assms by (simp_all add: nth_split_upto)
  have sp: "split_entries ?m n (a ! n) [] = (?l, ?r)"
    by (simp add: split_entries_form stays_def moves_def)
  have f1: "fill_count ((split_upto a n)[n := ?l]) + 1 = fill_count (split_upto a n) + (if ?l = [] then 0 else 1)"
    using fill_count_update[of n "split_upto a n" ?l] assms False by (simp add: nth_split_upto)
  have "n \<noteq> n + length a" using assms by linarith
  then have "(split_upto a n)[n := ?l] ! (n + length a) = []"
    using nth_split_upto(2)[OF assms, of n] by simp
  then have "fill_count (((split_upto a n)[n := ?l])[n + length a := ?r]) =
      fill_count ((split_upto a n)[n := ?l]) + (if ?r = [] then 0 else 1)"
    using fill_count_update[of "n + length a" "(split_upto a n)[n := ?l]" ?r] assms by simp
  then have f2: "fill_count (split_upto a (Suc n)) =
      fill_count ((split_upto a n)[n := ?l]) + (if ?r = [] then 0 else 1)"
    by (simp only: split_upto_Suc[OF assms])
  define fl where "fl = (if ?r = [] then fill_count (split_upto a n) else fill_count (split_upto a n) + 1)"
  have f: "(if ?l = [] then fl - 1 else fl) = fill_count (split_upto a (Suc n))"
    using f1 f2 by (auto simp: fl_def)
  have "split_bucket (length a) (split_upto a n, fill_count (split_upto a n), longest) n =
      (split_upto a (Suc n), fill_count (split_upto a (Suc n)), max longest (max (length ?l) (length ?r)))"
    using f unfolding split_bucket_def prod.case nth if_not_P[OF False] sp Let_def split_upto_Suc[OF assms]
    by (auto simp: fl_def split: if_splits)
  then show ?thesis by (auto simp: le_max_iff_disj)
qed

lemma split_array_form:
  assumes "fill = fill_count a"
  shows "\<exists>longest. split_array a fill = (split_upto a (length a), fill_count (split_upto a (length a)), longest) \<and>
    (\<forall>c \<in> set (split_upto a (length a)). length c \<le> longest)"
proof -
  have "\<exists>longest. foldl (split_bucket (length a)) (a @ replicate (length a) [], fill, 0) [0..<n] =
      (split_upto a n, fill_count (split_upto a n), longest) \<and>
      (\<forall>i < n. length (stays (2 * length a - 1) a i) \<le> longest \<and> length (moves (2 * length a - 1) a i) \<le> longest)"
    if "n \<le> length a" for n
    using that
  proof (induction n)
    case 0
    then show ?case using assms by (simp add: split_upto_0)
  next
    case (Suc n)
    then obtain longest where l: "foldl (split_bucket (length a)) (a @ replicate (length a) [], fill, 0) [0..<n] =
        (split_upto a n, fill_count (split_upto a n), longest)"
        "\<forall>i < n. length (stays (2 * length a - 1) a i) \<le> longest \<and> length (moves (2 * length a - 1) a i) \<le> longest"
      by auto
    from split_bucket_step[of n a longest] Suc.prems obtain longest' where
      "split_bucket (length a) (split_upto a n, fill_count (split_upto a n), longest) n =
        (split_upto a (Suc n), fill_count (split_upto a (Suc n)), longest')" "longest \<le> longest'"
      "length (stays (2 * length a - 1) a n) \<le> longest'" "length (moves (2 * length a - 1) a n) \<le> longest'"
      by auto
    with l show ?case by (auto simp: less_Suc_eq intro: order_trans)
  qed
  from this[of "length a"] obtain longest where
    l: "split_array a fill = (split_upto a (length a), fill_count (split_upto a (length a)), longest)"
      "\<forall>i < length a. length (stays (2 * length a - 1) a i) \<le> longest \<and> length (moves (2 * length a - 1) a i) \<le> longest"
    unfolding split_array_def Let_def by auto
  have "length c \<le> longest" if "c \<in> set (split_upto a (length a))" for c
  proof -
    from that obtain i where "i < 2 * length a" "c = split_upto a (length a) ! i"
      by (auto simp: in_set_conv_nth)
    with l(2) show ?thesis by (auto simp: split_upto_def)
  qed
  with l(1) show ?thesis by blast
qed

lemma mset_concat_map: "mset (concat (map f xs)) = (\<Sum>x\<leftarrow>xs. mset (f x))"
  by (induction xs) auto

lemma mset_split: "mset (concat (split_upto a (length a))) = mset (concat a)"
proof -
  let ?m = "2 * length a - 1"
  have "split_upto a (length a) = map (stays ?m a) [0..<length a] @ map (moves ?m a) [0..<length a]"
    by (rule nth_equalityI) (auto simp: split_upto_def nth_append)
  then have "mset (concat (split_upto a (length a))) =
      (\<Sum>i\<leftarrow>[0..<length a]. mset (stays ?m a i)) + (\<Sum>i\<leftarrow>[0..<length a]. mset (moves ?m a i))"
    by (simp add: mset_concat_map)
  also have "\<dots> = (\<Sum>i\<leftarrow>[0..<length a]. mset (stays ?m a i) + mset (moves ?m a i))"
    by (simp add: sum_list_addf)
  also have "\<dots> = (\<Sum>i\<leftarrow>[0..<length a]. mset (a ! i))"
    by (simp only: stays_def moves_def mset_rev mset_filter multiset_partition[symmetric])
  also have "\<dots> = mset (concat a)"
    using mset_concat_map[of "\<lambda>i. a ! i" "[0..<length a]"] by (simp add: map_nth)
  finally show ?thesis .
qed

lemma well_placed_split:
  assumes "well_placed a" "length a = 2 ^ k" "k < 32"
  shows "well_placed (split_upto a (length a))"
  unfolding well_placed_def
proof (intro allI impI ballI)
  fix i e
  assume i: "i < length (split_upto a (length a))" and e: "e \<in> set (split_upto a (length a) ! i)"
  let ?m = "2 * length a - 1"
  show "bucket_of (he_hash e) (length (split_upto a (length a)) - 1) = i"
  proof (cases "i < length a")
    case True
    with e show ?thesis by (simp add: nth_split_upto stays_def)
  next
    case False
    define j where "j = i - length a"
    have j: "i = j + length a" "j < length a" using False i by (auto simp: j_def)
    with e have "e \<in> set (a ! j)" "bucket_of (he_hash e) ?m \<noteq> j"
      by (auto simp: nth_split_upto moves_def)
    moreover from this assms(1) j(2) have "bucket_of (he_hash e) (length a - 1) = j"
      by (auto simp: well_placed_def)
    ultimately show ?thesis
      using bucket_double[OF assms(3), of "he_hash e"] j(1) assms(2) by auto
  qed
qed

section \<open>Changing one chain\<close>

lemma find_SomeD: "find P xs = Some x \<Longrightarrow> x \<in> set xs \<and> P x"
  by (induction xs) (auto split: if_splits)

lemma mset_remove_first: "find P xs = Some x \<Longrightarrow> mset xs = add_mset x (mset (remove_first P xs))"
  by (induction xs) (auto split: if_splits)

lemma mset_replace_first:
  "find P xs = Some x \<Longrightarrow> add_mset x (mset (replace_first P y xs)) = add_mset y (mset xs)"
  by (induction xs) (auto split: if_splits)

lemma set_remove_first: "set (remove_first P xs) \<subseteq> set xs"
  by (induction xs) auto

lemma set_replace_first: "set (replace_first P y xs) \<subseteq> insert y (set xs)"
  by (induction xs) auto

lemma replace_first_Nil [simp]: "replace_first P y xs = [] \<longleftrightarrow> xs = []"
  by (cases xs) auto

lemma mset_concat_update:
  "i < length a \<Longrightarrow> mset (concat (a[i := c])) + mset (a ! i) = mset (concat a) + mset c"
proof (induction a arbitrary: i)
  case (Cons x a)
  show ?case
  proof (cases i)
    case (Suc j)
    with Cons.IH[of j] Cons.prems show ?thesis by (simp add: union_assoc)
  qed simp
qed simp

lemma mset_concat_bucket: "i < length a \<Longrightarrow> mset (concat (a[i := c])) = mset c + mset (concat (a[i := []]))"
  using mset_concat_update[of i "a[i := []]" c] by (simp add: add.commute)

lemma mset_chain_push: "i < length a \<Longrightarrow> mset (concat (a[i := x # a ! i])) = add_mset x (mset (concat a))"
  using mset_concat_update[of i a "x # a ! i"] by simp

lemma mset_chain_remove:
  assumes "i < length a" "find P (a ! i) = Some x"
  shows "mset (concat a) = add_mset x (mset (concat (a[i := remove_first P (a ! i)])))"
  using mset_concat_update[OF assms(1), of "remove_first P (a ! i)"] mset_remove_first[OF assms(2)] by simp

lemma mset_chain_replace:
  assumes "i < length a" "find P (a ! i) = Some x"
  shows "add_mset x (mset (concat (a[i := replace_first P y (a ! i)]))) = add_mset y (mset (concat a))"
proof -
  have "mset (concat (a[i := replace_first P y (a ! i)])) + add_mset x (mset (a ! i)) =
      mset (concat a) + add_mset x (mset (replace_first P y (a ! i)))"
    using mset_concat_update[OF assms(1), of "replace_first P y (a ! i)"] by simp
  also have "\<dots> = mset (concat a) + add_mset y (mset (a ! i))"
    using mset_replace_first[OF assms(2), of y] by simp
  finally show ?thesis by simp
qed

lemma well_placed_update:
  assumes "well_placed a" "\<And>e. e \<in> set c \<Longrightarrow> e \<in> set (a ! i) \<or> bucket_of (he_hash e) (length a - 1) = i"
  shows "well_placed (a[i := c])"
  unfolding well_placed_def
proof (intro allI impI ballI)
  fix j e
  assume "j < length (a[i := c])" "e \<in> set (a[i := c] ! j)"
  with assms show "bucket_of (he_hash e) (length (a[i := c]) - 1) = j"
    by (cases "i = j") (auto simp: well_placed_def)
qed

lemma well_placed_bucket:
  assumes "well_placed a" "e \<in> set (concat a)"
  shows "e \<in> set (a ! bucket_of (he_hash e) (length a - 1)) \<and> bucket_of (he_hash e) (length a - 1) < length a"
proof -
  from assms(2) obtain c where "c \<in> set a" "e \<in> set c" by auto
  then obtain i where "i < length a" "e \<in> set (a ! i)"
    by (metis in_set_conv_nth)
  with assms(1) show ?thesis by (auto simp: well_placed_def)
qed

lemma in_concat_nth: "i < length a \<Longrightarrow> e \<in> set (a ! i) \<Longrightarrow> e \<in> set (concat a)"
  by auto

lemma distinct_map_mset: "mset xs = mset ys \<Longrightarrow> distinct (map f xs) = distinct (map f ys)"
  by (rule mset_eq_imp_distinct_iff) simp

lemma length_mset: "mset xs = mset ys \<Longrightarrow> length xs = length ys"
  by (rule mset_eq_length)

lemma distinct_map_rest:
  assumes "distinct (map f xs)" "mset xs = add_mset x M"
  shows "\<forall>y \<in># M. f y \<noteq> f x"
proof -
  obtain ys where M: "M = mset ys" by (metis ex_mset)
  with assms(2) have "mset xs = mset (x # ys)" by simp
  from distinct_map_mset[OF this, of f] assms(1) have "f x \<notin> f ` set ys" by simp
  then show ?thesis by (metis M imageI set_mset_mset)
qed

text \<open>
  The memory: no request of \<open>2 ^ 34\<close> bytes is granted, so that the array of buckets never has
  more than \<open>2 ^ 30\<close> of them (\<open>I32 newsize\<close> does not overflow).
\<close>

definition bounded_allocator :: "allocator \<Rightarrow> bool" where
  "bounded_allocator m \<longleftrightarrow> (\<forall>n. m n \<longrightarrow> n < 2 ^ 34)"

lemma bounded_doubling: "bounded_allocator m \<Longrightarrow> m (2 * 2 ^ k * 8) \<Longrightarrow> k \<le> 29"
proof -
  assume "bounded_allocator m" "m (2 * 2 ^ k * 8)"
  then have "(2::nat) * 2 ^ k * 8 < 2 ^ 34" unfolding bounded_allocator_def by blast
  then have "(2::nat) ^ (k + 4) < 2 ^ 34" by (simp add: power_add)
  then have "k + 4 < 34" by (rule power_less_imp_less_exp[rotated]) simp
  then show "k \<le> 29" by simp
qed

text \<open>In a table with distinct keys, a chain search finds the entry of the key.\<close>

lemma find_unique:
  assumes "distinct (map f xs)" "x \<in> set xs" "f x = k"
  shows "find (\<lambda>e. f e = k) xs = Some x"
  using assms
proof (induction xs)
  case (Cons y ys)
  show ?case
  proof (cases "y = x")
    case False
    with Cons.prems have "x \<in> set ys" "f y \<noteq> k" by auto
    with Cons show ?thesis by simp
  qed (use Cons.prems in simp)
qed simp

text \<open>Two arrays whose chains correspond entry by entry.\<close>

lemma rel_concat: "list_all2 (list_all2 R) a a' \<Longrightarrow> list_all2 R (concat a) (concat a')"
  by (induction rule: list_all2_induct) (auto intro: list_all2_appendI)

lemma rel_fill_count: "list_all2 (list_all2 R) a a' \<Longrightarrow> fill_count a' = fill_count a"
  by (induction rule: list_all2_induct) (auto simp: fill_count_def)

lemma rel_in:
  assumes "list_all2 R xs ys" "y \<in> set ys"
  shows "\<exists>x \<in> set xs. R x y"
  using assms by (induction rule: list_all2_induct) auto

lemma rel_well_placed:
  assumes "list_all2 (list_all2 R) a a'" "\<And>e e'. R e e' \<Longrightarrow> he_hash e' = he_hash e" "well_placed a"
  shows "well_placed a'"
  unfolding well_placed_def
proof (intro allI impI ballI)
  fix i e' assume i: "i < length a'" and e': "e' \<in> set (a' ! i)"
  have l: "length a' = length a" using list_all2_lengthD[OF assms(1)] by simp
  with i assms(1) have "list_all2 R (a ! i) (a' ! i)" by (simp add: list_all2_conv_all_nth)
  from rel_in[OF this e'] obtain e where "e \<in> set (a ! i)" "R e e'" ..
  with assms(2,3) i l show "bucket_of (he_hash e') (length a' - 1) = i"
    by (auto simp: well_placed_def)
qed

end
