(* ===== verification/Shared_Strings.thy ===== *)
theory Shared_Strings
  imports Hash_Core
begin

text \<open>
  The table of shared strings, \<open>PL_strtab\<close> (\<open>share_hek_flags\<close> and \<open>unshare_hek\<close> of \<open>hv.c\<close>): each
  key with its hash value and flags is kept once, with a reference count. A shared \<open>HEK\<close> is
  the key of one entry, so the model names it by its contents.
  The lemmas show that the counts are those of a multiset of references, and that an entry
  goes exactly when its last reference does.
\<close>

section \<open>The code\<close>

record strtab =
  st_array :: "nat he list list"
  st_keys :: nat
  st_fill :: nat
  st_next :: nat                \<comment> \<open>the address of the next entry to be allocated\<close>

definition st_max :: "strtab \<Rightarrow> nat" where
  "st_max st = length (st_array st) - 1"

text \<open>\<open>HeKEY_hek(entry)\<close> is the one that is looked for: hash value, length, bytes and flags.\<close>

definition hek_matches :: "hek \<Rightarrow> nat he \<Rightarrow> bool" where
  "hek_matches h e \<longleftrightarrow>
    \<not> (he_hash e \<noteq> hek_hash h) \<and> \<not> (length (he_key e) \<noteq> length (hek_key h)) \<and> \<not> (he_key e \<noteq> hek_key h) \<and>
    \<not> (hek_flags (he_hek e) \<noteq> hek_flags h)"

text \<open>
  \<open>hsplit(PL_strtab)\<close>: no placeholders, no rehashing. When there is no memory for the larger
  array the table stays as it is (\<open>PL_nomemok\<close>).
\<close>

definition strtab_split :: "allocator \<Rightarrow> strtab \<Rightarrow> strtab" where
  "strtab_split m st =
    (if m (2 * length (st_array st) * 8) then
       (case split_array (st_array st) (st_fill st) of (a, fill, longest) \<Rightarrow>
        st\<lparr>st_array := a, st_fill := fill\<rparr>)
     else st)"

text \<open>\<open>++entry->he_valu.hent_refcount\<close> of the entry at an address.\<close>

definition inc_refcount :: "nat \<Rightarrow> strtab \<Rightarrow> strtab" where
  "inc_refcount addr st =
    st\<lparr>st_array := map (map (\<lambda>e. if he_addr e = addr then e\<lparr>he_val := he_val e + 1\<rparr> else e)) (st_array st)\<rparr>"

definition share_hek_flags :: "allocator \<Rightarrow> strtab \<Rightarrow> u8 list \<Rightarrow> u32 \<Rightarrow> u32 \<Rightarrow> (hek \<times> strtab) result" where
  "share_hek_flags m st str hash flags =
    (let hek = \<lparr>hek_hash = hash, hek_key = str, hek_flags = flags AND HVhek_MASK\<rparr>;
         hindex = bucket_of hash (st_max st);
         chain = st_array st ! hindex
     in case find (hek_matches hek) chain of
       Some entry \<Rightarrow> Inr (he_hek entry, inc_refcount (he_addr entry) st)
     | None \<Rightarrow>
         if \<not> newx m (32 + length str + 2) 1 then Inl Out_of_memory
         else let entry = \<lparr>he_addr = st_next st, he_hek = hek, he_val = 0\<rparr>;
                  st = st\<lparr>st_array := (st_array st)[hindex := entry # chain], st_keys := st_keys st + 1,
                          st_next := st_next st + 1\<rparr>;
                  st = (if chain = [] then st\<lparr>st_fill := st_fill st + 1\<rparr>
                        else if st_keys st > st_max st then strtab_split m st
                        else st)
         in Inr (hek, inc_refcount (he_addr entry) st))"

definition share_hek :: "allocator \<Rightarrow> strtab \<Rightarrow> u8 list \<Rightarrow> u32 \<Rightarrow> (hek \<times> strtab) result" where
  "share_hek m st str hash = share_hek_flags m st str hash 0"

text \<open>
  \<open>unshare_hek\<close>: the entry is the one whose key \<open>hek\<close> is. A key that is not in the table is
  only warned about.
\<close>

definition unshare_hek :: "strtab \<Rightarrow> hek \<Rightarrow> strtab" where
  "unshare_hek st hek =
    (let i = bucket_of (hek_hash hek) (st_max st); chain = st_array st ! i in
     case find (\<lambda>e. he_hek e = hek) chain of
       None \<Rightarrow> st
     | Some entry \<Rightarrow>
         if he_val entry - 1 \<noteq> 0 then
           st\<lparr>st_array := (st_array st)[i := replace_first (\<lambda>e. he_hek e = hek) (entry\<lparr>he_val := he_val entry - 1\<rparr>) chain]\<rparr>
         else let chain = remove_first (\<lambda>e. he_hek e = hek) chain in
           st\<lparr>st_array := (st_array st)[i := chain],
              st_fill := (if chain = [] then st_fill st - 1 else st_fill st),
              st_keys := st_keys st - 1\<rparr>)"

text \<open>\<open>unsharepvn\<close>: the string instead of the key; it has no flags.\<close>

definition unsharepvn :: "strtab \<Rightarrow> u8 list \<Rightarrow> u32 \<Rightarrow> strtab" where
  "unsharepvn st str hash =
    (let hek = \<lparr>hek_hash = hash, hek_key = str, hek_flags = 0\<rparr>;
         i = bucket_of hash (st_max st); chain = st_array st ! i in
     case find (hek_matches hek) chain of
       None \<Rightarrow> st
     | Some entry \<Rightarrow>
         if he_val entry - 1 = 0 then let chain = remove_first (hek_matches hek) chain in
           st\<lparr>st_array := (st_array st)[i := chain],
              st_fill := (if chain = [] then st_fill st - 1 else st_fill st),
              st_keys := st_keys st - 1\<rparr>
         else st\<lparr>st_array := (st_array st)[i := replace_first (hek_matches hek) (entry\<lparr>he_val := he_val entry - 1\<rparr>) chain]\<rparr>)"

section \<open>The invariant\<close>

abbreviation st_entries :: "strtab \<Rightarrow> nat he list" where
  "st_entries st \<equiv> concat (st_array st)"

text \<open>The shape of the table; \<open>st_ok\<close> adds that no count is zero.\<close>

definition st_shape :: "strtab \<Rightarrow> bool" where
  "st_shape st \<longleftrightarrow>
    (\<exists>k \<le> 30. length (st_array st) = 2 ^ k) \<and> well_placed (st_array st) \<and>
    distinct (map he_hek (st_entries st)) \<and> distinct (map he_addr (st_entries st)) \<and>
    (\<forall>e \<in> set (st_entries st). he_addr e < st_next st) \<and>
    st_keys st = length (st_entries st) \<and> st_fill st = fill_count (st_array st)"

definition st_ok :: "strtab \<Rightarrow> bool" where
  "st_ok st \<longleftrightarrow> st_shape st \<and> (\<forall>e \<in> set (st_entries st). 0 < he_val e)"

text \<open>The number of references to a key.\<close>

definition refs :: "strtab \<Rightarrow> hek \<Rightarrow> nat" where
  "refs st h = (\<Sum>e\<leftarrow>st_entries st. if he_hek e = h then he_val e else 0)"

lemma hek_matches_iff [simp]: "hek_matches h e \<longleftrightarrow> he_hek e = h"
  by (cases "he_hek e"; cases h) (auto simp: hek_matches_def)

lemma hek_matches_eq: "hek_matches h = (\<lambda>e. he_hek e = h)"
  by (simp add: fun_eq_iff)

lemma refs_mset: "refs st h = (\<Sum>e\<in>#mset (st_entries st). if he_hek e = h then he_val e else 0)"
  by (simp add: refs_def sum_mset_sum_list flip: mset_map)

lemma bucket_st_max: "st_shape st \<Longrightarrow> bucket_of h (st_max st) < length (st_array st)"
proof -
  assume "st_shape st"
  then obtain k where "k \<le> 30" "length (st_array st) = 2 ^ k" by (auto simp: st_shape_def)
  with bucket_of_less[of k h] show ?thesis by (simp add: st_max_def)
qed

lemma st_bucket:
  assumes "st_shape st"
  shows "he_hek e = h \<Longrightarrow> e \<in> set (st_entries st) \<Longrightarrow> e \<in> set (st_array st ! bucket_of (hek_hash h) (st_max st))"
  using well_placed_bucket[of "st_array st" e] assms by (auto simp: st_shape_def st_max_def)

lemma refs_zero:
  assumes "st_ok st"
  shows "refs st h = 0 \<longleftrightarrow> find (\<lambda>e. he_hek e = h) (st_array st ! bucket_of (hek_hash h) (st_max st)) = None"
proof -
  have b: "bucket_of (hek_hash h) (st_max st) < length (st_array st)"
    using assms bucket_st_max by (simp add: st_ok_def)
  have "refs st h = 0 \<longleftrightarrow> (\<forall>e \<in> set (st_entries st). he_hek e \<noteq> h)"
  proof -
    have "\<forall>e \<in> set (st_entries st). 0 < he_val e" using assms by (simp add: st_ok_def)
    moreover have "refs st h = 0 \<longleftrightarrow> (\<forall>e \<in> set (st_entries st). he_hek e = h \<longrightarrow> he_val e = 0)"
      unfolding refs_def sum_list_eq_0_iff set_map by (simp only: ball_simps) auto
    ultimately show ?thesis by (metis less_irrefl)
  qed
  also have "\<dots> \<longleftrightarrow> (\<forall>e \<in> set (st_array st ! bucket_of (hek_hash h) (st_max st)). he_hek e \<noteq> h)"
    using st_bucket[of st _ h] assms in_concat_nth[OF b] unfolding st_ok_def by blast
  also have "\<dots> \<longleftrightarrow> find (\<lambda>e. he_hek e = h) (st_array st ! bucket_of (hek_hash h) (st_max st)) = None"
    by (auto simp: find_None_iff)
  finally show ?thesis .
qed

section \<open>Counting a reference\<close>

abbreviation inc_at :: "nat \<Rightarrow> nat he \<Rightarrow> nat he" where
  "inc_at a e \<equiv> (if he_addr e = a then e\<lparr>he_val := he_val e + 1\<rparr> else e)"

lemma inc_entries: "st_entries (inc_refcount a st) = map (inc_at a) (st_entries st)"
  by (simp add: inc_refcount_def map_concat)

lemma inc_sel [simp]:
  "st_keys (inc_refcount a st) = st_keys st" "st_fill (inc_refcount a st) = st_fill st"
  "st_next (inc_refcount a st) = st_next st" "length (st_array (inc_refcount a st)) = length (st_array st)"
  "fill_count (st_array (inc_refcount a st)) = fill_count (st_array st)"
  by (simp_all add: inc_refcount_def fill_count_def filter_map comp_def)

lemma inc_shape:
  assumes "st_shape st"
  shows "st_shape (inc_refcount a st)"
proof -
  have "map he_hek (st_entries (inc_refcount a st)) = map he_hek (st_entries st)"
    "map he_addr (st_entries (inc_refcount a st)) = map he_addr (st_entries st)"
    unfolding inc_entries by (simp_all only: map_map) (auto intro: map_cong)
  moreover have "well_placed (st_array (inc_refcount a st))"
    using assms by (auto simp: st_shape_def well_placed_def inc_refcount_def)
  moreover have "length (st_entries (inc_refcount a st)) = length (st_entries st)"
    by (simp only: inc_entries length_map)
  moreover have "\<forall>e \<in> set (st_entries (inc_refcount a st)). he_addr e < st_next st"
    using assms unfolding inc_entries st_shape_def by (simp only: set_map) auto
  ultimately show ?thesis
    using assms unfolding st_shape_def by (simp only: inc_sel simp_thms)
qed

lemma refs_inc:
  assumes "distinct (map he_addr (st_entries st))" "e \<in> set (st_entries st)"
  shows "refs (inc_refcount (he_addr e) st) h = refs st h + (if he_hek e = h then 1 else 0)"
proof -
  obtain xs ys where es: "st_entries st = xs @ e # ys"
    using assms(2) by (meson split_list)
  with assms(1) have "he_addr e \<notin> he_addr ` (set xs \<union> set ys)"
    by (auto simp: image_Un)
  then have "\<forall>d \<in> set xs \<union> set ys. he_addr d \<noteq> he_addr e"
    by (metis imageI)
  then have "map (inc_at (he_addr e)) xs = xs" "map (inc_at (he_addr e)) ys = ys"
    by (auto intro: map_idI)
  then show ?thesis
    unfolding refs_def inc_entries es by simp
qed

section \<open>Sharing\<close>

lemma st_shapeD:
  assumes "st_shape st"
  shows "well_placed (st_array st)" "distinct (map he_hek (st_entries st))"
    "distinct (map he_addr (st_entries st))" "st_keys st = length (st_entries st)"
    "st_fill st = fill_count (st_array st)" "\<exists>k \<le> 30. length (st_array st) = 2 ^ k"
    "e \<in> set (st_entries st) \<Longrightarrow> he_addr e < st_next st"
  using assms unfolding st_shape_def by (elim conjE, assumption | blast)+

lemma st_shape_array:
  assumes "st_shape st" "length a = 2 ^ k" "k \<le> 30" "well_placed a" "mset (concat a) = mset (st_entries st)"
  shows "st_shape (st\<lparr>st_array := a, st_fill := fill_count a\<rparr>)"
proof -
  have "distinct (map he_hek (concat a))" "distinct (map he_addr (concat a))"
    using distinct_map_mset[OF assms(5)] assms(1) unfolding st_shape_def by blast+
  moreover have "\<forall>e \<in> set (concat a). he_addr e < st_next st"
    unfolding mset_eq_setD[OF assms(5)] using assms(1) unfolding st_shape_def by blast
  moreover have "st_keys st = length (concat a)"
    unfolding length_mset[OF assms(5)] by (rule st_shapeD(4)[OF assms(1)])
  ultimately show ?thesis
    using assms(2,3,4) unfolding st_shape_def by (intro conjI exI[of _ k]; simp)
qed

lemma strtab_split_ok:
  assumes "st_shape st" "bounded_allocator m"
  shows "st_shape (strtab_split m st) \<and> mset (st_entries (strtab_split m st)) = mset (st_entries st) \<and>
    st_next (strtab_split m st) = st_next st"
proof (cases "m (2 * length (st_array st) * 8)")
  case True
  from assms(1) obtain k where k: "k \<le> 30" "length (st_array st) = 2 ^ k" by (auto simp: st_shape_def)
  have "k \<le> 29" using bounded_doubling[OF assms(2), of k] True k(2) by simp
  let ?a = "split_upto (st_array st) (length (st_array st))"
  have "st_fill st = fill_count (st_array st)" using assms(1) by (simp add: st_shape_def)
  from split_array_form[OF this] obtain longest where
    s: "split_array (st_array st) (st_fill st) = (?a, fill_count ?a, longest)" by blast
  have ms: "mset (concat ?a) = mset (st_entries st)" by (rule mset_split)
  have "well_placed ?a"
    using assms(1) k \<open>k \<le> 29\<close> by (intro well_placed_split[of _ k]) (auto simp: st_shape_def)
  then have "st_shape (st\<lparr>st_array := ?a, st_fill := fill_count ?a\<rparr>)"
    using st_shape_array[OF assms(1), of ?a "Suc k"] k \<open>k \<le> 29\<close> ms by simp
  with True s ms show ?thesis by (simp add: strtab_split_def)
qed (use assms(1) in \<open>simp add: strtab_split_def\<close>)

text \<open>One chain is changed; \<open>ys\<close> is what the table holds then.\<close>

lemma st_shape_chain:
  assumes "st_shape st" "i < length (st_array st)" "mset (concat ((st_array st)[i := c])) = mset ys"
    "distinct (map he_hek ys)" "distinct (map he_addr ys)" "\<forall>e \<in> set ys. he_addr e < st_next st + n"
    "\<And>e. e \<in> set c \<Longrightarrow> e \<in> set (st_array st ! i) \<or> bucket_of (he_hash e) (st_max st) = i"
    "f = fill_count ((st_array st)[i := c])" "k = length ys"
  shows "st_shape (st\<lparr>st_array := (st_array st)[i := c], st_keys := k, st_next := st_next st + n, st_fill := f\<rparr>)"
proof -
  let ?a = "(st_array st)[i := c]"
  have "distinct (map he_hek (concat ?a))" "distinct (map he_addr (concat ?a))"
    using distinct_map_mset[OF assms(3)] assms(4,5) by blast+
  moreover have "\<forall>d \<in> set (concat ?a). he_addr d < st_next st + n"
    unfolding mset_eq_setD[OF assms(3)] by (rule assms(6))
  moreover have "k = length (concat ?a)"
    unfolding length_mset[OF assms(3)] by (rule assms(9))
  moreover have "well_placed ?a"
    using st_shapeD(1)[OF assms(1)] assms(7) unfolding st_max_def by (rule well_placed_update)
  moreover have "\<exists>k \<le> 30. length ?a = 2 ^ k"
    using st_shapeD(6)[OF assms(1)] by simp
  ultimately show ?thesis unfolding st_shape_def assms(8) by (intro conjI; simp)
qed

lemma share_new_shape:
  assumes "st_shape st" "\<forall>e \<in> set (st_entries st). he_hek e \<noteq> h"
    "i = bucket_of (hek_hash h) (st_max st)" "e = \<lparr>he_addr = st_next st, he_hek = h, he_val = 0\<rparr>"
  shows "st_shape (st\<lparr>st_array := (st_array st)[i := e # st_array st ! i], st_keys := st_keys st + 1,
    st_next := st_next st + 1, st_fill := (if st_array st ! i = [] then st_fill st + 1 else st_fill st)\<rparr>)"
proof -
  have i: "i < length (st_array st)" using assms(1,3) by (simp add: bucket_st_max)
  show ?thesis
  proof (rule st_shape_chain[OF assms(1) i, of _ "e # st_entries st"])
    show "mset (concat ((st_array st)[i := e # st_array st ! i])) = mset (e # st_entries st)"
      using mset_chain_push[OF i] by simp
    have eh: "he_hek e = h" "he_addr e = st_next st" using assms(4) by simp_all
    have "he_hek e \<notin> he_hek ` set (st_entries st)"
      using assms(2) unfolding eh image_iff by metis
    moreover have "he_addr e \<notin> he_addr ` set (st_entries st)"
      using st_shapeD(7)[OF assms(1)] less_irrefl unfolding eh image_iff by metis
    ultimately show "distinct (map he_hek (e # st_entries st))" "distinct (map he_addr (e # st_entries st))"
      using st_shapeD(2,3)[OF assms(1)] by (simp_all only: list.map distinct.simps set_map simp_thms)
    show "\<forall>d \<in> set (e # st_entries st). he_addr d < st_next st + 1"
      using st_shapeD(7)[OF assms(1)] assms(4) by (auto simp: less_Suc_eq)
    show "st_keys st + 1 = length (e # st_entries st)"
      using st_shapeD(4)[OF assms(1)] by simp
    show "(if st_array st ! i = [] then st_fill st + 1 else st_fill st) = fill_count ((st_array st)[i := e # st_array st ! i])"
      using fill_count_update[OF i, of "e # st_array st ! i"] st_shapeD(5)[OF assms(1)] by (auto split: if_splits)
  qed (use assms(3,4) in auto)
qed

lemma refs_eq: "mset (st_entries st') = mset (st_entries st) \<Longrightarrow> refs st' h = refs st h"
  by (simp only: refs_mset)

lemma inc_positive:
  assumes "\<forall>d \<in> set (st_entries st). 0 < he_val d \<or> he_addr d = a"
  shows "\<forall>d \<in> set (st_entries (inc_refcount a st)). 0 < he_val d"
  unfolding inc_entries set_map using assms by fastforce

text \<open>A new key: its entry is put in the table with the count zero.\<close>

definition share_new :: "strtab \<Rightarrow> hek \<Rightarrow> strtab" where
  "share_new st h =
    (let i = bucket_of (hek_hash h) (st_max st)
     in st\<lparr>st_array := (st_array st)[i := \<lparr>he_addr = st_next st, he_hek = h, he_val = 0\<rparr> # st_array st ! i],
           st_keys := st_keys st + 1, st_next := st_next st + 1,
           st_fill := (if st_array st ! i = [] then st_fill st + 1 else st_fill st)\<rparr>)"

lemma share_new_entries:
  assumes "st_shape st"
  shows "mset (st_entries (share_new st h)) =
    add_mset \<lparr>he_addr = st_next st, he_hek = h, he_val = 0\<rparr> (mset (st_entries st))"
  using mset_chain_push[OF bucket_st_max[OF assms, of "hek_hash h"]] by (simp only: share_new_def Let_def) simp

lemma unsharepvn_eq: "unsharepvn st str hash = unshare_hek st \<lparr>hek_hash = hash, hek_key = str, hek_flags = 0\<rparr>"
  unfolding unsharepvn_def unshare_hek_def Let_def hek_matches_eq by (auto split: option.split)

lemma share_hek_flags_cases:
  assumes "share_hek_flags m st str hash flags = Inr (h, st')"
  shows "h = \<lparr>hek_hash = hash, hek_key = str, hek_flags = flags AND HVhek_MASK\<rparr>"
    and "(\<exists>e. find (\<lambda>e. he_hek e = h) (st_array st ! bucket_of hash (st_max st)) = Some e \<and>
          st' = inc_refcount (he_addr e) st) \<or>
      find (\<lambda>e. he_hek e = h) (st_array st ! bucket_of hash (st_max st)) = None \<and>
        (st' = inc_refcount (st_next st) (share_new st h) \<or>
         st' = inc_refcount (st_next st) (strtab_split m (share_new st h)))"
proof -
  show h: "h = \<lparr>hek_hash = hash, hek_key = str, hek_flags = flags AND HVhek_MASK\<rparr>"
    using assms by (auto simp: share_hek_flags_def Let_def hek_matches_eq split: option.splits if_splits dest: find_SomeD)
  show "(\<exists>e. find (\<lambda>e. he_hek e = h) (st_array st ! bucket_of hash (st_max st)) = Some e \<and>
          st' = inc_refcount (he_addr e) st) \<or>
      find (\<lambda>e. he_hek e = h) (st_array st ! bucket_of hash (st_max st)) = None \<and>
        (st' = inc_refcount (st_next st) (share_new st h) \<or>
         st' = inc_refcount (st_next st) (strtab_split m (share_new st h)))"
    using assms unfolding share_hek_flags_def Let_def hek_matches_eq
    by (auto simp: h share_new_def Let_def split: option.splits if_splits)
qed

lemma share_hek_flags_ok:
  assumes "bounded_allocator m" "st_ok st" "share_hek_flags m st str hash flags = Inr (h, st')"
  shows "st_ok st' \<and> refs st' h' = refs st h' + (if h' = h then 1 else 0)"
proof -
  have sh: "st_shape st" using assms(2) by (simp add: st_ok_def)
  have hash: "hek_hash h = hash" using share_hek_flags_cases(1)[OF assms(3)] by simp
  have new: ?thesis if st1: "st_shape st1" "mset (st_entries st1) = mset (st_entries (share_new st h))"
      "st' = inc_refcount (st_next st) st1" for st1
  proof -
    let ?e = "\<lparr>he_addr = st_next st, he_hek = h, he_val = 0\<rparr>"
    have ms: "mset (st_entries st1) = add_mset ?e (mset (st_entries st))"
      using st1(2) share_new_entries[OF sh] by simp
    then have "set (st_entries st1) = insert ?e (set (st_entries st))"
      by (metis mset_eq_setD mset.simps(2) list.simps(15))
    then have "?e \<in> set (st_entries st1)" and pos: "\<forall>d \<in> set (st_entries st1). 0 < he_val d \<or> he_addr d = st_next st"
      using assms(2) unfolding st_ok_def by auto
    from refs_inc[OF st_shapeD(3)[OF st1(1)] this(1), of h']
    have "refs st' h' = refs st1 h' + (if h' = h then 1 else 0)" unfolding st1(3) by auto
    moreover have "refs st1 h' = refs st h'" unfolding refs_mset ms by simp
    moreover have "st_ok st'"
      using inc_shape[OF st1(1)] inc_positive[OF pos] unfolding st1(3) st_ok_def by blast
    ultimately show ?thesis by simp
  qed
  from share_hek_flags_cases(2)[OF assms(3)] show ?thesis
  proof (elim disjE exE conjE)
    fix e assume f: "find (\<lambda>e. he_hek e = h) (st_array st ! bucket_of hash (st_max st)) = Some e"
      "st' = inc_refcount (he_addr e) st"
    then have "e \<in> set (st_entries st)" "he_hek e = h"
      using find_SomeD[OF f(1)] in_concat_nth[OF bucket_st_max[OF sh]] by blast+
    with f(2) show ?thesis
      using refs_inc[OF st_shapeD(3)[OF sh], of e h'] inc_shape[OF sh] inc_positive[of st "he_addr e"] assms(2)
      by (auto simp: st_ok_def)
  next
    assume none: "find (\<lambda>e. he_hek e = h) (st_array st ! bucket_of hash (st_max st)) = None"
    have "\<forall>e \<in> set (st_entries st). he_hek e \<noteq> h"
      using none st_bucket[OF sh] hash unfolding find_None_iff by blast
    then have nsh: "st_shape (share_new st h)"
      unfolding share_new_def Let_def using sh by (intro share_new_shape) simp_all
    note sp = strtab_split_ok[OF nsh assms(1)]
    show ?thesis if "st' = inc_refcount (st_next st) (share_new st h)"
      using new[OF nsh refl that] .
    show ?thesis if "st' = inc_refcount (st_next st) (strtab_split m (share_new st h))"
      using new[OF _ _ that] sp by blast
  qed
qed

section \<open>Unsharing\<close>

lemma refs_add:
  "mset (st_entries st') = add_mset e M \<Longrightarrow>
   refs st' h = (if he_hek e = h then he_val e else 0) + (\<Sum>d\<in>#M. if he_hek d = h then he_val d else 0)"
  unfolding refs_mset by (simp only: image_mset_add_mset sum_mset.add_mset)

lemma refs_rest_zero:
  assumes "\<forall>d \<in># M. he_hek d \<noteq> h"
  shows "(\<Sum>d\<in>#M. if he_hek d = h then he_val d else (0::nat)) = 0"
proof -
  have "(\<Sum>d\<in>#M. if he_hek d = h then he_val d else (0::nat)) = (\<Sum>d\<in>#M. 0)"
    using assms by (intro arg_cong[of _ _ sum_mset] image_mset_cong) auto
  then show ?thesis by simp
qed

text \<open>The entry of the key, and the other entries.\<close>


lemma st_entry_split:
  assumes "st_shape st" "find (\<lambda>e. he_hek e = h) (st_array st ! i) = Some e" "i < length (st_array st)"
  shows "\<exists>M. mset (st_entries st) = add_mset e M \<and> he_hek e = h \<and> (\<forall>d \<in># M. he_hek d \<noteq> h) \<and>
    mset (concat ((st_array st)[i := remove_first (\<lambda>e. he_hek e = h) (st_array st ! i)])) = M \<and>
    mset (concat ((st_array st)[i := replace_first (\<lambda>e. he_hek e = h) x (st_array st ! i)])) = add_mset x M"
proof -
  let ?M = "mset (concat ((st_array st)[i := remove_first (\<lambda>e. he_hek e = h) (st_array st ! i)]))"
  have ms: "mset (st_entries st) = add_mset e ?M"
    by (rule mset_chain_remove[OF assms(3,2)])
  have he: "he_hek e = h" using find_SomeD[OF assms(2)] by simp
  have "\<forall>d \<in># ?M. he_hek d \<noteq> h"
    using distinct_map_rest[OF st_shapeD(2)[OF assms(1)] ms] he by simp
  moreover have "mset (concat ((st_array st)[i := replace_first (\<lambda>e. he_hek e = h) x (st_array st ! i)])) = add_mset x ?M"
    using mset_chain_replace[OF assms(3,2), of x] ms by simp
  ultimately show ?thesis using ms he by blast
qed

lemma unshare_hek_ok:
  assumes "st_ok st"
  shows "st_ok (unshare_hek st h) \<and> refs (unshare_hek st h) h' = refs st h' - (if h' = h then 1 else 0)"
proof -
  have sh: "st_shape st" using assms by (simp add: st_ok_def)
  define i where "i = bucket_of (hek_hash h) (st_max st)"
  have i: "i < length (st_array st)" using bucket_st_max[OF sh] by (simp add: i_def)
  show ?thesis
  proof (cases "find (\<lambda>e. he_hek e = h) (st_array st ! i)")
    case None
    with refs_zero[OF assms, of h] have "refs st h = 0" by (simp add: i_def)
    with None assms show ?thesis by (simp add: unshare_hek_def i_def Let_def)
  next
    case (Some e)
    obtain M where M: "mset (st_entries st) = add_mset e M" "he_hek e = h" "\<forall>d \<in># M. he_hek d \<noteq> h"
      using st_entry_split[OF sh Some i] by blast
    obtain ys where ys: "M = mset ys" by (metis ex_mset)
    have ms0: "mset (st_entries st) = mset (e # ys)" using M(1) ys by simp
    have dis: "distinct (map he_hek (e # ys))" "distinct (map he_addr (e # ys))"
      using distinct_map_mset[OF ms0] st_shapeD(2,3)[OF sh] by blast+
    have addr: "\<forall>d \<in> set (e # ys). he_addr d < st_next st + 0"
      unfolding mset_eq_setD[OF ms0, symmetric] using st_shapeD(7)[OF sh] by simp
    have pos: "\<forall>d \<in> set (e # ys). 0 < he_val d"
      unfolding mset_eq_setD[OF ms0, symmetric] using assms unfolding st_ok_def by blast
    have n: "st_keys st = Suc (length ys)"
      unfolding st_shapeD(4)[OF sh] length_mset[OF ms0] by simp
    have bi: "bucket_of (he_hash e) (st_max st) = i" using M(2) by (simp add: i_def)
    show ?thesis
    proof (cases "he_val e - 1 = 0")
      case True
      let ?c = "remove_first (\<lambda>e. he_hek e = h) (st_array st ! i)"
      have u: "unshare_hek st h = st\<lparr>st_array := (st_array st)[i := ?c], st_keys := length ys, st_next := st_next st + 0,
          st_fill := (if ?c = [] then st_fill st - 1 else st_fill st)\<rparr>"
        using True Some n by (simp add: unshare_hek_def Let_def i_def)
      have ms: "mset (concat ((st_array st)[i := ?c])) = mset ys"
        using st_entry_split[OF sh Some i] M(1) ys by auto
      have "st_array st ! i \<noteq> []" using Some by auto
      then have f: "(if ?c = [] then st_fill st - 1 else st_fill st) = fill_count ((st_array st)[i := ?c])"
        using fill_count_update[OF i, of ?c] st_shapeD(5)[OF sh] by auto
      have "st_shape (unshare_hek st h)" unfolding u
        using dis addr set_remove_first[of _ "st_array st ! i"]
        by (intro st_shape_chain[OF sh i ms] f refl) (auto simp del: he.simps)
      moreover have ms': "mset (st_entries (unshare_hek st h)) = mset ys" unfolding u using ms by simp
      moreover have "refs (unshare_hek st h) h' = refs st h' - (if h' = h then 1 else 0)"
        using True M pos refs_rest_zero[of M h] unfolding refs_add[OF M(1)] refs_mset ms' ys by auto
      moreover have "\<forall>d \<in> set ys. 0 < he_val d" using pos by simp
      ultimately show ?thesis
        using mset_eq_setD[OF ms'] by (simp only: st_ok_def simp_thms)
    next
      case False
      define x where "x = e\<lparr>he_val := he_val e - 1\<rparr>"
      have x: "he_hek x = he_hek e" "he_addr x = he_addr e" "he_val x = he_val e - 1" by (simp_all add: x_def)
      let ?c = "replace_first (\<lambda>e. he_hek e = h) x (st_array st ! i)"
      have u: "unshare_hek st h = st\<lparr>st_array := (st_array st)[i := ?c], st_keys := length (x # ys),
          st_next := st_next st + 0, st_fill := st_fill st\<rparr>"
        using False Some n by (simp add: unshare_hek_def Let_def i_def x_def)
      have ms: "mset (concat ((st_array st)[i := ?c])) = mset (x # ys)"
        using st_entry_split[OF sh Some i] M(1) ys by auto
      have f: "st_fill st = fill_count ((st_array st)[i := ?c])"
        using fill_count_update[OF i, of ?c] st_shapeD(5)[OF sh] Some by (auto split: if_splits)
      have dis': "distinct (map he_hek (x # ys))" "distinct (map he_addr (x # ys))"
        "\<forall>d \<in> set (x # ys). he_addr d < st_next st + 0"
        using dis addr x by simp_all
      have inb: "d \<in> set (st_array st ! i) \<or> bucket_of (he_hash d) (st_max st) = i" if "d \<in> set ?c" for d
        using that set_replace_first[of "\<lambda>e. he_hek e = h" x "st_array st ! i"] bi x by fastforce
      have "st_shape (unshare_hek st h)" unfolding u
        by (rule st_shape_chain[OF sh i ms dis' inb f refl])
      moreover have ms': "mset (st_entries (unshare_hek st h)) = mset (x # ys)" unfolding u using ms by simp
      moreover have "refs (unshare_hek st h) h' = refs st h' - (if h' = h then 1 else 0)"
        using M pos x refs_add[of "unshare_hek st h" x M h'] ms'
        unfolding refs_add[OF M(1)] ys by auto
      moreover have "\<forall>d \<in> set (x # ys). 0 < he_val d" using pos False x by simp
      ultimately show ?thesis
        using mset_eq_setD[OF ms'] by (simp only: st_ok_def simp_thms)
    qed
  qed
qed

section \<open>The counts are those of the references\<close>

text \<open>\<open>PL_strtab\<close> as \<open>perl_construct\<close> makes it: \<open>hv_ksplit(PL_strtab, 512)\<close>.\<close>

definition strtab0 :: strtab where
  "strtab0 = \<lparr>st_array = replicate 512 [], st_keys = 0, st_fill = 0, st_next = 0\<rparr>"

datatype st_op = Share "u8 list" u32 u32 | Unshare hek

fun st_run :: "allocator \<Rightarrow> strtab \<Rightarrow> st_op list \<Rightarrow> strtab result" where
  "st_run m st [] = Inr st"
| "st_run m st (Share str hash flags # ops) =
    bind_result (share_hek_flags m st str hash flags) (\<lambda>(h, st). st_run m st ops)"
| "st_run m st (Unshare h # ops) = st_run m (unshare_hek st h) ops"

text \<open>The references that are held.\<close>

fun held :: "hek multiset \<Rightarrow> st_op list \<Rightarrow> hek multiset" where
  "held M [] = M"
| "held M (Share str hash flags # ops) =
    held (add_mset \<lparr>hek_hash = hash, hek_key = str, hek_flags = flags AND HVhek_MASK\<rparr> M) ops"
| "held M (Unshare h # ops) = held (M - {#h#}) ops"

lemma concat_replicate_Nil: "concat (replicate n []) = []"
  by (induction n) auto

lemma strtab0_ok: "st_ok strtab0"
proof -
  have "length (replicate 512 ([] :: nat he list)) = 2 ^ 9" by simp
  then have "\<exists>k \<le> 30. length (st_array strtab0) = 2 ^ k" unfolding strtab0_def strtab.simps by (intro exI[of _ 9]) simp
  then show ?thesis
    by (auto simp: st_ok_def st_shape_def strtab0_def well_placed_def concat_replicate_Nil)
qed

lemma st_run_counts:
  assumes "bounded_allocator m" "st_ok st" "st_run m st ops = Inr st'" "\<And>h. refs st h = count M h"
  shows "st_ok st' \<and> refs st' h = count (held M ops) h"
  using assms
proof (induction m st ops arbitrary: M rule: st_run.induct)
  case (2 m st str hash flags ops)
  from 2(4) obtain h1 st1 where s: "share_hek_flags m st str hash flags = Inr (h1, st1)" "st_run m st1 ops = Inr st'"
    by (auto simp: bind_result_Inr)
  note ok = share_hek_flags_ok[OF 2(2,3) s(1)] and h1 = share_hek_flags_cases(1)[OF s(1)]
  have "st_ok st1" using ok by blast
  moreover have "refs st1 g = count (add_mset h1 M) g" for g using ok[of g] 2(5)[of g] by simp
  ultimately show ?case unfolding held.simps h1[symmetric] using 2(1)[of st1 "add_mset h1 M"] s 2(2) by simp
next
  case (3 m st h1 ops)
  have ok: "st_ok (unshare_hek st h1)" using unshare_hek_ok[OF 3(3)] by blast
  have r: "refs (unshare_hek st h1) g = count (M - {#h1#}) g" for g
    using unshare_hek_ok[OF 3(3), of h1 g] 3(5)[of g] by simp
  show ?case unfolding held.simps using 3(4) by (intro 3(1)[OF 3(2) ok _ r]) simp
qed simp

lemma refs_entry:
  assumes "st_ok st"
  shows "(\<exists>e \<in> set (st_entries st). he_hek e = h) \<longleftrightarrow> refs st h \<noteq> 0"
proof -
  have b: "bucket_of (hek_hash h) (st_max st) < length (st_array st)"
    using assms bucket_st_max by (simp add: st_ok_def)
  have "(\<exists>e \<in> set (st_entries st). he_hek e = h) \<longleftrightarrow>
      (\<exists>e \<in> set (st_array st ! bucket_of (hek_hash h) (st_max st)). he_hek e = h)"
    using st_bucket[of st _ h] assms in_concat_nth[OF b] unfolding st_ok_def by blast
  also have "\<dots> \<longleftrightarrow> refs st h \<noteq> 0"
    unfolding refs_zero[OF assms] find_None_iff by blast
  finally show ?thesis .
qed

lemma strtab_run:
  assumes "bounded_allocator m" "st_run m strtab0 ops = Inr st"
  shows "refs st h = count (held {#} ops) h \<and>
    he_hek ` set (st_entries st) = set_mset (held {#} ops) \<and>
    st_keys st = card (set_mset (held {#} ops))"
proof -
  have r0: "refs strtab0 g = count {#} g" for g
    by (simp add: refs_def strtab0_def concat_replicate_Nil)
  have ok: "st_ok st" and r: "\<And>g. refs st g = count (held {#} ops) g"
    using st_run_counts[OF assms(1) strtab0_ok assms(2) r0] by auto
  have im: "he_hek ` set (st_entries st) = set_mset (held {#} ops)"
    using refs_entry[OF ok] unfolding r count_eq_zero_iff by (auto simp del: set_concat simp: image_iff) metis
  have sh: "st_shape st" using ok by (simp add: st_ok_def)
  have "st_keys st = length (map he_hek (st_entries st))" unfolding length_map by (rule st_shapeD(4)[OF sh])
  also have "\<dots> = card (he_hek ` set (st_entries st))"
    using distinct_card[OF st_shapeD(2)[OF sh]] unfolding set_map by (rule sym)
  finally show ?thesis unfolding im using r by simp
qed

text \<open>
  C8: from the empty table, after any sequence of \<open>share_hek_flags\<close> and \<open>unshare_hek\<close> the table
  holds exactly the keys that are still referred to, each once, the count of each is the number
  of its references, and \<open>xhv_keys\<close> is the number of distinct keys, whatever splits of the
  array happened on the way.
\<close>

theorem strtab_counts_references:
  assumes "bounded_allocator m" "st_run m strtab0 ops = Inr st"
  shows "refs st h = count (held {#} ops) h \<and>
    he_hek ` set (st_entries st) = set_mset (held {#} ops) \<and>
    st_keys st = card (set_mset (held {#} ops))"
  using assms by (rule strtab_run)

lemma strtab_counts_references_witness:
  "\<exists>st. st_run (fixed_allocator 40) strtab0
      [Share [97] 513 0, Share [98] 1 0, Share [97] 513 0, Unshare \<lparr>hek_hash = 1, hek_key = [98], hek_flags = 0\<rparr>] = Inr st \<and>
    refs st \<lparr>hek_hash = 513, hek_key = [97], hek_flags = 0\<rparr> = 2 \<and> st_keys st = 1"
proof -
  let ?m = "fixed_allocator 40"
  let ?ops = "[Share [97] 513 0, Share [98] 1 0, Share [97] 513 0,
    Unshare \<lparr>hek_hash = 1, hek_key = [98], hek_flags = 0\<rparr>]"
  have m: "bounded_allocator ?m" by (simp add: bounded_allocator_def fixed_allocator_def)
  have "\<exists>st. st_run ?m strtab0 ?ops = Inr st"
    by (simp add: share_hek_flags_def unshare_hek_def inc_refcount_def strtab0_def st_max_def bucket_of_def
        hek_matches_eq newx_def fixed_allocator_def Let_def HVhek_MASK_def)
  then obtain st where st: "st_run ?m strtab0 ?ops = Inr st" by blast
  have "held {#} ?ops = {#\<lparr>hek_hash = 513, hek_key = [97], hek_flags = 0\<rparr>, \<lparr>hek_hash = 513, hek_key = [97], hek_flags = 0\<rparr>#}"
    by simp
  with strtab_counts_references[OF m st, of "\<lparr>hek_hash = 513, hek_key = [97], hek_flags = 0\<rparr>"] st
  show ?thesis by simp
qed

end
