(* ===== verification/Hash_Table.thy ===== *)
theory Hash_Table
  imports Shared_Strings
begin

text \<open>
  The hashes of \<open>hv.c\<close>: the state of an \<open>HV\<close> and of what it shares with the interpreter, and
  the operations that look up, store, delete and split. An entry (\<open>HE\<close>) is named by its
  address; a chain is the list of its entries, so \<open>HeNEXT\<close> of an entry is what follows it.

  Not in the model: hashes with \<open>HEf_SVKEY\<close> keys (only the temporary entries of tied hashes
  have them), a NULL \<open>hv\<close>, calls on \<open>PL_strtab\<close> itself, and the arenas that \<open>new_HE\<close> takes its
  entries from (an entry has an address that no other one has). Destructors that run when a
  value is released do not touch the hash.
\<close>

section \<open>State\<close>

text \<open>\<open>HeVAL\<close>: NULL, \<open>&PL_sv_placeholder\<close>, or another value.\<close>

datatype hval = Val_null | Placeholder | Val nat

type_synonym hent = "hval he"

text \<open>\<open>struct xpvhv_aux\<close>, which a hash has when \<open>SvOOK\<close> is set. \<open>aux_mro_meta\<close> holds the linearization (an
  array) and the \<open>next::method\<close> cache (a hash).\<close>

record hv_aux =
  aux_name :: "hek option"
  aux_backreferences :: "nat option"
  aux_eiter :: "nat option"
  aux_riter :: int
  aux_mro_meta :: "(nat option \<times> nat option) option"

text \<open>
  \<open>HvUNLINKED\<close> is the entry that was deleted while the iterator was at it, with its
  \<open>hent_next\<close>: it is not in the array any more and is freed later (\<open>HvLAZYDEL\<close>).
\<close>

record hv =
  HvARRAY :: "hent list list option"
  HvMAX :: nat
  HvFILL :: nat
  HvTOTALKEYS :: nat
  HvPLACEHOLDERS :: nat
  HvSHAREKEYS :: bool
  HvREHASH :: bool
  HvRESTRICTED :: bool
  HvREADONLY :: bool
  HvLAZYDEL :: bool
  HvAUX :: "hv_aux option"
  HvUNLINKED :: "(hent \<times> nat option) option"

text \<open>What a hash operation does to values and to the rest of the interpreter, in order.\<close>

datatype hv_event =
    Refcnt_dec hval
  | Mortal hval
  | Mortal_inc hval            \<comment> \<open>\<open>sv_2mortal(SvREFCNT_inc(v))\<close>\<close>
  | Copy_of nat hval            \<comment> \<open>\<open>newSVsv\<close>\<close>
  | Method_changed
  | Isa_changed
  | Backref_magic nat
  | Dec_container nat          \<comment> \<open>\<open>AvREFCNT_dec\<close>, \<open>HvREFCNT_dec\<close>\<close>
  | Kill_backrefs nat
  | Stashcache_delete hek

record hworld =
  w_strtab :: strtab
  w_next_he :: nat
  w_next_sv :: nat
  w_log :: "hv_event list"

text \<open>What the operations ask about the interpreter and its values, and the allocator.\<close>

record henv =
  e_alloc :: allocator
  e_hash_seed :: u32
  e_rehash_seed :: u32
  e_readonly :: "nat \<Rightarrow> bool"           \<comment> \<open>\<open>SvREADONLY\<close>\<close>
  e_flag_restricted :: "nat \<Rightarrow> bool"    \<comment> \<open>bit \<open>SVphv_RESTRICTED\<close> of the flags\<close>
  e_is_method :: "nat \<Rightarrow> bool"          \<comment> \<open>\<open>isGV\<close>, \<open>isGV_with_GP\<close> and \<open>GvCVu\<close>\<close>
  e_av_empty :: "nat \<Rightarrow> bool"           \<comment> \<open>\<open>AvFILLp == -1\<close>\<close>
  e_dirty :: bool                       \<comment> \<open>\<open>PL_dirty\<close>\<close>
  e_stashcache :: bool                  \<comment> \<open>\<open>PL_stashcache\<close> is there\<close>

definition w_add :: "hv_event \<Rightarrow> hworld \<Rightarrow> hworld" where
  "w_add ev w = w\<lparr>w_log := w_log w @ [ev]\<rparr>"

definition newSV :: "hworld \<Rightarrow> hval \<times> hworld" where
  "newSV w = (Val (w_next_sv w), w\<lparr>w_next_sv := w_next_sv w + 1\<rparr>)"

text \<open>\<open>newHV\<close>: keys are shared, eight buckets, no array yet.\<close>

definition newHV :: hv where
  "newHV = \<lparr>HvARRAY = None, HvMAX = 7, HvFILL = 0, HvTOTALKEYS = 0, HvPLACEHOLDERS = 0, HvSHAREKEYS = True,
    HvREHASH = False, HvRESTRICTED = False, HvREADONLY = False, HvLAZYDEL = False, HvAUX = None, HvUNLINKED = None\<rparr>"

definition HvNAME_HEK :: "hv \<Rightarrow> hek option" where
  "HvNAME_HEK hv = (case HvAUX hv of None \<Rightarrow> None | Some aux \<Rightarrow> aux_name aux)"

definition HvEITER_get :: "hv \<Rightarrow> nat option" where
  "HvEITER_get hv = (case HvAUX hv of None \<Rightarrow> None | Some aux \<Rightarrow> aux_eiter aux)"

definition HvRITER_get :: "hv \<Rightarrow> int" where
  "HvRITER_get hv = (case HvAUX hv of None \<Rightarrow> -1 | Some aux \<Rightarrow> aux_riter aux)"

definition HvUSEDKEYS :: "hv \<Rightarrow> int" where
  "HvUSEDKEYS hv = int (HvTOTALKEYS hv) - int (HvPLACEHOLDERS hv)"

text \<open>The size of the array with the auxiliary structure behind it.\<close>

definition array_bytes :: "hv \<Rightarrow> nat \<Rightarrow> nat" where
  "array_bytes hv n = n * 8 + (if HvAUX hv \<noteq> None then 40 else 0)"

definition next_addr :: "hent list \<Rightarrow> nat option" where
  "next_addr es = (case es of [] \<Rightarrow> None | e # _ \<Rightarrow> Some (he_addr e))"

fun after_first :: "('a \<Rightarrow> bool) \<Rightarrow> 'a list \<Rightarrow> 'a list" where
  "after_first P [] = []"
| "after_first P (e # es) = (if P e then es else after_first P es)"

section \<open>Keys and entries\<close>

definition save_hek_flags :: "allocator \<Rightarrow> u8 list \<Rightarrow> u32 \<Rightarrow> u32 \<Rightarrow> hek result" where
  "save_hek_flags m str hash flags =
    (if newx m (HEK_BASESIZE + length str + 2) 1
     then Inr \<lparr>hek_hash = hash, hek_key = str, hek_flags = (flags AND HVhek_MASK) OR HVhek_UNSHARED\<rparr>
     else Inl Out_of_memory)"

definition is_method :: "henv \<Rightarrow> hval \<Rightarrow> bool" where
  "is_method env val = (case val of Val v \<Rightarrow> e_is_method env v | _ \<Rightarrow> False)"

definition hv_free_ent :: "henv \<Rightarrow> hv \<Rightarrow> hworld \<Rightarrow> hent \<Rightarrow> hworld" where
  "hv_free_ent env hv w entry =
    (let val = he_val entry;
         w = (if is_method env val \<and> HvNAME_HEK hv \<noteq> None then w_add Method_changed w else w);
         w = w_add (Refcnt_dec val) w
     in if HvSHAREKEYS hv then w\<lparr>w_strtab := unshare_hek (w_strtab w) (he_hek entry)\<rparr> else w)"

definition hv_delayfree_ent :: "henv \<Rightarrow> hv \<Rightarrow> hworld \<Rightarrow> hent \<Rightarrow> hworld" where
  "hv_delayfree_ent env hv w entry =
    hv_free_ent env hv (w_add (Mortal_inc (he_val entry)) w) entry"

text \<open>
  An entry that has been unlinked is freed, but for the one the iterator is at, which is left
  for it to find its way.
\<close>

definition free_unlinked :: "henv \<Rightarrow> hworld \<Rightarrow> hv \<Rightarrow> hent \<Rightarrow> nat option \<Rightarrow> hworld \<times> hv" where
  "free_unlinked env w hv entry hent_next =
    (if HvEITER_get hv = Some (he_addr entry)
     then (w, hv\<lparr>HvLAZYDEL := True, HvUNLINKED := Some (entry, hent_next)\<rparr>)
     else (hv_free_ent env hv w entry, hv))"

section \<open>Placeholders\<close>

text \<open>The inner loop of \<open>clear_placeholders\<close>: the chain that is left, and the items still to be found.\<close>

fun clear_chain :: "henv \<Rightarrow> bool \<Rightarrow> hworld \<Rightarrow> hv \<Rightarrow> hent list \<Rightarrow> nat \<Rightarrow> hent list \<times> hworld \<times> hv \<times> nat" where
  "clear_chain env fst_one w hv [] items = ([], w, hv, items)"
| "clear_chain env fst_one w hv (entry # rest) items =
    (if he_val entry = Placeholder then
       let hv = (if fst_one \<and> rest = [] then hv\<lparr>HvFILL := HvFILL hv - 1\<rparr> else hv);
           (w, hv) = free_unlinked env w hv entry (next_addr rest)
       in if items - 1 = 0 then (rest, w, hv, 0)
          else clear_chain env fst_one w hv rest (items - 1)
     else let (es, w, hv, items) = clear_chain env False w hv rest items
       in (entry # es, w, hv, items))"

text \<open>The outer loop, from the last bucket down; \<open>n\<close> is \<open>i + 1\<close>.\<close>

fun clear_buckets ::
  "henv \<Rightarrow> nat \<Rightarrow> hworld \<Rightarrow> hv \<Rightarrow> hent list list \<Rightarrow> nat \<Rightarrow> hent list list \<times> hworld \<times> hv \<times> nat" where
  "clear_buckets env 0 w hv a items = (a, w, hv, items)"
| "clear_buckets env (Suc i) w hv a items =
    (case clear_chain env True w hv (a ! i) items of (es, w, hv, items) \<Rightarrow>
      if items = 0 then (a[i := es], w, hv, 0)
      else clear_buckets env i w hv (a[i := es]) items)"

definition clear_placeholders :: "henv \<Rightarrow> hworld \<Rightarrow> hv \<Rightarrow> nat \<Rightarrow> (hworld \<times> hv) result" where
  "clear_placeholders env w hv items =
    (if items = 0 then Inr (w, hv)
     else case HvARRAY hv of
       None \<Rightarrow> Inl Null_pointer
     | Some a \<Rightarrow>
        (case clear_buckets env (HvMAX hv + 1) w hv a items of (a, w, hv, items) \<Rightarrow>
          if items = 0
          then Inr (w, hv\<lparr>HvARRAY := Some a, HvTOTALKEYS := HvTOTALKEYS hv - HvPLACEHOLDERS hv, HvPLACEHOLDERS := 0\<rparr>)
          else Inr (w, hv\<lparr>HvARRAY := Some a\<rparr>)))"

definition hv_clear_placeholders :: "henv \<Rightarrow> hworld \<Rightarrow> hv \<Rightarrow> (hworld \<times> hv) result" where
  "hv_clear_placeholders env w hv =
    (let items = HvPLACEHOLDERS hv
     in if items \<noteq> 0 then clear_placeholders env w hv items else Inr (w, hv))"

section \<open>Splitting\<close>

text \<open>The second half of \<open>hsplit\<close>: an entry gets the other hash value and goes to its new chain.\<close>

fun rehash_entries ::
  "henv \<Rightarrow> bool \<Rightarrow> nat \<Rightarrow> hent list \<Rightarrow> hent list list \<Rightarrow> nat \<Rightarrow> hworld \<Rightarrow> (hent list list \<times> nat \<times> hworld) result" where
  "rehash_entries env was_shared xhv_max [] a fill w = Inr (a, fill, w)"
| "rehash_entries env was_shared xhv_max (entry # rest) a fill w =
    (let hash = perl_hash (e_rehash_seed env) (he_key entry) in
     bind_result
       (if was_shared then
          bind_result (save_hek_flags (e_alloc env) (he_key entry) hash (hek_flags (he_hek entry)))
            (\<lambda>new_hek. Inr (new_hek, w\<lparr>w_strtab := unshare_hek (w_strtab w) (he_hek entry)\<rparr>))
        else Inr ((he_hek entry)\<lparr>hek_hash := hash\<rparr>, w))
       (\<lambda>(hek, w).
         let entry = entry\<lparr>he_hek := hek\<lparr>hek_flags := hek_flags hek OR HVhek_REHASH\<rparr>\<rparr>;
             j = bucket_of hash xhv_max
         in rehash_entries env was_shared xhv_max rest (a[j := entry # a ! j])
              (if a ! j = [] then fill + 1 else fill) w))"

text \<open>``Pathological data'': the hash gets its own hash function and unshared keys.\<close>

definition rehash :: "henv \<Rightarrow> hworld \<Rightarrow> hv \<Rightarrow> hent list list \<Rightarrow> (hworld \<times> hv) result" where
  "rehash env w hv a =
    (if \<not> newx (e_alloc env) (array_bytes hv (HvMAX hv + 1)) 1 then Inl Out_of_memory
     else bind_result
       (rehash_entries env (HvSHAREKEYS hv) (HvMAX hv) (concat a) (replicate (HvMAX hv + 1) []) 0 w)
       (\<lambda>(a, fill, w).
         Inr (w, hv\<lparr>HvARRAY := Some a, HvFILL := fill, HvSHAREKEYS := False, HvREHASH := True\<rparr>)))"

text \<open>\<open>hsplit\<close> once the placeholders are gone.\<close>

definition hsplit_array :: "henv \<Rightarrow> hworld \<Rightarrow> hv \<Rightarrow> (hworld \<times> hv) result" where
  "hsplit_array env w hv =
    (let oldsize = HvMAX hv + 1; newsize = oldsize * 2 in
     case HvARRAY hv of None \<Rightarrow> Inl Null_pointer | Some a \<Rightarrow>
     if \<not> newx (e_alloc env) (array_bytes hv newsize) 1 then Inr (w, hv)
     else case split_array a (HvFILL hv) of (a, fill, longest_chain) \<Rightarrow>
       let hv = hv\<lparr>HvARRAY := Some a, HvFILL := fill, HvMAX := newsize - 1\<rparr> in
       if longest_chain \<le> HV_MAX_LENGTH_BEFORE_SPLIT \<or> HvREHASH hv then Inr (w, hv)
       else rehash env w hv a)"

definition hsplit :: "henv \<Rightarrow> hworld \<Rightarrow> hv \<Rightarrow> (hworld \<times> hv) result" where
  "hsplit env w hv =
    bind_result
      (if HvPLACEHOLDERS hv \<noteq> 0 \<and> \<not> HvRESTRICTED hv then hv_clear_placeholders env w hv else Inr (w, hv))
      (\<lambda>(w, hv). hsplit_array env w hv)"

section \<open>Fetch, store and exists\<close>

definition HV_FETCH_ISSTORE :: u32 where "HV_FETCH_ISSTORE = 0x04"
definition HV_FETCH_ISEXISTS :: u32 where "HV_FETCH_ISEXISTS = 0x08"
definition HV_FETCH_LVALUE :: u32 where "HV_FETCH_LVALUE = 0x10"
definition HV_FETCH_JUST_SV :: u32 where "HV_FETCH_JUST_SV = 0x20"
definition HV_DELETE :: u32 where "HV_DELETE = 0x40"
definition G_DISCARD :: u32 where "G_DISCARD = 4"

definition has :: "u32 \<Rightarrow> u32 \<Rightarrow> bool" where
  "has action f \<longleftrightarrow> action AND f \<noteq> 0"

text \<open>
  The key of a call: bytes with flags, or an \<open>SV\<close> (\<open>keysv\<close>) with its bytes and, when it is a
  shared hash key scalar, the hash value it carries.
\<close>

datatype hkey = Pv "u8 list" u32 | Ksv "u8 list" "u32 option"

fun key_bytes :: "hkey \<Rightarrow> u8 list" where
  "key_bytes (Pv key flags) = key"
| "key_bytes (Ksv key shared) = key"

fun key_flags :: "hkey \<Rightarrow> u32" where
  "key_flags (Pv key flags) = flags"
| "key_flags (Ksv key shared) = 0"

fun key_shared_hash :: "hkey \<Rightarrow> u32 option" where
  "key_shared_hash (Pv key flags) = None"
| "key_shared_hash (Ksv key shared) = shared"

datatype hv_ret = Ret_null | Ret_entry nat | Ret_slot nat | Ret_sv hval

definition key_hash :: "henv \<Rightarrow> hv \<Rightarrow> hkey \<Rightarrow> u32 \<Rightarrow> u32" where
  "key_hash env hv k hash =
    (if HvREHASH hv then perl_hash (e_rehash_seed env) (key_bytes k)
     else if hash = 0 then
       (case key_shared_hash k of
          Some h \<Rightarrow> h
        | None \<Rightarrow> perl_hash (e_hash_seed env) (key_bytes k))
     else hash)"

definition flags_for :: "hv \<Rightarrow> hkey \<Rightarrow> u32" where
  "flags_for hv k = (if HvREHASH hv then key_flags k OR HVhek_REHASH else key_flags k)"

definition ret_entry :: "u32 \<Rightarrow> nat \<Rightarrow> hv_ret" where
  "ret_entry action addr = (if has action HV_FETCH_JUST_SV then Ret_slot addr else Ret_entry addr)"

text \<open>The key of a found entry gets the flags of this call (\<open>masked_flags\<close>).\<close>

definition swap_key :: "henv \<Rightarrow> hworld \<Rightarrow> hv \<Rightarrow> hent \<Rightarrow> u8 list \<Rightarrow> u32 \<Rightarrow> u32 \<Rightarrow> (hek \<times> hworld) result" where
  "swap_key env w hv entry key hash masked_flags =
    (if hek_flags (he_hek entry) \<noteq> masked_flags then
       if HvSHAREKEYS hv then
         bind_result (share_hek_flags (e_alloc env) (w_strtab w) key hash masked_flags)
           (\<lambda>(new_hek, st). Inr (new_hek, w\<lparr>w_strtab := unshare_hek st (he_hek entry)\<rparr>))
       else Inr ((he_hek entry)\<lparr>hek_flags := masked_flags\<rparr>, w)
     else Inr (he_hek entry, w))"

text \<open>The body of the loop for the entry that matches.\<close>

definition hv_found ::
  "henv \<Rightarrow> hworld \<Rightarrow> hv \<Rightarrow> hent list list \<Rightarrow> hent \<Rightarrow> u8 list \<Rightarrow> u32 \<Rightarrow> u32 \<Rightarrow> u32 \<Rightarrow> hval \<Rightarrow> (hv_ret \<times> hworld \<times> hv) result" where
  "hv_found env w hv a entry key hash masked_flags action val =
    (if has action (HV_FETCH_LVALUE OR HV_FETCH_ISSTORE) then
       bind_result (swap_key env w hv entry key hash masked_flags)
         (\<lambda>(hek, w).
           let i = bucket_of hash (HvMAX hv);
               (new, w, hv) =
                 (if he_val entry = Placeholder then
                    if has action HV_FETCH_LVALUE then
                      let (sv, w) = newSV w in (sv, w, hv\<lparr>HvPLACEHOLDERS := HvPLACEHOLDERS hv - 1\<rparr>)
                    else if val \<noteq> Placeholder then (val, w, hv\<lparr>HvPLACEHOLDERS := HvPLACEHOLDERS hv - 1\<rparr>)
                    else (val, w, hv)
                  else if has action HV_FETCH_ISSTORE then (val, w_add (Refcnt_dec (he_val entry)) w, hv)
                  else (he_val entry, w, hv));
               entry = entry\<lparr>he_hek := hek, he_val := new\<rparr>
           in Inr (ret_entry action (he_addr entry), w,
                hv\<lparr>HvARRAY := Some (a[i := replace_first (key_matches hash key) entry (a ! i)])\<rparr>))
     else if he_val entry = Placeholder then Inr (Ret_null, w, hv)
     else Inr (ret_entry action (he_addr entry), w, hv))"

text \<open>``Welcome to hv_store'': a new entry in front of its chain.\<close>

definition hv_insert ::
  "henv \<Rightarrow> hworld \<Rightarrow> hv \<Rightarrow> hent list list \<Rightarrow> u8 list \<Rightarrow> u32 \<Rightarrow> u32 \<Rightarrow> u32 \<Rightarrow> hval \<Rightarrow> (hv_ret \<times> hworld \<times> hv) result" where
  "hv_insert env w hv a key hash flags action val =
    bind_result
      (if HvSHAREKEYS hv then
         bind_result (share_hek_flags (e_alloc env) (w_strtab w) key hash flags)
           (\<lambda>(hek, st). Inr (hek, w\<lparr>w_strtab := st\<rparr>))
       else bind_result (save_hek_flags (e_alloc env) key hash flags) (\<lambda>hek. Inr (hek, w)))
      (\<lambda>(hek, w).
        let i = bucket_of hash (HvMAX hv); chain = a ! i;
            entry = \<lparr>he_addr = w_next_he w, he_hek = hek, he_val = val\<rparr>;
            w = w\<lparr>w_next_he := w_next_he w + 1\<rparr>;
            hv = hv\<lparr>HvARRAY := Some (a[i := entry # chain]),
                   HvPLACEHOLDERS := (if val = Placeholder then HvPLACEHOLDERS hv + 1 else HvPLACEHOLDERS hv),
                   HvTOTALKEYS := HvTOTALKEYS hv + 1\<rparr>;
            n_links = length chain
        in bind_result
          (if chain = [] then Inr (w, hv\<lparr>HvFILL := HvFILL hv + 1\<rparr>)
           else if HvTOTALKEYS hv > HvMAX hv then hsplit env w hv
           else if \<not> HvREHASH hv \<and> n_links > HV_MAX_LENGTH_BEFORE_SPLIT then hsplit env w hv
           else Inr (w, hv))
          (\<lambda>(w, hv). Inr (ret_entry action (he_addr entry), w, hv)))"

section \<open>Delete\<close>

definition sv_readonly :: "henv \<Rightarrow> hval \<Rightarrow> bool" where
  "sv_readonly env val = (case val of Val v \<Rightarrow> e_readonly env v | _ \<Rightarrow> False)"

definition hv_delete_common ::
  "henv \<Rightarrow> hworld \<Rightarrow> hv \<Rightarrow> hkey \<Rightarrow> u32 \<Rightarrow> u32 \<Rightarrow> (hv_ret \<times> hworld \<times> hv) result" where
  "hv_delete_common env w hv k d_flags hash =
    (case HvARRAY hv of None \<Rightarrow> Inr (Ret_null, w, hv) | Some a \<Rightarrow>
     let key = key_bytes k; hash = key_hash env hv k hash;
         i = bucket_of hash (HvMAX hv); chain = a ! i
     in case find (key_matches hash key) chain of
       None \<Rightarrow> if HvRESTRICTED hv then Inl (Delete_disallowed key) else Inr (Ret_null, w, hv)
     | Some entry \<Rightarrow>
         if he_val entry = Placeholder then Inr (Ret_null, w, hv)
         else if HvREADONLY hv then Inl (Delete_from_readonly key)
         else if HvRESTRICTED hv \<and> sv_readonly env (he_val entry) then Inl (Delete_readonly key)
         else let (sv, entry, w) =
                (if has d_flags G_DISCARD then (Ret_null, entry, w)
                 else (Ret_sv (he_val entry), entry\<lparr>he_val := Placeholder\<rparr>, w_add (Mortal (he_val entry)) w))
           in if HvRESTRICTED hv then
                Inr (sv, w_add (Refcnt_dec (he_val entry)) w,
                  hv\<lparr>HvARRAY := Some (a[i := replace_first (key_matches hash key) (entry\<lparr>he_val := Placeholder\<rparr>) chain]),
                     HvPLACEHOLDERS := HvPLACEHOLDERS hv + 1\<rparr>)
              else
                let chain' = remove_first (key_matches hash key) chain;
                    hv = hv\<lparr>HvARRAY := Some (a[i := chain']),
                           HvFILL := (if chain' = [] then HvFILL hv - 1 else HvFILL hv)\<rparr>;
                    (w, hv) = free_unlinked env w hv entry (next_addr (after_first (key_matches hash key) chain))
                in Inr (sv, w, hv\<lparr>HvTOTALKEYS := HvTOTALKEYS hv - 1\<rparr>))"

section \<open>The entry point\<close>

definition hv_common ::
  "henv \<Rightarrow> hworld \<Rightarrow> hv \<Rightarrow> hkey \<Rightarrow> u32 \<Rightarrow> hval \<Rightarrow> u32 \<Rightarrow> (hv_ret \<times> hworld \<times> hv) result" where
  "hv_common env w hv k action val hash =
    (if has action HV_DELETE then hv_delete_common env w hv k action hash
     else if HvARRAY hv = None \<and> \<not> has action (HV_FETCH_LVALUE OR HV_FETCH_ISSTORE) then Inr (Ret_null, w, hv)
     else if HvARRAY hv = None \<and> \<not> newx (e_alloc env) ((HvMAX hv + 1) * 8) 1 then Inl Out_of_memory
     else
       let a = (case HvARRAY hv of None \<Rightarrow> replicate (HvMAX hv + 1) [] | Some a \<Rightarrow> a);
           hv = hv\<lparr>HvARRAY := Some a\<rparr>;
           key = key_bytes k; hash = key_hash env hv k hash; flags = flags_for hv k
       in case find (key_matches hash key) (a ! bucket_of hash (HvMAX hv)) of
         Some entry \<Rightarrow> hv_found env w hv a entry key hash (flags AND HVhek_MASK) action val
       | None \<Rightarrow>
           if HvRESTRICTED hv \<and> \<not> has action HV_FETCH_ISEXISTS then Inl (Disallowed_key key)
           else if \<not> has action (HV_FETCH_LVALUE OR HV_FETCH_ISSTORE) then Inr (Ret_null, w, hv)
           else let (val, w) = (if has action HV_FETCH_LVALUE then newSV w else (val, w))
             in hv_insert env w hv a key hash flags action val)"

definition hv_common_key_len ::
  "henv \<Rightarrow> hworld \<Rightarrow> hv \<Rightarrow> u8 list \<Rightarrow> u32 \<Rightarrow> hval \<Rightarrow> u32 \<Rightarrow> (hv_ret \<times> hworld \<times> hv) result" where
  "hv_common_key_len env w hv key action val hash = hv_common env w hv (Pv key 0) action val hash"

text \<open>The macros of \<open>hv.h\<close>.\<close>

definition hv_exists :: "henv \<Rightarrow> hworld \<Rightarrow> hv \<Rightarrow> u8 list \<Rightarrow> (bool \<times> hworld \<times> hv) result" where
  "hv_exists env w hv key =
    bind_result (hv_common_key_len env w hv key HV_FETCH_ISEXISTS Val_null 0) (\<lambda>(r, w, hv). Inr (r \<noteq> Ret_null, w, hv))"

definition hv_fetch :: "henv \<Rightarrow> hworld \<Rightarrow> hv \<Rightarrow> u8 list \<Rightarrow> bool \<Rightarrow> (hv_ret \<times> hworld \<times> hv) result" where
  "hv_fetch env w hv key lval =
    hv_common_key_len env w hv key (if lval then HV_FETCH_JUST_SV OR HV_FETCH_LVALUE else HV_FETCH_JUST_SV) Val_null 0"

definition hv_store :: "henv \<Rightarrow> hworld \<Rightarrow> hv \<Rightarrow> u8 list \<Rightarrow> hval \<Rightarrow> u32 \<Rightarrow> (hv_ret \<times> hworld \<times> hv) result" where
  "hv_store env w hv key val hash = hv_common_key_len env w hv key (HV_FETCH_ISSTORE OR HV_FETCH_JUST_SV) val hash"

definition hv_delete :: "henv \<Rightarrow> hworld \<Rightarrow> hv \<Rightarrow> u8 list \<Rightarrow> u32 \<Rightarrow> (hv_ret \<times> hworld \<times> hv) result" where
  "hv_delete env w hv key flags = hv_common_key_len env w hv key (flags OR HV_DELETE) Val_null 0"

definition hv_store_flags :: "henv \<Rightarrow> hworld \<Rightarrow> hv \<Rightarrow> u8 list \<Rightarrow> hval \<Rightarrow> u32 \<Rightarrow> u32 \<Rightarrow> (hv_ret \<times> hworld \<times> hv) result" where
  "hv_store_flags env w hv key val hash flags =
    hv_common env w hv (Pv key flags) (HV_FETCH_ISSTORE OR HV_FETCH_JUST_SV) val hash"

text \<open>The same with a scalar as key.\<close>

definition hv_store_ent :: "henv \<Rightarrow> hworld \<Rightarrow> hv \<Rightarrow> u8 list \<times> u32 option \<Rightarrow> hval \<Rightarrow> u32 \<Rightarrow> (hv_ret \<times> hworld \<times> hv) result" where
  "hv_store_ent env w hv keysv val hash = hv_common env w hv (Ksv (fst keysv) (snd keysv)) HV_FETCH_ISSTORE val hash"

definition hv_exists_ent :: "henv \<Rightarrow> hworld \<Rightarrow> hv \<Rightarrow> u8 list \<times> u32 option \<Rightarrow> u32 \<Rightarrow> (bool \<times> hworld \<times> hv) result" where
  "hv_exists_ent env w hv keysv hash =
    bind_result (hv_common env w hv (Ksv (fst keysv) (snd keysv)) HV_FETCH_ISEXISTS Val_null hash)
      (\<lambda>(r, w, hv). Inr (r \<noteq> Ret_null, w, hv))"

definition hv_fetch_ent :: "henv \<Rightarrow> hworld \<Rightarrow> hv \<Rightarrow> u8 list \<times> u32 option \<Rightarrow> bool \<Rightarrow> u32 \<Rightarrow> (hv_ret \<times> hworld \<times> hv) result" where
  "hv_fetch_ent env w hv keysv lval hash =
    hv_common env w hv (Ksv (fst keysv) (snd keysv)) (if lval then HV_FETCH_LVALUE else 0) Val_null hash"

definition hv_delete_ent :: "henv \<Rightarrow> hworld \<Rightarrow> hv \<Rightarrow> u8 list \<times> u32 option \<Rightarrow> u32 \<Rightarrow> u32 \<Rightarrow> (hv_ret \<times> hworld \<times> hv) result" where
  "hv_delete_ent env w hv keysv flags hash =
    hv_common env w hv (Ksv (fst keysv) (snd keysv)) (flags OR HV_DELETE) Val_null hash"

text \<open>\<open>hv_scalar\<close>: the number 0, or the two numbers of the string ``used/size''.\<close>

definition hv_scalar :: "hv \<Rightarrow> nat + nat \<times> nat" where
  "hv_scalar hv = (if HvFILL hv \<noteq> 0 then Inr (HvFILL hv, HvMAX hv + 1) else Inl 0)"

end
