(* ===== verification/Hash_Inv.thy ===== *)
theory Hash_Inv
  imports Hash_Table
begin

text \<open>
  The invariant of a hash and what each step of the operations of \<open>Hash_Table\<close> does to it. A
  hash is read as the map of its live keys (\<open>live\<close>); \<open>hv_ok\<close> says that every entry is in the bucket of its
  hash value, that the keys are distinct and the counters right; \<open>acct\<close> says that every shared
  key is counted once in the string table and no value is lost or released twice.
\<close>

section \<open>What a hash holds\<close>

definition arr :: "hv \<Rightarrow> hent list list" where
  "arr hv = (case HvARRAY hv of None \<Rightarrow> replicate (HvMAX hv + 1) [] | Some a \<Rightarrow> a)"

abbreviation hv_entries :: "hv \<Rightarrow> hent list" where
  "hv_entries hv \<equiv> concat (arr hv)"

definition seen :: "hval \<Rightarrow> hval option" where
  "seen v = (if v = Placeholder then None else Some v)"

fun live :: "hent list \<Rightarrow> u8 list \<Rightarrow> hval option" where
  "live [] = Map.empty"
| "live (e # es) = (live es)(he_key e := seen (he_val e))"

text \<open>The keys of the live entries with their values, and the keys with an entry (in a restricted
  hash the allowed ones).\<close>

definition hv_map :: "hv \<Rightarrow> u8 list \<Rightarrow> hval option" where
  "hv_map hv = live (hv_entries hv)"

definition hv_legal :: "hv \<Rightarrow> u8 list set" where
  "hv_legal hv = he_key ` set (hv_entries hv)"

definition ph_count :: "hent list \<Rightarrow> nat" where
  "ph_count es = length (filter (\<lambda>e. he_val e = Placeholder) es)"

section \<open>The invariant\<close>

definition hash_fun :: "henv \<Rightarrow> hv \<Rightarrow> u8 list \<Rightarrow> u32" where
  "hash_fun env hv = perl_hash (if HvREHASH hv then e_rehash_seed env else e_hash_seed env)"

definition tbl_ok :: "(u8 list \<Rightarrow> u32) \<Rightarrow> nat \<Rightarrow> hent list list \<Rightarrow> bool" where
  "tbl_ok hf nxt a \<longleftrightarrow> (\<exists>k \<le> 30. length a = 2 ^ k) \<and> well_placed a \<and>
    distinct (map he_key (concat a)) \<and> distinct (map he_addr (concat a)) \<and>
    (\<forall>e \<in> set (concat a). he_addr e < nxt \<and> he_hash e = hf (he_key e))"

definition lazy_ok :: "nat \<Rightarrow> hv \<Rightarrow> bool" where
  "lazy_ok nxt hv \<longleftrightarrow>
    (case HvUNLINKED hv of
       None \<Rightarrow> \<not> HvLAZYDEL hv
     | Some (e, n) \<Rightarrow> HvLAZYDEL hv \<and> HvEITER_get hv = Some (he_addr e) \<and> he_addr e < nxt \<and>
         he_addr e \<notin> he_addr ` set (hv_entries hv))"

definition hv_ok :: "henv \<Rightarrow> hworld \<Rightarrow> hv \<Rightarrow> bool" where
  "hv_ok env w hv \<longleftrightarrow> tbl_ok (hash_fun env hv) (w_next_he w) (arr hv) \<and>
    length (arr hv) = HvMAX hv + 1 \<and> HvFILL hv = fill_count (arr hv) \<and>
    HvTOTALKEYS hv = length (hv_entries hv) \<and> HvPLACEHOLDERS hv = ph_count (hv_entries hv) \<and>
    lazy_ok (w_next_he w) hv"

lemma newHV_ok: "hv_ok env w newHV"
proof -
  have "length (arr newHV) = 2 ^ 3" by (simp add: arr_def newHV_def)
  then have "\<exists>k \<le> 30. length (arr newHV) = 2 ^ k" by (intro exI[of _ 3]) simp
  moreover have "arr newHV = replicate 8 []" by (simp add: arr_def newHV_def)
  ultimately show ?thesis
    by (auto simp: hv_ok_def tbl_ok_def well_placed_def concat_replicate_Nil ph_count_def lazy_ok_def newHV_def)
qed

lemma newHV_map: "hv_map newHV = Map.empty"
  by (simp add: hv_map_def arr_def newHV_def concat_replicate_Nil)

section \<open>Entries up to order\<close>

lemma live_in: "distinct (map he_key es) \<Longrightarrow> e \<in> set es \<Longrightarrow> live es (he_key e) = seen (he_val e)"
  by (induction es) (auto simp: image_iff)

lemma live_out: "k \<notin> he_key ` set es \<Longrightarrow> live es k = None"
  by (induction es) auto

lemma live_perm:
  assumes "mset xs = mset ys" "distinct (map he_key xs)"
  shows "live xs = live ys"
proof
  fix k
  have ys: "distinct (map he_key ys)" "set xs = set ys"
    using assms distinct_map_mset mset_eq_setD by blast+
  show "live xs k = live ys k"
  proof (cases "k \<in> he_key ` set xs")
    case True
    then obtain e where "e \<in> set xs" "k = he_key e" by auto
    with live_in[OF assms(2), of e] live_in[OF ys(1), of e] ys(2) show ?thesis by simp
  next
    case False
    with live_out[of k xs] live_out[of k ys] ys(2) show ?thesis by simp
  qed
qed

lemma ph_count_perm: "mset xs = mset ys \<Longrightarrow> ph_count xs = ph_count ys"
  unfolding ph_count_def by (metis mset_filter size_mset)

lemma ph_count_simps [simp]:
  "ph_count [] = 0"
  "ph_count (e # es) = (if he_val e = Placeholder then Suc (ph_count es) else ph_count es)"
  "ph_count (xs @ ys) = ph_count xs + ph_count ys"
  by (simp_all add: ph_count_def)

lemma tbl_okD:
  assumes "tbl_ok hf nxt a"
  shows "well_placed a" "distinct (map he_key (concat a))" "distinct (map he_addr (concat a))"
    "\<exists>k \<le> 30. length a = 2 ^ k"
    "e \<in> set (concat a) \<Longrightarrow> he_addr e < nxt" "e \<in> set (concat a) \<Longrightarrow> he_hash e = hf (he_key e)"
  using assms unfolding tbl_ok_def by (elim conjE, assumption | blast)+

text \<open>One chain is changed; \<open>ys\<close> is what the table holds then.\<close>

lemma tbl_chain:
  assumes "tbl_ok hf nxt a" "i < length a" "mset (concat (a[i := c])) = mset ys"
    "distinct (map he_key ys)" "distinct (map he_addr ys)"
    "\<And>e. e \<in> set ys \<Longrightarrow> he_addr e < nxt' \<and> he_hash e = hf (he_key e)"
    "\<And>e. e \<in> set c \<Longrightarrow> e \<in> set (a ! i) \<or> bucket_of (he_hash e) (length a - 1) = i"
  shows "tbl_ok hf nxt' (a[i := c])"
proof -
  have "distinct (map he_key (concat (a[i := c])))" "distinct (map he_addr (concat (a[i := c])))"
    using distinct_map_mset[OF assms(3)] assms(4,5) by blast+
  moreover have "\<forall>d \<in> set (concat (a[i := c])). he_addr d < nxt' \<and> he_hash d = hf (he_key d)"
    unfolding mset_eq_setD[OF assms(3)] using assms(6) by blast
  moreover have "well_placed (a[i := c])"
    using tbl_okD(1)[OF assms(1)] assms(7) by (rule well_placed_update)
  moreover have "\<exists>k \<le> 30. length (a[i := c]) = 2 ^ k"
    using tbl_okD(4)[OF assms(1)] by simp
  ultimately show ?thesis unfolding tbl_ok_def by (intro conjI; simp)
qed

lemma tbl_bucket:
  assumes "tbl_ok hf nxt a"
  shows "bucket_of h (length a - 1) < length a"
proof -
  from assms obtain k where "k \<le> 30" "length a = 2 ^ k" by (auto simp: tbl_ok_def)
  with bucket_of_less[of k h] show ?thesis by simp
qed

text \<open>The walk down the chain finds the entry of the key.\<close>

lemma chain_find_None:
  assumes "tbl_ok hf nxt a" "find (key_matches (hf key) key) (a ! bucket_of (hf key) (length a - 1)) = None"
  shows "key \<notin> he_key ` set (concat a)"
proof
  assume "key \<in> he_key ` set (concat a)"
  then obtain e where e: "e \<in> set (concat a)" "he_key e = key" by blast
  with tbl_okD(6)[OF assms(1)] have h: "he_hash e = hf key" by blast
  with well_placed_bucket[OF tbl_okD(1)[OF assms(1)] e(1)]
  have "e \<in> set (a ! bucket_of (hf key) (length a - 1))" by simp
  with assms(2) h e(2) show False by (auto simp: find_None_iff)
qed

lemma chain_find_Some:
  assumes "tbl_ok hf nxt a" "find (key_matches (hf key) key) (a ! bucket_of (hf key) (length a - 1)) = Some e"
  shows "e \<in> set (concat a)" "he_key e = key" "he_hash e = hf key" "e \<in> set (a ! bucket_of (hf key) (length a - 1))"
  using find_SomeD[OF assms(2)] in_concat_nth[OF tbl_bucket[OF assms(1)]] by auto

text \<open>The entries that are left when the first match is taken out.\<close>

lemma chain_rest:
  assumes "tbl_ok hf nxt a" "find P (a ! i) = Some e" "i < length a"
  shows "\<exists>ys. mset (concat a) = mset (e # ys) \<and>
    mset (concat (a[i := remove_first P (a ! i)])) = mset ys \<and>
    (\<forall>x. mset (concat (a[i := replace_first P x (a ! i)])) = mset (x # ys))"
proof -
  obtain ys where ys: "mset (concat (a[i := remove_first P (a ! i)])) = mset ys" by blast
  have "mset (concat a) = mset (e # ys)" using mset_chain_remove[OF assms(3,2)] ys by simp
  moreover from this have "mset (concat (a[i := replace_first P x (a ! i)])) = mset (x # ys)" for x
    using mset_chain_replace[OF assms(3,2), of x] by simp
  ultimately show ?thesis using ys by blast
qed

lemma tbl_mset:
  assumes "tbl_ok hf nxt a" "mset (concat a) = mset ys"
  shows "distinct (map he_key ys)" "distinct (map he_addr ys)"
    "e \<in> set ys \<Longrightarrow> he_addr e < nxt \<and> he_hash e = hf (he_key e)"
  using distinct_map_mset[OF assms(2)] mset_eq_setD[OF assms(2)] tbl_okD[OF assms(1)] by blast+

section \<open>The account of keys and values\<close>

text \<open>
  \<open>es\<close> are the entries of the array; the entry that was deleted under the iterator counts too.
\<close>

definition held_entries :: "hv \<Rightarrow> hent multiset \<Rightarrow> hent multiset" where
  "held_entries hv E = (case HvUNLINKED hv of None \<Rightarrow> E | Some (e, n) \<Rightarrow> add_mset e E)"

definition hek_uses :: "hv \<Rightarrow> hent multiset \<Rightarrow> hek \<Rightarrow> nat" where
  "hek_uses hv E h = (if HvSHAREKEYS hv then count (image_mset he_hek (held_entries hv E)) h else 0) +
    (if HvNAME_HEK hv = Some h then 1 else 0)"

definition released :: "hv_event list \<Rightarrow> hval multiset" where
  "released evs = mset (concat (map (\<lambda>ev. case ev of Refcnt_dec v \<Rightarrow> [v] | Mortal v \<Rightarrow> [v] | _ \<Rightarrow> []) evs))"

text \<open>The values that are counted: not NULL and not the placeholder.\<close>

definition counted :: "hval multiset \<Rightarrow> hval multiset" where
  "counted V = filter_mset (\<lambda>v. v \<noteq> Val_null \<and> v \<noteq> Placeholder) V"

definition acct :: "(hek \<Rightarrow> nat) \<Rightarrow> hval multiset \<Rightarrow> hworld \<Rightarrow> hv \<Rightarrow> hent multiset \<Rightarrow> bool" where
  "acct oth L w hv E \<longleftrightarrow> st_ok (w_strtab w) \<and>
    (\<forall>h. refs (w_strtab w) h = oth h + hek_uses hv E h) \<and>
    counted (image_mset he_val (held_entries hv E)) + counted (released (w_log w)) = L"

lemma released_add: "released (evs @ [ev]) = released evs + (case ev of Refcnt_dec v \<Rightarrow> {#v#} | Mortal v \<Rightarrow> {#v#} | _ \<Rightarrow> {#})"
  by (auto simp: released_def split: hv_event.split)

lemma w_add_sel [simp]:
  "w_strtab (w_add ev w) = w_strtab w" "w_next_he (w_add ev w) = w_next_he w"
  "w_next_sv (w_add ev w) = w_next_sv w" "w_log (w_add ev w) = w_log w @ [ev]"
  by (simp_all add: w_add_def)

lemma counted_simps [simp]:
  "counted {#} = {#}" "counted (add_mset v V) = (if v = Val_null \<or> v = Placeholder then counted V else add_mset v (counted V))"
  "counted (V + W) = counted V + counted W"
  by (simp_all add: counted_def)

lemma held_add: "held_entries hv (add_mset e E) = add_mset e (held_entries hv E)"
  by (auto simp: held_entries_def split: option.split)

lemma hek_uses_add:
  "hek_uses hv (add_mset e E) h = hek_uses hv E h + (if HvSHAREKEYS hv \<and> he_hek e = h then 1 else 0)"
  by (simp add: hek_uses_def held_add)

lemma HvNAME_simps [simp]:
  "HvNAME_HEK (hv\<lparr>HvARRAY := a\<rparr>) = HvNAME_HEK hv" "HvNAME_HEK (hv\<lparr>HvFILL := f\<rparr>) = HvNAME_HEK hv"
  "HvNAME_HEK (hv\<lparr>HvMAX := m\<rparr>) = HvNAME_HEK hv" "HvNAME_HEK (hv\<lparr>HvTOTALKEYS := k\<rparr>) = HvNAME_HEK hv"
  "HvNAME_HEK (hv\<lparr>HvPLACEHOLDERS := p\<rparr>) = HvNAME_HEK hv" "HvNAME_HEK (hv\<lparr>HvLAZYDEL := l\<rparr>) = HvNAME_HEK hv"
  "HvNAME_HEK (hv\<lparr>HvUNLINKED := u\<rparr>) = HvNAME_HEK hv" "HvNAME_HEK (hv\<lparr>HvSHAREKEYS := s\<rparr>) = HvNAME_HEK hv"
  "HvNAME_HEK (hv\<lparr>HvREHASH := r\<rparr>) = HvNAME_HEK hv"
  by (simp_all add: HvNAME_HEK_def)

lemma HvEITER_simps [simp]:
  "HvEITER_get (hv\<lparr>HvARRAY := a\<rparr>) = HvEITER_get hv" "HvEITER_get (hv\<lparr>HvFILL := f\<rparr>) = HvEITER_get hv"
  "HvEITER_get (hv\<lparr>HvMAX := m\<rparr>) = HvEITER_get hv" "HvEITER_get (hv\<lparr>HvTOTALKEYS := k\<rparr>) = HvEITER_get hv"
  "HvEITER_get (hv\<lparr>HvPLACEHOLDERS := p\<rparr>) = HvEITER_get hv" "HvEITER_get (hv\<lparr>HvLAZYDEL := l\<rparr>) = HvEITER_get hv"
  "HvEITER_get (hv\<lparr>HvUNLINKED := u\<rparr>) = HvEITER_get hv" "HvEITER_get (hv\<lparr>HvSHAREKEYS := s\<rparr>) = HvEITER_get hv"
  "HvEITER_get (hv\<lparr>HvREHASH := r\<rparr>) = HvEITER_get hv"
  by (simp_all add: HvEITER_get_def)

text \<open>The account does not look at the array and the counters.\<close>

definition same_account :: "hv \<Rightarrow> hv \<Rightarrow> bool" where
  "same_account hv hv' \<longleftrightarrow> HvSHAREKEYS hv' = HvSHAREKEYS hv \<and> HvNAME_HEK hv' = HvNAME_HEK hv \<and> HvUNLINKED hv' = HvUNLINKED hv"

lemma acct_cong: "same_account hv hv' \<Longrightarrow> acct oth L w hv' E = acct oth L w hv E"
  by (simp add: same_account_def acct_def hek_uses_def held_entries_def)

section \<open>Freeing an entry\<close>

lemma hv_free_ent_acct:
  assumes "acct oth L w hv (add_mset e E)"
  shows "acct oth L (hv_free_ent env hv w e) hv E"
proof -
  let ?w = "hv_free_ent env hv w e"
  have ok: "st_ok (w_strtab w)" using assms by (simp add: acct_def)
  have log: "counted (released (w_log ?w)) = counted (released (w_log w)) + counted {#he_val e#}"
    by (auto simp: hv_free_ent_def Let_def released_add simp del: append_assoc)
  have st: "w_strtab ?w = (if HvSHAREKEYS hv then unshare_hek (w_strtab w) (he_hek e) else w_strtab w)"
    by (auto simp: hv_free_ent_def Let_def)
  have "refs (w_strtab ?w) h = oth h + hek_uses hv E h" for h
    using assms unshare_hek_ok[OF ok, of "he_hek e" h] unfolding acct_def st hek_uses_add
    by (auto split: if_splits)
  moreover have "st_ok (w_strtab ?w)" using ok unshare_hek_ok[OF ok] unfolding st by simp
  moreover have "counted (image_mset he_val (held_entries hv E)) + counted (released (w_log ?w)) = L"
    using assms unfolding acct_def log held_add by auto
  ultimately show ?thesis by (simp add: acct_def)
qed

lemma free_unlinked_acct:
  assumes "acct oth L w hv (add_mset e E)" "free_unlinked env w hv e n = (w', hv')"
    "HvEITER_get hv = Some (he_addr e) \<Longrightarrow> HvUNLINKED hv = None"
  shows "acct oth L w' hv' E"
proof (cases "HvEITER_get hv = Some (he_addr e)")
  case True
  with assms(2) have w: "w' = w" "hv' = hv\<lparr>HvLAZYDEL := True, HvUNLINKED := Some (e, n)\<rparr>"
    by (simp_all add: free_unlinked_def)
  have "held_entries hv' E = held_entries hv (add_mset e E)"
    using assms(3)[OF True] by (simp add: w held_entries_def)
  then show ?thesis using assms(1) unfolding acct_def w(1) hek_uses_def by (simp add: w(2))
next
  case False
  with assms(2) hv_free_ent_acct[OF assms(1)] show ?thesis by (auto simp: free_unlinked_def)
qed

text \<open>What freeing and unlinking leave as it is.\<close>

lemma hv_free_ent_frame [simp]:
  "w_next_he (hv_free_ent env hv w e) = w_next_he w" "w_next_sv (hv_free_ent env hv w e) = w_next_sv w"
  by (simp_all add: hv_free_ent_def Let_def)

definition lazy_change :: "hv \<Rightarrow> hent list \<Rightarrow> hv \<Rightarrow> bool" where
  "lazy_change hv es hv' \<longleftrightarrow> HvUNLINKED hv' = HvUNLINKED hv \<and> HvLAZYDEL hv' = HvLAZYDEL hv \<or>
    (\<exists>e \<in> set es. \<exists>n. HvUNLINKED hv' = Some (e, n) \<and> HvLAZYDEL hv' \<and> HvEITER_get hv = Some (he_addr e))"

definition can_unlink :: "hv \<Rightarrow> hent list \<Rightarrow> bool" where
  "can_unlink hv es \<longleftrightarrow> (\<forall>e \<in> set es. HvEITER_get hv = Some (he_addr e) \<longrightarrow> HvUNLINKED hv = None)"

lemma free_unlinked_frame:
  assumes "free_unlinked env w hv e n = (w', hv')"
  shows "w_next_he w' = w_next_he w \<and> w_next_sv w' = w_next_sv w \<and> lazy_change hv [e] hv' \<and>
    hv' = hv\<lparr>HvLAZYDEL := HvLAZYDEL hv', HvUNLINKED := HvUNLINKED hv'\<rparr>"
  using assms by (auto simp: free_unlinked_def lazy_change_def split: if_splits)

section \<open>Clearing placeholders\<close>

abbreviation no_ph :: "hent \<Rightarrow> bool" where
  "no_ph e \<equiv> he_val e \<noteq> Placeholder"

abbreviation is_ph :: "hent \<Rightarrow> bool" where
  "is_ph e \<equiv> he_val e = Placeholder"

lemma ph_count_0: "ph_count es = 0 \<Longrightarrow> filter no_ph es = es"
  by (induction es) (auto split: if_splits)

lemma clear_chain_result:
  "clear_chain env f w hv es items = (es', w', hv', items') \<Longrightarrow> ph_count es \<le> items \<Longrightarrow> 0 < items \<Longrightarrow>
   es' = filter no_ph es \<and> items' = items - ph_count es"
  by (induction env f w hv es items arbitrary: es' w' hv' items' rule: clear_chain.induct)
    (auto simp: Let_def ph_count_0 split: prod.splits if_splits)

lemma lazy_change_trans:
  "lazy_change hv es hv1 \<Longrightarrow> lazy_change hv1 fs hv2 \<Longrightarrow> HvEITER_get hv1 = HvEITER_get hv \<Longrightarrow>
   set es \<subseteq> set gs \<Longrightarrow> set fs \<subseteq> set gs \<Longrightarrow> lazy_change hv gs hv2"
  unfolding lazy_change_def by (elim disjE conjE bexE exE) auto

lemma clear_chain_frame:
  "clear_chain env f w hv es items = (es', w', hv', items') \<Longrightarrow>
   w_next_he w' = w_next_he w \<and> w_next_sv w' = w_next_sv w \<and> lazy_change hv (filter is_ph es) hv' \<and>
   hv' = hv\<lparr>HvFILL := (if f \<and> es \<noteq> [] \<and> es' = [] then HvFILL hv - 1 else HvFILL hv),
     HvLAZYDEL := HvLAZYDEL hv', HvUNLINKED := HvUNLINKED hv'\<rparr>"
proof (induction env f w hv es items arbitrary: es' w' hv' items' rule: clear_chain.induct)
  case (1 env f w hv items)
  then show ?case by (auto simp: lazy_change_def)
next
  case (2 env f w hv e rest items)
  show ?case
  proof (cases "he_val e = Placeholder")
    case False
    with 2(3) obtain es1 where c: "clear_chain env False w hv rest items = (es1, w', hv', items')" "es' = e # es1"
      by (auto split: prod.splits)
    from 2(2)[OF False c(1)] c(2) False show ?thesis
      by (auto simp: lazy_change_def)
  next
    case True
    define hv1 where "hv1 = (if f \<and> rest = [] then hv\<lparr>HvFILL := HvFILL hv - 1\<rparr> else hv)"
    obtain w2 hv2 where fr: "free_unlinked env w hv1 e (next_addr rest) = (w2, hv2)" by fastforce
    note f1 = free_unlinked_frame[OF fr]
    then obtain l u where hv2: "hv2 = hv1\<lparr>HvLAZYDEL := l, HvUNLINKED := u\<rparr>" by blast
    have ei: "HvEITER_get hv2 = HvEITER_get hv" "HvEITER_get hv1 = HvEITER_get hv" by (simp_all add: hv2 hv1_def)
    have l1: "lazy_change hv [e] hv2"
      using f1 ei by (auto simp: lazy_change_def hv1_def split: if_splits)
    show ?thesis
    proof (cases "items - 1 = 0")
      case last: True
      with 2(3) True fr have r: "es' = rest" "w' = w2" "hv' = hv2" by (simp_all add: hv1_def)
      have "lazy_change hv (filter is_ph (e # rest)) hv2" using l1 True by (auto simp: lazy_change_def)
      then show ?thesis using f1 unfolding r by (simp add: hv2 hv1_def)
    next
      case more: False
      with 2(3) True fr have c: "clear_chain env f w2 hv2 rest (items - 1) = (es', w', hv', items')"
        by (simp add: hv1_def)
      note ih = 2(1)[OF True hv1_def fr[symmetric] refl more c]
      then obtain l' u' where hv': "hv' = hv2\<lparr>HvFILL := (if f \<and> rest \<noteq> [] \<and> es' = [] then HvFILL hv2 - 1 else HvFILL hv2),
          HvLAZYDEL := l', HvUNLINKED := u'\<rparr>" by blast
      have "rest = [] \<Longrightarrow> es' = []" using c by simp
      moreover have "lazy_change hv (filter is_ph (e # rest)) hv'"
        by (rule lazy_change_trans[OF l1 _ ei(1)]) (use ih True in auto)
      ultimately show ?thesis using f1 ih by (simp add: hv' hv2 hv1_def)
    qed
  qed
qed

lemma can_unlink_step:
  assumes "free_unlinked env w hv e n = (w', hv')" "can_unlink hv (e # es)" "he_addr e \<notin> he_addr ` set es"
  shows "can_unlink hv' es"
proof -
  have "\<forall>d \<in> set es. he_addr d \<noteq> he_addr e" using assms(3) by (metis imageI)
  then show ?thesis
    using assms(1,2) by (auto simp: free_unlinked_def can_unlink_def split: if_splits)
qed

lemma clear_chain_acct:
  "clear_chain env f w hv es items = (es', w', hv', items') \<Longrightarrow> ph_count es \<le> items \<Longrightarrow> 0 < items \<Longrightarrow>
   can_unlink hv es \<Longrightarrow> distinct (map he_addr es) \<Longrightarrow> acct oth L w hv (mset es + E) \<Longrightarrow>
   acct oth L w' hv' (mset es' + E)"
proof (induction env f w hv es items arbitrary: es' w' hv' items' E rule: clear_chain.induct)
  case (2 env f w hv e rest items)
  show ?case
  proof (cases "he_val e = Placeholder")
    case False
    with 2(3) obtain es1 where c: "clear_chain env False w hv rest items = (es1, w', hv', items')" "es' = e # es1"
      by (auto split: prod.splits)
    with 2(2)[OF False c(1), of "add_mset e E"] 2(4-8) False show ?thesis
      by (simp add: can_unlink_def)
  next
    case True
    define hv1 where "hv1 = (if f \<and> rest = [] then hv\<lparr>HvFILL := HvFILL hv - 1\<rparr> else hv)"
    have sa: "same_account hv hv1" "HvEITER_get hv1 = HvEITER_get hv" by (simp_all add: same_account_def hv1_def)
    obtain w2 hv2 where fr: "free_unlinked env w hv1 e (next_addr rest) = (w2, hv2)" by fastforce
    have cu: "can_unlink hv1 (e # rest)" using 2(6) by (simp add: can_unlink_def hv1_def)
    have a2: "acct oth L w2 hv2 (mset rest + E)"
    proof (rule free_unlinked_acct[OF _ fr])
      show "acct oth L w hv1 (add_mset e (mset rest + E))"
        using 2(8) unfolding acct_cong[OF sa(1)] by simp
      show "HvEITER_get hv1 = Some (he_addr e) \<Longrightarrow> HvUNLINKED hv1 = None"
        using cu by (simp add: can_unlink_def)
    qed
    show ?thesis
    proof (cases "items - 1 = 0")
      case last: True
      with 2(3) True fr have "es' = rest" "w' = w2" "hv' = hv2" by (simp_all add: hv1_def)
      with a2 show ?thesis by simp
    next
      case more: False
      with 2(3) True fr have c: "clear_chain env f w2 hv2 rest (items - 1) = (es', w', hv', items')"
        by (simp add: hv1_def)
      have "can_unlink hv2 rest" using can_unlink_step[OF fr cu] 2(7) by simp
      then show ?thesis
        using 2(1)[OF True hv1_def fr[symmetric] refl more c _ _ _ _ a2] 2(4,5,7) True more by simp
    qed
  qed
qed simp

text \<open>All the buckets.\<close>

lemma fill_count_filter: "i < length a \<Longrightarrow> fill_count (a[i := filter P (a ! i)]) \<le> fill_count a"
  using fill_count_update[of i a "filter P (a ! i)"] by (auto split: if_splits)

lemma take_update_snoc:
  "i < length a \<Longrightarrow> map f (take i a) @ drop i (a[i := f (a ! i)]) = map f (take (Suc i) a) @ drop (Suc i) a"
  by (rule nth_equalityI) (auto simp: nth_append nth_list_update less_Suc_eq)

lemma clear_buckets_result:
  "clear_buckets env n w hv a items = (a', w', hv', items') \<Longrightarrow> n \<le> length a \<Longrightarrow>
   items = ph_count (concat (take n a)) \<Longrightarrow> 0 < items \<Longrightarrow>
   items' = 0 \<and> a' = map (filter no_ph) (take n a) @ drop n a"
proof (induction env n w hv a items arbitrary: a' w' hv' items' rule: clear_buckets.induct)
  case (2 env i w hv a items)
  obtain es w1 hv1 items1 where c: "clear_chain env True w hv (a ! i) items = (es, w1, hv1, items1)"
    by (metis prod_cases4)
  have i: "i < length a" using 2(3) by simp
  have tk: "take (Suc i) a = take i a @ [a ! i]" using i by (simp add: take_Suc_conv_app_nth)
  have n: "items = ph_count (concat (take i a)) + ph_count (a ! i)" using 2(4) tk by simp
  from clear_chain_result[OF c] n 2(5) have es: "es = filter no_ph (a ! i)" "items1 = ph_count (concat (take i a))"
    by simp_all
  show ?case
  proof (cases "items1 = 0")
    case True
    with 2(2) c have r: "a' = a[i := es]" "items' = 0" by simp_all
    have "\<forall>d \<in> set (take i a). filter no_ph d = d"
    proof
      fix d assume "d \<in> set (take i a)"
      moreover from True have "ph_count (concat (take i a)) = 0" using es(2) by simp
      ultimately have "\<forall>e \<in> set d. no_ph e" by (auto simp: ph_count_def filter_empty_conv simp del: length_0_conv) 
      then show "filter no_ph d = d" by simp
    qed
    then have "map (filter no_ph) (take i a) = take i a" by (simp add: map_idI)
    then show ?thesis
      using append_take_drop_id[of i "a[i := es]"] unfolding r es(1) take_update_snoc[OF i, of "filter no_ph", symmetric] by simp
  next
    case False
    with 2(2) c have c2: "clear_buckets env i w1 hv1 (a[i := es]) items1 = (a', w', hv', items')" by simp
    from 2(1)[of es "(w1, hv1, items1)" w1 "(hv1, items1)" hv1 items1] c c2 es i False
    have "items' = 0 \<and> a' = map (filter no_ph) (take i a) @ drop i (a[i := es])" by simp
    then show ?thesis unfolding es(1) take_update_snoc[OF i] by simp
  qed
qed simp

lemma fill_count_map_filter: "fill_count (map (filter P) xs @ ys) \<le> fill_count (xs @ ys)"
  by (induction xs) (auto simp: fill_count_def)

lemma clear_buckets_fill:
  assumes "clear_buckets env n w hv a items = (a', w', hv', items')" "n \<le> length a"
    "items = ph_count (concat (take n a))" "0 < items"
  shows "fill_count a' \<le> fill_count a"
  using clear_buckets_result[OF assms] fill_count_map_filter[of no_ph "take n a" "drop n a"] by simp

lemma clear_chain_fill:
  assumes "i < length a" "es = filter no_ph (a ! i)"
  shows "(if True \<and> a ! i \<noteq> [] \<and> es = [] then x - 1 else x) = x - (fill_count a - fill_count (a[i := es]))"
proof -
  have "a ! i = [] \<Longrightarrow> es = []" using assms(2) by simp
  then show ?thesis using fill_count_update[OF assms(1), of es] by (cases "a ! i = []"; cases "es = []") simp_all
qed

lemma clear_buckets_frame:
  "clear_buckets env n w hv a items = (a', w', hv', items') \<Longrightarrow> n \<le> length a \<Longrightarrow>
   items = ph_count (concat (take n a)) \<Longrightarrow> 0 < items \<Longrightarrow>
   w_next_he w' = w_next_he w \<and> w_next_sv w' = w_next_sv w \<and> lazy_change hv (filter is_ph (concat (take n a))) hv' \<and>
   (\<exists>l u. hv' = hv\<lparr>HvFILL := HvFILL hv - (fill_count a - fill_count a'), HvLAZYDEL := l, HvUNLINKED := u\<rparr>)"
proof (induction env n w hv a items arbitrary: a' w' hv' items' rule: clear_buckets.induct)
  case (1 env w hv a items)
  then show ?case by (simp add: ph_count_def)
next
  case (2 env i w hv a items)
  obtain es w1 hv1 items1 where c: "clear_chain env True w hv (a ! i) items = (es, w1, hv1, items1)"
    by (metis prod_cases4)
  have i: "i < length a" using 2(3) by simp
  have tk: "take (Suc i) a = take i a @ [a ! i]" using i by (simp add: take_Suc_conv_app_nth)
  have n: "items = ph_count (concat (take i a)) + ph_count (a ! i)" using 2(4) tk by simp
  from clear_chain_result[OF c] n 2(5) have es: "es = filter no_ph (a ! i)" "items1 = ph_count (concat (take i a))"
    by simp_all
  note f1 = clear_chain_frame[OF c]
  then obtain l u where hv1: "hv1 = hv\<lparr>HvFILL := HvFILL hv - (fill_count a - fill_count (a[i := es])),
      HvLAZYDEL := l, HvUNLINKED := u\<rparr>"
    unfolding clear_chain_fill[OF i es(1)] by blast
  have lc: "lazy_change hv (filter is_ph (concat (take (Suc i) a))) hv1"
    using f1 unfolding tk by (auto simp: lazy_change_def)
  show ?case
  proof (cases "items1 = 0")
    case True
    with 2(2) c have "a' = a[i := es]" "w' = w1" "hv' = hv1" by simp_all
    with f1 lc hv1 show ?thesis by blast
  next
    case False
    with 2(2) c have c2: "clear_buckets env i w1 hv1 (a[i := es]) items1 = (a', w', hv', items')" by simp
    from 2(1)[of es "(w1, hv1, items1)" w1 "(hv1, items1)" hv1 items1] c c2 es i False
    obtain l' u' where ih: "w_next_he w' = w_next_he w1" "w_next_sv w' = w_next_sv w1"
        "lazy_change hv1 (filter is_ph (concat (take i a))) hv'"
        "hv' = hv1\<lparr>HvFILL := HvFILL hv1 - (fill_count (a[i := es]) - fill_count a'), HvLAZYDEL := l', HvUNLINKED := u'\<rparr>"
      by auto
    have "fill_count a' \<le> fill_count (a[i := es])" "fill_count (a[i := es]) \<le> fill_count a"
      using clear_buckets_fill[OF c2] es i False fill_count_filter[OF i] by simp_all
    then have "hv' = hv\<lparr>HvFILL := HvFILL hv - (fill_count a - fill_count a'), HvLAZYDEL := l', HvUNLINKED := u'\<rparr>"
      unfolding ih(4) hv1 by simp
    moreover have "lazy_change hv (filter is_ph (concat (take (Suc i) a))) hv'"
      by (rule lazy_change_trans[OF lc ih(3)]) (auto simp: hv1 tk)
    moreover have "w_next_he w' = w_next_he w" "w_next_sv w' = w_next_sv w" using ih(1,2) f1 by simp_all
    ultimately show ?thesis by blast
  qed
qed

lemma clear_buckets_acct:
  "clear_buckets env n w hv a items = (a', w', hv', items') \<Longrightarrow> n \<le> length a \<Longrightarrow>
   items = ph_count (concat (take n a)) \<Longrightarrow> 0 < items \<Longrightarrow>
   can_unlink hv (concat (take n a)) \<Longrightarrow> distinct (map he_addr (concat (take n a))) \<Longrightarrow>
   acct oth L w hv (mset (concat a)) \<Longrightarrow> acct oth L w' hv' (mset (concat a'))"
proof (induction env n w hv a items arbitrary: a' w' hv' items' rule: clear_buckets.induct)
  case (2 env i w hv a items)
  obtain es w1 hv1 items1 where c: "clear_chain env True w hv (a ! i) items = (es, w1, hv1, items1)"
    by (metis prod_cases4)
  have i: "i < length a" using 2(3) by simp
  have tk: "take (Suc i) a = take i a @ [a ! i]" using i by (simp add: take_Suc_conv_app_nth)
  have n: "items = ph_count (concat (take i a)) + ph_count (a ! i)" using 2(4) tk by simp
  from clear_chain_result[OF c] n 2(5) have es: "es = filter no_ph (a ! i)" "items1 = ph_count (concat (take i a))"
    by simp_all
  define E where "E = mset (concat (a[i := []]))"
  have E: "mset (concat a) = mset (a ! i) + E" "mset (concat (a[i := es])) = mset es + E"
    using mset_concat_bucket[OF i, of "a ! i"] mset_concat_bucket[OF i, of es] by (simp_all add: E_def)
  have dis: "distinct (map he_addr (a ! i))" "he_addr ` set (a ! i) \<inter> he_addr ` set (concat (take i a)) = {}"
    "distinct (map he_addr (concat (take i a)))"
    using 2(7) unfolding tk by (auto simp del: set_concat)
  have cu: "can_unlink hv (a ! i)" using 2(6) unfolding tk can_unlink_def by auto
  have a1: "acct oth L w1 hv1 (mset (concat (a[i := es])))"
    using clear_chain_acct[OF c _ 2(5) cu dis(1), of oth L E] n 2(8) E by simp
  show ?case
  proof (cases "items1 = 0")
    case True
    with 2(2) c a1 show ?thesis by simp
  next
    case False
    with 2(2) c have c2: "clear_buckets env i w1 hv1 (a[i := es]) items1 = (a', w', hv', items')" by simp
    have "can_unlink hv1 (concat (take i a))"
    proof -
      from clear_chain_frame[OF c] obtain f l u where
        hv1: "hv1 = hv\<lparr>HvFILL := f, HvLAZYDEL := l, HvUNLINKED := u\<rparr>" and "lazy_change hv (filter is_ph (a ! i)) hv1" by blast
      moreover have "\<forall>d \<in> set (a ! i). \<forall>e \<in> set (concat (take i a)). he_addr d \<noteq> he_addr e"
        using dis(2) by (metis IntI empty_iff imageI)
      ultimately show ?thesis using 2(6) unfolding tk
        by (auto simp: can_unlink_def lazy_change_def)
    qed
    with 2(1)[of es "(w1, hv1, items1)" w1 "(hv1, items1)" hv1 items1] c c2 es i False a1 dis(3)
    show ?thesis by simp
  qed
qed simp

text \<open>\<open>hv_clear_placeholders\<close> on a hash.\<close>

definition keeps :: "hv \<Rightarrow> hv \<Rightarrow> bool" where
  "keeps hv hv' \<longleftrightarrow> HvRESTRICTED hv' = HvRESTRICTED hv \<and> HvREADONLY hv' = HvREADONLY hv \<and> HvAUX hv' = HvAUX hv"

definition same_keying :: "hv \<Rightarrow> hv \<Rightarrow> bool" where
  "same_keying hv hv' \<longleftrightarrow> HvSHAREKEYS hv' = HvSHAREKEYS hv \<and> HvREHASH hv' = HvREHASH hv"

lemma live_filter: "distinct (map he_key es) \<Longrightarrow> live (filter no_ph es) = live es"
proof (induction es)
  case (Cons e es)
  then have "live es (he_key e) = None" using live_out[of "he_key e" es] by simp
  with Cons show ?case by (auto simp: seen_def fun_upd_idem)
qed simp

lemma hv_okD:
  assumes "hv_ok env w hv"
  shows "tbl_ok (hash_fun env hv) (w_next_he w) (arr hv)" "length (arr hv) = HvMAX hv + 1"
    "HvFILL hv = fill_count (arr hv)" "HvTOTALKEYS hv = length (hv_entries hv)"
    "HvPLACEHOLDERS hv = ph_count (hv_entries hv)" "lazy_ok (w_next_he w) hv"
  using assms unfolding hv_ok_def by simp_all

lemma lazy_ok_in:
  assumes "lazy_ok n hv" "HvEITER_get hv = Some (he_addr e)" "e \<in> set (hv_entries hv)"
  shows "HvUNLINKED hv = None"
proof (cases "HvUNLINKED hv")
  case (Some u)
  obtain d m where "u = (d, m)" by (cases u)
  with Some assms(1,2) have "he_addr e \<notin> he_addr ` set (hv_entries hv)" by (simp add: lazy_ok_def)
  with assms(3) show ?thesis by blast
qed simp

lemma can_unlink_hv: "hv_ok env w hv \<Longrightarrow> can_unlink hv (hv_entries hv)"
  unfolding can_unlink_def using lazy_ok_in[OF hv_okD(6)] by blast

lemma concat_map_filter: "concat (map (filter P) a) = filter P (concat a)"
  by (induction a) auto

lemma tbl_filter:
  assumes "tbl_ok hf n a"
  shows "tbl_ok hf n (map (filter P) a)"
proof -
  have "well_placed (map (filter P) a)" using tbl_okD(1)[OF assms] by (auto simp: well_placed_def)
  moreover have "\<exists>k \<le> 30. length (map (filter P) a) = 2 ^ k" using tbl_okD(4)[OF assms] by simp
  ultimately show ?thesis
    using tbl_okD[OF assms] unfolding tbl_ok_def concat_map_filter by (auto simp: distinct_map_filter)
qed

lemma lazy_ok_change:
  assumes "lazy_ok n hv" "lazy_change hv (filter is_ph (hv_entries hv)) hv'" "HvEITER_get hv' = HvEITER_get hv"
    "hv_entries hv' = filter no_ph (hv_entries hv)" "tbl_ok hf n (arr hv)"
  shows "lazy_ok n hv'"
proof -
  have "he_addr d \<noteq> he_addr e" if "e \<in> set (filter is_ph (hv_entries hv))" "d \<in> set (filter no_ph (hv_entries hv))" for d e
  proof
    assume "he_addr d = he_addr e"
    with that tbl_okD(3)[OF assms(5)] have "d = e" by (auto simp: distinct_map dest: inj_onD simp del: set_concat)
    with that show False by simp
  qed
  then have ad: "he_addr e \<notin> he_addr ` set (filter no_ph (hv_entries hv))" if "e \<in> set (filter is_ph (hv_entries hv))" for e
    using that unfolding image_iff by metis
  have lt: "he_addr e < n" if "e \<in> set (filter is_ph (hv_entries hv))" for e
    using tbl_okD(5)[OF assms(5)] that by simp
  from assms(2) show ?thesis unfolding lazy_change_def
  proof (elim disjE conjE bexE exE)
    assume "HvUNLINKED hv' = HvUNLINKED hv" "HvLAZYDEL hv' = HvLAZYDEL hv"
    with assms(1) show ?thesis unfolding lazy_ok_def assms(3,4) by (auto split: option.splits)
  next
    fix e m assume "e \<in> set (filter is_ph (hv_entries hv))" "HvUNLINKED hv' = Some (e, m)" "HvLAZYDEL hv'"
      "HvEITER_get hv = Some (he_addr e)"
    with ad lt show ?thesis unfolding lazy_ok_def assms(3,4) by simp
  qed
qed

lemma arr_Some: "HvARRAY hv = Some a \<Longrightarrow> arr hv = a"
  by (simp add: arr_def)

lemma ph_count_filter [simp]: "ph_count (filter no_ph es) = 0"
  by (simp add: ph_count_def)

lemma length_filter_no_ph: "length (filter no_ph es) = length es - ph_count es"
  using sum_length_filter_compl[of is_ph es] by (simp add: ph_count_def)

lemma clear_placeholders_form:
  assumes "hv_ok env w hv" "HvPLACEHOLDERS hv \<noteq> 0"
  shows "\<exists>w' l u. hv_clear_placeholders env w hv =
      Inr (w', hv\<lparr>HvARRAY := Some (map (filter no_ph) (arr hv)), HvFILL := fill_count (map (filter no_ph) (arr hv)),
        HvTOTALKEYS := HvTOTALKEYS hv - HvPLACEHOLDERS hv, HvPLACEHOLDERS := 0, HvLAZYDEL := l, HvUNLINKED := u\<rparr>) \<and>
    w_next_he w' = w_next_he w \<and> w_next_sv w' = w_next_sv w \<and>
    lazy_change hv (filter is_ph (hv_entries hv)) (hv\<lparr>HvLAZYDEL := l, HvUNLINKED := u\<rparr>) \<and>
    (\<forall>oth L. acct oth L w hv (mset (hv_entries hv)) \<longrightarrow>
      acct oth L w' (hv\<lparr>HvLAZYDEL := l, HvUNLINKED := u\<rparr>) (mset (filter no_ph (hv_entries hv))))"
proof -
  note ok = hv_okD[OF assms(1)]
  have a: "HvARRAY hv = Some (arr hv)"
  proof (cases "HvARRAY hv")
    case None
    then have "hv_entries hv = []" by (simp only: arr_def option.case concat_replicate_Nil)
    with ok(5) assms(2) show ?thesis by simp
  qed (simp add: arr_def)
  let ?n = "HvMAX hv + 1" and ?items = "HvPLACEHOLDERS hv"
  have tk: "take ?n (arr hv) = arr hv" "drop ?n (arr hv) = []" using ok(2) by simp_all
  obtain a' w' hv1 items' where c: "clear_buckets env ?n w hv (arr hv) ?items = (a', w', hv1, items')"
    by (metis prod_cases4)
  have n: "?n \<le> length (arr hv)" "?items = ph_count (concat (take ?n (arr hv)))" "0 < ?items"
    using ok(2,5) assms(2) tk by simp_all
  from clear_buckets_result[OF c n] tk have r: "items' = 0" "a' = map (filter no_ph) (arr hv)" by simp_all
  have cu: "can_unlink hv (concat (take ?n (arr hv)))" "distinct (map he_addr (concat (take ?n (arr hv))))"
    using can_unlink_hv[OF assms(1)] tbl_okD(3)[OF ok(1)] unfolding tk by blast+
  from clear_buckets_frame[OF c n] obtain l u where
    f: "w_next_he w' = w_next_he w" "w_next_sv w' = w_next_sv w" "lazy_change hv (filter is_ph (hv_entries hv)) hv1"
      "hv1 = hv\<lparr>HvFILL := HvFILL hv - (fill_count (arr hv) - fill_count a'), HvLAZYDEL := l, HvUNLINKED := u\<rparr>"
    unfolding tk by blast
  have fl: "HvFILL hv - (fill_count (arr hv) - fill_count a') = fill_count a'"
    using clear_buckets_fill[OF c n] ok(3) by simp
  have e: "hv_clear_placeholders env w hv =
      Inr (w', hv\<lparr>HvARRAY := Some (map (filter no_ph) (arr hv)), HvFILL := fill_count (map (filter no_ph) (arr hv)),
        HvTOTALKEYS := HvTOTALKEYS hv - HvPLACEHOLDERS hv, HvPLACEHOLDERS := 0, HvLAZYDEL := l, HvUNLINKED := u\<rparr>)"
    unfolding hv_clear_placeholders_def clear_placeholders_def Let_def a option.case c
    using assms(2) fl by (simp add: r f(4))
  have "lazy_change hv (filter is_ph (hv_entries hv)) (hv\<lparr>HvLAZYDEL := l, HvUNLINKED := u\<rparr>)"
    using f(3) by (simp add: f(4) lazy_change_def)
  moreover have "acct oth L w' (hv\<lparr>HvLAZYDEL := l, HvUNLINKED := u\<rparr>) (mset (filter no_ph (hv_entries hv)))"
    if "acct oth L w hv (mset (hv_entries hv))" for oth L
  proof -
    have sa: "same_account (hv\<lparr>HvLAZYDEL := l, HvUNLINKED := u\<rparr>) hv1" by (simp add: same_account_def f(4))
    show ?thesis
      using clear_buckets_acct[OF c n cu that] unfolding acct_cong[OF sa] r(2) concat_map_filter .
  qed
  ultimately show ?thesis using e f(1,2) by blast
qed

lemma hash_fun_cong: "same_keying hv hv' \<Longrightarrow> hash_fun env hv' = hash_fun env hv"
  by (simp add: hash_fun_def same_keying_def)

lemma hv_clear_placeholders_ok:
  assumes "hv_ok env w hv"
  shows "\<exists>w' hv'. hv_clear_placeholders env w hv = Inr (w', hv') \<and> hv_ok env w' hv' \<and> keeps hv hv' \<and>
    same_keying hv hv' \<and> HvMAX hv' = HvMAX hv \<and> hv_map hv' = hv_map hv \<and> HvPLACEHOLDERS hv' = 0 \<and>
    w_next_sv w' = w_next_sv w \<and> (HvARRAY hv = None \<longleftrightarrow> HvARRAY hv' = None) \<and>
    hv_entries hv' = filter no_ph (hv_entries hv) \<and>
    (\<forall>oth L. acct oth L w hv (mset (hv_entries hv)) \<longrightarrow> acct oth L w' hv' (mset (hv_entries hv')))"
proof (cases "HvPLACEHOLDERS hv = 0")
  case True
  then have "filter no_ph (hv_entries hv) = hv_entries hv"
    using hv_okD(5)[OF assms] ph_count_0 by simp
  with True assms show ?thesis
    by (simp add: hv_clear_placeholders_def keeps_def same_keying_def)
next
  case False
  note ok = hv_okD[OF assms]
  let ?a = "map (filter no_ph) (arr hv)"
  from clear_placeholders_form[OF assms False] obtain w' l u where
    f: "hv_clear_placeholders env w hv =
      Inr (w', hv\<lparr>HvARRAY := Some ?a, HvFILL := fill_count ?a,
        HvTOTALKEYS := HvTOTALKEYS hv - HvPLACEHOLDERS hv, HvPLACEHOLDERS := 0, HvLAZYDEL := l, HvUNLINKED := u\<rparr>)"
      "w_next_he w' = w_next_he w" "w_next_sv w' = w_next_sv w"
      "lazy_change hv (filter is_ph (hv_entries hv)) (hv\<lparr>HvLAZYDEL := l, HvUNLINKED := u\<rparr>)"
      "\<forall>oth L. acct oth L w hv (mset (hv_entries hv)) \<longrightarrow>
        acct oth L w' (hv\<lparr>HvLAZYDEL := l, HvUNLINKED := u\<rparr>) (mset (filter no_ph (hv_entries hv)))"
    by blast
  let ?hv = "hv\<lparr>HvARRAY := Some ?a, HvFILL := fill_count ?a,
      HvTOTALKEYS := HvTOTALKEYS hv - HvPLACEHOLDERS hv, HvPLACEHOLDERS := 0, HvLAZYDEL := l, HvUNLINKED := u\<rparr>"
  have arr: "arr ?hv = ?a" by (simp add: arr_def)
  have ent: "hv_entries ?hv = filter no_ph (hv_entries hv)" unfolding arr concat_map_filter ..
  have sk: "same_keying hv ?hv" by (simp add: same_keying_def)
  have "lazy_change hv (filter is_ph (hv_entries hv)) ?hv" using f(4) by (simp add: lazy_change_def)
  then have "lazy_ok (w_next_he w) ?hv" using lazy_ok_change[OF ok(6) _ _ ent ok(1)] by simp
  moreover have "tbl_ok (hash_fun env ?hv) (w_next_he w) (arr ?hv)"
    unfolding hash_fun_cong[OF sk] arr by (rule tbl_filter[OF ok(1)])
  moreover have "HvTOTALKEYS ?hv = length (hv_entries ?hv)"
    unfolding ent length_filter_no_ph using ok(4,5) by simp
  moreover have "length (arr ?hv) = HvMAX ?hv + 1" unfolding arr using ok(2) by simp
  moreover have "HvPLACEHOLDERS ?hv = ph_count (hv_entries ?hv)" unfolding ent by simp
  moreover have "HvFILL ?hv = fill_count (arr ?hv)" unfolding arr by simp
  ultimately have hok: "hv_ok env w' ?hv" unfolding hv_ok_def f(2) by blast
  have map: "hv_map ?hv = hv_map hv"
    unfolding hv_map_def ent using live_filter[OF tbl_okD(2)[OF ok(1)]] .
  have "acct oth L w' ?hv (mset (hv_entries ?hv))" if "acct oth L w hv (mset (hv_entries hv))" for oth L
  proof -
    have sa: "same_account (hv\<lparr>HvLAZYDEL := l, HvUNLINKED := u\<rparr>) ?hv" by (simp add: same_account_def)
    show ?thesis unfolding ent acct_cong[OF sa] using f(5) that by blast
  qed
  moreover have "HvARRAY hv \<noteq> None"
    using False ok(5) by (auto simp: arr_def concat_replicate_Nil split: option.splits)
  ultimately show ?thesis using f(1,3) hok sk map ent by (simp add: keeps_def)
qed

end
