(* ===== verification/Hash_Split.thy ===== *)
theory Hash_Split
  imports Hash_Inv
begin

text \<open>
  \<open>hsplit\<close>: doubling the array, and the change to the other hash function when a chain stays too
  long. Both keep the map of the hash and the invariant; the account of shared keys is
  kept when no iteration holds a deleted entry.
\<close>

section \<open>Doubling\<close>

lemma tbl_split:
  assumes "tbl_ok hf n a" "length a = 2 ^ k" "k \<le> 29"
  shows "tbl_ok hf n (split_upto a (length a))"
proof -
  let ?a = "split_upto a (length a)"
  have ms: "mset (concat a) = mset (concat ?a)" by (rule mset_split[symmetric])
  have "well_placed ?a"
    using tbl_okD(1)[OF assms(1)] assms(2,3) by (intro well_placed_split[of _ k]) auto
  moreover have "\<exists>k \<le> 30. length ?a = 2 ^ k"
    using assms(2,3) by (intro exI[of _ "Suc k"]) simp
  ultimately show ?thesis
    using tbl_mset[OF assms(1) ms] unfolding tbl_ok_def by blast
qed

section \<open>Rehashing\<close>

text \<open>What an entry becomes.\<close>

definition rehashed :: "henv \<Rightarrow> bool \<Rightarrow> hent \<Rightarrow> hent" where
  "rehashed env was_shared e =
    (let hash = perl_hash (e_rehash_seed env) (he_key e)
     in e\<lparr>he_hek := \<lparr>hek_hash = hash, hek_key = he_key e,
         hek_flags = (if was_shared then (hek_flags (he_hek e) AND HVhek_MASK) OR HVhek_UNSHARED
           else hek_flags (he_hek e)) OR HVhek_REHASH\<rparr>\<rparr>)"

lemma rehashed_sel [simp]:
  "he_key (rehashed env s e) = he_key e" "he_addr (rehashed env s e) = he_addr e"
  "he_val (rehashed env s e) = he_val e"
  "he_hash (rehashed env s e) = perl_hash (e_rehash_seed env) (he_key e)"
  by (simp_all add: rehashed_def Let_def)

lemma rehash_entries_step:
  assumes "rehash_entries env s m (e # es) a fill w = Inr r"
  shows "\<exists>w1. rehash_entries env s m es (a[bucket_of (perl_hash (e_rehash_seed env) (he_key e)) m :=
        rehashed env s e # a ! bucket_of (perl_hash (e_rehash_seed env) (he_key e)) m])
        (if a ! bucket_of (perl_hash (e_rehash_seed env) (he_key e)) m = [] then fill + 1 else fill) w1 = Inr r \<and>
      w1 = (if s then w\<lparr>w_strtab := unshare_hek (w_strtab w) (he_hek e)\<rparr> else w)"
proof (cases s)
  case True
  with assms show ?thesis
    by (auto simp: Let_def save_hek_flags_def rehashed_def split: if_splits)
next
  case False
  have "he_hek e\<lparr>hek_hash := h, hek_flags := f\<rparr> = \<lparr>hek_hash = h, hek_key = he_key e, hek_flags = f\<rparr>" for h f
    by (cases "he_hek e") simp
  with False assms show ?thesis by (simp add: Let_def rehashed_def)
qed

lemma rehash_entries_tbl:
  assumes "rehash_entries env s m es a fill w = Inr (a', fill', w')"
    "tbl_ok (perl_hash (e_rehash_seed env)) n a" "length a = m + 1" "fill = fill_count a"
    "distinct (map he_key (es @ concat a))" "distinct (map he_addr (es @ concat a))"
    "\<forall>e \<in> set es. he_addr e < n"
  shows "tbl_ok (perl_hash (e_rehash_seed env)) n a' \<and> length a' = m + 1 \<and> fill' = fill_count a' \<and>
    mset (concat a') = mset (map (rehashed env s) es) + mset (concat a)"
  using assms
proof (induction es arbitrary: a fill w)
  case (Cons e es)
  let ?h = "perl_hash (e_rehash_seed env) (he_key e)"
  let ?j = "bucket_of ?h m"
  let ?c = "rehashed env s e # a ! ?j"
  have j: "?j < length a" using tbl_bucket[OF Cons.prems(2), of ?h] Cons.prems(3) by simp
  from rehash_entries_step[OF Cons.prems(1)] obtain w1 where
    r: "rehash_entries env s m es (a[?j := ?c]) (if a ! ?j = [] then fill + 1 else fill) w1 = Inr (a', fill', w')"
    by blast
  have ms: "mset (concat (a[?j := ?c])) = mset (rehashed env s e # concat a)"
    using mset_chain_push[OF j] by simp
  have keys: "distinct (map he_key (rehashed env s e # concat a))"
    "distinct (map he_addr (rehashed env s e # concat a))"
    using Cons.prems(5,6) by (simp_all add: del: set_concat)
  have t: "tbl_ok (perl_hash (e_rehash_seed env)) n (a[?j := ?c])"
  proof (rule tbl_chain[OF Cons.prems(2) j ms keys])
    fix d assume "d \<in> set (rehashed env s e # concat a)"
    then show "he_addr d < n \<and> he_hash d = perl_hash (e_rehash_seed env) (he_key d)"
      using tbl_okD(5,6)[OF Cons.prems(2)] Cons.prems(7) by (auto simp del: set_concat)
  qed (use Cons.prems(3) in auto)
  have fill: "(if a ! ?j = [] then fill + 1 else fill) = fill_count (a[?j := ?c])"
    using fill_count_update[OF j, of ?c] Cons.prems(4) by (auto split: if_splits)
  have ms2: "mset (es @ concat (a[?j := ?c])) = mset (es @ rehashed env s e # concat a)" using ms by simp
  have "distinct (map he_key (es @ rehashed env s e # concat a))" "distinct (map he_addr (es @ rehashed env s e # concat a))"
    using Cons.prems(5,6) by (auto simp del: set_concat)
  then have "distinct (map he_key (es @ concat (a[?j := ?c])))" "distinct (map he_addr (es @ concat (a[?j := ?c])))"
    using distinct_map_mset[OF ms2] by blast+
  from Cons.IH[OF r t _ fill this] Cons.prems(3,7)
  show ?case using ms by simp
qed auto

lemma rehash_entries_world:
  assumes "rehash_entries env s m es a fill w = Inr (a', fill', w')"
  shows "w_next_he w' = w_next_he w \<and> w_next_sv w' = w_next_sv w \<and> w_log w' = w_log w"
  using assms
proof (induction es arbitrary: a fill w)
  case (Cons e es)
  from rehash_entries_step[OF Cons.prems(1)] obtain a1 f1 w1 where
    r: "rehash_entries env s m es a1 f1 w1 = Inr (a', fill', w')"
      "w1 = (if s then w\<lparr>w_strtab := unshare_hek (w_strtab w) (he_hek e)\<rparr> else w)"
    by blast
  from Cons.IH[OF r(1)] show ?case by (simp add: r(2))
qed simp

lemma rehash_entries_refs:
  assumes "rehash_entries env s m es a fill w = Inr (a', fill', w')" "st_ok (w_strtab w)"
  shows "st_ok (w_strtab w') \<and>
    refs (w_strtab w') h = refs (w_strtab w) h - (if s then count (mset (map he_hek es)) h else 0)"
  using assms
proof (induction es arbitrary: a fill w)
  case (Cons e es)
  from rehash_entries_step[OF Cons.prems(1)] obtain a1 f1 w1 where
    r: "rehash_entries env s m es a1 f1 w1 = Inr (a', fill', w')"
      "w1 = (if s then w\<lparr>w_strtab := unshare_hek (w_strtab w) (he_hek e)\<rparr> else w)"
    by blast
  have "st_ok (w_strtab w1)" using Cons.prems(2) unshare_hek_ok r(2) by simp
  from Cons.IH[OF r(1) this] unshare_hek_ok[OF Cons.prems(2), of "he_hek e" h] show ?case
    unfolding r(2) by (auto split: if_splits)
qed simp

text \<open>What both steps keep: the map, the entries with their addresses, keys and values, and the flags.\<close>

definition view :: "hent \<Rightarrow> nat \<times> u8 list \<times> hval" where
  "view e = (he_addr e, he_key e, he_val e)"

definition same_table :: "hworld \<Rightarrow> hv \<Rightarrow> hworld \<Rightarrow> hv \<Rightarrow> bool" where
  "same_table w hv w' hv' \<longleftrightarrow> keeps hv hv' \<and> hv_map hv' = hv_map hv \<and>
    view ` set (hv_entries hv') = view ` set (hv_entries hv) \<and>
    w_next_sv w' = w_next_sv w \<and> w_next_he w' = w_next_he w \<and> HvARRAY hv' \<noteq> None"

lemma live_map:
  "(\<And>e. he_key (f e) = he_key e \<and> he_val (f e) = he_val e) \<Longrightarrow> live (map f es) = live es"
  by (induction es) auto

lemma tbl_replicate: "n = 2 ^ k \<Longrightarrow> k \<le> 30 \<Longrightarrow> tbl_ok hf nxt (replicate n [])"
  by (auto simp: tbl_ok_def well_placed_def concat_replicate_Nil)

lemma lazy_ok_same:
  assumes "lazy_ok n hv" "HvUNLINKED hv' = HvUNLINKED hv" "HvLAZYDEL hv' = HvLAZYDEL hv" "HvEITER_get hv' = HvEITER_get hv"
    "he_addr ` set (hv_entries hv') = he_addr ` set (hv_entries hv)"
  shows "lazy_ok n hv'"
  using assms(1) unfolding lazy_ok_def assms(2-5) .

lemma rehash_ok:
  assumes ok: "hv_ok env w hv" and a: "HvARRAY hv = Some a" and r: "rehash env w hv a = Inr (w', hv')"
  shows "hv_ok env w' hv' \<and> same_table w hv w' hv' \<and> HvREHASH hv' \<and>
    (\<forall>oth L. (HvSHAREKEYS hv \<longrightarrow> HvUNLINKED hv = None) \<longrightarrow> acct oth L w hv (mset (hv_entries hv)) \<longrightarrow>
      acct oth L w' hv' (mset (hv_entries hv')))"
proof -
  note h = hv_okD[OF ok]
  let ?R = "replicate (HvMAX hv + 1) []" and ?hf = "perl_hash (e_rehash_seed env)"
  from r obtain a' fill where
    e: "rehash_entries env (HvSHAREKEYS hv) (HvMAX hv) (concat a) ?R 0 w = Inr (a', fill, w')" and
    hv': "hv' = hv\<lparr>HvARRAY := Some a', HvFILL := fill, HvSHAREKEYS := False, HvREHASH := True\<rparr>"
    by (auto simp: rehash_def bind_result_Inr split: if_splits)
  have aa: "arr hv = a" "arr hv' = a'" by (simp_all add: arr_def a hv')
  have "tbl_ok ?hf (w_next_he w) ?R"
    using tbl_okD(4)[OF h(1)] h(2) by (metis tbl_replicate)
  from rehash_entries_tbl[OF e this] tbl_okD(2,3,5)[OF h(1)] h(2) aa
  have t: "tbl_ok ?hf (w_next_he w) a'" "length a' = HvMAX hv + 1" "fill = fill_count a'"
    "mset (concat a') = mset (map (rehashed env (HvSHAREKEYS hv)) (concat a))"
    by (simp_all add: concat_replicate_Nil del: set_concat replicate.simps)
  note ms = t(4)
  note w = rehash_entries_world[OF e]
  let ?f = "rehashed env (HvSHAREKEYS hv)"
  have im: "g ` set (concat a') = g ` set (concat a)" if "\<And>d. g (?f d) = g d" for g :: "hent \<Rightarrow> 'b"
    using mset_eq_setD[OF ms] that by (auto simp: image_image simp del: set_concat)
  have map: "hv_map hv' = hv_map hv"
  proof -
    have "live (concat a') = live (map ?f (concat a))" by (rule live_perm[OF ms tbl_okD(2)[OF t(1)]])
    then show ?thesis unfolding hv_map_def aa by (simp add: live_map)
  qed
  have ph: "ph_count (concat a') = ph_count (concat a)"
    unfolding ph_count_perm[OF ms] by (induction a) (auto simp: ph_count_def filter_map comp_def)
  have lz: "lazy_ok (w_next_he w) hv'"
    by (rule lazy_ok_same[OF h(6)]) (simp_all only: aa im rehashed_sel, simp_all add: hv' HvEITER_get_def)
  have "hv_ok env w' hv'"
    unfolding hv_ok_def using t h(4,5) aa ph lz w length_mset[OF ms]
    by (simp add: hv' hash_fun_def del: set_concat length_concat)
  moreover have "same_table w hv w' hv'"
    unfolding same_table_def aa using map w im[of view] by (simp add: keeps_def hv' view_def del: set_concat)
  moreover have "HvREHASH hv'" by (simp add: hv')
  moreover have "acct oth L w' hv' (mset (hv_entries hv'))"
    if u: "HvSHAREKEYS hv \<longrightarrow> HvUNLINKED hv = None" and ac: "acct oth L w hv (mset (hv_entries hv))" for oth L
  proof -
    have st: "st_ok (w_strtab w)" using ac by (simp add: acct_def)
    have "refs (w_strtab w') g = oth g + hek_uses hv' (mset (concat a')) g" for g
      using rehash_entries_refs[OF e st, of g] ac u unfolding acct_def aa
      by (auto simp: hek_uses_def hv' held_entries_def)
    moreover have "image_mset he_val (mset (concat a')) = image_mset he_val (mset (concat a))"
      unfolding ms by (simp add: multiset.map_comp comp_def)
    then have "counted (image_mset he_val (held_entries hv' (mset (concat a')))) =
        counted (image_mset he_val (held_entries hv (mset (concat a))))"
      by (auto simp: held_entries_def hv' split: option.split)
    ultimately show ?thesis
      using ac rehash_entries_refs[OF e st] w unfolding acct_def aa by simp
  qed
  ultimately show ?thesis by blast
qed

section \<open>The split\<close>

lemma newx_bytes: "bounded_allocator m \<Longrightarrow> newx m (array_bytes hv n) 1 \<Longrightarrow> n * 8 < 2 ^ 34"
proof -
  assume "bounded_allocator m" "newx m (array_bytes hv n) 1"
  then have "array_bytes hv n < 2 ^ 34" by (simp add: newx_def bounded_allocator_def)
  moreover have "n * 8 \<le> array_bytes hv n" by (simp add: array_bytes_def)
  ultimately show ?thesis by simp
qed

lemma hsplit_array_ok:
  assumes ok: "hv_ok env w hv" and m: "bounded_allocator (e_alloc env)" and r: "hsplit_array env w hv = Inr (w', hv')"
  shows "hv_ok env w' hv' \<and> same_table w hv w' hv' \<and>
    (\<forall>oth L. (HvSHAREKEYS hv \<longrightarrow> HvUNLINKED hv = None) \<longrightarrow> acct oth L w hv (mset (hv_entries hv)) \<longrightarrow>
      acct oth L w' hv' (mset (hv_entries hv')))"
proof -
  note h = hv_okD[OF ok]
  from r obtain a where a: "HvARRAY hv = Some a" by (auto simp: hsplit_array_def Let_def split: option.splits)
  then have aa: "arr hv = a" by (simp add: arr_def)
  show ?thesis
  proof (cases "newx (e_alloc env) (array_bytes hv ((HvMAX hv + 1) * 2)) 1")
    case False
    with r a have "w' = w" "hv' = hv" by (simp_all add: hsplit_array_def)
    with ok a show ?thesis by (simp add: same_table_def keeps_def)
  next
    case True
    from tbl_okD(4)[OF h(1)] obtain k where k: "length a = 2 ^ k" by (auto simp: aa)
    have "(HvMAX hv + 1) * 2 * 8 < 2 ^ 34" using newx_bytes[OF m True] .
    then have "(2::nat) ^ (k + 4) < 2 ^ 34" using k h(2) by (simp add: aa power_add)
    then have "k + 4 < 34" by (rule power_less_imp_less_exp[rotated]) simp
    then have k29: "k \<le> 29" by simp
    let ?a = "split_upto a (length a)"
    from split_array_form[of "HvFILL hv" a] h(3) aa obtain longest where
      s: "split_array a (HvFILL hv) = (?a, fill_count ?a, longest)" by auto
    define hv1 where "hv1 = hv\<lparr>HvARRAY := Some ?a, HvFILL := fill_count ?a, HvMAX := (HvMAX hv + 1) * 2 - 1\<rparr>"
    have aa1: "arr hv1 = ?a" by (simp add: arr_def hv1_def)
    have ms: "mset (concat ?a) = mset (concat a)" by (rule mset_split)
    have st: "set (concat ?a) = set (concat a)" by (rule mset_eq_setD[OF ms])
    have sk: "same_keying hv hv1" by (simp add: same_keying_def hv1_def)
    have t: "tbl_ok (hash_fun env hv1) (w_next_he w) ?a"
      unfolding hash_fun_cong[OF sk] using tbl_split[OF _ k k29] h(1) aa by simp
    have lz: "lazy_ok (w_next_he w) hv1"
      by (rule lazy_ok_same[OF h(6)]) (simp_all only: aa1 aa st, simp_all add: hv1_def)
    have ok1: "hv_ok env w hv1"
      unfolding hv_ok_def aa1 using t lz h(2,4,5) aa length_mset[OF ms] ph_count_perm[OF ms]
      by (simp add: hv1_def del: set_concat length_concat)
    have map: "hv_map hv1 = hv_map hv"
      unfolding hv_map_def aa1 aa by (rule live_perm[OF ms tbl_okD(2)[OF t]])
    have st1: "same_table w hv w hv1"
      unfolding same_table_def aa1 aa st using map by (simp add: keeps_def hv1_def)
    have ac1: "acct oth L w hv1 (mset (hv_entries hv1))" if "acct oth L w hv (mset (hv_entries hv))" for oth L
    proof -
      have sa: "same_account hv hv1" by (simp add: same_account_def hv1_def)
      show ?thesis using that unfolding acct_cong[OF sa] aa1 aa ms .
    qed
    show ?thesis
    proof (cases "longest \<le> HV_MAX_LENGTH_BEFORE_SPLIT \<or> HvREHASH hv")
      case True: True
      with r a s \<open>newx _ _ _\<close> have "w' = w" "hv' = hv1" by (auto simp: hsplit_array_def hv1_def Let_def)
      with ok1 st1 ac1 show ?thesis by simp
    next
      case False
      with r a s True have r1: "rehash env w hv1 ?a = Inr (w', hv')" by (simp add: hsplit_array_def hv1_def Let_def)
      have a1: "HvARRAY hv1 = Some ?a" by (simp add: hv1_def)
      from rehash_ok[OF ok1 a1 r1] st1 ac1 show ?thesis
        by (simp add: same_table_def keeps_def hv1_def)
    qed
  qed
qed

lemma lazy_ok_None: "lazy_ok n hv \<Longrightarrow> HvEITER_get hv = None \<Longrightarrow> HvUNLINKED hv = None"
  by (auto simp: lazy_ok_def split: option.splits)

lemma keeps_eiter: "keeps hv hv' \<Longrightarrow> HvEITER_get hv' = HvEITER_get hv"
  by (simp add: keeps_def HvEITER_get_def)

text \<open>The split with the placeholders taken out first: an entry may go, but no live one.\<close>

definition same_live :: "hworld \<Rightarrow> hv \<Rightarrow> hworld \<Rightarrow> hv \<Rightarrow> bool" where
  "same_live w hv w' hv' \<longleftrightarrow> keeps hv hv' \<and> hv_map hv' = hv_map hv \<and>
    view ` set (hv_entries hv') \<subseteq> view ` set (hv_entries hv) \<and>
    (\<forall>e \<in> set (hv_entries hv). HvRESTRICTED hv \<or> no_ph e \<longrightarrow> view e \<in> view ` set (hv_entries hv')) \<and>
    w_next_sv w' = w_next_sv w \<and> HvARRAY hv' \<noteq> None"

lemma same_table_live: "same_table w hv w' hv' \<Longrightarrow> same_live w hv w' hv'"
  unfolding same_table_def same_live_def by (metis (no_types, lifting) imageI order_refl)

lemma hsplit_ok:
  assumes ok: "hv_ok env w hv" and m: "bounded_allocator (e_alloc env)" and r: "hsplit env w hv = Inr (w', hv')"
  shows "hv_ok env w' hv' \<and> same_live w hv w' hv' \<and>
    (\<forall>oth L. (HvSHAREKEYS hv \<longrightarrow> HvEITER_get hv = None) \<longrightarrow> acct oth L w hv (mset (hv_entries hv)) \<longrightarrow>
      acct oth L w' hv' (mset (hv_entries hv')))"
proof (cases "HvPLACEHOLDERS hv \<noteq> 0 \<and> \<not> HvRESTRICTED hv")
  case False
  with r have s: "hsplit_array env w hv = Inr (w', hv')" by (auto simp: hsplit_def)
  have "HvEITER_get hv = None \<Longrightarrow> HvUNLINKED hv = None" by (rule lazy_ok_None[OF hv_okD(6)[OF ok]])
  with hsplit_array_ok[OF ok m s] show ?thesis using same_table_live by blast
next
  case True
  from hv_clear_placeholders_ok[OF ok] obtain w1 hv1 where
    c: "hv_clear_placeholders env w hv = Inr (w1, hv1)" "hv_ok env w1 hv1" "keeps hv hv1" "same_keying hv hv1"
      "hv_map hv1 = hv_map hv" "w_next_sv w1 = w_next_sv w" "hv_entries hv1 = filter no_ph (hv_entries hv)"
      "\<forall>oth L. acct oth L w hv (mset (hv_entries hv)) \<longrightarrow> acct oth L w1 hv1 (mset (hv_entries hv1))"
    by blast
  with r True have s: "hsplit_array env w1 hv1 = Inr (w', hv')" by (auto simp: hsplit_def)
  have u: "HvEITER_get hv = None \<Longrightarrow> HvUNLINKED hv1 = None"
    using lazy_ok_None[OF hv_okD(6)[OF c(2)]] keeps_eiter[OF c(3)] by simp
  note h = hsplit_array_ok[OF c(2) m s]
  have "same_live w hv w' hv'"
    using h c(3,5,6) True unfolding same_table_def same_live_def keeps_def c(7) by (auto simp del: set_concat)
  with h c(4,8) u show ?thesis by (simp add: same_keying_def)
qed

end
