(* ===== verification/Hash_Ops.thy ===== *)
theory Hash_Ops
  imports Hash_Split
begin

text \<open>
  What \<open>hv_common\<close> and \<open>hv_delete_common\<close> do to the map of a hash, branch by branch, and that they keep the
  invariant and the account of keys and values.
\<close>

section \<open>Changing one entry of the table\<close>

lemma fill_count_same: "i < length a \<Longrightarrow> (c = [] \<longleftrightarrow> a ! i = []) \<Longrightarrow> fill_count (a[i := c]) = fill_count a"
  using fill_count_update[of i a c] by (auto split: if_splits)

lemma find_nonempty: "find P xs = Some x \<Longrightarrow> xs \<noteq> []"
  by auto

lemma table_replace:
  assumes "tbl_ok hf n a" "i < length a" "find P (a ! i) = Some e"
    "he_addr e' = he_addr e" "he_key e' = he_key e" "he_hash e' = he_hash e"
  shows "\<exists>ys. mset (concat a) = mset (e # ys) \<and> mset (concat (a[i := replace_first P e' (a ! i)])) = mset (e' # ys) \<and>
    tbl_ok hf n (a[i := replace_first P e' (a ! i)]) \<and>
    fill_count (a[i := replace_first P e' (a ! i)]) = fill_count a \<and>
    live (concat (a[i := replace_first P e' (a ! i)])) = (live (concat a))(he_key e := seen (he_val e'))"
proof -
  let ?a = "a[i := replace_first P e' (a ! i)]"
  from chain_rest[OF assms(1,3,2)] obtain ys where
    ys: "mset (concat a) = mset (e # ys)" "mset (concat ?a) = mset (e' # ys)" by blast
  note t = tbl_mset[OF assms(1) ys(1)]
  have d: "distinct (map he_key (e' # ys))" "distinct (map he_addr (e' # ys))"
    using t(1,2) assms(4,5) by simp_all
  have b: "he_addr d < n \<and> he_hash d = hf (he_key d)" if "d \<in> set (e' # ys)" for d
    using t(3)[of d] t(3)[of e] that assms(4-6) by auto
  have pl: "d \<in> set (a ! i) \<or> bucket_of (he_hash d) (length a - 1) = i" if "d \<in> set (replace_first P e' (a ! i))" for d
  proof -
    have "e \<in> set (a ! i)" using find_SomeD[OF assms(3)] by simp
    then have "bucket_of (he_hash e) (length a - 1) = i" using tbl_okD(1)[OF assms(1)] assms(2) by (simp add: well_placed_def)
    with that set_replace_first[of P e' "a ! i"] assms(6) show ?thesis by auto
  qed
  have tb: "tbl_ok hf n ?a" by (rule tbl_chain[OF assms(1,2) ys(2) d b pl])
  have "live (concat ?a) = live (e' # ys)" by (rule live_perm[OF ys(2) tbl_okD(2)[OF tb]])
  moreover have "live (concat a) = live (e # ys)" by (rule live_perm[OF ys(1) tbl_okD(2)[OF assms(1)]])
  moreover have "fill_count ?a = fill_count a"
    by (rule fill_count_same[OF assms(2)]) simp
  ultimately show ?thesis using ys tb assms(5) by auto
qed

lemma table_push:
  assumes "tbl_ok hf n a" "he_key e \<notin> he_key ` set (concat a)" "he_hash e = hf (he_key e)" "he_addr e = n"
    "i = bucket_of (he_hash e) (length a - 1)"
  shows "mset (concat (a[i := e # a ! i])) = mset (e # concat a) \<and> tbl_ok hf (n + 1) (a[i := e # a ! i]) \<and>
    fill_count (a[i := e # a ! i]) = fill_count a + (if a ! i = [] then 1 else 0) \<and>
    live (concat (a[i := e # a ! i])) = (live (concat a))(he_key e := seen (he_val e))"
proof -
  have i: "i < length a" unfolding assms(5) by (rule tbl_bucket[OF assms(1)])
  have ms: "mset (concat (a[i := e # a ! i])) = mset (e # concat a)" using mset_chain_push[OF i] by simp
  have "he_addr e \<notin> he_addr ` set (concat a)"
    using tbl_okD(5)[OF assms(1)] unfolding assms(4) by (metis imageE less_irrefl)
  then have d: "distinct (map he_key (e # concat a))" "distinct (map he_addr (e # concat a))"
    using tbl_okD(2,3)[OF assms(1)] assms(2) by (simp_all del: set_concat)
  have b: "he_addr d < n + 1 \<and> he_hash d = hf (he_key d)" if "d \<in> set (e # concat a)" for d
    using that tbl_okD(5,6)[OF assms(1), of d] assms(3,4) by (auto simp del: set_concat)
  have tb: "tbl_ok hf (n + 1) (a[i := e # a ! i])"
    by (rule tbl_chain[OF assms(1) i ms d b]) (use assms(5) in auto)
  have "live (concat (a[i := e # a ! i])) = live (e # concat a)" by (rule live_perm[OF ms tbl_okD(2)[OF tb]])
  moreover have "fill_count (a[i := e # a ! i]) = fill_count a + (if a ! i = [] then 1 else 0)"
    using fill_count_update[OF i, of "e # a ! i"] by (auto split: if_splits)
  ultimately show ?thesis using ms tb by simp
qed

lemma table_remove:
  assumes "tbl_ok hf n a" "i < length a" "find P (a ! i) = Some e"
  shows "\<exists>ys. mset (concat a) = mset (e # ys) \<and> mset (concat (a[i := remove_first P (a ! i)])) = mset ys \<and>
    tbl_ok hf n (a[i := remove_first P (a ! i)]) \<and>
    fill_count (a[i := remove_first P (a ! i)]) = (if remove_first P (a ! i) = [] then fill_count a - 1 else fill_count a) \<and>
    live (concat (a[i := remove_first P (a ! i)])) = (live (concat a))(he_key e := None)"
proof -
  let ?a = "a[i := remove_first P (a ! i)]"
  from chain_rest[OF assms(1,3,2)] obtain ys where
    ys: "mset (concat a) = mset (e # ys)" "mset (concat ?a) = mset ys" by blast
  note t = tbl_mset[OF assms(1) ys(1)]
  have d: "distinct (map he_key ys)" "distinct (map he_addr ys)" using t(1,2) by simp_all
  have pl: "d \<in> set (a ! i) \<or> bucket_of (he_hash d) (length a - 1) = i" if "d \<in> set (remove_first P (a ! i))" for d
    using that set_remove_first[of P "a ! i"] by blast
  have tb: "tbl_ok hf n ?a"
    by (rule tbl_chain[OF assms(1,2) ys(2) d _ pl]) (use t(3) in auto)
  have "live (concat ?a) = live ys" by (rule live_perm[OF ys(2) tbl_okD(2)[OF tb]])
  moreover have "live (concat a) = live (e # ys)" by (rule live_perm[OF ys(1) tbl_okD(2)[OF assms(1)]])
  moreover have "live ys (he_key e) = None" using t(1) by (intro live_out) simp
  moreover have "fill_count ?a = (if remove_first P (a ! i) = [] then fill_count a - 1 else fill_count a)"
    using fill_count_update[OF assms(2), of "remove_first P (a ! i)"] find_nonempty[OF assms(3)] by (auto split: if_splits)
  ultimately show ?thesis using ys tb by (auto simp: fun_upd_idem)
qed

section \<open>Flags of an action\<close>

lemma has_or: "has action (f OR g) \<longleftrightarrow> has action f \<or> has action g"
  by (auto simp: has_def bit_eq_iff bit_simps)

lemma swap_key_ok:
  assumes "swap_key env w hv e (he_key e) (he_hash e) masked = Inr (hek, w')"
  shows "hek_hash hek = he_hash e \<and> hek_key hek = he_key e \<and>
    w_next_he w' = w_next_he w \<and> w_next_sv w' = w_next_sv w \<and> w_log w' = w_log w \<and>
    (bounded_allocator (e_alloc env) \<longrightarrow> acct oth L w hv (add_mset e E) \<longrightarrow>
      acct oth L w' hv (add_mset (e\<lparr>he_hek := hek\<rparr>) E))"
proof (cases "hek_flags (he_hek e) \<noteq> masked")
  case False
  with assms show ?thesis by (auto simp: swap_key_def)
next
  case True
  show ?thesis
  proof (cases "HvSHAREKEYS hv")
    case False
    with True assms have "hek = (he_hek e)\<lparr>hek_flags := masked\<rparr>" "w' = w" by (auto simp: swap_key_def)
    with False show ?thesis by (simp add: acct_def hek_uses_def held_add)
  next
    case sh: True
    with True assms obtain st where
      s: "share_hek_flags (e_alloc env) (w_strtab w) (he_key e) (he_hash e) masked = Inr (hek, st)" and
      w': "w' = w\<lparr>w_strtab := unshare_hek st (he_hek e)\<rparr>"
      by (auto simp: swap_key_def bind_result_Inr)
    have "acct oth L w' hv (add_mset (e\<lparr>he_hek := hek\<rparr>) E)"
      if "bounded_allocator (e_alloc env)" "acct oth L w hv (add_mset e E)"
    proof -
      have ok: "st_ok (w_strtab w)" using that by (simp add: acct_def)
      have ok1: "st_ok st" using share_hek_flags_ok[OF that(1) ok s] by blast
      have "refs (unshare_hek st (he_hek e)) h = oth h + hek_uses hv (add_mset (e\<lparr>he_hek := hek\<rparr>) E) h" for h
        using share_hek_flags_ok[OF that(1) ok s, of h] unshare_hek_ok[OF ok1, of "he_hek e" h] that(2) sh
        unfolding acct_def hek_uses_add by auto
      then show ?thesis
        using unshare_hek_ok[OF ok1] that(2) by (simp add: acct_def w' held_add)
    qed
    with share_hek_flags_cases(1)[OF s] show ?thesis by (simp add: w')
  qed
qed

text \<open>What a call returned: the entry of the key, with the value.\<close>

definition denotes :: "hv \<Rightarrow> hv_ret \<Rightarrow> u8 list \<Rightarrow> hval \<Rightarrow> bool" where
  "denotes hv r key v \<longleftrightarrow>
    (\<exists>addr. (r = Ret_entry addr \<or> r = Ret_slot addr) \<and> (addr, key, v) \<in> view ` set (hv_entries hv))"

lemma denotes_ret_entry: "denotes hv (ret_entry action addr) key v \<longleftrightarrow> (addr, key, v) \<in> view ` set (hv_entries hv)"
  by (auto simp: denotes_def ret_entry_def)

section \<open>An entry that is there\<close>

text \<open>The value an entry has after a call that may store.\<close>

definition new_value :: "u32 \<Rightarrow> hval \<Rightarrow> hval \<Rightarrow> nat \<Rightarrow> hval" where
  "new_value action old val fresh =
    (if old = Placeholder \<and> has action HV_FETCH_LVALUE then Val fresh
     else if old = Placeholder \<or> has action HV_FETCH_ISSTORE then val
     else old)"

text \<open>The value whose reference the hash has taken over in the call.\<close>

definition taken :: "u32 \<Rightarrow> hval \<Rightarrow> hval \<Rightarrow> nat \<Rightarrow> hval" where
  "taken action old val fresh =
    (if old \<noteq> Placeholder \<and> \<not> has action HV_FETCH_ISSTORE then Val_null else new_value action old val fresh)"

lemma hv_found_store_form:
  assumes "has action (HV_FETCH_LVALUE OR HV_FETCH_ISSTORE)"
    "hv_found env w hv a e key hash masked action val = Inr (r, w', hv')"
  shows "\<exists>hek w1 p. swap_key env w hv e key hash masked = Inr (hek, w1) \<and> r = ret_entry action (he_addr e) \<and>
    hv' = hv\<lparr>HvPLACEHOLDERS := p, HvARRAY := Some (a[bucket_of hash (HvMAX hv) := replace_first (key_matches hash key)
        (e\<lparr>he_hek := hek, he_val := new_value action (he_val e) val (w_next_sv w1)\<rparr>) (a ! bucket_of hash (HvMAX hv))])\<rparr> \<and>
    p = (if is_ph e \<and> new_value action (he_val e) val (w_next_sv w1) \<noteq> Placeholder then HvPLACEHOLDERS hv - 1
      else HvPLACEHOLDERS hv) \<and>
    w_strtab w' = w_strtab w1 \<and> w_next_he w' = w_next_he w1 \<and>
    w_next_sv w' = w_next_sv w1 + (if is_ph e \<and> has action HV_FETCH_LVALUE then 1 else 0) \<and>
    released (w_log w') = released (w_log w1) + (if \<not> is_ph e \<and> has action HV_FETCH_ISSTORE then {#he_val e#} else {#})"
proof -
  from assms obtain hek w1 where s: "swap_key env w hv e key hash masked = Inr (hek, w1)"
    by (auto simp: hv_found_def bind_result_Inr)
  have lv: "has action HV_FETCH_LVALUE \<or> has action HV_FETCH_ISSTORE" using assms(1) by (simp add: has_or)
  show ?thesis
  proof (cases "is_ph e")
    case True
    with assms s lv show ?thesis
      by (cases "has action HV_FETCH_LVALUE") (auto simp: hv_found_def newSV_def new_value_def Let_def)
  next
    case False
    with assms s lv show ?thesis
      by (cases "has action HV_FETCH_ISSTORE") (auto simp: hv_found_def new_value_def Let_def released_add)
  qed
qed

lemma hv_map_arr: "hv_map hv = live (concat (arr hv))"
  by (simp add: hv_map_def)

lemma acct_value:
  assumes "acct oth L w1 hv (add_mset e E)" "same_account hv hv'" "he_hek e' = he_hek e" "w_strtab w' = w_strtab w1"
    "released (w_log w') = released (w_log w1) + R"
    "counted {#he_val e'#} + counted R = counted {#he_val e#} + T"
  shows "acct oth (L + T) w' hv' (add_mset e' E)"
proof -
  have "hek_uses hv' (add_mset e' E) h = hek_uses hv (add_mset e E) h" for h
    using assms(2,3) unfolding same_account_def hek_uses_add by (auto simp: hek_uses_def held_entries_def)
  moreover have "counted (image_mset he_val (held_entries hv' (add_mset e' E))) + counted (released (w_log w')) =
      counted (image_mset he_val (held_entries hv (add_mset e E))) + counted (released (w_log w1)) + T"
  proof -
    have "held_entries hv' F = held_entries hv F" for F
      using assms(2) by (simp add: same_account_def held_entries_def)
    then have "counted (image_mset he_val (held_entries hv' (add_mset e' E))) + counted (released (w_log w')) =
        counted (image_mset he_val (held_entries hv E)) + counted (released (w_log w1)) +
        (counted {#he_val e'#} + counted R)"
      unfolding assms(5) held_add by simp
    also have "\<dots> = counted (image_mset he_val (held_entries hv (add_mset e E))) + counted (released (w_log w1)) + T"
      unfolding assms(6) held_add by simp
    finally show ?thesis .
  qed
  ultimately show ?thesis using assms(1,4) unfolding acct_def by simp
qed

lemma lazy_ok_addr:
  assumes "lazy_ok n hv" "HvUNLINKED hv' = HvUNLINKED hv" "HvLAZYDEL hv' = HvLAZYDEL hv" "HvEITER_get hv' = HvEITER_get hv"
    "n \<le> n'" "\<And>e. e \<in> set (hv_entries hv') \<Longrightarrow> he_addr e \<in> he_addr ` set (hv_entries hv) \<or> n \<le> he_addr e"
  shows "lazy_ok n' hv'"
proof (cases "HvUNLINKED hv")
  case None
  with assms(1-3) show ?thesis by (simp add: lazy_ok_def)
next
  case (Some u)
  obtain e m where u: "u = (e, m)" by (cases u)
  with Some assms(1) have l: "HvLAZYDEL hv" "HvEITER_get hv = Some (he_addr e)" "he_addr e < n"
    "he_addr e \<notin> he_addr ` set (hv_entries hv)" by (simp_all add: lazy_ok_def)
  have "he_addr e \<notin> he_addr ` set (hv_entries hv')"
  proof
    assume "he_addr e \<in> he_addr ` set (hv_entries hv')"
    then obtain d where "d \<in> set (hv_entries hv')" "he_addr d = he_addr e" by (metis imageE)
    with assms(6)[of d] l(3,4) show False by auto
  qed
  with l Some u assms(2-5) show ?thesis by (simp add: lazy_ok_def)
qed

lemma hv_found_store_ok:
  assumes ok: "hv_ok env w hv" and a: "HvARRAY hv = Some a" and hash: "hash = hash_fun env hv key"
    and f: "find (key_matches hash key) (a ! bucket_of hash (HvMAX hv)) = Some e"
    and act: "has action (HV_FETCH_LVALUE OR HV_FETCH_ISSTORE)"
    and r: "hv_found env w hv a e key hash masked action val = Inr (r, w', hv')"
    and v: "v = new_value action (he_val e) val (w_next_sv w)" and vp: "is_ph e \<or> v \<noteq> Placeholder"
  shows "hv_ok env w' hv' \<and> keeps hv hv' \<and> hv_map hv' = (hv_map hv)(key := seen v) \<and>
    hv_legal hv' = hv_legal hv \<and> denotes hv' r key v \<and> HvARRAY hv' \<noteq> None \<and>
    w_next_sv w' = w_next_sv w + (if is_ph e \<and> has action HV_FETCH_LVALUE then 1 else 0) \<and>
    (\<forall>oth L. bounded_allocator (e_alloc env) \<longrightarrow> acct oth L w hv (mset (hv_entries hv)) \<longrightarrow>
      acct oth (L + counted {#taken action (he_val e) val (w_next_sv w)#}) w' hv' (mset (hv_entries hv')))"
proof -
  note h = hv_okD[OF ok]
  have aa: "arr hv = a" by (rule arr_Some[OF a])
  have max: "HvMAX hv = length a - 1" using h(2) aa by simp
  have tb: "tbl_ok (hash_fun env hv) (w_next_he w) a" using h(1) aa by simp
  let ?i = "bucket_of hash (HvMAX hv)"
  have i: "?i < length a" using tbl_bucket[OF tb] max by simp
  have e: "he_key e = key" "he_hash e = hash" using find_SomeD[OF f] by simp_all
  from hv_found_store_form[OF act r] obtain hek w1 where
    sw: "swap_key env w hv e key hash masked = Inr (hek, w1)" and ret: "r = ret_entry action (he_addr e)" and
    hv': "hv' = hv\<lparr>HvPLACEHOLDERS := (if is_ph e \<and> new_value action (he_val e) val (w_next_sv w1) \<noteq> Placeholder
        then HvPLACEHOLDERS hv - 1 else HvPLACEHOLDERS hv),
      HvARRAY := Some (a[?i := replace_first (key_matches hash key)
        (e\<lparr>he_hek := hek, he_val := new_value action (he_val e) val (w_next_sv w1)\<rparr>) (a ! ?i)])\<rparr>" and
    w: "w_strtab w' = w_strtab w1" "w_next_he w' = w_next_he w1"
      "w_next_sv w' = w_next_sv w1 + (if is_ph e \<and> has action HV_FETCH_LVALUE then 1 else 0)"
      "released (w_log w') = released (w_log w1) + (if \<not> is_ph e \<and> has action HV_FETCH_ISSTORE then {#he_val e#} else {#})"
    by blast
  note sk = swap_key_ok[OF sw[folded e]]
  define e' where "e' = e\<lparr>he_hek := hek, he_val := v\<rparr>"
  let ?a = "a[?i := replace_first (key_matches hash key) e' (a ! ?i)]"
  have hv'': "hv' = hv\<lparr>HvPLACEHOLDERS := (if is_ph e \<and> v \<noteq> Placeholder then HvPLACEHOLDERS hv - 1 else HvPLACEHOLDERS hv),
      HvARRAY := Some ?a\<rparr>"
    using hv' sk by (simp add: v e'_def)
  have aa': "arr hv' = ?a" by (simp add: arr_def hv'')
  have e': "he_addr e' = he_addr e" "he_key e' = he_key e" "he_hash e' = he_hash e" "he_val e' = v"
    using sk by (simp_all add: e'_def)
  from table_replace[OF tb i f e'(1-3)] obtain ys where
    ys: "mset (concat a) = mset (e # ys)" "mset (concat ?a) = mset (e' # ys)" and
    t: "tbl_ok (hash_fun env hv) (w_next_he w) ?a" "fill_count ?a = fill_count a"
      "live (concat ?a) = (live (concat a))(he_key e := seen v)"
    unfolding e'(4) by blast
  have st: "g ` set (concat ?a) = g ` set (concat a)" if "g e' = g e" for g :: "hent \<Rightarrow> 'b"
    using that unfolding mset_eq_setD[OF ys(1)] mset_eq_setD[OF ys(2)] by simp
  have lz: "lazy_ok (w_next_he w) hv'"
    by (rule lazy_ok_same[OF h(6)]) (simp_all only: aa aa' st e'(1), simp_all add: hv'')
  have ph: "HvPLACEHOLDERS hv' = ph_count (concat ?a)"
    using h(5) vp unfolding aa ph_count_perm[OF ys(1)] ph_count_perm[OF ys(2)] by (auto simp: hv'' e'(4))
  have sk2: "same_keying hv hv'" by (simp add: same_keying_def hv'')
  have "hv_ok env w' hv'"
    unfolding hv_ok_def aa' hash_fun_cong[OF sk2] using t(1,2) lz ph h(2-4) sk w(2) length_mset[OF ys(1)] length_mset[OF ys(2)]
    by (simp add: aa hv'' del: set_concat length_concat)
  moreover have "hv_map hv' = (hv_map hv)(key := seen v)" using t(3) unfolding hv_map_def aa aa' e(1) .
  moreover have "hv_legal hv' = hv_legal hv" unfolding hv_legal_def aa aa' by (rule st[OF e'(2)])
  moreover have "e' \<in> set (concat ?a)" unfolding mset_eq_setD[OF ys(2)] by simp
  then have "denotes hv' r key v"
    unfolding ret denotes_ret_entry aa' by (intro image_eqI[of _ _ e']) (simp_all add: view_def e' e(1))
  moreover have "acct oth (L + counted {#taken action (he_val e) val (w_next_sv w)#}) w' hv' (mset (hv_entries hv'))"
    if m: "bounded_allocator (e_alloc env)" and ac: "acct oth L w hv (mset (hv_entries hv))" for oth L
  proof -
    have a1: "acct oth L w1 hv (add_mset (e\<lparr>he_hek := hek\<rparr>) (mset ys))"
      using sk m ac ys(1) unfolding aa by simp
    have sa: "same_account hv hv'" by (simp add: same_account_def hv'')
    have "acct oth (L + counted {#taken action (he_val e) val (w_next_sv w)#}) w' hv' (add_mset e' (mset ys))"
      by (rule acct_value[OF a1 sa _ w(1,4)]) (auto simp: e'_def v taken_def new_value_def)
    then show ?thesis unfolding aa' ys(2) by simp
  qed
  ultimately show ?thesis using w(3) sk by (simp add: keeps_def hv'')
qed

section \<open>A new entry\<close>

definition make_key :: "henv \<Rightarrow> hworld \<Rightarrow> hv \<Rightarrow> u8 list \<Rightarrow> u32 \<Rightarrow> u32 \<Rightarrow> (hek \<times> hworld) result" where
  "make_key env w hv key hash flags =
    (if HvSHAREKEYS hv then
       bind_result (share_hek_flags (e_alloc env) (w_strtab w) key hash flags)
         (\<lambda>(hek, st). Inr (hek, w\<lparr>w_strtab := st\<rparr>))
     else bind_result (save_hek_flags (e_alloc env) key hash flags) (\<lambda>hek. Inr (hek, w)))"

lemma make_key_ok:
  assumes "make_key env w hv key hash flags = Inr (hek, w1)"
  shows "hek_hash hek = hash \<and> hek_key hek = key \<and> w_next_he w1 = w_next_he w \<and> w_next_sv w1 = w_next_sv w \<and>
    w_log w1 = w_log w \<and>
    (bounded_allocator (e_alloc env) \<longrightarrow> acct oth L w hv E \<longrightarrow>
      acct oth (L + counted {#v#}) w1 hv (add_mset \<lparr>he_addr = n, he_hek = hek, he_val = v\<rparr> E))"
proof (cases "HvSHAREKEYS hv")
  case False
  with assms have "w1 = w" "hek = \<lparr>hek_hash = hash, hek_key = key, hek_flags = (flags AND HVhek_MASK) OR HVhek_UNSHARED\<rparr>"
    by (auto simp: make_key_def bind_result_Inr save_hek_flags_def split: if_splits)
  with False show ?thesis by (simp add: acct_def hek_uses_def held_add)
next
  case True
  with assms obtain st where
    s: "share_hek_flags (e_alloc env) (w_strtab w) key hash flags = Inr (hek, st)" and w1: "w1 = w\<lparr>w_strtab := st\<rparr>"
    by (auto simp: make_key_def bind_result_Inr)
  have "acct oth (L + counted {#v#}) w1 hv (add_mset \<lparr>he_addr = n, he_hek = hek, he_val = v\<rparr> E)"
    if m: "bounded_allocator (e_alloc env)" and ac: "acct oth L w hv E"
  proof -
    have ok: "st_ok (w_strtab w)" using ac by (simp add: acct_def)
    have "refs st h = oth h + hek_uses hv (add_mset \<lparr>he_addr = n, he_hek = hek, he_val = v\<rparr> E) h" for h
      using share_hek_flags_ok[OF m ok s, of h] ac True unfolding acct_def hek_uses_add by auto
    then show ?thesis
      using share_hek_flags_ok[OF m ok s] ac by (simp add: acct_def w1 held_add)
  qed
  with share_hek_flags_cases(1)[OF s] show ?thesis by (simp add: w1)
qed

lemma view_legal: "view ` set (hv_entries hv') \<subseteq> view ` set (hv_entries hv) \<Longrightarrow> hv_legal hv' \<subseteq> hv_legal hv"
proof -
  assume "view ` set (hv_entries hv') \<subseteq> view ` set (hv_entries hv)"
  then have "(fst \<circ> snd) ` view ` set (hv_entries hv') \<subseteq> (fst \<circ> snd) ` view ` set (hv_entries hv)"
    by (rule image_mono)
  then show ?thesis unfolding hv_legal_def image_comp by (simp add: view_def comp_def del: set_concat)
qed

lemma hv_insert_form:
  assumes "hv_insert env w hv a key hash flags action val = Inr (r, w', hv')"
  shows "\<exists>hek w1 hv1. make_key env w hv key hash flags = Inr (hek, w1) \<and> r = ret_entry action (w_next_he w1) \<and>
    hv1 = hv\<lparr>HvARRAY := Some (a[bucket_of hash (HvMAX hv) :=
        \<lparr>he_addr = w_next_he w1, he_hek = hek, he_val = val\<rparr> # a ! bucket_of hash (HvMAX hv)]),
      HvPLACEHOLDERS := (if val = Placeholder then HvPLACEHOLDERS hv + 1 else HvPLACEHOLDERS hv),
      HvTOTALKEYS := HvTOTALKEYS hv + 1,
      HvFILL := (if a ! bucket_of hash (HvMAX hv) = [] then HvFILL hv + 1 else HvFILL hv)\<rparr> \<and>
    ((w', hv') = (w1\<lparr>w_next_he := w_next_he w1 + 1\<rparr>, hv1) \<or>
     hsplit env (w1\<lparr>w_next_he := w_next_he w1 + 1\<rparr>) hv1 = Inr (w', hv'))"
  using assms unfolding hv_insert_def make_key_def[symmetric]
  by (auto simp: bind_result_Inr Let_def split: if_splits)

text \<open>The table with the new entry in it, before a split.\<close>

lemma pushed_ok:
  assumes ok: "hv_ok env w hv" and a: "HvARRAY hv = Some a" and hash: "hash = hash_fun env hv key"
    and f: "key \<notin> hv_legal hv" and m: "bounded_allocator (e_alloc env)"
    and mk: "make_key env w hv key hash flags = Inr (hek, w1)"
    and i: "i = bucket_of hash (HvMAX hv)" and e: "e = \<lparr>he_addr = w_next_he w1, he_hek = hek, he_val = val\<rparr>"
    and hv1: "hv1 = hv\<lparr>HvARRAY := Some (a[i := e # a ! i]),
      HvPLACEHOLDERS := (if val = Placeholder then HvPLACEHOLDERS hv + 1 else HvPLACEHOLDERS hv),
      HvTOTALKEYS := HvTOTALKEYS hv + 1, HvFILL := (if a ! i = [] then HvFILL hv + 1 else HvFILL hv)\<rparr>"
    and w2: "w2 = w1\<lparr>w_next_he := w_next_he w1 + 1\<rparr>"
  shows "hv_ok env w2 hv1 \<and> hv_map hv1 = (hv_map hv)(key := seen val) \<and> keeps hv hv1 \<and>
    e \<in> set (hv_entries hv1) \<and> view e = (w_next_he w1, key, val) \<and> w_next_sv w2 = w_next_sv w \<and>
    HvSHAREKEYS hv1 = HvSHAREKEYS hv \<and> hv_legal hv1 = insert key (hv_legal hv) \<and>
    (\<forall>oth L. acct oth L w hv (mset (hv_entries hv)) \<longrightarrow> acct oth (L + counted {#val#}) w2 hv1 (mset (hv_entries hv1)))"
proof -
  note h = hv_okD[OF ok] and mo = make_key_ok[OF mk]
  have aa: "arr hv = a" by (rule arr_Some[OF a])
  have max: "HvMAX hv = length a - 1" using h(2) aa by simp
  have tb: "tbl_ok (hash_fun env hv) (w_next_he w) a" using h(1) aa by simp
  have n: "w_next_he w1 = w_next_he w" using mo by simp
  have es: "he_addr e = w_next_he w" "he_key e = key" "he_hash e = hash" "he_val e = val"
    using mo by (simp_all add: e)
  let ?a = "a[i := e # a ! i]"
  have aa1: "arr hv1 = ?a" by (simp add: arr_def hv1)
  have i': "i = bucket_of (he_hash e) (length a - 1)" using es max i by simp
  have "he_key e \<notin> he_key ` set (concat a)" using f unfolding hv_legal_def aa es(2) .
  note tp = table_push[OF tb this _ es(1) i']
  then have t: "mset (concat ?a) = mset (e # concat a)" "tbl_ok (hash_fun env hv) (w_next_he w2) ?a"
    "fill_count ?a = fill_count a + (if a ! i = [] then 1 else 0)"
    "live (concat ?a) = (live (concat a))(key := seen val)"
    using es hash n by (simp_all add: w2)
  have sk: "same_keying hv hv1" by (simp add: same_keying_def hv1)
  have lz: "lazy_ok (w_next_he w2) hv1"
  proof (rule lazy_ok_addr[OF h(6)])
    fix d assume "d \<in> set (hv_entries hv1)"
    then have "d \<in> set (e # concat a)" unfolding aa1 mset_eq_setD[OF t(1)] .
    then show "he_addr d \<in> he_addr ` set (hv_entries hv) \<or> w_next_he w \<le> he_addr d" unfolding aa using es(1) by auto
  qed (simp_all add: hv1 w2 n HvEITER_get_def)
  have ok1: "hv_ok env w2 hv1"
    unfolding hv_ok_def aa1 hash_fun_cong[OF sk] using t(2,3) lz h(2-5) length_mset[OF t(1)] ph_count_perm[OF t(1)]
    by (simp add: aa hv1 es del: set_concat length_concat)
  have "hv_map hv1 = (hv_map hv)(key := seen val)" using t(4) unfolding hv_map_def aa aa1 .
  moreover have "keeps hv hv1" by (simp add: keeps_def hv1)
  moreover have "e \<in> set (hv_entries hv1)" unfolding aa1 mset_eq_setD[OF t(1)] by simp
  moreover have "view e = (w_next_he w1, key, val)" by (simp add: view_def es n)
  moreover have "acct oth (L + counted {#val#}) w2 hv1 (mset (hv_entries hv1))"
    if "acct oth L w hv (mset (hv_entries hv))" for oth L
  proof -
    have sa: "same_account hv hv1" by (simp add: same_account_def hv1 HvNAME_HEK_def)
    have "acct oth (L + counted {#val#}) w1 hv (add_mset e (mset (concat a)))"
      using mo m that unfolding e n aa by blast
    then have "acct oth (L + counted {#val#}) w2 hv (add_mset e (mset (concat a)))" by (simp add: acct_def w2)
    then show ?thesis unfolding acct_cong[OF sa] aa1 t(1) by simp
  qed
  moreover have "w_next_sv w2 = w_next_sv w" "HvSHAREKEYS hv1 = HvSHAREKEYS hv" using mo by (simp_all add: w2 hv1)
  moreover have "hv_legal hv1 = insert key (hv_legal hv)"
    unfolding hv_legal_def aa aa1 mset_eq_setD[OF t(1)] using es(2) by simp
  ultimately show ?thesis using ok1 by blast
qed

lemma hv_insert_ok:
  assumes ok: "hv_ok env w hv" and a: "HvARRAY hv = Some a" and hash: "hash = hash_fun env hv key"
    and f: "key \<notin> hv_legal hv" and m: "bounded_allocator (e_alloc env)"
    and r: "hv_insert env w hv a key hash flags action val = Inr (r, w', hv')"
  shows "hv_ok env w' hv' \<and> keeps hv hv' \<and> hv_map hv' = (hv_map hv)(key := seen val) \<and>
    (val \<noteq> Placeholder \<longrightarrow> denotes hv' r key val) \<and> w_next_sv w' = w_next_sv w \<and>
    hv_legal hv' \<subseteq> insert key (hv_legal hv) \<and> HvARRAY hv' \<noteq> None \<and>
    (\<forall>oth L. (HvSHAREKEYS hv \<longrightarrow> HvEITER_get hv = None) \<longrightarrow> acct oth L w hv (mset (hv_entries hv)) \<longrightarrow>
      acct oth (L + counted {#val#}) w' hv' (mset (hv_entries hv')))"
proof -
  from hv_insert_form[OF r] obtain hek w1 hv1 where
    mk: "make_key env w hv key hash flags = Inr (hek, w1)" and ret: "r = ret_entry action (w_next_he w1)" and
    hv1: "hv1 = hv\<lparr>HvARRAY := Some (a[bucket_of hash (HvMAX hv) :=
        \<lparr>he_addr = w_next_he w1, he_hek = hek, he_val = val\<rparr> # a ! bucket_of hash (HvMAX hv)]),
      HvPLACEHOLDERS := (if val = Placeholder then HvPLACEHOLDERS hv + 1 else HvPLACEHOLDERS hv),
      HvTOTALKEYS := HvTOTALKEYS hv + 1,
      HvFILL := (if a ! bucket_of hash (HvMAX hv) = [] then HvFILL hv + 1 else HvFILL hv)\<rparr>" and
    sp: "(w', hv') = (w1\<lparr>w_next_he := w_next_he w1 + 1\<rparr>, hv1) \<or>
     hsplit env (w1\<lparr>w_next_he := w_next_he w1 + 1\<rparr>) hv1 = Inr (w', hv')"
    by blast
  note p = pushed_ok[OF ok a hash f m mk refl refl hv1 refl]
  define e where "e = \<lparr>he_addr = w_next_he w1, he_hek = hek, he_val = val\<rparr>"
  define w2 where "w2 = w1\<lparr>w_next_he := w_next_he w1 + 1\<rparr>"
  note p = p[folded e_def w2_def]
  from sp[folded w2_def] show ?thesis
  proof
    assume "(w', hv') = (w2, hv1)"
    then have "w' = w2" "hv' = hv1" by simp_all
    moreover have "denotes hv1 r key val" unfolding ret denotes_ret_entry using p by (metis imageI)
    moreover have "HvARRAY hv1 \<noteq> None" by (simp add: hv1)
    ultimately show ?thesis using p by blast
  next
    assume s: "hsplit env w2 hv1 = Inr (w', hv')"
    note hs = hsplit_ok[OF conjunct1[OF p] m s]
    have ei: "HvEITER_get hv1 = HvEITER_get hv" using p keeps_eiter by blast
    have "val \<noteq> Placeholder \<longrightarrow> denotes hv' r key val"
      using hs p unfolding ret denotes_ret_entry same_live_def by (metis e_def he.select_convs(3))
    moreover have "hv_legal hv' \<subseteq> insert key (hv_legal hv)"
      using hs p view_legal unfolding same_live_def by metis
    ultimately show ?thesis using hs p ei by (simp add: same_live_def keeps_def)
  qed
qed

lemma hv_insert_Inl:
  assumes "hv_insert env w hv a key hash flags action val = Inl er"
  shows "make_key env w hv key hash flags = Inl er \<or>
    (\<exists>hek w1 hv1. make_key env w hv key hash flags = Inr (hek, w1) \<and>
    hv1 = hv\<lparr>HvARRAY := Some (a[bucket_of hash (HvMAX hv) :=
        \<lparr>he_addr = w_next_he w1, he_hek = hek, he_val = val\<rparr> # a ! bucket_of hash (HvMAX hv)]),
      HvPLACEHOLDERS := (if val = Placeholder then HvPLACEHOLDERS hv + 1 else HvPLACEHOLDERS hv),
      HvTOTALKEYS := HvTOTALKEYS hv + 1,
      HvFILL := (if a ! bucket_of hash (HvMAX hv) = [] then HvFILL hv + 1 else HvFILL hv)\<rparr> \<and>
     hsplit env (w1\<lparr>w_next_he := w_next_he w1 + 1\<rparr>) hv1 = Inl er)"
  using assms unfolding hv_insert_def make_key_def[symmetric]
  by (auto simp: bind_result_Inl Let_def split: if_splits)

section \<open>Fetch, store and exists\<close>

text \<open>The precomputed hash value of a call is that of the key.\<close>

definition good_hash :: "henv \<Rightarrow> hkey \<Rightarrow> u32 \<Rightarrow> bool" where
  "good_hash env k hash \<longleftrightarrow> (hash = 0 \<or> hash = perl_hash (e_hash_seed env) (key_bytes k)) \<and>
    (case key_shared_hash k of None \<Rightarrow> True | Some h \<Rightarrow> h = perl_hash (e_hash_seed env) (key_bytes k))"

lemma key_hash_good: "good_hash env k hash \<Longrightarrow> key_hash env hv k hash = hash_fun env hv (key_bytes k)"
  by (auto simp: good_hash_def key_hash_def hash_fun_def split: option.splits)

lemma alloc_array:
  assumes "hv_ok env w hv" "hv0 = hv\<lparr>HvARRAY := Some (arr hv)\<rparr>"
  shows "hv_ok env w hv0 \<and> keeps hv hv0 \<and> arr hv0 = arr hv \<and> HvSHAREKEYS hv0 = HvSHAREKEYS hv \<and>
    (acct oth L w hv0 E \<longleftrightarrow> acct oth L w hv E)"
proof -
  have a: "arr hv0 = arr hv" by (simp add: arr_def assms(2))
  have sk: "same_keying hv hv0" by (simp add: same_keying_def assms(2))
  have sa: "same_account hv hv0" by (simp add: same_account_def assms(2))
  have "lazy_ok (w_next_he w) hv0"
    by (rule lazy_ok_same[OF hv_okD(6)[OF assms(1)]]) (simp_all add: a, simp_all add: assms(2))
  then have "hv_ok env w hv0"
    using hv_okD[OF assms(1)] unfolding hv_ok_def a hash_fun_cong[OF sk] by (simp add: assms(2))
  then show ?thesis using a acct_cong[OF sa] by (simp add: keeps_def assms(2))
qed

text \<open>What the call sees for the key: the entry, or none.\<close>

definition lookup :: "hv \<Rightarrow> u8 list \<Rightarrow> hent option" where
  "lookup hv key = find (\<lambda>e. he_key e = key) (hv_entries hv)"

lemma lookup_None: "lookup hv key = None \<longleftrightarrow> key \<notin> hv_legal hv"
  by (auto simp: lookup_def find_None_iff hv_legal_def image_iff)

lemma chain_lookup:
  assumes "hv_ok env w hv" "hash = hash_fun env hv key"
  shows "find (key_matches hash key) (arr hv ! bucket_of hash (HvMAX hv)) = lookup hv key"
proof -
  note h = hv_okD[OF assms(1)]
  have max: "HvMAX hv = length (arr hv) - 1" using h(2) by simp
  show ?thesis
  proof (cases "find (key_matches hash key) (arr hv ! bucket_of hash (HvMAX hv))")
    case None
    then have "key \<notin> he_key ` set (hv_entries hv)"
      using chain_find_None[OF h(1)] unfolding assms(2) max by blast
    then have "lookup hv key = None" unfolding lookup_None hv_legal_def .
    with None show ?thesis by simp
  next
    case (Some e)
    have "e \<in> set (hv_entries hv)" "he_key e = key"
      using chain_find_Some[OF h(1) Some[unfolded assms(2) max]] by blast+
    then show ?thesis unfolding Some lookup_def using find_unique[OF tbl_okD(2)[OF h(1)]] by metis
  qed
qed

lemma lookup_map:
  assumes "hv_ok env w hv"
  shows "hv_map hv key = (case lookup hv key of None \<Rightarrow> None | Some e \<Rightarrow> seen (he_val e))"
proof (cases "lookup hv key")
  case None
  have "live (hv_entries hv) key = None"
    using None[unfolded lookup_None hv_legal_def] by (rule live_out)
  then show ?thesis unfolding hv_map_def None option.case .
next
  case (Some e)
  then have "e \<in> set (hv_entries hv)" "he_key e = key"
    using find_SomeD[OF Some[unfolded lookup_def]] by simp_all
  with live_in[OF tbl_okD(2)[OF hv_okD(1)[OF assms]], of e] show ?thesis unfolding hv_map_def Some option.case by metis
qed

lemma hv_common_form:
  assumes ok: "hv_ok env w hv" and g: "good_hash env k hash" and d: "\<not> has action HV_DELETE"
    and st: "HvARRAY hv \<noteq> None \<or> has action (HV_FETCH_LVALUE OR HV_FETCH_ISSTORE)"
    and hv0: "hv0 = hv\<lparr>HvARRAY := Some (arr hv)\<rparr>"
  shows "hv_common env w hv k action val hash =
    (if HvARRAY hv = None \<and> \<not> newx (e_alloc env) ((HvMAX hv + 1) * 8) 1 then Inl Out_of_memory
     else let key = key_bytes k; h = hash_fun env hv key; flags = flags_for hv k
       in case lookup hv key of
         Some entry \<Rightarrow> hv_found env w hv0 (arr hv) entry key h (flags AND HVhek_MASK) action val
       | None \<Rightarrow>
           if HvRESTRICTED hv \<and> \<not> has action HV_FETCH_ISEXISTS then Inl (Disallowed_key key)
           else if \<not> has action (HV_FETCH_LVALUE OR HV_FETCH_ISSTORE) then Inr (Ret_null, w, hv0)
           else let (val, w) = (if has action HV_FETCH_LVALUE then newSV w else (val, w))
             in hv_insert env w hv0 (arr hv) key h flags action val)"
proof -
  have st': "\<not> (HvARRAY hv = None \<and> \<not> has action (HV_FETCH_LVALUE OR HV_FETCH_ISSTORE))" using st by blast
  have a: "(case HvARRAY hv of None \<Rightarrow> replicate (HvMAX hv + 1) [] | Some a \<Rightarrow> a) = arr hv" by (simp add: arr_def)
  have k: "key_hash env hv0 k hash = hash_fun env hv (key_bytes k)"
    unfolding key_hash_good[OF g] by (simp add: hash_fun_def hv0)
  have m: "HvMAX hv0 = HvMAX hv" "HvRESTRICTED hv0 = HvRESTRICTED hv" "flags_for hv0 k = flags_for hv k"
    by (simp_all add: hv0 flags_for_def)
  have c: "find (key_matches (hash_fun env hv (key_bytes k)) (key_bytes k))
      (arr hv ! bucket_of (hash_fun env hv (key_bytes k)) (HvMAX hv)) = lookup hv (key_bytes k)"
    by (rule chain_lookup[OF ok refl])
  show ?thesis
    unfolding hv_common_def if_not_P[OF d] if_not_P[OF st'] a hv0[symmetric] Let_def k m c by (rule refl)
qed

section \<open>The only failures are lack of memory and refused keys\<close>

text \<open>Memory enough for keys up to \<open>2 ^ 31\<close> bytes.\<close>

definition roomy_for_keys :: "allocator \<Rightarrow> bool" where
  "roomy_for_keys m \<longleftrightarrow> (\<forall>n \<le> 2 ^ 33 + 40. newx m n 1)"

definition short_key :: "u8 list \<Rightarrow> bool" where
  "short_key key \<longleftrightarrow> length key < 2 ^ 31"

lemma roomy_key: "roomy_for_keys m \<Longrightarrow> short_key str \<Longrightarrow> newx m (32 + length str + 2) 1 \<and> newx m (HEK_BASESIZE + length str + 2) 1"
  by (auto simp: roomy_for_keys_def short_key_def HEK_BASESIZE_def)

lemma share_hek_flags_error:
  "share_hek_flags m st str hash flags = Inl e \<Longrightarrow> e = Out_of_memory \<and> \<not> (roomy_for_keys m \<and> short_key str)"
  using roomy_key by (auto simp: share_hek_flags_def Let_def split: option.splits if_splits)

lemma save_hek_flags_error:
  "save_hek_flags m str hash flags = Inl e \<Longrightarrow> e = Out_of_memory \<and> \<not> (roomy_for_keys m \<and> short_key str)"
  using roomy_key by (auto simp: save_hek_flags_def split: if_splits)

lemma rehash_entries_error:
  "rehash_entries env s m es a fill w = Inl e \<Longrightarrow>
   e = Out_of_memory \<and> \<not> (roomy_for_keys (e_alloc env) \<and> (\<forall>d \<in> set es. short_key (he_key d)))"
proof (induction es arbitrary: a fill w)
  case (Cons x es)
  show ?case
    using Cons.prems Cons.IH by (cases s) (auto simp: Let_def bind_result_Inl bind_result_Inr dest: save_hek_flags_error)
qed simp

lemma rehash_error:
  "rehash env w hv a = Inl e \<Longrightarrow> newx (e_alloc env) (array_bytes hv (HvMAX hv + 1)) 1 \<Longrightarrow>
   e = Out_of_memory \<and> \<not> (roomy_for_keys (e_alloc env) \<and> (\<forall>d \<in> set (concat a). short_key (he_key d)))"
proof -
  assume r: "rehash env w hv a = Inl e" and n: "newx (e_alloc env) (array_bytes hv (HvMAX hv + 1)) 1"
  have "rehash_entries env (HvSHAREKEYS hv) (HvMAX hv) (concat a) (replicate (HvMAX hv + 1) []) 0 w = Inl e"
    using r n by (auto simp: rehash_def bind_result_Inl simp del: replicate.simps split: if_splits prod.splits)
  then show ?thesis by (rule rehash_entries_error)
qed

abbreviation short_keys :: "hv \<Rightarrow> bool" where
  "short_keys hv \<equiv> \<forall>key \<in> hv_legal hv. short_key key"

lemma hsplit_array_error:
  assumes ok: "hv_ok env w hv" and a: "HvARRAY hv \<noteq> None" and s: "hsplit_array env w hv = Inl e"
  shows "e = Out_of_memory \<and> \<not> (roomy_for_keys (e_alloc env) \<and> short_keys hv)"
proof -
  note h = hv_okD[OF ok]
  from a obtain b where b: "HvARRAY hv = Some b" by blast
  then have ab: "arr hv = b" by (simp add: arr_def)
  let ?b = "split_upto b (length b)"
  from split_array_form[of "HvFILL hv" b] h(3) ab obtain longest where
    sp: "split_array b (HvFILL hv) = (?b, fill_count ?b, longest)" by auto
  let ?hv = "hv\<lparr>HvARRAY := Some ?b, HvFILL := fill_count ?b, HvMAX := (HvMAX hv + 1) * 2 - 1\<rparr>"
  have r: "rehash env w ?hv ?b = Inl e" "newx (e_alloc env) (array_bytes hv ((HvMAX hv + 1) * 2)) 1"
    using s b sp by (auto simp: hsplit_array_def Let_def split: if_splits)
  have "array_bytes ?hv (HvMAX ?hv + 1) = array_bytes hv ((HvMAX hv + 1) * 2)" by (simp add: array_bytes_def)
  moreover have "set (concat ?b) = set (hv_entries hv)" unfolding ab by (rule mset_eq_setD[OF mset_split])
  ultimately show ?thesis
    using rehash_error[OF r(1)] r(2) unfolding hv_legal_def by (metis imageI)
qed

lemma hsplit_error:
  assumes "hv_ok env w hv" "HvARRAY hv \<noteq> None" "hsplit env w hv = Inl e"
  shows "e = Out_of_memory \<and> \<not> (roomy_for_keys (e_alloc env) \<and> short_keys hv)"
proof (cases "HvPLACEHOLDERS hv \<noteq> 0 \<and> \<not> HvRESTRICTED hv")
  case False
  with assms hsplit_array_error[of env w hv e] show ?thesis by (auto simp: hsplit_def)
next
  case True
  from hv_clear_placeholders_ok[OF assms(1)] obtain w1 hv1 where
    c: "hv_clear_placeholders env w hv = Inr (w1, hv1)" "HvARRAY hv = None \<longleftrightarrow> HvARRAY hv1 = None"
      "hv_ok env w1 hv1" "hv_entries hv1 = filter no_ph (hv_entries hv)" by auto
  have "hv_legal hv1 \<subseteq> hv_legal hv" unfolding hv_legal_def c(4) by auto
  then show ?thesis using assms True c(1,2) hsplit_array_error[OF c(3), of e] by (auto simp: hsplit_def)
qed

lemma swap_key_error:
  "swap_key env w hv e key hash masked = Inl er \<Longrightarrow> er = Out_of_memory \<and> \<not> (roomy_for_keys (e_alloc env) \<and> short_key key)"
  by (auto simp: swap_key_def bind_result_Inl dest: share_hek_flags_error split: if_splits)

lemma hv_found_error:
  "hv_found env w hv a e key hash masked action val = Inl er \<Longrightarrow>
   er = Out_of_memory \<and> \<not> (roomy_for_keys (e_alloc env) \<and> short_key key)"
  by (auto simp: hv_found_def bind_result_Inl Let_def dest: swap_key_error split: if_splits prod.splits)

lemma make_key_error:
  "make_key env w hv key hash flags = Inl e \<Longrightarrow> e = Out_of_memory \<and> \<not> (roomy_for_keys (e_alloc env) \<and> short_key key)"
  by (auto simp: make_key_def bind_result_Inl dest: share_hek_flags_error save_hek_flags_error split: if_splits)

section \<open>Reading\<close>

lemma hv_read:
  assumes ok: "hv_ok env w hv" and g: "good_hash env k hash" and d: "\<not> has action HV_DELETE"
    and st: "\<not> has action (HV_FETCH_LVALUE OR HV_FETCH_ISSTORE)"
  shows "hv_common env w hv k action val hash =
    (case lookup hv (key_bytes k) of
       None \<Rightarrow> if HvRESTRICTED hv \<and> \<not> has action HV_FETCH_ISEXISTS \<and> HvARRAY hv \<noteq> None
         then Inl (Disallowed_key (key_bytes k)) else Inr (Ret_null, w, hv)
     | Some e \<Rightarrow> Inr (if is_ph e then Ret_null else ret_entry action (he_addr e), w, hv))"
proof (cases "HvARRAY hv")
  case None
  then have "hv_entries hv = []" by (simp only: arr_def option.case concat_replicate_Nil)
  then have "lookup hv (key_bytes k) = None" by (simp only: lookup_def find.simps)
  with None d st show ?thesis by (simp add: hv_common_def)
next
  case (Some a)
  have hv0: "hv = hv\<lparr>HvARRAY := Some (arr hv)\<rparr>" using Some by (simp add: arr_def)
  have "HvARRAY hv \<noteq> None \<or> has action (HV_FETCH_LVALUE OR HV_FETCH_ISSTORE)" using Some by simp
  from hv_common_form[OF ok g d this hv0, of val] Some st show ?thesis
    by (auto simp: Let_def hv_found_def split: option.split)
qed

lemma ret_entry_not_null [simp]: "ret_entry action addr \<noteq> Ret_null"
  by (simp add: ret_entry_def)

lemma lookup_in: "lookup hv key = Some e \<Longrightarrow> e \<in> set (hv_entries hv) \<and> he_key e = key"
  unfolding lookup_def by (drule find_SomeD) simp

text \<open>A read call gives the entry of a live key, and nothing else.\<close>

lemma hv_read_ok:
  assumes ok: "hv_ok env w hv" and g: "good_hash env k hash" and d: "\<not> has action HV_DELETE"
    and st: "\<not> has action (HV_FETCH_LVALUE OR HV_FETCH_ISSTORE)"
    and r: "hv_common env w hv k action val hash = Inr (r, w', hv')"
  shows "w' = w \<and> hv' = hv \<and>
    (case hv_map hv (key_bytes k) of None \<Rightarrow> r = Ret_null | Some v \<Rightarrow> denotes hv r (key_bytes k) v)"
proof (cases "lookup hv (key_bytes k)")
  case None
  with hv_read[OF assms(1-4), of val] r lookup_map[OF ok, of "key_bytes k"] show ?thesis by (auto split: if_splits)
next
  case (Some e)
  have "(he_addr e, key_bytes k, he_val e) \<in> view ` set (hv_entries hv)"
    using lookup_in[OF Some] by (auto simp: view_def simp del: set_concat intro: rev_image_eqI)
  with Some hv_read[OF assms(1-4), of val] r lookup_map[OF ok, of "key_bytes k"] show ?thesis
    by (auto simp: seen_def denotes_ret_entry simp del: set_concat)
qed

section \<open>Storing\<close>

text \<open>
  The value of the key after the call: an lvalue fetch makes a new one where there is none, a
  store puts its own.
\<close>

definition stored_value :: "u32 \<Rightarrow> hval option \<Rightarrow> hval \<Rightarrow> nat \<Rightarrow> hval" where
  "stored_value action old val fresh =
    (case old of
       None \<Rightarrow> if has action HV_FETCH_LVALUE then Val fresh else val
     | Some v \<Rightarrow> if has action HV_FETCH_ISSTORE then val else v)"

definition taken_value :: "u32 \<Rightarrow> hval option \<Rightarrow> hval \<Rightarrow> nat \<Rightarrow> hval" where
  "taken_value action old val fresh =
    (if old \<noteq> None \<and> \<not> has action HV_FETCH_ISSTORE then Val_null else stored_value action old val fresh)"

lemma new_value_stored:
  "has action HV_FETCH_LVALUE \<or> has action HV_FETCH_ISSTORE \<Longrightarrow>
   new_value action v val fresh = stored_value action (seen v) val fresh \<and>
   taken action v val fresh = taken_value action (seen v) val fresh"
  by (auto simp: new_value_def stored_value_def taken_def taken_value_def seen_def)

lemma hv_write_ok:
  assumes ok: "hv_ok env w hv" and g: "good_hash env k hash" and d: "\<not> has action HV_DELETE"
    and st: "has action (HV_FETCH_LVALUE OR HV_FETCH_ISSTORE)" and m: "bounded_allocator (e_alloc env)"
    and v: "v = stored_value action (hv_map hv (key_bytes k)) val (w_next_sv w)" "v \<noteq> Placeholder"
    and r: "hv_common env w hv k action val hash = Inr (r, w', hv')"
  shows "hv_ok env w' hv' \<and> keeps hv hv' \<and> hv_map hv' = (hv_map hv)(key_bytes k \<mapsto> v) \<and>
    denotes hv' r (key_bytes k) v \<and>
    (HvRESTRICTED hv \<and> \<not> has action HV_FETCH_ISEXISTS \<longrightarrow> key_bytes k \<in> hv_legal hv \<and> hv_legal hv' = hv_legal hv) \<and>
    hv_legal hv' \<subseteq> insert (key_bytes k) (hv_legal hv) \<and> HvARRAY hv' \<noteq> None \<and>
    w_next_sv w' = w_next_sv w + (if hv_map hv (key_bytes k) = None \<and> has action HV_FETCH_LVALUE then 1 else 0) \<and>
    (\<forall>oth L. (HvSHAREKEYS hv \<longrightarrow> HvEITER_get hv = None) \<longrightarrow> acct oth L w hv (mset (hv_entries hv)) \<longrightarrow>
      acct oth (L + counted {#taken_value action (hv_map hv (key_bytes k)) val (w_next_sv w)#}) w' hv'
        (mset (hv_entries hv')))"
proof -
  define hv0 where "hv0 = hv\<lparr>HvARRAY := Some (arr hv)\<rparr>"
  note al = alloc_array[OF ok hv0_def]
  have a0: "HvARRAY hv0 = Some (arr hv)" by (simp add: hv0_def)
  have en: "hv_entries hv0 = hv_entries hv" "hv_map hv0 = hv_map hv" "hv_legal hv0 = hv_legal hv"
    using al unfolding hv_map_def hv_legal_def by simp_all
  have hf: "hash_fun env hv (key_bytes k) = hash_fun env hv0 (key_bytes k)" by (simp add: hash_fun_def hv0_def)
  have mx: "HvMAX hv0 = HvMAX hv" by (simp add: hv0_def)
  have sv: "seen v = Some v" using v(2) by (simp add: seen_def)
  have lv: "has action HV_FETCH_LVALUE \<or> has action HV_FETCH_ISSTORE" using st by (simp add: has_or)
  note form = hv_common_form[OF ok g d disjI2[OF st] hv0_def, of val]
  show ?thesis
  proof (cases "lookup hv (key_bytes k)")
    case (Some e)
    have old: "hv_map hv (key_bytes k) = seen (he_val e)" using lookup_map[OF ok, of "key_bytes k"] Some by simp
    from Some form r have f: "hv_found env w hv0 (arr hv) e (key_bytes k) (hash_fun env hv (key_bytes k))
        (flags_for hv k AND HVhek_MASK) action val = Inr (r, w', hv')"
      by (auto simp: Let_def split: if_splits)
    have fd: "find (key_matches (hash_fun env hv (key_bytes k)) (key_bytes k))
        (arr hv ! bucket_of (hash_fun env hv (key_bytes k)) (HvMAX hv0)) = Some e"
      using chain_lookup[OF ok refl] Some mx by simp
    have v': "v = new_value action (he_val e) val (w_next_sv w)" using v(1) old new_value_stored[OF lv] by simp
    note res = hv_found_store_ok[OF conjunct1[OF al] a0 hf fd st f v' disjI2[OF v(2)]]
    have "key_bytes k \<in> hv_legal hv" using lookup_None[of hv "key_bytes k"] Some by simp
    then show ?thesis
      using res m al en sv unfolding old new_value_stored[OF lv, THEN conjunct2, symmetric]
      by (cases "is_ph e") (simp_all add: keeps_def seen_def subset_insertI)
  next
    case None
    have old: "hv_map hv (key_bytes k) = None" using lookup_map[OF ok, of "key_bytes k"] None by simp
    define w1 where "w1 = (if has action HV_FETCH_LVALUE then w\<lparr>w_next_sv := w_next_sv w + 1\<rparr> else w)"
    from None form r st have f: "hv_insert env w1 hv0 (arr hv) (key_bytes k) (hash_fun env hv (key_bytes k))
        (flags_for hv k) action v = Inr (r, w', hv')" and nr: "\<not> (HvRESTRICTED hv \<and> \<not> has action HV_FETCH_ISEXISTS)"
      by (auto simp: Let_def newSV_def w1_def v(1) old stored_value_def split: if_splits)
    have "hv_ok env w hv0" using al by blast
    then have ok1: "hv_ok env w1 hv0" by (simp add: hv_ok_def w1_def)
    have nl: "key_bytes k \<notin> hv_legal hv0" using None unfolding lookup_None en .
    note res = hv_insert_ok[OF ok1 a0 hf nl m f]
    have tk: "taken_value action None val (w_next_sv w) = v" by (simp add: taken_value_def v(1) old)
    have "acct oth L w1 hv0 E \<longleftrightarrow> acct oth L w hv E" for oth L E
      using alloc_array[OF ok hv0_def, of oth L E] by (simp add: acct_def w1_def)
    moreover have "HvEITER_get hv0 = HvEITER_get hv" by (simp add: hv0_def)
    moreover have sv1: "w_next_sv w1 = w_next_sv w + (if True \<and> has action HV_FETCH_LVALUE then 1 else 0)"
      by (simp add: w1_def)
    ultimately show ?thesis
      using res v(2) sv al sv1 unfolding old tk en by (simp add: keeps_def) (use nr in blast)
  qed
qed

lemma hv_insert_error:
  assumes ok: "hv_ok env w hv" and a: "HvARRAY hv = Some a" and hash: "hash = hash_fun env hv key"
    and f: "key \<notin> hv_legal hv" and m: "bounded_allocator (e_alloc env)"
    and r: "hv_insert env w hv a key hash flags action val = Inl er"
  shows "er = Out_of_memory \<and> \<not> (roomy_for_keys (e_alloc env) \<and> short_key key \<and> short_keys hv)"
  using hv_insert_Inl[OF r]
proof (elim disjE exE conjE)
  fix hek w1 hv1
  assume mk: "make_key env w hv key hash flags = Inr (hek, w1)" and
    hv1: "hv1 = hv\<lparr>HvARRAY := Some (a[bucket_of hash (HvMAX hv) :=
        \<lparr>he_addr = w_next_he w1, he_hek = hek, he_val = val\<rparr> # a ! bucket_of hash (HvMAX hv)]),
      HvPLACEHOLDERS := (if val = Placeholder then HvPLACEHOLDERS hv + 1 else HvPLACEHOLDERS hv),
      HvTOTALKEYS := HvTOTALKEYS hv + 1,
      HvFILL := (if a ! bucket_of hash (HvMAX hv) = [] then HvFILL hv + 1 else HvFILL hv)\<rparr>" and
    s: "hsplit env (w1\<lparr>w_next_he := w_next_he w1 + 1\<rparr>) hv1 = Inl er"
  show ?thesis
    using hsplit_error[OF _ _ s] pushed_ok[OF ok a hash f m mk refl refl hv1 refl] by (auto simp: hv1)
qed (use make_key_error in blast)

lemma hv_write_error:
  assumes ok: "hv_ok env w hv" and g: "good_hash env k hash" and d: "\<not> has action HV_DELETE"
    and st: "has action (HV_FETCH_LVALUE OR HV_FETCH_ISSTORE)" and m: "bounded_allocator (e_alloc env)"
    and r: "hv_common env w hv k action val hash = Inl er"
  shows "er = Out_of_memory \<and>
      \<not> (roomy_for_keys (e_alloc env) \<and> short_key (key_bytes k) \<and> short_keys hv \<and>
        (HvARRAY hv = None \<longrightarrow> newx (e_alloc env) ((HvMAX hv + 1) * 8) 1)) \<or>
    er = Disallowed_key (key_bytes k) \<and> HvRESTRICTED hv \<and> key_bytes k \<notin> hv_legal hv"
proof -
  define hv0 where "hv0 = hv\<lparr>HvARRAY := Some (arr hv)\<rparr>"
  note al = alloc_array[OF ok hv0_def]
  have a0: "HvARRAY hv0 = Some (arr hv)" by (simp add: hv0_def)
  note form = hv_common_form[OF ok g d disjI2[OF st] hv0_def, of val]
  show ?thesis
  proof (cases "lookup hv (key_bytes k)")
    case (Some e)
    with form r show ?thesis by (auto simp: Let_def dest: hv_found_error hv_found_error[OF sym] split: if_splits)
  next
    case None
    have nl: "key_bytes k \<notin> hv_legal hv" using None unfolding lookup_None .
    have lg: "hv_legal hv0 = hv_legal hv" using al unfolding hv_legal_def by simp
    have nl0: "key_bytes k \<notin> hv_legal hv0" using nl unfolding lg .
    have hf: "hash_fun env hv (key_bytes k) = hash_fun env hv0 (key_bytes k)" by (simp add: hash_fun_def hv0_def)
    show ?thesis
    proof (cases "HvRESTRICTED hv \<and> \<not> has action HV_FETCH_ISEXISTS")
      case True
      with None form r nl show ?thesis by (auto simp: Let_def split: if_splits)
    next
      case False
      have "er = Out_of_memory \<and> \<not> (roomy_for_keys (e_alloc env) \<and> short_key (key_bytes k) \<and> short_keys hv)"
        if "hv_insert env w1 hv0 (arr hv) (key_bytes k) (hash_fun env hv (key_bytes k)) fl action v = Inl er"
          "hv_ok env w1 hv0" for w1 fl v
        using hv_insert_error[OF that(2) a0 hf nl0 m that(1)] unfolding lg .
      moreover have "hv_ok env w hv0" using al by blast
      moreover from this have "hv_ok env (w\<lparr>w_next_sv := w_next_sv w + 1\<rparr>) hv0" by (simp add: hv_ok_def)
      ultimately show ?thesis using None False form r st by (auto simp: Let_def newSV_def split: if_splits)
    qed
  qed
qed

end
