(* ===== verification/Hash_Delete.thy ===== *)
theory Hash_Delete
  imports Hash_Ops
begin

text \<open>\<open>hv_delete_common\<close>: the map loses the key, in a restricted hash the key stays legal.\<close>

section \<open>The value taken out of the entry\<close>

text \<open>The entry and the world once the value has been handed out (or not, with \<open>G_DISCARD\<close>).\<close>

definition taken_out :: "u32 \<Rightarrow> hworld \<Rightarrow> hent \<Rightarrow> hv_ret \<times> hent \<times> hworld" where
  "taken_out d_flags w e =
    (if has d_flags G_DISCARD then (Ret_null, e, w)
     else (Ret_sv (he_val e), e\<lparr>he_val := Placeholder\<rparr>, w_add (Mortal (he_val e)) w))"

lemma taken_out_sel:
  assumes "taken_out d_flags w e = (r, e1, w1)"
  shows "he_addr e1 = he_addr e" "he_hek e1 = he_hek e" "w_next_he w1 = w_next_he w" "w_next_sv w1 = w_next_sv w"
    "w_strtab w1 = w_strtab w" "r = (if has d_flags G_DISCARD then Ret_null else Ret_sv (he_val e))"
  using assms by (auto simp: taken_out_def split: if_splits)

lemma taken_out_acct:
  assumes "taken_out d_flags w e = (r, e1, w1)" "acct oth L w hv (add_mset e E)"
  shows "acct oth L w1 hv (add_mset e1 E)"
proof -
  have sa: "same_account hv hv" by (simp add: same_account_def)
  have "acct oth (L + {#}) w1 hv (add_mset e1 E)"
    by (rule acct_value[OF assms(2) sa, where R = "if has d_flags G_DISCARD then {#} else {#he_val e#}"])
      (use assms(1) in \<open>auto simp: taken_out_def released_add split: if_splits\<close>)
  then show ?thesis by simp
qed

lemma hv_delete_form:
  assumes ok: "hv_ok env w hv" and g: "good_hash env k hash" and a: "HvARRAY hv = Some a"
    and key: "key = key_bytes k" and i: "i = bucket_of (hash_fun env hv key) (HvMAX hv)"
    and P: "P = key_matches (hash_fun env hv key) key"
  shows "hv_delete_common env w hv k d_flags hash =
    (case lookup hv key of
       None \<Rightarrow> if HvRESTRICTED hv then Inl (Delete_disallowed key) else Inr (Ret_null, w, hv)
     | Some e \<Rightarrow>
         if is_ph e then Inr (Ret_null, w, hv)
         else if HvREADONLY hv then Inl (Delete_from_readonly key)
         else if HvRESTRICTED hv \<and> sv_readonly env (he_val e) then Inl (Delete_readonly key)
         else (case taken_out d_flags w e of (r, e1, w1) \<Rightarrow>
           if HvRESTRICTED hv then
             Inr (r, w_add (Refcnt_dec (he_val e1)) w1,
               hv\<lparr>HvARRAY := Some (a[i := replace_first P (e1\<lparr>he_val := Placeholder\<rparr>) (a ! i)]),
                  HvPLACEHOLDERS := HvPLACEHOLDERS hv + 1\<rparr>)
           else
             (case free_unlinked env w1
                (hv\<lparr>HvARRAY := Some (a[i := remove_first P (a ! i)]),
                   HvFILL := (if remove_first P (a ! i) = [] then HvFILL hv - 1 else HvFILL hv)\<rparr>)
                e1 (next_addr (after_first P (a ! i))) of
              (w2, hv2) \<Rightarrow> Inr (r, w2, hv2\<lparr>HvTOTALKEYS := HvTOTALKEYS hv2 - 1\<rparr>))))"
proof -
  have "find P (a ! i) = lookup hv key"
    using chain_lookup[OF ok, of "hash_fun env hv key" key] arr_Some[OF a] unfolding P i by simp
  then show ?thesis
    unfolding hv_delete_common_def a option.case Let_def key[symmetric] key_hash_good[OF g, folded key] taken_out_def
    by (auto simp: P[symmetric] i[symmetric] split: option.split prod.split)
qed

section \<open>In a restricted hash\<close>

lemma delete_restricted_ok:
  assumes ok: "hv_ok env w hv" and a: "HvARRAY hv = Some a" and l: "lookup hv key = Some e" and live: "\<not> is_ph e"
    and i: "i = bucket_of (hash_fun env hv key) (HvMAX hv)" and P: "P = key_matches (hash_fun env hv key) key"
    and t: "taken_out d_flags w e = (r, e1, w1)"
    and w': "w' = w_add (Refcnt_dec (he_val e1)) w1"
    and hv': "hv' = hv\<lparr>HvARRAY := Some (a[i := replace_first P (e1\<lparr>he_val := Placeholder\<rparr>) (a ! i)]),
                  HvPLACEHOLDERS := HvPLACEHOLDERS hv + 1\<rparr>"
  shows "hv_ok env w' hv' \<and> keeps hv hv' \<and> hv_map hv' = (hv_map hv)(key := None) \<and> hv_legal hv' = hv_legal hv \<and>
    (\<forall>oth L. acct oth L w hv (mset (hv_entries hv)) \<longrightarrow> acct oth L w' hv' (mset (hv_entries hv')))"
proof -
  note h = hv_okD[OF ok] and ts = taken_out_sel[OF t]
  have aa: "arr hv = a" by (rule arr_Some[OF a])
  have tb: "tbl_ok (hash_fun env hv) (w_next_he w) a" using h(1) aa by simp
  have il: "i < length a" using tbl_bucket[OF tb] h(2) aa unfolding i by simp
  have f: "find P (a ! i) = Some e"
    using chain_lookup[OF ok, of "hash_fun env hv key" key] l aa unfolding P i by simp
  have ek: "he_key e = key" using lookup_in[OF l] by simp
  define e' where "e' = e1\<lparr>he_val := Placeholder\<rparr>"
  have e': "he_addr e' = he_addr e" "he_key e' = he_key e" "he_hash e' = he_hash e" "he_val e' = Placeholder"
    "he_hek e' = he_hek e1"
    using ts by (simp_all add: e'_def)
  let ?a = "a[i := replace_first P e' (a ! i)]"
  have aa': "arr hv' = ?a" by (simp add: arr_def hv' e'_def)
  from table_replace[OF tb il f e'(1-3)] obtain ys where
    ys: "mset (concat a) = mset (e # ys)" "mset (concat ?a) = mset (e' # ys)" and
    tt: "tbl_ok (hash_fun env hv) (w_next_he w) ?a" "fill_count ?a = fill_count a"
      "live (concat ?a) = (live (concat a))(he_key e := None)"
    unfolding e'(4) seen_def by auto
  have st: "g ` set (concat ?a) = g ` set (concat a)" if "g e' = g e" for g :: "hent \<Rightarrow> 'b"
    using that unfolding mset_eq_setD[OF ys(1)] mset_eq_setD[OF ys(2)] by simp
  have lz: "lazy_ok (w_next_he w) hv'"
    by (rule lazy_ok_same[OF h(6)]) (simp_all only: aa aa' st e'(1), simp_all add: hv' HvEITER_get_def)
  have ph: "HvPLACEHOLDERS hv' = ph_count (concat ?a)"
    using h(5) live unfolding aa ph_count_perm[OF ys(1)] ph_count_perm[OF ys(2)] by (simp add: hv' e'(4))
  have sk: "same_keying hv hv'" by (simp add: same_keying_def hv')
  have "hv_ok env w' hv'"
    unfolding hv_ok_def aa' hash_fun_cong[OF sk] using tt(1,2) lz ph h(2-4) ts length_mset[OF ys(1)] length_mset[OF ys(2)]
    by (simp add: aa hv' w' del: set_concat length_concat)
  moreover have "hv_map hv' = (hv_map hv)(key := None)" using tt(3) unfolding hv_map_def aa aa' ek .
  moreover have "hv_legal hv' = hv_legal hv" unfolding hv_legal_def aa aa' by (rule st[OF e'(2)])
  moreover have "acct oth L w' hv' (mset (hv_entries hv'))" if ac: "acct oth L w hv (mset (hv_entries hv))" for oth L
  proof -
    have a1: "acct oth L w1 hv (add_mset e1 (mset ys))"
      using taken_out_acct[OF t, of oth L hv "mset ys"] ac ys(1) unfolding aa by simp
    have sa: "same_account hv hv'" by (simp add: same_account_def hv' HvNAME_HEK_def)
    have "acct oth (L + {#}) w' hv' (add_mset e' (mset ys))"
      by (rule acct_value[OF a1 sa e'(5), where R = "{#he_val e1#}"]) (simp_all add: w' released_add e'(4))
    then show ?thesis unfolding aa' ys(2) by simp
  qed
  ultimately show ?thesis by (simp add: keeps_def hv')
qed

section \<open>In an ordinary hash\<close>

lemma free_unlinked_lazy:
  assumes f: "free_unlinked env w hv e nxt = (w', hv')" and l: "lazy_ok n hv0"
    and s: "HvUNLINKED hv = HvUNLINKED hv0" "HvLAZYDEL hv = HvLAZYDEL hv0" "HvEITER_get hv = HvEITER_get hv0"
    and sub: "he_addr ` set (hv_entries hv) \<subseteq> he_addr ` set (hv_entries hv0)"
    and e: "he_addr e < n" "he_addr e \<notin> he_addr ` set (hv_entries hv)"
  shows "lazy_ok n hv'"
proof (cases "HvEITER_get hv = Some (he_addr e)")
  case True
  with f have hv': "hv' = hv\<lparr>HvLAZYDEL := True, HvUNLINKED := Some (e, nxt)\<rparr>" by (simp add: free_unlinked_def)
  have "arr hv' = arr hv" by (cases "HvARRAY hv") (simp_all add: hv' arr_def)
  then show ?thesis unfolding lazy_ok_def using True e by (simp add: hv')
next
  case False
  with f have "hv' = hv" by (simp add: free_unlinked_def)
  moreover have "lazy_ok n hv"
    by (rule lazy_ok_addr[OF l s]) (use sub in \<open>auto simp del: set_concat\<close>)
  ultimately show ?thesis by simp
qed

lemma delete_plain_ok:
  assumes ok: "hv_ok env w hv" and a: "HvARRAY hv = Some a" and l: "lookup hv key = Some e" and live: "\<not> is_ph e"
    and i: "i = bucket_of (hash_fun env hv key) (HvMAX hv)" and P: "P = key_matches (hash_fun env hv key) key"
    and t: "taken_out d_flags w e = (r, e1, w1)"
    and hv1: "hv1 = hv\<lparr>HvARRAY := Some (a[i := remove_first P (a ! i)]),
                   HvFILL := (if remove_first P (a ! i) = [] then HvFILL hv - 1 else HvFILL hv)\<rparr>"
    and u: "free_unlinked env w1 hv1 e1 nxt = (w', hv2)"
    and hv': "hv' = hv2\<lparr>HvTOTALKEYS := HvTOTALKEYS hv2 - 1\<rparr>"
  shows "hv_ok env w' hv' \<and> keeps hv hv' \<and> hv_map hv' = (hv_map hv)(key := None) \<and> w_next_sv w' = w_next_sv w \<and>
    (\<exists>ys. mset (hv_entries hv) = mset (e # ys) \<and> mset (hv_entries hv') = mset ys) \<and>
    (\<forall>oth L. acct oth L w hv (mset (hv_entries hv)) \<longrightarrow> acct oth L w' hv' (mset (hv_entries hv')))"
proof -
  note h = hv_okD[OF ok] and ts = taken_out_sel[OF t]
  have aa: "arr hv = a" by (rule arr_Some[OF a])
  have tb: "tbl_ok (hash_fun env hv) (w_next_he w) a" using h(1) aa by simp
  have il: "i < length a" using tbl_bucket[OF tb] h(2) aa unfolding i by simp
  have f: "find P (a ! i) = Some e"
    using chain_lookup[OF ok, of "hash_fun env hv key" key] l aa unfolding P i by simp
  have ek: "he_key e = key" "e \<in> set (concat a)" using lookup_in[OF l] unfolding aa by simp_all
  let ?a = "a[i := remove_first P (a ! i)]"
  from table_remove[OF tb il f] obtain ys where
    ys: "mset (concat a) = mset (e # ys)" "mset (concat ?a) = mset ys" and
    tt: "tbl_ok (hash_fun env hv) (w_next_he w) ?a"
      "fill_count ?a = (if remove_first P (a ! i) = [] then fill_count a - 1 else fill_count a)"
      "live (concat ?a) = (live (concat a))(he_key e := None)"
    by blast
  note fr = free_unlinked_frame[OF u]
  then obtain lz un where hv2: "hv2 = hv1\<lparr>HvLAZYDEL := lz, HvUNLINKED := un\<rparr>" by blast
  have aa1: "arr hv1 = ?a" "arr hv2 = ?a" "arr hv' = ?a" by (simp_all add: arr_def hv1 hv2 hv')
  have ne: "he_addr e1 \<notin> he_addr ` set (hv_entries hv1)"
    using tbl_mset(2)[OF tb ys(1)] ts(1) unfolding aa1 mset_eq_setD[OF ys(2)] by simp
  have lz2: "lazy_ok (w_next_he w) hv2"
  proof (rule free_unlinked_lazy[OF u h(6)])
    show "he_addr ` set (hv_entries hv1) \<subseteq> he_addr ` set (hv_entries hv)"
      unfolding aa1 aa mset_eq_setD[OF ys(1)] mset_eq_setD[OF ys(2)] by auto
    show "he_addr e1 < w_next_he w" using tbl_okD(5)[OF tb ek(2)] ts(1) by simp
    show "he_addr e1 \<notin> he_addr ` set (hv_entries hv1)" by (rule ne)
  qed (simp_all add: hv1)
  have lz': "lazy_ok (w_next_he w) hv'"
    by (rule lazy_ok_same[OF lz2]) (simp_all only: aa1, simp_all add: hv' HvEITER_get_def)
  have ph: "HvPLACEHOLDERS hv' = ph_count (concat ?a)"
    using h(5) live unfolding aa ph_count_perm[OF ys(1)] ph_count_perm[OF ys(2)] by (simp add: hv' hv2 hv1)
  have sk: "same_keying hv hv'" by (simp add: same_keying_def hv' hv2 hv1)
  have "hv_ok env w' hv'"
    unfolding hv_ok_def aa1 hash_fun_cong[OF sk] using tt(1,2) lz' ph h(2-4) ts fr length_mset[OF ys(1)] length_mset[OF ys(2)]
    by (simp add: aa hv' hv2 hv1 del: set_concat length_concat)
  moreover have "hv_map hv' = (hv_map hv)(key := None)" using tt(3) unfolding hv_map_def aa aa1 ek .
  moreover have "acct oth L w' hv' (mset (hv_entries hv'))" if ac: "acct oth L w hv (mset (hv_entries hv))" for oth L
  proof -
    have a1: "acct oth L w1 hv (add_mset e1 (mset ys))"
      using taken_out_acct[OF t, of oth L hv "mset ys"] ac ys(1) unfolding aa by simp
    have sa: "same_account hv hv1" "same_account hv2 hv'" by (simp_all add: same_account_def hv1 hv' HvNAME_HEK_def)
    have "HvEITER_get hv1 = Some (he_addr e1) \<Longrightarrow> HvUNLINKED hv1 = None"
      using lazy_ok_in[OF h(6), of e] ek(2) ts(1) unfolding aa by (simp add: hv1 HvEITER_get_def)
    from free_unlinked_acct[OF a1[folded acct_cong[OF sa(1)]] u this]
    show ?thesis unfolding acct_cong[OF sa(2)] aa1 ys(2) .
  qed
  moreover have "keeps hv hv'" by (simp add: keeps_def hv' hv2 hv1)
  moreover have "w_next_sv w' = w_next_sv w" using fr ts by simp
  ultimately show ?thesis using ys unfolding aa aa1 by blast
qed

section \<open>Every branch\<close>

lemma hv_delete_ok:
  assumes ok: "hv_ok env w hv" and g: "good_hash env k hash" and key: "key = key_bytes k"
    and r: "hv_delete_common env w hv k d_flags hash = Inr (r, w', hv')"
  shows "hv_ok env w' hv' \<and> keeps hv hv' \<and> hv_map hv' = (hv_map hv)(key := None) \<and>
    r = (if has d_flags G_DISCARD then Ret_null else (case hv_map hv key of None \<Rightarrow> Ret_null | Some v \<Rightarrow> Ret_sv v)) \<and>
    (HvRESTRICTED hv \<longrightarrow> hv_legal hv' = hv_legal hv) \<and> hv_legal hv' \<subseteq> hv_legal hv \<and>
    (HvARRAY hv' = None \<longleftrightarrow> HvARRAY hv = None) \<and> w_next_sv w' = w_next_sv w \<and>
    (\<forall>oth L. acct oth L w hv (mset (hv_entries hv)) \<longrightarrow> acct oth L w' hv' (mset (hv_entries hv')))"
proof (cases "hv_map hv key")
  case None
  then have "w' = w \<and> hv' = hv \<and> r = Ret_null"
  proof (cases "HvARRAY hv")
    case None
    with r show ?thesis by (simp add: hv_delete_common_def)
  next
    case (Some a)
    from None lookup_map[OF ok, of key] r hv_delete_form[OF ok g Some key refl refl, of d_flags]
    show ?thesis by (auto simp: seen_def split: option.splits if_splits)
  qed
  with None ok show ?thesis by (simp add: keeps_def fun_upd_idem)
next
  case (Some v)
  then obtain e where l: "lookup hv key = Some e" "\<not> is_ph e" "he_val e = v"
    using lookup_map[OF ok, of key] by (auto simp: seen_def split: option.splits if_splits)
  then obtain a where a: "HvARRAY hv = Some a"
    using lookup_in[OF l(1)] by (cases "HvARRAY hv") (auto simp: arr_def)
  obtain r1 e1 w1 where t: "taken_out d_flags w e = (r1, e1, w1)" by (metis prod_cases3)
  note ts = taken_out_sel[OF t]
  note form = hv_delete_form[OF ok g a key refl refl, of d_flags]
  show ?thesis
  proof (cases "HvRESTRICTED hv")
    case True
    with r form l t have r': "r = r1" and w': "w' = w_add (Refcnt_dec (he_val e1)) w1" and
      hv': "hv' = hv\<lparr>HvARRAY := Some (a[bucket_of (hash_fun env hv key) (HvMAX hv) :=
          replace_first (key_matches (hash_fun env hv key) key) (e1\<lparr>he_val := Placeholder\<rparr>)
            (a ! bucket_of (hash_fun env hv key) (HvMAX hv))]), HvPLACEHOLDERS := HvPLACEHOLDERS hv + 1\<rparr>"
      by (auto split: if_splits)
    from delete_restricted_ok[OF ok a l(1,2) refl refl t w' hv'] ts show ?thesis
      using Some l(3) a by (simp add: r' w' hv')
  next
    case False
    with r form l t have "case free_unlinked env w1
        (hv\<lparr>HvARRAY := Some (a[bucket_of (hash_fun env hv key) (HvMAX hv) := remove_first (key_matches (hash_fun env hv key) key)
              (a ! bucket_of (hash_fun env hv key) (HvMAX hv))]),
            HvFILL := (if remove_first (key_matches (hash_fun env hv key) key) (a ! bucket_of (hash_fun env hv key) (HvMAX hv)) = []
              then HvFILL hv - 1 else HvFILL hv)\<rparr>)
        e1 (next_addr (after_first (key_matches (hash_fun env hv key) key) (a ! bucket_of (hash_fun env hv key) (HvMAX hv)))) of
      (w2, hv2) \<Rightarrow> Inr (r1, w2, hv2\<lparr>HvTOTALKEYS := HvTOTALKEYS hv2 - 1\<rparr>) = (Inr (r, w', hv') :: (hv_ret \<times> hworld \<times> hv) result)"
      by (simp split: if_splits prod.splits)
    then obtain hv2 where u: "free_unlinked env w1
        (hv\<lparr>HvARRAY := Some (a[bucket_of (hash_fun env hv key) (HvMAX hv) := remove_first (key_matches (hash_fun env hv key) key)
              (a ! bucket_of (hash_fun env hv key) (HvMAX hv))]),
            HvFILL := (if remove_first (key_matches (hash_fun env hv key) key) (a ! bucket_of (hash_fun env hv key) (HvMAX hv)) = []
              then HvFILL hv - 1 else HvFILL hv)\<rparr>)
        e1 (next_addr (after_first (key_matches (hash_fun env hv key) key) (a ! bucket_of (hash_fun env hv key) (HvMAX hv)))) = (w', hv2)"
      and r': "r1 = r" and hv': "hv' = hv2\<lparr>HvTOTALKEYS := HvTOTALKEYS hv2 - 1\<rparr>"
      by (auto split: prod.splits)
    note dp = delete_plain_ok[OF ok a l(1,2) refl refl t refl u hv']
    from dp have "hv_legal hv' \<subseteq> hv_legal hv"
      unfolding hv_legal_def by (metis image_mono list.set_intros(2) mset_eq_setD subsetI)
    moreover have "HvARRAY hv' \<noteq> None" using u by (auto simp: free_unlinked_def hv' split: if_splits)
    ultimately show ?thesis
      using dp ts(6) Some l(3) False a unfolding r' by simp
  qed
qed

lemma hv_delete_error:
  assumes ok: "hv_ok env w hv" and g: "good_hash env k hash" and key: "key = key_bytes k"
    and r: "hv_delete_common env w hv k d_flags hash = Inl er"
  shows "er = Delete_disallowed key \<and> HvRESTRICTED hv \<and> key \<notin> hv_legal hv \<or>
    er = Delete_from_readonly key \<and> HvREADONLY hv \<and> hv_map hv key \<noteq> None \<or>
    er = Delete_readonly key \<and> HvRESTRICTED hv \<and> (\<exists>v. hv_map hv key = Some v \<and> sv_readonly env v)"
proof (cases "HvARRAY hv")
  case None
  with r show ?thesis by (simp add: hv_delete_common_def)
next
  case (Some a)
  from r hv_delete_form[OF ok g Some key refl refl, of d_flags] lookup_map[OF ok, of key] lookup_None[of hv key]
  show ?thesis
    by (auto simp: seen_def Let_def split: option.splits if_splits prod.splits)
qed

end
