(* ===== verification/Hash_Whole.thy ===== *)
theory Hash_Whole
  imports Hash_Delete
begin

text \<open>
  The auxiliary structure of a hash, and the operations on a hash as a whole: \<open>hfreeentries\<close>,
  \<open>hv_clear\<close>, \<open>hv_undef\<close> and the counting of references (\<open>hv_tmprefcnt\<close>). The lemmas show
  that clearing and undefining leave a well-formed empty hash and give back every key and value, and
  that clearing a restricted hash turns its keys into placeholders or stops at the first
  value that must not be deleted.
\<close>

section \<open>The auxiliary structure\<close>

definition aux0 :: hv_aux where
  "aux0 = \<lparr>aux_name = None, aux_backreferences = None, aux_eiter = None, aux_riter = -1, aux_mro_meta = None\<rparr>"

text \<open>\<open>hv_auxinit\<close>: the structure lies behind the buckets, so the array is allocated or grown.\<close>

definition hv_auxinit :: "henv \<Rightarrow> hv \<Rightarrow> hv result" where
  "hv_auxinit env hv =
    (if \<not> newx (e_alloc env) ((HvMAX hv + 1) * 8 + 40) 1 then Inl Out_of_memory
     else Inr (hv\<lparr>HvARRAY := Some (arr hv), HvAUX := Some aux0\<rparr>))"

text \<open>The entry an address stands for: one of the array, or the one that was unlinked.\<close>

definition entry_at :: "hv \<Rightarrow> nat \<Rightarrow> hent option" where
  "entry_at hv addr =
    (case HvUNLINKED hv of
       Some (e, n) \<Rightarrow> if he_addr e = addr then Some e else find (\<lambda>e. he_addr e = addr) (hv_entries hv)
     | None \<Rightarrow> find (\<lambda>e. he_addr e = addr) (hv_entries hv))"

text \<open>
  ``was deleted earlier?'': the entry the iterator is at is freed when \<open>HvLAZYDEL\<close> is on.
\<close>

definition free_lazy :: "henv \<Rightarrow> hworld \<Rightarrow> hv \<Rightarrow> nat option \<Rightarrow> hworld \<times> hv" where
  "free_lazy env w hv oldentry =
    (case oldentry of
       None \<Rightarrow> (w, hv)
     | Some addr \<Rightarrow>
        if HvLAZYDEL hv then
          let w = (case entry_at hv addr of None \<Rightarrow> w | Some e \<Rightarrow> hv_free_ent env hv w e)
          in (w, hv\<lparr>HvLAZYDEL := False, HvUNLINKED := None\<rparr>)
        else (w, hv))"

text \<open>\<open>hv_name_set\<close>; the old name is given back to the string table.\<close>

definition hv_name_set :: "henv \<Rightarrow> hworld \<Rightarrow> hv \<Rightarrow> u8 list option \<Rightarrow> (hworld \<times> hv) result" where
  "hv_name_set env w hv name =
    (if (case name of None \<Rightarrow> False | Some s \<Rightarrow> 2 ^ 31 - 1 < length s) then Inl (Usage ''panic: hv name too long'')
     else if HvAUX hv = None \<and> name = None then Inr (w, hv)
     else bind_result
       (case HvAUX hv of
          Some iter \<Rightarrow>
            Inr (iter, (case aux_name iter of None \<Rightarrow> w | Some h \<Rightarrow> w\<lparr>w_strtab := unshare_hek (w_strtab w) h\<rparr>), hv)
        | None \<Rightarrow> bind_result (hv_auxinit env hv) (\<lambda>hv. Inr (aux0, w, hv)))
       (\<lambda>(iter, w, hv).
         case name of
           None \<Rightarrow> Inr (w, hv\<lparr>HvAUX := Some (iter\<lparr>aux_name := None\<rparr>)\<rparr>)
         | Some s \<Rightarrow>
            bind_result (share_hek (e_alloc env) (w_strtab w) s (perl_hash (e_hash_seed env) s))
              (\<lambda>(h, st). Inr (w\<lparr>w_strtab := st\<rparr>, hv\<lparr>HvAUX := Some (iter\<lparr>aux_name := Some h\<rparr>)\<rparr>))))"


definition hv_kill_backrefs :: "hworld \<Rightarrow> hv \<Rightarrow> hworld \<times> hv" where
  "hv_kill_backrefs w hv =
    (case HvAUX hv of
       None \<Rightarrow> (w, hv)
     | Some iter \<Rightarrow>
        (case aux_backreferences iter of
           None \<Rightarrow> (w, hv)
         | Some av \<Rightarrow> (w_add (Kill_backrefs av) w, hv\<lparr>HvAUX := Some (iter\<lparr>aux_backreferences := None\<rparr>)\<rparr>)))"

section \<open>Freeing all entries\<close>

text \<open>
  The part of the loop of \<open>hfreeentries\<close> that empties the auxiliary structure; the name
  has been taken out of it before.
\<close>

definition drop_aux :: "henv \<Rightarrow> hworld \<Rightarrow> hv \<Rightarrow> hv_aux \<Rightarrow> hworld \<times> hv" where
  "drop_aux env w hv iter =
    (let w = (case aux_backreferences iter of
           None \<Rightarrow> w
         | Some av \<Rightarrow> w_add (Dec_container av) (if e_av_empty env av then w else w_add (Backref_magic av) w));
         (w, hv) = free_lazy env w (hv\<lparr>HvAUX := Some (iter\<lparr>aux_name := None\<rparr>)\<rparr>) (aux_eiter iter);
         w = (case aux_mro_meta iter of
           None \<Rightarrow> w
         | Some (linear, nextmethod) \<Rightarrow>
             let w = (case linear of None \<Rightarrow> w | Some av \<Rightarrow> w_add (Dec_container av) w)
             in (case nextmethod of None \<Rightarrow> w | Some h \<Rightarrow> w_add (Dec_container h) w))
     in (w, hv\<lparr>HvAUX := None\<rparr>))"

text \<open>
  Destructors do not add entries while the hash is being freed, so the loop goes round once.
  The array is the old one afterwards: its callers zero or free it.
\<close>

definition hfreeentries :: "henv \<Rightarrow> hworld \<Rightarrow> hv \<Rightarrow> hworld \<times> hv" where
  "hfreeentries env w hv =
    (case HvARRAY hv of
       None \<Rightarrow> (w, hv)
     | Some orig_array \<Rightarrow>
         let name = HvNAME_HEK hv;
             (w, hv) = (case HvAUX hv of None \<Rightarrow> (w, hv) | Some iter \<Rightarrow> drop_aux env w hv iter);
             hv = hv\<lparr>HvARRAY := None, HvFILL := 0, HvTOTALKEYS := 0\<rparr>;
             w = foldl (hv_free_ent env hv) w (concat (rev orig_array));
             hv = hv\<lparr>HvARRAY := Some orig_array\<rparr>
         in (w, if name \<noteq> None then hv\<lparr>HvAUX := Some (aux0\<lparr>aux_name := name\<rparr>)\<rparr> else hv))"

section \<open>\<open>hv_clear\<close>\<close>

text \<open>
  The loop over a chain of a restricted hash: what it dies with, the world, the number of placeholders
  and the chain. The test of the value's flags is the one of the code, \<open>HvRESTRICTED(HeVAL(entry))\<close>.
\<close>

definition flag_restricted :: "henv \<Rightarrow> hval \<Rightarrow> bool" where
  "flag_restricted env val = (case val of Val v \<Rightarrow> e_flag_restricted env v | _ \<Rightarrow> False)"

fun hide_chain :: "henv \<Rightarrow> hworld \<Rightarrow> nat \<Rightarrow> hent list \<Rightarrow> croak option \<times> hworld \<times> nat \<times> hent list" where
  "hide_chain env w ph [] = (None, w, ph, [])"
| "hide_chain env w ph (entry # rest) =
    (if he_val entry \<noteq> Placeholder then
       if flag_restricted env (he_val entry) then (Some (Delete_readonly (he_key entry)), w, ph, entry # rest)
       else (case hide_chain env (w_add (Refcnt_dec (he_val entry)) w) (ph + 1) rest of
         (er, w, ph, rest) \<Rightarrow> (er, w, ph, entry\<lparr>he_val := Placeholder\<rparr> # rest))
     else (case hide_chain env w ph rest of (er, w, ph, rest) \<Rightarrow> (er, w, ph, entry # rest)))"

fun hide_buckets :: "henv \<Rightarrow> hworld \<Rightarrow> nat \<Rightarrow> hent list list \<Rightarrow> croak option \<times> hworld \<times> nat \<times> hent list list" where
  "hide_buckets env w ph [] = (None, w, ph, [])"
| "hide_buckets env w ph (c # cs) =
    (case hide_chain env w ph c of
       (Some er, w, ph, c) \<Rightarrow> (Some er, w, ph, c # cs)
     | (None, w, ph, c) \<Rightarrow> (case hide_buckets env w ph cs of (er, w, ph, cs) \<Rightarrow> (er, w, ph, c # cs)))"

text \<open>The label \<open>reset\<close>.\<close>

definition clear_reset :: "hworld \<Rightarrow> hv \<Rightarrow> hworld \<times> hv" where
  "clear_reset w hv =
    (case HvAUX hv of
       None \<Rightarrow> (w, hv)
     | Some iter \<Rightarrow>
        (if aux_name iter \<noteq> None then w_add Isa_changed w else w, hv\<lparr>HvAUX := Some (iter\<lparr>aux_eiter := None\<rparr>)\<rparr>))"

text \<open>What it dies with, if it does, and the state it leaves.\<close>

definition hv_clear :: "henv \<Rightarrow> hworld \<Rightarrow> hv \<Rightarrow> croak option \<times> hworld \<times> hv" where
  "hv_clear env w hv =
    (if HvRESTRICTED hv \<and> HvARRAY hv \<noteq> None then
       (case hide_buckets env w (HvPLACEHOLDERS hv) (arr hv) of
          (Some er, w, ph, a) \<Rightarrow> (Some er, w, hv\<lparr>HvARRAY := Some a, HvPLACEHOLDERS := ph\<rparr>)
        | (None, w, ph, a) \<Rightarrow> (None, clear_reset w (hv\<lparr>HvARRAY := Some a, HvPLACEHOLDERS := ph\<rparr>)))
     else
       (case hfreeentries env w hv of (w, hv) \<Rightarrow>
          (None, clear_reset w
            (hv\<lparr>HvPLACEHOLDERS := 0,
               HvARRAY := (if HvARRAY hv = None then None else Some (replicate (HvMAX hv + 1) [])),
               HvREHASH := False\<rparr>))))"

section \<open>\<open>hv_undef\<close>\<close>

definition hv_undef :: "henv \<Rightarrow> hworld \<Rightarrow> hv \<Rightarrow> (hworld \<times> hv) result" where
  "hv_undef env w hv =
    (let name = HvNAME_HEK hv;
         w = (if name \<noteq> None \<and> \<not> e_dirty env then w_add Isa_changed w else w);
         (w, hv) = hfreeentries env w hv
     in bind_result
       (case name of
          None \<Rightarrow> Inr (w, hv)
        | Some n \<Rightarrow> hv_name_set env (if e_stashcache env then w_add (Stashcache_delete n) w else w) hv None)
       (\<lambda>(w, hv). Inr (w, hv\<lparr>HvAUX := None, HvARRAY := None, HvMAX := 7, HvPLACEHOLDERS := 0\<rparr>)))"

section \<open>\<open>hv_tmprefcnt\<close>\<close>

datatype tmp_ref = Tmp_container nat | Tmp_sv hval

definition tmp_inc :: "nat option \<Rightarrow> tmp_ref list" where
  "tmp_inc av = (case av of None \<Rightarrow> [] | Some n \<Rightarrow> [Tmp_container n])"

text \<open>The references that are counted, in order.\<close>

definition hv_tmprefcnt :: "hv \<Rightarrow> tmp_ref list" where
  "hv_tmprefcnt hv =
    (case HvAUX hv of
       None \<Rightarrow> []
     | Some iter \<Rightarrow>
         tmp_inc (aux_backreferences iter) @
         (case aux_eiter iter of
            None \<Rightarrow> []
          | Some addr \<Rightarrow>
              if HvLAZYDEL hv then (case entry_at hv addr of None \<Rightarrow> [] | Some e \<Rightarrow> [Tmp_sv (he_val e)]) else []) @
         (case aux_mro_meta iter of None \<Rightarrow> [] | Some (linear, nextmethod) \<Rightarrow> tmp_inc linear @ tmp_inc nextmethod)) @
    (case HvARRAY hv of None \<Rightarrow> [] | Some array \<Rightarrow> map (Tmp_sv \<circ> he_val) (concat (rev array)))"

section \<open>What freeing all entries does\<close>

lemma free_lazy_acct:
  assumes lz: "lazy_ok n0 hv"
    and f: "free_lazy env w hv (HvEITER_get hv) = (w1, hv1)"
  shows "HvUNLINKED hv1 = None \<and> \<not> HvLAZYDEL hv1 \<and> w_next_he w1 = w_next_he w \<and> w_next_sv w1 = w_next_sv w \<and>
    hv1 = hv\<lparr>HvLAZYDEL := False, HvUNLINKED := None\<rparr> \<and>
    (\<forall>oth L E. acct oth L w hv E \<longrightarrow> acct oth L w1 hv1 E)"
proof (cases "HvUNLINKED hv")
  case None
  then have "\<not> HvLAZYDEL hv" using lz by (simp add: lazy_ok_def)
  then have "w1 = w \<and> hv1 = hv" "hv = hv\<lparr>HvLAZYDEL := False, HvUNLINKED := None\<rparr>"
    using f None by (auto simp: free_lazy_def split: option.splits)
  then show ?thesis using None \<open>\<not> HvLAZYDEL hv\<close> by simp
next
  case (Some u)
  obtain e n where u: "u = (e, n)" by (cases u)
  then have l: "HvLAZYDEL hv" "HvEITER_get hv = Some (he_addr e)"
    using lz Some by (simp_all add: lazy_ok_def)
  then have w1: "w1 = hv_free_ent env hv w e" and hv1: "hv1 = hv\<lparr>HvLAZYDEL := False, HvUNLINKED := None\<rparr>"
    using f Some u by (simp_all add: free_lazy_def entry_at_def)
  have "acct oth L w1 hv1 E" if "acct oth L w hv E" for oth L E
  proof -
    let ?hv = "hv\<lparr>HvUNLINKED := None\<rparr>"
    have h: "held_entries ?hv (add_mset e E) = held_entries hv E" "held_entries ?hv E = E"
      by (simp_all add: held_entries_def Some u)
    have "acct oth L w ?hv (add_mset e E)"
      using that unfolding acct_def hek_uses_def h by simp
    from hv_free_ent_acct[OF this, of env] have "acct oth L (hv_free_ent env ?hv w e) ?hv E" .
    moreover have "hv_free_ent env ?hv w e = w1" by (simp add: w1 hv_free_ent_def Let_def)
    moreover have "same_account ?hv hv1" by (simp add: same_account_def hv1)
    ultimately show ?thesis by (simp add: acct_cong)
  qed
  then show ?thesis by (simp add: hv1 w1)
qed

lemma free_all_acct:
  assumes "acct oth L w hv (mset es + E)"
  shows "acct oth L (foldl (hv_free_ent env hv) w es) hv E"
  using assms
proof (induction es arbitrary: w)
  case (Cons e es)
  then have "acct oth L (hv_free_ent env hv w e) hv (mset es + E)" by (intro hv_free_ent_acct) simp
  from Cons.IH[OF this] show ?case by simp
qed simp

lemma free_all_frame:
  "w_next_he (foldl (hv_free_ent env hv) w es) = w_next_he w \<and> w_next_sv (foldl (hv_free_ent env hv) w es) = w_next_sv w"
  by (induction es arbitrary: w) simp_all

lemma mset_concat_rev: "mset (concat (rev xs)) = mset (concat xs)"
  by (induction xs) (simp_all add: add.commute)

text \<open>Events that release no value.\<close>

lemma acct_w_add:
  assumes "released (w_log w @ [ev]) = released (w_log w)"
  shows "acct oth L (w_add ev w) hv E = acct oth L w hv E"
  using assms by (simp add: acct_def)

lemma acct_containers [simp]:
  "acct oth L (w_add (Dec_container n) w) hv E = acct oth L w hv E"
  "acct oth L (w_add (Backref_magic n) w) hv E = acct oth L w hv E"
  "acct oth L (w_add Isa_changed w) hv E = acct oth L w hv E"
  "acct oth L (w_add (Stashcache_delete h) w) hv E = acct oth L w hv E"
  by (rule acct_w_add, simp add: released_add)+

text \<open>The name is set aside, with the one reference it holds.\<close>

definition name_use :: "hek option \<Rightarrow> hek \<Rightarrow> nat" where
  "name_use name h = (if name = Some h then 1 else 0)"

lemma acct_rename:
  assumes "acct oth L w hv E" "HvSHAREKEYS hv' = HvSHAREKEYS hv" "HvUNLINKED hv' = HvUNLINKED hv"
  shows "acct (\<lambda>h. oth' h) L w hv' E \<longleftrightarrow>
    (\<forall>h. oth' h + name_use (HvNAME_HEK hv') h = oth h + name_use (HvNAME_HEK hv) h)"
  using assms unfolding acct_def hek_uses_def held_entries_def name_use_def by auto


lemma drop_aux_ok:
  assumes lz: "lazy_ok n hv" and iter: "HvAUX hv = Some iter" and d: "drop_aux env w hv iter = (w', hv')"
  shows "hv' = hv\<lparr>HvAUX := None, HvLAZYDEL := False, HvUNLINKED := None\<rparr> \<and>
    w_next_he w' = w_next_he w \<and> w_next_sv w' = w_next_sv w \<and>
    (\<forall>oth L E. acct oth L w hv E \<longrightarrow> acct (\<lambda>h. oth h + name_use (HvNAME_HEK hv) h) L w' hv' E)"
proof -
  define w0 where "w0 = (case aux_backreferences iter of
      None \<Rightarrow> w
    | Some av \<Rightarrow> w_add (Dec_container av) (if e_av_empty env av then w else w_add (Backref_magic av) w))"
  define hv0 where "hv0 = hv\<lparr>HvAUX := Some (iter\<lparr>aux_name := None\<rparr>)\<rparr>"
  obtain w1 hv1 where f: "free_lazy env w0 hv0 (aux_eiter iter) = (w1, hv1)" by fastforce
  have ei: "HvEITER_get hv0 = aux_eiter iter" "HvEITER_get hv = aux_eiter iter"
    by (simp_all add: hv0_def HvEITER_get_def iter)
  have aa: "arr hv0 = arr hv" by (cases "HvARRAY hv") (simp_all add: arr_def hv0_def)
  have "lazy_ok n hv0"
    by (rule lazy_ok_same[OF lz]) (simp_all only: ei aa, simp_all add: hv0_def)
  from free_lazy_acct[OF this, of env w0 w1 hv1] f ei
  have fr: "hv1 = hv0\<lparr>HvLAZYDEL := False, HvUNLINKED := None\<rparr>" "w_next_he w1 = w_next_he w0" "w_next_sv w1 = w_next_sv w0"
    "\<And>oth L E. acct oth L w0 hv0 E \<Longrightarrow> acct oth L w1 hv1 E" by auto
  from d f have hv': "hv' = hv1\<lparr>HvAUX := None\<rparr>" and w': "w_next_he w' = w_next_he w1" "w_next_sv w' = w_next_sv w1"
    and ac': "acct oth L w' hv' E = acct oth L w1 hv' E" for oth L E
    unfolding drop_aux_def w0_def[symmetric] hv0_def[symmetric]
    by (auto simp: Let_def split: option.splits prod.splits)
  have "acct (\<lambda>h. oth h + name_use (HvNAME_HEK hv) h) L w' hv' E" if ac: "acct oth L w hv E" for oth L E
  proof -
    have nm: "HvNAME_HEK hv0 = None" by (simp add: HvNAME_HEK_def hv0_def)
    have "acct oth L w0 hv E" using ac by (auto simp: w0_def split: option.split)
    then have "acct (\<lambda>h. oth h + name_use (HvNAME_HEK hv) h) L w0 hv0 E"
      by (subst acct_rename[of oth L w0 hv E hv0]) (simp_all add: hv0_def, simp add: nm[unfolded hv0_def] name_use_def)
    then have "acct (\<lambda>h. oth h + name_use (HvNAME_HEK hv) h) L w1 hv1 E" by (rule fr(4))
    moreover have "same_account hv1 hv'" using nm by (simp add: same_account_def hv' fr(1) HvNAME_HEK_def)
    ultimately show ?thesis unfolding ac' by (simp add: acct_cong)
  qed
  then show ?thesis using fr(2,3) w' by (simp add: hv' fr(1) hv0_def w0_def split: option.split)
qed

text \<open>A hash without an array has no auxiliary structure: it is allocated behind the buckets.\<close>

definition aux_behind :: "hv \<Rightarrow> bool" where
  "aux_behind hv \<longleftrightarrow> (HvARRAY hv = None \<longrightarrow> HvAUX hv = None)"

lemma no_iter_no_lazy: "lazy_ok n hv \<Longrightarrow> HvAUX hv = None \<Longrightarrow> HvUNLINKED hv = None \<and> \<not> HvLAZYDEL hv"
  by (auto simp: lazy_ok_def HvEITER_get_def split: option.splits)

lemma hfreeentries_ok:
  assumes ok: "hv_ok env w hv" and b: "aux_behind hv" and h: "hfreeentries env w hv = (w', hv')"
  shows "hv' = hv\<lparr>HvFILL := 0, HvTOTALKEYS := 0, HvLAZYDEL := False, HvUNLINKED := None,
      HvAUX := (if HvNAME_HEK hv \<noteq> None then Some (aux0\<lparr>aux_name := HvNAME_HEK hv\<rparr>) else None)\<rparr> \<and>
    w_next_he w' = w_next_he w \<and> w_next_sv w' = w_next_sv w \<and>
    (\<forall>oth L. acct oth L w hv (mset (hv_entries hv)) \<longrightarrow> acct oth L w' hv' {#})"
proof (cases "HvARRAY hv")
  case None
  have e: "hv_entries hv = []" unfolding arr_def None option.case by (rule concat_replicate_Nil)
  have ax: "HvAUX hv = None" using b None by (simp add: aux_behind_def)
  have nm: "HvNAME_HEK hv = None" by (simp add: HvNAME_HEK_def ax)
  have "HvFILL hv = 0" using hv_okD(3)[OF ok] unfolding arr_def None option.case fill_count_replicate .
  moreover have "HvTOTALKEYS hv = 0" using hv_okD(4)[OF ok] unfolding e by simp
  ultimately show ?thesis
    using h None ax nm no_iter_no_lazy[OF hv_okD(6)[OF ok] ax] unfolding e by (auto simp: hfreeentries_def)
next
  case (Some a)
  have aa: "arr hv = a" by (rule arr_Some[OF Some])
  obtain w1 hv1 where d: "(case HvAUX hv of None \<Rightarrow> (w, hv) | Some iter \<Rightarrow> drop_aux env w hv iter) = (w1, hv1)"
    by fastforce
  have fr: "hv1 = hv\<lparr>HvAUX := None, HvLAZYDEL := False, HvUNLINKED := None\<rparr> \<and>
    w_next_he w1 = w_next_he w \<and> w_next_sv w1 = w_next_sv w \<and>
    (\<forall>oth L E. acct oth L w hv E \<longrightarrow> acct (\<lambda>h. oth h + name_use (HvNAME_HEK hv) h) L w1 hv1 E)"
  proof (cases "HvAUX hv")
    case None
    with d no_iter_no_lazy[OF hv_okD(6)[OF ok] None] show ?thesis by (auto simp: name_use_def HvNAME_HEK_def)
  next
    case (Some iter)
    with drop_aux_ok[OF hv_okD(6)[OF ok] Some] d show ?thesis by auto
  qed
  define hv2 where "hv2 = hv1\<lparr>HvARRAY := None, HvFILL := 0, HvTOTALKEYS := 0\<rparr>"
  have w': "w' = foldl (hv_free_ent env hv2) w1 (concat (rev a))"
    and hv': "hv' = (if HvNAME_HEK hv \<noteq> None then hv2\<lparr>HvARRAY := Some a, HvAUX := Some (aux0\<lparr>aux_name := HvNAME_HEK hv\<rparr>)\<rparr>
      else hv2\<lparr>HvARRAY := Some a\<rparr>)"
    using h Some d by (auto simp: hfreeentries_def Let_def hv2_def)
  have nm: "HvNAME_HEK hv1 = None" "HvNAME_HEK hv' = HvNAME_HEK hv" using fr
    by (auto simp: HvNAME_HEK_def hv' hv2_def)
  have "acct oth L w' hv' {#}" if ac: "acct oth L w hv (mset (hv_entries hv))" for oth L
  proof -
    have "acct (\<lambda>h. oth h + name_use (HvNAME_HEK hv) h) L w1 hv1 (mset (hv_entries hv))" using fr ac by blast
    moreover have "same_account hv1 hv2" by (simp add: same_account_def hv2_def)
    ultimately have "acct (\<lambda>h. oth h + name_use (HvNAME_HEK hv) h) L w1 hv2 (mset (concat (rev a)) + {#})"
      unfolding mset_concat_rev aa by (simp add: acct_cong)
    from free_all_acct[OF this] have a2: "acct (\<lambda>h. oth h + name_use (HvNAME_HEK hv) h) L w' hv2 {#}" unfolding w' .
    have s: "HvSHAREKEYS hv' = HvSHAREKEYS hv2" "HvUNLINKED hv' = HvUNLINKED hv2" by (simp_all add: hv')
    have "HvNAME_HEK hv2 = None" using nm(1) by (simp add: hv2_def)
    then show ?thesis unfolding acct_rename[OF a2 s] nm(2) by (simp add: name_use_def)
  qed
  then show ?thesis using fr free_all_frame[of env hv2 w1] Some
    by (simp add: w' hv' hv2_def)
qed


section \<open>What \<open>hv_clear\<close> and \<open>hv_undef\<close> do\<close>

lemma empty_hv:
  assumes a: "arr hv = replicate (HvMAX hv + 1) []" and c: "HvFILL hv = 0" "HvTOTALKEYS hv = 0" "HvPLACEHOLDERS hv = 0"
    and u: "HvUNLINKED hv = None" "\<not> HvLAZYDEL hv" and k: "HvMAX hv + 1 = 2 ^ k" "k \<le> 30"
  shows "hv_ok env w hv \<and> hv_map hv = Map.empty \<and> hv_legal hv = {}"
proof -
  have e: "hv_entries hv = []" unfolding a by (rule concat_replicate_Nil)
  have "hv_ok env w hv"
    unfolding hv_ok_def e a fill_count_replicate lazy_ok_def u option.case
    using tbl_replicate[OF k] c u by simp
  then show ?thesis by (simp add: hv_map_def hv_legal_def e)
qed

lemma hv_size:
  assumes "hv_ok env w hv"
  obtains k where "HvMAX hv + 1 = 2 ^ k" "k \<le> 30"
  using hv_okD(1,2)[OF assms] unfolding tbl_ok_def by auto

text \<open>\<open>hv_clear\<close> on a hash that is not restricted.\<close>

lemma clear_reset_ok:
  assumes "clear_reset w hv = (w', hv')"
  shows "\<exists>ax. hv' = hv\<lparr>HvAUX := ax\<rparr> \<and> HvNAME_HEK hv' = HvNAME_HEK hv \<and> HvEITER_get hv' = None \<and>
    (ax = None \<longleftrightarrow> HvAUX hv = None) \<and> w_next_he w' = w_next_he w \<and> w_next_sv w' = w_next_sv w \<and>
    (\<forall>oth L E. acct oth L w hv E \<longrightarrow> acct oth L w' hv' E)"
proof -
  define ax where "ax = map_option (\<lambda>iter. iter\<lparr>aux_eiter := None\<rparr>) (HvAUX hv)"
  have h: "hv' = hv\<lparr>HvAUX := ax\<rparr>" and n: "w_next_he w' = w_next_he w" "w_next_sv w' = w_next_sv w"
    and a: "acct oth L w' hv' E = acct oth L w hv' E" for oth L E
    using assms by (auto simp: clear_reset_def ax_def split: option.splits if_splits)
  have nm: "HvNAME_HEK hv' = HvNAME_HEK hv" "HvEITER_get hv' = None" "ax = None \<longleftrightarrow> HvAUX hv = None"
    by (auto simp: h ax_def HvNAME_HEK_def HvEITER_get_def split: option.split)
  have "same_account hv hv'" by (simp add: same_account_def nm(1), simp add: h)
  then show ?thesis using h n a nm acct_cong by (intro exI[of _ ax]) simp
qed

lemma hv_clear_plain:
  assumes ok: "hv_ok env w hv" and b: "aux_behind hv" and r: "\<not> HvRESTRICTED hv \<or> HvARRAY hv = None"
    and c: "hv_clear env w hv = (er, w', hv')"
  shows "er = None \<and> hv_ok env w' hv' \<and> hv_map hv' = Map.empty \<and> hv_legal hv' = {} \<and> \<not> HvREHASH hv' \<and>
    HvMAX hv' = HvMAX hv \<and> (HvARRAY hv' = None \<longleftrightarrow> HvARRAY hv = None) \<and> HvRESTRICTED hv' = HvRESTRICTED hv \<and>
    HvREADONLY hv' = HvREADONLY hv \<and> (HvAUX hv = None \<longrightarrow> HvAUX hv' = None) \<and> HvNAME_HEK hv' = HvNAME_HEK hv \<and>
    w_next_sv w' = w_next_sv w \<and>
    (\<forall>oth L. acct oth L w hv (mset (hv_entries hv)) \<longrightarrow> acct oth L w' hv' (mset (hv_entries hv')))"
proof -
  obtain w1 hv1 where h: "hfreeentries env w hv = (w1, hv1)" by fastforce
  define hv2 where "hv2 = hv1\<lparr>HvPLACEHOLDERS := 0,
      HvARRAY := (if HvARRAY hv1 = None then None else Some (replicate (HvMAX hv1 + 1) [])), HvREHASH := False\<rparr>"
  from c r h have er: "er = None" and rs: "clear_reset w1 hv2 = (w', hv')"
    by (auto simp: hv_clear_def hv2_def)
  note f = hfreeentries_ok[OF ok b h]
  from clear_reset_ok[OF rs] obtain ax where
    r': "hv' = hv2\<lparr>HvAUX := ax\<rparr>" "HvNAME_HEK hv' = HvNAME_HEK hv2" "ax = None \<longleftrightarrow> HvAUX hv2 = None"
      "w_next_he w' = w_next_he w1" "w_next_sv w' = w_next_sv w1"
      "\<forall>oth L E. acct oth L w1 hv2 E \<longrightarrow> acct oth L w' hv' E" by metis
  have mx: "HvMAX hv' = HvMAX hv" using f by (simp add: r'(1) hv2_def)
  have a: "arr hv' = replicate (HvMAX hv' + 1) []" by (auto simp: arr_def r'(1) hv2_def)
  obtain k where k: "HvMAX hv' + 1 = 2 ^ k" "k \<le> 30" using hv_size[OF ok] mx by metis
  have z: "HvFILL hv' = 0" "HvTOTALKEYS hv' = 0" "HvPLACEHOLDERS hv' = 0" "HvUNLINKED hv' = None" "\<not> HvLAZYDEL hv'"
    using f by (simp_all add: r'(1) hv2_def)
  note e = empty_hv[OF a z k, of env w']
  have nm: "HvNAME_HEK hv1 = HvNAME_HEK hv" using f by (auto simp: HvNAME_HEK_def aux0_def)
  have nm2: "HvNAME_HEK hv2 = HvNAME_HEK hv1" by (simp add: hv2_def HvNAME_HEK_def)
  have ent: "hv_entries hv' = []" unfolding a by (rule concat_replicate_Nil)
  have "acct oth L w' hv' (mset (hv_entries hv'))" if "acct oth L w hv (mset (hv_entries hv))" for oth L
  proof -
    have "acct oth L w1 hv1 {#}" using f that by blast
    moreover have "same_account hv1 hv2" using nm2 by (simp add: same_account_def hv2_def)
    ultimately have "acct oth L w1 hv2 {#}" by (simp add: acct_cong)
    then show ?thesis unfolding ent using r'(6) by simp
  qed
  moreover have "HvAUX hv = None \<longrightarrow> HvAUX hv' = None"
    using f r'(3) by (auto simp: r'(1) hv2_def HvNAME_HEK_def)
  ultimately show ?thesis using e er mx nm nm2 r'(2,5) f by (auto simp: r'(1) hv2_def)
qed


section \<open>\<open>hv_clear\<close> on a restricted hash\<close>

text \<open>Every entry is as before or has become a placeholder.\<close>

definition hidden :: "hent \<Rightarrow> hent \<Rightarrow> bool" where
  "hidden e e' \<longleftrightarrow> e' = e \<or> e' = e\<lparr>he_val := Placeholder\<rparr>"

definition must_keep :: "henv \<Rightarrow> hent \<Rightarrow> bool" where
  "must_keep env e \<longleftrightarrow> no_ph e \<and> flag_restricted env (he_val e)"

lemma hidden_sel: "hidden e e' \<Longrightarrow> he_hek e' = he_hek e \<and> he_addr e' = he_addr e"
  by (auto simp: hidden_def)

lemma hidden_list:
  "list_all2 hidden es es' \<Longrightarrow> map he_hek es' = map he_hek es \<and> map he_addr es' = map he_addr es"
  by (induction rule: list_all2_induct) (auto dest: hidden_sel)

lemma hidden_live: "list_all2 hidden es es' \<Longrightarrow> live es' k = live es k \<or> live es' k = None"
proof (induction rule: list_all2_induct)
  case (Cons e es e' es')
  then show ?case by (auto simp: hidden_def seen_def)
qed simp

lemma hidden_refl [simp]: "hidden e e" "list_all2 hidden es es" "list_all2 (list_all2 hidden) a a"
  by (simp_all add: hidden_def list.rel_refl)

lemma hide_chain_ok:
  assumes "hide_chain env w ph es = (er, w', ph', es')"
  shows "list_all2 hidden es es' \<and> ph' + ph_count es = ph + ph_count es' \<and>
    w_next_he w' = w_next_he w \<and> w_next_sv w' = w_next_sv w \<and>
    (case er of
       None \<Rightarrow> (\<forall>e \<in> set es. \<not> must_keep env e) \<and> (\<forall>e \<in> set es'. is_ph e)
     | Some x \<Rightarrow> \<exists>e \<in> set es. must_keep env e \<and> e \<in> set es' \<and> x = Delete_readonly (he_key e)) \<and>
    (\<forall>oth L E. acct oth L w hv (mset es + E) \<longrightarrow> acct oth L w' hv (mset es' + E))"
  using assms
proof (induction env w ph es arbitrary: er w' ph' es' rule: hide_chain.induct)
  case (2 env w ph e es)
  show ?case
  proof (cases "is_ph e")
    case True
    then obtain es1 where h: "hide_chain env w ph es = (er, w', ph', es1)" and es': "es' = e # es1"
      using 2(3) by (auto split: prod.splits)
    have ac: "acct oth L w' hv (mset es' + E)" if "acct oth L w hv (mset (e # es) + E)" for oth L E
    proof -
      from that have "acct oth L w hv (mset es + add_mset e E)" by simp
      with 2(2)[OF _ h] True have "acct oth L w' hv (mset es1 + add_mset e E)" by blast
      then show ?thesis by (simp add: es')
    qed
    from 2(2)[OF _ h] True ac show ?thesis
      by (auto simp: es' hidden_def must_keep_def split: option.splits)
  next
    case np: False
    show ?thesis
    proof (cases "flag_restricted env (he_val e)")
      case True
      with np 2(3) have "er = Some (Delete_readonly (he_key e))" "w' = w" "ph' = ph" "es' = e # es" by simp_all
      with np True show ?thesis by (simp add: must_keep_def)
    next
      case False
      let ?e = "e\<lparr>he_val := Placeholder\<rparr>"
      from np False 2(3) obtain es1 where
        h: "hide_chain env (w_add (Refcnt_dec (he_val e)) w) (ph + 1) es = (er, w', ph', es1)" and es': "es' = ?e # es1"
        by (auto split: prod.splits)
      note ih = 2(1)[OF np False h]
      have ac: "acct oth L w' hv (mset es' + E)" if a: "acct oth L w hv (mset (e # es) + E)" for oth L E
      proof -
        have "acct oth L (w_add (Refcnt_dec (he_val e)) w) hv (mset es + add_mset ?e E)"
          using a np by (auto simp: acct_def hek_uses_add held_add released_add)
        with ih have "acct oth L w' hv (mset es1 + add_mset ?e E)" by blast
        then show ?thesis by (simp add: es')
      qed
      from ih np False ac show ?thesis
        by (auto simp: es' hidden_def must_keep_def split: option.splits)
    qed
  qed
qed simp


lemma hide_buckets_ok:
  assumes "hide_buckets env w ph a = (er, w', ph', a')"
  shows "list_all2 (list_all2 hidden) a a' \<and> ph' + ph_count (concat a) = ph + ph_count (concat a') \<and>
    w_next_he w' = w_next_he w \<and> w_next_sv w' = w_next_sv w \<and>
    (case er of
       None \<Rightarrow> (\<forall>e \<in> set (concat a). \<not> must_keep env e) \<and> (\<forall>e \<in> set (concat a'). is_ph e)
     | Some x \<Rightarrow> \<exists>e \<in> set (concat a). must_keep env e \<and> e \<in> set (concat a') \<and> x = Delete_readonly (he_key e)) \<and>
    (\<forall>oth L E. acct oth L w hv (mset (concat a) + E) \<longrightarrow> acct oth L w' hv (mset (concat a') + E))"
  using assms
proof (induction env w ph a arbitrary: er w' ph' a' rule: hide_buckets.induct)
  case (2 env w ph c cs)
  obtain er1 w1 ph1 c1 where h: "hide_chain env w ph c = (er1, w1, ph1, c1)" by (metis prod_cases4)
  note hc = hide_chain_ok[OF h, of hv]
  show ?case
  proof (cases er1)
    case (Some x)
    with 2(2) h have r: "er = Some x" "w' = w1" "ph' = ph1" "a' = c1 # cs" by simp_all
    have "acct oth L w' hv (mset (concat a') + E)" if "acct oth L w hv (mset (concat (c # cs)) + E)" for oth L E
      using that hc unfolding r by (simp add: union_assoc)
    with hc Some show ?thesis by (auto simp: r)
  next
    case None
    with 2(2) h obtain cs1 where
      t: "hide_buckets env w1 ph1 cs = (er, w', ph', cs1)" and a': "a' = c1 # cs1" by (auto split: prod.splits)
    note ih = 2(1)[OF h[symmetric] None refl refl t]
    have "acct oth L w' hv (mset (concat a') + E)" if "acct oth L w hv (mset (concat (c # cs)) + E)" for oth L E
    proof -
      have "acct oth L w hv (mset c + (mset (concat cs) + E))" using that by (simp add: union_assoc)
      with hc have "acct oth L w1 hv (mset c1 + (mset (concat cs) + E))" by blast
      then have "acct oth L w1 hv (mset (concat cs) + (mset c1 + E))" by (simp add: ac_simps)
      with ih have "acct oth L w' hv (mset (concat cs1) + (mset c1 + E))" by blast
      then show ?thesis by (simp add: a' ac_simps)
    qed
    with hc ih None show ?thesis by (auto simp: a' split: option.splits)
  qed
qed simp

lemma hidden_tbl:
  assumes h: "list_all2 (list_all2 hidden) a a'" and t: "tbl_ok hf n a"
  shows "tbl_ok hf n a'"
proof -
  note m = hidden_list[OF rel_concat[OF h]]
  have k: "map he_key (concat a') = map he_key (concat a)"
  proof -
    have "map he_key xs = map hek_key (map he_hek xs)" for xs :: "hent list" by simp
    with m show ?thesis by metis
  qed
  have wp: "well_placed a'" using h _ tbl_okD(1)[OF t] by (rule rel_well_placed) (simp add: hidden_sel)
  have i: "\<exists>e \<in> set (concat a). he_hek e = he_hek e' \<and> he_addr e = he_addr e'" if "e' \<in> set (concat a')" for e'
    using that rel_concat[OF h] hidden_sel by (metis list_all2_conv_all_nth in_set_conv_nth)
  have "\<forall>e' \<in> set (concat a'). he_addr e' < n \<and> he_hash e' = hf (he_key e')"
    using i tbl_okD(5,6)[OF t] by metis
  then show ?thesis
    using t wp list_all2_lengthD[OF h] m k unfolding tbl_ok_def by metis
qed


lemma must_keep_live:
  assumes d: "distinct (map he_key es)"
  shows "(\<exists>e \<in> set es. must_keep env e) \<longleftrightarrow> (\<exists>v \<in> ran (live es). flag_restricted env v)"
proof
  assume "\<exists>e \<in> set es. must_keep env e"
  then obtain e where e: "e \<in> set es" "must_keep env e" ..
  then have "live es (he_key e) = Some (he_val e)" using live_in[OF d] by (simp add: must_keep_def seen_def)
  with e(2) show "\<exists>v \<in> ran (live es). flag_restricted env v" by (auto simp: must_keep_def ran_def)
next
  assume "\<exists>v \<in> ran (live es). flag_restricted env v"
  then obtain k v where v: "live es k = Some v" "flag_restricted env v" by (auto simp: ran_def)
  then have "k \<in> he_key ` set es" using live_out[of k es] by force
  then obtain e where e: "e \<in> set es" "k = he_key e" by auto
  with live_in[OF d, of e] v have "must_keep env e" by (auto simp: must_keep_def seen_def split: if_splits)
  with e(1) show "\<exists>e \<in> set es. must_keep env e" ..
qed

lemma live_all_ph: "\<forall>e \<in> set es. is_ph e \<Longrightarrow> live es = Map.empty"
  by (induction es) (auto simp: seen_def fun_eq_iff)

text \<open>The hash with the entries hidden, before the reset.\<close>

lemma hidden_hv:
  assumes ok: "hv_ok env w hv" and h: "list_all2 (list_all2 hidden) (arr hv) a" and n: "w_next_he w' = w_next_he w"
    and ph: "ph + ph_count (hv_entries hv) = HvPLACEHOLDERS hv + ph_count (concat a)"
    and hv': "hv' = hv\<lparr>HvARRAY := Some a, HvPLACEHOLDERS := ph\<rparr>"
  shows "hv_ok env w' hv' \<and> hv_legal hv' = hv_legal hv \<and> hv_map hv' \<subseteq>\<^sub>m hv_map hv"
proof -
  note o = hv_okD[OF ok] and hc = hidden_list[OF rel_concat[OF h]]
  have aa: "arr hv' = a" by (simp add: arr_def hv')
  have sk: "same_keying hv hv'" by (simp add: same_keying_def hv')
  have key: "he_key ` set (concat a) = he_key ` set (hv_entries hv)"
  proof -
    have "he_key ` set xs = hek_key ` set (map he_hek xs)" for xs :: "hent list" by (simp add: image_image)
    with hc show ?thesis by metis
  qed
  have ad: "he_addr ` set (concat a) = he_addr ` set (hv_entries hv)" using hc by (metis list.set_map)
  have lz: "lazy_ok (w_next_he w) hv'"
    by (rule lazy_ok_same[OF o(6)]) (simp_all only: aa ad, simp_all add: hv')
  have "length (concat a) = length (hv_entries hv)" using hc by (metis length_map)
  then have "hv_ok env w' hv'"
    unfolding hv_ok_def aa hash_fun_cong[OF sk] n
    using hidden_tbl[OF h o(1)] rel_fill_count[OF h] list_all2_lengthD[OF h] o(2-5) lz ph
    by (simp add: hv' del: length_concat)
  moreover have "hv_map hv' \<subseteq>\<^sub>m hv_map hv"
    unfolding hv_map_def aa map_le_def using hidden_live[OF rel_concat[OF h]] by (metis domIff)
  ultimately show ?thesis unfolding hv_legal_def aa using key by simp
qed

lemma hv_clear_restricted:
  assumes ok: "hv_ok env w hv" and r: "HvRESTRICTED hv" "HvARRAY hv \<noteq> None" and u: "HvUNLINKED hv = None"
    and c: "hv_clear env w hv = (er, w', hv')"
  shows "hv_ok env w' hv' \<and> hv_legal hv' = hv_legal hv \<and> hv_map hv' \<subseteq>\<^sub>m hv_map hv \<and>
    (case er of
       None \<Rightarrow> hv_map hv' = Map.empty \<and> (\<forall>v \<in> ran (hv_map hv). \<not> flag_restricted env v)
     | Some x \<Rightarrow> \<exists>key v. x = Delete_readonly key \<and> hv_map hv key = Some v \<and> flag_restricted env v \<and> hv_map hv' key = Some v) \<and>
    HvARRAY hv' \<noteq> None \<and> HvMAX hv' = HvMAX hv \<and> HvRESTRICTED hv' \<and> HvREADONLY hv' = HvREADONLY hv \<and>
    (HvAUX hv = None \<longrightarrow> HvAUX hv' = None) \<and> w_next_sv w' = w_next_sv w \<and>
    (\<forall>oth L. acct oth L w hv (mset (hv_entries hv)) \<longrightarrow> acct oth L w' hv' (mset (hv_entries hv')))"
proof -
  obtain er1 w1 ph a where h: "hide_buckets env w (HvPLACEHOLDERS hv) (arr hv) = (er1, w1, ph, a)" by (metis prod_cases4)
  define hv1 where "hv1 = hv\<lparr>HvARRAY := Some a, HvPLACEHOLDERS := ph\<rparr>"
  note b = hide_buckets_ok[OF h, of hv]
  then have b2: "ph + ph_count (hv_entries hv) = HvPLACEHOLDERS hv + ph_count (concat a)" "w_next_he w1 = w_next_he w"
    "list_all2 (list_all2 hidden) (arr hv) a" by blast+
  note h1 = hidden_hv[OF ok b2(3,2,1) hv1_def]
  have aa: "arr hv1 = a" by (simp add: arr_def hv1_def)
  have d: "distinct (map he_key (hv_entries hv))" "distinct (map he_key (concat a))"
    using tbl_okD(2)[OF hv_okD(1)[OF ok]] h1 tbl_okD(2)[OF hv_okD(1)] unfolding aa[symmetric] by blast+
  have a1: "acct oth L w1 hv1 (mset (hv_entries hv1))" if "acct oth L w hv (mset (hv_entries hv))" for oth L
  proof -
    have "acct oth L w hv (mset (hv_entries hv) + {#})" using that by simp
    with b have "acct oth L w1 hv (mset (concat a) + {#})" by blast
    moreover have "same_account hv hv1" by (simp add: same_account_def hv1_def)
    ultimately show ?thesis by (simp add: aa acct_cong)
  qed
  show ?thesis
  proof (cases er1)
    case (Some x)
    with c h r have c': "er = Some x" "w' = w1" "hv' = hv1" by (simp_all add: hv_clear_def hv1_def)
    from b Some obtain e where e: "e \<in> set (hv_entries hv)" "must_keep env e" "e \<in> set (concat a)" "x = Delete_readonly (he_key e)"
      by auto
    have "hv_map hv (he_key e) = Some (he_val e)" "hv_map hv1 (he_key e) = Some (he_val e)"
      unfolding hv_map_def aa using live_in[OF d(1) e(1)] live_in[OF d(2) e(3)] e(2) by (simp_all add: must_keep_def seen_def)
    with h1 e(2,4) a1 b r show ?thesis unfolding c' by (auto simp: must_keep_def hv1_def)
  next
    case None
    with c h r have c': "er = None" and rs: "clear_reset w1 hv1 = (w', hv')" by (auto simp: hv_clear_def hv1_def)
    from clear_reset_ok[OF rs] obtain ax where
      f: "hv' = hv1\<lparr>HvAUX := ax\<rparr>" "HvNAME_HEK hv' = HvNAME_HEK hv1" "ax = None \<longleftrightarrow> HvAUX hv1 = None"
        "w_next_he w' = w_next_he w1" "w_next_sv w' = w_next_sv w1" "HvEITER_get hv' = None"
        "\<forall>oth L E. acct oth L w1 hv1 E \<longrightarrow> acct oth L w' hv' E" by metis
    have aa': "arr hv' = a" by (simp add: arr_def f(1) hv1_def)
    have "\<not> HvLAZYDEL hv" using hv_okD(6)[OF ok] u by (simp add: lazy_ok_def)
    then have lz: "lazy_ok n hv'" for n using u by (simp add: lazy_ok_def f(1) hv1_def)
    have sk: "same_keying hv1 hv'" by (simp add: same_keying_def f(1))
    have "hv_ok env w1 hv1" using h1 by blast
    then have "hv_ok env w' hv'"
      unfolding hv_ok_def hash_fun_cong[OF sk] aa' aa f(4) using lz by (simp add: f(1))
    moreover have "hv_map hv' = Map.empty" unfolding hv_map_def aa' using b None live_all_ph by simp
    moreover have "\<forall>v \<in> ran (hv_map hv). \<not> flag_restricted env v"
      using must_keep_live[OF d(1), of env] b None unfolding hv_map_def by auto
    moreover have "acct oth L w' hv' (mset (hv_entries hv'))" if "acct oth L w hv (mset (hv_entries hv))" for oth L
      using a1[OF that] f(7) unfolding aa' aa by blast
    ultimately show ?thesis
      using c' h1 f(3,5) b r(1) unfolding hv_map_def hv_legal_def aa' aa by (simp add: f(1) hv1_def)
  qed
qed


section \<open>Undefining\<close>

lemma name_drop_acct:
  assumes ac: "acct oth L w hv {#}" and n: "HvNAME_HEK hv = Some h" and u: "HvUNLINKED hv = None"
    and w': "w' = w\<lparr>w_strtab := unshare_hek (w_strtab w) h\<rparr>" and hv': "HvNAME_HEK hv' = None" "HvUNLINKED hv' = None"
  shows "acct oth L w' hv' {#}"
proof -
  have ok: "st_ok (w_strtab w)" using ac by (simp add: acct_def)
  have hu: "hek_uses hv {#} g = (if g = h then 1 else 0)" "hek_uses hv' {#} g = 0" for g
    by (simp_all add: hek_uses_def held_entries_def n u hv')
  have he: "held_entries hv {#} = {#}" "held_entries hv' {#} = {#}" by (simp_all add: held_entries_def u hv')
  have "refs (w_strtab w') g = oth g" for g
    using ac unshare_hek_ok[OF ok, of h g] unfolding acct_def hu by (simp add: w')
  then show ?thesis
    using ac unshare_hek_ok[OF ok, of h] unfolding acct_def hu he by (simp add: w')
qed

lemma hv_undef_ok:
  assumes ok: "hv_ok env w hv" and b: "aux_behind hv"
  shows "\<exists>w' hv'. hv_undef env w hv = Inr (w', hv') \<and> hv_ok env w' hv' \<and> hv_map hv' = Map.empty \<and> hv_legal hv' = {} \<and>
    HvARRAY hv' = None \<and> HvMAX hv' = 7 \<and> HvAUX hv' = None \<and> HvRESTRICTED hv' = HvRESTRICTED hv \<and>
    HvREADONLY hv' = HvREADONLY hv \<and> HvREHASH hv' = HvREHASH hv \<and> HvSHAREKEYS hv' = HvSHAREKEYS hv \<and>
    w_next_sv w' = w_next_sv w \<and> w_next_he w' = w_next_he w \<and>
    (\<forall>oth L. acct oth L w hv (mset (hv_entries hv)) \<longrightarrow> acct oth L w' hv' {#})"
proof -
  define w0 where "w0 = (if HvNAME_HEK hv \<noteq> None \<and> \<not> e_dirty env then w_add Isa_changed w else w)"
  have w0: "w_next_he w0 = w_next_he w" "w_next_sv w0 = w_next_sv w" "\<And>oth L E. acct oth L w0 hv E = acct oth L w hv E"
    by (simp_all add: w0_def)
  have ok0: "hv_ok env w0 hv" using ok by (simp add: hv_ok_def w0)
  obtain w1 hv1 where h: "hfreeentries env w0 hv = (w1, hv1)" by fastforce
  note f = hfreeentries_ok[OF ok0 b h]
  define w2 where "w2 = (case HvNAME_HEK hv of
      None \<Rightarrow> w1
    | Some n \<Rightarrow> (let w1 = (if e_stashcache env then w_add (Stashcache_delete n) w1 else w1)
        in w1\<lparr>w_strtab := unshare_hek (w_strtab w1) n\<rparr>))"
  define hv2 where "hv2 = hv1\<lparr>HvAUX := None, HvARRAY := None, HvMAX := 7, HvPLACEHOLDERS := 0\<rparr>"
  have nm: "HvNAME_HEK hv1 = HvNAME_HEK hv" using f by (auto simp: HvNAME_HEK_def aux0_def)
  have e: "hv_undef env w hv = Inr (w2, hv2)"
  proof (cases "HvNAME_HEK hv")
    case None
    with h show ?thesis unfolding hv_undef_def w0_def[symmetric] Let_def by (simp add: w2_def hv2_def)
  next
    case (Some n)
    then have "HvAUX hv1 = Some (aux0\<lparr>aux_name := Some n\<rparr>)" using f by simp
    then have "hv_name_set env v hv1 None =
        Inr (v\<lparr>w_strtab := unshare_hek (w_strtab v) n\<rparr>, hv1\<lparr>HvAUX := Some (aux0\<lparr>aux_name := None\<rparr>)\<rparr>)" for v
      by (simp add: hv_name_set_def)
    with Some h show ?thesis unfolding hv_undef_def w0_def[symmetric] Let_def by (simp add: w2_def hv2_def Let_def)
  qed
  have "HvUNLINKED hv2 = None" "\<not> HvLAZYDEL hv2" "HvFILL hv2 = 0" "HvTOTALKEYS hv2 = 0" "HvPLACEHOLDERS hv2 = 0"
    using f by (simp_all add: hv2_def)
  moreover have "arr hv2 = replicate (HvMAX hv2 + 1) []" by (simp add: arr_def hv2_def)
  moreover have "HvMAX hv2 + 1 = 2 ^ 3" by (simp add: hv2_def)
  ultimately have em: "hv_ok env w2 hv2 \<and> hv_map hv2 = Map.empty \<and> hv_legal hv2 = {}"
    by (intro empty_hv[where k = 3]; (assumption | simp))
  have "acct oth L w2 hv2 {#}" if "acct oth L w hv (mset (hv_entries hv))" for oth L
  proof -
    have a: "acct oth L w1 hv1 {#}" using f that w0(3) by blast
    have n2: "HvNAME_HEK hv2 = None" "HvUNLINKED hv2 = None" using f by (simp_all add: hv2_def HvNAME_HEK_def)
    show ?thesis
    proof (cases "HvNAME_HEK hv")
      case None
      then have "same_account hv1 hv2" using n2(1) nm f by (simp add: same_account_def, simp add: hv2_def)
      with a None show ?thesis by (simp add: acct_cong w2_def)
    next
      case (Some n)
      have "acct oth L (if e_stashcache env then w_add (Stashcache_delete n) w1 else w1) hv1 {#}" using a by simp
      from name_drop_acct[OF this _ _ refl n2] nm Some f show ?thesis by (simp add: w2_def Let_def)
    qed
  qed
  moreover have "w_next_he w2 = w_next_he w \<and> w_next_sv w2 = w_next_sv w"
    using f w0 by (simp add: w2_def Let_def split: option.split)
  ultimately show ?thesis using e em f by (intro exI[of _ w2] exI[of _ hv2]) (simp add: hv2_def)
qed

section \<open>Counting references\<close>

text \<open>\<open>hv_tmprefcnt\<close> counts every value the hash holds once, the one deleted under the iterator too.\<close>

definition tmp_values :: "tmp_ref list \<Rightarrow> hval list" where
  "tmp_values rs = concat (map (\<lambda>r. case r of Tmp_sv v \<Rightarrow> [v] | Tmp_container n \<Rightarrow> []) rs)"

lemma tmp_values_simps [simp]:
  "tmp_values [] = []" "tmp_values (Tmp_sv v # rs) = v # tmp_values rs" "tmp_values (xs @ ys) = tmp_values xs @ tmp_values ys"
  "tmp_values (tmp_inc av) = []" "tmp_values (map (Tmp_sv \<circ> f) es) = map f es"
  by (auto simp: tmp_values_def tmp_inc_def comp_def split: option.split)

lemma hv_tmprefcnt_ok:
  assumes ok: "hv_ok env w hv" and b: "aux_behind hv"
  shows "mset (tmp_values (hv_tmprefcnt hv)) = image_mset he_val (held_entries hv (mset (hv_entries hv)))"
proof -
  have a: "(case HvARRAY hv of None \<Rightarrow> [] | Some array \<Rightarrow> map (Tmp_sv \<circ> he_val) (concat (rev array))) =
      map (Tmp_sv \<circ> he_val) (concat (rev (arr hv)))"
    by (cases "HvARRAY hv") (simp_all add: arr_def concat_replicate_Nil del: replicate.simps replicate_Suc)
  have m: "mset (map he_val (concat (rev (arr hv)))) = image_mset he_val (mset (hv_entries hv))"
    using mset_concat_rev[of "arr hv"] by (metis mset_map)
  note lz = hv_okD(6)[OF ok]
  show ?thesis
  proof (cases "HvUNLINKED hv")
    case None
    then have "\<not> HvLAZYDEL hv" using lz by (simp add: lazy_ok_def)
    then have "tmp_values (hv_tmprefcnt hv) = map he_val (concat (rev (arr hv)))"
      unfolding hv_tmprefcnt_def a by (auto split: option.split)
    with m show ?thesis by (simp only: held_entries_def None option.case)
  next
    case (Some u)
    obtain e n where u: "u = (e, n)" by (cases u)
    then have l: "HvLAZYDEL hv" "HvEITER_get hv = Some (he_addr e)" using lz Some by (simp_all add: lazy_ok_def)
    then obtain iter where i: "HvAUX hv = Some iter" "aux_eiter iter = Some (he_addr e)"
      by (auto simp: HvEITER_get_def split: option.splits)
    have "tmp_values (hv_tmprefcnt hv) = he_val e # map he_val (concat (rev (arr hv)))"
      unfolding hv_tmprefcnt_def a by (auto simp: i l entry_at_def Some u split: option.split)
    with m show ?thesis by (simp add: held_entries_def Some u del: mset_map)
  qed
qed

end
