(* ===== verification/Hash_Map.thy ===== *)
theory Hash_Map
  imports Hash_Whole
begin

text \<open>
  A hash is a finite map: any sequence of the operations gives what a map with a set of legal
  keys (the keys a restricted hash accepts) gives, refusals included, whatever buckets, splits
  and rehashing happen below. The specification is \<open>am_step\<close>.
\<close>

section \<open>Sequences of operations\<close>

datatype hash_op =
    Op_fetch "u8 list"
  | Op_lvalue "u8 list"             \<comment> \<open>\<open>hv_fetch\<close> with \<open>lval\<close>\<close>
  | Op_store "u8 list" nat
  | Op_exists "u8 list"
  | Op_delete "u8 list" bool        \<comment> \<open>with \<open>G_DISCARD\<close>\<close>
  | Op_lock                         \<comment> \<open>\<open>Internals::hv_clear_placeholders\<close>, then \<open>HvRESTRICTED_on\<close>\<close>
  | Op_unlock
  | Op_clear
  | Op_undef

datatype hash_out = Out_val "hval option" | Out_bool bool | Out_none

text \<open>What a caller reads from the result of a call.\<close>

definition value_at :: "hv \<Rightarrow> nat \<Rightarrow> hval option" where
  "value_at hv addr = map_option he_val (find (\<lambda>e. he_addr e = addr) (hv_entries hv))"

definition hv_outcome :: "hv \<Rightarrow> hv_ret \<Rightarrow> hval option" where
  "hv_outcome hv r =
    (case r of
       Ret_null \<Rightarrow> None
     | Ret_entry addr \<Rightarrow> value_at hv addr
     | Ret_slot addr \<Rightarrow> value_at hv addr
     | Ret_sv v \<Rightarrow> Some v)"

fun hash_do :: "henv \<Rightarrow> hash_op \<Rightarrow> hworld \<Rightarrow> hv \<Rightarrow> (hash_out \<times> hworld \<times> hv) result" where
  "hash_do env (Op_fetch key) w hv =
    bind_result (hv_fetch env w hv key False) (\<lambda>(r, w, hv). Inr (Out_val (hv_outcome hv r), w, hv))"
| "hash_do env (Op_lvalue key) w hv =
    bind_result (hv_fetch env w hv key True) (\<lambda>(r, w, hv). Inr (Out_val (hv_outcome hv r), w, hv))"
| "hash_do env (Op_store key v) w hv =
    bind_result (hv_store env w hv key (Val v) 0) (\<lambda>(r, w, hv). Inr (Out_val (hv_outcome hv r), w, hv))"
| "hash_do env (Op_exists key) w hv =
    bind_result (hv_exists env w hv key) (\<lambda>(r, w, hv). Inr (Out_bool r, w, hv))"
| "hash_do env (Op_delete key discard) w hv =
    bind_result (hv_delete env w hv key (if discard then G_DISCARD else 0))
      (\<lambda>(r, w, hv). Inr (Out_val (hv_outcome hv r), w, hv))"
| "hash_do env Op_lock w hv =
    bind_result (hv_clear_placeholders env w hv) (\<lambda>(w, hv). Inr (Out_none, w, hv\<lparr>HvRESTRICTED := True\<rparr>))"
| "hash_do env Op_unlock w hv = Inr (Out_none, w, hv\<lparr>HvRESTRICTED := False\<rparr>)"
| "hash_do env Op_clear w hv =
    (case hv_clear env w hv of (Some er, w, hv) \<Rightarrow> Inl er | (None, w, hv) \<Rightarrow> Inr (Out_none, w, hv))"
| "hash_do env Op_undef w hv = bind_result (hv_undef env w hv) (\<lambda>(w, hv). Inr (Out_none, w, hv))"

fun hash_run :: "henv \<Rightarrow> hash_op list \<Rightarrow> hworld \<Rightarrow> hv \<Rightarrow> (hash_out list \<times> hworld \<times> hv) result" where
  "hash_run env [] w hv = Inr ([], w, hv)"
| "hash_run env (op # ops) w hv =
    bind_result (hash_do env op w hv)
      (\<lambda>(out, w, hv). bind_result (hash_run env ops w hv) (\<lambda>(outs, w, hv). Inr (out # outs, w, hv)))"

section \<open>The specification\<close>

text \<open>\<open>am_alloc\<close>: whether the hash has been stored into; before that nothing is refused to readers.\<close>

record amap =
  am_map :: "u8 list \<Rightarrow> hval option"
  am_legal :: "u8 list set"
  am_locked :: bool
  am_alloc :: bool
  am_next :: nat

definition am_refuses :: "amap \<Rightarrow> u8 list \<Rightarrow> bool" where
  "am_refuses s key \<longleftrightarrow> am_locked s \<and> key \<notin> am_legal s"

fun am_step :: "henv \<Rightarrow> hash_op \<Rightarrow> amap \<Rightarrow> (hash_out \<times> amap) option" where
  "am_step env (Op_fetch key) s =
    (if am_refuses s key \<and> am_alloc s then None else Some (Out_val (am_map s key), s))"
| "am_step env (Op_lvalue key) s =
    (if am_refuses s key then None
     else case am_map s key of
       Some v \<Rightarrow> Some (Out_val (Some v), s\<lparr>am_alloc := True\<rparr>)
     | None \<Rightarrow> Some (Out_val (Some (Val (am_next s))),
         s\<lparr>am_map := (am_map s)(key \<mapsto> Val (am_next s)), am_alloc := True, am_next := am_next s + 1\<rparr>))"
| "am_step env (Op_store key v) s =
    (if am_refuses s key then None
     else Some (Out_val (Some (Val v)), s\<lparr>am_map := (am_map s)(key \<mapsto> Val v), am_alloc := True\<rparr>))"
| "am_step env (Op_exists key) s = Some (Out_bool (am_map s key \<noteq> None), s)"
| "am_step env (Op_delete key discard) s =
    (if am_refuses s key \<and> am_alloc s then None
     else if am_locked s \<and> (\<exists>v. am_map s key = Some v \<and> sv_readonly env v) then None
     else Some (Out_val (if discard then None else am_map s key), s\<lparr>am_map := (am_map s)(key := None)\<rparr>))"
| "am_step env Op_lock s = Some (Out_none, s\<lparr>am_locked := True, am_legal := dom (am_map s)\<rparr>)"
| "am_step env Op_unlock s = Some (Out_none, s\<lparr>am_locked := False\<rparr>)"
| "am_step env Op_clear s =
    (if am_locked s \<and> (\<exists>v \<in> ran (am_map s). flag_restricted env v) then None
     else Some (Out_none, s\<lparr>am_map := Map.empty\<rparr>))"
| "am_step env Op_undef s = Some (Out_none, s\<lparr>am_map := Map.empty, am_legal := {}, am_alloc := False\<rparr>)"

fun am_steps :: "henv \<Rightarrow> hash_op list \<Rightarrow> amap \<Rightarrow> (hash_out list \<times> amap) option" where
  "am_steps env [] s = Some ([], s)"
| "am_steps env (op # ops) s =
    (case am_step env op s of
       None \<Rightarrow> None
     | Some (out, s) \<Rightarrow>
        (case am_steps env ops s of None \<Rightarrow> None | Some (outs, s) \<Rightarrow> Some (out # outs, s)))"

text \<open>The map of a new hash.\<close>

definition am0 :: "hworld \<Rightarrow> amap" where
  "am0 w = \<lparr>am_map = Map.empty, am_legal = {}, am_locked = False, am_alloc = False, am_next = w_next_sv w\<rparr>"

fun op_key_short :: "hash_op \<Rightarrow> bool" where
  "op_key_short (Op_fetch key) = short_key key"
| "op_key_short (Op_lvalue key) = short_key key"
| "op_key_short (Op_store key v) = short_key key"
| "op_key_short (Op_exists key) = short_key key"
| "op_key_short (Op_delete key d) = short_key key"
| "op_key_short Op_lock = True"
| "op_key_short Op_unlock = True"
| "op_key_short Op_clear = True"
| "op_key_short Op_undef = True"

section \<open>The two run together\<close>

definition hash_rel :: "henv \<Rightarrow> hworld \<Rightarrow> hv \<Rightarrow> amap \<Rightarrow> bool" where
  "hash_rel env w hv s \<longleftrightarrow> hv_ok env w hv \<and> hv_map hv = am_map s \<and> HvRESTRICTED hv = am_locked s \<and>
    \<not> HvREADONLY hv \<and> HvAUX hv = None \<and> (am_locked s \<longrightarrow> hv_legal hv = am_legal s) \<and>
    (am_alloc s \<longleftrightarrow> HvARRAY hv \<noteq> None) \<and> (HvARRAY hv = None \<longrightarrow> HvMAX hv = 7) \<and>
    w_next_sv w = am_next s \<and> short_keys hv"

lemma hash_rel0: "hash_rel env w newHV (am0 w)"
proof -
  have e: "hv_entries newHV = []" by (simp only: arr_def newHV_def hv.simps option.case concat_replicate_Nil)
  have "hv_legal newHV = {}" unfolding hv_legal_def e by simp
  then show ?thesis
    using newHV_ok newHV_map by (simp add: hash_rel_def am0_def newHV_def)
qed

lemma action_flags:
  "has HV_FETCH_ISEXISTS HV_FETCH_ISEXISTS" "\<not> has HV_FETCH_ISEXISTS HV_DELETE"
  "\<not> has HV_FETCH_ISEXISTS (HV_FETCH_LVALUE OR HV_FETCH_ISSTORE)"
  "\<not> has HV_FETCH_JUST_SV HV_FETCH_ISEXISTS" "\<not> has HV_FETCH_JUST_SV HV_DELETE"
  "\<not> has HV_FETCH_JUST_SV (HV_FETCH_LVALUE OR HV_FETCH_ISSTORE)"
  "has (HV_FETCH_ISSTORE OR HV_FETCH_JUST_SV) (HV_FETCH_LVALUE OR HV_FETCH_ISSTORE)"
  "\<not> has (HV_FETCH_ISSTORE OR HV_FETCH_JUST_SV) HV_DELETE"
  "\<not> has (HV_FETCH_ISSTORE OR HV_FETCH_JUST_SV) HV_FETCH_ISEXISTS"
  "\<not> has (HV_FETCH_ISSTORE OR HV_FETCH_JUST_SV) HV_FETCH_LVALUE"
  "has (HV_FETCH_ISSTORE OR HV_FETCH_JUST_SV) HV_FETCH_ISSTORE"
  "has (HV_FETCH_JUST_SV OR HV_FETCH_LVALUE) (HV_FETCH_LVALUE OR HV_FETCH_ISSTORE)"
  "\<not> has (HV_FETCH_JUST_SV OR HV_FETCH_LVALUE) HV_DELETE"
  "\<not> has (HV_FETCH_JUST_SV OR HV_FETCH_LVALUE) HV_FETCH_ISEXISTS"
  "has (HV_FETCH_JUST_SV OR HV_FETCH_LVALUE) HV_FETCH_LVALUE"
  "\<not> has (HV_FETCH_JUST_SV OR HV_FETCH_LVALUE) HV_FETCH_ISSTORE"
  "has (G_DISCARD OR HV_DELETE) HV_DELETE" "has (0 OR HV_DELETE) HV_DELETE"
  "has (G_DISCARD OR HV_DELETE) G_DISCARD" "\<not> has (0 OR HV_DELETE) G_DISCARD"
  by (simp_all add: has_def HV_FETCH_ISEXISTS_def HV_FETCH_ISSTORE_def HV_FETCH_JUST_SV_def HV_FETCH_LVALUE_def
      HV_DELETE_def G_DISCARD_def)

lemma good_hash_0 [simp]: "good_hash env (Pv key 0) 0"
  by (simp add: good_hash_def)

lemma denotes_outcome:
  assumes "hv_ok env w hv" "denotes hv r key v"
  shows "hv_outcome hv r = Some v"
proof -
  from assms(2) obtain addr e where r: "r = Ret_entry addr \<or> r = Ret_slot addr" and
    e: "e \<in> set (hv_entries hv)" "he_addr e = addr" "he_val e = v"
    unfolding denotes_def view_def by auto
  have "value_at hv addr = Some v"
    unfolding value_at_def using find_unique[OF tbl_okD(3)[OF hv_okD(1)[OF assms(1)]] e(1,2)] e(3) by simp
  with r show ?thesis by (auto simp: hv_outcome_def)
qed

text \<open>The three kinds of call on a hash that is read as a map.\<close>

lemma rel_read:
  assumes rel: "hash_rel env w hv s" and g: "good_hash env k hash" and d: "\<not> has action HV_DELETE"
    and st: "\<not> has action (HV_FETCH_LVALUE OR HV_FETCH_ISSTORE)"
  shows "if am_refuses s (key_bytes k) \<and> am_alloc s \<and> \<not> has action HV_FETCH_ISEXISTS
    then hv_common env w hv k action val hash = Inl (Disallowed_key (key_bytes k))
    else \<exists>r. hv_common env w hv k action val hash = Inr (r, w, hv) \<and> hv_outcome hv r = am_map s (key_bytes k) \<and>
      (r = Ret_null \<longleftrightarrow> am_map s (key_bytes k) = None)"
proof -
  have ok: "hv_ok env w hv" and mp: "hv_map hv = am_map s" and lk: "HvRESTRICTED hv = am_locked s" and
    lg: "am_locked s \<longrightarrow> hv_legal hv = am_legal s" and al: "am_alloc s \<longleftrightarrow> HvARRAY hv \<noteq> None"
    using rel by (simp_all add: hash_rel_def)
  note rd = hv_read[OF ok g d st, of val]
  show ?thesis
  proof (cases "am_refuses s (key_bytes k) \<and> am_alloc s \<and> \<not> has action HV_FETCH_ISEXISTS")
    case True
    then have "lookup hv (key_bytes k) = None" using lg lookup_None[of hv "key_bytes k"] by (simp add: am_refuses_def)
    with True rd lk al show ?thesis by (simp add: am_refuses_def)
  next
    case False
    have "\<exists>r. hv_common env w hv k action val hash = Inr (r, w, hv)"
    proof (cases "lookup hv (key_bytes k)")
      case None
      then have "key_bytes k \<notin> hv_legal hv" unfolding lookup_None .
      with None rd False lk lg al show ?thesis by (auto simp: am_refuses_def)
    qed (use rd in auto)
    then obtain r where r: "hv_common env w hv k action val hash = Inr (r, w, hv)" ..
    have out: "hv_outcome hv r = am_map s (key_bytes k) \<and> (r = Ret_null \<longleftrightarrow> am_map s (key_bytes k) = None)"
    proof (cases "hv_map hv (key_bytes k)")
      case None
      with hv_read_ok[OF ok g d st r] mp show ?thesis by (simp add: hv_outcome_def)
    next
      case (Some v)
      with hv_read_ok[OF ok g d st r] have dn: "denotes hv r (key_bytes k) v" by simp
      then have "r \<noteq> Ret_null" by (auto simp: denotes_def)
      with denotes_outcome[OF ok dn] Some mp show ?thesis by simp
    qed
    show ?thesis unfolding if_not_P[OF False] by (rule exI[of _ r]) (use r out in simp)
  qed
qed

definition roomy_env :: "henv \<Rightarrow> bool" where
  "roomy_env env \<longleftrightarrow> bounded_allocator (e_alloc env) \<and> roomy_for_keys (e_alloc env)"

lemma roomy_64: "roomy_env env \<Longrightarrow> newx (e_alloc env) 64 1"
  by (simp add: roomy_env_def roomy_for_keys_def)

lemma rel_write:
  assumes rel: "hash_rel env w hv s" and m: "roomy_env env" and k: "short_key (key_bytes k)"
    and g: "good_hash env k hash" and d: "\<not> has action HV_DELETE" "\<not> has action HV_FETCH_ISEXISTS"
    and st: "has action (HV_FETCH_LVALUE OR HV_FETCH_ISSTORE)"
    and v: "v = stored_value action (am_map s (key_bytes k)) val (am_next s)" "v \<noteq> Placeholder"
  shows "if am_refuses s (key_bytes k)
    then hv_common env w hv k action val hash = Inl (Disallowed_key (key_bytes k))
    else \<exists>r w' hv'. hv_common env w hv k action val hash = Inr (r, w', hv') \<and> hv_outcome hv' r = Some v \<and>
      hash_rel env w' hv' (s\<lparr>am_map := (am_map s)(key_bytes k \<mapsto> v), am_alloc := True,
        am_next := am_next s + (if am_map s (key_bytes k) = None \<and> has action HV_FETCH_LVALUE then 1 else 0)\<rparr>)"
proof -
  have ok: "hv_ok env w hv" and mp: "hv_map hv = am_map s" and lk: "HvRESTRICTED hv = am_locked s" and
    lg: "am_locked s \<longrightarrow> hv_legal hv = am_legal s" and nx: "w_next_sv w = am_next s" and
    sk: "short_keys hv" and mx: "HvARRAY hv = None \<longrightarrow> HvMAX hv = 7"
    using rel by (simp_all add: hash_rel_def)
  have b: "bounded_allocator (e_alloc env)" and rk: "roomy_for_keys (e_alloc env)" using m by (simp_all add: roomy_env_def)
  have nw: "HvARRAY hv = None \<longrightarrow> newx (e_alloc env) ((HvMAX hv + 1) * 8) 1" using mx roomy_64[OF m] by simp
  have v': "v = stored_value action (hv_map hv (key_bytes k)) val (w_next_sv w)" using v(1) mp nx by simp
  show ?thesis
  proof (cases "am_refuses s (key_bytes k)")
    case True
    then have rf: "HvRESTRICTED hv" "key_bytes k \<notin> hv_legal hv" using lk lg by (simp_all add: am_refuses_def)
    have "hv_common env w hv k action val hash \<noteq> Inr x" for x
      using hv_write_ok[OF ok g d(1) st b v' v(2)] rf d(2) by (metis prod_cases3)
    then obtain er where e: "hv_common env w hv k action val hash = Inl er" by (cases "hv_common env w hv k action val hash") auto
    from hv_write_error[OF ok g d(1) st b e] rk k sk nw have "er = Disallowed_key (key_bytes k)" by blast
    with e True show ?thesis by simp
  next
    case False
    have "hv_common env w hv k action val hash \<noteq> Inl er" for er
      using hv_write_error[OF ok g d(1) st b, of val er] rk k sk nw False lk lg by (auto simp: am_refuses_def)
    then obtain r w' hv' where r: "hv_common env w hv k action val hash = Inr (r, w', hv')"
      by (metis prod_cases3 sum.exhaust)
    note wr = hv_write_ok[OF ok g d(1) st b v' v(2) r]
    have "HvARRAY hv' \<noteq> None" using wr by blast
    then obtain a' where "HvARRAY hv' = Some a'" by blast
    moreover have "short_keys hv'" using wr k sk by blast
    ultimately have "hash_rel env w' hv' (s\<lparr>am_map := (am_map s)(key_bytes k \<mapsto> v), am_alloc := True,
        am_next := am_next s + (if am_map s (key_bytes k) = None \<and> has action HV_FETCH_LVALUE then 1 else 0)\<rparr>)"
      using wr rel d(2) by (simp add: hash_rel_def keeps_def)
    with r denotes_outcome[of env w' hv' r] wr show ?thesis unfolding if_not_P[OF False] by blast
  qed
qed

lemma rel_delete:
  assumes rel: "hash_rel env w hv s" and g: "good_hash env k hash"
  shows "if am_refuses s (key_bytes k) \<and> am_alloc s \<or>
      am_locked s \<and> (\<exists>v. am_map s (key_bytes k) = Some v \<and> sv_readonly env v)
    then \<exists>er. hv_delete_common env w hv k d_flags hash = Inl er \<and> er \<noteq> Out_of_memory
    else \<exists>r w' hv'. hv_delete_common env w hv k d_flags hash = Inr (r, w', hv') \<and>
      hv_outcome hv' r = (if has d_flags G_DISCARD then None else am_map s (key_bytes k)) \<and>
      hash_rel env w' hv' (s\<lparr>am_map := (am_map s)(key_bytes k := None)\<rparr>)"
proof -
  have ok: "hv_ok env w hv" and mp: "hv_map hv = am_map s" and lk: "HvRESTRICTED hv = am_locked s" and
    lg: "am_locked s \<longrightarrow> hv_legal hv = am_legal s" and ro: "\<not> HvREADONLY hv" and
    sk: "short_keys hv" and al: "am_alloc s \<longleftrightarrow> HvARRAY hv \<noteq> None"
    using rel by (simp_all add: hash_rel_def)
  let ?refused = "am_refuses s (key_bytes k) \<and> am_alloc s \<or>
      am_locked s \<and> (\<exists>v. am_map s (key_bytes k) = Some v \<and> sv_readonly env v)"
  show ?thesis
  proof (cases "hv_delete_common env w hv k d_flags hash")
    case (Inl er)
    from hv_delete_error[OF ok g refl Inl] mp lk lg ro
    have "am_refuses s (key_bytes k) \<or> am_locked s \<and> (\<exists>v. am_map s (key_bytes k) = Some v \<and> sv_readonly env v)"
      "er \<noteq> Out_of_memory"
      by (auto simp: am_refuses_def)
    moreover have "am_alloc s" using Inl al by (cases "HvARRAY hv") (simp_all add: hv_delete_common_def)
    ultimately show ?thesis using Inl by auto
  next
    case (Inr x)
    obtain r w' hv' where x: "x = (r, w', hv')" by (metis prod_cases3)
    note dl = hv_delete_ok[OF ok g refl Inr[unfolded x]]
    have nr: "\<not> ?refused"
    proof
      assume rf: "?refused"
      then obtain a where a: "HvARRAY hv = Some a"
        using al mp lookup_map[OF ok, of "key_bytes k"] lookup_in[of hv "key_bytes k"]
        by (cases "HvARRAY hv") (auto simp: arr_def seen_def split: option.splits if_splits)
      from hv_delete_form[OF ok g a refl refl refl, of d_flags] Inr rf mp lk lg ro lookup_map[OF ok, of "key_bytes k"]
        lookup_None[of hv "key_bytes k"]
      show False by (auto simp: am_refuses_def seen_def split: option.splits if_splits)
    qed
    have sk': "short_keys hv'" using dl sk by blast
    have "hv_outcome hv' r = (if has d_flags G_DISCARD then None else am_map s (key_bytes k))"
      using dl mp by (auto simp: hv_outcome_def split: option.splits)
    moreover have "HvARRAY hv' = None \<longrightarrow> HvMAX hv' = 7"
    proof
      assume "HvARRAY hv' = None"
      then have "HvARRAY hv = None" using dl by simp
      with Inr x rel show "HvMAX hv' = 7" by (simp add: hv_delete_common_def hash_rel_def)
    qed
    then have "hash_rel env w' hv' (s\<lparr>am_map := (am_map s)(key_bytes k := None)\<rparr>)"
      using dl rel sk' by (auto simp: hash_rel_def keeps_def)
    ultimately show ?thesis unfolding if_not_P[OF nr] using Inr x by blast
  qed
qed

text \<open>One operation.\<close>

abbreviation simulates :: "henv \<Rightarrow> (hash_out \<times> hworld \<times> hv) result \<Rightarrow> (hash_out \<times> amap) option \<Rightarrow> bool" where
  "simulates env r t \<equiv>
    (case t of
       None \<Rightarrow> \<exists>er. r = Inl er \<and> er \<noteq> Out_of_memory
     | Some (out, s) \<Rightarrow> \<exists>w hv. r = Inr (out, w, hv) \<and> hash_rel env w hv s)"

lemma sim_fetch:
  assumes "hash_rel env w hv s"
  shows "simulates env (hash_do env (Op_fetch key) w hv) (am_step env (Op_fetch key) s)"
  using rel_read[OF assms good_hash_0[of env key] action_flags(5,6), of Val_null] assms action_flags(4)
  by (auto simp: hv_fetch_def hv_common_key_len_def split: if_splits)

lemma sim_exists:
  assumes "hash_rel env w hv s"
  shows "simulates env (hash_do env (Op_exists key) w hv) (am_step env (Op_exists key) s)"
  using rel_read[OF assms good_hash_0[of env key] action_flags(2,3), of Val_null] assms action_flags(1)
  by (auto simp: hv_exists_def hv_common_key_len_def)

lemma sim_store:
  assumes "hash_rel env w hv s" "roomy_env env" "short_key key"
  shows "simulates env (hash_do env (Op_store key v) w hv) (am_step env (Op_store key v) s)"
proof -
  have sv: "Val v = stored_value (HV_FETCH_ISSTORE OR HV_FETCH_JUST_SV) (am_map s key) (Val v) (am_next s)"
    using action_flags(10,11) by (auto simp: stored_value_def split: option.split)
  have "key_bytes (Pv key 0) = key" by simp
  from rel_write[OF assms(1,2) _ good_hash_0[of env key] action_flags(8,9,7), unfolded this, OF assms(3) sv]
    action_flags(10)
  show ?thesis
    by (auto simp: hv_store_def hv_common_key_len_def split: if_splits)
qed

lemma sim_lvalue:
  assumes "hash_rel env w hv s" "roomy_env env" "short_key key" "am_map s key \<noteq> Some Placeholder"
  shows "simulates env (hash_do env (Op_lvalue key) w hv) (am_step env (Op_lvalue key) s)"
proof -
  define v where "v = (case am_map s key of None \<Rightarrow> Val (am_next s) | Some v \<Rightarrow> v)"
  have sv: "v = stored_value (HV_FETCH_JUST_SV OR HV_FETCH_LVALUE) (am_map s key) Val_null (am_next s)"
    using action_flags(15,16) by (auto simp: stored_value_def v_def split: option.split)
  have np: "v \<noteq> Placeholder" using assms(4) by (auto simp: v_def split: option.split)
  have "key_bytes (Pv key 0) = key" by simp
  note wr = rel_write[OF assms(1,2) _ good_hash_0[of env key] action_flags(13,14,12), unfolded this, OF assms(3) sv np]
  show ?thesis
  proof (cases "am_map s key")
    case None
    with wr action_flags(15) show ?thesis
      by (auto simp: hv_fetch_def hv_common_key_len_def v_def split: if_splits)
  next
    case (Some u)
    then have "s\<lparr>am_map := (am_map s)(key \<mapsto> u), am_alloc := True, am_next := am_next s + 0\<rparr> = s\<lparr>am_alloc := True\<rparr>"
      by (cases s) (simp add: fun_upd_idem)
    with Some wr show ?thesis
      by (auto simp: hv_fetch_def hv_common_key_len_def v_def split: if_splits)
  qed
qed

lemma sim_delete:
  assumes "hash_rel env w hv s"
  shows "simulates env (hash_do env (Op_delete key discard) w hv) (am_step env (Op_delete key discard) s)"
proof -
  define d where "d = (if discard then G_DISCARD else 0) OR HV_DELETE"
  have dd: "has d HV_DELETE" "has d G_DISCARD = discard"
    using action_flags(17-20) by (cases discard; simp only: d_def if_True if_False simp_thms)+
  have e: "hv_delete env w hv key (if discard then G_DISCARD else 0) = hv_delete_common env w hv (Pv key 0) d 0"
    unfolding hv_delete_def hv_common_key_len_def d_def[symmetric] hv_common_def using dd(1) by simp
  show ?thesis
    using rel_delete[OF assms good_hash_0[of env key], of d] unfolding hash_do.simps e dd(2)
    by (auto split: if_splits)
qed

lemma live_dom:
  "distinct (map he_key es) \<Longrightarrow> \<forall>e \<in> set es. no_ph e \<Longrightarrow> dom (live es) = he_key ` set es"
  by (induction es) (auto simp: seen_def)

lemma arr_flag: "arr (hv\<lparr>HvRESTRICTED := b\<rparr>) = arr hv"
  by (cases "HvARRAY hv") (simp_all add: arr_def)

lemma hv_ok_flag: "hv_ok env w (hv\<lparr>HvRESTRICTED := b\<rparr>) = hv_ok env w hv"
proof -
  have "lazy_ok n (hv\<lparr>HvRESTRICTED := b\<rparr>) = lazy_ok n hv" for n
    by (cases "HvUNLINKED hv") (auto simp: lazy_ok_def HvEITER_get_def arr_flag)
  then show ?thesis by (simp add: hv_ok_def hash_fun_def arr_flag)
qed

lemma sim_lock:
  assumes "hash_rel env w hv s"
  shows "simulates env (hash_do env Op_lock w hv) (am_step env Op_lock s)"
proof -
  have ok: "hv_ok env w hv" and sk: "short_keys hv" and mx: "HvARRAY hv = None \<longrightarrow> HvMAX hv = 7"
    using assms by (simp_all add: hash_rel_def)
  from hv_clear_placeholders_ok[OF ok] obtain w1 hv1 where
    c: "hv_clear_placeholders env w hv = Inr (w1, hv1)" "hv_ok env w1 hv1" "keeps hv hv1"
      "hv_map hv1 = hv_map hv" "HvMAX hv1 = HvMAX hv" "w_next_sv w1 = w_next_sv w" "HvARRAY hv = None \<longleftrightarrow> HvARRAY hv1 = None"
      "hv_entries hv1 = filter no_ph (hv_entries hv)" by auto
  have "hv_legal hv1 \<subseteq> hv_legal hv" unfolding hv_legal_def c(8) by auto
  then have sk1: "short_keys hv1" using sk by blast
  have "dom (hv_map hv1) = hv_legal hv1"
    unfolding hv_map_def hv_legal_def using live_dom[OF tbl_okD(2)[OF hv_okD(1)[OF c(2)]]] unfolding c(8) by simp
  then have lg: "hv_legal hv1 = dom (hv_map hv)" using c(4) by simp
  have f: "hv_map (hv1\<lparr>HvRESTRICTED := True\<rparr>) = hv_map hv1" "hv_legal (hv1\<lparr>HvRESTRICTED := True\<rparr>) = hv_legal hv1"
    unfolding hv_map_def hv_legal_def arr_flag by simp_all
  have "hash_rel env w1 (hv1\<lparr>HvRESTRICTED := True\<rparr>) (s\<lparr>am_locked := True, am_legal := dom (am_map s)\<rparr>)"
    using c(2-7) sk1 lg mx assms unfolding hash_rel_def f hv_ok_flag by (simp add: keeps_def)
  with c(1) show ?thesis by simp
qed

lemma sim_unlock:
  assumes "hash_rel env w hv s"
  shows "simulates env (hash_do env Op_unlock w hv) (am_step env Op_unlock s)"
proof -
  have f: "hv_map (hv\<lparr>HvRESTRICTED := False\<rparr>) = hv_map hv" "hv_legal (hv\<lparr>HvRESTRICTED := False\<rparr>) = hv_legal hv"
    unfolding hv_map_def hv_legal_def arr_flag by simp_all
  have "hash_rel env w (hv\<lparr>HvRESTRICTED := False\<rparr>) (s\<lparr>am_locked := False\<rparr>)"
    using assms unfolding hash_rel_def f hv_ok_flag by simp
  then show ?thesis by simp
qed

text \<open>Clearing: a restricted hash keeps its legal keys, another one its array.\<close>

lemma rel_quiet:
  assumes "hash_rel env w hv s"
  shows "hv_ok env w hv" "aux_behind hv" "HvUNLINKED hv = None"
  using assms no_iter_no_lazy[OF hv_okD(6)] by (auto simp: hash_rel_def aux_behind_def)

lemma sim_clear:
  assumes "hash_rel env w hv s"
  shows "simulates env (hash_do env Op_clear w hv) (am_step env Op_clear s)"
proof -
  note q = rel_quiet[OF assms]
  obtain er w' hv' where c: "hv_clear env w hv = (er, w', hv')" by (metis prod_cases3)
  show ?thesis
  proof (cases "HvRESTRICTED hv \<and> HvARRAY hv \<noteq> None")
    case True
    then have r: "HvRESTRICTED hv" "HvARRAY hv \<noteq> None" by blast+
    note h = hv_clear_restricted[OF q(1) r q(3) c]
    show ?thesis
    proof (cases er)
      case None
      with h assms r have "hash_rel env w' hv' (s\<lparr>am_map := Map.empty\<rparr>)" by (auto simp: hash_rel_def)
      with None h assms c show ?thesis by (auto simp: hash_rel_def)
    next
      case (Some x)
      with h obtain key v where v: "x = Delete_readonly key" "hv_map hv key = Some v" "flag_restricted env v" by auto
      then have "\<exists>v \<in> ran (am_map s). flag_restricted env v" using assms by (auto simp: hash_rel_def ran_def)
      with Some v(1) assms r c show ?thesis by (auto simp: hash_rel_def)
    qed
  next
    case False
    then have r: "\<not> HvRESTRICTED hv \<or> HvARRAY hv = None" by blast
    note h = hv_clear_plain[OF q(1,2) r c]
    have l: "hv_legal hv = {} \<and> hv_map hv = Map.empty" if n: "HvARRAY hv = None"
    proof -
      have "hv_entries hv = []" unfolding arr_def n option.case by (rule concat_replicate_Nil)
      then show ?thesis unfolding hv_legal_def hv_map_def by (simp del: concat_eq_Nil_conv)
    qed
    have "hash_rel env w' hv' (s\<lparr>am_map := Map.empty\<rparr>)"
      using h r l assms by (auto simp: hash_rel_def)
    moreover have "\<not> (am_locked s \<and> (\<exists>v \<in> ran (am_map s). flag_restricted env v))"
      using r l assms by (auto simp: hash_rel_def)
    ultimately show ?thesis using h c by simp
  qed
qed

lemma sim_undef:
  assumes "hash_rel env w hv s"
  shows "simulates env (hash_do env Op_undef w hv) (am_step env Op_undef s)"
proof -
  note q = rel_quiet[OF assms]
  from hv_undef_ok[OF q(1,2)] obtain w' hv' where
    u: "hv_undef env w hv = Inr (w', hv')" "hv_ok env w' hv'" "hv_map hv' = Map.empty" "hv_legal hv' = {}"
      "HvARRAY hv' = None" "HvMAX hv' = 7" "HvAUX hv' = None" "HvRESTRICTED hv' = HvRESTRICTED hv"
      "HvREADONLY hv' = HvREADONLY hv" "w_next_sv w' = w_next_sv w" by metis
  then have "hash_rel env w' hv' (s\<lparr>am_map := Map.empty, am_legal := {}, am_alloc := False\<rparr>)"
    using assms by (simp add: hash_rel_def)
  with u(1) show ?thesis by simp
qed

lemma map_no_placeholder: "hv_map hv key \<noteq> Some Placeholder"
proof -
  have "live es key \<noteq> Some Placeholder" for es by (induction es) (auto simp: seen_def)
  then show ?thesis by (simp add: hv_map_def)
qed

lemma hash_do_sim:
  assumes rel: "hash_rel env w hv s" and m: "roomy_env env" and k: "op_key_short op"
  shows "simulates env (hash_do env op w hv) (am_step env op s)"
proof (cases op)
  case (Op_fetch key)
  show ?thesis unfolding Op_fetch by (rule sim_fetch[OF rel])
next
  case (Op_lvalue key)
  have "am_map s key \<noteq> Some Placeholder" using rel map_no_placeholder[of hv key] by (simp add: hash_rel_def)
  with sim_lvalue[OF rel m] k show ?thesis unfolding Op_lvalue by simp
next
  case (Op_store key v)
  have "short_key key" using k Op_store by simp
  then show ?thesis unfolding Op_store by (rule sim_store[OF rel m])
next
  case (Op_exists key)
  show ?thesis unfolding Op_exists by (rule sim_exists[OF rel])
next
  case (Op_delete key d)
  show ?thesis unfolding Op_delete by (rule sim_delete[OF rel])
next
  case Op_lock
  show ?thesis unfolding Op_lock by (rule sim_lock[OF rel])
next
  case Op_unlock
  show ?thesis unfolding Op_unlock by (rule sim_unlock[OF rel])
next
  case Op_clear
  show ?thesis unfolding Op_clear by (rule sim_clear[OF rel])
next
  case Op_undef
  show ?thesis unfolding Op_undef by (rule sim_undef[OF rel])
qed

lemma hash_run_sim:
  assumes "hash_rel env w hv s" "roomy_env env" "\<forall>op \<in> set ops. op_key_short op"
  shows "case am_steps env ops s of
      None \<Rightarrow> \<exists>er. hash_run env ops w hv = Inl er \<and> er \<noteq> Out_of_memory
    | Some (outs, s') \<Rightarrow> \<exists>w' hv'. hash_run env ops w hv = Inr (outs, w', hv') \<and> hash_rel env w' hv' s'"
  using assms
proof (induction ops arbitrary: w hv s)
  case (Cons op ops)
  note st = hash_do_sim[OF Cons.prems(1,2), of op]
  show ?case
  proof (cases "am_step env op s")
    case None
    with st Cons.prems(3) show ?thesis by auto
  next
    case (Some x)
    obtain out s1 where x: "x = (out, s1)" by (cases x)
    with st Some Cons.prems(3) obtain w1 hv1 where
      d: "hash_do env op w hv = Inr (out, w1, hv1)" "hash_rel env w1 hv1 s1" by auto
    have ih: "case am_steps env ops s1 of
        None \<Rightarrow> \<exists>er. hash_run env ops w1 hv1 = Inl er \<and> er \<noteq> Out_of_memory
      | Some (outs, s') \<Rightarrow> \<exists>w' hv'. hash_run env ops w1 hv1 = Inr (outs, w', hv') \<and> hash_rel env w' hv' s'"
      by (rule Cons.IH[OF d(2) Cons.prems(2)]) (use Cons.prems(3) in simp)
    show ?thesis
      using ih Some d(1) unfolding x by (cases "am_steps env ops s1") auto
  qed
qed simp

section \<open>The counters\<close>

lemma used_keys:
  assumes "hv_ok env w hv"
  shows "HvUSEDKEYS hv = int (card (dom (hv_map hv)))"
proof -
  note h = hv_okD[OF assms] and d = tbl_okD(2)[OF hv_okD(1)[OF assms]]
  have d': "distinct (map he_key (filter no_ph (hv_entries hv)))" using d by (rule distinct_map_filter)
  have "dom (hv_map hv) = he_key ` set (filter no_ph (hv_entries hv))"
    unfolding hv_map_def live_filter[OF d, symmetric] by (rule live_dom[OF d']) simp
  also have "card \<dots> = length (filter no_ph (hv_entries hv))"
    using distinct_card[OF d'] by simp
  finally have "card (dom (hv_map hv)) = length (filter no_ph (hv_entries hv))" .
  moreover have "ph_count (hv_entries hv) \<le> length (hv_entries hv)" by (simp add: ph_count_def)
  ultimately show ?thesis
    using h(4,5) length_filter_no_ph[of "hv_entries hv"] by (simp add: HvUSEDKEYS_def)
qed

section \<open>No key and no value is lost\<close>

text \<open>The values whose reference the hash takes over.\<close>

definition am_given :: "hash_op \<Rightarrow> amap \<Rightarrow> hval multiset" where
  "am_given op s =
    (case op of
       Op_store key v \<Rightarrow> {#Val v#}
     | Op_lvalue key \<Rightarrow> (if am_map s key = None then {#Val (am_next s)#} else {#})
     | _ \<Rightarrow> {#})"

fun am_given_all :: "henv \<Rightarrow> hash_op list \<Rightarrow> amap \<Rightarrow> hval multiset" where
  "am_given_all env [] s = {#}"
| "am_given_all env (op # ops) s =
    (case am_step env op s of None \<Rightarrow> {#} | Some (out, s') \<Rightarrow> am_given op s + am_given_all env ops s')"

abbreviation hv_acct :: "(hek \<Rightarrow> nat) \<Rightarrow> hval multiset \<Rightarrow> hworld \<Rightarrow> hv \<Rightarrow> bool" where
  "hv_acct oth L w hv \<equiv> acct oth L w hv (mset (hv_entries hv))"

lemma acct_read:
  assumes rel: "hash_rel env w hv s" and g: "good_hash env k hash" and d: "\<not> has action HV_DELETE"
    and st: "\<not> has action (HV_FETCH_LVALUE OR HV_FETCH_ISSTORE)"
    and r: "hv_common env w hv k action val hash = Inr (r, w', hv')" and ac: "hv_acct oth L w hv"
  shows "hv_acct oth L w' hv'"
proof -
  have "hv_ok env w hv" using rel by (simp add: hash_rel_def)
  from hv_read_ok[OF this g d st r] ac show ?thesis by simp
qed

lemma acct_write:
  assumes rel: "hash_rel env w hv s" and m: "roomy_env env" and g: "good_hash env k hash" and d: "\<not> has action HV_DELETE"
    and st: "has action (HV_FETCH_LVALUE OR HV_FETCH_ISSTORE)"
    and v: "stored_value action (am_map s (key_bytes k)) val (am_next s) \<noteq> Placeholder"
    and r: "hv_common env w hv k action val hash = Inr (r, w', hv')" and ac: "hv_acct oth L w hv"
  shows "hv_acct oth (L + counted {#taken_value action (am_map s (key_bytes k)) val (am_next s)#}) w' hv'"
proof -
  have ok: "hv_ok env w hv" and mp: "hv_map hv = am_map s" and nx: "w_next_sv w = am_next s" and ax: "HvAUX hv = None"
    using rel by (simp_all add: hash_rel_def)
  have b: "bounded_allocator (e_alloc env)" using m by (simp add: roomy_env_def)
  have "HvEITER_get hv = None" using ax by (simp add: HvEITER_get_def)
  moreover have "stored_value action (hv_map hv (key_bytes k)) val (w_next_sv w) \<noteq> Placeholder" using v mp nx by simp
  ultimately show ?thesis
    using hv_write_ok[OF ok g d st b refl _ r] ac unfolding mp nx by blast
qed

lemma hash_do_acct:
  assumes rel: "hash_rel env w hv s" and m: "roomy_env env" and ac: "hv_acct oth L w hv"
    and r: "hash_do env op w hv = Inr (out, w', hv')"
  shows "hv_acct oth (L + am_given op s) w' hv'"
proof (cases op)
  case (Op_fetch key)
  with r acct_read[OF rel good_hash_0 action_flags(5,6) _ ac] show ?thesis
    by (auto simp: hv_fetch_def hv_common_key_len_def bind_result_Inr am_given_def)
next
  case (Op_exists key)
  with r acct_read[OF rel good_hash_0 action_flags(2,3) _ ac] show ?thesis
    by (auto simp: hv_exists_def hv_common_key_len_def bind_result_Inr am_given_def)
next
  case (Op_store key v)
  have e: "stored_value (HV_FETCH_ISSTORE OR HV_FETCH_JUST_SV) old (Val v) n = Val v"
    "taken_value (HV_FETCH_ISSTORE OR HV_FETCH_JUST_SV) old (Val v) n = Val v" for old n
    using action_flags(10,11) by (auto simp: stored_value_def taken_value_def split: option.split)
  from Op_store r obtain r1 where
    "hv_common env w hv (Pv key 0) (HV_FETCH_ISSTORE OR HV_FETCH_JUST_SV) (Val v) 0 = Inr (r1, w', hv')"
    by (auto simp: hv_store_def hv_common_key_len_def bind_result_Inr)
  from acct_write[OF rel m good_hash_0 action_flags(8,7) _ this ac] show ?thesis
    by (simp add: Op_store e am_given_def)
next
  case (Op_lvalue key)
  have t: "taken_value (HV_FETCH_JUST_SV OR HV_FETCH_LVALUE) old Val_null n = (if old = None then Val n else Val_null)" for old n
    using action_flags(15,16) by (auto simp: stored_value_def taken_value_def split: option.split)
  have np: "stored_value (HV_FETCH_JUST_SV OR HV_FETCH_LVALUE) (am_map s key) Val_null n \<noteq> Placeholder" for n
    using action_flags(15,16) rel map_no_placeholder[of hv key] by (auto simp: stored_value_def hash_rel_def split: option.split)
  from Op_lvalue r obtain r1 where
    "hv_common env w hv (Pv key 0) (HV_FETCH_JUST_SV OR HV_FETCH_LVALUE) Val_null 0 = Inr (r1, w', hv')"
    by (auto simp: hv_fetch_def hv_common_key_len_def bind_result_Inr)
  from acct_write[OF rel m good_hash_0 action_flags(13,12) _ this ac] np show ?thesis
    by (auto simp: Op_lvalue t am_given_def)
next
  case (Op_delete key discard)
  have ok: "hv_ok env w hv" using rel by (simp add: hash_rel_def)
  define d where "d = (if discard then G_DISCARD else 0) OR HV_DELETE"
  have "has d HV_DELETE" using action_flags(17,18) by (cases discard; simp only: d_def if_True if_False)
  then have e: "hv_delete env w hv key (if discard then G_DISCARD else 0) = hv_delete_common env w hv (Pv key 0) d 0"
    unfolding hv_delete_def hv_common_key_len_def d_def[symmetric] hv_common_def by simp
  from Op_delete r obtain r1 where "hv_delete_common env w hv (Pv key 0) d 0 = Inr (r1, w', hv')"
    unfolding Op_delete hash_do.simps e by (auto simp: bind_result_Inr)
  from hv_delete_ok[OF ok good_hash_0 refl this] ac show ?thesis by (simp add: Op_delete am_given_def)
next
  case Op_lock
  have ok: "hv_ok env w hv" using rel by (simp add: hash_rel_def)
  from hv_clear_placeholders_ok[OF ok] obtain w1 hv1 where
    cl: "hv_clear_placeholders env w hv = Inr (w1, hv1)" "hv_acct oth L w1 hv1" using ac by blast
  with Op_lock r have c: "hv_acct oth L w' hv1" "hv' = hv1\<lparr>HvRESTRICTED := True\<rparr>" by auto
  have sa: "same_account hv1 hv'" by (simp add: same_account_def c(2) HvNAME_HEK_def)
  show ?thesis using c(1) unfolding acct_cong[OF sa] by (simp add: c(2) arr_flag Op_lock am_given_def)
next
  case Op_unlock
  with r have c: "w' = w" "hv' = hv\<lparr>HvRESTRICTED := False\<rparr>" by simp_all
  have sa: "same_account hv hv'" by (simp add: same_account_def c(2) HvNAME_HEK_def)
  show ?thesis using ac unfolding acct_cong[OF sa] c(1) by (simp add: c(2) arr_flag Op_unlock am_given_def)
next
  case Op_clear
  note q = rel_quiet[OF rel]
  have c: "hv_clear env w hv = (None, w', hv')"
    using r Op_clear by (auto split: prod.splits option.splits)
  have "hv_acct oth L w' hv'"
  proof (cases "HvRESTRICTED hv \<and> HvARRAY hv \<noteq> None")
    case True
    then have "HvRESTRICTED hv" "HvARRAY hv \<noteq> None" by blast+
    from hv_clear_restricted[OF q(1) this q(3) c] ac show ?thesis by blast
  next
    case False
    then have "\<not> HvRESTRICTED hv \<or> HvARRAY hv = None" by blast
    from hv_clear_plain[OF q(1,2) this c] ac show ?thesis by blast
  qed
  then show ?thesis by (simp add: Op_clear am_given_def)
next
  case Op_undef
  note q = rel_quiet[OF rel]
  from hv_undef_ok[OF q(1,2)] obtain w1 hv1 where
    u: "hv_undef env w hv = Inr (w1, hv1)" "HvARRAY hv1 = None" "acct oth L w1 hv1 {#}" using ac by blast
  have e: "hv_entries hv1 = []" unfolding arr_def u(2) option.case by (rule concat_replicate_Nil)
  from r u(1) have "w1 = w'" "hv1 = hv'" by (simp_all add: Op_undef)
  with u(3) e show ?thesis by (simp add: Op_undef am_given_def del: concat_eq_Nil_conv)
qed

lemma hash_run_acct:
  assumes "hash_rel env w hv s" "roomy_env env" "\<forall>op \<in> set ops. op_key_short op" "hv_acct oth L w hv"
    "hash_run env ops w hv = Inr (outs, w', hv')"
  shows "hv_acct oth (L + am_given_all env ops s) w' hv'"
  using assms
proof (induction ops arbitrary: w hv s L outs)
  case (Cons op ops)
  from Cons.prems(5) obtain out w1 hv1 outs1 where
    d: "hash_do env op w hv = Inr (out, w1, hv1)" "hash_run env ops w1 hv1 = Inr (outs1, w', hv')"
    by (auto simp: bind_result_Inr)
  note st = hash_do_sim[OF Cons.prems(1,2), of op]
  obtain out1 s1 where s1: "am_step env op s = Some (out1, s1)" "hash_rel env w1 hv1 s1"
    using st Cons.prems(3) d(1) by (cases "am_step env op s") auto
  have "hv_acct oth (L + am_given op s) w1 hv1"
    by (rule hash_do_acct[OF Cons.prems(1,2,4) d(1)])
  from Cons.IH[OF s1(2) Cons.prems(2) _ this d(2)] Cons.prems(3) s1(1) show ?case by (simp add: union_assoc)
qed simp

section \<open>As a keyed store\<close>

text \<open>\<open>hv_store\<close> and \<open>hv_delete\<close> as the store, \<open>hv_fetch\<close> as the look-up, of an unrestricted hash.\<close>

definition hv_get :: "henv \<Rightarrow> hworld \<times> hv \<Rightarrow> u8 list \<Rightarrow> nat option" where
  "hv_get env t key =
    (case hv_fetch env (fst t) (snd t) key False of
       Inl er \<Rightarrow> None
     | Inr (r, w, hv) \<Rightarrow> (case hv_outcome hv r of Some (Val v) \<Rightarrow> Some v | _ \<Rightarrow> None))"

definition hv_put :: "henv \<Rightarrow> hworld \<times> hv \<Rightarrow> u8 list \<Rightarrow> nat option \<Rightarrow> (hworld \<times> hv) result" where
  "hv_put env t key v =
    bind_result
      (case v of
         None \<Rightarrow> hv_delete env (fst t) (snd t) key G_DISCARD
       | Some n \<Rightarrow> hv_store env (fst t) (snd t) key (Val n) 0)
      (\<lambda>(r, t). Inr t)"

definition hv_plain :: "henv \<Rightarrow> hworld \<times> hv \<Rightarrow> bool" where
  "hv_plain env t \<longleftrightarrow> bounded_allocator (e_alloc env) \<and> hv_ok env (fst t) (snd t) \<and> \<not> HvRESTRICTED (snd t)"

lemma hv_get_map:
  assumes "hv_plain env t"
  shows "hv_get env t key = (case hv_map (snd t) key of Some (Val v) \<Rightarrow> Some v | _ \<Rightarrow> None)"
proof -
  obtain w hv where t: "t = (w, hv)" by (cases t)
  have ok: "hv_ok env w hv" and nr: "\<not> HvRESTRICTED hv" using assms by (simp_all add: hv_plain_def t)
  obtain r where r: "hv_common env w hv (Pv key 0) HV_FETCH_JUST_SV Val_null 0 = Inr (r, w, hv)"
    using hv_read[OF ok good_hash_0[of env key] action_flags(5,6), of Val_null] nr by (auto split: option.splits)
  note rd = hv_read_ok[OF ok good_hash_0[of env key] action_flags(5,6) r]
  have "hv_outcome hv r = hv_map hv key"
  proof (cases "hv_map hv key")
    case None
    with rd show ?thesis by (simp add: hv_outcome_def)
  next
    case (Some v)
    with rd denotes_outcome[OF ok, of r key v] show ?thesis by simp
  qed
  with r show ?thesis by (simp add: hv_get_def hv_fetch_def hv_common_key_len_def t)
qed

lemma hv_put_ok:
  assumes "hv_plain env t" "hv_put env t key v = Inr t'"
  shows "hv_plain env t' \<and> hv_map (snd t') = (hv_map (snd t))(key := map_option Val v)"
proof -
  obtain w hv where t: "t = (w, hv)" by (cases t)
  obtain w' hv' where t': "t' = (w', hv')" by (cases t')
  have ok: "hv_ok env w hv" and nr: "\<not> HvRESTRICTED hv" and b: "bounded_allocator (e_alloc env)"
    using assms(1) by (simp_all add: hv_plain_def t)
  show ?thesis
  proof (cases v)
    case None
    with assms(2) obtain r where r: "hv_delete_common env w hv (Pv key 0) (G_DISCARD OR HV_DELETE) 0 = Inr (r, w', hv')"
      using action_flags(17) by (auto simp: hv_put_def t t' hv_delete_def hv_common_key_len_def hv_common_def bind_result_Inr)
    from hv_delete_ok[OF ok good_hash_0 refl r] None nr b show ?thesis by (simp add: hv_plain_def t t' keeps_def)
  next
    case (Some n)
    with assms(2) obtain r where
      r: "hv_common env w hv (Pv key 0) (HV_FETCH_ISSTORE OR HV_FETCH_JUST_SV) (Val n) 0 = Inr (r, w', hv')"
      by (auto simp: hv_put_def t t' hv_store_def hv_common_key_len_def bind_result_Inr)
    have e: "Val n = stored_value (HV_FETCH_ISSTORE OR HV_FETCH_JUST_SV) (hv_map hv (key_bytes (Pv key 0))) (Val n) (w_next_sv w)"
      using action_flags(10,11) by (auto simp: stored_value_def split: option.split)
    from hv_write_ok[OF ok good_hash_0 action_flags(8,7) b e _ r] Some nr b show ?thesis
      by (simp add: hv_plain_def t t' keeps_def)
  qed
qed

interpretation hvs: keyed_store "hv_get env" "hv_put env" "hv_plain env" for env
proof
  fix t key v t' key'
  assume p: "hv_plain env t" "hv_put env t key v = Inr t'"
  note ok = hv_put_ok[OF p]
  show "hv_plain env t'" using ok by blast
  show "hv_get env t' key' = (if key' = key then v else hv_get env t key')"
    using ok p(1) by (auto simp: hv_get_map split: option.split)
qed

lemma hv_store_all:
  assumes "hv_plain env t" "store_all (hv_put env) t kvs = Inr t'"
  shows "hv_get env t' key = (case map_of (rev kvs) key of None \<Rightarrow> hv_get env t key | Some v \<Rightarrow> v)"
  by (rule hvs.fetch_store_all[OF assms])

section \<open>The claims\<close>

definition hash_env :: henv where
  "hash_env = \<lparr>e_alloc = fixed_allocator (2 ^ 34 - 1), e_hash_seed = 0, e_rehash_seed = 0, e_readonly = (\<lambda>v. v = 7),
    e_flag_restricted = (\<lambda>_. False), e_is_method = (\<lambda>_. False), e_av_empty = (\<lambda>_. True), e_dirty = False, e_stashcache = True\<rparr>"

definition hworld0 :: hworld where
  "hworld0 = \<lparr>w_strtab = strtab0, w_next_he = 0, w_next_sv = 100, w_log = []\<rparr>"

lemma roomy_hash_env: "roomy_env hash_env"
  by (auto simp: roomy_env_def hash_env_def bounded_allocator_def roomy_for_keys_def fixed_allocator_def newx_def)

lemma hash_map_run:
  assumes "roomy_env env" "\<forall>op \<in> set ops. op_key_short op"
  shows "case am_steps env ops (am0 w) of
      None \<Rightarrow> \<exists>er. hash_run env ops w newHV = Inl er \<and> er \<noteq> Out_of_memory
    | Some (outs, s) \<Rightarrow> \<exists>w' hv'. hash_run env ops w newHV = Inr (outs, w', hv') \<and>
        hv_map hv' = am_map s \<and> HvUSEDKEYS hv' = int (card (dom (am_map s)))"
  using hash_run_sim[OF hash_rel0 assms, of w] used_keys unfolding hash_rel_def
  by (auto split: option.splits)

text \<open>
  C2: a hash is a finite map. Any sequence of fetches, lvalue fetches, stores, existence tests, deletions,
  locking and unlocking of a new hash gives exactly the results of the same sequence on a map with
  a set of legal keys, and is refused exactly where the specification refuses; at the end the
  live keys and \<open>HvUSEDKEYS\<close> are those of the map.
\<close>

theorem hash_is_a_map:
  assumes "roomy_env env" "\<forall>op \<in> set ops. op_key_short op"
  shows "case am_steps env ops (am0 w) of
      None \<Rightarrow> \<exists>er. hash_run env ops w newHV = Inl er \<and> er \<noteq> Out_of_memory
    | Some (outs, s) \<Rightarrow> \<exists>w' hv'. hash_run env ops w newHV = Inr (outs, w', hv') \<and>
        hv_map hv' = am_map s \<and> HvUSEDKEYS hv' = int (card (dom (am_map s)))"
  using assms by (rule hash_map_run)

lemma hash_is_a_map_witness:
  "\<exists>w' hv'. hash_run hash_env [Op_store [97] 1, Op_store [98] 2, Op_delete [98] False, Op_lock, Op_exists [98], Op_store [97] 3]
      hworld0 newHV = Inr ([Out_val (Some (Val 1)), Out_val (Some (Val 2)), Out_val (Some (Val 2)), Out_none,
        Out_bool False, Out_val (Some (Val 3))], w', hv') \<and> HvUSEDKEYS hv' = 1"
proof -
  let ?ops = "[Op_store [97] 1, Op_store [98] 2, Op_delete [98] False, Op_lock, Op_exists [98], Op_store [97] 3]"
  have s: "am_steps hash_env ?ops (am0 hworld0) = Some ([Out_val (Some (Val 1)), Out_val (Some (Val 2)),
      Out_val (Some (Val 2)), Out_none, Out_bool False, Out_val (Some (Val 3))],
    \<lparr>am_map = [[97] \<mapsto> Val 3], am_legal = {[97]}, am_locked = True, am_alloc = True, am_next = 100\<rparr>)"
    by (simp add: am0_def am_refuses_def hworld0_def)
  have "\<forall>op \<in> set ?ops. op_key_short op" by (simp add: short_key_def)
  from hash_is_a_map[OF roomy_hash_env this, of hworld0] show ?thesis unfolding s by (auto simp del: hash_run.simps)
qed

lemma hash_run_final:
  assumes "roomy_env env" "\<forall>op \<in> set ops. op_key_short op" "hash_run env ops w newHV = Inr (outs, w', hv')"
  shows "\<exists>s. hash_rel env w' hv' s"
  using hash_run_sim[OF hash_rel0 assms(1,2), of w] assms(3) by (cases "am_steps env ops (am0 w)") auto

lemma hash_run_conserves:
  assumes m: "roomy_env env" and k: "\<forall>op \<in> set ops. op_key_short op" and st: "st_ok (w_strtab w)"
    and r: "hash_run env ops w newHV = Inr (outs, w', hv')"
  shows "refs (w_strtab w') h = refs (w_strtab w) h +
      (if HvSHAREKEYS hv' then count (mset (map he_hek (hv_entries hv'))) h else 0) \<and>
    counted (mset (map he_val (hv_entries hv'))) + counted (released (w_log w')) =
      am_given_all env ops (am0 w) + counted (released (w_log w))"
proof -
  have e: "hv_entries newHV = []" by (simp only: arr_def newHV_def hv.simps option.case concat_replicate_Nil)
  have "hv_acct (refs (w_strtab w)) (counted (released (w_log w))) w newHV"
    unfolding acct_def e using st by (simp add: hek_uses_def held_entries_def newHV_def HvNAME_HEK_def)
  from hash_run_acct[OF hash_rel0 m k this r]
  have ac: "hv_acct (refs (w_strtab w)) (counted (released (w_log w)) + am_given_all env ops (am0 w)) w' hv'" .
  obtain s where "hash_rel env w' hv' s" using hash_run_final[OF m k r] ..
  then have ax: "HvAUX hv' = None" and ok: "hv_ok env w' hv'" by (simp_all add: hash_rel_def)
  have "HvUNLINKED hv' = None" by (rule lazy_ok_None[OF hv_okD(6)[OF ok]]) (simp add: HvEITER_get_def ax)
  then have he: "held_entries hv' E = E" for E by (simp add: held_entries_def)
  have nm: "HvNAME_HEK hv' = None" by (simp add: HvNAME_HEK_def ax)
  show ?thesis using ac unfolding acct_def hek_uses_def he nm by (simp add: ac_simps)
qed

text \<open>
  C11: no key and no value is lost or released twice by the nine operations of \<open>hash_run\<close> (fetch, lvalue
  fetch, store, existence test, delete, lock, unlock, clear and undef). After any sequence of them that a new hash
  goes through without dying, on a well-formed string table, each
  shared key has as many more references in the string table as there are entries with it (a
  hash that was rehashed has none there), and the values handed to the hash are those it holds and those it has
  released or handed out, each once. The keys have fewer than \<open>2 ^ 31\<close> bytes and there is memory
  for them, but not for arrays of \<open>2 ^ 34\<close> bytes. The hash has no iterator and is never given the placeholder as a value: clearing a restricted hash whose
  current entry was deleted does leak that entry, and a stored placeholder is not counted.
\<close>

theorem hash_conserves:
  assumes "roomy_env env" "\<forall>op \<in> set ops. op_key_short op" "st_ok (w_strtab w)"
    "hash_run env ops w newHV = Inr (outs, w', hv')"
  shows "refs (w_strtab w') h = refs (w_strtab w) h +
      (if HvSHAREKEYS hv' then count (mset (map he_hek (hv_entries hv'))) h else 0) \<and>
    counted (mset (map he_val (hv_entries hv'))) + counted (released (w_log w')) =
      am_given_all env ops (am0 w) + counted (released (w_log w))"
  using assms by (rule hash_run_conserves)

lemma hash_conserves_witness:
  "\<exists>outs w' hv'. hash_run hash_env [Op_store [97] 1, Op_store [97] 2, Op_delete [97] True] hworld0 newHV = Inr (outs, w', hv') \<and>
    counted (mset (map he_val (hv_entries hv'))) + counted (released (w_log w')) = {#Val 1, Val 2#}"
proof -
  let ?ops = "[Op_store [97] 1, Op_store [97] 2, Op_delete [97] True]"
  have k: "\<forall>op \<in> set ?ops. op_key_short op" by (simp add: short_key_def)
  have st: "st_ok (w_strtab hworld0)" using strtab0_ok by (simp add: hworld0_def)
  have s: "am_steps hash_env ?ops (am0 hworld0) = Some ([Out_val (Some (Val 1)), Out_val (Some (Val 2)), Out_val None],
    \<lparr>am_map = Map.empty, am_legal = {}, am_locked = False, am_alloc = True, am_next = 100\<rparr>)"
    by (simp add: am0_def am_refuses_def hworld0_def fun_upd_idem)
  from hash_map_run[OF roomy_hash_env k, of hworld0] obtain outs w' hv' where
    r: "hash_run hash_env ?ops hworld0 newHV = Inr (outs, w', hv')"
    unfolding s by (auto simp del: hash_run.simps)
  have "am_given_all hash_env ?ops (am0 hworld0) = {#Val 1, Val 2#}"
    by (simp add: am0_def am_refuses_def am_given_def)
  then have "counted (mset (map he_val (hv_entries hv'))) + counted (released (w_log w')) = {#Val 1, Val 2#}"
    using hash_conserves[OF roomy_hash_env k st r] by (simp add: released_def hworld0_def)
  with r show ?thesis by blast
qed

lemma hash_run_typed:
  assumes "roomy_env env" "\<forall>op \<in> set ops. op_key_short op" "hash_run env ops w newHV = Inr (outs, w', hv')"
  shows "(\<exists>k \<le> 30. HvMAX hv' + 1 = 2 ^ k \<and> length (arr hv') = 2 ^ k) \<and>
    (\<forall>i < length (arr hv'). \<forall>e \<in> set (arr hv' ! i).
      he_hash e = perl_hash (if HvREHASH hv' then e_rehash_seed env else e_hash_seed env) (he_key e) \<and>
      unat (he_hash e) mod (HvMAX hv' + 1) = i) \<and>
    distinct (map he_key (hv_entries hv')) \<and>
    HvFILL hv' = length (filter (\<lambda>c. c \<noteq> []) (arr hv')) \<and> HvTOTALKEYS hv' = length (hv_entries hv') \<and>
    HvPLACEHOLDERS hv' = length (filter is_ph (hv_entries hv'))"
proof -
  obtain s where "hash_rel env w' hv' s" using hash_run_final[OF assms] ..
  then have ok: "hv_ok env w' hv'" by (simp add: hash_rel_def)
  note h = hv_okD[OF ok] and t = tbl_okD[OF hv_okD(1)[OF ok]]
  obtain k where k: "k \<le> 30" "length (arr hv') = 2 ^ k" using t(4) by blast
  have "he_hash e = perl_hash (if HvREHASH hv' then e_rehash_seed env else e_hash_seed env) (he_key e) \<and>
      unat (he_hash e) mod (HvMAX hv' + 1) = i" if "i < length (arr hv')" "e \<in> set (arr hv' ! i)" for i e
  proof -
    have "e \<in> set (hv_entries hv')" using in_concat_nth[OF that] .
    moreover have "bucket_of (he_hash e) (2 ^ k - 1) = i" using t(1) that k by (simp add: well_placed_def)
    moreover have "bucket_of (he_hash e) (2 ^ k - 1) = unat (he_hash e) mod 2 ^ k" using bucket_of_mod[of k] k(1) by simp
    moreover have "HvMAX hv' + 1 = 2 ^ k" using h(2) k(2) by simp
    ultimately show ?thesis using t(6)[of e] by (simp add: hash_fun_def)
  qed
  moreover have "HvMAX hv' + 1 = 2 ^ k" using h(2) k(2) by simp
  ultimately show ?thesis
    using k h(3-5) t(2) unfolding fill_count_def ph_count_def by blast
qed

text \<open>
  C17: the representation of a hash stays well formed: after any sequence of the nine operations of \<open>hash_run\<close>
  that a new hash goes through without dying there is a power of two of buckets, every
  entry is in the bucket of its hash value, under the hash function the hash uses now, no key is there
  twice, and \<open>xhv_fill\<close>, \<open>xhv_keys\<close> and the number of placeholders are exact. The keys have fewer than
  \<open>2 ^ 31\<close> bytes and there is memory for them, but not for arrays of \<open>2 ^ 34\<close> bytes; the hash has no iterator, and the placeholder itself is
  never stored (\<open>hv_store\<close> of it over a live key does not count it).
\<close>

theorem hash_well_formed:
  assumes "roomy_env env" "\<forall>op \<in> set ops. op_key_short op" "hash_run env ops w newHV = Inr (outs, w', hv')"
  shows "(\<exists>k \<le> 30. HvMAX hv' + 1 = 2 ^ k \<and> length (arr hv') = 2 ^ k) \<and>
    (\<forall>i < length (arr hv'). \<forall>e \<in> set (arr hv' ! i).
      he_hash e = perl_hash (if HvREHASH hv' then e_rehash_seed env else e_hash_seed env) (he_key e) \<and>
      unat (he_hash e) mod (HvMAX hv' + 1) = i) \<and>
    distinct (map he_key (hv_entries hv')) \<and>
    HvFILL hv' = length (filter (\<lambda>c. c \<noteq> []) (arr hv')) \<and> HvTOTALKEYS hv' = length (hv_entries hv') \<and>
    HvPLACEHOLDERS hv' = length (filter is_ph (hv_entries hv'))"
  using assms by (rule hash_run_typed)

lemma hash_well_formed_witness:
  "\<exists>outs w' hv'. hash_run hash_env [Op_store [97] 1, Op_lock, Op_delete [97] True] hworld0 newHV = Inr (outs, w', hv') \<and>
    HvPLACEHOLDERS hv' = length (filter is_ph (hv_entries hv'))"
proof -
  let ?ops = "[Op_store [97] 1, Op_lock, Op_delete [97] True]"
  have k: "\<forall>op \<in> set ?ops. op_key_short op" by (simp add: short_key_def)
  have s: "am_steps hash_env ?ops (am0 hworld0) = Some ([Out_val (Some (Val 1)), Out_none, Out_val None],
    \<lparr>am_map = Map.empty, am_legal = {[97]}, am_locked = True, am_alloc = True, am_next = 100\<rparr>)"
    by (simp add: am0_def am_refuses_def hworld0_def fun_upd_idem sv_readonly_def hash_env_def)
  from hash_map_run[OF roomy_hash_env k, of hworld0] obtain outs w' hv' where
    r: "hash_run hash_env ?ops hworld0 newHV = Inr (outs, w', hv')"
    unfolding s by (auto simp del: hash_run.simps)
  with hash_well_formed[OF roomy_hash_env k r] show ?thesis by blast
qed

end
