(* ===== verification/Hash_Iter.thy ===== *)
theory Hash_Iter
  imports Hash_Map
begin

text \<open>
  The iterator of a hash (\<open>hv_iterinit\<close>, \<open>hv_iternext_flags\<close> and their accessors). The lemmas show that a
  loop over a hash ends and visits every live key exactly once, also when the loop deletes
  entries it is at.
\<close>

section \<open>The auxiliary structure\<close>

definition hv_iterinit :: "henv \<Rightarrow> hworld \<Rightarrow> hv \<Rightarrow> (nat \<times> hworld \<times> hv) result" where
  "hv_iterinit env w hv =
    (case HvAUX hv of
       Some iter \<Rightarrow>
         (case free_lazy env w hv (aux_eiter iter) of (w, hv) \<Rightarrow>
           Inr (HvTOTALKEYS hv, w, hv\<lparr>HvAUX := Some (iter\<lparr>aux_riter := -1, aux_eiter := None\<rparr>)\<rparr>))
     | None \<Rightarrow> bind_result (hv_auxinit env hv) (\<lambda>hv. Inr (HvTOTALKEYS hv, w, hv)))"

text \<open>\<open>hv_riter_set\<close> and \<open>hv_eiter_set\<close>, which make no structure for the default values.\<close>

definition hv_riter_set :: "henv \<Rightarrow> hv \<Rightarrow> int \<Rightarrow> hv result" where
  "hv_riter_set env hv riter =
    (case HvAUX hv of
       Some iter \<Rightarrow> Inr (hv\<lparr>HvAUX := Some (iter\<lparr>aux_riter := riter\<rparr>)\<rparr>)
     | None \<Rightarrow> if riter = -1 then Inr hv
         else bind_result (hv_auxinit env hv) (\<lambda>hv. Inr (hv\<lparr>HvAUX := Some (aux0\<lparr>aux_riter := riter\<rparr>)\<rparr>)))"

definition hv_eiter_set :: "henv \<Rightarrow> hv \<Rightarrow> nat option \<Rightarrow> hv result" where
  "hv_eiter_set env hv eiter =
    (case HvAUX hv of
       Some iter \<Rightarrow> Inr (hv\<lparr>HvAUX := Some (iter\<lparr>aux_eiter := eiter\<rparr>)\<rparr>)
     | None \<Rightarrow> if eiter = None then Inr hv
         else bind_result (hv_auxinit env hv) (\<lambda>hv. Inr (hv\<lparr>HvAUX := Some (aux0\<lparr>aux_eiter := eiter\<rparr>)\<rparr>)))"

text \<open>\<open>hv_riter_p\<close> and \<open>hv_eiter_p\<close>: what they point to, and the hash with the structure made.\<close>

definition hv_riter_p :: "henv \<Rightarrow> hv \<Rightarrow> (int \<times> hv) result" where
  "hv_riter_p env hv =
    (case HvAUX hv of
       Some iter \<Rightarrow> Inr (aux_riter iter, hv)
     | None \<Rightarrow> bind_result (hv_auxinit env hv) (\<lambda>hv. Inr (aux_riter aux0, hv)))"

definition hv_eiter_p :: "henv \<Rightarrow> hv \<Rightarrow> (nat option \<times> hv) result" where
  "hv_eiter_p env hv =
    (case HvAUX hv of
       Some iter \<Rightarrow> Inr (aux_eiter iter, hv)
     | None \<Rightarrow> bind_result (hv_auxinit env hv) (\<lambda>hv. Inr (aux_eiter aux0, hv)))"

definition hv_backreferences_p :: "henv \<Rightarrow> hv \<Rightarrow> (nat option \<times> hv) result" where
  "hv_backreferences_p env hv =
    (case HvAUX hv of
       Some iter \<Rightarrow> Inr (aux_backreferences iter, hv)
     | None \<Rightarrow> bind_result (hv_auxinit env hv) (\<lambda>hv. Inr (aux_backreferences aux0, hv)))"

section \<open>Stepping\<close>

definition HV_ITERNEXT_WANTPLACEHOLDERS :: u32 where "HV_ITERNEXT_WANTPLACEHOLDERS = 0x01"

text \<open>The chain from an address on; nothing when no entry of the array has it.\<close>

definition chain_from :: "hent list list \<Rightarrow> nat \<Rightarrow> hent list option" where
  "chain_from a addr =
    (case find (\<lambda>c. \<exists>e \<in> set c. he_addr e = addr) a of
       None \<Rightarrow> None
     | Some c \<Rightarrow> Some (dropWhile (\<lambda>e. he_addr e \<noteq> addr) c))"

text \<open>\<open>HeNEXT(entry)\<close> and what follows. An address that is no entry's is a wild pointer.\<close>

definition follow :: "hv \<Rightarrow> nat \<Rightarrow> hent list result" where
  "follow hv addr =
    (case HvUNLINKED hv of
       Some (e, n) \<Rightarrow>
         if he_addr e = addr then
           (case n of
              None \<Rightarrow> Inr []
            | Some addr' \<Rightarrow> (case chain_from (arr hv) addr' of None \<Rightarrow> Inl Null_pointer | Some es \<Rightarrow> Inr es))
         else (case chain_from (arr hv) addr of None \<Rightarrow> Inl Null_pointer | Some es \<Rightarrow> Inr (tl es))
     | None \<Rightarrow> (case chain_from (arr hv) addr of None \<Rightarrow> Inl Null_pointer | Some es \<Rightarrow> Inr (tl es)))"

definition skip_ph :: "bool \<Rightarrow> hent list \<Rightarrow> hent list" where
  "skip_ph want es = (if want then es else dropWhile is_ph es)"

text \<open>``Come to the end of the current list. Grab the next one.''\<close>

function scan_buckets :: "bool \<Rightarrow> hent list list \<Rightarrow> nat \<Rightarrow> int \<Rightarrow> int \<times> hent list" where
  "scan_buckets want a xhv_max riter =
    (let riter = riter + 1 in
     if riter > int xhv_max then (-1, [])
     else let es = skip_ph want (a ! nat riter) in
       if es \<noteq> [] then (riter, es) else scan_buckets want a xhv_max riter)"
  by auto
termination by (relation "measure (\<lambda>(want, a, xhv_max, riter). nat (int xhv_max - riter))") auto

declare scan_buckets.simps [simp del]

definition hv_iternext_flags :: "henv \<Rightarrow> hworld \<Rightarrow> hv \<Rightarrow> u32 \<Rightarrow> (nat option \<times> hworld \<times> hv) result" where
  "hv_iternext_flags env w hv flags =
    bind_result
      (case HvAUX hv of
         Some iter \<Rightarrow> Inr (iter, w, hv)
       | None \<Rightarrow> bind_result (hv_iterinit env w hv) (\<lambda>(n, w, hv). Inr (aux0, w, hv)))
      (\<lambda>(iter, w, hv).
        let want = has flags HV_ITERNEXT_WANTPLACEHOLDERS; oldentry = aux_eiter iter in
        bind_result (case oldentry of None \<Rightarrow> Inr [] | Some addr \<Rightarrow> bind_result (follow hv addr) (\<lambda>es. Inr (skip_ph want es)))
          (\<lambda>es.
            if es = [] \<and> aux_riter iter < -1 then Inl Null_pointer
            else let (riter, es) =
                (if es \<noteq> [] then (aux_riter iter, es) else scan_buckets want (arr hv) (HvMAX hv) (aux_riter iter));
              (w, hv) = free_lazy env w hv oldentry
            in Inr (next_addr es, w, hv\<lparr>HvAUX := Some (iter\<lparr>aux_riter := riter, aux_eiter := next_addr es\<rparr>)\<rparr>)))"

definition hv_iternext :: "henv \<Rightarrow> hworld \<Rightarrow> hv \<Rightarrow> (nat option \<times> hworld \<times> hv) result" where
  "hv_iternext env w hv = hv_iternext_flags env w hv 0"

definition hv_iterkey :: "hv \<Rightarrow> nat \<Rightarrow> u8 list option" where
  "hv_iterkey hv addr = map_option he_key (entry_at hv addr)"

definition hv_iterval :: "hv \<Rightarrow> nat \<Rightarrow> hval option" where
  "hv_iterval hv addr = map_option he_val (entry_at hv addr)"

definition hv_iternextsv ::
  "henv \<Rightarrow> hworld \<Rightarrow> hv \<Rightarrow> ((u8 list option \<times> hval option) option \<times> hworld \<times> hv) result" where
  "hv_iternextsv env w hv =
    bind_result (hv_iternext_flags env w hv 0)
      (\<lambda>(he, w, hv).
        case he of
          None \<Rightarrow> Inr (None, w, hv)
        | Some addr \<Rightarrow> Inr (Some (hv_iterkey hv addr, hv_iterval hv addr), w, hv))"

section \<open>A loop over a hash\<close>

text \<open>
  The loop of a client: \<open>hv_iterinit\<close>, then \<open>hv_iternext\<close> until it gives NULL. The key and value
  of every entry are collected; the entries whose key satisfies \<open>del\<close> are deleted on the way.
  \<open>fuel\<close> bounds the number of rounds; None is a loop that needs more.
\<close>

fun each_loop ::
  "nat \<Rightarrow> henv \<Rightarrow> (u8 list \<Rightarrow> bool) \<Rightarrow> hworld \<Rightarrow> hv \<Rightarrow> ((u8 list \<times> hval) list \<times> hworld \<times> hv) result option" where
  "each_loop 0 env del w hv = None"
| "each_loop (Suc fuel) env del w hv =
    (case hv_iternext env w hv of
       Inl er \<Rightarrow> Some (Inl er)
     | Inr (None, w, hv) \<Rightarrow> Some (Inr ([], w, hv))
     | Inr (Some addr, w, hv) \<Rightarrow>
        (case (hv_iterkey hv addr, hv_iterval hv addr) of
           (Some key, Some val) \<Rightarrow>
             (case (if del key then hv_delete env w hv key G_DISCARD else Inr (Ret_null, w, hv)) of
                Inl er \<Rightarrow> Some (Inl er)
              | Inr (r, w, hv) \<Rightarrow>
                 (case each_loop fuel env del w hv of
                    None \<Rightarrow> None
                  | Some (Inl er) \<Rightarrow> Some (Inl er)
                  | Some (Inr (kvs, w, hv)) \<Rightarrow> Some (Inr ((key, val) # kvs, w, hv))))
         | _ \<Rightarrow> Some (Inl Null_pointer)))"

definition each ::
  "nat \<Rightarrow> henv \<Rightarrow> (u8 list \<Rightarrow> bool) \<Rightarrow> hworld \<Rightarrow> hv \<Rightarrow> ((u8 list \<times> hval) list \<times> hworld \<times> hv) result option" where
  "each fuel env del w hv =
    (case hv_iterinit env w hv of
       Inl er \<Rightarrow> Some (Inl er)
     | Inr (n, w, hv) \<Rightarrow> each_loop fuel env del w hv)"

section \<open>Where the iterator is\<close>

lemma chain_from_at:
  assumes "distinct (map he_addr (concat a))" "i < length a" "a ! i = pre @ e # post"
  shows "chain_from a (he_addr e) = Some (e # post)"
proof -
  have sp: "a = take i a @ (pre @ e # post) # drop (Suc i) a" using assms(2,3) by (metis id_take_nth_drop)
  then have d: "distinct (map he_addr (concat (take i a) @ (pre @ e # post) @ concat (drop (Suc i) a)))"
    using assms(1) by (metis concat.simps(2) concat_append)
  have no: "\<forall>c \<in> set (take i a). \<not> (\<exists>d \<in> set c. he_addr d = he_addr e)"
  proof (intro ballI notI)
    fix c assume "c \<in> set (take i a)" "\<exists>d \<in> set c. he_addr d = he_addr e"
    then have "he_addr e \<in> he_addr ` set (concat (take i a))" by (metis image_eqI in_set_conv_nth in_concat_nth)
    with d show False by auto
  qed
  have "find (\<lambda>c. \<exists>d \<in> set c. he_addr d = he_addr e) (xs @ (pre @ e # post) # ys) = Some (pre @ e # post)"
    if "\<forall>c \<in> set xs. \<not> (\<exists>d \<in> set c. he_addr d = he_addr e)" for xs ys
    using that by (induction xs) auto
  from this[OF no, of "drop (Suc i) a"] have f: "find (\<lambda>c. \<exists>d \<in> set c. he_addr d = he_addr e) a = Some (pre @ e # post)"
    using sp by simp
  have "he_addr e \<notin> he_addr ` set pre" using d by simp
  then have "\<forall>d \<in> set pre. he_addr d \<noteq> he_addr e" by (metis imageI)
  then have "dropWhile (\<lambda>d. he_addr d \<noteq> he_addr e) (pre @ e # post) = e # post"
    by (simp add: dropWhile_append)
  then show ?thesis by (simp add: chain_from_def f)
qed

text \<open>
  \<open>post\<close> is what follows the entry the iterator is at in its chain; nothing when it is at no
  entry.
\<close>

definition iter_pos :: "hv \<Rightarrow> int \<Rightarrow> hent list \<Rightarrow> bool" where
  "iter_pos hv riter post \<longleftrightarrow>
    (\<exists>iter. HvAUX hv = Some iter \<and> aux_riter iter = riter \<and>
      (case aux_eiter iter of
         None \<Rightarrow> riter = -1 \<and> post = [] \<and> HvUNLINKED hv = None
       | Some addr \<Rightarrow> 0 \<le> riter \<and> nat riter < length (arr hv) \<and>
          (HvUNLINKED hv = None \<and> (\<exists>pre e. arr hv ! nat riter = pre @ e # post \<and> he_addr e = addr) \<or>
           (\<exists>pre e. HvUNLINKED hv = Some (e, next_addr post) \<and> he_addr e = addr \<and> arr hv ! nat riter = pre @ post))))"

definition todo :: "hv \<Rightarrow> int \<Rightarrow> hent list \<Rightarrow> hent list" where
  "todo hv riter post = filter no_ph (post @ concat (drop (nat (riter + 1)) (arr hv)))"

lemma follow_post:
  assumes ok: "hv_ok env w hv" and ip: "iter_pos hv riter post" and ei: "HvEITER_get hv = Some addr"
  shows "follow hv addr = Inr post"
proof -
  have d: "distinct (map he_addr (hv_entries hv))" by (rule tbl_okD(3)[OF hv_okD(1)[OF ok]])
  from ip ei have i: "nat riter < length (arr hv)" and
    c: "HvUNLINKED hv = None \<and> (\<exists>pre e. arr hv ! nat riter = pre @ e # post \<and> he_addr e = addr) \<or>
      (\<exists>pre e. HvUNLINKED hv = Some (e, next_addr post) \<and> he_addr e = addr \<and> arr hv ! nat riter = pre @ post)"
    by (auto simp: iter_pos_def HvEITER_get_def)
  from c show ?thesis
  proof (elim disjE conjE exE)
    fix pre e assume "HvUNLINKED hv = None" "arr hv ! nat riter = pre @ e # post" "he_addr e = addr"
    with chain_from_at[OF d i] show ?thesis by (auto simp: follow_def)
  next
    fix pre e assume u: "HvUNLINKED hv = Some (e, next_addr post)" "he_addr e = addr" "arr hv ! nat riter = pre @ post"
    show ?thesis
    proof (cases post)
      case Nil
      with u show ?thesis by (simp add: follow_def next_addr_def)
    next
      case (Cons x xs)
      with u chain_from_at[OF d i, of pre x xs] show ?thesis by (simp add: follow_def next_addr_def)
    qed
  qed
qed

section \<open>The next entry\<close>

lemma dropWhile_ph:
  "if filter no_ph c = [] then dropWhile is_ph c = []
   else \<exists>pre e post. c = pre @ e # post \<and> dropWhile is_ph c = e # post \<and> no_ph e \<and> filter no_ph c = e # filter no_ph post"
proof (induction c)
  case (Cons x c)
  show ?case
  proof (cases "no_ph x")
    case True
    then show ?thesis by auto
  next
    case False
    with Cons show ?thesis
      by (auto split: if_splits intro: exI[of _ "x # pre" for pre])
  qed
qed simp

lemma scan_buckets_result:
  "length a = m + 1 \<Longrightarrow> -1 \<le> riter \<Longrightarrow>
   (if filter no_ph (concat (drop (nat (riter + 1)) a)) = [] then scan_buckets False a m riter = (-1, [])
    else \<exists>r pre e post. scan_buckets False a m riter = (r, e # post) \<and> 0 \<le> r \<and> nat r < length a \<and>
      a ! nat r = pre @ e # post \<and> no_ph e \<and>
      filter no_ph (concat (drop (nat (riter + 1)) a)) = e # filter no_ph (post @ concat (drop (nat (r + 1)) a)))"
proof (induction "False" a m riter rule: scan_buckets.induct)
  case (1 a m riter)
  let ?r = "riter + 1"
  show ?case
  proof (cases "?r > int m")
    case True
    then have "drop (nat ?r) a = []" using 1(2) by simp
    with True show ?thesis by (simp add: scan_buckets.simps[of False a m riter])
  next
    case False
    then have rl: "nat ?r < length a" "0 \<le> ?r" using 1(2,3) by linarith+
    have dr: "drop (nat ?r) a = a ! nat ?r # drop (nat (?r + 1)) a"
      using rl by (metis Cons_nth_drop_Suc Suc_nat_eq_nat_zadd1 add.commute)
    have sc: "scan_buckets False a m riter =
        (if dropWhile is_ph (a ! nat ?r) \<noteq> [] then (?r, dropWhile is_ph (a ! nat ?r)) else scan_buckets False a m ?r)"
      using False by (simp add: scan_buckets.simps[of False a m riter] skip_ph_def Let_def)
    note dp = dropWhile_ph[of "a ! nat ?r"]
    show ?thesis
    proof (cases "filter no_ph (a ! nat ?r) = []")
      case True
      with dp have "dropWhile is_ph (a ! nat ?r) = []" by simp
      with sc have e: "scan_buckets False a m riter = scan_buckets False a m ?r" by simp
      have f: "filter no_ph (concat (drop (nat ?r) a)) = filter no_ph (concat (drop (nat (?r + 1)) a))"
        unfolding dr using True by simp
      show ?thesis unfolding e f
        by (rule 1(1)[OF refl False refl _ 1(2)]) (use True dp 1(3) in \<open>simp_all add: skip_ph_def\<close>)
    next
      case ne: False
      with dp obtain pre e post where c: "a ! nat ?r = pre @ e # post" "dropWhile is_ph (a ! nat ?r) = e # post"
        "no_ph e" "filter no_ph (a ! nat ?r) = e # filter no_ph post" by auto
      have "filter no_ph (concat (drop (nat ?r) a)) = e # filter no_ph (post @ concat (drop (nat (?r + 1)) a))"
        unfolding dr using c(4) by simp
      then show ?thesis using sc c rl by auto
    qed
  qed
qed

text \<open>What a step of the iterator leaves as it is.\<close>

definition same_hash :: "hworld \<Rightarrow> hv \<Rightarrow> hworld \<Rightarrow> hv \<Rightarrow> bool" where
  "same_hash w hv w' hv' \<longleftrightarrow> arr hv' = arr hv \<and> HvARRAY hv' \<noteq> None \<and> HvMAX hv' = HvMAX hv \<and>
    HvRESTRICTED hv' = HvRESTRICTED hv \<and> HvREADONLY hv' = HvREADONLY hv \<and> HvREHASH hv' = HvREHASH hv \<and>
    HvSHAREKEYS hv' = HvSHAREKEYS hv \<and> w_next_sv w' = w_next_sv w"

lemma arr_aux [simp]: "arr (hv\<lparr>HvAUX := x\<rparr>) = arr hv" "arr (hv\<lparr>HvLAZYDEL := l, HvUNLINKED := u\<rparr>) = arr hv"
  by (cases "HvARRAY hv"; simp add: arr_def)+

text \<open>\<open>HvLAZYDEL\<close>: the entry that was deleted under the iterator is freed, and no other.\<close>

lemma free_lazy_ok:
  assumes ok: "hv_ok env w hv" and ei: "HvEITER_get hv = Some addr \<or> HvUNLINKED hv = None"
    and f: "free_lazy env w hv (HvEITER_get hv) = (w1, hv1)"
  shows "HvUNLINKED hv1 = None \<and> \<not> HvLAZYDEL hv1 \<and> w_next_he w1 = w_next_he w \<and> w_next_sv w1 = w_next_sv w \<and>
    hv1 = hv\<lparr>HvLAZYDEL := False, HvUNLINKED := None\<rparr> \<and>
    (\<forall>oth L E. acct oth L w hv E \<longrightarrow> acct oth L w1 hv1 E)"
  using free_lazy_acct[OF hv_okD(6)[OF ok] f] .

lemma aux_step_ok:
  assumes ok: "hv_ok env w hv" and n: "w_next_he w1 = w_next_he w"
    and hv': "hv' = hv\<lparr>HvLAZYDEL := False, HvUNLINKED := None, HvAUX := Some iter\<rparr>"
  shows "hv_ok env w1 hv' \<and> arr hv' = arr hv \<and> hv_map hv' = hv_map hv"
proof -
  have a: "arr hv' = arr hv" by (cases "HvARRAY hv") (simp_all add: hv' arr_def)
  moreover have "hv_map hv' = hv_map hv" by (simp add: hv_map_def a)
  moreover have "lazy_ok k hv'" for k by (simp add: hv' lazy_ok_def)
  ultimately show ?thesis using hv_okD[OF ok] n by (simp add: hv_ok_def hv' hash_fun_def)
qed

lemma acct_aux:
  assumes "acct oth L w hv E" "HvAUX hv = Some iter" "aux_name iter' = aux_name iter"
  shows "acct oth L w (hv\<lparr>HvAUX := Some iter'\<rparr>) E"
proof -
  have "same_account hv (hv\<lparr>HvAUX := Some iter'\<rparr>)"
    using assms(2,3) by (simp add: same_account_def HvNAME_HEK_def)
  with assms(1) show ?thesis by (simp add: acct_cong)
qed

text \<open>\<open>hv_iternext\<close> gives the first entry that is still to be visited, or NULL when there is none.\<close>

lemma hv_iternext_form:
  assumes ok: "hv_ok env w hv" and ip: "iter_pos hv riter post"
  shows "\<exists>iter r es w1 hv1. HvAUX hv = Some iter \<and> aux_riter iter = riter \<and>
    (r, es) = (if dropWhile is_ph post \<noteq> [] then (riter, dropWhile is_ph post)
      else scan_buckets False (arr hv) (HvMAX hv) riter) \<and>
    free_lazy env w hv (HvEITER_get hv) = (w1, hv1) \<and>
    hv_iternext env w hv = Inr (next_addr es, w1, hv1\<lparr>HvAUX := Some (iter\<lparr>aux_riter := r, aux_eiter := next_addr es\<rparr>)\<rparr>)"
proof -
  from ip obtain iter where it: "HvAUX hv = Some iter" "aux_riter iter = riter" "-1 \<le> riter"
    by (auto simp: iter_pos_def split: option.splits)
  have ei: "HvEITER_get hv = aux_eiter iter" by (simp add: HvEITER_get_def it(1))
  have f0: "has 0 HV_ITERNEXT_WANTPLACEHOLDERS = False" by (simp add: has_def)
  have fw: "(case aux_eiter iter of None \<Rightarrow> Inr [] | Some addr \<Rightarrow> bind_result (follow hv addr) (\<lambda>es. Inr (skip_ph False es))) =
      (Inr (dropWhile is_ph post) :: hent list result)"
  proof (cases "aux_eiter iter")
    case None
    with ip it(1) have "post = []" by (auto simp: iter_pos_def)
    with None show ?thesis by simp
  next
    case (Some addr)
    with follow_post[OF ok ip] ei show ?thesis by (simp add: skip_ph_def)
  qed
  obtain r es where re: "(r, es) = (if dropWhile is_ph post \<noteq> [] then (riter, dropWhile is_ph post)
      else scan_buckets False (arr hv) (HvMAX hv) riter)" by (metis surj_pair)
  obtain w1 hv1 where fl: "free_lazy env w hv (HvEITER_get hv) = (w1, hv1)" by fastforce
  have nr: "\<not> (dropWhile is_ph post = [] \<and> aux_riter iter < -1)" using it(2,3) by simp
  have "hv_iternext env w hv = Inr (next_addr es, w1, hv1\<lparr>HvAUX := Some (iter\<lparr>aux_riter := r, aux_eiter := next_addr es\<rparr>)\<rparr>)"
    unfolding hv_iternext_def hv_iternext_flags_def it(1) option.case bind_result_simps prod.case Let_def f0 fw
      if_not_P[OF nr] unfolding it(2) ei[symmetric] re[symmetric] prod.case fl by (rule refl)
  with it re fl show ?thesis by blast
qed

text \<open>The iterator is at the entry \<open>e\<close> of the array.\<close>

definition iter_on :: "hv \<Rightarrow> int \<Rightarrow> hent \<Rightarrow> hent list \<Rightarrow> bool" where
  "iter_on hv riter e post \<longleftrightarrow> HvEITER_get hv = Some (he_addr e) \<and> HvRITER_get hv = riter \<and> 0 \<le> riter \<and>
    nat riter < length (arr hv) \<and> HvUNLINKED hv = None \<and> (\<exists>pre. arr hv ! nat riter = pre @ e # post)"

lemma iter_on_pos: "iter_on hv riter e post \<Longrightarrow> iter_pos hv riter post"
  by (auto simp: iter_on_def iter_pos_def HvEITER_get_def HvRITER_get_def split: option.splits)

lemma iter_pos_riter:
  assumes "iter_pos hv riter post" "HvAUX hv = Some iter"
  shows "aux_riter iter = riter \<and> -1 \<le> riter \<and>
    (post \<noteq> [] \<longrightarrow> 0 \<le> riter \<and> nat riter < length (arr hv) \<and> (\<exists>pre. arr hv ! nat riter = pre @ post))"
proof -
  have "\<exists>pre. arr hv ! nat riter = pre @ post" if "arr hv ! nat riter = pre @ e # post" for pre e
    using that by (intro exI[of _ "pre @ [e]"]) simp
  with assms show ?thesis by (auto simp: iter_pos_def split: option.splits)
qed

lemma next_position:
  assumes ip: "iter_pos hv riter post" and len: "length (arr hv) = HvMAX hv + 1" and ax: "HvAUX hv = Some iter"
    and r: "(r, es) = (if dropWhile is_ph post \<noteq> [] then (riter, dropWhile is_ph post)
      else scan_buckets False (arr hv) (HvMAX hv) riter)"
  shows "case todo hv riter post of
      [] \<Rightarrow> r = -1 \<and> es = []
    | e # rest \<Rightarrow> \<exists>pre post'. es = e # post' \<and> 0 \<le> r \<and> nat r < length (arr hv) \<and> arr hv ! nat r = pre @ e # post' \<and>
        no_ph e \<and> todo hv r post' = rest"
proof -
  note ir = iter_pos_riter[OF ip ax]
  show ?thesis
  proof (cases "filter no_ph post = []")
    case False
    with dropWhile_ph[of post] obtain pre e post' where d: "post = pre @ e # post'" "dropWhile is_ph post = e # post'"
      "no_ph e" "filter no_ph post = e # filter no_ph post'" by auto
    then have re: "r = riter" "es = e # post'" using r by simp_all
    have "post \<noteq> []" using d(1) by simp
    with ir obtain pre0 where p0: "0 \<le> riter" "nat riter < length (arr hv)" "arr hv ! nat riter = pre0 @ post" by blast
    have "arr hv ! nat riter = (pre0 @ pre) @ e # post'" using p0(3) d(1) by simp
    moreover have "todo hv riter post = e # todo hv riter post'" unfolding todo_def filter_append d(4) by simp
    ultimately show ?thesis using re p0 d(3) by auto
  next
    case True
    with dropWhile_ph[of post] have "dropWhile is_ph post = []" by simp
    with r have sc: "scan_buckets False (arr hv) (HvMAX hv) riter = (r, es)" by simp
    have td: "todo hv riter post = filter no_ph (concat (drop (nat (riter + 1)) (arr hv)))"
      unfolding todo_def filter_append True by simp
    note sr = scan_buckets_result[OF len, of riter, unfolded sc td[symmetric]]
    show ?thesis
    proof (cases "todo hv riter post")
      case Nil
      with sr ir show ?thesis by simp
    next
      case (Cons e rest)
      with sr ir obtain r' pre e' post' where s: "(r, es) = (r', e' # post')" "0 \<le> r'" "nat r' < length (arr hv)"
        "arr hv ! nat r' = pre @ e' # post'" "no_ph e'"
        "todo hv riter post = e' # filter no_ph (post' @ concat (drop (nat (r' + 1)) (arr hv)))" by auto
      with Cons show ?thesis by (auto simp: todo_def)
    qed
  qed
qed

lemma hv_iternext_ok:
  assumes ok: "hv_ok env w hv" and ip: "iter_pos hv riter post"
  shows "\<exists>r w' hv'. hv_iternext env w hv = Inr (r, w', hv') \<and> hv_ok env w' hv' \<and> arr hv' = arr hv \<and>
    hv_map hv' = hv_map hv \<and> HvRESTRICTED hv' = HvRESTRICTED hv \<and> HvREADONLY hv' = HvREADONLY hv \<and>
    HvUNLINKED hv' = None \<and>
    (\<forall>oth L E. acct oth L w hv E \<longrightarrow> acct oth L w' hv' E) \<and>
    (case todo hv riter post of
       [] \<Rightarrow> r = None \<and> iter_pos hv' (-1) []
     | e # rest \<Rightarrow> r = Some (he_addr e) \<and> no_ph e \<and>
         (\<exists>riter' post'. iter_on hv' riter' e post' \<and> todo hv' riter' post' = rest))"
proof -
  from hv_iternext_form[OF ok ip] obtain iter r es w1 hv1 where
    it: "HvAUX hv = Some iter" "aux_riter iter = riter" and
    re: "(r, es) = (if dropWhile is_ph post \<noteq> [] then (riter, dropWhile is_ph post)
      else scan_buckets False (arr hv) (HvMAX hv) riter)" and
    fl: "free_lazy env w hv (HvEITER_get hv) = (w1, hv1)" and
    nx: "hv_iternext env w hv = Inr (next_addr es, w1, hv1\<lparr>HvAUX := Some (iter\<lparr>aux_riter := r, aux_eiter := next_addr es\<rparr>)\<rparr>)"
    by blast
  have "(\<exists>addr. HvEITER_get hv = Some addr) \<or> HvUNLINKED hv = None"
    using ip by (auto simp: iter_pos_def HvEITER_get_def split: option.splits)
  then obtain addr where "HvEITER_get hv = Some addr \<or> HvUNLINKED hv = None" by blast
  note fr = free_lazy_ok[OF ok this fl]
  define iter' where "iter' = iter\<lparr>aux_riter := r, aux_eiter := next_addr es\<rparr>"
  define hv' where "hv' = hv1\<lparr>HvAUX := Some iter'\<rparr>"
  have hv1: "hv1 = hv\<lparr>HvLAZYDEL := False, HvUNLINKED := None\<rparr>" using fr by blast
  have hv': "hv' = hv\<lparr>HvLAZYDEL := False, HvUNLINKED := None, HvAUX := Some iter'\<rparr>" by (simp add: hv'_def hv1)
  have st: "hv_ok env w1 hv' \<and> arr hv' = arr hv \<and> hv_map hv' = hv_map hv"
    using fr by (intro aux_step_ok[OF ok _ hv']) blast
  have ac: "acct oth L w1 hv' E" if "acct oth L w hv E" for oth L E
    unfolding hv'_def using fr that by (intro acct_aux[of oth L w1 hv1 E iter]) (simp_all add: hv1 it iter'_def)
  note np = next_position[OF ip hv_okD(2)[OF ok] it(1) re]
  have last: "case todo hv riter post of
       [] \<Rightarrow> next_addr es = None \<and> iter_pos hv' (-1) []
     | e # rest \<Rightarrow> next_addr es = Some (he_addr e) \<and> no_ph e \<and>
         (\<exists>riter' post'. iter_on hv' riter' e post' \<and> todo hv' riter' post' = rest)"
  proof (cases "todo hv riter post")
    case Nil
    with np show ?thesis by (simp add: iter_pos_def hv' iter'_def next_addr_def)
  next
    case (Cons e rest)
    with np obtain pre post' where p: "es = e # post'" "0 \<le> r" "nat r < length (arr hv)" "arr hv ! nat r = pre @ e # post'"
      "no_ph e" "todo hv r post' = rest" by auto
    have "iter_on hv' r e post'"
      using p(1-4) st unfolding iter_on_def by (simp add: hv' iter'_def next_addr_def HvEITER_get_def HvRITER_get_def)
    moreover have "todo hv' r post' = rest" using p(6) st by (simp add: todo_def)
    ultimately show ?thesis using Cons p(1,5) by (auto simp: next_addr_def)
  qed
  show ?thesis
    by (rule exI[of _ "next_addr es"], rule exI[of _ w1], rule exI[of _ hv'])
      (use nx[folded iter'_def hv'_def] st ac last in \<open>simp add: hv'\<close>)
qed

section \<open>Deleting the entry the iterator is at\<close>

lemma remove_first_at: "\<forall>d \<in> set pre. \<not> P d \<Longrightarrow> P e \<Longrightarrow> remove_first P (pre @ e # post) = pre @ post"
  by (induction pre) auto

lemma after_first_at: "\<forall>d \<in> set pre. \<not> P d \<Longrightarrow> P e \<Longrightarrow> after_first P (pre @ e # post) = post"
  by (induction pre) auto

lemma chain_distinct:
  assumes "distinct (map f (concat a))" "i < length a" "a ! i = pre @ e # post"
  shows "\<forall>d \<in> set pre. f d \<noteq> f e"
proof -
  have "a = take i a @ (pre @ e # post) # drop (Suc i) a" using assms(2,3) by (metis id_take_nth_drop)
  then have "distinct (map f (concat (take i a) @ (pre @ e # post) @ concat (drop (Suc i) a)))"
    using assms(1) by (metis concat.simps(2) concat_append)
  then have "f e \<notin> f ` set pre" by simp
  then show ?thesis by (metis imageI)
qed

lemma hv_delete_current:
  assumes ok: "hv_ok env w hv" and on: "iter_on hv riter e post" and live: "no_ph e"
    and nr: "\<not> HvRESTRICTED hv" "\<not> HvREADONLY hv"
  shows "\<exists>r w' hv'. hv_delete env w hv (he_key e) G_DISCARD = Inr (r, w', hv') \<and> hv_ok env w' hv' \<and>
    hv_map hv' = (hv_map hv)(he_key e := None) \<and> iter_pos hv' riter post \<and>
    todo hv' riter post = todo hv riter post \<and> \<not> HvRESTRICTED hv' \<and> \<not> HvREADONLY hv' \<and>
    (\<forall>oth L. acct oth L w hv (mset (hv_entries hv)) \<longrightarrow> acct oth L w' hv' (mset (hv_entries hv')))"
proof -
  note h = hv_okD[OF ok] and t = tbl_okD[OF hv_okD(1)[OF ok]]
  from on obtain pre where ri: "0 \<le> riter" "nat riter < length (arr hv)" "arr hv ! nat riter = pre @ e # post"
    "HvEITER_get hv = Some (he_addr e)" "HvRITER_get hv = riter" "HvUNLINKED hv = None" by (auto simp: iter_on_def)
  let ?key = "he_key e" and ?i = "nat riter" and ?P = "key_matches (hash_fun env hv (he_key e)) (he_key e)"
  define d where "d = G_DISCARD OR HV_DELETE"
  have dd: "has d HV_DELETE" "has d G_DISCARD" using action_flags(17,19) by (simp_all add: d_def)
  have dl: "hv_delete env w hv ?key G_DISCARD = hv_delete_common env w hv (Pv ?key 0) d 0"
    unfolding hv_delete_def hv_common_key_len_def d_def[symmetric] hv_common_def using dd(1) by simp
  have e: "e \<in> set (arr hv ! ?i)" using ri(3) by simp
  then have ein: "e \<in> set (hv_entries hv)" using in_concat_nth[OF ri(2)] by blast
  then have hk: "he_hash e = hash_fun env hv ?key" by (rule t(6))
  have "bucket_of (he_hash e) (length (arr hv) - 1) = ?i" using t(1) ri(2) e unfolding well_placed_def by blast
  then have bi: "bucket_of (hash_fun env hv ?key) (HvMAX hv) = ?i" using hk h(2) by simp
  have a: "HvARRAY hv = Some (arr hv)"
    using ein by (cases "HvARRAY hv") (auto simp: arr_def)
  have lk: "lookup hv ?key = Some e" unfolding lookup_def using find_unique[OF t(2) ein] by simp
  have np: "\<forall>d \<in> set pre. \<not> ?P d" using chain_distinct[OF t(2) ri(2,3)] by simp
  have pe: "?P e" using hk by simp
  have rm: "remove_first ?P (arr hv ! ?i) = pre @ post" "after_first ?P (arr hv ! ?i) = post"
    unfolding ri(3) by (rule remove_first_at[OF np pe], rule after_first_at[OF np pe])
  have to: "taken_out d w e = (Ret_null, e, w)" using dd(2) by (simp add: taken_out_def)
  define hv1 where "hv1 = hv\<lparr>HvARRAY := Some ((arr hv)[?i := pre @ post]),
      HvFILL := (if pre @ post = [] then HvFILL hv - 1 else HvFILL hv)\<rparr>"
  define hv2 where "hv2 = hv1\<lparr>HvLAZYDEL := True, HvUNLINKED := Some (e, next_addr post)\<rparr>"
  define hv' where "hv' = hv2\<lparr>HvTOTALKEYS := HvTOTALKEYS hv2 - 1\<rparr>"
  have fu: "free_unlinked env w hv1 e (next_addr post) = (w, hv2)"
    using ri(4) by (simp add: free_unlinked_def hv2_def hv1_def HvEITER_get_def)
  have kb: "key_bytes (Pv ?key 0) = ?key" by simp
  note form = hv_delete_form[OF ok good_hash_0[of env ?key] a kb[symmetric] bi[symmetric] refl, of d]
  have r: "hv_delete_common env w hv (Pv ?key 0) d 0 = Inr (Ret_null, w, hv')"
    unfolding form lk option.case to prod.case rm hv1_def[symmetric] fu hv'_def using live nr by simp
  note res = hv_delete_ok[OF ok good_hash_0[of env ?key] kb[symmetric] r]
  have arr': "arr hv' = (arr hv)[?i := pre @ post]" by (simp add: arr_def hv'_def hv2_def hv1_def)
  have ei: "HvAUX hv' = HvAUX hv" "HvUNLINKED hv' = Some (e, next_addr post)" by (simp_all add: hv'_def hv2_def hv1_def)
  from ri(4,5) obtain iter where it: "HvAUX hv = Some iter" "aux_eiter iter = Some (he_addr e)" "aux_riter iter = riter"
    by (auto simp: HvEITER_get_def HvRITER_get_def split: option.splits)
  have "iter_pos hv' riter post"
    unfolding iter_pos_def ei it(1) using it(2,3) ri(1,2) by (auto simp: arr')
  moreover have "todo hv' riter post = todo hv riter post"
    unfolding todo_def arr' using ri(1) by (simp add: nat_add_distrib)
  moreover have "\<not> HvRESTRICTED hv'" "\<not> HvREADONLY hv'" using nr by (simp_all add: hv'_def hv2_def hv1_def)
  ultimately show ?thesis using res unfolding dl r by blast
qed

section \<open>The whole loop\<close>

lemma todo_live:
  assumes "hv_ok env w hv" "e \<in> set (todo hv riter post)" "iter_pos hv riter post"
  shows "hv_map hv (he_key e) = Some (he_val e)"
proof -
  obtain iter where it: "HvAUX hv = Some iter" using assms(3) by (auto simp: iter_pos_def)
  note ir = iter_pos_riter[OF assms(3) it]
  have "set post \<subseteq> set (hv_entries hv)"
  proof (cases "post = []")
    case False
    with ir obtain pre where "nat riter < length (arr hv)" "arr hv ! nat riter = pre @ post" by blast
    then show ?thesis using in_concat_nth[of "nat riter" "arr hv"] by auto
  qed simp
  moreover have "set (concat (drop (nat (riter + 1)) (arr hv))) \<subseteq> set (hv_entries hv)"
    using set_drop_subset[of "nat (riter + 1)" "arr hv"] by auto
  ultimately have "e \<in> set (hv_entries hv)" "no_ph e" using assms(2) unfolding todo_def by auto
  then show ?thesis
    using live_in[OF tbl_okD(2)[OF hv_okD(1)[OF assms(1)]]] unfolding hv_map_def by (simp add: seen_def)
qed

lemma each_loop_ok:
  assumes "hv_ok env w hv" "iter_pos hv riter post" "\<not> HvREADONLY hv" "HvRESTRICTED hv \<longrightarrow> (\<forall>k. \<not> del k)"
    "length (todo hv riter post) < fuel"
  shows "\<exists>w' hv'. each_loop fuel env del w hv = Some (Inr (map (\<lambda>e. (he_key e, he_val e)) (todo hv riter post), w', hv')) \<and>
    hv_ok env w' hv' \<and> iter_pos hv' (-1) [] \<and>
    hv_map hv' = (\<lambda>k. if k \<in> he_key ` set (todo hv riter post) \<and> del k then None else hv_map hv k) \<and>
    (\<forall>oth L. acct oth L w hv (mset (hv_entries hv)) \<longrightarrow> acct oth L w' hv' (mset (hv_entries hv')))"
  using assms
proof (induction fuel arbitrary: w hv riter post)
  case (Suc fuel)
  note nx = hv_iternext_ok[OF Suc.prems(1,2)]
  show ?case
  proof (cases "todo hv riter post")
    case Nil
    with nx obtain w1 hv1 where
      n: "hv_iternext env w hv = Inr (None, w1, hv1)" "hv_ok env w1 hv1" "arr hv1 = arr hv" "hv_map hv1 = hv_map hv"
        "iter_pos hv1 (-1) []" "\<forall>oth L E. acct oth L w hv E \<longrightarrow> acct oth L w1 hv1 E" by auto
    then show ?thesis using Nil by (auto simp: n(3))
  next
    case (Cons e rest)
    with nx obtain w1 hv1 r1 post1 where
      n: "hv_iternext env w hv = Inr (Some (he_addr e), w1, hv1)" "hv_ok env w1 hv1" "arr hv1 = arr hv" "hv_map hv1 = hv_map hv"
        "HvRESTRICTED hv1 = HvRESTRICTED hv" "HvREADONLY hv1 = HvREADONLY hv" "HvUNLINKED hv1 = None"
        "no_ph e" "iter_on hv1 r1 e post1" "todo hv1 r1 post1 = rest"
        "\<forall>oth L E. acct oth L w hv E \<longrightarrow> acct oth L w1 hv1 E" by auto
    have "e \<in> set (hv_entries hv1)"
      using n(9) in_concat_nth[of "nat r1" "arr hv1" e] by (auto simp: iter_on_def simp del: set_concat)
    then have ea: "entry_at hv1 (he_addr e) = Some e"
      using find_unique[OF tbl_okD(3)[OF hv_okD(1)[OF n(2)]]] by (simp add: entry_at_def n(7))
    obtain r2 w2 hv2 where
      d: "(if del (he_key e) then hv_delete env w1 hv1 (he_key e) G_DISCARD else Inr (Ret_null, w1, hv1)) = Inr (r2, w2, hv2)"
        "hv_ok env w2 hv2" "iter_pos hv2 r1 post1" "todo hv2 r1 post1 = rest" "\<not> HvREADONLY hv2"
        "HvRESTRICTED hv2 \<longrightarrow> (\<forall>k. \<not> del k)"
        "hv_map hv2 = (if del (he_key e) then (hv_map hv)(he_key e := None) else hv_map hv)"
        "\<forall>oth L. acct oth L w1 hv1 (mset (hv_entries hv1)) \<longrightarrow> acct oth L w2 hv2 (mset (hv_entries hv2))"
    proof (cases "del (he_key e)")
      case True
      then have nr: "\<not> HvRESTRICTED hv1" "\<not> HvREADONLY hv1" using Suc.prems(3,4) n(5,6) by auto
      from hv_delete_current[OF n(2,9,8) nr] True n(4,10) that show ?thesis by auto
    next
      case False
      with n(2,4,5,6,10) iter_on_pos[OF n(9)] Suc.prems(3,4) that show ?thesis by auto
    qed
    have "length (todo hv2 r1 post1) < fuel" using Suc.prems(5) Cons d(4) by simp
    from Suc.IH[OF d(2,3,5,6) this] d(4) obtain w3 hv3 where
      l: "each_loop fuel env del w2 hv2 = Some (Inr (map (\<lambda>e. (he_key e, he_val e)) rest, w3, hv3))" "hv_ok env w3 hv3"
        "iter_pos hv3 (-1) []"
        "hv_map hv3 = (\<lambda>k. if k \<in> he_key ` set rest \<and> del k then None else hv_map hv2 k)"
        "\<forall>oth L. acct oth L w2 hv2 (mset (hv_entries hv2)) \<longrightarrow> acct oth L w3 hv3 (mset (hv_entries hv3))" by auto
    have lp: "each_loop (Suc fuel) env del w hv = Some (Inr ((he_key e, he_val e) # map (\<lambda>e. (he_key e, he_val e)) rest, w3, hv3))"
      using n(1) ea d(1) l(1) by (simp add: hv_iterkey_def hv_iterval_def)
    have mp: "hv_map hv3 = (\<lambda>k. if k \<in> he_key ` set (todo hv riter post) \<and> del k then None else hv_map hv k)"
      unfolding l(4) d(7) Cons by (auto simp: fun_eq_iff)
    have ac: "acct oth L w3 hv3 (mset (hv_entries hv3))" if "acct oth L w hv (mset (hv_entries hv))" for oth L
      using that n(3,11) d(8) l(5) by metis
    show ?thesis unfolding lp using l(2,3) mp ac Cons by auto
  qed
qed simp

lemma hv_iterinit_ok:
  assumes ok: "hv_ok env w hv" and m: "HvAUX hv = None \<longrightarrow> newx (e_alloc env) ((HvMAX hv + 1) * 8 + 40) 1"
  shows "\<exists>w' hv'. hv_iterinit env w hv = Inr (HvTOTALKEYS hv, w', hv') \<and> hv_ok env w' hv' \<and> arr hv' = arr hv \<and>
    iter_pos hv' (-1) [] \<and> hv_map hv' = hv_map hv \<and> HvRESTRICTED hv' = HvRESTRICTED hv \<and> HvREADONLY hv' = HvREADONLY hv \<and>
    (\<forall>oth L E. acct oth L w hv E \<longrightarrow> acct oth L w' hv' E)"
proof (cases "HvAUX hv")
  case None
  define hv' where "hv' = hv\<lparr>HvARRAY := Some (arr hv), HvAUX := Some aux0\<rparr>"
  have un: "HvUNLINKED hv = None" "\<not> HvLAZYDEL hv"
    using lazy_ok_None[OF hv_okD(6)[OF ok]] hv_okD(6)[OF ok] None by (auto simp: HvEITER_get_def lazy_ok_def)
  have i: "hv_iterinit env w hv = Inr (HvTOTALKEYS hv, w, hv')"
    using m None by (simp add: hv_iterinit_def hv_auxinit_def hv'_def)
  have a: "arr hv' = arr hv" by (simp add: arr_def hv'_def)
  have mp: "hv_map hv' = hv_map hv" by (simp add: hv_map_def a)
  have "lazy_ok k hv'" for k using un by (simp add: lazy_ok_def hv'_def)
  moreover have "hash_fun env hv' = hash_fun env hv" by (simp add: hash_fun_def hv'_def)
  moreover have "HvMAX hv' = HvMAX hv" "HvFILL hv' = HvFILL hv" "HvTOTALKEYS hv' = HvTOTALKEYS hv"
    "HvPLACEHOLDERS hv' = HvPLACEHOLDERS hv" by (simp_all add: hv'_def)
  ultimately have "hv_ok env w hv'" using hv_okD[OF ok] by (simp add: hv_ok_def a)
  moreover have "iter_pos hv' (-1) []" using un by (simp add: iter_pos_def hv'_def aux0_def)
  moreover have "same_account hv hv'" by (simp add: same_account_def hv'_def HvNAME_HEK_def None aux0_def)
  then have "acct oth L w hv' E = acct oth L w hv E" for oth L E by (rule acct_cong)
  ultimately show ?thesis using i a mp by (simp add: hv'_def)
next
  case (Some iter)
  have ei: "HvEITER_get hv = aux_eiter iter" by (simp add: HvEITER_get_def Some)
  obtain w1 hv1 where fl: "free_lazy env w hv (HvEITER_get hv) = (w1, hv1)" by fastforce
  have "(\<exists>addr. HvEITER_get hv = Some addr) \<or> HvUNLINKED hv = None"
    using lazy_ok_None[OF hv_okD(6)[OF ok]] by (cases "HvEITER_get hv") auto
  then obtain addr where "HvEITER_get hv = Some addr \<or> HvUNLINKED hv = None" by blast
  note fr = free_lazy_ok[OF ok this fl]
  define iter' where "iter' = iter\<lparr>aux_riter := -1, aux_eiter := None\<rparr>"
  define hv' where "hv' = hv1\<lparr>HvAUX := Some iter'\<rparr>"
  have hv1: "hv1 = hv\<lparr>HvLAZYDEL := False, HvUNLINKED := None\<rparr>" using fr by blast
  have hv': "hv' = hv\<lparr>HvLAZYDEL := False, HvUNLINKED := None, HvAUX := Some iter'\<rparr>" by (simp add: hv'_def hv1)
  have i: "hv_iterinit env w hv = Inr (HvTOTALKEYS hv, w1, hv')"
    using fl by (simp add: hv_iterinit_def Some ei hv'_def iter'_def hv1)
  have st: "hv_ok env w1 hv' \<and> arr hv' = arr hv \<and> hv_map hv' = hv_map hv"
    using fr by (intro aux_step_ok[OF ok _ hv']) blast
  have ac: "acct oth L w1 hv' E" if "acct oth L w hv E" for oth L E
    unfolding hv'_def using fr that by (intro acct_aux[of oth L w1 hv1 E iter]) (simp_all add: hv1 Some iter'_def)
  have "iter_pos hv' (-1) []" by (simp add: iter_pos_def hv' iter'_def)
  with i st ac show ?thesis by (simp add: hv')
qed

lemma each_ok:
  assumes ok: "hv_ok env w hv" and m: "HvAUX hv = None \<longrightarrow> newx (e_alloc env) ((HvMAX hv + 1) * 8 + 40) 1"
    and ro: "\<not> HvREADONLY hv" and rs: "HvRESTRICTED hv \<longrightarrow> (\<forall>k. \<not> del k)" and f: "card (dom (hv_map hv)) < fuel"
  shows "\<exists>kvs w' hv'. each fuel env del w hv = Some (Inr (kvs, w', hv')) \<and> hv_ok env w' hv' \<and>
    distinct (map fst kvs) \<and> set kvs = {(k, v). hv_map hv k = Some v} \<and>
    hv_map hv' = (\<lambda>k. if del k then None else hv_map hv k) \<and> HvEITER_get hv' = None \<and>
    (\<forall>oth L. acct oth L w hv (mset (hv_entries hv)) \<longrightarrow> acct oth L w' hv' (mset (hv_entries hv')))"
proof -
  from hv_iterinit_ok[OF ok m] obtain w1 hv1 where
    i: "hv_iterinit env w hv = Inr (HvTOTALKEYS hv, w1, hv1)" "hv_ok env w1 hv1" "arr hv1 = arr hv"
      "iter_pos hv1 (-1) []" "hv_map hv1 = hv_map hv" "HvRESTRICTED hv1 = HvRESTRICTED hv" "HvREADONLY hv1 = HvREADONLY hv"
      "\<forall>oth L E. acct oth L w hv E \<longrightarrow> acct oth L w1 hv1 E" by blast
  note d = tbl_okD(2)[OF hv_okD(1)[OF ok]]
  let ?t = "filter no_ph (hv_entries hv)"
  have td: "todo hv1 (-1) [] = ?t" by (simp add: todo_def i(3))
  have d': "distinct (map he_key ?t)" using d by (rule distinct_map_filter)
  have dm: "dom (hv_map hv) = he_key ` set ?t"
    unfolding hv_map_def live_filter[OF d, symmetric] by (rule live_dom[OF d']) simp
  have len: "length ?t < fuel" using f distinct_card[OF d'] unfolding dm set_map length_map by simp
  have ro1: "\<not> HvREADONLY hv1" and rs1: "HvRESTRICTED hv1 \<longrightarrow> (\<forall>k. \<not> del k)" using ro rs i(6,7) by simp_all
  have "length (todo hv1 (-1) []) < fuel" unfolding td by (rule len)
  from each_loop_ok[OF i(2,4) ro1 rs1 this, unfolded td] obtain w' hv' where
    l: "each_loop fuel env del w1 hv1 = Some (Inr (map (\<lambda>e. (he_key e, he_val e)) ?t, w', hv'))" "hv_ok env w' hv'"
      "iter_pos hv' (-1) []"
      "hv_map hv' = (\<lambda>k. if k \<in> he_key ` set ?t \<and> del k then None else hv_map hv1 k)"
      "\<forall>oth L. acct oth L w1 hv1 (mset (hv_entries hv1)) \<longrightarrow> acct oth L w' hv' (mset (hv_entries hv'))" by blast
  have "set (map (\<lambda>e. (he_key e, he_val e)) ?t) = {(k, v). hv_map hv k = Some v}" (is "?L = ?R")
  proof (intro set_eqI iffI)
    fix x assume "x \<in> ?L"
    then obtain e where "e \<in> set ?t" "x = (he_key e, he_val e)" by auto
    with live_in[OF d', of e] live_filter[OF d] show "x \<in> ?R" unfolding hv_map_def by (auto simp: seen_def)
  next
    fix x assume "x \<in> ?R"
    then obtain k v where x: "x = (k, v)" "hv_map hv k = Some v" by blast
    then have "k \<in> he_key ` set ?t" using dm by (metis domI)
    then obtain e where e: "e \<in> set ?t" "he_key e = k" by blast
    with live_in[OF d' e(1)] live_filter[OF d] x(2) have "he_val e = v" unfolding hv_map_def by (simp add: seen_def split: if_splits)
    with e x(1) show "x \<in> ?L" by force
  qed
  moreover have "distinct (map fst (map (\<lambda>e. (he_key e, he_val e)) ?t))" using d' by (simp add: comp_def)
  moreover have "hv_map hv' = (\<lambda>k. if del k then None else hv_map hv k)"
  proof
    fix k
    show "hv_map hv' k = (if del k then None else hv_map hv k)"
      using dm unfolding l(4) i(5) by (cases "k \<in> dom (hv_map hv)") (auto simp: domIff)
  qed
  moreover have "HvEITER_get hv' = None"
    using l(3) by (auto simp: iter_pos_def HvEITER_get_def split: option.splits)
  moreover have "each fuel env del w hv = Some (Inr (map (\<lambda>e. (he_key e, he_val e)) ?t, w', hv'))"
    by (simp add: each_def i(1) l(1))
  moreover have "acct oth L w' hv' (mset (hv_entries hv'))" if "acct oth L w hv (mset (hv_entries hv))" for oth L
    using that i(3,8) l(5) by metis
  ultimately show ?thesis using l(2) by blast
qed

section \<open>The claim\<close>

text \<open>
  C5: a loop with \<open>hv_iterinit\<close> and \<open>hv_iternext\<close> over a well-formed hash, whether it was iterated before or not and
  whether the deletion of an entry is still due or not, ends, gives every live key once with its value
  and no other, and may delete entries it is at: the next call still finds its way, frees the deleted
  entry, and at the end exactly those keys are gone and the hash is well formed. The hash is not
  read-only, from a restricted hash nothing is deleted in the loop (there a deletion may die), and there is
  memory for the iterator of a hash that has none yet.
\<close>

theorem each_visits_every_key:
  assumes "hv_ok env w hv" "\<not> HvREADONLY hv" "HvRESTRICTED hv \<longrightarrow> (\<forall>k. \<not> del k)"
    and "HvAUX hv = None \<longrightarrow> newx (e_alloc env) ((HvMAX hv + 1) * 8 + 40) 1" "card (dom (hv_map hv)) < fuel"
  shows "\<exists>kvs w' hv'. each fuel env del w hv = Some (Inr (kvs, w', hv')) \<and>
    distinct (map fst kvs) \<and> set kvs = {(k, v). hv_map hv k = Some v} \<and>
    hv_map hv' = (\<lambda>k. if del k then None else hv_map hv k) \<and> hv_ok env w' hv'"
  using each_ok[OF assms(1,4,2,3,5)] by blast

lemma each_visits_every_key_witness:
  "\<exists>outs w1 hv. hash_run hash_env [Op_store [97] 1, Op_store [98] 2] hworld0 newHV = Inr (outs, w1, hv) \<and>
    (\<exists>kvs w' hv'. each 3 hash_env (\<lambda>k. k = [97]) w1 hv = Some (Inr (kvs, w', hv')) \<and>
      set kvs = {([97], Val 1), ([98], Val 2)} \<and> hv_map hv' = [[98] \<mapsto> Val 2])"
proof -
  let ?ops = "[Op_store [97] 1, Op_store [98] 2]" and ?del = "\<lambda>k :: u8 list. k = [97]"
  have k: "\<forall>op \<in> set ?ops. op_key_short op" by (simp add: short_key_def)
  have s: "am_steps hash_env ?ops (am0 hworld0) = Some ([Out_val (Some (Val 1)), Out_val (Some (Val 2))],
    \<lparr>am_map = [[97] \<mapsto> Val 1, [98] \<mapsto> Val 2], am_legal = {}, am_locked = False, am_alloc = True, am_next = 100\<rparr>)"
    by (simp add: am0_def am_refuses_def hworld0_def)
  from hash_run_sim[OF hash_rel0 roomy_hash_env k, of hworld0] obtain outs w1 hv where
    r: "hash_run hash_env ?ops hworld0 newHV = Inr (outs, w1, hv)" and
    mp: "hv_map hv = [[97] \<mapsto> Val 1, [98] \<mapsto> Val 2]" and nr: "\<not> HvRESTRICTED hv"
    and ok: "hv_ok hash_env w1 hv" and ro: "\<not> HvREADONLY hv"
    unfolding s by (auto simp: hash_rel_def simp del: hash_run.simps)
  have c: "card (dom (hv_map hv)) < 3" unfolding mp by simp
  from tbl_okD(4)[OF hv_okD(1)[OF ok]] obtain j where j: "j \<le> 30" "length (arr hv) = 2 ^ j" by blast
  have "(2::nat) ^ j \<le> 2 ^ 30" using j(1) by (rule power_increasing) simp
  then have "(HvMAX hv + 1) * 8 + 40 \<le> 2 ^ 33 + 40" using j(2) hv_okD(2)[OF ok] by simp
  then have m: "newx (e_alloc hash_env) ((HvMAX hv + 1) * 8 + 40) 1"
    using roomy_hash_env unfolding roomy_env_def roomy_for_keys_def by blast
  have "\<exists>kvs w' hv'. each 3 hash_env ?del w1 hv = Some (Inr (kvs, w', hv')) \<and>
    distinct (map fst kvs) \<and> set kvs = {(k, v). hv_map hv k = Some v} \<and>
    hv_map hv' = (\<lambda>k. if k = [97] then None else hv_map hv k) \<and> hv_ok hash_env w' hv'"
    using nr m by (intro each_visits_every_key[OF ok ro _ _ c]) simp_all
  moreover have "{(k, v). hv_map hv k = Some v} = {([97], Val 1), ([98], Val 2)}"
    unfolding mp by (auto split: if_splits)
  moreover have "(\<lambda>k. if k = [97] then None else hv_map hv k) = [[98] \<mapsto> Val 2]"
    unfolding mp by (auto simp: fun_eq_iff)
  ultimately show ?thesis using r by auto
qed

end
