(* ===== verification/Hash_Presize.thy ===== *)
theory Hash_Presize
  imports Hash_Map
begin

text \<open>
  \<open>hv_ksplit\<close>, which gives a hash an array of a size asked for. The lemmas show that the loop that
  rounds the size down finds the highest bit, that the size is the least power of two that
  is large enough (or the call does nothing), and that the walk over the old buckets, whose
  entries may go to any of several new ones, keeps the hash as a map.
\<close>

section \<open>The size\<close>

text \<open>\<open>newsize & (1 + ~newsize)\<close>, and the loop that takes low bits away.\<close>

definition low_bit :: "u32 \<Rightarrow> u32" where
  "low_bit n = n AND (1 + NOT n)"

lemma low_bit_exp:
  assumes "bit n l" "\<And>i. i < l \<Longrightarrow> \<not> bit n i"
  shows "low_bit n = 2 ^ l"
proof -
  have l: "l < 32" using assms(1) bit_imp_le_length[of n l] by simp
  define q where "q = n AND NOT (mask (Suc l))"
  have q: "bit q i \<longleftrightarrow> l < i \<and> bit n i" for i
    using bit_imp_le_length[of n i] by (auto simp: q_def bit_simps)
  have n: "n = q OR 2 ^ l"
  proof (rule bit_word_eqI)
    fix i assume "i < LENGTH(32)"
    then show "bit n i = bit (q OR 2 ^ l) i"
      using assms l by (cases i l rule: linorder_cases) (auto simp: bit_or_iff bit_exp_iff q)
  qed
  have "q AND 2 ^ l = 0" "q AND mask l = 0"
    by (rule bit_word_eqI; auto simp: bit_and_iff bit_exp_iff bit_mask_iff q)+
  then have "q OR 2 ^ l = q + 2 ^ l" "q OR mask l = q + mask l" by (simp_all add: disjunctive_add_eq_or)
  with n have m: "n - 1 = q OR mask l" by (simp add: mask_eq_exp_minus_1)
  have "1 + NOT n = NOT (n - 1)" by (simp add: not_diff_distrib)
  then have "low_bit n = n AND NOT (q OR mask l)" by (simp add: low_bit_def m)
  also have "\<dots> = 2 ^ l"
    using assms(1) l bit_imp_le_length[of n] by (intro bit_word_eqI) (auto simp: bit_simps q bit_exp_iff)
  finally show ?thesis .
qed

lemma lowest_bit:
  fixes n :: u32
  assumes "n \<noteq> 0"
  obtains l where "bit n l" "\<And>i. i < l \<Longrightarrow> \<not> bit n i"
proof -
  from assms obtain i where "bit n i" by (metis bit_0_eq bit_eq_iff bot_apply bot_bool_def)
  then have "bit n (LEAST i. bit n i)" by (rule LeastI)
  moreover have "\<not> bit n i" if "i < (LEAST i. bit n i)" for i using not_less_Least[OF that] .
  ultimately show ?thesis by (rule that)
qed

lemma low_bit_0 [simp]: "low_bit 0 = 0"
  by (simp add: low_bit_def)

function top_bit :: "u32 \<Rightarrow> u32" where
  "top_bit newsize =
    (if low_bit newsize \<noteq> newsize then top_bit (newsize AND NOT (low_bit newsize)) else newsize)"
  by auto
termination
proof (relation "measure unat")
  fix n :: u32 assume a: "low_bit n \<noteq> n"
  then have "n \<noteq> 0" by auto
  then obtain l where l: "bit n l" "\<And>i. i < l \<Longrightarrow> \<not> bit n i" by (rule lowest_bit) blast
  have "\<not> bit (n AND NOT (low_bit n)) l"
    using bit_imp_le_length[OF l(1)] by (simp add: bit_simps low_bit_exp[OF l] bit_exp_iff)
  with l(1) have "n AND NOT (low_bit n) \<noteq> n" by metis
  moreover have "n AND NOT (low_bit n) \<le> n" by (rule word_and_le2)
  ultimately show "(n AND NOT (low_bit n), n) \<in> measure unat" by (simp add: word_less_nat_alt[symmetric])
qed simp

declare top_bit.simps [simp del]

lemma top_bit_exp:
  assumes "bit n j" "\<And>i. j < i \<Longrightarrow> \<not> bit n i"
  shows "top_bit n = 2 ^ j"
  using assms
proof (induction n rule: top_bit.induct)
  case (1 n)
  have "n \<noteq> 0" using 1(2) by auto
  then obtain l where l: "bit n l" "\<And>i. i < l \<Longrightarrow> \<not> bit n i" by (rule lowest_bit) blast
  note lb = low_bit_exp[OF l]
  show ?case
  proof (cases "low_bit n = n")
    case True
    then have "bit (2 ^ l :: u32) j" using 1(2) lb by simp
    then have "l = j" by (auto simp: bit_exp_iff)
    with True lb show ?thesis by (simp add: top_bit.simps)
  next
    case False
    have "l \<noteq> j"
    proof
      assume j: "l = j"
      have "n = 2 ^ l"
        using l 1(3) bit_imp_le_length[of n]
        by (intro bit_word_eqI) (auto simp: bit_exp_iff j intro: linorder_cases)
      with False lb show False by simp
    qed
    then have "bit (n AND NOT (low_bit n)) j" using 1(2) by (auto simp: bit_simps lb bit_exp_iff dest: bit_imp_le_length)
    moreover have "\<not> bit (n AND NOT (low_bit n)) i" if "j < i" for i using 1(3)[OF that] by (simp add: bit_simps)
    ultimately have "top_bit (n AND NOT (low_bit n)) = 2 ^ j" by (rule 1(1)[OF False])
    with False show ?thesis by (subst top_bit.simps) simp
  qed
qed

text \<open>The power of two that \<open>n\<close> lies above.\<close>

lemma top_bit_bounds:
  assumes "0 < n"
  obtains j where "top_bit n = 2 ^ j" "2 ^ j \<le> unat n" "unat n < 2 ^ Suc j" "j < 32"
proof -
  from assms have "n \<noteq> 0" by auto
  then obtain l where l: "bit n l" by (rule lowest_bit)
  define j where "j = Max {i. bit n i}"
  have f: "finite {i. bit n i}" by (rule finite_subset[of _ "{..<32}"]) (auto dest: bit_imp_le_length)
  have j: "bit n j" "\<And>i. j < i \<Longrightarrow> \<not> bit n i"
    using Max_in[OF f] Max_ge[OF f] l unfolding j_def by (auto simp: not_le[symmetric])
  have t: "take_bit (Suc j) n = n"
    by (rule bit_word_eqI) (metis bit_take_bit_iff j(2) less_Suc_eq_le not_less)
  have "j < 32" using j(1) bit_imp_le_length[of n j] by simp
  moreover have "unat n < 2 ^ Suc j"
    using t take_bit_nat_less_exp[of "Suc j" "unat n"] by (metis unsigned_take_bit_eq)
  moreover have "2 ^ j \<le> unat n"
  proof -
    have "bit (unat n) j" using j(1) by (simp add: bit_unsigned_iff)
    then have "odd (unat n div 2 ^ j)" by (simp add: bit_iff_odd)
    then have "unat n div 2 ^ j \<noteq> 0" by (intro notI) simp
    then show ?thesis by (metis div_less not_le)
  qed
  ultimately show ?thesis using that top_bit_exp[OF j] by blast
qed


text \<open>The size of the new array; None is an early return. Doubling \<open>2 ^ 30\<close> wraps to a negative \<open>I32\<close>.\<close>

definition ksplit_size :: "int \<Rightarrow> nat \<Rightarrow> nat option" where
  "ksplit_size newmax oldsize =
    (let newsize = (word_of_int newmax :: u32) in
     if sint newsize \<noteq> newmax \<or> newmax \<le> int oldsize then None
     else let newsize = top_bit newsize;
              newsize = (if sint newsize < newmax then newsize * 2 else newsize)
       in if sint newsize < newmax then None else Some (unat newsize))"

lemma exp32:
  assumes "j \<le> 30"
  shows "sint (2 ^ j :: u32) = 2 ^ j" "unat (2 ^ j :: u32) = 2 ^ j"
proof -
  have "(2::nat) ^ j \<le> 2 ^ 30" using assms by (rule power_increasing) simp
  moreover from this have "unat (of_nat (2 ^ j) :: u32) = 2 ^ j" unfolding unsigned_of_nat using assms by (simp add: take_bit_nat_eq_self)
  then show u: "unat (2 ^ j :: u32) = 2 ^ j" by simp
  ultimately have b: "uint (2 ^ j :: u32) < 2 ^ 31" by (simp add: uint_nat flip: of_nat_power)
  have "sint (2 ^ j :: u32) = signed_take_bit 31 (uint (2 ^ j :: u32))" by (simp add: sint_uint)
  also have "\<dots> = uint (2 ^ j :: u32)" using b order_trans[OF _ uint_ge_0, of "- (2 ^ 31)" "2 ^ j :: u32"]
    by (intro signed_take_bit_int_eq_self) simp_all
  also have "\<dots> = 2 ^ j" by (simp only: uint_nat u of_nat_power of_nat_numeral)
  finally show "sint (2 ^ j :: u32) = 2 ^ j" .
qed

lemma ksplit_size_cases:
  assumes "0 < oldsize"
  shows "if int oldsize < newmax \<and> newmax \<le> 2 ^ 30
    then \<exists>k \<le> 30. ksplit_size newmax oldsize = Some (2 ^ k) \<and> newmax \<le> 2 ^ k \<and> 2 ^ k < 2 * newmax
    else ksplit_size newmax oldsize = None"
proof (cases "int oldsize < newmax \<and> sint (word_of_int newmax :: u32) = newmax")
  case False
  have "newmax \<le> 2 ^ 30 \<Longrightarrow> int oldsize < newmax \<Longrightarrow> sint (word_of_int newmax :: u32) = newmax"
    using assms by (simp add: signed_take_bit_int_eq_self sint_sbintrunc')
  with False show ?thesis by (auto simp: ksplit_size_def)
next
  case True
  let ?n = "word_of_int newmax :: u32"
  have pos: "0 < newmax" using True assms by linarith
  have "sint ?n < 2 ^ 31" using sint_lt[of ?n] by simp
  with True have lt: "newmax < 2 ^ 31" by simp
  then have un: "int (unat ?n) = newmax" using pos by (simp add: unsigned_of_int take_bit_int_eq_self nat_take_bit_eq)
  then have "?n \<noteq> 0" using pos by (intro notI) simp
  then have "0 < ?n" by (simp add: word_neq_0_conv)
  then obtain j where j: "top_bit ?n = 2 ^ j" "2 ^ j \<le> unat ?n" "unat ?n < 2 ^ Suc j" by (rule top_bit_bounds)
  have "int (2 ^ j) \<le> int (unat ?n)" "int (unat ?n) < int (2 ^ Suc j)" using j(2,3) by (simp_all only: of_nat_le_iff of_nat_less_iff)
  then have jb: "(2::int) ^ j \<le> newmax" "newmax < 2 ^ Suc j" by (simp_all only: un of_nat_power of_nat_numeral)
  then have "(2::int) ^ j < 2 ^ 31" using lt by linarith
  then have j30: "j \<le> 30" using power_less_imp_less_exp[of "2::int" j 31] by simp
  note e = exp32[OF j30]
  show ?thesis
  proof (cases "newmax = 2 ^ j")
    case eq: True
    have "newmax \<le> 2 ^ 30" unfolding eq using j30 by (rule power_increasing) simp
    moreover have "ksplit_size newmax oldsize = Some (2 ^ j)"
      using True j(1) e eq by (simp add: ksplit_size_def Let_def)
    ultimately show ?thesis using True j30 eq by auto
  next
    case ne: False
    then have l: "2 ^ j < newmax" using jb by simp
    show ?thesis
    proof (cases "j = 30")
      case j: True
      have "ksplit_size newmax oldsize = None"
        using True \<open>top_bit ?n = 2 ^ j\<close> pos l unfolding ksplit_size_def Let_def j by simp
      with l j show ?thesis by simp
    next
      case False
      then have s: "Suc j \<le> 30" using j30 by simp
      have "2 ^ Suc j \<le> (2::int) ^ 30" using s by (rule power_increasing) simp
      then have "newmax \<le> 2 ^ 30" using jb by linarith
      moreover have "ksplit_size newmax oldsize = Some (2 ^ Suc j)"
        using True j(1) e l exp32[OF s] jb(2) unfolding ksplit_size_def Let_def by (simp add: mult.commute)
      ultimately show ?thesis using True s jb l by (auto intro!: exI[of _ "Suc j"])
    qed
  qed
qed

section \<open>The buckets\<close>

text \<open>
  The inner loop: the entries of bucket \<open>i\<close> that stay, and the array and the count of used
  buckets when the others have been moved. \<open>newmax\<close> is the last index of the new array.
\<close>

fun ksplit_entries :: "nat \<Rightarrow> nat \<Rightarrow> 'v he list \<Rightarrow> 'v he list list \<Rightarrow> nat \<Rightarrow> 'v he list \<times> 'v he list list \<times> nat" where
  "ksplit_entries newmax i [] a fill = ([], a, fill)"
| "ksplit_entries newmax i (entry # rest) a fill =
    (let j = bucket_of (he_hash entry) newmax in
     if j \<noteq> i then ksplit_entries newmax i rest (a[j := entry # a ! j]) (if a ! j = [] then fill + 1 else fill)
     else case ksplit_entries newmax i rest a fill of (left, a, fill) \<Rightarrow> (entry # left, a, fill))"

definition ksplit_bucket :: "nat \<Rightarrow> 'v he list list \<times> nat \<Rightarrow> nat \<Rightarrow> 'v he list list \<times> nat" where
  "ksplit_bucket newmax st i =
    (case st of (a, fill) \<Rightarrow>
     if a ! i = [] then st
     else (case ksplit_entries newmax i (a ! i) a fill of (left, a, fill) \<Rightarrow>
       (a[i := left], if left = [] then fill - 1 else fill)))"

definition hv_ksplit :: "henv \<Rightarrow> hv \<Rightarrow> int \<Rightarrow> hv result" where
  "hv_ksplit env hv newmax =
    (let oldsize = HvMAX hv + 1 in
     case ksplit_size newmax oldsize of
       None \<Rightarrow> Inr hv
     | Some newsize \<Rightarrow>
        (case HvARRAY hv of
           Some a \<Rightarrow>
             if \<not> newx (e_alloc env) (array_bytes hv newsize) 1 then Inr hv
             else
               let a = a @ replicate (newsize - oldsize) []; hv = hv\<lparr>HvMAX := newsize - 1, HvARRAY := Some a\<rparr>
               in if HvFILL hv = 0 then Inr hv
                  else (case foldl (ksplit_bucket (newsize - 1)) (a, HvFILL hv) [0..<oldsize] of (a, fill) \<Rightarrow>
                    Inr (hv\<lparr>HvARRAY := Some a, HvFILL := fill\<rparr>))
         | None \<Rightarrow>
             if \<not> newx (e_alloc env) (newsize * 8) 1 then Inl Out_of_memory
             else Inr (hv\<lparr>HvMAX := newsize - 1, HvARRAY := Some (replicate newsize [])\<rparr>)))"

section \<open>What the walk does\<close>

lemma ksplit_entries_ok:
  assumes "ksplit_entries newmax i es a fill = (left, a', fill')" "i < length a"
    "\<forall>e \<in> set es. bucket_of (he_hash e) newmax < length a" "fill = fill_count a"
  shows "left = filter (\<lambda>e. bucket_of (he_hash e) newmax = i) es \<and> length a' = length a \<and>
    mset (concat a') + mset left = mset (concat a) + mset es \<and> fill' = fill_count a' \<and>
    (\<forall>k. k \<noteq> i \<longrightarrow> set (a' ! k) \<subseteq> set (a ! k) \<union> {e \<in> set es. bucket_of (he_hash e) newmax = k}) \<and>
    (\<forall>k. k = i \<or> (\<forall>e \<in> set es. bucket_of (he_hash e) newmax \<noteq> k) \<longrightarrow> a' ! k = a ! k)"
  using assms
proof (induction newmax i es a fill arbitrary: left a' fill' rule: ksplit_entries.induct)
  case (2 newmax i e es a fill)
  let ?j = "bucket_of (he_hash e) newmax"
  show ?case
  proof (cases "?j = i")
    case True
    with 2(3) obtain l where l: "ksplit_entries newmax i es a fill = (l, a', fill')" "left = e # l"
      by (auto simp: Let_def split: prod.splits)
    from 2(2)[OF refl _ l(1)] True 2(4-6) l(2) show ?thesis by auto
  next
    case False
    let ?a = "a[?j := e # a ! ?j]"
    have j: "?j < length a" using 2(5) by simp
    have r: "ksplit_entries newmax i es ?a (if a ! ?j = [] then fill + 1 else fill) = (left, a', fill')"
      using 2(3) False by (simp add: Let_def)
    have f: "(if a ! ?j = [] then fill + 1 else fill) = fill_count ?a"
      using fill_count_update[OF j, of "e # a ! ?j"] 2(6) by (auto split: if_splits)
    note ih = 2(1)[OF refl False r _ _ f]
    have "set (a' ! k) \<subseteq> set (a ! k) \<union> {d \<in> set (e # es). bucket_of (he_hash d) newmax = k}" if "k \<noteq> i" for k
    proof -
      have "set (a' ! k) \<subseteq> set (?a ! k) \<union> {d \<in> set es. bucket_of (he_hash d) newmax = k}"
        using ih 2(4,5) that by simp
      moreover have "set (?a ! k) \<subseteq> set (a ! k) \<union> (if k = ?j then {e} else {})"
        using j by (auto simp: nth_list_update)
      ultimately show ?thesis by (auto split: if_splits)
    qed
    moreover have "a' ! k = a ! k" if "k = i \<or> (\<forall>d \<in> set (e # es). bucket_of (he_hash d) newmax \<noteq> k)" for k
      using ih 2(4,5) that False by auto
    moreover have "mset (concat a') + mset left = mset (concat a) + mset (e # es)"
    proof -
      have "i < length ?a" "\<forall>e \<in> set es. bucket_of (he_hash e) newmax < length ?a" using 2(4,5) by simp_all
      with ih have "mset (concat a') + mset left = mset (concat ?a) + mset es" by blast
      then show ?thesis using mset_chain_push[OF j, of e] by simp
    qed
    ultimately show ?thesis using ih 2(4,5) False by simp
  qed
qed simp


text \<open>The array when the first \<open>n\<close> of the old buckets have been walked.\<close>

definition walked :: "nat \<Rightarrow> nat \<Rightarrow> 'v he list list \<Rightarrow> 'v he list list \<times> nat \<Rightarrow> nat \<Rightarrow> bool" where
  "walked oldsize newsize a st n \<longleftrightarrow>
    (case st of (a', fill) \<Rightarrow>
      length a' = newsize \<and> mset (concat a') = mset (concat a) \<and> fill = fill_count a' \<and>
      (\<forall>k < newsize. if n \<le> k \<and> k < oldsize then a' ! k = a ! k
        else \<forall>e \<in> set (a' ! k). bucket_of (he_hash e) (newsize - 1) = k))"

text \<open>An entry of an old bucket goes to a bucket above the old ones, or stays.\<close>

lemma bucket_of_larger:
  assumes "k0 \<le> k" "k \<le> 32" "bucket_of h (2 ^ k - 1) < 2 ^ k0"
  shows "bucket_of h (2 ^ k - 1) = bucket_of h (2 ^ k0 - 1)"
proof -
  have "(2::nat) ^ k0 dvd 2 ^ k" using assms(1) by (rule le_imp_power_dvd)
  then have "unat h mod 2 ^ k mod 2 ^ k0 = unat h mod 2 ^ k0" by (rule mod_mod_cancel)
  with assms(3) show ?thesis
    using bucket_of_mod[OF assms(2), of h] bucket_of_mod[of k0 h] assms(1,2) by simp
qed

lemma walked_step:
  assumes w: "walked (2 ^ k0) (2 ^ k) a st n" and n: "n < 2 ^ k0" and k: "k0 \<le> k" "k \<le> 30"
    and p: "well_placed a" "length a = 2 ^ k0"
  shows "walked (2 ^ k0) (2 ^ k) a (ksplit_bucket (2 ^ k - 1) st n) (Suc n)"
proof -
  obtain b fill where st: "st = (b, fill)" by (cases st)
  let ?new = "\<lambda>e. bucket_of (he_hash e) (2 ^ k - 1)"
  have nk: "n < 2 ^ k" by (rule less_le_trans[OF n power_increasing[OF k(1)]]) simp
  from w st have b: "length b = 2 ^ k" "mset (concat b) = mset (concat a)" "fill = fill_count b"
    "\<And>i. i < 2 ^ k \<Longrightarrow> if n \<le> i \<and> i < 2 ^ k0 then b ! i = a ! i else \<forall>e \<in> set (b ! i). ?new e = i"
    unfolding walked_def prod.case by blast+
  have bn: "b ! n = a ! n" using b(4)[OF nk] n by simp
  have old: "bucket_of (he_hash e) (2 ^ k0 - 1) = n" if "e \<in> set (b ! n)" for e
    using p that n by (auto simp: well_placed_def bn)
  have new: "?new e = n \<or> 2 ^ k0 \<le> ?new e" if "e \<in> set (b ! n)" for e
  proof (cases "?new e < 2 ^ k0")
    case True
    have "k \<le> 32" using k(2) by simp
    from bucket_of_larger[OF k(1) this True] old[OF that] show ?thesis by simp
  qed simp
  have less: "\<forall>e \<in> set (b ! n). ?new e < length b" using bucket_of_less[of k] k(2) b(1) by simp
  show ?thesis
  proof (cases "b ! n = []")
    case True
    then have kb: "ksplit_bucket (2 ^ k - 1) st n = (b, fill)" by (simp add: ksplit_bucket_def st)
    have "if Suc n \<le> i \<and> i < 2 ^ k0 then b ! i = a ! i else \<forall>e \<in> set (b ! i). ?new e = i" if "i < 2 ^ k" for i
      using b(4)[OF that] True by (cases "i = n") (auto split: if_splits)
    then show ?thesis using b(1-3) unfolding walked_def kb prod.case by blast
  next
    case False
    obtain left c fill' where e: "ksplit_entries (2 ^ k - 1) n (b ! n) b fill = (left, c, fill')" by (metis prod_cases3)
    have nb: "n < length b" using nk b(1) by simp
    note r = ksplit_entries_ok[OF e nb less b(3)]
    then have l: "left = filter (\<lambda>e. ?new e = n) (b ! n)" and c: "length c = length b" "fill' = fill_count c"
      "mset (concat c) + mset left = mset (concat b) + mset (b ! n)" "c ! n = b ! n"
      "\<And>i. i \<noteq> n \<Longrightarrow> set (c ! i) \<subseteq> set (b ! i) \<union> {e \<in> set (b ! n). ?new e = i}"
      "\<And>i. \<forall>e \<in> set (b ! n). ?new e \<noteq> i \<Longrightarrow> c ! i = b ! i" by blast+
    have kb: "ksplit_bucket (2 ^ k - 1) st n = (c[n := left], if left = [] then fill' - 1 else fill')"
      using False e by (simp add: ksplit_bucket_def st)
    have nc: "n < length c" using nb c(1) by simp
    have fill: "(if left = [] then fill' - 1 else fill') = fill_count (c[n := left])"
      using fill_count_update[OF nc, of left] c(2,4) False by (auto split: if_splits)
    have ms: "mset (concat (c[n := left])) = mset (concat a)"
      using mset_concat_update[OF nc, of left] c(3,4) b(2) by simp
    have "if Suc n \<le> i \<and> i < 2 ^ k0 then c[n := left] ! i = a ! i else \<forall>e \<in> set (c[n := left] ! i). ?new e = i"
      if i: "i < 2 ^ k" for i
    proof (cases "i = n")
      case True
      then show ?thesis using nc l by simp
    next
      case ne: False
      show ?thesis
      proof (cases "Suc n \<le> i \<and> i < 2 ^ k0")
        case True
        then have "\<forall>e \<in> set (b ! n). ?new e \<noteq> i" using new ne by fastforce
        then show ?thesis using c(6)[of i] b(4)[OF i] True ne by simp
      next
        case False
        then have "\<forall>e \<in> set (b ! i). ?new e = i" using b(4)[OF i] ne by (auto split: if_splits)
        then have "\<forall>e \<in> set (c ! i). ?new e = i" using c(5)[OF ne] by blast
        then show ?thesis unfolding if_not_P[OF False] using ne by simp
      qed
    qed
    moreover have "length (c[n := left]) = 2 ^ k" using b(1) c(1) by simp
    ultimately show ?thesis using fill ms unfolding walked_def kb prod.case by blast
  qed
qed

lemma walk_ok:
  assumes p: "well_placed a" "length a = 2 ^ k0" and k: "k0 \<le> k" "k \<le> 30" and f: "fill = fill_count a"
  shows "walked (2 ^ k0) (2 ^ k) a
    (foldl (ksplit_bucket (2 ^ k - 1)) (a @ replicate (2 ^ k - 2 ^ k0) [], fill) [0..<2 ^ k0]) (2 ^ k0)"
proof -
  have le: "(2::nat) ^ k0 \<le> 2 ^ k" using k(1) by (rule power_increasing) simp
  have "walked (2 ^ k0) (2 ^ k) a
      (foldl (ksplit_bucket (2 ^ k - 1)) (a @ replicate (2 ^ k - 2 ^ k0) [], fill) [0..<n]) n" if "n \<le> 2 ^ k0" for n
    using that
  proof (induction n)
    case 0
    have "mset (concat (a @ replicate (2 ^ k - 2 ^ k0) [])) = mset (concat a)"
      by (simp add: concat_replicate_Nil)
    with p f le show ?case by (auto simp: walked_def nth_append)
  next
    case (Suc n)
    then have "walked (2 ^ k0) (2 ^ k) a
        (ksplit_bucket (2 ^ k - 1) (foldl (ksplit_bucket (2 ^ k - 1)) (a @ replicate (2 ^ k - 2 ^ k0) [], fill) [0..<n]) n) (Suc n)"
      by (intro walked_step[OF _ _ k p]) simp_all
    then show ?case by simp
  qed
  then show ?thesis by simp
qed


section \<open>The whole\<close>

lemma presized_ok:
  assumes ok: "hv_ok env w hv" and k: "HvMAX hv + 1 \<le> 2 ^ k" "k \<le> 30"
    and a: "length a = 2 ^ k" "well_placed a" "mset (concat a) = mset (hv_entries hv)"
    and hv': "hv' = hv\<lparr>HvARRAY := Some a, HvFILL := fill_count a, HvMAX := 2 ^ k - 1\<rparr>"
  shows "hv_ok env w hv' \<and> hv_map hv' = hv_map hv \<and> hv_legal hv' = hv_legal hv \<and> keeps hv hv' \<and>
    mset (hv_entries hv') = mset (hv_entries hv) \<and>
    (\<forall>oth L. acct oth L w hv (mset (hv_entries hv)) \<longrightarrow> acct oth L w hv' (mset (hv_entries hv')))"
proof -
  note h = hv_okD[OF ok]
  have aa: "arr hv' = a" by (simp add: arr_def hv')
  have st: "set (concat a) = set (hv_entries hv)" by (rule mset_eq_setD[OF a(3)])
  have sk: "same_keying hv hv'" by (simp add: same_keying_def hv')
  have ex: "\<exists>j \<le> 30. length a = 2 ^ j" using a(1) k(2) by blast
  have t: "tbl_ok (hash_fun env hv) (w_next_he w) a"
    using tbl_mset[OF h(1) a(3)[symmetric]] a(2) ex unfolding tbl_ok_def by blast
  have lz: "lazy_ok (w_next_he w) hv'"
    by (rule lazy_ok_same[OF h(6)]) (simp_all only: aa st, simp_all add: hv')
  have "hv_ok env w hv'"
    unfolding hv_ok_def hash_fun_cong[OF sk] aa
    using t lz h(4,5) length_mset[OF a(3)] ph_count_perm[OF a(3)] a(1) by (simp add: hv' del: length_concat)
  moreover have "hv_map hv' = hv_map hv"
    unfolding hv_map_def aa by (rule live_perm[OF a(3) tbl_okD(2)[OF t]])
  moreover have "hv_legal hv' = hv_legal hv" unfolding hv_legal_def aa st ..
  moreover have "same_account hv hv'" by (simp add: same_account_def hv' HvNAME_HEK_def)
  moreover have "mset (hv_entries hv') = mset (hv_entries hv)" unfolding aa by (rule a(3))
  moreover have "keeps hv hv'" by (simp add: keeps_def hv')
  ultimately show ?thesis by (simp add: acct_cong)
qed

lemma hv_ksplit_ok:
  assumes ok: "hv_ok env w hv" and r: "hv_ksplit env hv newmax = Inr hv'"
  shows "hv_ok env w hv' \<and> hv_map hv' = hv_map hv \<and> hv_legal hv' = hv_legal hv \<and> keeps hv hv' \<and>
    mset (hv_entries hv') = mset (hv_entries hv) \<and>
    (\<forall>oth L. acct oth L w hv (mset (hv_entries hv)) \<longrightarrow> acct oth L w hv' (mset (hv_entries hv'))) \<and>
    (hv' = hv \<or> int (HvMAX hv) + 1 < newmax \<and> newmax \<le> 2 ^ 30 \<and>
      (\<exists>k \<le> 30. HvMAX hv' + 1 = 2 ^ k \<and> newmax \<le> 2 ^ k \<and> 2 ^ k < 2 * newmax))"
proof (cases "hv' = hv")
  case True
  with ok show ?thesis by (simp add: keeps_def)
next
  case False
  note h = hv_okD[OF ok]
  obtain k0 where k0: "HvMAX hv + 1 = 2 ^ k0" "k0 \<le> 30" by (rule hv_size[OF ok])
  let ?old = "HvMAX hv + 1"
  from r False obtain n where n: "ksplit_size newmax ?old = Some n"
    by (auto simp: hv_ksplit_def Let_def split: option.splits)
  with ksplit_size_cases[of ?old newmax] obtain k where
    k: "n = 2 ^ k" "k \<le> 30" "newmax \<le> 2 ^ k" "2 ^ k < 2 * newmax" and nm: "int ?old < newmax" "newmax \<le> 2 ^ 30"
    by (auto split: if_splits)
  have "int ?old < 2 ^ k" using nm k(3) by linarith
  then have lt: "?old < 2 ^ k" by (metis of_nat_less_iff of_nat_numeral of_nat_power)
  then have kk: "k0 \<le> k" using k0(1) by (metis less_imp_le power_less_imp_less_exp one_less_numeral_iff semiring_norm(76))
  have lm: "2 ^ k - 1 + 1 = (2::nat) ^ k" by simp
  have "\<exists>a. length a = 2 ^ k \<and> well_placed a \<and> mset (concat a) = mset (hv_entries hv) \<and>
      hv' = hv\<lparr>HvARRAY := Some a, HvFILL := fill_count a, HvMAX := 2 ^ k - 1\<rparr>"
  proof (cases "HvARRAY hv")
    case None
    have e: "hv_entries hv = []" unfolding arr_def None option.case by (rule concat_replicate_Nil)
    have "HvFILL hv = 0" using h(3) unfolding arr_def None option.case fill_count_replicate .
    then have "hv' = hv\<lparr>HvARRAY := Some (replicate (2 ^ k) []), HvFILL := fill_count (replicate (2 ^ k) []), HvMAX := 2 ^ k - 1\<rparr>"
      using r n None by (cases hv) (auto simp: hv_ksplit_def k(1) split: if_splits)
    then show ?thesis unfolding e
      by (intro exI[of _ "replicate (2 ^ k) []"]) (simp add: well_placed_def concat_replicate_Nil)
  next
    case (Some a)
    have aa: "arr hv = a" by (rule arr_Some[OF Some])
    have la: "length a = 2 ^ k0" using h(2) k0(1) by (simp add: aa)
    have wp: "well_placed a" using tbl_okD(1)[OF h(1)] by (simp add: aa)
    have f: "HvFILL hv = fill_count a" using h(3) by (simp add: aa)
    let ?b = "a @ replicate (2 ^ k - 2 ^ k0) []"
    show ?thesis
    proof (cases "HvFILL hv = 0")
      case True
      have "\<forall>c \<in> set a. c = []" using True f by (simp add: fill_count_def filter_empty_conv)
      then have "concat a = []" by simp
      moreover have "hv' = hv\<lparr>HvARRAY := Some ?b, HvFILL := fill_count ?b, HvMAX := 2 ^ k - 1\<rparr>"
        using r n Some True False f k0(1) by (auto simp: hv_ksplit_def k(1) Let_def split: if_splits)
      moreover have "\<forall>c \<in> set ?b. c = []" using \<open>\<forall>c \<in> set a. c = []\<close> by auto
      then have "well_placed ?b" unfolding well_placed_def by (metis empty_iff empty_set nth_mem)
      moreover have "length ?b = 2 ^ k" using la lt k0(1) by simp
      ultimately show ?thesis unfolding aa by (intro exI[of _ ?b]) (simp add: concat_replicate_Nil)
    next
      case False
      obtain c fill where w: "foldl (ksplit_bucket (2 ^ k - 1)) (?b, HvFILL hv) [0..<2 ^ k0] = (c, fill)" by fastforce
      from walk_ok[OF wp la kk k(2) f] w have
        c: "length c = 2 ^ k" "mset (concat c) = mset (concat a)" "fill = fill_count c"
          "\<forall>i < 2 ^ k. \<forall>e \<in> set (c ! i). bucket_of (he_hash e) (2 ^ k - 1) = i"
        by (auto simp: walked_def split: if_splits)
      have k0': "Suc (HvMAX hv) = 2 ^ k0" using k0(1) by simp
      have "hv' = hv\<lparr>HvARRAY := Some c, HvFILL := fill, HvMAX := 2 ^ k - 1\<rparr>"
        using r n Some False w \<open>hv' \<noteq> hv\<close> unfolding hv_ksplit_def Let_def Suc_eq_plus1[symmetric] k0'
        by (auto simp: k(1) split: if_splits)
      with c show ?thesis unfolding aa by (intro exI[of _ c]) (simp add: well_placed_def)
    qed
  qed
  then obtain a where a: "length a = 2 ^ k" "well_placed a" "mset (concat a) = mset (hv_entries hv)"
    "hv' = hv\<lparr>HvARRAY := Some a, HvFILL := fill_count a, HvMAX := 2 ^ k - 1\<rparr>" by blast
  have "HvMAX hv' + 1 = 2 ^ k" unfolding a(4) by simp
  moreover have "?old \<le> 2 ^ k" using lt by simp
  ultimately show ?thesis using presized_ok[OF ok _ k(2) a] k nm by auto
qed


lemma hv_ksplit_total:
  assumes ok: "hv_ok env w hv" and m: "roomy_for_keys (e_alloc env)"
  shows "if int (HvMAX hv) + 1 < newmax \<and> newmax \<le> 2 ^ 30
    then \<exists>hv'. hv_ksplit env hv newmax = Inr hv' \<and> hv_ok env w hv' \<and> hv_map hv' = hv_map hv \<and>
      hv_legal hv' = hv_legal hv \<and> mset (hv_entries hv') = mset (hv_entries hv) \<and>
      (\<exists>k. HvMAX hv' + 1 = 2 ^ k \<and> newmax \<le> 2 ^ k \<and> 2 ^ k < 2 * newmax)
    else hv_ksplit env hv newmax = Inr hv"
proof (cases "int (HvMAX hv) + 1 < newmax \<and> newmax \<le> 2 ^ 30")
  case False
  with ksplit_size_cases[of "HvMAX hv + 1" newmax] have "ksplit_size newmax (HvMAX hv + 1) = None"
    by (auto simp: add.commute split: if_splits)
  then show ?thesis unfolding if_not_P[OF False] by (simp add: hv_ksplit_def)
next
  case True
  with ksplit_size_cases[of "HvMAX hv + 1" newmax] obtain k where
    k: "ksplit_size newmax (HvMAX hv + 1) = Some (2 ^ k)" "k \<le> 30" "newmax \<le> 2 ^ k" by (auto simp: add.commute)
  have "(2::nat) ^ k \<le> 2 ^ 30" using k(2) by (rule power_increasing) simp
  then have n: "newx (e_alloc env) (array_bytes hv (2 ^ k)) 1" "newx (e_alloc env) (2 ^ k * 8) 1"
    using m by (simp_all add: roomy_for_keys_def newx_def array_bytes_def)
  have "hv_ksplit env hv newmax \<noteq> Inl er" for er
    using n unfolding hv_ksplit_def Let_def k(1) by (auto split: option.split prod.split)
  then obtain hv' where r: "hv_ksplit env hv newmax = Inr hv'" by (cases "hv_ksplit env hv newmax") auto
  have "hv' \<noteq> hv"
  proof
    assume "hv' = hv"
    with r n have "HvMAX hv = 2 ^ k - 1"
      unfolding hv_ksplit_def Let_def k(1) by (auto split: option.splits prod.splits if_splits dest: arg_cong[of _ _ HvMAX])
    with True k(3) show False by simp
  qed
  with hv_ksplit_ok[OF ok r] r True show ?thesis by auto
qed

text \<open>
  C19: asking a hash for room for \<open>newmax\<close> keys gives it the least power of two of buckets that is at
  least \<open>newmax\<close>, when that is more than it has and at most \<open>2 ^ 30\<close>, and does nothing otherwise (also where
  the size would overflow an \<open>I32\<close>). The hash stays well formed, with the same entries, live keys and
  legal keys.
\<close>

theorem hv_ksplit_presizes:
  assumes "hv_ok env w hv" "roomy_for_keys (e_alloc env)"
  shows "if int (HvMAX hv) + 1 < newmax \<and> newmax \<le> 2 ^ 30
    then \<exists>hv'. hv_ksplit env hv newmax = Inr hv' \<and> hv_ok env w hv' \<and> hv_map hv' = hv_map hv \<and>
      hv_legal hv' = hv_legal hv \<and> mset (hv_entries hv') = mset (hv_entries hv) \<and>
      (\<exists>k. HvMAX hv' + 1 = 2 ^ k \<and> newmax \<le> 2 ^ k \<and> 2 ^ k < 2 * newmax)
    else hv_ksplit env hv newmax = Inr hv"
  using assms by (rule hv_ksplit_total)

theorem hv_ksplit_presizes_witness:
  "(\<exists>hv'. hv_ksplit hash_env newHV 100 = Inr hv' \<and> hv_ok hash_env hworld0 hv' \<and> hv_map hv' = hv_map newHV \<and>
      hv_legal hv' = hv_legal newHV \<and> mset (hv_entries hv') = mset (hv_entries newHV) \<and>
      (\<exists>k. HvMAX hv' + 1 = 2 ^ k \<and> 100 \<le> (2::int) ^ k \<and> (2::int) ^ k < 2 * 100)) \<and>
   hv_ksplit hash_env newHV (2 ^ 30 + 1) = Inr newHV"
proof -
  have m: "roomy_for_keys (e_alloc hash_env)" using roomy_hash_env by (simp add: roomy_env_def)
  have x: "HvMAX newHV = 7" by (simp add: newHV_def)
  show ?thesis
    using hv_ksplit_presizes[OF newHV_ok[of hash_env hworld0] m, of 100]
      hv_ksplit_presizes[OF newHV_ok[of hash_env hworld0] m, of "2 ^ 30 + 1"] by (simp add: x)
qed

end
