(* ===== verification/Hash_Copy.thy ===== *)
theory Hash_Copy
  imports Hash_Map
begin

text \<open>
  Copying a hash (\<open>newHVhv\<close>, \<open>hv_sethv\<close>). The copy has every key of the source, in the same
  bucket, with a copy of its value. The lemmas show what that means: it is a well-formed
  hash when the source has shared keys and the common hash function, and the keys that were
  deleted from a restricted hash are keys of the copy.
\<close>

section \<open>The code\<close>

text \<open>\<open>newSVsv\<close>: a copy, with the value it was made of on record; NULL for NULL.\<close>

definition newSVsv :: "hworld \<Rightarrow> hval \<Rightarrow> hval \<times> hworld" where
  "newSVsv w old =
    (if old = Val_null then (Val_null, w)
     else (case newSV w of (sv, w) \<Rightarrow> (sv, w_add (Copy_of (w_next_sv w - 1) old) w)))"

definition copy_key :: "henv \<Rightarrow> bool \<Rightarrow> hworld \<Rightarrow> hek \<Rightarrow> (hek \<times> hworld) result" where
  "copy_key env shared w hek =
    (if shared then
       bind_result (share_hek_flags (e_alloc env) (w_strtab w) (hek_key hek) (hek_hash hek) (hek_flags hek))
         (\<lambda>(hek, st). Inr (hek, w\<lparr>w_strtab := st\<rparr>))
     else bind_result (save_hek_flags (e_alloc env) (hek_key hek) (hek_hash hek) (hek_flags hek)) (\<lambda>hek. Inr (hek, w)))"

text \<open>``Copy the linked list of entries.''\<close>

fun copy_chain :: "henv \<Rightarrow> bool \<Rightarrow> hworld \<Rightarrow> hent list \<Rightarrow> (hent list \<times> hworld) result" where
  "copy_chain env shared w [] = Inr ([], w)"
| "copy_chain env shared w (oent # rest) =
    (let addr = w_next_he w; w = w\<lparr>w_next_he := w_next_he w + 1\<rparr>; (val, w) = newSVsv w (he_val oent) in
     bind_result (copy_key env shared w (he_hek oent))
       (\<lambda>(hek, w). bind_result (copy_chain env shared w rest)
         (\<lambda>(ents, w). Inr (\<lparr>he_addr = addr, he_hek = hek, he_val = val\<rparr> # ents, w))))"

fun copy_buckets :: "henv \<Rightarrow> bool \<Rightarrow> hworld \<Rightarrow> hent list list \<Rightarrow> (hent list list \<times> hworld) result" where
  "copy_buckets env shared w [] = Inr ([], w)"
| "copy_buckets env shared w (c # cs) =
    bind_result (copy_chain env shared w c)
      (\<lambda>(c, w). bind_result (copy_buckets env shared w cs) (\<lambda>(cs, w). Inr (c # cs, w)))"

text \<open>The part that both functions have.\<close>

definition copy_into :: "henv \<Rightarrow> hworld \<Rightarrow> hv \<Rightarrow> hv option \<Rightarrow> (hworld \<times> hv) result" where
  "copy_into env w hv ohv =
    (case ohv of
       None \<Rightarrow> Inr (w, hv)
     | Some ohv \<Rightarrow>
        if HvFILL ohv = 0 then Inr (w, hv)
        else if \<not> newx (e_alloc env) ((HvMAX ohv + 1) * 8) 1 then Inl Out_of_memory
        else (case HvARRAY ohv of
            None \<Rightarrow> Inl Null_pointer
          | Some oents \<Rightarrow>
              bind_result (copy_buckets env (HvSHAREKEYS ohv) w oents)
                (\<lambda>(ents, w). Inr (w, hv\<lparr>HvMAX := HvMAX ohv, HvFILL := HvFILL ohv, HvTOTALKEYS := HvTOTALKEYS ohv,
                  HvARRAY := Some ents\<rparr>))))"

definition newHVhv :: "henv \<Rightarrow> hworld \<Rightarrow> hv option \<Rightarrow> (hworld \<times> hv) result" where
  "newHVhv env w ohv = copy_into env w newHV ohv"

definition hv_sethv :: "henv \<Rightarrow> hworld \<Rightarrow> hv \<Rightarrow> hv option \<Rightarrow> (hworld \<times> hv) result" where
  "hv_sethv env w dstr sstr = bind_result (hv_undef env w dstr) (\<lambda>(w, dstr). copy_into env w dstr sstr)"

section \<open>Entries and their copies\<close>

text \<open>\<open>lo\<close> is the first name of a value that was free before.\<close>

definition is_copy :: "nat \<Rightarrow> hv_event list \<Rightarrow> hent \<Rightarrow> hent \<Rightarrow> bool" where
  "is_copy lo log e e' \<longleftrightarrow> he_key e' = he_key e \<and> he_hash e' = he_hash e \<and>
    (if he_val e = Val_null then he_val e' = Val_null
     else \<exists>n \<ge> lo. he_val e' = Val n \<and> Copy_of n (he_val e) \<in> set log)"

lemma is_copy_mono: "is_copy lo log e e' \<Longrightarrow> lo' \<le> lo \<Longrightarrow> set log \<subseteq> set log' \<Longrightarrow> is_copy lo' log' e e'"
  unfolding is_copy_def by (auto split: if_splits intro: order_trans)

text \<open>What a step of copying does to the world; \<open>es\<close> are the new entries.\<close>

definition copied :: "henv \<Rightarrow> hworld \<Rightarrow> hworld \<Rightarrow> hent list \<Rightarrow> bool" where
  "copied env w w' es \<longleftrightarrow> w_next_he w' = w_next_he w + length es \<and> map he_addr es = [w_next_he w..<w_next_he w'] \<and>
    w_next_sv w \<le> w_next_sv w' \<and> set (w_log w) \<subseteq> set (w_log w') \<and>
    (\<forall>oth L hv E. bounded_allocator (e_alloc env) \<longrightarrow> HvSHAREKEYS hv \<longrightarrow> acct oth L w hv E \<longrightarrow>
      acct oth (L + mset (map Val [w_next_sv w..<w_next_sv w'])) w' hv (mset es + E))"

lemma upt_join: "i \<le> j \<Longrightarrow> j \<le> k \<Longrightarrow> [i..<j] @ [j..<k] = [i..<k]"
  using upt_add_eq_append[of i j "k - j"] by simp

lemma copied_trans:
  assumes "copied env w w1 xs" "copied env w1 w2 ys"
  shows "copied env w w2 (xs @ ys)"
proof -
  have "mset (map Val [w_next_sv w..<w_next_sv w1]) + mset (map Val [w_next_sv w1..<w_next_sv w2]) =
      mset (map Val [w_next_sv w..<w_next_sv w2])"
    using assms unfolding copied_def by (metis map_append mset_append upt_join)
  moreover have "[w_next_he w..<w_next_he w1] @ [w_next_he w1..<w_next_he w2] = [w_next_he w..<w_next_he w2]"
    using assms unfolding copied_def by (intro upt_join) simp_all
  moreover have "acct oth (L + mset (map Val [w_next_sv w..<w_next_sv w1]) + mset (map Val [w_next_sv w1..<w_next_sv w2])) w2 hv
      (mset (xs @ ys) + E)"
    if "bounded_allocator (e_alloc env)" "HvSHAREKEYS hv" "acct oth L w hv E" for oth L hv E
  proof -
    have "acct oth (L + mset (map Val [w_next_sv w..<w_next_sv w1])) w1 hv (mset xs + E)"
      using assms(1) that unfolding copied_def by blast
    then have "acct oth (L + mset (map Val [w_next_sv w..<w_next_sv w1]) + mset (map Val [w_next_sv w1..<w_next_sv w2])) w2 hv
        (mset ys + (mset xs + E))"
      using assms(2) that unfolding copied_def by blast
    then show ?thesis by (simp add: ac_simps)
  qed
  ultimately show ?thesis
    using assms unfolding copied_def by (auto simp: union_assoc)
qed

lemma copied_refl: "copied env w w []"
  by (simp add: copied_def)

lemma copy_key_make:
  assumes "copy_key env (HvSHAREKEYS hv) w hek = Inr (hek', w')"
  shows "make_key env w hv (hek_key hek) (hek_hash hek) (hek_flags hek) = Inr (hek', w')"
  using assms by (simp add: copy_key_def make_key_def)

lemma copy_chain_ok:
  assumes "copy_chain env True w es = Inr (es', w')"
  shows "list_all2 (is_copy (w_next_sv w) (w_log w')) es es' \<and> copied env w w' es'"
  using assms
proof (induction es arbitrary: w es' w')
  case Nil
  then show ?case by (simp add: copied_refl)
next
  case (Cons e es)
  define w0 where "w0 = w\<lparr>w_next_he := w_next_he w + 1\<rparr>"
  obtain v w1 where v: "newSVsv w0 (he_val e) = (v, w1)" by fastforce
  from Cons.prems v obtain h w2 es1 where
    k: "copy_key env True w1 (he_hek e) = Inr (h, w2)" and r: "copy_chain env True w2 es = Inr (es1, w')" and
    es': "es' = \<lparr>he_addr = w_next_he w, he_hek = h, he_val = v\<rparr> # es1"
    by (auto simp: Let_def w0_def bind_result_Inr)
  let ?e = "\<lparr>he_addr = w_next_he w, he_hek = h, he_val = v\<rparr>"
  have mk: "hek_hash h = he_hash e \<and> hek_key h = he_key e \<and> w_next_he w2 = w_next_he w1 \<and> w_next_sv w2 = w_next_sv w1 \<and>
      w_log w2 = w_log w1 \<and>
      (bounded_allocator (e_alloc env) \<longrightarrow> acct oth L w1 hv E \<longrightarrow> acct oth (L + counted {#v#}) w2 hv (add_mset ?e E))"
    if "HvSHAREKEYS hv" for hv oth L E
    using make_key_ok[OF copy_key_make[of env hv w1 "he_hek e" h w2], of oth L E v "w_next_he w"] k that by simp
  have sk: "HvSHAREKEYS newHV" by (simp add: newHV_def)
  have cp: "is_copy (w_next_sv w) (w_log w2) e ?e"
    using mk[OF sk] v by (auto simp: is_copy_def newSVsv_def newSV_def w0_def split: if_splits)
  have a0: "acct oth L w1 hv E = acct oth L w hv E" for oth L hv E
    using v by (auto simp: newSVsv_def newSV_def w0_def acct_def released_add split: if_splits)
  have n: "mset (map Val [w_next_sv w..<w_next_sv w2]) = counted {#v#}" "w_next_sv w \<le> w_next_sv w2"
    "w_next_he w2 = w_next_he w + 1" "set (w_log w) \<subseteq> set (w_log w2)"
    using mk[OF sk] v by (auto simp: newSVsv_def newSV_def w0_def split: if_splits)
  have "acct oth (L + counted {#v#}) w2 hv (mset [?e] + E)"
    if "bounded_allocator (e_alloc env)" "HvSHAREKEYS hv" "acct oth L w hv E" for oth L hv E
    using mk[OF that(2), of oth L E] that a0 by simp
  then have "copied env w w2 [?e]" unfolding copied_def n(1) using n(2-4) by simp
  note ih = Cons.IH[OF r]
  from copied_trans[OF \<open>copied env w w2 [?e]\<close> conjunct2[OF ih]] have c: "copied env w w' es'" by (simp add: es')
  have "set (w_log w2) \<subseteq> set (w_log w')" using ih by (simp add: copied_def)
  with cp ih n(2) show ?case
    unfolding es' using c[unfolded es'] by (auto intro: is_copy_mono elim!: list_all2_mono)
qed

lemma copy_buckets_ok:
  assumes "copy_buckets env True w a = Inr (a', w')"
  shows "list_all2 (list_all2 (is_copy (w_next_sv w) (w_log w'))) a a' \<and> copied env w w' (concat a')"
  using assms
proof (induction a arbitrary: w a' w')
  case Nil
  then show ?case by (simp add: copied_refl)
next
  case (Cons c cs)
  from Cons.prems obtain c1 w1 cs1 where
    k: "copy_chain env True w c = Inr (c1, w1)" and r: "copy_buckets env True w1 cs = Inr (cs1, w')" and a': "a' = c1 # cs1"
    by (auto simp: bind_result_Inr)
  note kc = copy_chain_ok[OF k] and ih = Cons.IH[OF r]
  have "w_next_sv w \<le> w_next_sv w1" "set (w_log w1) \<subseteq> set (w_log w')" using kc ih by (simp_all add: copied_def)
  then have "list_all2 (is_copy (w_next_sv w) (w_log w')) c c1"
    "list_all2 (list_all2 (is_copy (w_next_sv w) (w_log w'))) cs cs1"
    using kc ih by (auto intro: is_copy_mono elim!: list_all2_mono)
  then show ?case using copied_trans[OF conjunct2[OF kc] conjunct2[OF ih]] by (simp add: a')
qed


section \<open>The copy\<close>

text \<open>An empty hash to copy into, with shared keys and the common hash function.\<close>

definition blank :: "hv \<Rightarrow> bool" where
  "blank hv \<longleftrightarrow> HvARRAY hv = None \<and> HvFILL hv = 0 \<and> HvTOTALKEYS hv = 0 \<and> HvPLACEHOLDERS hv = 0 \<and>
    HvAUX hv = None \<and> HvUNLINKED hv = None \<and> \<not> HvLAZYDEL hv \<and> HvSHAREKEYS hv \<and> \<not> HvREHASH hv"

lemma is_copy_live:
  assumes "list_all2 (is_copy lo log) es es'" "distinct (map he_key es')"
  shows "dom (live es') = he_key ` set es \<and>
    (\<forall>e \<in> set es. \<exists>v. live es' (he_key e) = Some v \<and>
      (if he_val e = Val_null then v = Val_null else \<exists>n \<ge> lo. v = Val n \<and> Copy_of n (he_val e) \<in> set log))"
proof -
  have keys: "map he_key es' = map he_key es"
    using assms(1) by (induction rule: list_all2_induct) (auto simp: is_copy_def)
  have np: "\<forall>e' \<in> set es'. no_ph e'"
  proof
    fix e' assume "e' \<in> set es'"
    from rel_in[OF assms(1) this] show "no_ph e'" by (auto simp: is_copy_def split: if_splits)
  qed
  have "he_key ` set es' = he_key ` set es" using keys by (metis list.set_map)
  then have "dom (live es') = he_key ` set es" using live_dom[OF assms(2) np] by simp
  moreover have "\<exists>v. live es' (he_key e) = Some v \<and>
      (if he_val e = Val_null then v = Val_null else \<exists>n \<ge> lo. v = Val n \<and> Copy_of n (he_val e) \<in> set log)"
    if "e \<in> set es" for e
  proof -
    have "list_all2 (\<lambda>y x. is_copy lo log x y) es' es" using assms(1) by (simp add: list_all2_conv_all_nth)
    from rel_in[OF this that] obtain e' where e': "e' \<in> set es'" "is_copy lo log e e'" ..
    then have "live es' (he_key e) = Some (he_val e')"
      using live_in[OF assms(2) e'(1)] np by (simp add: is_copy_def seen_def)
    with e'(2) show ?thesis by (intro exI[of _ "he_val e'"]) (simp add: is_copy_def)
  qed
  ultimately show ?thesis by blast
qed

lemma copy_into_ok:
  assumes ok: "hv_ok env w0 ohv" and sk: "HvSHAREKEYS ohv" "\<not> HvREHASH ohv" and b: "blank hv" and oa: "HvARRAY ohv = Some oents"
    and fl: "HvFILL ohv \<noteq> 0" and r: "copy_into env w hv (Some ohv) = Inr (w', hv')"
  shows "hv_ok env w' hv' \<and> dom (hv_map hv') = hv_legal ohv \<and> HvRESTRICTED hv' = HvRESTRICTED hv \<and>
    (\<forall>e \<in> set (hv_entries ohv). \<exists>v. hv_map hv' (he_key e) = Some v \<and>
      (if he_val e = Val_null then v = Val_null
       else \<exists>n \<ge> w_next_sv w. v = Val n \<and> Copy_of n (he_val e) \<in> set (w_log w'))) \<and>
    (\<forall>oth L. bounded_allocator (e_alloc env) \<longrightarrow> acct oth L w hv {#} \<longrightarrow>
      acct oth (L + mset (map Val [w_next_sv w..<w_next_sv w'])) w' hv' (mset (hv_entries hv')))"
proof -
  note o = hv_okD[OF ok]
  have aa: "arr ohv = oents" by (rule arr_Some[OF oa])
  from r fl oa sk obtain ents where c: "copy_buckets env True w oents = Inr (ents, w')" and
    hv': "hv' = hv\<lparr>HvMAX := HvMAX ohv, HvFILL := HvFILL ohv, HvTOTALKEYS := HvTOTALKEYS ohv, HvARRAY := Some ents\<rparr>"
    by (auto simp: copy_into_def bind_result_Inr split: if_splits)
  from copy_buckets_ok[OF c] have
    R: "list_all2 (list_all2 (is_copy (w_next_sv w) (w_log w'))) oents ents" and cp: "copied env w w' (concat ents)" by blast+
  note Rc = rel_concat[OF R]
  have aa': "arr hv' = ents" by (simp add: arr_def hv')
  have keys: "map he_key (concat ents) = map he_key (concat oents)"
    using Rc by (induction rule: list_all2_induct) (auto simp: is_copy_def)
  have dk: "distinct (map he_key (concat ents))" using tbl_okD(2)[OF o(1)] by (simp only: keys aa)
  have da: "map he_addr (concat ents) = [w_next_he w..<w_next_he w']" using cp by (simp add: copied_def)
  then have dd: "distinct (map he_addr (concat ents))" by simp
  have ha: "he_addr e < w_next_he w'" if "e \<in> set (concat ents)" for e
  proof -
    have "he_addr e \<in> set (map he_addr (concat ents))" using that by simp
    then show ?thesis unfolding da by simp
  qed
  have hh: "he_hash e' = hash_fun env hv' (he_key e')" if "e' \<in> set (concat ents)" for e'
  proof -
    from rel_in[OF Rc that] obtain e where e: "e \<in> set (concat oents)" "is_copy (w_next_sv w) (w_log w') e e'" ..
    have "hash_fun env hv' = hash_fun env ohv" using b sk by (simp add: hash_fun_def hv' blank_def)
    with e tbl_okD(6)[OF o(1)] show ?thesis by (simp add: is_copy_def aa)
  qed
  have wp: "well_placed ents"
    using R _ tbl_okD(1)[OF o(1)[unfolded aa]] by (rule rel_well_placed) (simp add: is_copy_def)
  have t: "tbl_ok (hash_fun env hv') (w_next_he w') ents"
    using tbl_okD(4)[OF o(1)] list_all2_lengthD[OF R] wp dk dd ha hh unfolding tbl_ok_def aa by metis
  have np: "ph_count (concat ents) = 0"
    using Rc by (induction rule: list_all2_induct) (auto simp: is_copy_def split: if_splits)
  have len: "length (concat ents) = length (concat oents)" using list_all2_lengthD[OF Rc] by simp
  have "hv_ok env w' hv'"
    unfolding hv_ok_def aa' using t rel_fill_count[OF R] list_all2_lengthD[OF R] o(2-4) np len b
    by (simp add: aa hv' blank_def lazy_ok_def del: length_concat)
  moreover have "acct oth (L + mset (map Val [w_next_sv w..<w_next_sv w'])) w' hv' (mset (hv_entries hv'))"
    if "bounded_allocator (e_alloc env)" "acct oth L w hv {#}" for oth L
  proof -
    have "HvSHAREKEYS hv" using b by (simp add: blank_def)
    then have "acct oth (L + mset (map Val [w_next_sv w..<w_next_sv w'])) w' hv (mset (concat ents) + {#})"
      using cp that unfolding copied_def by blast
    moreover have "same_account hv hv'" by (simp add: same_account_def hv' HvNAME_HEK_def)
    ultimately show ?thesis by (simp add: acct_cong aa')
  qed
  ultimately show ?thesis
    using is_copy_live[OF Rc dk] unfolding hv_map_def hv_legal_def aa aa' by (simp add: hv' del: set_concat)
qed


lemma newHVhv_ok:
  assumes ok: "hv_ok env w0 ohv" and sk: "HvSHAREKEYS ohv" "\<not> HvREHASH ohv" and r: "newHVhv env w (Some ohv) = Inr (w', hv')"
  shows "hv_ok env w' hv' \<and> dom (hv_map hv') = hv_legal ohv \<and> \<not> HvRESTRICTED hv' \<and>
    (\<forall>e \<in> set (hv_entries ohv). \<exists>v. hv_map hv' (he_key e) = Some v \<and>
      (if he_val e = Val_null then v = Val_null
       else \<exists>n \<ge> w_next_sv w. v = Val n \<and> Copy_of n (he_val e) \<in> set (w_log w'))) \<and>
    (\<forall>oth L. bounded_allocator (e_alloc env) \<longrightarrow> acct oth L w newHV {#} \<longrightarrow>
      acct oth (L + mset (map Val [w_next_sv w..<w_next_sv w'])) w' hv' (mset (hv_entries hv')))"
proof (cases "HvFILL ohv = 0")
  case True
  have "\<forall>c \<in> set (arr ohv). c = []" using True hv_okD(3)[OF ok] by (simp add: fill_count_def filter_empty_conv)
  then have e: "hv_entries ohv = []" by simp
  have e': "hv_entries newHV = []" by (simp only: arr_def newHV_def hv.simps option.case concat_replicate_Nil)
  have r0: "\<not> HvRESTRICTED newHV" by (simp add: newHV_def)
  from r True have "w' = w" "hv' = newHV" by (simp_all add: newHVhv_def copy_into_def)
  with newHV_ok newHV_map show ?thesis
    unfolding hv_legal_def e using r0 by (simp add: e' del: concat_eq_Nil_conv)
next
  case False
  have b: "blank newHV" "\<not> HvRESTRICTED newHV" by (simp_all add: blank_def newHV_def)
  obtain a where a: "HvARRAY ohv = Some a"
  proof (cases "HvARRAY ohv")
    case None
    then have "fill_count (arr ohv) = 0" unfolding arr_def by (simp only: option.case fill_count_replicate)
    with False hv_okD(3)[OF ok] show ?thesis by simp
  qed
  have "copy_into env w newHV (Some ohv) = Inr (w', hv')" using r by (simp add: newHVhv_def)
  from copy_into_ok[OF ok sk b(1) a False this] b(2) show ?thesis by blast
qed


text \<open>\<open>hv_sethv\<close>: the old content is given back first.\<close>

lemma hv_sethv_ok:
  assumes d: "hv_ok env w dstr" "aux_behind dstr" "HvSHAREKEYS dstr" "\<not> HvREHASH dstr"
    and ok: "hv_ok env w0 sstr" and sk: "HvSHAREKEYS sstr" "\<not> HvREHASH sstr" and oa: "HvARRAY sstr = Some oents"
    and fl: "HvFILL sstr \<noteq> 0" and r: "hv_sethv env w dstr (Some sstr) = Inr (w', hv')"
  shows "hv_ok env w' hv' \<and> dom (hv_map hv') = hv_legal sstr \<and> HvRESTRICTED hv' = HvRESTRICTED dstr \<and>
    (\<forall>e \<in> set (hv_entries sstr). \<exists>v. hv_map hv' (he_key e) = Some v \<and>
      (if he_val e = Val_null then v = Val_null
       else \<exists>n \<ge> w_next_sv w. v = Val n \<and> Copy_of n (he_val e) \<in> set (w_log w'))) \<and>
    (\<forall>oth L. bounded_allocator (e_alloc env) \<longrightarrow> acct oth L w dstr (mset (hv_entries dstr)) \<longrightarrow>
      acct oth (L + mset (map Val [w_next_sv w..<w_next_sv w'])) w' hv' (mset (hv_entries hv')))"
proof -
  from hv_undef_ok[OF d(1,2)] obtain w1 hv1 where
    u: "hv_undef env w dstr = Inr (w1, hv1)" "hv_ok env w1 hv1" "HvARRAY hv1 = None" "HvAUX hv1 = None"
      "hv_map hv1 = Map.empty" "HvRESTRICTED hv1 = HvRESTRICTED dstr" "HvREHASH hv1 = HvREHASH dstr"
      "HvSHAREKEYS hv1 = HvSHAREKEYS dstr" "w_next_sv w1 = w_next_sv w"
      "\<forall>oth L. acct oth L w dstr (mset (hv_entries dstr)) \<longrightarrow> acct oth L w1 hv1 {#}" by metis
  have e: "hv_entries hv1 = []" unfolding arr_def u(3) option.case by (rule concat_replicate_Nil)
  have f: "HvFILL hv1 = 0" using hv_okD(3)[OF u(2)] unfolding arr_def u(3) option.case fill_count_replicate .
  have t: "HvTOTALKEYS hv1 = 0" "HvPLACEHOLDERS hv1 = 0" using hv_okD(4,5)[OF u(2)] unfolding e by simp_all
  have b: "blank hv1"
    using u d(3,4) f t no_iter_no_lazy[OF hv_okD(6)[OF u(2)] u(4)] by (simp add: blank_def)
  have c: "copy_into env w1 hv1 (Some sstr) = Inr (w', hv')" using r u(1) by (simp add: hv_sethv_def)
  from copy_into_ok[OF ok sk b oa fl c] u(10) show ?thesis unfolding u(6,9) by blast
qed

text \<open>A restricted hash from which its only key has been deleted.\<close>

definition deleted_hv :: hv where
  "deleted_hv = newHV\<lparr>HvARRAY := Some ((replicate 8 [])[bucket_of (perl_hash 0 [97]) 7 :=
      [\<lparr>he_addr = 0, he_hek = \<lparr>hek_hash = perl_hash 0 [97], hek_key = [97], hek_flags = 0\<rparr>, he_val = Placeholder\<rparr>]]),
    HvFILL := 1, HvTOTALKEYS := 1, HvPLACEHOLDERS := 1, HvRESTRICTED := True\<rparr>"

lemma deleted_hv_ok:
  shows "hv_ok hash_env (hworld0\<lparr>w_next_he := 1\<rparr>) deleted_hv" "hv_map deleted_hv [97] = None" "hv_legal deleted_hv = {[97]}"
    "HvSHAREKEYS deleted_hv" "\<not> HvREHASH deleted_hv" "HvFILL deleted_hv = 1"
proof -
  let ?e = "\<lparr>he_addr = 0, he_hek = \<lparr>hek_hash = perl_hash 0 [97], hek_key = [97], hek_flags = 0\<rparr>, he_val = Placeholder\<rparr> :: hent"
  let ?i = "bucket_of (perl_hash 0 [97]) 7"
  let ?a = "(replicate 8 [])[?i := [?e]]"
  have i: "?i < 8" using bucket_of_less[of 3 "perl_hash 0 [97]"] by simp
  have aa: "arr deleted_hv = ?a" by (simp add: arr_def deleted_hv_def)
  have l: "length (replicate 8 [] :: hent list list) = 8" by simp
  have il: "?i < length (replicate 8 [] :: hent list list)" using i by simp
  have z: "mset (concat (replicate 8 [] :: hent list list)) = {#}" "(replicate 8 [] :: hent list list) ! ?i = []"
    using i by (simp_all only: concat_replicate_Nil mset.simps nth_replicate)
  have "mset (concat ?a) = mset [?e]"
    using mset_concat_update[OF il, of "[?e]"] unfolding z by simp
  then have c: "concat ?a = [?e]" by (metis mset_single_iff_right mset.simps(1,2))
  have f: "fill_count ?a = 1" using fill_count_update[OF il, of "[?e]"] unfolding z fill_count_replicate by simp
  have wp: "well_placed ?a" unfolding well_placed_def using i by (auto simp: nth_list_update)
  have "length ?a = 2 ^ 3" by simp
  then have ex: "\<exists>k \<le> 30. length ?a = 2 ^ k" by (intro exI[of _ 3]) (simp only: numeral_le_iff semiring_norm simp_thms)
  have "hash_fun hash_env deleted_hv [97] = perl_hash 0 [97]"
    by (simp add: hash_fun_def deleted_hv_def newHV_def hash_env_def)
  then have t: "tbl_ok (hash_fun hash_env deleted_hv) 1 ?a" unfolding tbl_ok_def c using ex wp by simp
  show "hv_ok hash_env (hworld0\<lparr>w_next_he := 1\<rparr>) deleted_hv"
    unfolding hv_ok_def aa c f using t by (simp add: deleted_hv_def newHV_def lazy_ok_def)
  show "hv_map deleted_hv [97] = None" "hv_legal deleted_hv = {[97]}"
    unfolding hv_map_def hv_legal_def aa c by (simp_all add: seen_def)
qed (simp_all add: deleted_hv_def newHV_def)

lemma newHVhv_total:
  assumes "HvSHAREKEYS ohv" "HvFILL ohv \<noteq> 0 \<longrightarrow> HvARRAY ohv \<noteq> None" "newx (e_alloc env) ((HvMAX ohv + 1) * 8) 1"
    "\<forall>e \<in> set (hv_entries ohv). newx (e_alloc env) (32 + length (he_key e) + 2) 1"
  shows "\<exists>w' hv'. newHVhv env w (Some ohv) = Inr (w', hv')"
proof -
  have k: "\<exists>x. copy_key env True w hek = Inr x" if "newx (e_alloc env) (32 + length (hek_key hek) + 2) 1" for w hek
    using that by (auto simp: copy_key_def share_hek_flags_def Let_def split: option.split)
  have c: "\<exists>x. copy_chain env True w es = Inr x" if "\<forall>e \<in> set es. newx (e_alloc env) (32 + length (he_key e) + 2) 1" for w es
    using that
  proof (induction es arbitrary: w)
    case (Cons e es)
    obtain v w1 where v: "newSVsv (w\<lparr>w_next_he := w_next_he w + 1\<rparr>) (he_val e) = (v, w1)" by fastforce
    obtain h w2 where h: "copy_key env True w1 (he_hek e) = Inr (h, w2)" using k[of "he_hek e" w1] Cons.prems by auto
    from Cons.IH[of w2] Cons.prems obtain y where "copy_chain env True w2 es = Inr y" by auto
    then show ?case using v h by (cases y) simp
  qed simp
  have b: "\<exists>x. copy_buckets env True w a = Inr x" if "\<forall>e \<in> set (concat a). newx (e_alloc env) (32 + length (he_key e) + 2) 1" for w a
    using that
  proof (induction a arbitrary: w)
    case (Cons d ds)
    obtain es w1 where d: "copy_chain env True w d = Inr (es, w1)" using c[of d w] Cons.prems by auto
    from Cons.IH[of w1] Cons.prems obtain y where "copy_buckets env True w1 ds = Inr y" by auto
    then show ?case using d by (cases y) simp
  qed simp
  show ?thesis
  proof (cases "HvFILL ohv = 0")
    case False
    with assms(2) obtain a where a: "HvARRAY ohv = Some a" by blast
    from b[of a w] assms(4) obtain y where "copy_buckets env True w a = Inr y" by (auto simp: arr_def a)
    with False a assms(1,3) show ?thesis by (cases y) (simp add: newHVhv_def copy_into_def)
  qed (simp add: newHVhv_def copy_into_def)
qed

text \<open>
  C18: \<open>newHVhv\<close>, if it does not die, of a well-formed hash with shared keys that was not rehashed (of a
  rehashed one, whose keys are not shared any more, the copy is not well formed) makes a well-formed, unrestricted hash that has a fresh copy of
  the value of every entry, and the new values and keys are accounted for. Its keys are all keys with an
  entry, so a key that was deleted from a restricted hash (and is a placeholder there) is a live key of the
  copy.
\<close>

theorem newHVhv_copies:
  assumes "hv_ok env w0 ohv" "HvSHAREKEYS ohv" "\<not> HvREHASH ohv" "newHVhv env w (Some ohv) = Inr (w', hv')"
  shows "hv_ok env w' hv' \<and> dom (hv_map hv') = hv_legal ohv \<and> \<not> HvRESTRICTED hv' \<and>
    (\<forall>e \<in> set (hv_entries ohv). \<exists>v. hv_map hv' (he_key e) = Some v \<and>
      (if he_val e = Val_null then v = Val_null
       else \<exists>n \<ge> w_next_sv w. v = Val n \<and> Copy_of n (he_val e) \<in> set (w_log w'))) \<and>
    (\<forall>oth L. bounded_allocator (e_alloc env) \<longrightarrow> acct oth L w newHV {#} \<longrightarrow>
      acct oth (L + mset (map Val [w_next_sv w..<w_next_sv w'])) w' hv' (mset (hv_entries hv')))"
  using assms by (rule newHVhv_ok)

theorem newHVhv_copies_witness:
  "\<exists>w' hv'. newHVhv hash_env hworld0 (Some deleted_hv) = Inr (w', hv') \<and> hv_ok hash_env w' hv' \<and>
    hv_map deleted_hv [97] = None \<and> hv_map hv' [97] \<noteq> None"
proof -
  have n: "newx (e_alloc hash_env) k 1" if "k < 2 ^ 33" for k
    using that by (simp add: hash_env_def newx_def fixed_allocator_def)
  have l: "he_key ` set (hv_entries deleted_hv) = {[97]}" using deleted_hv_ok(3) by (simp add: hv_legal_def)
  have "\<forall>e \<in> set (hv_entries deleted_hv). newx (e_alloc hash_env) (32 + length (he_key e) + 2) 1"
  proof
    fix e assume "e \<in> set (hv_entries deleted_hv)"
    then have "he_key e = [97]" using l by blast
    then show "newx (e_alloc hash_env) (32 + length (he_key e) + 2) 1" by (intro n) simp
  qed
  moreover have "newx (e_alloc hash_env) ((HvMAX deleted_hv + 1) * 8) 1" by (rule n) (simp add: deleted_hv_def newHV_def)
  moreover have "HvFILL deleted_hv \<noteq> 0 \<longrightarrow> HvARRAY deleted_hv \<noteq> None" by (simp add: deleted_hv_def)
  ultimately obtain w' hv' where r: "newHVhv hash_env hworld0 (Some deleted_hv) = Inr (w', hv')"
    using newHVhv_total[of deleted_hv hash_env hworld0] deleted_hv_ok(4) by blast
  from newHVhv_copies[OF deleted_hv_ok(1,4,5) r] have "hv_ok hash_env w' hv'" "dom (hv_map hv') = {[97]}"
    using deleted_hv_ok(3) by simp_all
  then show ?thesis using r deleted_hv_ok(2) by blast
qed

end
