(* ===== verification/String_Search.thy ===== *)
theory String_Search
  imports Kurila_Prelude
begin

text \<open>
  Searching a string for a string (\<open>util.c\<close>): \<open>instr\<close> for C strings, \<open>ninstr\<close> and \<open>rninstr\<close> for
  strings that may contain NULs, and \<open>delimcpy\<close>, which copies a string up to a delimiter. The
  searched text is part of an allocated buffer, and the routines compute with pointers into it:
  a position is an integer, and reading outside the buffer is the error \<open>Null_pointer\<close>, so that
  every result \<open>Inr\<close> also says that the routine stayed inside the buffer. The specification is
  the first, or the last, place where the wanted string lies.
\<close>

section \<open>The buffer\<close>

text \<open>\<open>rdm m p\<close> reads the byte at the position \<open>p\<close> of the buffer \<open>m\<close>.\<close>

definition rdm :: "u8 list \<Rightarrow> int \<Rightarrow> u8 result" where
  "rdm m p = (if 0 \<le> p \<and> p < int (length m) then Inr (m ! nat p) else Inl Null_pointer)"

lemma rdm_int [simp]: "rdm m (int p) = (if p < length m then Inr (m ! p) else Inl Null_pointer)"
  by (simp add: rdm_def)

text \<open>\<open>memEQ\<close> of \<open>n\<close> bytes of the buffer and the bytes \<open>xs\<close> (\<open>memcmp\<close> may read them all).\<close>

definition memEQ :: "u8 list \<Rightarrow> int \<Rightarrow> u8 list \<Rightarrow> bool result" where
  "memEQ m p xs =
   (if 0 \<le> p \<and> p + int (length xs) \<le> int (length m)
    then Inr (take (length xs) (drop (nat p) m) = xs) else Inl Null_pointer)"

section \<open>What is searched for\<close>

text \<open>
  \<open>occurs_at m little s\<close>: the string \<open>little\<close> lies at \<open>s\<close>. \<open>first_in\<close> and \<open>last_in\<close> search the
  text between \<open>a\<close> (included) and \<open>b\<close> (excluded), in which the whole of \<open>little\<close> must lie.
\<close>

definition occurs_at :: "u8 list \<Rightarrow> u8 list \<Rightarrow> nat \<Rightarrow> bool" where
  "occurs_at m little s \<longleftrightarrow> take (length little) (drop s m) = little"

definition first_in :: "u8 list \<Rightarrow> nat \<Rightarrow> nat \<Rightarrow> u8 list \<Rightarrow> nat option" where
  "first_in m a b little = List.find (occurs_at m little) [a..<Suc b - length little]"

definition last_in :: "u8 list \<Rightarrow> nat \<Rightarrow> nat \<Rightarrow> u8 list \<Rightarrow> nat option" where
  "last_in m a b little = List.find (occurs_at m little) (rev [a..<Suc b - length little])"

lemma occurs_at_Nil [simp]: "occurs_at m [] s"
  by (simp add: occurs_at_def)

lemma occurs_at_iff:
  assumes "s + length little \<le> length m"
  shows "occurs_at m little s \<longleftrightarrow> (\<forall>k < length little. m ! (s + k) = little ! k)"
  using assms by (auto simp: occurs_at_def list_eq_iff_nth_eq)

lemma occurs_at_Cons:
  assumes "s < length m"
  shows "occurs_at m (c # cs) s \<longleftrightarrow> m ! s = c \<and> occurs_at m cs (Suc s)"
  using assms by (simp add: occurs_at_def Cons_nth_drop_Suc[symmetric])

lemma occurs_at_append:
  "occurs_at m (xs @ ys) s \<longleftrightarrow> occurs_at m xs s \<and> occurs_at m ys (s + length xs)"
proof
  assume "occurs_at m (xs @ ys) s"
  then have eq: "take (length xs + length ys) (drop s m) = xs @ ys" by (simp add: occurs_at_def)
  have "take (length xs) (drop s m) = xs"
    using arg_cong[OF eq, of "take (length xs)"] by (simp add: min_def)
  moreover have "take (length ys) (drop (length xs) (drop s m)) = ys"
    using arg_cong[OF eq, of "drop (length xs)"] by (simp add: drop_take)
  ultimately show "occurs_at m xs s \<and> occurs_at m ys (s + length xs)"
    by (simp add: occurs_at_def add.commute)
next
  assume "occurs_at m xs s \<and> occurs_at m ys (s + length xs)"
  then show "occurs_at m (xs @ ys) s"
    by (simp add: occurs_at_def take_add add.commute)
qed

lemma occurs_at_length:
  assumes "occurs_at m little s" "little \<noteq> []"
  shows "s + length little \<le> length m"
proof -
  have "min (length m - s) (length little) = length little"
    using arg_cong[OF assms(1)[unfolded occurs_at_def], of length] by simp
  moreover have "length little > 0" using assms(2) by simp
  ultimately show ?thesis by linarith
qed

lemma find_upt_Some:
  "List.find P [a..<b] = Some s \<longleftrightarrow> a \<le> s \<and> s < b \<and> P s \<and> (\<forall>t. a \<le> t \<and> t < s \<longrightarrow> \<not> P t)"
proof
  assume "List.find P [a..<b] = Some s"
  then obtain i where i: "i < b - a" "P (a + i)" "s = a + i" "\<forall>j < i. \<not> P (a + j)"
    by (auto simp: find_Some_iff)
  have "\<not> P t" if "a \<le> t" "t < s" for t
    using i(4)[rule_format, of "t - a"] that i(3) by simp
  with i show "a \<le> s \<and> s < b \<and> P s \<and> (\<forall>t. a \<le> t \<and> t < s \<longrightarrow> \<not> P t)" by auto
next
  assume "a \<le> s \<and> s < b \<and> P s \<and> (\<forall>t. a \<le> t \<and> t < s \<longrightarrow> \<not> P t)"
  then show "List.find P [a..<b] = Some s"
    unfolding find_Some_iff by (intro exI[of _ "s - a"]) auto
qed

lemma find_upt_None: "List.find P [a..<b] = None \<longleftrightarrow> (\<forall>t. a \<le> t \<and> t < b \<longrightarrow> \<not> P t)"
  by (auto simp: find_None_iff)

lemma find_rev_upt_Some:
  "List.find P (rev [a..<b]) = Some s \<longleftrightarrow> a \<le> s \<and> s < b \<and> P s \<and> (\<forall>t. s < t \<and> t < b \<longrightarrow> \<not> P t)"
proof (induction b)
  case (Suc b)
  then show ?case by (auto simp: less_Suc_eq)
qed simp

lemma find_rev_upt_None: "List.find P (rev [a..<b]) = None \<longleftrightarrow> (\<forall>t. a \<le> t \<and> t < b \<longrightarrow> \<not> P t)"
  by (auto simp: find_None_iff)

lemmas first_in_Some = find_upt_Some[where P = "occurs_at m little" and b = "Suc b - length little"
    for m little b, folded first_in_def]
lemmas first_in_None = find_upt_None[where P = "occurs_at m little" and b = "Suc b - length little"
    for m little b, folded first_in_def]
lemmas last_in_Some = find_rev_upt_Some[where P = "occurs_at m little" and b = "Suc b - length little"
    for m little b, folded last_in_def]
lemmas last_in_None = find_rev_upt_None[where P = "occurs_at m little" and b = "Suc b - length little"
    for m little b, folded last_in_def]

section \<open>instr\<close>

text \<open>The inner loop of \<open>instr\<close>: the rest of \<open>little\<close> matches, differs, or the text has ended.\<close>

datatype instr_outcome = Matches | Differs | Text_ends

fun instr_cmp :: "u8 list \<Rightarrow> int \<Rightarrow> u8 list \<Rightarrow> instr_outcome result" where
  "instr_cmp m x [] = Inr Matches"
| "instr_cmp m x (c # s) =
   (if c = 0 then Inr Matches
    else bind_result (rdm m x) (\<lambda>b.
      if b = 0 then Inr Text_ends
      else if c \<noteq> b then Inr Differs
      else instr_cmp m (x + 1) s))"

function instr_loop :: "u8 list \<Rightarrow> u8 \<Rightarrow> u8 list \<Rightarrow> int \<Rightarrow> int option result" where
  "instr_loop m first little big =
   (case rdm m big of Inl e \<Rightarrow> Inl e | Inr c \<Rightarrow>
      if c = 0 then Inr None
      else if c \<noteq> first then instr_loop m first little (big + 1)
      else case instr_cmp m (big + 1) little of
        Inl e \<Rightarrow> Inl e
      | Inr Text_ends \<Rightarrow> Inr None
      | Inr Matches \<Rightarrow> Inr (Some big)
      | Inr Differs \<Rightarrow> instr_loop m first little (big + 1))"
  by pat_completeness auto
termination
  by (relation "measure (\<lambda>(m, f, l, big). nat (int (length m) - big))")
    (auto simp: rdm_def split: if_splits)

text \<open>\<open>little\<close> may be NULL (\<open>None\<close>); it ends at its first NUL.\<close>

definition instr :: "u8 list \<Rightarrow> int \<Rightarrow> u8 list option \<Rightarrow> int option result" where
  "instr m big little =
   (case little of
      None \<Rightarrow> Inr (Some big)
    | Some l \<Rightarrow>
        if rd l 0 = 0 then Inr (Some big)
        else instr_loop m (hd l) (tl l) big)"

section \<open>ninstr\<close>

fun ninstr_cmp :: "u8 list \<Rightarrow> int \<Rightarrow> u8 list \<Rightarrow> bool result" where
  "ninstr_cmp m x [] = Inr True"
| "ninstr_cmp m x (c # s) = bind_result (rdm m x) (\<lambda>b. if c \<noteq> b then Inr False else ninstr_cmp m (x + 1) s)"

function ninstr_loop :: "u8 list \<Rightarrow> int \<Rightarrow> int \<Rightarrow> u8 \<Rightarrow> u8 list \<Rightarrow> int option result" where
  "ninstr_loop m big bigend first little =
   (if big \<le> bigend
    then case rdm m big of Inl e \<Rightarrow> Inl e | Inr c \<Rightarrow>
      if c = first
      then (case ninstr_cmp m (big + 1) little of
          Inl e \<Rightarrow> Inl e
        | Inr eq \<Rightarrow> if eq then Inr (Some big) else ninstr_loop m (big + 1) bigend first little)
      else ninstr_loop m (big + 1) bigend first little
    else Inr None)"
  by pat_completeness auto
termination
  by (relation "measure (\<lambda>(m, big, bigend, f, l). nat (bigend + 1 - big))") auto

text \<open>
  \<open>bigend\<close> is moved back by what is left of \<open>little\<close> after its first byte has been read
  (\<open>lend - little\<close>, with \<open>little\<close> already incremented).
\<close>

definition ninstr :: "u8 list \<Rightarrow> int \<Rightarrow> int \<Rightarrow> u8 list \<Rightarrow> int option result" where
  "ninstr m big bigend little =
   (case little of
      [] \<Rightarrow> Inr (Some big)
    | first # rest \<Rightarrow> ninstr_loop m big (bigend - int (length rest)) first rest)"

section \<open>rninstr\<close>

text \<open>The loop goes down from \<open>big\<close> to \<open>bigbeg\<close>.\<close>

function rninstr_loop :: "u8 list \<Rightarrow> int \<Rightarrow> int \<Rightarrow> u8 \<Rightarrow> u8 list \<Rightarrow> int option result" where
  "rninstr_loop m bigbeg big first little =
   (if big \<ge> bigbeg
    then case rdm m big of Inl e \<Rightarrow> Inl e | Inr c \<Rightarrow>
      if c \<noteq> first then rninstr_loop m bigbeg (big - 1) first little
      else (case ninstr_cmp m (big + 1) little of
          Inl e \<Rightarrow> Inl e
        | Inr eq \<Rightarrow> if eq then Inr (Some big) else rninstr_loop m bigbeg (big - 1) first little)
    else Inr None)"
  by pat_completeness auto
termination
  by (relation "measure (\<lambda>(m, bigbeg, big, f, l). nat (big + 1 - bigbeg))") auto

definition rninstr :: "u8 list \<Rightarrow> int \<Rightarrow> int \<Rightarrow> u8 list \<Rightarrow> int option result" where
  "rninstr m big bigend little =
   (case little of
      [] \<Rightarrow> Inr (Some bigend)
    | first # rest \<Rightarrow> rninstr_loop m big (bigend - int (length little)) first rest)"

section \<open>delimcpy\<close>

text \<open>
  \<open>room\<close> is \<open>toend - to\<close>. The result is what was written to \<open>to\<close>, the length the copy would
  have had with enough room, and where \<open>from\<close> stopped.
\<close>

definition put_byte :: "nat \<Rightarrow> u8 list \<Rightarrow> u8 \<Rightarrow> u8 list" where
  "put_byte room out c = (if length out < room then out @ [c] else out)"

function delimcpy_loop ::
    "u8 list \<Rightarrow> int \<Rightarrow> int \<Rightarrow> u8 \<Rightarrow> nat \<Rightarrow> u8 list \<Rightarrow> u32 \<Rightarrow> (u8 list \<times> u32 \<times> int) result" where
  "delimcpy_loop m from' fromend delim room out tolen =
   (if from' < fromend
    then case rdm m from' of Inl e \<Rightarrow> Inl e | Inr c \<Rightarrow>
      if c = 92
      then (case rdm m (from' + 1) of Inl e \<Rightarrow> Inl e | Inr d \<Rightarrow>
        if d \<noteq> delim
        then delimcpy_loop m (from' + 2) fromend delim room
               (put_byte room (put_byte room out c) d) (tolen + 1 + 1)
        else delimcpy_loop m (from' + 2) fromend delim room (put_byte room out d) (tolen + 1))
      else if c = delim then Inr (put_byte room out 0, tolen, from')
      else delimcpy_loop m (from' + 1) fromend delim room (put_byte room out c) (tolen + 1)
    else Inr (put_byte room out 0, tolen, from'))"
  by pat_completeness auto
termination
  by (relation "measure (\<lambda>(m, from', fromend, d, r, out, n). nat (fromend - from'))") auto

definition delimcpy ::
    "nat \<Rightarrow> u8 list \<Rightarrow> int \<Rightarrow> int \<Rightarrow> u8 \<Rightarrow> (u8 list \<times> u32 \<times> int) result" where
  "delimcpy room m from' fromend delim = delimcpy_loop m from' fromend delim room [] 0"

declare instr_loop.simps [simp del] ninstr_loop.simps [simp del] rninstr_loop.simps [simp del]
  delimcpy_loop.simps [simp del]

section \<open>The comparisons\<close>

lemma ninstr_cmp_correct:
  "x + length s \<le> length m \<Longrightarrow> ninstr_cmp m (int x) s = Inr (occurs_at m s x)"
proof (induction s arbitrary: x)
  case (Cons c s)
  then have "ninstr_cmp m (int (Suc x)) s = Inr (occurs_at m s (Suc x))" by (intro Cons.IH) simp
  then have "ninstr_cmp m (int x + 1) s = Inr (occurs_at m s (Suc x))"
    by (simp add: add.commute)
  with Cons.prems show ?case by (auto simp: occurs_at_Cons)
qed simp

text \<open>The part of \<open>little\<close> before its NUL.\<close>

definition cstr :: "u8 list \<Rightarrow> u8 list" where
  "cstr xs = takeWhile (\<lambda>c. c \<noteq> 0) xs"

lemma cstr_simps [simp]: "cstr [] = []" "cstr (c # s) = (if c = 0 then [] else c # cstr s)"
  by (simp_all add: cstr_def)

lemma cstr_nonzero: "c \<in> set (cstr s) \<Longrightarrow> c \<noteq> 0"
  by (auto simp: cstr_def dest: set_takeWhileD)

text \<open>\<open>text_at m a n\<close>: the C string at \<open>a\<close> has \<open>n\<close> bytes.\<close>

definition text_at :: "u8 list \<Rightarrow> nat \<Rightarrow> nat \<Rightarrow> bool" where
  "text_at m a n \<longleftrightarrow> a + n < length m \<and> m ! (a + n) = 0 \<and> (\<forall>i < n. m ! (a + i) \<noteq> 0)"

lemma text_at_Suc: "text_at m a (Suc n) \<longleftrightarrow> m ! a \<noteq> 0 \<and> a < length m \<and> text_at m (Suc a) n"
  by (auto simp: text_at_def less_Suc_eq_0_disj)

lemma text_at_0: "text_at m a 0 \<longleftrightarrow> a < length m \<and> m ! a = 0"
  by (auto simp: text_at_def)

lemma instr_cmp_correct:
  "text_at m x n \<Longrightarrow> \<exists>r. instr_cmp m (int x) s = Inr r \<and>
     (r = Matches \<longleftrightarrow> length (cstr s) \<le> n \<and> occurs_at m (cstr s) x) \<and>
     (r = Text_ends \<longrightarrow> n < length (cstr s))"
proof (induction s arbitrary: x n)
  case (Cons c s)
  show ?case
  proof (cases n)
    case 0
    with Cons.prems show ?thesis by (cases "c = 0") (auto simp: text_at_0)
  next
    case (Suc k)
    with Cons.prems have m: "m ! x \<noteq> 0" "x < length m" "text_at m (Suc x) k"
      by (auto simp: text_at_Suc)
    from Cons.IH[OF m(3)] obtain r where r: "instr_cmp m (int x + 1) s = Inr r"
        "r = Matches \<longleftrightarrow> length (cstr s) \<le> k \<and> occurs_at m (cstr s) (Suc x)"
        "r = Text_ends \<longrightarrow> k < length (cstr s)"
      by (auto simp: add.commute)
    show ?thesis
      using m r Suc by (cases "c = 0"; cases "c = m ! x") (auto simp: occurs_at_Cons)
  qed
qed simp

section \<open>The loops find the first, and the last, occurrence\<close>

lemma first_in_empty: "b < a + length little \<Longrightarrow> little \<noteq> [] \<Longrightarrow> first_in m a b little = None"
  by (auto simp: first_in_None)

lemma first_in_step:
  "a + length little \<le> b \<Longrightarrow>
   first_in m a b little = (if occurs_at m little a then Some a else first_in m (Suc a) b little)"
  by (simp add: first_in_def upt_conv_Cons)

lemma last_in_empty: "b < a + length little \<Longrightarrow> last_in m a b little = None \<or> little = []"
  by (auto simp: last_in_None)

lemma instr_loop_correct:
  assumes "first \<noteq> 0"
  shows "text_at m big n \<Longrightarrow>
    instr_loop m first little (int big) = Inr (map_option int (first_in m big (big + n) (first # cstr little)))"
proof (induction n arbitrary: big)
  case 0
  then show ?case
    by (simp add: instr_loop.simps[of m first] text_at_0 first_in_empty)
next
  case (Suc n)
  then have m: "m ! big \<noteq> 0" "big < length m" "text_at m (Suc big) n"
    by (auto simp: text_at_Suc)
  let ?L = "first # cstr little"
  obtain r where r: "instr_cmp m (int big + 1) little = Inr r"
      "r = Matches \<longleftrightarrow> length (cstr little) \<le> n \<and> occurs_at m (cstr little) (Suc big)"
      "r = Text_ends \<longrightarrow> n < length (cstr little)"
    using instr_cmp_correct[OF m(3), of little] by (auto simp: add.commute)
  have next': "instr_loop m first little (int big + 1) = Inr (map_option int (first_in m (Suc big) (big + Suc n) ?L))"
    using Suc.IH[OF m(3)] by (simp add: add.commute)
  show ?case
  proof (cases "length ?L \<le> Suc n")
    case True
    then have step: "first_in m big (big + Suc n) ?L =
        (if occurs_at m ?L big then Some big else first_in m (Suc big) (big + Suc n) ?L)"
      by (intro first_in_step) simp
    have "r \<noteq> Text_ends" using r(3) True by auto
    with True m r step next' show ?thesis
      by (cases r) (auto simp: instr_loop.simps[of m first little "int big"] occurs_at_Cons)
  next
    case False
    then have "first_in m big (big + Suc n) ?L = None" "first_in m (Suc big) (big + Suc n) ?L = None"
      by (auto intro!: first_in_empty)
    with False m r next' show ?thesis
      by (cases r) (auto simp: instr_loop.simps[of m first little "int big"])
  qed
qed

text \<open>\<open>instr\<close> returns the first place of \<open>little\<close> in the C string at \<open>big\<close>.\<close>

lemma instr_correct:
  assumes "text_at m big n"
  shows "instr m (int big) (Some little) = Inr (map_option int (first_in m big (big + n) (cstr little)))"
proof (cases little)
  case Nil
  then show ?thesis
    by (simp add: instr_def rd_def first_in_step)
next
  case (Cons c s)
  with assms show ?thesis
    by (simp add: instr_def rd_def instr_loop_correct first_in_step)
qed

lemma ninstr_loop_correct:
  assumes "b + 1 + length little \<le> length m"
  shows "ninstr_loop m (int big) (int b) first little =
         Inr (map_option int (first_in m big (Suc b + length little) (first # little)))"
proof (induction "Suc b - big" arbitrary: big)
  case 0
  then show ?case
    by (simp add: ninstr_loop.simps[of m "int big"] first_in_empty)
next
  case (Suc n)
  then have big: "big \<le> b" by simp
  have "ninstr_loop m (int (Suc big)) (int b) first little =
        Inr (map_option int (first_in m (Suc big) (Suc b + length little) (first # little)))"
    using Suc.hyps(2) by (intro Suc.hyps(1)) simp
  then have next': "ninstr_loop m (int big + 1) (int b) first little =
        Inr (map_option int (first_in m (Suc big) (Suc b + length little) (first # little)))"
    by (simp add: add.commute)
  have "ninstr_cmp m (int (Suc big)) little = Inr (occurs_at m little (Suc big))"
    using assms big by (intro ninstr_cmp_correct) simp
  then have "ninstr_cmp m (int big + 1) little = Inr (occurs_at m little (Suc big))"
    by (simp add: add.commute)
  moreover have "first_in m big (Suc b + length little) (first # little) =
      (if occurs_at m (first # little) big then Some big
       else first_in m (Suc big) (Suc b + length little) (first # little))"
    using big by (intro first_in_step) simp
  ultimately show ?case
    using next' big assms by (auto simp: ninstr_loop.simps[of m "int big"] occurs_at_Cons)
qed

lemma ninstr_loop_beyond:
  "bigend < big \<Longrightarrow> ninstr_loop m big bigend first little = Inr None"
  by (simp add: ninstr_loop.simps)

text \<open>
  \<open>ninstr\<close> searches one byte more than it is given: its result is the first occurrence in the
  text up to and including the byte \<open>*bigend\<close>.
\<close>

lemma ninstr_result:
  assumes "a \<le> b" "b < length m"
  shows "ninstr m (int a) (int b) little = Inr (map_option int (first_in m a (Suc b) little))"
proof (cases little)
  case Nil
  then show ?thesis
    using assms by (simp add: ninstr_def first_in_step)
next
  case (Cons c s)
  show ?thesis
  proof (cases "length s \<le> b")
    case True
    define e where "e = b - length s"
    have e: "int b - int (length s) = int e" "Suc b = Suc e + length s"
      using True by (simp_all add: e_def)
    have "ninstr_loop m (int a) (int e) c s = Inr (map_option int (first_in m a (Suc e + length s) (c # s)))"
      using assms(2) e(2) by (intro ninstr_loop_correct) simp
    then show ?thesis unfolding ninstr_def Cons list.case e .
  next
    case False
    then have "first_in m a (Suc b) (c # s) = None"
      by (intro first_in_empty) simp_all
    moreover from False have "ninstr_loop m (int a) (int b - int (length s)) c s = Inr None"
      by (intro ninstr_loop_beyond) simp
    ultimately show ?thesis by (simp add: ninstr_def Cons)
  qed
qed

text \<open>
  What the caller asks for is \<open>first_in m a b little\<close>. The two differ only when \<open>little\<close> lies
  against the end with its last byte beyond it.
\<close>

lemma first_in_Suc:
  assumes "\<not> (length little \<le> Suc b \<and> a \<le> Suc b - length little \<and> occurs_at m little (Suc b - length little))"
  shows "first_in m a (Suc b) little = first_in m a b little"
proof (cases "first_in m a b little")
  case None
  have "\<not> occurs_at m little t" if t: "a \<le> t" "t < Suc (Suc b) - length little" for t
  proof (cases "t < Suc b - length little")
    case True
    with None t show ?thesis by (simp add: first_in_None)
  next
    case False
    with t have "t = Suc b - length little" "length little \<le> Suc b" by auto
    with assms t(1) show ?thesis by auto
  qed
  then have "first_in m a (Suc b) little = None" unfolding first_in_None by blast
  with None show ?thesis by simp
next
  case (Some s)
  then have "first_in m a (Suc b) little = Some s" unfolding first_in_Some by auto
  with Some show ?thesis by simp
qed

lemma ninstr_exact:
  assumes "a \<le> b" "b < length m" "little = [] \<or> hd (rev little) \<noteq> m ! b"
  shows "ninstr m (int a) (int b) little = Inr (map_option int (first_in m a b little))"
proof (cases "little = []")
  case True
  then show ?thesis using assms by (simp add: ninstr_def first_in_step)
next
  case False
  then obtain xs c where l: "little = xs @ [c]" by (metis rev_exhaust)
  with assms(3) have "c \<noteq> m ! b" by simp
  with assms(2) have "\<not> (length little \<le> Suc b \<and> occurs_at m little (Suc b - length little))"
    by (auto simp: l occurs_at_append occurs_at_Cons)
  then have "first_in m a (Suc b) little = first_in m a b little"
    by (intro first_in_Suc) blast
  with ninstr_result[OF assms(1,2), of little] show ?thesis by simp
qed

lemma last_in_step:
  "a \<le> b \<Longrightarrow> List.find P (rev [a..<Suc b]) = (if P b then Some b else List.find P (rev [a..<b]))"
  by simp

lemma rninstr_loop_correct:
  assumes "e + length little < length m" "a \<le> Suc e"
  shows "rninstr_loop m (int a) (int e) first little =
         Inr (map_option int (List.find (occurs_at m (first # little)) (rev [a..<Suc e])))"
  using assms
proof (induction e)
  case 0
  show ?case
  proof (cases a)
    case (Suc k)
    with 0 show ?thesis by (subst rninstr_loop.simps) simp
  next
    case z: 0
    have "ninstr_cmp m (int (Suc 0)) little = Inr (occurs_at m little (Suc 0))"
      using 0 by (intro ninstr_cmp_correct) simp
    moreover have "0 < length m" using "0.prems"(1) by linarith
    moreover have "rdm m 0 = Inr (m ! 0)" using rdm_int[of m 0] \<open>0 < length m\<close> by simp
    moreover have "rninstr_loop m 0 (- 1) first little = Inr None" by (simp add: rninstr_loop.simps)
    ultimately show ?thesis using z
      by (auto simp: rninstr_loop.simps[of m 0 0] occurs_at_Cons)
  qed
next
  case (Suc e)
  show ?case
  proof (cases "a \<le> Suc e")
    case False
    with Suc.prems show ?thesis by (simp add: rninstr_loop.simps[of m "int a"])
  next
    case True
    have IH: "rninstr_loop m (int a) (int e) first little =
        Inr (map_option int (List.find (occurs_at m (first # little)) (rev [a..<Suc e])))"
      using Suc.prems True by (intro Suc.IH) simp_all
    have "ninstr_cmp m (int (Suc (Suc e))) little = Inr (occurs_at m little (Suc (Suc e)))"
      using Suc.prems by (intro ninstr_cmp_correct) simp
    then have cmp: "ninstr_cmp m (int (Suc e) + 1) little = Inr (occurs_at m little (Suc (Suc e)))"
      by (simp add: add.commute)
    have down: "int (Suc e) - 1 = int e" by simp
    show ?thesis
      using IH cmp Suc.prems True unfolding last_in_step[OF True]
      by (auto simp: rninstr_loop.simps[of m "int a" "int (Suc e)"] occurs_at_Cons down
          simp del: upt_Suc of_nat_Suc)
  qed
qed

text \<open>\<open>rninstr\<close> returns the last occurrence, and never reads at \<open>bigend\<close> or beyond.\<close>

lemma rninstr_result:
  assumes "a \<le> b" "b \<le> length m"
  shows "rninstr m (int a) (int b) little = Inr (map_option int (last_in m a b little))"
proof (cases little)
  case Nil
  then show ?thesis
    using assms by (simp add: rninstr_def last_in_def)
next
  case (Cons c s)
  show ?thesis
  proof (cases "a + length little \<le> b")
    case True
    define e where "e = b - length little"
    have e: "int b - int (length little) = int e" "Suc b - length little = Suc e"
      using True by (simp_all add: e_def)
    have "rninstr_loop m (int a) (int e) c s = Inr (map_option int (List.find (occurs_at m (c # s)) (rev [a..<Suc e])))"
      using assms(2) True by (intro rninstr_loop_correct) (simp_all add: e_def Cons)
    then show ?thesis
      unfolding rninstr_def last_in_def Cons list.case using e by (simp add: Cons)
  next
    case False
    then have "last_in m a b little = None"
      using last_in_empty[of b a little m] Cons by auto
    moreover from False have "rninstr_loop m (int a) (int b - int (length little)) c s = Inr None"
      by (subst rninstr_loop.simps) simp
    ultimately show ?thesis by (simp add: rninstr_def Cons)
  qed
qed

section \<open>delimcpy copies a quoted field\<close>

text \<open>
  A field that \<open>delimcpy\<close> can give back: no backslash at its end and none before the delimiter.
  It is written with a backslash before each delimiter; a backslash takes the next byte with it.
\<close>

fun plain_field :: "u8 \<Rightarrow> u8 list \<Rightarrow> bool" where
  "plain_field d [] = True"
| "plain_field d (c # cs) =
   (if c = 92 then (case cs of [] \<Rightarrow> False | x # xs \<Rightarrow> x \<noteq> d \<and> plain_field d xs) else plain_field d cs)"

fun quote_field :: "u8 \<Rightarrow> u8 list \<Rightarrow> u8 list" where
  "quote_field d [] = []"
| "quote_field d (c # cs) =
   (if c = 92 then (case cs of [] \<Rightarrow> [c] | x # xs \<Rightarrow> c # x # quote_field d xs)
    else if c = d then 92 # c # quote_field d cs
    else c # quote_field d cs)"

lemma put_byte_take [simp]: "put_byte room (take room out) c = take room (out @ [c])"
  by (simp add: put_byte_def)

lemma rdm_drop: "drop p m = x # xs \<Longrightarrow> rdm m (int p) = Inr x"
  by (metis drop_all linorder_not_le list.distinct(1) nth_Cons_0 nth_via_drop rdm_int)

lemma drop_Suc_tl: "drop p m = x # xs \<Longrightarrow> drop (Suc p) m = xs"
  by (metis drop_Suc list.sel(3) tl_drop)

lemma delimcpy_loop_byte:
  assumes "drop p m = c # xs" "int p < fromend" "c \<noteq> 92" "c \<noteq> d"
  shows "delimcpy_loop m (int p) fromend d room (take room out) n =
         delimcpy_loop m (int (Suc p)) fromend d room (take room (out @ [c])) (n + 1)"
  using assms rdm_drop[OF assms(1)]
  by (subst delimcpy_loop.simps) (simp add: add.commute)

lemma delimcpy_loop_pair:
  assumes "drop p m = 92 # c # xs" "int p < fromend"
  shows "delimcpy_loop m (int p) fromend d room (take room out) n =
         (if c = d then delimcpy_loop m (int (Suc (Suc p))) fromend d room (take room (out @ [c])) (n + 1)
          else delimcpy_loop m (int (Suc (Suc p))) fromend d room (take room (out @ [92, c])) (n + 2))"
proof -
  have "rdm m (int p) = Inr 92" "rdm m (int p + 1) = Inr c"
    using rdm_drop[OF assms(1)] rdm_drop[OF drop_Suc_tl[OF assms(1)]] by (simp_all add: add.commute)
  then show ?thesis
    using assms(2) put_byte_take[of room "out @ [92]" c]
    by (subst delimcpy_loop.simps) (simp add: add.commute del: take_append)
qed

lemma delimcpy_loop_quoted:
  assumes "d \<noteq> 92"
  shows "plain_field d f \<Longrightarrow> drop p m = quote_field d f @ rest \<Longrightarrow>
    int p + int (length (quote_field d f)) \<le> fromend \<Longrightarrow>
    delimcpy_loop m (int p) fromend d room (take room out) n =
    delimcpy_loop m (int (p + length (quote_field d f))) fromend d room (take room (out @ f)) (n + of_nat (length f))"
proof (induction d f arbitrary: p out n rule: plain_field.induct)
  case (2 d c cs)
  show ?case
  proof (cases "c = 92")
    case True
    with "2.prems" obtain x xs where cs: "cs = x # xs" "x \<noteq> d" "plain_field d xs"
      by (auto split: list.splits)
    with True "2.prems"(2) have dr: "drop p m = 92 # x # quote_field d xs @ rest" by simp
    have "delimcpy_loop m (int (Suc (Suc p))) fromend d room (take room (out @ [92, x])) (n + 2) =
       delimcpy_loop m (int (Suc (Suc p) + length (quote_field d xs))) fromend d room
         (take room ((out @ [92, x]) @ xs)) (n + 2 + of_nat (length xs))"
      using 2(1)[OF True cs(1,3), of "Suc (Suc p)" "out @ [92, x]" "n + 2"] drop_Suc_tl[OF drop_Suc_tl[OF dr]] "2.prems"(3) True cs by simp
    with delimcpy_loop_pair[OF dr, of fromend d room out n] "2.prems"(3) True cs show ?thesis
      by (simp add: add.commute add.left_commute)
  next
    case c: False
    show ?thesis
    proof (cases "c = d")
      case True
      with c "2.prems"(2) have dr: "drop p m = 92 # d # quote_field d cs @ rest" by simp
      have "delimcpy_loop m (int (Suc (Suc p))) fromend d room (take room (out @ [d])) (n + 1) =
         delimcpy_loop m (int (Suc (Suc p) + length (quote_field d cs))) fromend d room
           (take room ((out @ [d]) @ cs)) (n + 1 + of_nat (length cs))"
        using 2(2)[OF c, of "Suc (Suc p)" "out @ [d]" "n + 1"] drop_Suc_tl[OF drop_Suc_tl[OF dr]] "2.prems" c True by simp
      with delimcpy_loop_pair[OF dr, of fromend d room out n] "2.prems"(3) True c show ?thesis
        by (simp add: ac_simps)
    next
      case False
      with c "2.prems"(2) have dr: "drop p m = c # quote_field d cs @ rest" by simp
      have "delimcpy_loop m (int (Suc p)) fromend d room (take room (out @ [c])) (n + 1) =
         delimcpy_loop m (int (Suc p + length (quote_field d cs))) fromend d room
           (take room ((out @ [c]) @ cs)) (n + 1 + of_nat (length cs))"
        using 2(2)[OF c, of "Suc p" "out @ [c]" "n + 1"] drop_Suc_tl[OF dr] "2.prems" c False by simp
      with delimcpy_loop_byte[OF dr _ c False, of fromend room out n] "2.prems"(3) False c show ?thesis
        by (simp add: ac_simps)
    qed
  qed
qed simp

text \<open>
  The copy of a quoted field that the delimiter or the end of the text follows is the field, cut
  to the room there is and terminated if there is room for that; the length is that of the whole
  field; the copy stops at the delimiter, or at the end.
\<close>

lemma delimcpy_quoted:
  assumes "d \<noteq> 92" "plain_field d f" "length f < 2 ^ 31"
    and m: "drop p m = quote_field d f @ rest"
    and stop: "fromend = int (p + length (quote_field d f)) \<or>
      fromend > int (p + length (quote_field d f)) \<and> rest \<noteq> [] \<and> hd rest = d"
  shows "\<exists>n. delimcpy room m (int p) fromend d =
    Inr (take room (f @ [0]), n, int (p + length (quote_field d f))) \<and> unat n = length f"
proof -
  let ?e = "p + length (quote_field d f)"
  have "delimcpy_loop m (int p) fromend d room (take room []) 0 =
      delimcpy_loop m (int ?e) fromend d room (take room ([] @ f)) (0 + of_nat (length f))"
    by (rule delimcpy_loop_quoted[OF assms(1,2) m]) (use stop in auto)
  moreover have "delimcpy_loop m (int ?e) fromend d room (take room f) (of_nat (length f)) =
      Inr (take room (f @ [0]), of_nat (length f), int ?e)"
  proof (cases "fromend = int ?e")
    case True
    then show ?thesis by (subst delimcpy_loop.simps) simp
  next
    case False
    with stop have "rest = d # tl rest" and e: "int ?e < fromend" by (cases rest; auto)+
    moreover have "drop ?e m = rest"
      using arg_cong[OF m, of "drop (length (quote_field d f))"] by (simp add: add.commute)
    ultimately have dr: "drop ?e m = d # tl rest" by simp
    with e rdm_drop[OF dr] assms(1) show ?thesis
      by (subst delimcpy_loop.simps) simp
  qed
  moreover have "unat (of_nat (length f) :: u32) = length f"
    using assms(3) by (simp add: unat_of_nat take_bit_nat_eq_self_iff)
  ultimately show ?thesis by (simp add: delimcpy_def)
qed

text \<open>
  A backslash as the last byte makes \<open>delimcpy\<close> read the byte at \<open>fromend\<close>, copy it, and return
  a pointer beyond \<open>fromend\<close>.
\<close>

lemma delimcpy_runs_over:
  "delimcpy 10 [97, 92, 0] 0 2 58 = Inr ([97, 92, 0, 0], 3, 3)"
  by (simp add: delimcpy_def delimcpy_loop.simps rdm_def put_byte_def)

section \<open>The properties\<close>

text \<open>
  C33: \<open>rninstr\<close> returns the last place between \<open>big\<close> and \<open>bigend\<close> where the whole of \<open>little\<close> lies, or
  NULL, and reads nothing outside the text. \<open>ninstr\<close> returns the first place, but in the text that
  goes one byte further than \<open>bigend\<close>.
\<close>

theorem ninstr_rninstr_correct:
  assumes "a \<le> b" "b < length m"
  shows "rninstr m (int a) (int b) little = Inr (map_option int (last_in m a b little)) \<and>
         ninstr m (int a) (int b) little = Inr (map_option int (first_in m a (Suc b) little))"
proof
  show "rninstr m (int a) (int b) little = Inr (map_option int (last_in m a b little))"
    using assms by (intro rninstr_result) simp_all
  show "ninstr m (int a) (int b) little = Inr (map_option int (first_in m a (Suc b) little))"
    using assms by (rule ninstr_result)
qed

text \<open>In \<open>abab\<close> followed by a NUL, \<open>b\<close> NUL is found by \<open>ninstr\<close> and not by \<open>rninstr\<close>.\<close>

theorem ninstr_rninstr_correct_witness:
  "rninstr [97, 98, 97, 98, 0] 0 4 [98] = Inr (Some 3) \<and>
   ninstr [97, 98, 97, 98, 0] 0 4 [98, 0] = Inr (Some 3) \<and>
   rninstr [97, 98, 97, 98, 0] 0 4 [98, 0] = Inr None"
  using ninstr_rninstr_correct[of 0 4 "[97, 98, 97, 98, 0]" "[98]"]
    ninstr_rninstr_correct[of 0 4 "[97, 98, 97, 98, 0]" "[98, 0]"]
  by (simp add: first_in_def last_in_def occurs_at_def upt_rec)

text \<open>
  C32: \<open>delimcpy\<close> undoes the quoting of a field: from a field whose delimiters are quoted with a
  backslash, up to the delimiter or the end of the text, it copies the field, cut to the room there
  is and with a NUL behind it if there is room for that, gives the length of the whole field, and
  stops at the delimiter or at the end.
\<close>

theorem delimcpy_roundtrip:
  assumes "d \<noteq> 92" "plain_field d f" "length f < 2 ^ 31"
    and "drop p m = quote_field d f @ rest"
    and "fromend = int (p + length (quote_field d f)) \<or>
      fromend > int (p + length (quote_field d f)) \<and> rest \<noteq> [] \<and> hd rest = d"
  shows "\<exists>n. delimcpy room m (int p) fromend d =
    Inr (take room (f @ [0]), n, int (p + length (quote_field d f))) \<and> unat n = length f"
  using assms by (rule delimcpy_quoted)

text \<open>The field \<open>a:b\<close>, quoted, before a colon, with room for ten bytes.\<close>

theorem delimcpy_roundtrip_witness:
  "\<exists>n. delimcpy 10 [97, 92, 58, 98, 58, 99, 0] 0 6 58 = Inr ([97, 58, 98, 0], n, 4) \<and> unat n = 3"
  using delimcpy_roundtrip[of 58 "[97, 58, 98]" 0 "[97, 92, 58, 98, 58, 99, 0]" "[58, 99, 0]" 6 10] by (simp add: numeral_3_eq_3)

end
