(* ===== verification/Boyer_Moore.thy ===== *)
theory Boyer_Moore
  imports String_Search
begin

text \<open>
  The fast search of \<open>util.c\<close>: \<open>fbm_compile\<close> prepares a string for the Boyer-Moore search, and
  \<open>fbm_instr\<close> searches a text for it; \<open>pp_index\<close> (\<open>pp.c\<close>) is \<open>index\<close> and \<open>rindex\<close>. A string
  compiled with a TAIL flag stands for a pattern that ends in \<open>$\<close>: it is given a newline at its
  end, and \<open>fbm_instr\<close> also finds it without that newline at the end of the text.
\<close>

section \<open>A compiled string\<close>

text \<open>
  What the search keeps in the \<open>SV\<close>: the bytes (\<open>SvPVX\<close>), the flags \<open>SVpbm_VALID\<close> and
  \<open>SVpbm_TAIL\<close>, the shift table behind the bytes (no bytes if there is none), and the fields of
  \<open>xbm_s\<close>. The numeric slots, which \<open>fbm_compile\<close> turns off, and the magic that invalidates the
  compiled string when it is assigned to, are not modelled.
\<close>

record bm_sv =
  bm_pv :: "u8 list"
  bm_valid :: bool
  bm_tail :: bool
  bm_table :: "u8 list"
  bm_flags :: u8
  bm_rare :: u8
  bm_previous :: u32
  bm_useful :: int

definition SvVALID :: "bm_sv \<Rightarrow> bool" where
  "SvVALID sv = bm_valid sv"

definition SvTAIL :: "bm_sv \<Rightarrow> bool" where
  "SvTAIL sv = (bm_tail sv \<and> bm_valid sv)"

text \<open>A string that has not been compiled.\<close>

definition plain_sv :: "u8 list \<Rightarrow> bm_sv" where
  "plain_sv pv = \<lparr>bm_pv = pv, bm_valid = False, bm_tail = False, bm_table = [], bm_flags = 0,
     bm_rare = 0, bm_previous = 0, bm_useful = 0\<rparr>"

definition FBMcf_TAIL :: u32 where
  "FBMcf_TAIL = 1 OR 2 OR 4 OR 8"

definition FBMrf_MULTILINE :: u32 where
  "FBMrf_MULTILINE = 1"

text \<open>How common each byte is in English and C text.\<close>

definition PL_freq :: "nat list" where
  "PL_freq = [
    1, 2, 84, 151, 154, 155, 156, 157, 165, 246, 250, 3, 158, 7, 18, 29,
    40, 51, 62, 73, 85, 96, 107, 118, 129, 140, 147, 148, 149, 150, 152, 153,
    255, 182, 224, 205, 174, 176, 180, 217, 233, 232, 236, 187, 235, 228, 234, 226,
    222, 219, 211, 195, 188, 193, 185, 184, 191, 183, 201, 229, 181, 220, 194, 162,
    163, 208, 186, 202, 200, 218, 198, 179, 178, 214, 166, 170, 207, 199, 209, 206,
    204, 160, 212, 216, 215, 192, 175, 173, 243, 172, 161, 190, 203, 189, 164, 230,
    167, 248, 227, 244, 242, 255, 241, 231, 240, 253, 169, 210, 245, 237, 249, 247,
    239, 168, 252, 251, 254, 238, 223, 221, 213, 225, 177, 197, 171, 196, 159, 4,
    5, 6, 8, 9, 10, 11, 12, 13, 14, 15, 16, 17, 19, 20, 21, 22,
    23, 24, 25, 26, 27, 28, 30, 31, 32, 33, 34, 35, 36, 37, 38, 39,
    41, 42, 43, 44, 45, 46, 47, 48, 49, 50, 52, 53, 54, 55, 56, 57,
    58, 59, 60, 61, 63, 64, 65, 66, 67, 68, 69, 70, 71, 72, 74, 75,
    76, 77, 78, 79, 80, 81, 82, 83, 86, 87, 88, 89, 90, 91, 92, 93,
    94, 95, 97, 98, 99, 100, 101, 102, 103, 104, 105, 106, 108, 109, 110, 111,
    112, 113, 114, 115, 116, 117, 119, 120, 121, 122, 123, 124, 125, 126, 127, 128,
    130, 131, 132, 133, 134, 135, 136, 137, 138, 139, 141, 142, 143, 144, 145, 146]"

section \<open>fbm_compile\<close>

text \<open>
  The loop over the last \<open>mlen\<close> bytes, from the end: the shift of a byte is its distance from the
  end of the string, the smallest if it occurs more than once.
\<close>

fun fbm_fill :: "u8 \<Rightarrow> u8 list \<Rightarrow> nat \<Rightarrow> u8 list \<Rightarrow> u8 list" where
  "fbm_fill mlen [] i table = table"
| "fbm_fill mlen (c # s) i table =
   fbm_fill mlen s (Suc i) (if table ! unat c = mlen then table[unat c := of_nat i] else table)"

definition fbm_table :: "u8 list \<Rightarrow> u8 list" where
  "fbm_table pv =
   (let mlen = (if length pv > 255 then 255 else length pv)
    in fbm_fill (of_nat mlen) (take mlen (rev pv)) 0 (replicate 256 (of_nat mlen)))"

text \<open>
  The loop over \<open>i\<close>, a \<open>U32\<close> that is compared with the length, a \<open>STRLEN\<close>: it does not end for a
  string of \<open>2 ^ 32\<close> bytes or more, so it is \<open>None\<close> there.
\<close>

partial_function (option) fbm_rarest :: "u8 list \<Rightarrow> u32 \<Rightarrow> u32 \<Rightarrow> nat \<Rightarrow> u32 option" where
  "fbm_rarest s i rarest frequency =
   (if unat i < length s
    then if PL_freq ! unat (s ! unat i) < frequency
      then fbm_rarest s (i + 1) i (PL_freq ! unat (s ! unat i))
      else fbm_rarest s (i + 1) rarest frequency
    else Some rarest)"

declare fbm_rarest.simps [code]

text \<open>There is memory for the table: \<open>Sv_Grow\<close> does not die. \<open>None\<close> is a loop that does not end.\<close>

definition fbm_compile :: "bm_sv \<Rightarrow> u32 \<Rightarrow> bm_sv option" where
  "fbm_compile sv flags =
   (let tail = (flags AND FBMcf_TAIL \<noteq> 0);
        s = (if tail then bm_pv sv @ [10] else bm_pv sv)
    in if s = [] then Some sv
       else Option.bind (fbm_rarest s 0 0 256) (\<lambda>rarest.
         Some (sv\<lparr>bm_pv := s, bm_valid := True,
              bm_table := (if length s > 2 then fbm_table s else []),
              bm_flags := ucast flags, bm_rare := s ! unat rarest, bm_previous := rarest,
              bm_useful := 100, bm_tail := (if tail then True else bm_tail sv)\<rparr>)))"

section \<open>fbm_instr\<close>

text \<open>A wanted string of one byte.\<close>

function fbm_find1 :: "u8 list \<Rightarrow> u8 \<Rightarrow> int \<Rightarrow> int \<Rightarrow> int option result" where
  "fbm_find1 m c s bigend =
   (if s < bigend
    then case rdm m s of Inl e \<Rightarrow> Inl e | Inr b \<Rightarrow>
      if b = c then Inr (Some s) else fbm_find1 m c (s + 1) bigend
    else Inr None)"
  by pat_completeness auto
termination
  by (relation "measure (\<lambda>(m, c, s, bigend). nat (bigend - s))") auto

text \<open>
  A wanted string of two different bytes; \<open>bigend\<close> is the last byte of the text. \<open>next_chars\<close>
  tells that the loop has been entered at that label. \<open>None\<close> is \<open>goto check_1char_anchor\<close>.
\<close>

function fbm_find2 :: "u8 list \<Rightarrow> u8 \<Rightarrow> u8 \<Rightarrow> int \<Rightarrow> bool \<Rightarrow> int \<Rightarrow> int option result" where
  "fbm_find2 m c1 c2 bigend next_chars s =
   (if next_chars
    then case rdm m s of Inl e \<Rightarrow> Inl e | Inr s0 \<Rightarrow>
      if s0 = c1
      then if s = bigend then Inr None
        else case rdm m (s + 1) of Inl e \<Rightarrow> Inl e | Inr s1 \<Rightarrow>
          if s1 = c2 then Inr (Some s) else fbm_find2 m c1 c2 bigend True (s + 1)
      else fbm_find2 m c1 c2 bigend False (s + 2)
    else if s \<le> bigend
    then case rdm m s of Inl e \<Rightarrow> Inl e | Inr s0 \<Rightarrow>
      if s0 = c2
      then case rdm m (s - 1) of Inl e \<Rightarrow> Inl e | Inr s1 \<Rightarrow>
        if s1 = c1 then Inr (Some (s - 1)) else fbm_find2 m c1 c2 bigend False (s + 2)
      else fbm_find2 m c1 c2 bigend True s
    else Inr None)"
  by pat_completeness auto
termination
  by (relation "measures [\<lambda>(m, c1, c2, be, nx, s). nat (int (length m) - s), \<lambda>(m, c1, c2, be, nx, s). if nx then 0 else 1]")
    (auto simp: rdm_def split: if_splits)

text \<open>A wanted string of the same byte twice.\<close>

function fbm_find_pair :: "u8 list \<Rightarrow> u8 \<Rightarrow> int \<Rightarrow> int \<Rightarrow> int option result" where
  "fbm_find_pair m c1 bigend s =
   (if s \<le> bigend
    then case rdm m s of Inl e \<Rightarrow> Inl e | Inr s0 \<Rightarrow>
      if s0 = c1
      then case rdm m (s - 1) of Inl e \<Rightarrow> Inl e | Inr p \<Rightarrow>
        if p = c1 then Inr (Some (s - 1))
        else if s = bigend then Inr None
        else case rdm m (s + 1) of Inl e \<Rightarrow> Inl e | Inr n \<Rightarrow>
          if n = c1 then Inr (Some s) else fbm_find_pair m c1 bigend (s + 3)
      else fbm_find_pair m c1 bigend (s + 2)
    else Inr None)"
  by pat_completeness auto
termination
  by (relation "measure (\<lambda>(m, c, bigend, s). nat (bigend + 1 - s))") auto

text \<open>The Boyer-Moore loop. \<open>Ended s\<close> is \<open>goto check_end\<close>.\<close>

datatype fbm_outcome = Found_at int | Ended int

text \<open>
  The comparison goes down from \<open>s\<close> in the text and from \<open>l\<close> in the wanted string, \<open>while (tmp--)\<close>;
  \<open>tmp\<close> is an \<open>I32\<close>.
\<close>

function fbm_compare :: "u8 list \<Rightarrow> u8 list \<Rightarrow> int \<Rightarrow> int \<Rightarrow> int \<Rightarrow> int option result" where
  "fbm_compare m little s l tmp =
   (if tmp = 0 then Inr (Some s)
    else case rdm m (s - 1) of Inl e \<Rightarrow> Inl e | Inr b \<Rightarrow>
      case rdm little (l - 1) of Inl e \<Rightarrow> Inl e | Inr c \<Rightarrow>
        if b = c then fbm_compare m little (s - 1) (l - 1) (to_I32 (tmp - 1)) else Inr None)"
  by pat_completeness auto
termination
  by (relation "measure (\<lambda>(m, little, s, l, tmp). nat l)") (auto simp: rdm_def split: if_splits)

lemma uint_u8_pos: "uint (w :: u8) \<noteq> 0 \<Longrightarrow> 0 < uint w"
  by (simp add: less_le)

function fbm_loop :: "u8 list \<Rightarrow> u8 list \<Rightarrow> u8 list \<Rightarrow> int \<Rightarrow> int \<Rightarrow> int \<Rightarrow> fbm_outcome result" where
  "fbm_loop m table little littlelen bigend s =
   (case rdm m s of Inl e \<Rightarrow> Inl e | Inr c \<Rightarrow>
      let tmp = int (unat (table ! unat c))
      in if tmp \<noteq> 0
         then (if s + tmp < bigend then fbm_loop m table little littlelen bigend (s + tmp) else Inr (Ended (s + tmp)))
         else (case fbm_compare m little s littlelen (to_I32 littlelen) of
             Inl e \<Rightarrow> Inl e
           | Inr (Some p) \<Rightarrow> Inr (Found_at p)
           | Inr None \<Rightarrow>
               if s + 1 < bigend then fbm_loop m table little littlelen bigend (s + 1) else Inr (Ended (s + 1))))"
  by pat_completeness auto
termination
  by (relation "measure (\<lambda>(m, table, little, littlelen, bigend, s). nat (int (length m) - s))")
    (auto simp: rdm_def dest: uint_u8_pos split: if_splits)

declare fbm_find1.simps [simp del] fbm_find2.simps [simp del] fbm_find_pair.simps [simp del]
  fbm_loop.simps [simp del] fbm_compare.simps [simp del]

text \<open>
  \<open>fbm_instr\<close> from the top: a text shorter than the string; strings of at most two bytes; a
  string that may only lie at the end (\<open>SvTAIL\<close> without \<open>FBMrf_MULTILINE\<close>); a string that was not
  compiled; the table.
\<close>

definition fbm_short_text :: "u8 list \<Rightarrow> int \<Rightarrow> nat \<Rightarrow> bm_sv \<Rightarrow> int option result" where
  "fbm_short_text m big textlen sv =
   (let little = bm_pv sv; littlelen = length little in
    if SvTAIL sv \<and> textlen = littlelen - 1
    then if littlelen = 1 then Inr (Some big)
      else bind_result (rdm m big) (\<lambda>c.
        if c = rd little 0
        then bind_result (memEQ m big (take (littlelen - 1) little)) (\<lambda>eq. Inr (if eq then Some big else None))
        else Inr None)
    else Inr None)"

definition fbm_one :: "u8 list \<Rightarrow> int \<Rightarrow> int \<Rightarrow> bm_sv \<Rightarrow> bool \<Rightarrow> int option result" where
  "fbm_one m big bigend sv multiline =
   (if SvTAIL sv \<and> \<not> multiline
    then bind_result (rdm m (bigend - 1)) (\<lambda>c. Inr (Some (if c = 10 then bigend - 1 else bigend)))
    else bind_result (fbm_find1 m (rd (bm_pv sv) 0) big bigend) (\<lambda>r.
      Inr (case r of Some s \<Rightarrow> Some s | None \<Rightarrow> if SvTAIL sv then Some bigend else None)))"

definition check_1char_anchor :: "u8 list \<Rightarrow> int \<Rightarrow> bm_sv \<Rightarrow> int option result" where
  "check_1char_anchor m bigend sv =
   (if SvTAIL sv
    then bind_result (rdm m bigend) (\<lambda>c. Inr (if c = rd (bm_pv sv) 0 then Some bigend else None))
    else Inr None)"

definition fbm_two :: "u8 list \<Rightarrow> int \<Rightarrow> int \<Rightarrow> bm_sv \<Rightarrow> bool \<Rightarrow> int option result" where
  "fbm_two m big bigend sv multiline =
   (let c1 = rd (bm_pv sv) 0; c2 = rd (bm_pv sv) 1 in
    if SvTAIL sv \<and> \<not> multiline
    then bind_result (rdm m (bigend - 1)) (\<lambda>y.
      if y = 10
      then bind_result (rdm m (bigend - 2)) (\<lambda>x.
        if x = c1 then Inr (Some (bigend - 2))
        else Inr (if y = c1 then Some (bigend - 1) else None))
      else Inr (if y = c1 then Some (bigend - 1) else None))
    else bind_result
      (if c1 \<noteq> c2 then fbm_find2 m c1 c2 (bigend - 1) False (big + 1)
       else fbm_find_pair m c1 (bigend - 1) (big + 1))
      (\<lambda>r. case r of Some s \<Rightarrow> Inr (Some s) | None \<Rightarrow> check_1char_anchor m (bigend - 1) sv))"

definition fbm_tail_anchored :: "u8 list \<Rightarrow> int \<Rightarrow> int \<Rightarrow> bm_sv \<Rightarrow> int option result" where
  "fbm_tail_anchored m big bigend sv =
   (let little = bm_pv sv; littlelen = length little; s = bigend - int littlelen;
        middle = take (littlelen - 2) (drop 1 little) in
    bind_result
      (if s \<ge> big
       then bind_result (rdm m (bigend - 1)) (\<lambda>y.
         if y = 10
         then bind_result (rdm m s) (\<lambda>c. if c = rd little 0 then memEQ m (s + 1) middle else Inr False)
         else Inr False)
       else Inr False)
      (\<lambda>eq. if eq then Inr (Some s)
        else bind_result (rdm m (s + 1)) (\<lambda>c.
          if c = rd little 0
          then bind_result (memEQ m (s + 2) middle) (\<lambda>eq. Inr (if eq then Some (s + 1) else None))
          else Inr None)))"

definition fbm_not_compiled :: "u8 list \<Rightarrow> int \<Rightarrow> int \<Rightarrow> bm_sv \<Rightarrow> int option result" where
  "fbm_not_compiled m big bigend sv =
   (let little = bm_pv sv; littlelen = length little in
    bind_result (ninstr m big bigend little) (\<lambda>b.
      if b = None \<and> SvTAIL sv
      then let s = bigend - int littlelen + 1 in
        bind_result (rdm m s) (\<lambda>c.
          if c = rd little 0
          then bind_result (memEQ m (s + 1) (take (littlelen - 2) (drop 1 little)))
                 (\<lambda>eq. Inr (if eq then Some s else None))
          else Inr None)
      else Inr b))"

definition fbm_search :: "u8 list \<Rightarrow> int \<Rightarrow> int \<Rightarrow> bm_sv \<Rightarrow> int option result" where
  "fbm_search m big bigend sv =
   (let little = bm_pv sv; littlelen = length little - 1; s = big + int littlelen in
    bind_result
      (if s < bigend then fbm_loop m (bm_table sv) little (int littlelen) bigend s else Inr (Ended s))
      (\<lambda>out. case out of
          Found_at p \<Rightarrow> Inr (Some p)
        | Ended s \<Rightarrow>
            if s = bigend \<and> ucast (bm_flags sv) AND FBMcf_TAIL \<noteq> 0
            then bind_result (memEQ m (bigend - int littlelen) (take littlelen little))
                   (\<lambda>eq. Inr (if eq then Some (bigend - int littlelen) else None))
            else Inr None))"

definition fbm_instr :: "u8 list \<Rightarrow> int \<Rightarrow> int \<Rightarrow> bm_sv \<Rightarrow> u32 \<Rightarrow> int option result" where
  "fbm_instr m big bigend sv flags =
   (let littlelen = length (bm_pv sv);
        textlen = unat (of_int (bigend - big) :: uv);
        multiline = (flags AND FBMrf_MULTILINE \<noteq> 0)
    in if textlen < littlelen then fbm_short_text m big textlen sv
       else if littlelen = 1 then fbm_one m big bigend sv multiline
       else if littlelen = 0 then Inr (Some big)
       else if littlelen = 2 then fbm_two m big bigend sv multiline
       else if SvTAIL sv \<and> \<not> multiline then fbm_tail_anchored m big bigend sv
       else if \<not> SvVALID sv then fbm_not_compiled m big bigend sv
       else if littlelen > textlen then Inr None
       else fbm_search m big bigend sv)"

text \<open>
  \<open>index\<close> and \<open>rindex\<close> without the \<open>codepoints\<close> hint, where positions are byte positions.
  \<open>pos\<close> is the third argument, if there is one (\<open>POPi\<close>); \<open>ok\<close> is \<open>SvOK(little)\<close>. The text is a
  \<open>PV\<close>: its bytes and the NUL behind them.
\<close>

definition pp_index :: "bool \<Rightarrow> u8 list \<Rightarrow> bm_sv \<Rightarrow> bool \<Rightarrow> int option \<Rightarrow> int result" where
  "pp_index is_index big little ok pos =
   (let biglen = int (length big); llen = int (length (bm_pv little));
        sv = (if is_index \<and> \<not> ok then plain_sv (bm_pv little) else little);
        offset0 = (case pos of
            None \<Rightarrow> (if is_index then 0 else to_I32 biglen)
          | Some p \<Rightarrow> (if is_index then to_I32 p else to_I32 (to_I32 p + llen)));
        offset = (if offset0 < 0 then 0 else if offset0 > to_I32 biglen then to_I32 biglen else offset0)
    in bind_result
         (if is_index then fbm_instr (big @ [0]) offset biglen sv 0
          else rninstr (big @ [0]) 0 offset (bm_pv little))
         (\<lambda>r. Inr (case r of None \<Rightarrow> - 1 | Some p \<Rightarrow> to_I32 p)))"

section \<open>Strings of one and two bytes\<close>

lemma first_in_skip:
  assumes "little \<noteq> []" "\<not> occurs_at m little a"
  shows "first_in m a b little = first_in m (Suc a) b little"
proof (cases "a + length little \<le> b")
  case True
  with assms show ?thesis by (simp add: first_in_step)
next
  case False
  with assms show ?thesis by (simp add: first_in_empty)
qed

lemma first_in_hit:
  "occurs_at m little a \<Longrightarrow> a + length little \<le> b \<Longrightarrow> first_in m a b little = Some a"
  by (simp add: first_in_step)

lemma fbm_find1_correct:
  assumes "b \<le> length m"
  shows "fbm_find1 m c (int a) (int b) = Inr (map_option int (first_in m a b [c]))"
proof (induction "b - a" arbitrary: a)
  case 0
  then show ?case by (simp add: fbm_find1.simps[of m c "int a"] first_in_empty)
next
  case (Suc n)
  have "fbm_find1 m c (int (Suc a)) (int b) = Inr (map_option int (first_in m (Suc a) b [c]))"
    using Suc.hyps(2) by (intro Suc.hyps(1)) simp
  with Suc.hyps(2) assms show ?case
    by (auto simp: fbm_find1.simps[of m c "int a"] first_in_step occurs_at_Cons add.commute)
qed

lemma fbm_find2_unfold:
  assumes "b \<le> length m" "s < b"
  shows "fbm_find2 m c1 c2 (int b - 1) True (int s) =
    (if m ! s = c1
     then if s = b - 1 then Inr None
       else if m ! Suc s = c2 then Inr (Some (int s)) else fbm_find2 m c1 c2 (int b - 1) True (int (Suc s))
     else fbm_find2 m c1 c2 (int b - 1) False (int (Suc (Suc s))))"
    and "fbm_find2 m c1 c2 (int b - 1) False (int s) =
    (if m ! s = c2
     then case rdm m (int s - 1) of Inl e \<Rightarrow> Inl e | Inr c \<Rightarrow>
       if c = c1 then Inr (Some (int s - 1)) else fbm_find2 m c1 c2 (int b - 1) False (int (Suc (Suc s)))
     else fbm_find2 m c1 c2 (int b - 1) True (int s))"
proof -
  have next': "rdm m (int s + 1) = Inr (m ! Suc s)" if "s \<noteq> b - 1"
    using rdm_int[of m "Suc s"] assms that by (simp add: add.commute)
  have eq: "int s = int b - 1 \<longleftrightarrow> s = b - 1" "int s + 1 = int (Suc s)" "int s + 2 = int (Suc (Suc s))"
    "int s \<le> int b - 1" "int s < int b"
    using assms by auto
  have rd: "rdm m (int s) = Inr (m ! s)" using assms by simp
  show "fbm_find2 m c1 c2 (int b - 1) True (int s) =
    (if m ! s = c1
     then if s = b - 1 then Inr None
       else if m ! Suc s = c2 then Inr (Some (int s)) else fbm_find2 m c1 c2 (int b - 1) True (int (Suc s))
     else fbm_find2 m c1 c2 (int b - 1) False (int (Suc (Suc s))))"
    using next' by (subst fbm_find2.simps) (simp only: eq rd sum.case if_True if_False split: if_split, simp add: eq)
  show "fbm_find2 m c1 c2 (int b - 1) False (int s) =
    (if m ! s = c2
     then case rdm m (int s - 1) of Inl e \<Rightarrow> Inl e | Inr c \<Rightarrow>
       if c = c1 then Inr (Some (int s - 1)) else fbm_find2 m c1 c2 (int b - 1) False (int (Suc (Suc s)))
     else fbm_find2 m c1 c2 (int b - 1) True (int s))"
    by (subst fbm_find2.simps) (simp only: eq rd sum.case if_True if_False)
qed

text \<open>
  At the label \<open>next_chars\<close> the search is for the places from \<open>s\<close> on, at the head of the loop for
  those from \<open>s - 1\<close> on.
\<close>

lemma fbm_find2_correct:
  assumes b: "b \<le> length m" and ne: "c1 \<noteq> c2"
  shows "(s < b \<longrightarrow> fbm_find2 m c1 c2 (int b - 1) True (int s) = Inr (map_option int (first_in m s b [c1, c2])))
    \<and> fbm_find2 m c1 c2 (int b - 1) False (int (Suc s)) = Inr (map_option int (first_in m s b [c1, c2]))"
proof (induction "b - s" arbitrary: s rule: less_induct)
  case less
  let ?L = "[c1, c2]"
  have IH: "fbm_find2 m c1 c2 (int b - 1) True (int t) = Inr (map_option int (first_in m t b ?L))"
    if "s < t" "t < b" for t using less[of t] that by auto
  have IHF: "fbm_find2 m c1 c2 (int b - 1) False (int (Suc t)) = Inr (map_option int (first_in m t b ?L))"
    if "s < t" "s < b" for t using less[of t] that by auto
  have T: "fbm_find2 m c1 c2 (int b - 1) True (int s) = Inr (map_option int (first_in m s b ?L))" if s: "s < b"
  proof -
    have m: "s < length m" using s b by simp
    show ?thesis
    proof (cases "m ! s = c1 \<and> s \<noteq> b - 1")
      case True
      with s b have ms: "Suc s < length m" "Suc s < b" by auto
      then have "occurs_at m ?L s \<longleftrightarrow> m ! Suc s = c2" using True m by (simp add: occurs_at_Cons)
      with True ms IH[of "Suc s"] fbm_find2_unfold(1)[OF b s, of c1 c2] show ?thesis
        using first_in_hit[of m ?L s b] first_in_skip[of ?L m s b] by (auto simp del: of_nat_Suc)
    next
      case False
      have "first_in m s b ?L = first_in m (Suc s) b ?L"
      proof (cases "m ! s = c1")
        case True
        with False s show ?thesis by (simp add: first_in_empty)
      next
        case False
        with m show ?thesis by (intro first_in_skip) (simp_all add: occurs_at_Cons)
      qed
      with False IHF[of "Suc s"] s fbm_find2_unfold(1)[OF b s, of c1 c2] show ?thesis
        by (auto simp: first_in_empty simp del: of_nat_Suc)
    qed
  qed
  have "fbm_find2 m c1 c2 (int b - 1) False (int (Suc s)) = Inr (map_option int (first_in m s b ?L))"
  proof (cases "Suc s < b")
    case False
    then have "\<not> int (Suc s) \<le> int b - 1" by linarith
    then show ?thesis using False by (subst fbm_find2.simps) (simp add: first_in_empty)
  next
    case True
    with b have m: "s < length m" "Suc s < length m" by auto
    then have prev: "rdm m (int (Suc s) - 1) = Inr (m ! s)" by simp
    have occ: "occurs_at m ?L s \<longleftrightarrow> m ! s = c1 \<and> m ! Suc s = c2" using m by (simp add: occurs_at_Cons)
    have occ': "\<not> occurs_at m ?L (Suc s)" if "m ! Suc s = c2" using m that ne by (simp add: occurs_at_Cons)
    note unf = fbm_find2_unfold(2)[OF b True, of c1 c2] 
    show ?thesis
    proof (cases "m ! Suc s = c2")
      case c2: True
      show ?thesis
      proof (cases "m ! s = c1")
        case hit: True
        then show ?thesis using unf prev c2 occ first_in_hit[of m ?L s b] True
          by (simp del: of_nat_Suc)
      next
        case False
        have "first_in m s b ?L = first_in m (Suc (Suc s)) b ?L"
          using False occ occ' c2 by (simp add: first_in_skip)
        then show ?thesis using unf prev c2 False IHF[of "Suc (Suc s)"] True
          by (simp del: of_nat_Suc)
      qed
    next
      case False
      then have "first_in m s b ?L = first_in m (Suc s) b ?L" using occ by (simp add: first_in_skip)
      then show ?thesis using unf False IH[of "Suc s"] True by (simp del: of_nat_Suc)
    qed
  qed
  with T show ?case by blast
qed

lemma fbm_find_pair_unfold:
  assumes "b \<le> length m" "Suc s < b"
  shows "fbm_find_pair m c (int b - 1) (int (Suc s)) =
    (if m ! Suc s = c
     then if m ! s = c then Inr (Some (int s))
       else if Suc s = b - 1 then Inr None
       else if m ! Suc (Suc s) = c then Inr (Some (int (Suc s)))
       else fbm_find_pair m c (int b - 1) (int (Suc (Suc (Suc (Suc s)))))
     else fbm_find_pair m c (int b - 1) (int (Suc (Suc (Suc s)))))"
proof -
  have next': "rdm m (int (Suc s) + 1) = Inr (m ! Suc (Suc s))" if "Suc s \<noteq> b - 1"
    using rdm_int[of m "Suc (Suc s)"] assms that by (simp add: add.commute)
  have eq: "int (Suc s) = int b - 1 \<longleftrightarrow> Suc s = b - 1" "int (Suc s) + 3 = int (Suc (Suc (Suc (Suc s))))"
    "int (Suc s) + 2 = int (Suc (Suc (Suc s)))" "int (Suc s) \<le> int b - 1" "int (Suc s) - 1 = int s"
    using assms by auto
  have rd: "rdm m (int s) = Inr (m ! s)" "rdm m (int (Suc s)) = Inr (m ! Suc s)"
    using assms by (simp_all only: rdm_int) simp_all
  show ?thesis
    using next' by (subst fbm_find_pair.simps) (simp only: eq rd sum.case if_True split: if_split, simp add: eq)
qed

lemma fbm_find_pair_correct:
  assumes b: "b \<le> length m"
  shows "fbm_find_pair m c (int b - 1) (int (Suc s)) = Inr (map_option int (first_in m s b [c, c]))"
proof (induction "b - s" arbitrary: s rule: less_induct)
  case less
  let ?L = "[c, c]"
  have IH: "fbm_find_pair m c (int b - 1) (int (Suc t)) = Inr (map_option int (first_in m t b ?L))"
    if "s < t" "s < b" for t using less[of t] that by auto
  show ?case
  proof (cases "Suc s < b")
    case False
    then have "\<not> int (Suc s) \<le> int b - 1" by linarith
    then show ?thesis using False by (subst fbm_find_pair.simps) (simp add: first_in_empty)
  next
    case True
    with b have m: "s < length m" "Suc s < length m" by auto
    have occ: "occurs_at m ?L t \<longleftrightarrow> m ! t = c \<and> m ! Suc t = c" if "Suc t < b" for t
      using that b by (simp add: occurs_at_Cons)
    have occ1: "occurs_at m ?L (Suc s) \<Longrightarrow> m ! Suc s = c" using m by (simp add: occurs_at_Cons)
    have skip: "first_in m t b ?L = first_in m (Suc t) b ?L" if "\<not> occurs_at m ?L t" for t
      using that by (simp add: first_in_skip)
    note unf = fbm_find_pair_unfold[OF b True, of c]
    consider "m ! Suc s \<noteq> c" | "m ! Suc s = c" "m ! s = c" | "m ! Suc s = c" "m ! s \<noteq> c" "Suc s = b - 1"
      | "m ! Suc s = c" "m ! s \<noteq> c" "Suc (Suc s) < b"
      using True by linarith
    then show ?thesis
    proof cases
      case 1
      then have "first_in m s b ?L = first_in m (Suc (Suc s)) b ?L" using occ[OF True] occ1 skip by metis
      then show ?thesis using 1 unf IH[of "Suc (Suc s)"] True by (simp del: of_nat_Suc)
    next
      case 2
      then show ?thesis using unf occ[OF True] first_in_hit[of m ?L s b] True by (simp del: of_nat_Suc)
    next
      case 3
      then have "first_in m s b ?L = None" using occ[OF True] skip[of s] True by (simp add: first_in_empty)
      then show ?thesis using 3 unf by (simp del: of_nat_Suc)
    next
      case 4
      then have s1: "first_in m s b ?L = first_in m (Suc s) b ?L" using occ[OF True] skip by simp
      show ?thesis
      proof (cases "m ! Suc (Suc s) = c")
        case True
        then show ?thesis using 4 unf s1 occ[of "Suc s"] first_in_hit[of m ?L "Suc s" b] by (simp del: of_nat_Suc)
      next
        case False
        have "\<not> occurs_at m ?L (Suc (Suc s))" using False 4 b by (simp add: occurs_at_Cons)
        then have "first_in m s b ?L = first_in m (Suc (Suc (Suc s))) b ?L"
          using s1 skip False occ[of "Suc s"] 4 by metis
        moreover have "Suc s \<noteq> b - 1" using 4(3) by linarith
        ultimately show ?thesis using 4 False unf IH[of "Suc (Suc (Suc s))"] True by (simp del: of_nat_Suc)
      qed
    qed
  qed
qed

section \<open>The shift table\<close>

lemma fbm_fill_length [simp]: "length (fbm_fill mlen s i t) = length t"
  by (induction mlen s i t rule: fbm_fill.induct) simp_all

lemma fbm_fill_correct:
  assumes "length (front @ s) < 256"
    and "length t = 256" "i = length front" "mlen = of_nat (length (front @ s))"
    and "\<forall>c. t ! unat c = (if c \<in> set front then of_nat (length (takeWhile (\<lambda>x. x \<noteq> c) front)) else mlen)"
  shows "\<forall>c. fbm_fill mlen s i t ! unat (c :: u8) =
    (if c \<in> set (front @ s) then of_nat (length (takeWhile (\<lambda>x. x \<noteq> c) (front @ s))) else mlen)"
  using assms
proof (induction s arbitrary: front i t)
  case Nil
  then show ?case by simp
next
  case (Cons x s)
  have small: "length (takeWhile P front) < length (front @ x # s)" for P
    using length_takeWhile_le[of P front] by simp
  have differs: "(of_nat (length (takeWhile P front)) :: u8) \<noteq> mlen" for P
  proof
    assume "(of_nat (length (takeWhile P front)) :: u8) = mlen"
    then have "unat (of_nat (length (takeWhile P front)) :: u8) = unat (of_nat (length (front @ x # s)) :: u8)"
      using Cons.prems(4) by (simp only:)
    moreover have u: "unat (of_nat n :: u8) = n" if "n < 256" for n
      using that by (simp add: unat_of_nat take_bit_nat_eq_self_iff)
    moreover have "length (takeWhile P front) < 256" using small[of P] Cons.prems(1) by (rule less_trans)
    ultimately have "length (takeWhile P front) = length (front @ x # s)"
      using Cons.prems(1) by (simp only:)
    with small[of P] show False by simp
  qed
  let ?t = "if t ! unat x = mlen then t[unat x := of_nat i] else t"
  have "\<forall>c. ?t ! unat c =
      (if c \<in> set (front @ [x]) then of_nat (length (takeWhile (\<lambda>y. y \<noteq> c) (front @ [x]))) else mlen)"
  proof
    fix c :: u8
    have c: "unat c < length t" "unat x < length t" "unat x = unat c \<longleftrightarrow> x = c"
      using Cons.prems(2) by (auto simp: word_unat_eq_iff)
    have t: "t ! unat y = (if y \<in> set front then of_nat (length (takeWhile (\<lambda>x. x \<noteq> y) front)) else mlen)" for y
      using Cons.prems(5) by blast
    have all: "takeWhile (\<lambda>y. y \<noteq> c) front = front" if "c \<notin> set front"
      using that by (auto simp: takeWhile_eq_all_conv)
    show "?t ! unat c =
        (if c \<in> set (front @ [x]) then of_nat (length (takeWhile (\<lambda>y. y \<noteq> c) (front @ [x]))) else mlen)"
      using differs c all t[of c] t[of x] Cons.prems(3)
      by (cases "x = c"; cases "c \<in> set front"; cases "x \<in> set front")
        (auto simp: takeWhile_append nth_list_update)
  qed
  moreover have "length ((front @ [x]) @ s) < 256" "length ?t = 256" "Suc i = length (front @ [x])"
    "mlen = of_nat (length ((front @ [x]) @ s))"
    using Cons.prems(1-4) by simp_all
  ultimately have "\<forall>c. fbm_fill mlen s (Suc i) ?t ! unat (c :: u8) =
      (if c \<in> set ((front @ [x]) @ s) then of_nat (length (takeWhile (\<lambda>y. y \<noteq> c) ((front @ [x]) @ s))) else mlen)"
    by (intro Cons.IH)
  then show ?case unfolding fbm_fill.simps append_assoc append_Cons append_Nil .
qed

text \<open>The entry of a byte is the number of bytes at the end of the string that differ from it.\<close>

lemma fbm_table_entry:
  "unat (fbm_table pv ! unat c) = length (takeWhile (\<lambda>x. x \<noteq> c) (take (min 255 (length pv)) (rev pv)))"
proof -
  let ?xs = "take (min 255 (length pv)) (rev pv)"
  have len: "length ?xs = min 255 (length pv)" by simp
  define v :: u8 where "v = of_nat (min 255 (length pv))"
  define t0 where "t0 = replicate 256 v"
  have t0: "length t0 = 256" by (simp only: t0_def length_replicate)
  have "t0 ! unat d = v" for d :: u8
    unfolding t0_def by (rule nth_replicate) simp
  then have "\<forall>d. t0 ! unat (d :: u8) =
      (if d \<in> set [] then of_nat (length (takeWhile (\<lambda>x. x \<noteq> d) [])) else v)" by simp
  then have "fbm_fill v ?xs 0 t0 ! unat c =
      (if c \<in> set ?xs then of_nat (length (takeWhile (\<lambda>x. x \<noteq> c) ?xs)) else v)"
    using fbm_fill_correct[of "[]" ?xs t0 0 v] len t0 unfolding v_def by simp
  moreover have "(if length pv > 255 then 255 else length pv) = min 255 (length pv)" by auto
  then have "fbm_table pv = fbm_fill v ?xs 0 t0"
    unfolding fbm_table_def Let_def t0_def v_def by (simp only:)
  moreover have "v = of_nat (length (takeWhile (\<lambda>x. x \<noteq> c) ?xs))" if "c \<notin> set ?xs"
  proof -
    have "takeWhile (\<lambda>x. x \<noteq> c) ?xs = ?xs" using that by (auto simp: takeWhile_eq_all_conv)
    then show ?thesis using len v_def by (simp only:)
  qed
  ultimately have e: "fbm_table pv ! unat c = of_nat (length (takeWhile (\<lambda>x. x \<noteq> c) ?xs))"
    by presburger
  have "length (takeWhile (\<lambda>x. x \<noteq> c) ?xs) < 256"
    using length_takeWhile_le[of "\<lambda>x. x \<noteq> c" ?xs] len by simp
  then show ?thesis
    unfolding e by (simp add: unat_of_nat take_bit_nat_eq_self_iff)
qed

lemma fbm_table_shift:
  assumes "k < unat (fbm_table pv ! unat c)"
  shows "k < length pv" "pv ! (length pv - Suc k) \<noteq> c"
proof -
  let ?xs = "take (min 255 (length pv)) (rev pv)"
  have k: "k < length (takeWhile (\<lambda>x. x \<noteq> c) ?xs)" using assms by (simp add: fbm_table_entry)
  then have "k < length ?xs" using length_takeWhile_le by (rule less_le_trans)
  then show "k < length pv" by simp
  have "?xs ! k \<noteq> c" using set_takeWhileD[OF nth_mem[OF k]] unfolding takeWhile_nth[OF k] by simp
  with \<open>k < length ?xs\<close> show "pv ! (length pv - Suc k) \<noteq> c" by (simp add: rev_nth)
qed

lemma fbm_table_zero:
  assumes "unat (fbm_table pv ! unat c) = 0" "pv \<noteq> []"
  shows "last pv = c"
proof -
  obtain xs x where pv: "pv = xs @ [x]" using assms(2) by (metis rev_exhaust)
  then have "takeWhile (\<lambda>x. x \<noteq> c) (take (min 255 (length pv)) (rev pv)) = []"
    using assms(1) by (simp add: fbm_table_entry)
  with pv show ?thesis by (cases "x = c") (auto simp: min_def split: if_splits)
qed

section \<open>The Boyer-Moore loop\<close>

lemma fbm_compare_correct:
  assumes "n \<le> length pv" "n < 2 ^ 31" "n \<le> s" "s \<le> length m"
  shows "fbm_compare m pv (int s) (int n) (int n) =
    Inr (if occurs_at m (take n pv) (s - n) then Some (int (s - n)) else None)"
  using assms
proof (induction n arbitrary: s)
  case 0
  then show ?case by (simp add: fbm_compare.simps[of m pv "int s"])
next
  case (Suc n)
  then obtain k where s: "s = Suc k" by (cases s) auto
  have "int s - 1 = int k" "int (Suc n) - 1 = int n" "rdm m (int k) = Inr (m ! k)" "rdm pv (int n) = Inr (pv ! n)"
    using Suc.prems s by simp_all
  moreover have "to_I32 (int n) = int n" using Suc.prems(2) by (intro to_I32_int) simp
  ultimately have unf: "fbm_compare m pv (int s) (int (Suc n)) (int (Suc n)) =
      (if m ! k = pv ! n then fbm_compare m pv (int k) (int n) (int n) else Inr None)"
    by (subst fbm_compare.simps) (simp only: sum.case, simp)
  have "fbm_compare m pv (int k) (int n) (int n) =
      Inr (if occurs_at m (take n pv) (k - n) then Some (int (k - n)) else None)"
    using Suc.prems s by (intro Suc.IH) simp_all
  moreover have "take (Suc n) pv = take n pv @ [pv ! n]" using Suc.prems(1) by (simp add: take_Suc_conv_app_nth)
  moreover have "k - n + min (length pv) n = k" using Suc.prems s by simp
  ultimately show ?case
    using Suc.prems s unfolding unf by (simp add: occurs_at_append occurs_at_Cons min.commute)
qed

lemma occurs_at_last:
  assumes "occurs_at m pv q" "pv \<noteq> []" "k < length pv"
  shows "m ! (q + (length pv - Suc k)) = pv ! (length pv - Suc k)"
proof -
  have "q + length pv \<le> length m" using assms by (intro occurs_at_length)
  with assms(1) have "\<forall>j < length pv. m ! (q + j) = pv ! j" by (simp only: occurs_at_iff)
  moreover have "length pv - Suc k < length pv" using assms(3) by linarith
  ultimately show ?thesis by blast
qed

lemma fbm_loop_unfold:
  assumes "s < b" "b \<le> length m"
  shows "fbm_loop m table little l (int b) (int s) =
    (let tmp = unat (table ! unat (m ! s)) in
     if tmp \<noteq> 0
     then (if s + tmp < b then fbm_loop m table little l (int b) (int (s + tmp)) else Inr (Ended (int (s + tmp))))
     else (case fbm_compare m little (int s) l (to_I32 l) of
         Inl e \<Rightarrow> Inl e
       | Inr (Some p) \<Rightarrow> Inr (Found_at p)
       | Inr None \<Rightarrow>
           if Suc s < b then fbm_loop m table little l (int b) (int (Suc s)) else Inr (Ended (int (Suc s)))))"
proof -
  have rd: "rdm m (int s) = Inr (m ! s)" using assms by simp
  have i: "int (unat w) \<noteq> 0 \<longleftrightarrow> unat w \<noteq> 0" "int s + int n = int (s + n)" "int s + 1 = int (Suc s)"
    "int k < int b \<longleftrightarrow> k < b" for w :: u8 and n k
    by (simp_all only: of_nat_eq_0_iff of_nat_add of_nat_less_iff of_nat_Suc add.commute of_nat_1)
  show ?thesis
    unfolding fbm_loop.simps[of m table little l "int b" "int s"] rd sum.case Let_def i ..
qed

text \<open>
  Wherever the loop ends, it has passed over no occurrence: neither in the text nor in any text
  \<open>t\<close> that begins with it. What it has looked at is the text up to the \<open>s\<close> it ends with.
\<close>

definition fbm_outcome_ok :: "u8 list \<Rightarrow> u8 list \<Rightarrow> nat \<Rightarrow> nat \<Rightarrow> fbm_outcome \<Rightarrow> bool" where
  "fbm_outcome_ok t pv b q out \<longleftrightarrow>
   (case out of
      Found_at p \<Rightarrow> \<exists>n. p = int n \<and> q \<le> n \<and> n + length pv \<le> b \<and> occurs_at t pv n \<and>
        (\<forall>u. q \<le> u \<and> u < n \<longrightarrow> \<not> occurs_at t pv u)
    | Ended s \<Rightarrow> \<exists>n. s = int n \<and> b \<le> n \<and> (\<forall>u. q \<le> u \<and> u + length pv \<le> n \<longrightarrow> \<not> occurs_at t pv u))"

lemma fbm_outcome_ok_later:
  assumes "fbm_outcome_ok t pv b q' out" "q \<le> q'" "\<And>u. q \<le> u \<Longrightarrow> u < q' \<Longrightarrow> \<not> occurs_at t pv u"
  shows "fbm_outcome_ok t pv b q out"
proof (cases out)
  case (Found_at p)
  with assms show ?thesis unfolding fbm_outcome_ok_def by simp (metis le_trans not_less)
next
  case (Ended s)
  with assms show ?thesis unfolding fbm_outcome_ok_def by simp (metis not_less)
qed

lemma fbm_shift_safe:
  assumes "pv \<noteq> []" "k < unat (fbm_table pv ! unat (t ! (q + (length pv - 1))))"
  shows "\<not> occurs_at t pv (q + k)"
proof
  assume occ: "occurs_at t pv (q + k)"
  note sh = fbm_table_shift[OF assms(2)]
  have "t ! (q + k + (length pv - Suc k)) = pv ! (length pv - Suc k)"
    using occ assms(1) sh(1) by (rule occurs_at_last)
  moreover have "q + k + (length pv - Suc k) = q + (length pv - 1)" using sh(1) by simp
  ultimately show False using sh(2) by simp
qed

lemma fbm_loop_correct:
  assumes pv: "pv \<noteq> []" "length pv \<le> 2 ^ 31" and b: "b \<le> length m" "b \<le> length t" "take b t = take b m"
  shows "q + length pv \<le> b \<Longrightarrow>
    \<exists>out. fbm_loop m (fbm_table pv) pv (int (length pv - 1)) (int b) (int (q + (length pv - 1))) = Inr out \<and>
          fbm_outcome_ok t pv b q out"
proof (induction "b - q" arbitrary: q rule: less_induct)
  case less
  let ?l = "length pv - 1"
  let ?loop = "\<lambda>s. fbm_loop m (fbm_table pv) pv (int (length pv - 1)) (int b) (int s)"
  have l: "length pv = Suc ?l" using pv(1) by (cases pv) simp_all
  have s: "q + ?l < b" using less.prems l by simp
  have same: "t ! i = m ! i" if "i < b" for i using b(3) that by (metis nth_take)
  let ?tmp = "unat (fbm_table pv ! unat (m ! (q + ?l)))"
  show ?case
  proof (cases "?tmp = 0")
    case False
    have skip: "\<not> occurs_at t pv (q + k)" if "k < ?tmp" for k
      using fbm_shift_safe[OF pv(1), of k t q] that same[OF s] by simp
    have skip': "\<not> occurs_at t pv u" if "q \<le> u" "u < q + ?tmp" for u
      using skip[of "u - q"] that by simp
    show ?thesis
    proof (cases "q + ?l + ?tmp < b")
      case True
      then have "\<exists>out. ?loop (q + ?tmp + ?l) = Inr out \<and> fbm_outcome_ok t pv b (q + ?tmp) out"
        using False l by (intro less.hyps) linarith+
      with fbm_outcome_ok_later[OF _ _ skip'] fbm_loop_unfold[OF s b(1)] False True show ?thesis
        by (auto simp: Let_def ac_simps simp del: of_nat_add)
    next
      case end': False
      have "fbm_outcome_ok t pv b q (Ended (int (q + ?l + ?tmp)))"
        unfolding fbm_outcome_ok_def fbm_outcome.case
        by (rule exI[of _ "q + ?l + ?tmp"]) (use end' skip' l in auto)
      with end' False show ?thesis unfolding fbm_loop_unfold[OF s b(1)] by (simp add: Let_def)
    qed
  next
    case True
    then have lst: "last pv = m ! (q + ?l)" using fbm_table_zero pv(1) by blast
    have I: "to_I32 (int ?l) = int ?l" using pv(2) l by (intro to_I32_int) linarith
    have "fbm_compare m pv (int (q + ?l)) (int ?l) (int ?l) =
        Inr (if occurs_at m (take ?l pv) (q + ?l - ?l) then Some (int (q + ?l - ?l)) else None)"
      using s b(1) pv(2) l by (intro fbm_compare_correct) linarith+
    then have cmp: "fbm_compare m pv (int (q + ?l)) (int ?l) (to_I32 (int ?l)) =
        Inr (if occurs_at m (butlast pv) q then Some (int q) else None)"
      unfolding I by (simp add: butlast_conv_take)
    have "occurs_at m (butlast pv @ [last pv]) q \<longleftrightarrow> occurs_at m (butlast pv) q"
      using s b(1) lst by (simp add: occurs_at_append occurs_at_Cons del: append_butlast_last_id)
    then have occ: "occurs_at m pv q \<longleftrightarrow> occurs_at m (butlast pv) q" using pv(1) by simp
    have "occurs_at t pv q \<longleftrightarrow> occurs_at m pv q"
      using same s l b(1,2) by (simp add: occurs_at_iff)
    note occ' = this[unfolded occ]
    show ?thesis
    proof (cases "occurs_at m (butlast pv) q")
      case hit: True
      have "fbm_outcome_ok t pv b q (Found_at (int q))"
        unfolding fbm_outcome_ok_def using hit occ' less.prems by auto
      with hit cmp True show ?thesis unfolding fbm_loop_unfold[OF s b(1)] by (simp add: Let_def)
    next
      case miss: False
      then have skip: "\<not> occurs_at t pv u" if "q \<le> u" "u < Suc q" for u
        using occ' that by (metis le_antisym less_Suc_eq_le)
      show ?thesis
      proof (cases "Suc (q + ?l) < b")
        case more: True
        then have "\<exists>out. ?loop (Suc q + ?l) = Inr out \<and> fbm_outcome_ok t pv b (Suc q) out"
          using l by (intro less.hyps) linarith+
        with fbm_outcome_ok_later[OF _ _ skip] fbm_loop_unfold[OF s b(1)] True miss cmp more show ?thesis
          by (auto simp: Let_def simp del: of_nat_Suc of_nat_add)
      next
        case end': False
        have "fbm_outcome_ok t pv b q (Ended (int (Suc (q + ?l))))"
          unfolding fbm_outcome_ok_def fbm_outcome.case
          by (rule exI[of _ "Suc (q + ?l)"]) (use end' skip l in auto)
        with end' True miss cmp show ?thesis unfolding fbm_loop_unfold[OF s b(1)]
          by (simp add: Let_def)
      qed
    qed
  qed
qed

section \<open>What a compiled string stands for\<close>

text \<open>
  With a TAIL flag the text is searched as if a newline followed it. Without
  \<open>FBMrf_MULTILINE\<close> the string may moreover only lie at the end of the text.
\<close>

definition fbm_text :: "u8 list \<Rightarrow> nat \<Rightarrow> bool \<Rightarrow> u8 list" where
  "fbm_text m b tail = take b m @ (if tail then [10] else [])"

definition anchored_in :: "u8 list \<Rightarrow> nat \<Rightarrow> nat \<Rightarrow> u8 list \<Rightarrow> nat option" where
  "anchored_in m a b body =
   (if a + Suc (length body) \<le> b \<and> occurs_at m (body @ [10]) (b - Suc (length body))
    then Some (b - Suc (length body))
    else if a + length body \<le> b \<and> occurs_at m body (b - length body) then Some (b - length body)
    else None)"

definition fbm_spec :: "u8 list \<Rightarrow> nat \<Rightarrow> nat \<Rightarrow> u8 list \<Rightarrow> bool \<Rightarrow> bool \<Rightarrow> nat option" where
  "fbm_spec m a b pv tail multiline =
   (if tail \<and> \<not> multiline then anchored_in m a b (butlast pv)
    else first_in (fbm_text m b tail) a (length (fbm_text m b tail)) pv)"

lemma first_in_cong:
  assumes "\<And>s. a \<le> s \<Longrightarrow> s + length little \<le> b \<Longrightarrow> occurs_at t little s = occurs_at m little s"
  shows "first_in t a b little = first_in m a b little"
  unfolding first_in_def using assms by (intro find_cong) auto

lemma occurs_at_take_append:
  assumes "s + length little \<le> b" "b \<le> length m"
  shows "occurs_at (take b m @ ys) little s = occurs_at m little s"
proof -
  have "length little \<le> b - s" "s \<le> b" using assms(1) by linarith+
  with assms show ?thesis by (simp add: occurs_at_def drop_take min_absorb1 min_absorb2)
qed

lemma fbm_text_no_tail:
  assumes "b \<le> length m"
  shows "first_in (fbm_text m b False) a (length (fbm_text m b False)) little = first_in m a b little"
proof -
  have "first_in (take b m @ []) a b little = first_in m a b little"
    using assms by (intro first_in_cong) (simp only: occurs_at_take_append)
  with assms show ?thesis by (simp add: fbm_text_def min_def)
qed

lemma occurs_at_newline:
  assumes "b \<le> length m" "s + length body = b"
  shows "occurs_at (take b m @ [10]) (body @ [10]) s \<longleftrightarrow> occurs_at m body s"
proof -
  have "occurs_at (take b m @ [10]) [10] b" using assms(1) by (simp add: occurs_at_def min_def)
  moreover have "occurs_at (take b m @ [10]) body s = occurs_at m body s"
    using assms by (intro occurs_at_take_append) simp_all
  ultimately show ?thesis using assms(2) by (simp add: occurs_at_append)
qed

text \<open>With the newline, one more place is found: the string without it at the end of the text.\<close>

lemma fbm_text_tail:
  assumes b: "b \<le> length m" and l: "pv = body @ [10]"
  shows "first_in (fbm_text m b True) a (length (fbm_text m b True)) pv =
    (case first_in m a b pv of
       Some s \<Rightarrow> Some s
     | None \<Rightarrow> if a + length body \<le> b \<and> occurs_at m body (b - length body) then Some (b - length body) else None)"
proof -
  let ?t = "take b m @ [10]"
  have tx: "fbm_text m b True = ?t" "length ?t = Suc b" using b by (simp_all add: fbm_text_def min_def)
  have same: "first_in ?t a b pv = first_in m a b pv"
    using b by (intro first_in_cong) (simp only: occurs_at_take_append)
  show ?thesis
  proof (cases "first_in m a b pv")
    case (Some s)
    with same have "first_in ?t a b pv = Some s" by simp
    then have "first_in ?t a (Suc b) pv = Some s" unfolding first_in_Some by auto
    with Some tx show ?thesis by simp
  next
    case None
    have occ: "occurs_at ?t pv (b - length body) \<longleftrightarrow> occurs_at m body (b - length body)" if "length body \<le> b"
      unfolding l using b that by (intro occurs_at_newline) simp_all
    show ?thesis
    proof (cases "a + length body \<le> b \<and> occurs_at m body (b - length body)")
      case True
      have "\<not> occurs_at ?t pv u" if "a \<le> u" "u < b - length body" for u
        using None[folded same] that l by (simp add: first_in_None)
      moreover have "a \<le> b - length body" using True by linarith
      ultimately have "first_in ?t a (Suc b) pv = Some (b - length body)"
        using True occ l
        unfolding first_in_Some by (simp add: Suc_diff_le)
      with True None tx show ?thesis by simp
    next
      case False
      have "first_in ?t a (Suc b) pv = first_in ?t a b pv"
      proof (rule first_in_Suc)
        show "\<not> (length pv \<le> Suc b \<and> a \<le> Suc b - length pv \<and> occurs_at ?t pv (Suc b - length pv))"
          using False occ l by auto
      qed
      with False None same tx show ?thesis by simp
    qed
  qed
qed

section \<open>fbm_compile\<close>

lemma FBMcf_TAIL_mask: "FBMcf_TAIL = 15"
  by (simp add: FBMcf_TAIL_def)

lemma tail_flag_kept: "ucast (ucast (flags :: u32) :: u8) AND FBMcf_TAIL = 0 \<longleftrightarrow> flags AND FBMcf_TAIL = 0"
proof -
  have "ucast (ucast flags :: u8) AND (mask 4 :: u32) = flags AND mask 4"
    by (rule bit_word_eqI) (auto simp: bit_simps)
  moreover have "(mask 4 :: u32) = 15" by (simp add: mask_eq_exp_minus_1)
  ultimately have "ucast (ucast flags :: u8) AND (15 :: u32) = flags AND 15" by (simp only:)
  then show ?thesis by (simp add: FBMcf_TAIL_mask)
qed

text \<open>\<open>compiled sv pv tail\<close>: \<open>sv\<close> is a compiled string of the bytes \<open>pv\<close>.\<close>

definition compiled :: "bm_sv \<Rightarrow> u8 list \<Rightarrow> bool \<Rightarrow> bool" where
  "compiled sv pv tail \<longleftrightarrow>
   bm_pv sv = pv \<and> SvTAIL sv = tail \<and> (tail \<longrightarrow> pv \<noteq> [] \<and> last pv = 10) \<and>
   (length pv > 2 \<longrightarrow> SvVALID sv \<and> bm_table sv = fbm_table pv \<and>
      (ucast (bm_flags sv) AND FBMcf_TAIL \<noteq> 0 \<longleftrightarrow> tail))"

text \<open>The place \<open>fbm_rarest\<close> finds, from \<open>i\<close> on, when no earlier byte is less common than \<open>f\<close>.\<close>

fun rarest_from :: "u8 list \<Rightarrow> nat \<Rightarrow> nat \<Rightarrow> nat \<Rightarrow> nat" where
  "rarest_from [] i r f = r"
| "rarest_from (c # s) i r f =
   (if PL_freq ! unat c < f then rarest_from s (Suc i) i (PL_freq ! unat c) else rarest_from s (Suc i) r f)"

definition rarest_place :: "u8 list \<Rightarrow> nat" where
  "rarest_place s = rarest_from s 0 0 256"

lemma fbm_rarest_from:
  assumes "length s < 2 ^ 32" "n \<le> length s"
  shows "fbm_rarest s (of_nat n) (of_nat r) f = Some (of_nat (rarest_from (drop n s) n r f))"
  using assms(2)
proof (induction "length s - n" arbitrary: n r f)
  case 0
  have u: "unat (of_nat n :: u32) = n" using 0 assms by (simp add: unat_of_nat take_bit_nat_eq_self_iff)
  with 0 show ?case by (subst fbm_rarest.simps) simp
next
  case (Suc k)
  then have n: "n < length s" by simp
  then have u: "unat (of_nat n :: u32) = n" using assms(1) by (simp add: unat_of_nat take_bit_nat_eq_self_iff)
  have IH: "fbm_rarest s (of_nat (Suc n)) (of_nat r') f' = Some (of_nat (rarest_from (drop (Suc n) s) (Suc n) r' f'))"
    for r' f' using Suc n by (intro Suc.hyps(1)) simp_all
  have "(of_nat n + 1 :: u32) = of_nat (Suc n)" by simp
  with n IH show ?case
    by (subst fbm_rarest.simps) (simp only: u if_True Cons_nth_drop_Suc[OF n, symmetric] rarest_from.simps split: if_split, simp)
qed

lemma fbm_rarest_ends: "length s < 2 ^ 32 \<Longrightarrow> fbm_rarest s 0 0 256 = Some (of_nat (rarest_place s))"
  using fbm_rarest_from[of s 0 0 256] by (simp add: rarest_place_def)

lemma fbm_compile_compiled:
  assumes "length pv < 2 ^ 32 - 1"
  obtains sv where "fbm_compile (plain_sv pv) flags = Some sv"
    "compiled sv (if flags AND FBMcf_TAIL \<noteq> 0 then pv @ [10] else pv) (flags AND FBMcf_TAIL \<noteq> 0)"
proof -
  let ?s = "if flags AND FBMcf_TAIL \<noteq> 0 then pv @ [10] else pv"
  have "length ?s < 2 ^ 32" using assms by simp
  note r = fbm_rarest_ends[OF this]
  have "\<exists>sv. fbm_compile (plain_sv pv) flags = Some sv \<and> compiled sv ?s (flags AND FBMcf_TAIL \<noteq> 0)"
    using r by (auto simp: compiled_def fbm_compile_def Let_def plain_sv_def SvVALID_def SvTAIL_def tail_flag_kept)
  with that show ?thesis by blast
qed

text \<open>A string that was not compiled is searched for in the same way, if it is that short.\<close>

lemma plain_sv_compiled: "length pv \<le> 2 \<Longrightarrow> compiled (plain_sv pv) pv False"
  by (simp add: compiled_def plain_sv_def SvVALID_def SvTAIL_def)

section \<open>fbm_instr\<close>

lemma memEQ_correct:
  "p + length xs \<le> length m \<Longrightarrow> memEQ m (int p) xs = Inr (occurs_at m xs p)"
  by (simp add: memEQ_def occurs_at_def)

lemma first_in_short: "b < a + length pv \<Longrightarrow> pv \<noteq> [] \<Longrightarrow> first_in m a b pv = None"
  by (rule first_in_empty)

lemma fbm_short_text_correct:
  assumes c: "compiled sv pv tail" and b: "a \<le> b" "b \<le> length m" and short: "b - a < length pv"
  shows "fbm_short_text m (int a) (b - a) sv = Inr (map_option int (fbm_spec m a b pv tail multiline))"
proof (cases tail)
  case False
  have "first_in m a b pv = None" using short b(1) by (intro first_in_short) auto
  with False c b(2) show ?thesis
    by (simp add: fbm_short_text_def compiled_def fbm_spec_def fbm_text_no_tail)
next
  case True
  with c obtain body where body: "pv = body @ [10]"
    unfolding compiled_def by (metis append_butlast_last_id)
  have none: "first_in m a b pv = None" using short b(1) body by (intro first_in_short) auto
  have long: "\<not> a + Suc (length body) \<le> b" using short b(1) body by auto
  have spec: "fbm_spec m a b pv tail multiline =
      (if a + length body \<le> b \<and> occurs_at m body (b - length body) then Some (b - length body) else None)"
    using True none long by (simp add: body fbm_spec_def anchored_in_def fbm_text_tail[OF b(2) refl])
  have eqlen: "b - a = length body \<longleftrightarrow> a + length body \<le> b"
    using short b(1) body by auto
  show ?thesis
  proof (cases "a + length body \<le> b")
    case False
    with True c body eqlen spec show ?thesis by (auto simp: fbm_short_text_def compiled_def Let_def)
  next
    case le: True
    then have a: "b - length body = a" "b - a = length body" using eqlen by auto
    have sv: "SvTAIL sv" "bm_pv sv = pv" using c True by (simp_all add: compiled_def)
    have mem: "memEQ m (int a) (take (length pv - 1) pv) = Inr (occurs_at m body a)"
      using memEQ_correct[of a body m] a b body by simp
    show ?thesis
    proof (cases body)
      case Nil
      with a spec le sv body show ?thesis by (simp add: fbm_short_text_def)
    next
      case (Cons c cs)
      then have "a < length m" using a b le by simp
      with a spec le sv body mem Cons show ?thesis
        by (auto simp: fbm_short_text_def Let_def rd_def occurs_at_Cons)
    qed
  qed
qed

lemma fbm_one_correct:
  assumes c: "compiled sv pv tail" and b: "a < b" "b \<le> length m" and one: "length pv = 1"
  shows "fbm_one m (int a) (int b) sv multiline = Inr (map_option int (fbm_spec m a b pv tail multiline))"
proof -
  obtain x where pv: "pv = [x]" using one by (metis One_nat_def length_0_conv length_Suc_conv)
  have sv: "SvTAIL sv = tail" "bm_pv sv = [x]" "tail \<longrightarrow> x = 10"
    using c pv by (auto simp: compiled_def)
  have lst: "rdm m (int b - 1) = Inr (m ! (b - 1))"
    using rdm_int[of m "b - 1"] b by (simp add: of_nat_diff)
  have occ: "occurs_at m [10] (b - 1) \<longleftrightarrow> m ! (b - 1) = 10" using b by (simp add: occurs_at_Cons)
  have find: "fbm_find1 m (rd (bm_pv sv) 0) (int a) (int b) = Inr (map_option int (first_in m a b [x]))"
    using fbm_find1_correct[OF b(2)] sv(2) by (simp add: rd_def)
  consider "\<not> tail" | "tail" "multiline" | "tail" "\<not> multiline" by blast
  then show ?thesis
  proof cases
    case 1
    with find sv b pv show ?thesis
      by (simp add: fbm_one_def fbm_spec_def fbm_text_no_tail option.map_comp split: option.split)
  next
    case 2
    with sv(3) pv have "pv = [] @ [10]" by simp
    from fbm_text_tail[OF b(2) this, of a] find sv b pv 2 show ?thesis
      by (simp add: fbm_one_def fbm_spec_def split: option.split)
  next
    case 3
    have "int (b - 1) = int b - 1" using b by simp
    with 3 sv lst b pv occ show ?thesis
      by (simp add: fbm_one_def fbm_spec_def anchored_in_def)
  qed
qed

lemma fbm_two_correct:
  assumes c: "compiled sv pv tail" and b: "a + 2 \<le> b" "b \<le> length m" and two: "length pv = 2"
  shows "fbm_two m (int a) (int b) sv multiline = Inr (map_option int (fbm_spec m a b pv tail multiline))"
proof -
  obtain x y where pv: "pv = [x, y]" using two by (metis (no_types, lifting) One_nat_def Suc_1 length_0_conv length_Suc_conv)
  have sv: "SvTAIL sv = tail" "rd (bm_pv sv) 0 = x" "rd (bm_pv sv) 1 = y" "tail \<longrightarrow> y = 10"
    using c pv by (auto simp: compiled_def rd_def)
  have i: "int (b - 1) = int b - 1" "int (b - 2) = int b - 2" using b by simp_all
  have rds: "rdm m (int b - 1) = Inr (m ! (b - 1))" "rdm m (int b - 2) = Inr (m ! (b - 2))"
    using rdm_int[of m "b - 1"] rdm_int[of m "b - 2"] b unfolding i by simp_all
  have occ1: "occurs_at m [x] (b - 1) \<longleftrightarrow> m ! (b - 1) = x" using b by (simp add: occurs_at_Cons)
  have "Suc (b - 2) = b - 1" using b by simp
  then have occ2: "occurs_at m [x, 10] (b - 2) \<longleftrightarrow> m ! (b - 2) = x \<and> m ! (b - 1) = 10"
    using b by (simp add: occurs_at_Cons)
  have "int a + 1 = int (Suc a)" by simp
  note Suc_a = this
  have find: "(if x \<noteq> y then fbm_find2 m x y (int b - 1) False (int a + 1)
      else fbm_find_pair m x (int b - 1) (int a + 1)) = Inr (map_option int (first_in m a b [x, y]))"
    unfolding Suc_a using fbm_find2_correct[OF b(2), of x y a] fbm_find_pair_correct[OF b(2), of x a]
    by (cases "x = y") (simp_all del: of_nat_Suc)
  have unf: "fbm_two m (int a) (int b) sv multiline =
    (if tail \<and> \<not> multiline
     then Inr (if m ! (b - 1) = 10 \<and> m ! (b - 2) = x then Some (int b - 2)
               else if m ! (b - 1) = x then Some (int b - 1) else None)
     else case first_in m a b [x, y] of Some s \<Rightarrow> Inr (Some (int s))
       | None \<Rightarrow> Inr (if tail \<and> m ! (b - 1) = x then Some (int b - 1) else None))"
    unfolding fbm_two_def Let_def sv find rds bind_result_simps check_1char_anchor_def
    by (simp split: option.split)
  consider "\<not> tail" | "tail" "multiline" | "tail" "\<not> multiline" by blast
  then show ?thesis
  proof cases
    case 1
    with pv b show ?thesis
      by (simp add: unf fbm_spec_def fbm_text_no_tail split: option.split)
  next
    case 2
    with sv(4) pv have "pv = [x] @ [10]" by simp
    from fbm_text_tail[OF b(2) this, of a] 2 sv(4) pv b i occ1 show ?thesis
      unfolding unf by (simp add: fbm_spec_def split: option.split)
  next
    case 3
    with pv b i occ1 occ2 show ?thesis
      unfolding unf by (simp add: fbm_spec_def anchored_in_def numeral_2_eq_2 of_nat_diff)
  qed
qed

lemma fbm_tail_anchored_correct:
  assumes c: "compiled sv pv True" and b: "a + length pv \<le> b" "b \<le> length m" and long: "length pv > 2"
  shows "fbm_tail_anchored m (int a) (int b) sv = Inr (map_option int (anchored_in m a b (butlast pv)))"
proof -
  obtain x mid where pv: "pv = (x # mid) @ [10]" "mid \<noteq> []"
  proof -
    have "pv = butlast pv @ [10]" using c unfolding compiled_def by (metis append_butlast_last_id)
    moreover have "Suc (Suc 0) \<le> length (butlast pv)" using long by simp
    then obtain x y zs where "butlast pv = x # y # zs" by (auto simp: Suc_le_length_iff simp del: length_butlast)
    ultimately show thesis using that[of x "y # zs"] by simp
  qed
  have sv: "bm_pv sv = pv" using c by (simp add: compiled_def)
  define s where "s = b - length pv"
  have i: "int b - int (length pv) = int s" "int b - 1 = int (b - 1)" "int s + 1 = int (Suc s)"
    "int s + 2 = int (Suc (Suc s))" "int a \<le> int s" using b long by (simp_all add: s_def)
  have s: "s + length mid + 2 = b" using b pv by (simp add: s_def)
  have mid: "take (length pv - 2) (drop 1 pv) = mid" using pv by simp
  have mem: "memEQ m (int (Suc s)) mid = Inr (occurs_at m mid (Suc s))"
    "memEQ m (int (Suc (Suc s))) mid = Inr (occurs_at m mid (Suc (Suc s)))"
    by (intro memEQ_correct; use s b in linarith)+
  have rds: "rdm m (int (b - 1)) = Inr (m ! (b - 1))" "rdm m (int s) = Inr (m ! s)"
    "rdm m (int (Suc s)) = Inr (m ! Suc s)"
    using s b(2) pv(2) by (simp_all only: rdm_int) auto
  have occ: "occurs_at m (x # mid) (Suc s) \<longleftrightarrow> m ! Suc s = x \<and> occurs_at m mid (Suc (Suc s))"
    "occurs_at m ((x # mid) @ [10]) s \<longleftrightarrow> m ! s = x \<and> occurs_at m mid (Suc s) \<and> m ! (b - 1) = 10"
  proof -
    show "occurs_at m (x # mid) (Suc s) \<longleftrightarrow> m ! Suc s = x \<and> occurs_at m mid (Suc (Suc s))"
      using s b(2) by (intro occurs_at_Cons) linarith
    have "s + length (x # mid) = b - 1" using s by simp
    then show "occurs_at m ((x # mid) @ [10]) s \<longleftrightarrow> m ! s = x \<and> occurs_at m mid (Suc s) \<and> m ! (b - 1) = 10"
      using s b(2) unfolding occurs_at_append by (simp add: occurs_at_Cons)
  qed
  have spec: "anchored_in m a b (butlast pv) =
      (if occurs_at m ((x # mid) @ [10]) s then Some s
       else if occurs_at m (x # mid) (Suc s) then Some (Suc s) else None)"
  proof -
    have "b - Suc (length (x # mid)) = s" "b - length (x # mid) = Suc s" "a + Suc (length (x # mid)) \<le> b"
      using s b(1) pv by auto
    then show ?thesis unfolding anchored_in_def pv(1) butlast_snoc by simp
  qed
  have x: "rd pv 0 = x" by (simp add: pv rd_def)
  show ?thesis
    unfolding fbm_tail_anchored_def Let_def sv i mid x rds mem spec occ
    using i(5) by (simp add: rds mem)
qed

lemma fbm_search_correct:
  assumes c: "compiled sv pv tail" and b: "a + length pv \<le> b" "b \<le> length m"
    and long: "length pv > 2" "length pv \<le> 2 ^ 31"
  shows "fbm_search m (int a) (int b) sv =
    Inr (map_option int (first_in (fbm_text m b tail) a (length (fbm_text m b tail)) pv))"
proof -
  let ?l = "length pv - 1" and ?t = "fbm_text m b tail"
  have sv: "bm_pv sv = pv" "bm_table sv = fbm_table pv" "ucast (bm_flags sv) AND FBMcf_TAIL \<noteq> 0 \<longleftrightarrow> tail"
    using c long(1) by (simp_all add: compiled_def)
  have ne: "pv \<noteq> []" using long(1) by auto
  have t: "b \<le> length ?t" "take b ?t = take b m" "length ?t = (if tail then Suc b else b)"
    using b(2) by (simp_all add: fbm_text_def min_def)
  have s: "int a + int ?l = int (a + ?l)" "a + ?l < b" "take ?l pv = butlast pv"
    using b(1) long by (simp_all add: butlast_conv_take)
  obtain out where out: "fbm_loop m (fbm_table pv) pv (int ?l) (int b) (int (a + ?l)) = Inr out"
      "fbm_outcome_ok ?t pv b a out"
    using fbm_loop_correct[OF ne long(2) b(2) t(1,2) b(1)] by blast
  have unf: "fbm_search m (int a) (int b) sv = (case out of
        Found_at p \<Rightarrow> Inr (Some p)
      | Ended s \<Rightarrow>
          if s = int b \<and> tail
          then bind_result (memEQ m (int b - int ?l) (butlast pv))
                 (\<lambda>eq. Inr (if eq then Some (int b - int ?l) else None))
          else Inr None)"
    unfolding fbm_search_def Let_def sv s(1,3) out(1) using s(2) by (simp add: out(1) del: of_nat_add)
  show ?thesis
  proof (cases out)
    case (Found_at p)
    with out(2) obtain n where n: "p = int n" "a \<le> n" "n + length pv \<le> b" "occurs_at ?t pv n"
        "\<forall>u. a \<le> u \<and> u < n \<longrightarrow> \<not> occurs_at ?t pv u"
      by (auto simp: fbm_outcome_ok_def)
    then have "first_in ?t a (length ?t) pv = Some n"
      unfolding first_in_Some using t(1) by auto
    with Found_at unf n(1) show ?thesis by simp
  next
    case (Ended e)
    with out(2) obtain n where n: "e = int n" "b \<le> n"
        "\<forall>u. a \<le> u \<and> u + length pv \<le> n \<longrightarrow> \<not> occurs_at ?t pv u"
      by (auto simp: fbm_outcome_ok_def)
    have occ: "\<not> occurs_at m pv u" if "a \<le> u" "u + length pv \<le> b" for u
      using n(2,3) that occurs_at_take_append[OF that(2) b(2), of "if tail then [10] else []"]
      unfolding fbm_text_def by auto
    have none: "first_in m a b pv = None"
      unfolding first_in_None using occ by auto
    show ?thesis
    proof (cases tail)
      case False
      with Ended unf none b(2) show ?thesis by (simp add: fbm_text_no_tail)
    next
      case True
      with c obtain body where body: "pv = body @ [10]"
        unfolding compiled_def by (metis append_butlast_last_id)
      have i: "int b - int ?l = int (b - length body)" "a \<le> b - length body" "b - length body + length body = b"
        using body b(1) by auto
      have mem: "memEQ m (int (b - length body)) body = Inr (occurs_at m body (b - length body))"
        using i(3) b(2) by (intro memEQ_correct) simp
      have miss: "\<not> occurs_at m body (b - length body)" if "n \<noteq> b"
      proof -
        have "b - length body + length pv \<le> n" using that n(2) body i(3) by simp
        with n(3) i(2) have "\<not> occurs_at ?t pv (b - length body)" by blast
        with True body occurs_at_newline[OF b(2) i(3)] show ?thesis by (simp add: fbm_text_def)
      qed
      have spec: "first_in ?t a (length ?t) pv =
          (if occurs_at m body (b - length body) then Some (b - length body) else None)"
        using fbm_text_tail[OF b(2) body, of a] none i b(1) body True by simp
      have "butlast pv = body" using body by simp
      with Ended n(1) True unf mem miss show ?thesis unfolding spec i(1) by auto
    qed
  qed
qed

lemma text_length:
  assumes "a \<le> b" "b < 2 ^ 64"
  shows "unat (of_int (int b - int a) :: uv) = b - a"
proof -
  have "int b - int a = int (b - a)" using assms(1) by simp
  then have "(of_int (int b - int a) :: uv) = of_nat (b - a)" by (simp only: of_int_of_nat_eq)
  moreover have "unat (of_nat (b - a) :: uv) = b - a" using assms(2) by (intro unat_of_nat_less) linarith
  ultimately show ?thesis by (simp only:)
qed

text \<open>\<open>fbm_instr\<close> finds what the compiled string stands for, and reads nothing outside the text.\<close>

lemma fbm_instr_compiled:
  assumes c: "compiled sv pv tail" and b: "a \<le> b" "b \<le> length m" "b < 2 ^ 64"
    and small: "length pv \<le> 2 ^ 31 \<or> b \<le> 2 ^ 31"
  shows "fbm_instr m (int a) (int b) sv flags =
    Inr (map_option int (fbm_spec m a b pv tail (flags AND FBMrf_MULTILINE \<noteq> 0)))"
proof -
  let ?multi = "flags AND FBMrf_MULTILINE \<noteq> 0"
  have sv: "bm_pv sv = pv" "SvTAIL sv = tail" using c by (simp_all add: compiled_def)
  have unf: "fbm_instr m (int a) (int b) sv flags =
      (if b - a < length pv then fbm_short_text m (int a) (b - a) sv
       else if length pv = 1 then fbm_one m (int a) (int b) sv ?multi
       else if length pv = 0 then Inr (Some (int a))
       else if length pv = 2 then fbm_two m (int a) (int b) sv ?multi
       else if tail \<and> \<not> ?multi then fbm_tail_anchored m (int a) (int b) sv
       else if \<not> SvVALID sv then fbm_not_compiled m (int a) (int b) sv
       else if length pv > b - a then Inr None
       else fbm_search m (int a) (int b) sv)"
    unfolding fbm_instr_def Let_def sv text_length[OF b(1,3)] ..
  consider "b - a < length pv" | "\<not> b - a < length pv" "length pv = 1" | "length pv = 0"
    | "\<not> b - a < length pv" "length pv = 2" | "\<not> b - a < length pv" "length pv > 2" by linarith
  then show ?thesis
  proof cases
    case 1
    with fbm_short_text_correct[OF c b(1,2)] unf show ?thesis by simp
  next
    case 2
    with fbm_one_correct[OF c _ b(2)] b(1) unf show ?thesis by simp
  next
    case 3
    with c have t: "tail = False" by (auto simp: compiled_def)
    have "fbm_instr m (int a) (int b) sv flags = Inr (Some (int a))" using unf 3 by simp
    with 3 b show ?thesis unfolding fbm_spec_def t by (simp add: fbm_text_no_tail first_in_step)
  next
    case 4
    with fbm_two_correct[OF c _ b(2)] b(1) unf show ?thesis by simp
  next
    case 5
    then have le: "a + length pv \<le> b" and ne: "pv \<noteq> []" using b(1) by auto
    show ?thesis
    proof (cases "tail \<and> \<not> ?multi")
      case True
      with c have "compiled sv pv True" by simp
      from fbm_tail_anchored_correct[OF this le b(2) 5(2)] True 5 ne unf show ?thesis
        by (simp add: fbm_spec_def)
    next
      case False
      have le31: "length pv \<le> 2 ^ 31" using small le by linarith
      have "SvVALID sv" using c 5(2) by (simp add: compiled_def)
      with 5 ne unf False have "fbm_instr m (int a) (int b) sv flags = fbm_search m (int a) (int b) sv" by auto
      then show ?thesis
        using False fbm_search_correct[OF c le b(2) 5(2) le31] unfolding fbm_spec_def by (simp only: if_False)
    qed
  qed
qed

text \<open>
  A string of more than two bytes that was not compiled is left to \<open>ninstr\<close>, which takes the byte
  behind the text for a part of it.
\<close>

lemma fbm_instr_not_compiled:
  assumes sv: "bm_pv sv = pv" "\<not> SvVALID sv" and b: "a \<le> b" "b < length m" "b < 2 ^ 64" and l: "length pv > 2"
  shows "fbm_instr m (int a) (int b) sv flags =
    Inr (map_option int (if b - a < length pv then None else first_in m a (Suc b) pv))"
proof -
  have "\<not> SvTAIL sv" using sv(2) by (simp add: SvTAIL_def SvVALID_def)
  then show ?thesis
    using sv l unfolding fbm_instr_def Let_def sv(1) text_length[OF b(1,3)]
    by (auto simp: sv(1) fbm_short_text_def fbm_not_compiled_def ninstr_result[OF b(1,2)])
qed

section \<open>index and rindex\<close>

text \<open>What \<open>index\<close> and \<open>rindex\<close> are documented to return: the first place not before \<open>pos\<close>, the last not after it.\<close>

definition index_spec :: "u8 list \<Rightarrow> u8 list \<Rightarrow> int \<Rightarrow> nat option" where
  "index_spec big little pos =
   (if little = [] then Some (min (nat pos) (length big))
    else List.find (occurs_at big little) [nat pos..<length big])"

definition rindex_spec :: "u8 list \<Rightarrow> u8 list \<Rightarrow> int \<Rightarrow> nat option" where
  "rindex_spec big little pos =
   (if little = [] then Some (min (nat pos) (length big))
    else List.find (occurs_at big little) (rev [0..<min (nat (pos + 1)) (length big)]))"

definition index_value :: "nat option \<Rightarrow> int" where
  "index_value r = (case r of None \<Rightarrow> - 1 | Some p \<Rightarrow> int p)"

lemma occurs_at_nul:
  "s + length little \<le> length big \<Longrightarrow> occurs_at (big @ [0]) little s = occurs_at big little s"
  using occurs_at_take_append[of s little "length big" big "[0]"] by simp

lemma first_in_index_spec:
  assumes "0 \<le> pos" "nat pos \<le> length big"
  shows "first_in (big @ [0]) (nat pos) (length big) little = index_spec big little pos"
proof (cases "little = []")
  case True
  with assms show ?thesis by (simp add: index_spec_def first_in_step)
next
  case False
  have "first_in (big @ [0]) (nat pos) (length big) little = first_in big (nat pos) (length big) little"
    by (intro first_in_cong occurs_at_nul)
  also have "\<dots> = List.find (occurs_at big little) [nat pos..<length big]"
  proof (cases "first_in big (nat pos) (length big) little")
    case None
    then have "List.find (occurs_at big little) [nat pos..<length big] = None"
      unfolding first_in_None find_upt_None using occurs_at_length[OF _ False, of big]
      by (metis Suc_le_lessD Suc_le_mono less_diff_conv order_le_less)
    with None show ?thesis by simp
  next
    case (Some s)
    then have "List.find (occurs_at big little) [nat pos..<length big] = Some s"
      unfolding first_in_Some find_upt_Some using False by (cases little) auto
    with Some show ?thesis by simp
  qed
  finally show ?thesis using False by (simp add: index_spec_def)
qed

lemma last_in_rindex_spec:
  assumes l: "little \<noteq> []" and e: "e = min (length big) (nat (pos + int (length little)))"
  shows "last_in (big @ [0]) 0 e little = rindex_spec big little pos"
proof -
  have fits: "s < Suc e - length little \<longleftrightarrow> s < nat (pos + 1) \<and> s + length little \<le> length big" for s
    using l unfolding e by (cases little) auto
  have occ: "occurs_at (big @ [0]) little s = occurs_at big little s" if "s < Suc e - length little" for s
    using that fits by (intro occurs_at_nul) blast
  let ?find = "List.find (occurs_at big little) (rev [0..<min (nat (pos + 1)) (length big)])"
  have "last_in (big @ [0]) 0 e little = ?find"
  proof (cases "last_in (big @ [0]) 0 e little")
    case None
    then have "\<not> occurs_at big little s" if "s < Suc e - length little" for s
      using occ[OF that] that unfolding last_in_None by blast
    then have "?find = None"
      unfolding find_rev_upt_None using fits occurs_at_length[OF _ l] by (metis min_less_iff_conj)
    with None show ?thesis by simp
  next
    case (Some s)
    then have s: "s < Suc e - length little" "occurs_at big little s"
        "\<And>t. s < t \<Longrightarrow> t < Suc e - length little \<Longrightarrow> \<not> occurs_at big little t"
      using occ unfolding last_in_Some by auto
    moreover have "s < length big" using s(1) l fits[of s] by (cases little) auto
    ultimately have "?find = Some s"
      unfolding find_rev_upt_Some using fits occurs_at_length[OF _ l] by (metis le0 min_less_iff_conj)
    with Some show ?thesis by simp
  qed
  with l show ?thesis by (simp add: rindex_spec_def)
qed

lemma index_value_I32:
  assumes "length big < 2 ^ 31" "\<And>p. r = Some p \<Longrightarrow> p \<le> length big"
  shows "(case map_option int r of None \<Rightarrow> - 1 | Some p \<Rightarrow> to_I32 p) = index_value r"
  using assms by (cases r) (simp_all add: index_value_def to_I32_id)

text \<open>The strings \<open>index\<close> is given: compiled ones, and ones that are not.\<close>

definition wanted :: "bm_sv \<Rightarrow> u8 list \<Rightarrow> bool" where
  "wanted sv pv \<longleftrightarrow> compiled sv pv False \<or> bm_pv sv = pv \<and> \<not> SvVALID sv"

text \<open>
  Among them those that are handled as documented: compiled ones, and others that are short, or do
  not end in a NUL.
\<close>

definition searchable :: "bm_sv \<Rightarrow> u8 list \<Rightarrow> bool" where
  "searchable sv pv \<longleftrightarrow>
   compiled sv pv False \<or> bm_pv sv = pv \<and> \<not> SvVALID sv \<and> (length pv > 2 \<longrightarrow> last pv \<noteq> 0)"

text \<open>
  What \<open>index\<close> returns. The others are searched for in the text with the NUL behind it, unless the text
  from the position on is shorter than they are.
\<close>

definition index_result :: "bm_sv \<Rightarrow> u8 list \<Rightarrow> u8 list \<Rightarrow> int \<Rightarrow> nat option" where
  "index_result sv big pv p =
   (if \<not> SvVALID sv \<and> length pv > 2 \<and> last pv = 0
    then let a = min (nat p) (length big) in
      if length big - a < length pv then None else List.find (occurs_at (big @ [0]) pv) [a..<length big]
    else index_spec big pv p)"

lemma searchable_fbm_instr:
  assumes s: "searchable sv pv" and b: "a \<le> length big" "length big < 2 ^ 31"
  shows "fbm_instr (big @ [0]) (int a) (int (length big)) sv 0 =
    Inr (map_option int (first_in (big @ [0]) a (length big) pv))"
proof (cases "compiled sv pv False")
  case True
  with b fbm_instr_compiled[OF True b(1), of "big @ [0]" 0] show ?thesis
    by (simp add: fbm_spec_def fbm_text_no_tail)
next
  case False
  with s have sv: "bm_pv sv = pv" "\<not> SvVALID sv" "length pv > 2 \<longrightarrow> last pv \<noteq> 0"
    by (auto simp: searchable_def)
  show ?thesis
  proof (cases "length pv > 2")
    case True
    then obtain xs c where pv: "pv = xs @ [c]" by (metis length_0_conv not_less_zero rev_exhaust)
    with sv(3) True have "c \<noteq> 0" by simp
    then have "\<not> occurs_at (big @ [0]) pv (Suc (length big) - length pv)" if "length pv \<le> Suc (length big)"
      using that by (simp add: pv occurs_at_append occurs_at_Cons)
    then have "first_in (big @ [0]) a (Suc (length big)) pv = first_in (big @ [0]) a (length big) pv"
      by (intro first_in_Suc) blast
    moreover have "length big - a < length pv \<Longrightarrow> first_in (big @ [0]) a (length big) pv = None"
      using b(1) pv by (intro first_in_short) auto
    moreover have "length big < length (big @ [0])" "length big < 2 ^ 64" using b(2) by auto
    ultimately show ?thesis
      using fbm_instr_not_compiled[OF sv(1,2) b(1) _ _ True, of "big @ [0]" 0] by auto
  next
    case short: False
    with sv(1,2) have "compiled sv pv False" by (simp add: compiled_def SvTAIL_def SvVALID_def)
    with False show ?thesis by blast
  qed
qed

lemma pp_index_clamp: "(if x < 0 then 0 else if x > int n then int n else x) = int (min (nat x) n)"
  by (auto simp: min_def nat_le_iff)

lemma index_search:
  assumes s: "searchable sv pv" and ok: "ok \<or> pv = []" and big: "length big < 2 ^ 31"
    and p: "- (2 ^ 31) \<le> p" "p < 2 ^ 31"
  shows "pp_index True big sv ok (Some p) = Inr (index_value (index_spec big pv p))"
proof -
  have pv: "bm_pv sv = pv" using s by (auto simp: searchable_def compiled_def)
  let ?sv = "if True \<and> \<not> ok then plain_sv (bm_pv sv) else sv"
  have s': "searchable ?sv pv"
    using s ok plain_sv_compiled[of "[]"] pv by (auto simp: searchable_def)
  let ?a = "min (nat p) (length big)"
  have r: "fbm_instr (big @ [0]) (int ?a) (int (length big)) ?sv 0 =
      Inr (map_option int (first_in (big @ [0]) ?a (length big) pv))"
    using s' big by (intro searchable_fbm_instr) simp_all
  have a: "first_in (big @ [0]) ?a (length big) pv = index_spec big pv p"
    using first_in_index_spec[of "int ?a" big pv] by (auto simp: index_spec_def min_def)
  have i: "to_I32 p = p" "to_I32 (int (length big)) = int (length big)"
    using p big by (simp_all add: to_I32_id)
  have le: "index_spec big pv p = Some q \<Longrightarrow> q \<le> length big" for q
    by (auto simp: index_spec_def find_upt_Some split: if_splits)
  show ?thesis
    unfolding pp_index_def Let_def option.case if_True i pp_index_clamp r a bind_result_simps
    using index_value_I32[OF big le] by simp
qed

lemma first_in_nul:
  assumes "length pv > 2"
  shows "first_in (big @ [0]) a (Suc (length big)) pv = List.find (occurs_at (big @ [0]) pv) [a..<length big]"
proof -
  let ?m = "big @ [0]" and ?n = "length big"
  have fits: "s < Suc (Suc ?n) - length pv \<and> s < ?n" if "occurs_at ?m pv s" for s
  proof -
    have "pv \<noteq> []" using assms by auto
    with that have "s + length pv \<le> length ?m" by (intro occurs_at_length)
    with assms show ?thesis by simp
  qed
  show ?thesis
  proof (cases "first_in ?m a (Suc ?n) pv")
    case None
    then have "List.find (occurs_at ?m pv) [a..<?n] = None"
      using fits unfolding first_in_def find_upt_None by blast
    with None show ?thesis by simp
  next
    case (Some s)
    then have "List.find (occurs_at ?m pv) [a..<?n] = Some s"
      using fits unfolding first_in_def find_upt_Some by blast
    with Some show ?thesis by simp
  qed
qed

lemma index_search_nul:
  assumes sv: "bm_pv sv = pv" "\<not> SvVALID sv" "length pv > 2" and ok: "ok" and big: "length big < 2 ^ 31"
    and p: "- (2 ^ 31) \<le> p" "p < 2 ^ 31"
  shows "pp_index True big sv ok (Some p) = Inr (index_value
    (let a = min (nat p) (length big) in
     if length big - a < length pv then None else List.find (occurs_at (big @ [0]) pv) [a..<length big]))"
    (is "_ = Inr (index_value ?r)")
proof -
  let ?a = "min (nat p) (length big)"
  have "fbm_instr (big @ [0]) (int ?a) (int (length big)) sv 0 = Inr (map_option int
      (if length big - ?a < length pv then None else first_in (big @ [0]) ?a (Suc (length big)) pv))"
    using big by (intro fbm_instr_not_compiled[OF sv(1,2) _ _ _ sv(3)]) simp_all
  then have r: "fbm_instr (big @ [0]) (int ?a) (int (length big)) sv 0 = Inr (map_option int ?r)"
    by (simp add: first_in_nul[OF sv(3)] Let_def)
  have i: "to_I32 p = p" "to_I32 (int (length big)) = int (length big)"
    using p big by (simp_all add: to_I32_id)
  have le: "?r = Some q \<Longrightarrow> q \<le> length big" for q
    by (auto simp: find_upt_Some Let_def split: if_splits)
  have f: "(if True \<and> \<not> ok then plain_sv (bm_pv sv) else sv) = sv" using ok by simp
  show ?thesis
    unfolding pp_index_def f
    unfolding Let_def option.case if_True i pp_index_clamp r[unfolded Let_def] bind_result_simps
    using index_value_I32[OF big le] by (simp add: Let_def)
qed

lemma index_result_search:
  assumes s: "wanted sv pv" and ok: "ok \<or> pv = []" and big: "length big < 2 ^ 31"
    and p: "- (2 ^ 31) \<le> p" "p < 2 ^ 31"
  shows "pp_index True big sv ok (Some p) = Inr (index_value (index_result sv big pv p))"
proof (cases "\<not> SvVALID sv \<and> length pv > 2 \<and> last pv = 0")
  case True
  with s have "bm_pv sv = pv" by (auto simp: wanted_def compiled_def)
  moreover have ok using ok True by auto
  ultimately show ?thesis using index_search_nul[of sv pv ok big p] True big p by (simp add: index_result_def)
next
  case False
  with s have "searchable sv pv" by (auto simp: wanted_def searchable_def compiled_def)
  from index_search[OF this ok big p] show ?thesis unfolding index_result_def if_not_P[OF False] .
qed

lemma index_result_start:
  assumes "wanted sv pv" "ok \<or> pv = []" "length big < 2 ^ 31"
  shows "pp_index True big sv ok None = Inr (index_value (index_result sv big pv 0))"
proof -
  have "pp_index True big sv ok None = pp_index True big sv ok (Some 0)"
    by (simp add: pp_index_def to_I32_def)
  with index_result_search[OF assms, of 0] show ?thesis by simp
qed

lemma rninstr_rindex_spec:
  assumes e: "e = min (nat (p + int (length pv))) (length big)"
  shows "rninstr (big @ [0]) 0 (int e) pv = Inr (map_option int (rindex_spec big pv p))"
proof -
  have r: "rninstr (big @ [0]) 0 (int e) pv = Inr (map_option int (last_in (big @ [0]) 0 e pv))"
    using rninstr_result[of 0 e "big @ [0]" pv] e by simp
  show ?thesis
  proof (cases "pv = []")
    case True
    with e show ?thesis by (simp add: rninstr_def rindex_spec_def)
  next
    case False
    with last_in_rindex_spec[OF False, of e big p] r e show ?thesis by (simp add: min.commute)
  qed
qed

lemma rindex_search:
  assumes pv: "bm_pv sv = pv" and big: "length big < 2 ^ 31"
    and p: "- (2 ^ 31) \<le> p" "p + int (length pv) < 2 ^ 31"
  shows "pp_index False big sv ok (Some p) = Inr (index_value (rindex_spec big pv p))"
    and "pp_index False big sv ok None = Inr (index_value (rindex_spec big pv (int (length big))))"
proof -
  have i: "to_I32 p = p" "to_I32 (p + int (length pv)) = p + int (length pv)"
      "to_I32 (int (length big)) = int (length big)"
    using p big by (simp_all add: to_I32_id)
  have le: "rindex_spec big pv q = Some s \<Longrightarrow> s \<le> length big" for q s
    by (auto simp: rindex_spec_def find_rev_upt_Some split: if_splits)
  have f: "(True \<and> \<not> ok) = (\<not> ok)" "(False \<and> \<not> ok) = False" by simp_all
  show "pp_index False big sv ok (Some p) = Inr (index_value (rindex_spec big pv p))"
    unfolding pp_index_def Let_def option.case if_False i pv pp_index_clamp rninstr_rindex_spec[OF refl]
      bind_result_simps
    using index_value_I32[OF big le] by simp
  have "min (nat (int (length big))) (length big) = min (nat (int (length big) + int (length pv))) (length big)"
    by simp
  note e = rninstr_rindex_spec[OF this]
  show "pp_index False big sv ok None = Inr (index_value (rindex_spec big pv (int (length big))))"
    unfolding pp_index_def Let_def option.case if_False i pv pp_index_clamp e bind_result_simps
    using index_value_I32[OF big le] by simp
qed

text \<open>
  The wanted string \<open>ab\<close> NUL in the text \<open>xab\<close>: where it is a constant of the program, and so
  compiled, it is not found; where it is not, \<open>index\<close> finds it at 1.
\<close>

lemma index_beyond_end:
  "pp_index True [120, 97, 98] (plain_sv [97, 98, 0]) True None = Inr 1"
  "\<exists>sv. fbm_compile (plain_sv [97, 98, 0]) 0 = Some sv \<and> pp_index True [120, 97, 98] sv True None = Inr (- 1)"
proof -
  have "wanted (plain_sv [97, 98, 0]) [97, 98, 0]" by (simp add: wanted_def plain_sv_def SvVALID_def)
  from index_result_start[OF this, of True "[120, 97, 98]"]
  show "pp_index True [120, 97, 98] (plain_sv [97, 98, 0]) True None = Inr 1"
    by (simp add: index_result_def plain_sv_def SvVALID_def index_value_def occurs_at_def upt_rec)
  obtain sv where sv: "fbm_compile (plain_sv [97, 98, 0]) 0 = Some sv" "compiled sv [97, 98, 0] False"
    using fbm_compile_compiled[of "[97, 98, 0]" 0] by auto
  then have "wanted sv [97, 98, 0]" "SvVALID sv" by (simp_all add: wanted_def compiled_def)
  with index_result_start[OF this(1), of True "[120, 97, 98]"] sv(1)
  show "\<exists>sv. fbm_compile (plain_sv [97, 98, 0]) 0 = Some sv \<and> pp_index True [120, 97, 98] sv True None = Inr (- 1)"
    by (simp add: index_result_def index_spec_def index_value_def occurs_at_def upt_rec)
qed

section \<open>The properties\<close>

text \<open>
  C9: \<open>fbm_instr\<close> on a string of fewer than \<open>2 ^ 31 - 1\<close> bytes: \<open>fbm_compile\<close> ends on it, and the search for
  the compiled string, in any text, returns what the string stands for: without a TAIL flag the first place
  where it lies in the text; with one, where it lies in the text followed by a newline, and only at
  the end of the text unless the search is multiline. It is NULL only if there is no such place, and
  the search stays inside the text and the string. (\<open>fbm_compile\<close> indexes the string with a \<open>U32\<close>, and
  \<open>fbm_instr\<close> counts its bytes in an \<open>I32\<close>.)
\<close>

theorem fbm_instr_finds:
  assumes "a \<le> b" "b \<le> length m" "b < 2 ^ 64" "length pv < 2 ^ 31 - 1"
  shows "\<exists>sv. fbm_compile (plain_sv pv) cflags = Some sv \<and>
    fbm_instr m (int a) (int b) sv flags =
    Inr (map_option int (fbm_spec m a b (if cflags AND FBMcf_TAIL \<noteq> 0 then pv @ [10] else pv)
      (cflags AND FBMcf_TAIL \<noteq> 0) (flags AND FBMrf_MULTILINE \<noteq> 0)))"
proof -
  obtain sv where sv: "fbm_compile (plain_sv pv) cflags = Some sv"
      "compiled sv (if cflags AND FBMcf_TAIL \<noteq> 0 then pv @ [10] else pv) (cflags AND FBMcf_TAIL \<noteq> 0)"
    by (rule fbm_compile_compiled[of pv]) (use assms(4) in simp)
  have "length (if cflags AND FBMcf_TAIL \<noteq> 0 then pv @ [10] else pv) \<le> 2 ^ 31" using assms(4) by simp
  with sv fbm_instr_compiled[OF sv(2) assms(1-3)] show ?thesis by blast
qed

text \<open>\<open>abcd\<close> in \<open>abcabcd\<close>; and \<open>bc$\<close>, multiline, in \<open>bcbabc\<close>.\<close>

theorem fbm_instr_finds_witness:
  "(\<exists>sv. fbm_compile (plain_sv [97, 98, 99, 100]) 0 = Some sv \<and>
     fbm_instr [97, 98, 99, 97, 98, 99, 100] 0 7 sv 0 = Inr (Some 3)) \<and>
   (\<exists>sv. fbm_compile (plain_sv [98, 99]) 1 = Some sv \<and>
     fbm_instr [98, 99, 98, 97, 98, 99] 0 6 sv 1 = Inr (Some 4))"
  using fbm_instr_finds[of 0 7 "[97, 98, 99, 97, 98, 99, 100]" "[97, 98, 99, 100]" 0 0]
    fbm_instr_finds[of 0 6 "[98, 99, 98, 97, 98, 99]" "[98, 99]" 1 1]
  by (simp add: fbm_spec_def fbm_text_def first_in_def occurs_at_def upt_rec FBMcf_TAIL_mask FBMrf_MULTILINE_def)

text \<open>
  C10: \<open>index\<close> and \<open>rindex\<close>, in a text of fewer than \<open>2 ^ 31\<close> bytes and for a position that is an \<open>I32\<close>,
  with the end of the wanted string there too, return the first place of the string not before
  the position, and the last not after it, or -1; for the empty string the position itself,
  moved into the text. (A wanted string that is undefined is the empty string.) The one exception is part of the statement: \<open>index\<close> finds a string that was not compiled,
  has more than two bytes and ends in a NUL also where its NUL is the one behind the text (and
  never in a text that is shorter than the string).
\<close>

theorem index_rindex_correct:
  assumes "wanted sv pv" "ok \<or> pv = []" "length big < 2 ^ 31"
    and "- (2 ^ 31) \<le> p" "p + int (length pv) < 2 ^ 31"
  shows "pp_index True big sv ok (Some p) = Inr (index_value (index_result sv big pv p)) \<and>
         pp_index True big sv ok None = Inr (index_value (index_result sv big pv 0)) \<and>
         pp_index False big sv ok (Some p) = Inr (index_value (rindex_spec big pv p)) \<and>
         pp_index False big sv ok None = Inr (index_value (rindex_spec big pv (int (length big))))"
proof (intro conjI)
  have pv: "bm_pv sv = pv" using assms(1) by (auto simp: wanted_def compiled_def)
  show "pp_index True big sv ok (Some p) = Inr (index_value (index_result sv big pv p))"
    using assms by (intro index_result_search) linarith+
  show "pp_index True big sv ok None = Inr (index_value (index_result sv big pv 0))"
    using assms(1-3) by (rule index_result_start)
  show "pp_index False big sv ok (Some p) = Inr (index_value (rindex_spec big pv p))"
    "pp_index False big sv ok None = Inr (index_value (rindex_spec big pv (int (length big))))"
    using rindex_search[OF pv assms(3-5)] by blast+
qed

text \<open>\<open>aa\<close> in \<open>aabaa\<close>.\<close>

theorem index_rindex_correct_witness:
  "pp_index True [97, 97, 98, 97, 97] (plain_sv [97, 97]) True (Some 1) = Inr 3 \<and>
   pp_index False [97, 97, 98, 97, 97] (plain_sv [97, 97]) True (Some 2) = Inr 0 \<and>
   pp_index False [97, 97, 98, 97, 97] (plain_sv [97, 97]) True None = Inr 3"
  using index_rindex_correct[of "plain_sv [97, 97]" "[97, 97]" True "[97, 97, 98, 97, 97]" 1]
    index_rindex_correct[of "plain_sv [97, 97]" "[97, 97]" True "[97, 97, 98, 97, 97]" 2]
  by (simp add: wanted_def plain_sv_compiled index_result_def index_spec_def rindex_spec_def index_value_def occurs_at_def
      upt_rec)

end
