(* ===== verification/Scream.thy ===== *)
theory Scream
  imports Boyer_Moore
begin

text \<open>
  \<open>study\<close> (\<open>pp_study\<close>, \<open>pp.c\<close>) and the search it prepares (\<open>screaminstr\<close>, \<open>util.c\<close>): the places
  of each byte of a studied text are linked in a list, and a compiled string is searched for
  along the list of its rarest byte.
\<close>

section \<open>State\<close>

text \<open>
  The studied \<open>SV\<close> (\<open>PL_lastscream\<close>, a number here), the \<open>SV\<close>s with \<open>SvSCREAM\<close> on, the
  references \<open>pp_study\<close> has taken, and the lists: \<open>PL_screamfirst\<close> has the first place of each byte
  or -1, \<open>PL_screamnext\<close> the distance from each place to the next, or minus the place at the end of
  the list. An array that was not allocated is empty.
\<close>

record scream =
  lastscream :: "nat option"
  screaming :: "nat set"
  screamrefs :: "nat \<Rightarrow> int"
  maxscream :: int
  screamfirst :: "int list"
  screamnext :: "int list"

definition scream0 :: scream where
  "scream0 = \<lparr>lastscream = None, screaming = {}, screamrefs = (\<lambda>_. 0), maxscream = - 1,
     screamfirst = [], screamnext = []\<rparr>"

section \<open>pp_study\<close>







section \<open>screaminstr\<close>









section \<open>The lists\<close>









text \<open>The arrays have the sizes the code believes they have.\<close>

definition scream_ok :: "scream \<Rightarrow> bool" where
  "scream_ok st \<longleftrightarrow> maxscream st < 0 \<or> int (length (screamnext st)) = maxscream st"

lemma scream_ok_0 [simp]: "scream_ok scream0"
  by (simp add: scream_ok_def scream0_def)






section \<open>Following a list\<close>




















section \<open>screaminstr\<close>
















section \<open>The properties\<close>



end
