(* ===== verification/Split.thy ===== *)
theory Split
  imports Boyer_Moore
begin

text \<open>
  \<open>split\<close> (\<open>pp_split\<close>, \<open>pp.c\<close>) on texts of bytes: the loops for white space, for lines, for a
  separator of one byte, for a fixed string, which calls \<open>fbm_instr\<close>, and for any other pattern,
  which calls the matcher; the limit; and the empty fields at the end. The four loops without the
  matcher are instances of one interface, whose client cuts a text into fields.
\<close>

section \<open>Patterns\<close>

text \<open>
  What \<open>pp_split\<close> reads of a compiled pattern. The matcher (\<open>regexec.c\<close>) is not part of the
  development: \<open>rx_exec\<close> is a parameter, which gives the offsets of the match in the text from a
  place on, of the whole match first and then of the groups, a group that did not match with
  offsets below 0. The pattern is not marked UTF-8.
\<close>

record rx =
  rx_extflags :: u32
  rx_nparens :: nat
  rx_minlenret :: nat
  rx_intuit_string :: bm_sv
  rx_exec :: "u8 list \<Rightarrow> nat \<Rightarrow> (int \<times> int) list option"

definition RXf_ANCH :: u32 where "RXf_ANCH = 1 OR 2 OR 8 OR 4"
definition RXf_SKIPWHITE :: u32 where "RXf_SKIPWHITE = 0x100"
definition RXf_START_ONLY :: u32 where "RXf_START_ONLY = 0x200"
definition RXf_WHITE :: u32 where "RXf_WHITE = 0x400"
definition PMf_MULTILINE :: u32 where "PMf_MULTILINE = 0x1000"
definition RXf_CHECK_ALL :: u32 where "RXf_CHECK_ALL = 0x00400000"
definition RXf_USE_INTUIT :: u32 where "RXf_USE_INTUIT = 0x02000000 OR 0x04000000"
definition RXf_INTUIT_TAIL :: u32 where "RXf_INTUIT_TAIL = 0x08000000"

definition has_flag :: "rx \<Rightarrow> u32 \<Rightarrow> bool" where
  "has_flag r f = (rx_extflags r AND f \<noteq> 0)"

definition isSPACE :: "u8 \<Rightarrow> bool" where
  "isSPACE c = (c = 32 \<or> c = 9 \<or> c = 10 \<or> c = 13 \<or> c = 12)"

section \<open>Fields\<close>

text \<open>A field of the result; \<open>None\<close> is \<open>undef\<close>. \<open>slice t s m\<close> is \<open>newSVpvn(s, m-s)\<close>.\<close>

type_synonym field = "u8 list option"

definition slice :: "u8 list \<Rightarrow> nat \<Rightarrow> nat \<Rightarrow> u8 list" where
  "slice t s m = take (m - s) (drop s t)"

text \<open>
  A step of a loop: the fields it pushes and where the next begins; \<open>Some None\<close> leaves the loop.
  The outer \<open>None\<close> is a read outside the text.
\<close>

type_synonym step = "nat \<Rightarrow> (field list \<times> nat) option option"

text \<open>\<open>scan p t m\<close> goes on from \<open>m\<close> while \<open>p\<close> holds, to the end of the text at most.\<close>

function scan :: "(u8 \<Rightarrow> bool) \<Rightarrow> u8 list \<Rightarrow> nat \<Rightarrow> nat" where
  "scan p t m = (if m < length t \<and> p (t ! m) then scan p t (Suc m) else m)"
  by pat_completeness auto
termination
  by (relation "measure (\<lambda>(p, t, m). length t - m)") auto

declare scan.simps [simp del]

text \<open>\<open>RXf_SKIPWHITE\<close>: the loop stops at the NUL behind the text.\<close>

function skip_white :: "u8 list \<Rightarrow> nat \<Rightarrow> nat" where
  "skip_white t s = (if isSPACE (rd t s) then skip_white t (Suc s) else s)"
  by pat_completeness auto
termination
  by (relation "measure (\<lambda>(t, s). length t - s)") (auto simp: isSPACE_def rd_def split: if_splits)

declare skip_white.simps [simp del]

section \<open>The loops\<close>

definition white_step :: "u8 list \<Rightarrow> step" where
  "white_step t s =
   (let m = scan (\<lambda>c. \<not> isSPACE c) t s
    in if m \<ge> length t then Some None
       else Some (Some ([Some (slice t s m)], scan isSPACE t (m + 1))))"

definition line_step :: "u8 list \<Rightarrow> step" where
  "line_step t s =
   (let m = scan (\<lambda>c. c \<noteq> 10) t s + 1
    in if m \<ge> length t then Some None else Some (Some ([Some (slice t s m)], m)))"

definition char_step :: "u8 list \<Rightarrow> rx \<Rightarrow> step" where
  "char_step t r s =
   (let c = rd (bm_pv (rx_intuit_string r)) 0; m = scan (\<lambda>x. x \<noteq> c) t s
    in if m \<ge> length t then Some None
       else Some (Some ([Some (slice t s m)], m + rx_minlenret r)))"

definition fbm_step :: "u8 list \<Rightarrow> rx \<Rightarrow> step" where
  "fbm_step t r s =
   (case fbm_instr (t @ [0]) (int s) (int (length t)) (rx_intuit_string r)
           (if has_flag r PMf_MULTILINE then FBMrf_MULTILINE else 0) of
      Inl e \<Rightarrow> None
    | Inr None \<Rightarrow> Some None
    | Inr (Some m) \<Rightarrow> Some (Some ([Some (slice t s (nat m))], nat m + rx_minlenret r)))"

definition group_field :: "u8 list \<Rightarrow> int \<times> int \<Rightarrow> field" where
  "group_field t g = (if snd g \<ge> 0 \<and> fst g \<ge> 0 then Some (slice t (nat (fst g)) (nat (snd g))) else None)"

definition exec_step :: "u8 list \<Rightarrow> rx \<Rightarrow> step" where
  "exec_step t r s =
   (case rx_exec r t s of
      None \<Rightarrow> Some None
    | Some [] \<Rightarrow> None
    | Some (whole # groups) \<Rightarrow>
        Some (Some (Some (slice t s (nat (fst whole))) # map (group_field t) (take (rx_nparens r) groups),
          nat (snd whole))))"

text \<open>
  The shape the loops share: \<open>cont s \<and> --limit\<close>, then the step. \<open>None\<close> is a loop that does not end,
  or a read outside the text.
\<close>

partial_function (option) split_loop ::
    "(nat \<Rightarrow> bool) \<Rightarrow> step \<Rightarrow> int \<Rightarrow> nat \<Rightarrow> field list \<Rightarrow> (nat \<times> field list) option" where
  "split_loop cont step limit s av =
   (if \<not> cont s \<or> limit - 1 = 0 then Some (s, av)
    else Option.bind (step s) (\<lambda>r. case r of
        None \<Rightarrow> Some (s, av)
      | Some (fs, s') \<Rightarrow> split_loop cont step (limit - 1) s' (av @ fs)))"

text \<open>Which loop: \<open>cont\<close> is the test \<open>s < strend\<close> of the last two.\<close>

definition split_fields :: "u8 list \<Rightarrow> rx \<Rightarrow> int \<Rightarrow> nat \<Rightarrow> (nat \<times> field list) option" where
  "split_fields t r limit s =
   (if has_flag r RXf_WHITE then split_loop (\<lambda>_. True) (white_step t) limit s []
    else if has_flag r RXf_START_ONLY then split_loop (\<lambda>_. True) (line_step t) limit s []
    else if has_flag r RXf_USE_INTUIT \<and> rx_nparens r = 0 \<and> has_flag r RXf_CHECK_ALL \<and> \<not> has_flag r RXf_ANCH
    then if rx_minlenret r = 1 \<and> \<not> has_flag r RXf_INTUIT_TAIL
      then split_loop (\<lambda>_. True) (char_step t r) limit s []
      else split_loop (\<lambda>s. s < length t) (fbm_step t r) limit s []
    else split_loop (\<lambda>s. s < length t) (exec_step t r) limit s [])"

text \<open>The empty and undefined fields at the end, popped one by one.\<close>

definition empty_field :: "field \<Rightarrow> bool" where
  "empty_field f = (case f of None \<Rightarrow> True | Some xs \<Rightarrow> xs = [])"

function pop_empty :: "field list \<Rightarrow> field list" where
  "pop_empty av = (if av \<noteq> [] \<and> empty_field (last av) then pop_empty (butlast av) else av)"
  by pat_completeness auto
termination
  by (relation "measure length") auto

declare pop_empty.simps [simp del]

text \<open>
  \<open>pp_split\<close>: the fields, or \<open>Inl\<close> for the panic ``Split loop''. \<open>limit\<close> is the \<open>IV\<close>, which
  \<open>origlimit\<close> keeps in an \<open>I32\<close>.
\<close>

definition pp_split :: "u8 list \<Rightarrow> rx \<Rightarrow> int \<Rightarrow> (unit + field list) option" where
  "pp_split t r limit =
   (let origlimit = to_I32 limit;
        slen = int (length t);
        maxiters0 = to_I32 (slen + 10);
        s = (if has_flag r RXf_SKIPWHITE then skip_white t 0 else 0);
        limit' = (if limit = 0 then maxiters0 + 2 else limit);
        fixed = (has_flag r RXf_WHITE \<or> has_flag r RXf_START_ONLY \<or>
          has_flag r RXf_USE_INTUIT \<and> rx_nparens r = 0 \<and> has_flag r RXf_CHECK_ALL \<and> \<not> has_flag r RXf_ANCH);
        maxiters = (if fixed then maxiters0 else to_I32 (maxiters0 + slen * int (rx_nparens r)))
    in Option.bind (split_fields t r limit' s) (\<lambda>(s, av).
      if int (length av) > maxiters then Some (Inl ())
      else if s < length t \<or> av \<noteq> [] \<and> origlimit \<noteq> 0
      then (if s \<le> length t then Some (Inr (av @ [Some (slice t s (length t))])) else None)
      else if origlimit = 0 then Some (Inr (pop_empty av))
      else Some (Inr av)))"

section \<open>Cutting a text\<close>

text \<open>
  \<open>sp s\<close> is where the field that begins at \<open>s\<close> ends and where the next one begins, if there is a
  separator. \<open>cuts sp t k s\<close> are the fields before the first \<open>k\<close> separators, and the rest.
\<close>

fun cuts :: "(nat \<Rightarrow> (nat \<times> nat) option) \<Rightarrow> u8 list \<Rightarrow> nat \<Rightarrow> nat \<Rightarrow> u8 list list \<times> nat" where
  "cuts sp t 0 s = ([], s)"
| "cuts sp t (Suc k) s =
   (case sp s of
      None \<Rightarrow> ([], s)
    | Some (m, s') \<Rightarrow> (case cuts sp t k s' of (fs, e) \<Rightarrow> (slice t s m # fs, e)))"

locale field_splitter =
  fixes t :: "u8 list"
    and cont :: "nat \<Rightarrow> bool"
    and step :: step
    and sp :: "nat \<Rightarrow> (nat \<times> nat) option"
  assumes cut_range: "s \<le> length t \<Longrightarrow> sp s = Some (m, s') \<Longrightarrow> s \<le> m \<and> m \<le> s' \<and> s < s' \<and> s' \<le> length t"
    and step_cut: "s \<le> length t \<Longrightarrow> cont s \<Longrightarrow>
      step s = Some (map_option (\<lambda>(m, s'). ([Some (slice t s m)], s')) (sp s))"
    and cut_stop: "s \<le> length t \<Longrightarrow> \<not> cont s \<Longrightarrow> sp s = None"
begin

lemma sp_end: "sp (length t) = None"
proof (cases "sp (length t)")
  case (Some c)
  then show ?thesis using cut_range[of "length t" "fst c" "snd c"] by auto
qed

lemma cuts_range:
  "s \<le> length t \<Longrightarrow> cuts sp t k s = (fs, e) \<Longrightarrow>
   s + length fs \<le> e \<and> e \<le> length t \<and> length fs \<le> k"
proof (induction k arbitrary: s fs e)
  case (Suc k)
  show ?case
  proof (cases "sp s")
    case None
    with Suc.prems show ?thesis by simp
  next
    case (Some c)
    obtain m s' where c: "c = (m, s')" by (cases c)
    obtain gs f where g: "cuts sp t k s' = (gs, f)" by fastforce
    have "s < s'" "s' \<le> length t" using cut_range[OF Suc.prems(1) Some[unfolded c]] by auto
    with Suc.IH[OF _ g] Suc.prems Some c g show ?thesis by auto
  qed
qed simp

text \<open>There are no more separators than bytes.\<close>

lemma cuts_enough:
  "s \<le> length t \<Longrightarrow> length t - s \<le> k \<Longrightarrow> length t - s \<le> k' \<Longrightarrow> cuts sp t k s = cuts sp t k' s"
proof (induction k arbitrary: s k')
  case 0
  then have "s = length t" by simp
  then have "sp s = None" using sp_end by simp
  then show ?case by (cases k') simp_all
next
  case (Suc k)
  show ?case
  proof (cases k')
    case 0
    with Suc.prems have "s = length t" by simp
    then have "sp s = None" using sp_end by simp
    with 0 show ?thesis by simp
  next
    case (Suc j)
    show ?thesis
    proof (cases "sp s")
      case (Some c)
      obtain m s' where c: "c = (m, s')" by (cases c)
      then have "s < s'" "s' \<le> length t" using cut_range[of s] Some Suc.prems(1) by auto
      then have "cuts sp t k s' = cuts sp t j s'" using Suc Suc.prems by (intro Suc.IH) linarith+
      with Some c Suc show ?thesis by simp
    qed (use Suc in simp)
  qed
qed

text \<open>The loop ends, and has made the cuts that the limit allows.\<close>

lemma loop_cuts:
  assumes "s \<le> length t" "limit > 0 \<and> k = nat (limit - 1) \<or> limit < 0 \<and> length t - s \<le> k"
  shows "split_loop cont step limit s av =
    Some (case cuts sp t k s of (fs, e) \<Rightarrow> (e, av @ map Some fs))"
  using assms
proof (induction k arbitrary: s limit av)
  case 0
  have "limit - 1 = 0 \<or> sp s = None"
  proof (cases "limit > 0")
    case True
    with 0(2) show ?thesis by auto
  next
    case False
    with 0 have "s = length t" by auto
    with sp_end show ?thesis by simp
  qed
  with step_cut[OF 0(1)] show ?case by (subst split_loop.simps) auto
next
  case (Suc k)
  have lim: "limit - 1 \<noteq> 0" using Suc.prems(2) by auto
  show ?case
  proof (cases "sp s")
    case None
    with step_cut[OF Suc.prems(1)] show ?thesis by (subst split_loop.simps) auto
  next
    case (Some c)
    obtain m s' where c: "c = (m, s')" by (cases c)
    have cont: "cont s" using cut_stop[OF Suc.prems(1)] Some by auto
    have s': "s < s'" "s' \<le> length t" using cut_range[OF Suc.prems(1) Some[unfolded c]] by auto
    have "split_loop cont step (limit - 1) s' (av @ [Some (slice t s m)]) =
        Some (case cuts sp t k s' of (fs, e) \<Rightarrow> (e, (av @ [Some (slice t s m)]) @ map Some fs))"
      using Suc.prems(2) s' by (intro Suc.IH) auto
    with step_cut[OF Suc.prems(1) cont] cont lim Some c show ?thesis
      by (subst split_loop.simps) (simp split: prod.split)
  qed
qed

end

section \<open>The four loops as instances\<close>

lemma scan_range: "m \<le> length t \<Longrightarrow> m \<le> scan p t m \<and> scan p t m \<le> length t"
proof (induction p t m rule: scan.induct)
  case (1 p t m)
  then show ?case by (auto simp: scan.simps[of p t m])
qed

lemma scan_stops: "scan p t m < length t \<Longrightarrow> \<not> p (t ! scan p t m)"
proof (induction p t m rule: scan.induct)
  case (1 p t m)
  then show ?case by (auto simp: scan.simps[of p t m] split: if_splits)
qed

lemma scan_passes: "m \<le> i \<Longrightarrow> i < scan p t m \<Longrightarrow> p (t ! i)"
proof (induction p t m rule: scan.induct)
  case (1 p t m)
  then show ?case by (cases "m = i") (auto simp: scan.simps[of p t m] scan.simps[of p t i] split: if_splits)
qed

definition white_sp :: "u8 list \<Rightarrow> nat \<Rightarrow> (nat \<times> nat) option" where
  "white_sp t s =
   (let m = scan (\<lambda>c. \<not> isSPACE c) t s in if m \<ge> length t then None else Some (m, scan isSPACE t (m + 1)))"

definition line_sp :: "u8 list \<Rightarrow> nat \<Rightarrow> (nat \<times> nat) option" where
  "line_sp t s = (let m = scan (\<lambda>c. c \<noteq> 10) t s + 1 in if m \<ge> length t then None else Some (m, m))"

definition string_sp :: "u8 list \<Rightarrow> u8 list \<Rightarrow> nat \<Rightarrow> (nat \<times> nat) option" where
  "string_sp pv t s = map_option (\<lambda>m. (m, m + length pv)) (first_in t s (length t) pv)"

interpretation white: field_splitter t "\<lambda>_. True" "white_step t" "white_sp t" for t
proof
  fix s m s'
  assume s: "s \<le> length t" "white_sp t s = Some (m, s')"
  then have m: "m = scan (\<lambda>c. \<not> isSPACE c) t s" "m < length t" "s' = scan isSPACE t (m + 1)"
    by (auto simp: white_sp_def Let_def split: if_splits)
  with scan_range[OF s(1), of "\<lambda>c. \<not> isSPACE c"] scan_range[of "m + 1" t isSPACE]
  show "s \<le> m \<and> m \<le> s' \<and> s < s' \<and> s' \<le> length t" by linarith
qed (simp_all add: white_step_def white_sp_def Let_def)

interpretation line: field_splitter t "\<lambda>_. True" "line_step t" "line_sp t" for t
proof
  fix s m s'
  assume s: "s \<le> length t" "line_sp t s = Some (m, s')"
  with scan_range[OF s(1), of "\<lambda>c. c \<noteq> 10"] show "s \<le> m \<and> m \<le> s' \<and> s < s' \<and> s' \<le> length t"
    by (auto simp: line_sp_def Let_def split: if_splits)
qed (simp_all add: line_step_def line_sp_def Let_def)

lemma string_sp_range:
  assumes "pv \<noteq> []" "string_sp pv t s = Some (m, s')"
  shows "s \<le> m \<and> m \<le> s' \<and> s < s' \<and> s' \<le> length t"
proof -
  have "0 < length pv" using assms(1) by simp
  with assms(2) show ?thesis by (auto simp: string_sp_def first_in_Some simp del: length_greater_0_conv)
qed

text \<open>A separator of one byte.\<close>

lemma first_in_byte:
  assumes "s \<le> length t"
  shows "first_in t s (length t) [c] =
    (if scan (\<lambda>x. x \<noteq> c) t s < length t then Some (scan (\<lambda>x. x \<noteq> c) t s) else None)"
proof -
  let ?m = "scan (\<lambda>x. x \<noteq> c) t s"
  have before: "\<not> occurs_at t [c] i" if "s \<le> i" "i < ?m" for i
    using scan_passes[OF that] scan_range[OF assms, of "\<lambda>x. x \<noteq> c"] that by (simp add: occurs_at_Cons)
  show ?thesis
  proof (cases "?m < length t")
    case True
    then have "first_in t s (length t) [c] = Some ?m"
      unfolding first_in_Some using scan_range[OF assms] scan_stops[OF True] before by (simp add: occurs_at_Cons)
    with True show ?thesis by simp
  next
    case False
    then have "first_in t s (length t) [c] = None"
      unfolding first_in_None using before scan_range[OF assms, of "\<lambda>x. x \<noteq> c"] by simp
    with False show ?thesis by simp
  qed
qed

lemma char_splitter:
  assumes "bm_pv (rx_intuit_string r) = [c]" "rx_minlenret r = 1"
  shows "field_splitter t (\<lambda>_. True) (char_step t r) (string_sp [c] t)"
proof
  fix s m s'
  assume "s \<le> length t" "string_sp [c] t s = Some (m, s')"
  then show "s \<le> m \<and> m \<le> s' \<and> s < s' \<and> s' \<le> length t" by (intro string_sp_range[of "[c]"]) simp_all
next
  fix s assume "s \<le> length t"
  with assms show "char_step t r s =
      Some (map_option (\<lambda>(m, s'). ([Some (slice t s m)], s')) (string_sp [c] t s))"
    by (simp add: char_step_def string_sp_def first_in_byte rd_def Let_def)
qed simp

text \<open>A fixed string, which \<open>fbm_instr\<close> searches for.\<close>

lemma fbm_splitter:
  assumes c: "compiled (rx_intuit_string r) pv False" and pv: "pv \<noteq> []" "rx_minlenret r = length pv"
    and t: "length t < 2 ^ 31"
  shows "field_splitter t (\<lambda>s. s < length t) (fbm_step t r) (string_sp pv t)"
proof
  fix s m s'
  assume "s \<le> length t" "string_sp pv t s = Some (m, s')"
  with pv show "s \<le> m \<and> m \<le> s' \<and> s < s' \<and> s' \<le> length t" by (intro string_sp_range[of pv]) simp_all
next
  fix s assume s: "s \<le> length t"
  have "fbm_instr (t @ [0]) (int s) (int (length t)) (rx_intuit_string r) f =
      Inr (map_option int (first_in (t @ [0]) s (length t) pv))" for f
    using fbm_instr_compiled[OF c s, of "t @ [0]" f] t by (simp add: fbm_spec_def fbm_text_no_tail)
  moreover have "first_in (t @ [0]) s (length t) pv = first_in t s (length t) pv"
    by (intro first_in_cong occurs_at_nul)
  ultimately show "fbm_step t r s =
      Some (map_option (\<lambda>(m, s'). ([Some (slice t s m)], s')) (string_sp pv t s))"
    using pv(2) by (simp add: fbm_step_def string_sp_def split: option.split)
next
  fix s assume "s \<le> length t" "\<not> s < length t"
  with pv(1) show "string_sp pv t s = None" by (simp add: string_sp_def first_in_empty)
qed

section \<open>Splitting at a string\<close>

text \<open>What \<open>split\<close> at a fixed string is to give: the fields before the first \<open>k\<close> separators, and the rest.\<close>

fun split_on :: "u8 list \<Rightarrow> nat \<Rightarrow> u8 list \<Rightarrow> u8 list list" where
  "split_on pv 0 xs = [xs]"
| "split_on pv (Suc k) xs =
   (case first_in xs 0 (length xs) pv of
      None \<Rightarrow> [xs]
    | Some i \<Rightarrow> take i xs # split_on pv k (drop (i + length pv) xs))"

fun join_with :: "u8 list \<Rightarrow> u8 list list \<Rightarrow> u8 list" where
  "join_with pv [] = []"
| "join_with pv [f] = f"
| "join_with pv (f # g # fs) = f @ pv @ join_with pv (g # fs)"

lemma split_on_not_Nil [simp]: "split_on pv k xs \<noteq> []"
  by (cases k) (simp_all split: option.split)

text \<open>The fields, joined by the separator, are the text again.\<close>

lemma join_split_on: "join_with pv (split_on pv k xs) = xs"
proof (induction k arbitrary: xs)
  case (Suc k)
  show ?case
  proof (cases "first_in xs 0 (length xs) pv")
    case (Some i)
    then have "take (length pv) (drop i xs) = pv" by (simp add: first_in_Some occurs_at_def)
    then have "take i xs @ pv @ drop (i + length pv) xs = xs"
      by (metis add.commute append_take_drop_id drop_drop)
    moreover have "join_with pv (f # fs) = f @ pv @ join_with pv fs" if "fs \<noteq> []" for f fs
      using that by (cases fs) simp_all
    ultimately show ?thesis using Some Suc.IH by simp
  qed simp
qed simp

lemma first_in_drop:
  assumes "s \<le> length t"
  shows "first_in t s (length t) pv = map_option ((+) s) (first_in (drop s t) 0 (length t - s) pv)"
proof -
  have occ: "occurs_at (drop s t) pv q = occurs_at t pv (s + q)" for q
    by (simp add: occurs_at_def add.commute)
  show ?thesis
  proof (cases "first_in (drop s t) 0 (length t - s) pv")
    case None
    have "\<not> occurs_at t pv u" if "s \<le> u" "u < Suc (length t) - length pv" for u
    proof -
      have "u - s < Suc (length t - s) - length pv" using that assms by linarith
      then have "\<not> occurs_at (drop s t) pv (u - s)" using None unfolding first_in_None by blast
      with occ that(1) show ?thesis by simp
    qed
    then have "first_in t s (length t) pv = None" unfolding first_in_None by blast
    with None show ?thesis by simp
  next
    case (Some i)
    then have i: "i < Suc (length t - s) - length pv" "occurs_at t pv (s + i)" "\<forall>u < i. \<not> occurs_at t pv (s + u)"
      using occ unfolding first_in_Some by auto
    have "\<not> occurs_at t pv u" if "s \<le> u" "u < s + i" for u
      using i(3)[rule_format, of "u - s"] that by simp
    moreover have "s + i < Suc (length t) - length pv" using i(1) assms by linarith
    ultimately have "first_in t s (length t) pv = Some (s + i)"
      unfolding first_in_Some using i(2) by simp
    with Some show ?thesis by simp
  qed
qed

lemma cuts_split_on:
  assumes "s \<le> length t" "pv \<noteq> []"
  shows "(case cuts (string_sp pv t) t k s of (fs, e) \<Rightarrow> fs @ [slice t e (length t)]) = split_on pv k (drop s t)"
  using assms(1)
proof (induction k arbitrary: s)
  case 0
  then show ?case by (simp add: slice_def)
next
  case (Suc k)
  show ?case
  proof (cases "first_in (drop s t) 0 (length t - s) pv")
    case None
    with first_in_drop[OF Suc.prems, of pv] show ?thesis by (simp add: string_sp_def slice_def)
  next
    case (Some i)
    with first_in_drop[OF Suc.prems, of pv] have sp: "string_sp pv t s = Some (s + i, s + i + length pv)"
      by (simp add: string_sp_def)
    obtain fs e where fs: "cuts (string_sp pv t) t k (s + i + length pv) = (fs, e)" by fastforce
    have "s + i + length pv \<le> length t" using string_sp_range[OF assms(2) sp] by simp
    from Suc.IH[OF this] Some sp fs show ?thesis by (simp add: slice_def add.commute add.left_commute)
  qed
qed

text \<open>The empty fields at the end.\<close>

lemma pop_empty_correct: "pop_empty av = rev (dropWhile empty_field (rev av))"
proof (induction av rule: rev_induct)
  case Nil
  then show ?case by (simp add: pop_empty.simps)
next
  case (snoc f av)
  then show ?case by (simp add: pop_empty.simps[of "av @ [f]"])
qed

section \<open>pp_split at a fixed string\<close>

text \<open>The patterns for which \<open>pp_split\<close> searches for the fixed string \<open>pv\<close> without the matcher.\<close>

definition fixed_pattern :: "rx \<Rightarrow> u8 list \<Rightarrow> bool" where
  "fixed_pattern r pv \<longleftrightarrow>
   \<not> has_flag r RXf_WHITE \<and> \<not> has_flag r RXf_START_ONLY \<and> \<not> has_flag r RXf_SKIPWHITE \<and>
   has_flag r RXf_USE_INTUIT \<and> rx_nparens r = 0 \<and> has_flag r RXf_CHECK_ALL \<and> \<not> has_flag r RXf_ANCH \<and>
   \<not> has_flag r RXf_INTUIT_TAIL \<and> pv \<noteq> [] \<and> rx_minlenret r = length pv \<and> compiled (rx_intuit_string r) pv False"

lemma split_fields_fixed:
  assumes r: "fixed_pattern r pv" and t: "length t < 2 ^ 31"
    and k: "limit > 0 \<and> k = nat (limit - 1) \<or> limit < 0 \<and> length t \<le> k"
  shows "split_fields t r limit 0 = Some (case cuts (string_sp pv t) t k 0 of (fs, e) \<Rightarrow> (e, map Some fs))"
proof (cases "length pv = 1")
  case True
  then obtain c where pv: "pv = [c]" by (metis One_nat_def length_0_conv length_Suc_conv)
  have "field_splitter t (\<lambda>_. True) (char_step t r) (string_sp [c] t)"
    using r pv by (intro char_splitter) (simp_all add: fixed_pattern_def compiled_def)
  from field_splitter.loop_cuts[OF this, of 0 limit k "[]"] r True k pv show ?thesis
    by (simp add: split_fields_def fixed_pattern_def)
next
  case False
  have "field_splitter t (\<lambda>s. s < length t) (fbm_step t r) (string_sp pv t)"
    using r t by (intro fbm_splitter) (simp_all add: fixed_pattern_def)
  from field_splitter.loop_cuts[OF this, of 0 limit k "[]"] r False k show ?thesis
    by (simp add: split_fields_def fixed_pattern_def)
qed

lemma string_splitter: "pv \<noteq> [] \<Longrightarrow> field_splitter t (\<lambda>_. True)
    (\<lambda>s. Some (map_option (\<lambda>(m, s'). ([Some (slice t s m)], s')) (string_sp pv t s))) (string_sp pv t)"
  by unfold_locales (auto dest: string_sp_range)

text \<open>How many separators are cut at: all of them if the limit is not positive.\<close>

definition cut_count :: "int \<Rightarrow> u8 list \<Rightarrow> nat" where
  "cut_count limit t = (if limit > 0 then nat (limit - 1) else length t)"

lemma cut_count_cuts:
  assumes sp: "field_splitter t cont step sp" and s: "s \<le> length t"
    and loop: "\<And>k l. l > 0 \<and> k = nat (l - 1) \<or> l < 0 \<and> length t - s \<le> k \<Longrightarrow>
      split_fields t r l s = Some (case cuts sp t k s of (fs, e) \<Rightarrow> (e, map Some fs))"
  shows "split_fields t r (if limit = 0 then int (length t) + 10 + 2 else limit) s =
    Some (case cuts sp t (cut_count limit t) s of (fs, e) \<Rightarrow> (e, map Some fs))"
proof (cases "limit = 0")
  case True
  have "cuts sp t (length t + 11) s = cuts sp t (cut_count limit t) s"
    using True s by (intro field_splitter.cuts_enough[OF sp]) (simp_all add: cut_count_def)
  with True loop[of "int (length t) + 10 + 2" "length t + 11"] show ?thesis by (simp add: nat_add_distrib)
next
  case False
  with loop[of limit "cut_count limit t"] show ?thesis by (auto simp: cut_count_def)
qed

text \<open>The end of \<open>pp_split\<close>: what is left is a field too, and the limit tells what becomes of empty ones.\<close>

definition split_result :: "int \<Rightarrow> u8 list list \<Rightarrow> field list" where
  "split_result limit fs =
   (if fs = [[]] then [] else if to_I32 limit = 0 then rev (dropWhile empty_field (rev (map Some fs)))
    else map Some fs)"

lemma pp_split_finish:
  assumes f: "split_fields t r (if limit = 0 then int (length t) + 10 + 2 else limit) s0 = Some (e, map Some fs)"
    and s0: "s0 = (if has_flag r RXf_SKIPWHITE then skip_white t 0 else 0)"
    and range: "length fs \<le> length t" "e \<le> length t" and t: "length t + 12 < 2 ^ 31" and n: "rx_nparens r = 0"
  shows "pp_split t r limit = Some (Inr (split_result limit (fs @ [slice t e (length t)])))"
proof -
  have I: "to_I32 (int (length t) + 10) = int (length t) + 10" using t by (auto intro!: to_I32_id)
  have n0: "int (length t) + 10 + int (length t) * int (rx_nparens r) = int (length t) + 10" using n by simp
  have unf: "pp_split t r limit =
      (if e < length t \<or> fs \<noteq> [] \<and> to_I32 limit \<noteq> 0 then Some (Inr (map Some fs @ [Some (slice t e (length t))]))
       else if to_I32 limit = 0 then Some (Inr (pop_empty (map Some fs)))
       else Some (Inr (map Some fs)))"
    unfolding pp_split_def Let_def I n0 if_cancel s0[symmetric] f Option.bind.simps prod.case
    using range by simp
  show ?thesis
  proof (cases "e < length t")
    case True
    then have "\<not> empty_field (Some (slice t e (length t)))" "slice t e (length t) \<noteq> []"
      by (auto simp: empty_field_def slice_def)
    with True unf show ?thesis by (simp add: split_result_def)
  next
    case False
    then have "slice t e (length t) = []" "empty_field (Some [])" by (simp_all add: slice_def empty_field_def)
    with False unf show ?thesis
      by (auto simp: split_result_def pop_empty_correct pop_empty.simps[of "[]"])
  qed
qed

lemma pp_split_fixed:
  assumes r: "fixed_pattern r pv" and t: "length t + 12 < 2 ^ 31"
  shows "pp_split t r limit = Some (Inr (split_result limit (split_on pv (cut_count limit t) t)))"
proof -
  have pv: "pv \<noteq> []" using r by (simp add: fixed_pattern_def)
  obtain fs e where fs: "cuts (string_sp pv t) t (cut_count limit t) 0 = (fs, e)" by fastforce
  have range: "length fs \<le> length t" "e \<le> length t"
    using field_splitter.cuts_range[OF string_splitter[OF pv] _ fs] by auto
  have on: "fs @ [slice t e (length t)] = split_on pv (cut_count limit t) t"
    using cuts_split_on[of 0 t pv "cut_count limit t"] pv fs by simp
  have t': "length t < 2 ^ 31" using t by simp
  have "split_fields t r (if limit = 0 then int (length t) + 10 + 2 else limit) 0 = Some (e, map Some fs)"
    using cut_count_cuts[OF string_splitter[OF pv], of 0 t r limit] split_fields_fixed[OF r t'] fs by simp
  from pp_split_finish[OF this _ range t] r on show ?thesis by (simp add: fixed_pattern_def)
qed

section \<open>Lines and words\<close>

text \<open>Every line with its newline, as \<open>split\<close> at \<open>/^/\<close> gives them.\<close>

fun split_lines :: "nat \<Rightarrow> u8 list \<Rightarrow> u8 list list" where
  "split_lines 0 xs = [xs]"
| "split_lines (Suc k) xs =
   (let n = length (takeWhile (\<lambda>c. c \<noteq> 10) xs) + 1
    in if n \<ge> length xs then [xs] else take n xs # split_lines k (drop n xs))"

lemma concat_split_lines: "concat (split_lines k xs) = xs"
  by (induction k arbitrary: xs) (simp_all add: Let_def)

lemma scan_takeWhile: "m \<le> length t \<Longrightarrow> scan p t m = m + length (takeWhile p (drop m t))"
proof (induction p t m rule: scan.induct)
  case (1 p t m)
  then show ?case
    by (cases "m < length t") (auto simp: scan.simps[of p t m] scan.simps[of p t "length t"] Cons_nth_drop_Suc[symmetric])
qed

lemma cuts_split_lines:
  "s \<le> length t \<Longrightarrow>
   (case cuts (line_sp t) t k s of (fs, e) \<Rightarrow> fs @ [slice t e (length t)]) = split_lines k (drop s t)"
proof (induction k arbitrary: s)
  case 0
  then show ?case by (simp add: slice_def)
next
  case (Suc k)
  let ?n = "length (takeWhile (\<lambda>c. c \<noteq> 10) (drop s t)) + 1"
  have sp: "line_sp t s = (if s + ?n \<ge> length t then None else Some (s + ?n, s + ?n))"
    using scan_takeWhile[OF Suc.prems, of "\<lambda>c. c \<noteq> 10"] by (simp add: line_sp_def Let_def)
  show ?case
  proof (cases "s + ?n \<ge> length t")
    case True
    then have "?n \<ge> length (drop s t)" by simp
    with True sp show ?thesis by (simp add: slice_def Let_def)
  next
    case False
    then have "\<not> ?n \<ge> length (drop s t)" by simp
    moreover obtain fs e where fs: "cuts (line_sp t) t k (s + ?n) = (fs, e)" by fastforce
    moreover have "fs @ [slice t e (length t)] = split_lines k (drop (s + ?n) t)"
      using Suc.IH[of "s + ?n"] False fs by simp
    ultimately show ?thesis using False sp by (simp add: slice_def Let_def add.commute add.left_commute)
  qed
qed

lemma pp_split_lines:
  assumes r: "\<not> has_flag r RXf_WHITE" "has_flag r RXf_START_ONLY" "\<not> has_flag r RXf_SKIPWHITE" "rx_nparens r = 0"
    and t: "length t + 12 < 2 ^ 31"
  shows "pp_split t r limit = Some (Inr (split_result limit (split_lines (cut_count limit t) t)))"
proof -
  obtain fs e where fs: "cuts (line_sp t) t (cut_count limit t) 0 = (fs, e)" by fastforce
  have range: "length fs \<le> length t" "e \<le> length t" using line.cuts_range[OF _ fs] by auto
  have loop: "split_fields t r l 0 = Some (case cuts (line_sp t) t k 0 of (fs, e) \<Rightarrow> (e, map Some fs))"
    if "l > 0 \<and> k = nat (l - 1) \<or> l < 0 \<and> length t - 0 \<le> k" for k l
    using line.loop_cuts[of 0 t l k "[]"] that r(1,2) by (simp add: split_fields_def)
  have "split_fields t r (if limit = 0 then int (length t) + 10 + 2 else limit) 0 = Some (e, map Some fs)"
    using cut_count_cuts[OF line.field_splitter_axioms, of 0 t r limit] loop fs by simp
  from pp_split_finish[OF this _ range t r(4)] r(3) cuts_split_lines[of 0 t "cut_count limit t"] fs
  show ?thesis by simp
qed

text \<open>The fields between runs of white space.\<close>

fun split_white :: "nat \<Rightarrow> u8 list \<Rightarrow> u8 list list" where
  "split_white 0 xs = [xs]"
| "split_white (Suc k) xs =
   (let n = length (takeWhile (\<lambda>c. \<not> isSPACE c) xs)
    in if n \<ge> length xs then [xs] else take n xs # split_white k (dropWhile isSPACE (drop (n + 1) xs)))"

lemma cuts_split_white:
  "s \<le> length t \<Longrightarrow>
   (case cuts (white_sp t) t k s of (fs, e) \<Rightarrow> fs @ [slice t e (length t)]) = split_white k (drop s t)"
proof (induction k arbitrary: s)
  case 0
  then show ?case by (simp add: slice_def)
next
  case (Suc k)
  let ?n = "length (takeWhile (\<lambda>c. \<not> isSPACE c) (drop s t))"
  let ?s' = "scan isSPACE t (s + ?n + 1)"
  have sp: "white_sp t s = (if s + ?n \<ge> length t then None else Some (s + ?n, ?s'))"
    using scan_takeWhile[OF Suc.prems, of "\<lambda>c. \<not> isSPACE c"] by (simp add: white_sp_def Let_def)
  show ?case
  proof (cases "s + ?n \<ge> length t")
    case True
    then have "?n \<ge> length (drop s t)" by simp
    with True sp show ?thesis by (simp add: slice_def Let_def)
  next
    case False
    then have n: "\<not> ?n \<ge> length (drop s t)" "s + ?n + 1 \<le> length t" by simp_all
    have s': "?s' \<le> length t" using scan_range[OF n(2)] by simp
    have "drop ?s' t = drop (length (takeWhile isSPACE (drop (s + ?n + 1) t))) (drop (s + ?n + 1) t)"
      using scan_takeWhile[OF n(2)] by (simp add: add.commute)
    then have rest: "drop ?s' t = dropWhile isSPACE (drop (?n + 1) (drop s t))"
      by (simp add: dropWhile_eq_drop add.commute add.left_commute)
    obtain fs e where fs: "cuts (white_sp t) t k ?s' = (fs, e)" by fastforce
    have "fs @ [slice t e (length t)] = split_white k (drop ?s' t)" using Suc.IH[OF s'] fs by simp
    with fs sp False n rest show ?thesis by (simp add: slice_def Let_def del: drop_drop)
  qed
qed

lemma skip_white_correct: "s \<le> length t \<Longrightarrow> skip_white t s = s + length (takeWhile isSPACE (drop s t))"
proof (induction t s rule: skip_white.induct)
  case (1 t s)
  then show ?case
    by (cases "s < length t") (auto simp: skip_white.simps[of t s] skip_white.simps[of t "length t"] rd_def
        isSPACE_def[of 0] Cons_nth_drop_Suc[symmetric])
qed

text \<open>\<open>split\<close> at white space; \<open>RXf_SKIPWHITE\<close> first takes the white space at the beginning away.\<close>

lemma pp_split_white:
  assumes r: "has_flag r RXf_WHITE" "rx_nparens r = 0" and t: "length t + 12 < 2 ^ 31"
    and xs: "xs = (if has_flag r RXf_SKIPWHITE then dropWhile isSPACE t else t)"
  shows "pp_split t r limit = Some (Inr (split_result limit (split_white (cut_count limit t) xs)))"
proof -
  let ?s = "if has_flag r RXf_SKIPWHITE then skip_white t 0 else 0"
  have s: "?s \<le> length t" "drop ?s t = xs"
    using skip_white_correct[of 0 t] length_takeWhile_le[of isSPACE t] by (auto simp: xs dropWhile_eq_drop)
  obtain fs e where fs: "cuts (white_sp t) t (cut_count limit t) ?s = (fs, e)" by fastforce
  have range: "length fs \<le> length t" "e \<le> length t" using white.cuts_range[OF s(1) fs] by auto
  have loop: "split_fields t r l ?s = Some (case cuts (white_sp t) t k ?s of (fs, e) \<Rightarrow> (e, map Some fs))"
    if "l > 0 \<and> k = nat (l - 1) \<or> l < 0 \<and> length t - ?s \<le> k" for k l
    using white.loop_cuts[OF s(1), of l k "[]"] that r(1) by (simp add: split_fields_def)
  have "split_fields t r (if limit = 0 then int (length t) + 10 + 2 else limit) ?s = Some (e, map Some fs)"
    using cut_count_cuts[OF white.field_splitter_axioms s(1), of r limit] loop fs by simp
  from pp_split_finish[OF this refl range t r(2)] cuts_split_white[OF s(1), of "cut_count limit t"] fs s(2)
  show ?thesis by simp
qed

section \<open>The property\<close>

text \<open>
  C12: \<open>split\<close> at a fixed string, of one byte or more, with any limit, of a text shorter than \<open>2 ^ 31 - 12\<close>
  bytes (\<open>maxiters\<close>, its length and 10, is an \<open>I32\<close>): it ends without the panic, reads
  nothing outside the text, and gives the fields before the first \<open>limit - 1\<close> separators (all of
  them if the limit is not positive) and the rest, which joined by the separator are the text; an
  empty text has no fields, and where the low 32 bits of the limit are 0 the empty fields at the end
  are taken away.
\<close>

theorem split_at_string:
  assumes "fixed_pattern r pv" "length t + 12 < 2 ^ 31"
  shows "pp_split t r limit = Some (Inr (split_result limit (split_on pv (cut_count limit t) t))) \<and>
    join_with pv (split_on pv (cut_count limit t) t) = t"
  using pp_split_fixed[OF assms] join_split_on by blast

text \<open>\<open>a--b--\<close> at \<open>--\<close>, and the same with the limits -1, 2 and \<open>2 ^ 32\<close>.\<close>

theorem split_at_string_witness:
  "\<exists>r. fixed_pattern r [45, 45] \<and>
     pp_split [97, 45, 45, 98, 45, 45] r 0 = Some (Inr [Some [97], Some [98]]) \<and>
     pp_split [97, 45, 45, 98, 45, 45] r (- 1) = Some (Inr [Some [97], Some [98], Some []]) \<and>
     pp_split [97, 45, 45, 98, 45, 45] r 2 = Some (Inr [Some [97], Some [98, 45, 45]]) \<and>
     pp_split [97, 45, 45, 98, 45, 45] r (2 ^ 32) = Some (Inr [Some [97], Some [98]])"
proof -
  obtain sv where sv: "compiled sv [45, 45] False"
    using fbm_compile_compiled[of "[45, 45]" 0] by auto
  define r where "r = \<lparr>rx_extflags = 0x02400000, rx_nparens = 0, rx_minlenret = 2,
    rx_intuit_string = sv, rx_exec = (\<lambda>_ _. None)\<rparr>"
  have fixed: "fixed_pattern r [45, 45]"
    using sv
    by (simp add: fixed_pattern_def has_flag_def r_def RXf_WHITE_def RXf_START_ONLY_def RXf_SKIPWHITE_def
        RXf_USE_INTUIT_def RXf_CHECK_ALL_def RXf_ANCH_def RXf_INTUIT_TAIL_def)
  have I: "to_I32 0 = 0" "to_I32 (- 1) = - 1" "to_I32 2 = 2" "to_I32 4294967296 = 0"
    by (simp_all add: to_I32_def)
  have on: "split_on [45, 45] (Suc (Suc k)) [97, 45, 45, 98, 45, 45] = [[97], [98], []]"
    "split_on [45, 45] (Suc 0) [97, 45, 45, 98, 45, 45] = [[97], [98, 45, 45]]" for k
    by (cases k; simp add: first_in_def occurs_at_def upt_rec)+
  note at = conjunct1[OF split_at_string[OF fixed, of "[97, 45, 45, 98, 45, 45]"]]
  have "pp_split [97, 45, 45, 98, 45, 45] r l = Some (Inr (split_result l [[97], [98], []]))"
    if "cut_count l [97, 45, 45, 98, 45, 45] = Suc (Suc k)" for l k
    using at[of l] that on(1)[of k] by simp
  from this[of 0 4] this[of "- 1" 4] this[of "2 ^ 32" 4294967293] at[of 2] on(2) fixed show ?thesis
    by (intro exI[of _ r]) (simp add: cut_count_def split_result_def I empty_field_def)
qed

end
