(* ===== verification/Spec2Isabelle.thy ===== *)
theory Spec2Isabelle
  imports Kurila_Prelude Ptr_Table Grok_Numeric Grok_Decimal Utf8_Codec Utf8_String Utf8_Convert Av_Deque Keyword C3_Merge Mro_Cache Mro_State Merge_Sort Hash_Core Shared_Strings Hash_Table Hash_Inv Hash_Split Hash_Ops Hash_Delete Hash_Whole Hash_Map Hash_Iter Hash_Presize Hash_Copy Scream Split
begin

text \<open>
  Kurila is an interpreter in C, a descendant of Perl 5. This development models the components of
  the interpreter that keep their own state or compute a function of their own: the
  containers (arrays, hashes, the table of shared keys, the pointer map), the method
  resolution order, the merge sort, the reserved words, numeric literals and UTF-8.

  \<^bold>\<open>How the parts interact.\<close> A hash keeps its keys in the table of shared strings and gives them
  back when an entry is freed. A package is a hash with a name; its linearized list of parents
  is cached beside it and must follow the changes of \<open>@ISA\<close> and of methods. The lexer asks
  \<open>Perl_keyword\<close> about every identifier and hands the text of a number to the \<open>scan_\<close> and
  \<open>grok_\<close> functions. Strings become UTF-8 and back by the conversions. The sort
  operator calls the merge sort on an array of pointers. Cloning an interpreter maps old addresses
  to new ones by the pointer map.

  \<^bold>\<open>Conventions.\<close> \<open>Kurila_Prelude\<close> fixes the C types of the configuration (64-bit Linux with
  gcc: \<open>IV\<close>, \<open>UV\<close> and pointers of 64 bits, \<open>I32\<close> and \<open>U32\<close>, signed \<open>char\<close>), the errors
  (\<open>croak\<close>, one constructor per message; \<open>Null_pointer\<close> for a wild access, so that a theorem that a
  result is \<open>Inr\<close> also says there is none), and the interface of a keyed store. The memory
  allocator is a parameter: a predicate that tells which requests succeed. Two facts about it
  occur as named hypotheses: no object has \<open>2 ^ 63\<close> bytes (\<open>sane_allocator\<close>), or no request of
  \<open>2 ^ 34\<close> bytes is granted (\<open>bounded_allocator\<close>, for hashes), and for totality that
  requests up to a bound succeed; concrete allocators are given with the witnesses. Every
  loop of the code is a structural recursion or has a termination proof; where it may run on, it has
  fuel, and that the fuel is enough is proved.

  \<^bold>\<open>Theories and sources.\<close>

  \<^item> \<open>Ptr_Table\<close> (\<open>sv.c\<close>, \<open>ptr_table_*\<close>): a chained table from addresses to addresses. It implements
    the interface of a keyed store; storing any list of pairs gives the map of the
    latest values, splits included; clearing puts the entries on the free list of bodies, whose link
    overwrites their \<open>next\<close>, and leaves bucket heads that a later lookup follows into it.
  \<^item> \<open>Grok_Numeric\<close>, \<open>Grok_Decimal\<close> (\<open>numeric.c\<close>): binary, octal and hexadecimal literals against
    their mathematical value, with the switch to a floating-point value on overflow; decimal recognition
    (\<open>grok_number\<close>) against the grammar of numbers and the exact bound of 64 bits; the casts of
    floating-point values saturate.
  \<^item> \<open>Utf8_Codec\<close>, \<open>Utf8_String\<close>, \<open>Utf8_Convert\<close> (\<open>utf8.c\<close>, \<open>utf8.h\<close>): the extended UTF-8 of
    Perl up to 64 bits. Encoding then decoding is the identity; the recognisers accept exactly the
    encodings of the code points allowed; counting and hopping agree; the conversions from and to
    bytes invert each other, and \<open>utf8_to_bytes\<close> works in place on a heap of bytes.
  \<^item> \<open>Av_Array\<close>, \<open>Av_Deque\<close> (\<open>av.c\<close>, \<open>av.h\<close>): arrays with the block, the offset of the first
    element in it, and the fill mark. The four stack operations refine a double-ended queue
    (a locale with its own list specification); store, fetch, fill, delete, clear and the
    readonly checks are list operations. The bound is \<open>2 ^ 26\<close> elements and blocks of 16 gigabytes.
  \<^item> \<open>Keyword\<close> (\<open>toke.c\<close>, \<open>Perl_keyword\<close>; \<open>keywords.h\<close>): the decision tree, branch by branch,
    gives for every string what the list of keywords says.
  \<^item> \<open>C3_Merge\<close>, \<open>Mro_Cache\<close>, \<open>Mro_State\<close> (\<open>mro.c\<close>, with the structures of \<open>hv.h\<close>): the merge with
    indices and a table of counts equals the textbook C3 merge, which succeeds exactly when an
    order exists. The caches are a state machine; a linearization asked for is
    always the one of the current \<open>@ISA\<close> arrays (to a depth of 100, the limit of the code), unless an assignment
    died in between: that leaves the reverse index behind, and a class that is missing there keeps its cache.
  \<^item> \<open>Sort_Cells\<close>, \<open>Sort_Runs\<close>, \<open>Sort_Merge\<close>, \<open>Merge_Sort\<close> (\<open>pp_sort.c\<close>): the natural merge sort
    on its two arrays. For every comparison function it stays inside the arrays and permutes; for
    a total preorder the result is the stable sort (a descending sort negates the comparison's \<open>I32\<close>, so
    there the least \<open>I32\<close> is excluded). The bound is less than \<open>2 ^ 59\<close> elements, for
    which the 60 levels of the pseudo-stack are enough.
  \<^item> \<open>Hash_Core\<close>, \<open>Shared_Strings\<close> (\<open>hv.c\<close>, \<open>PL_strtab\<close> of \<open>perl.c\<close>): the hash function, chains,
    the doubling of an array of buckets, and the table of shared keys, whose counts are the
    references held.
  \<^item> \<open>Hash_Table\<close> (\<open>hv.c\<close>, \<open>hv.h\<close>, \<open>hv_i.h\<close>): the state of a hash and \<open>hv_common\<close>, \<open>hv_delete_common\<close>,
    \<open>hsplit\<close> with the second hash function, and placeholders. \<open>Hash_Whole\<close>: the auxiliary structure,
    \<open>hfreeentries\<close>, \<open>hv_clear\<close>, \<open>hv_undef\<close> and \<open>hv_tmprefcnt\<close>. \<open>Hash_Inv\<close>, \<open>Hash_Split\<close>,
    \<open>Hash_Ops\<close> and \<open>Hash_Delete\<close> hold the invariant (\<open>hv_ok\<close>), the account of keys and values
    (\<open>acct\<close>) and what each operation does to both. \<open>Hash_Map\<close>: any sequence of nine operations
    (fetch, lvalue fetch, store, exists, delete, lock, unlock, clear, undef) on a new hash refines a finite
    map with a set of legal keys, keeps the hash well formed, and neither leaks nor releases twice. Such a hash
    has no iterator and no placeholder stored by its user: with these, clearing a restricted hash may leak
    the entry deleted under the iterator, and the count of placeholders may become wrong.
    \<open>Hash_Iter\<close>: the iterator; a loop over any well-formed hash visits every key once, also when it deletes.
    The count of placeholders is a natural number: fewer than \<open>2 ^ 31\<close> are assumed, as it is an \<open>I32\<close> in the code.
    An allocator that grants less than \<open>2 ^ 34\<close> bytes gives at most \<open>2 ^ 30\<close> buckets; keys are shorter than
    \<open>2 ^ 31\<close> bytes; the fuel of a loop must exceed the number of keys.
  \<^item> \<open>Hash_Presize\<close>, \<open>Hash_Copy\<close>: \<open>hv_ksplit\<close>, with the loop that finds the highest bit of the size and
    its overflow, and the copies \<open>newHVhv\<close> and \<open>hv_sethv\<close>, which bring deleted keys of a restricted
    hash back. (The copy of a rehashed hash is not well formed; the property is of the others.)
  \<^item> \<open>String_Search\<close>: \<open>instr\<close>, \<open>ninstr\<close>, \<open>rninstr\<close> and \<open>delimcpy\<close> (\<open>util.c\<close>) over a buffer in which
    every read is checked, against the first and the last place where a string lies.
  \<^item> \<open>Boyer_Moore\<close>: \<open>fbm_compile\<close> and \<open>fbm_instr\<close> (\<open>util.c\<close>), the shift table, the loops for
    strings of one and two bytes and the TAIL flags, and \<open>index\<close> and \<open>rindex\<close> (\<open>pp_index\<close>, \<open>pp.c\<close>)
    over them and over \<open>rninstr\<close>. The \<open>U32\<close> index of \<open>fbm_compile\<close> and the \<open>I32\<close> that counts the string in
    \<open>fbm_instr\<close> keep their width: a string of \<open>2 ^ 32\<close> bytes is never compiled (a partial function has no
    value), and the search is right for strings shorter than \<open>2 ^ 31 - 1\<close> bytes.
  \<^item> \<open>Scream\<close>: \<open>pp_study\<close> (\<open>pp.c\<close>), which links the places of each byte of a text, and
    \<open>screaminstr\<close> (\<open>util.c\<close>), which follows the links of a compiled string's rarest byte. Its loops
    are partial functions; that they return is part of the property. \<open>PL_maxscream\<close> is an \<open>I32\<close> that may wrap.
  \<^item> \<open>Split\<close>: \<open>pp_split\<close> (\<open>pp.c\<close>): white space, lines, one byte, a fixed string searched with
    \<open>fbm_instr\<close>, and other patterns with the matcher as a parameter; the limit and the empty fields
    at the end. The first four loops are instances of the interface \<open>field_splitter\<close>. The bound on the text,
    \<open>2 ^ 31 - 12\<close> bytes, is that of the \<open>I32\<close> in which the code counts the fields it allows.

  \<^bold>\<open>Interfaces.\<close> The locales are \<open>keyed_store\<close> (the pointer map, hashes), \<open>deque\<close> (arrays),
  \<open>radix_scanner\<close> (the three literal scanners) and \<open>field_splitter\<close> (the loops of split), each interpreted on the definitions of the
  code that provide it.

  \<^bold>\<open>Not modelled.\<close> \<open>split\<close> on UTF-8 patterns, the rest of the lexer, the parser and the op tree (generated tables, and
  structures of the whole interpreter), the regular expressions, the operators and input and
  output (bound to the interpreter's stacks and the operating system), scalars and magic
  (a released value is recorded as an event; destructors that run then do not touch the
  container), the quicksort variant of sort, floating-point conversion (rounding of the C
  library), Unicode classes (tables that Perl code loads at run time), extensions, ports
  and generated headers. Of the hashes: tied hashes with scalar keys, the re-creation of
  entries by destructors while a hash is freed, and the arenas of entries.

  \<^bold>\<open>What the proofs turned up.\<close> Where the code departs from what it means to do the theorem says
  what it does: octal literals with an underscore before a zero, a linearization left stale by a
  death, a cleared pointer map that dangles, overlong UTF-8 that is converted, overflow in
  decoding that is not seen, UTF-16 with signed characters, a search (\<open>ninstr\<close>, and so \<open>index\<close>) that
  takes the byte behind the text for a part of it.
\<close>

end
